(* ===== verification/Prelude.thy ===== *)
theory Prelude
  imports Main "HOL-Library.Word" "HOL-Library.Monad_Syntax" "HOL-Library.Multiset"
begin

text \<open>
  Shared vocabulary of the development.

  The C sources are modelled over explicit memory: an array (or a page) is a list of cells, and
  every access the code makes goes through \<open>c_read\<close> and \<open>c_write\<close>.  An access outside
  the array is undefined behaviour in C; the model returns \<^term>\<open>None\<close> for it.  A theorem that
  an operation returns \<^term>\<open>Some\<close> therefore also says that it makes no access out of bounds.

  Unsigned C integers are either words or natural numbers with the wrap-around written out by
  \<open>u16\<close> and \<open>u32\<close>.  The sizes are those of the 64-bit little-endian iOS targets.
\<close>

unbundle bit_operations_syntax

named_theorems mem_simps \<open>laws of checked reads and writes\<close>

type_synonym byte = "8 word"
type_synonym mdb_id = "64 word"

section \<open>Machine integers\<close>

definition u16 :: "nat \<Rightarrow> nat" where
  "u16 x = x mod 2 ^ 16"

definition u32 :: "nat \<Rightarrow> nat" where
  "u32 x = x mod 2 ^ 32"

lemma u16_small [simp]: "x < 65536 \<Longrightarrow> u16 x = x"
  by (simp add: u16_def)

lemma u32_small [simp]: "x < 4294967296 \<Longrightarrow> u32 x = x"
  by (simp add: u32_def)

lemma u16_less [simp]: "u16 x < 65536"
  by (simp add: u16_def)

lemma u32_less [simp]: "u32 x < 4294967296"
  by (simp add: u32_def)

lemma mod_sub_wrap: "b \<le> a \<Longrightarrow> a < n \<Longrightarrow> (a + n - b) mod n = a - (b :: nat)"
  by (metis Nat.add_diff_assoc2 less_imp_diff_less mod_add_self2 mod_less)

lemma u16_sub [simp]: "b \<le> a \<Longrightarrow> a < 65536 \<Longrightarrow> u16 (a + 65536 - b) = a - b"
  using mod_sub_wrap [of b a 65536] by (simp add: u16_def)

lemma u32_sub [simp]: "b \<le> a \<Longrightarrow> a < 4294967296 \<Longrightarrow> u32 (a + 4294967296 - b) = a - b"
  using mod_sub_wrap [of b a 4294967296] by (simp add: u32_def)

text \<open>\<open>n - 1\<close> computed on unsigned 32-bit integers and stored in 16 bits.\<close>

lemma u16_pred: "0 < n \<Longrightarrow> n \<le> 65536 \<Longrightarrow> u16 (n + 4294967296 - 1) = n - 1"
proof -
  assume n: "0 < n" "n \<le> 65536"
  have eq: "n + 4294967296 - 1 = n - 1 + 65536 * 65536" using n by simp
  have "u16 x = x mod 65536" for x by (simp add: u16_def)
  then have "u16 (n - 1 + 65536 * 65536) = u16 (n - 1)" by (metis mod_mult_self2)
  then show ?thesis unfolding eq using n by simp
qed

section \<open>Checked memory\<close>

definition c_read :: "'a list \<Rightarrow> nat \<Rightarrow> 'a option" where
  "c_read xs i = (if i < length xs then Some (xs ! i) else None)"

definition c_write :: "'a list \<Rightarrow> nat \<Rightarrow> 'a \<Rightarrow> 'a list option" where
  "c_write xs i v = (if i < length xs then Some (xs[i := v]) else None)"

lemma c_read_Some [mem_simps]: "i < length xs \<Longrightarrow> c_read xs i = Some (xs ! i)"
  by (simp add: c_read_def)

lemma c_write_Some [mem_simps]: "i < length xs \<Longrightarrow> c_write xs i v = Some (xs[i := v])"
  by (simp add: c_write_def)

lemma c_read_eq_Some_iff: "c_read xs i = Some v \<longleftrightarrow> i < length xs \<and> v = xs ! i"
  by (auto simp: c_read_def)

lemma c_write_eq_Some_iff: "c_write xs i v = Some ys \<longleftrightarrow> i < length xs \<and> ys = xs[i := v]"
  by (auto simp: c_write_def)

text \<open>The exchange of two cells, as the swap macros of the sources do it.\<close>

definition c_swap :: "'a list \<Rightarrow> nat \<Rightarrow> nat \<Rightarrow> 'a list option" where
  "c_swap xs i j = do {
     a \<leftarrow> c_read xs i;
     b \<leftarrow> c_read xs j;
     xs \<leftarrow> c_write xs i b;
     c_write xs j a }"

lemma c_swap_Some [mem_simps]:
  "i < length xs \<Longrightarrow> j < length xs \<Longrightarrow> c_swap xs i j = Some (xs[i := xs ! j, j := xs ! i])"
  by (simp add: c_swap_def mem_simps)

lemma c_swap_eq_Some_iff:
  "c_swap xs i j = Some ys \<longleftrightarrow>
     i < length xs \<and> j < length xs \<and> ys = xs[i := xs ! j, j := xs ! i]"
  by (auto simp: c_swap_def c_read_def c_write_def)

section \<open>The allocator\<close>

text \<open>
  \<open>malloc\<close> and \<open>realloc\<close> may fail, and the cells they add are not initialised.  Every
  operation that allocates takes the allocator's answer as an argument: \<^term>\<open>None\<close> for a
  failed call, or a function giving the (arbitrary) contents of the new cells.
\<close>

type_synonym 'a alloc = "(nat \<Rightarrow> 'a) option"

definition c_malloc :: "'a alloc \<Rightarrow> nat \<Rightarrow> 'a list option" where
  "c_malloc al n = map_option (\<lambda>junk. map junk [0..<n]) al"

definition c_realloc :: "'a alloc \<Rightarrow> 'a list \<Rightarrow> nat \<Rightarrow> 'a list option" where
  "c_realloc al xs n = map_option (\<lambda>junk. take n xs @ map junk [length xs..<n]) al"

lemma c_realloc_None [mem_simps]: "c_realloc None xs n = None"
  by (simp add: c_realloc_def)

lemma c_realloc_grow [mem_simps]:
  "length xs \<le> n \<Longrightarrow>
     c_realloc (Some junk) xs n = Some (xs @ map junk [length xs..<n])"
  by (simp add: c_realloc_def)

section \<open>Lists by position\<close>

lemma ball_take_nth: "(\<forall>x \<in> set (take n xs). P x) \<longleftrightarrow> (\<forall>i < length xs. i < n \<longrightarrow> P (xs ! i))"
  by (auto simp: all_set_conv_all_nth)

lemma ball_drop_nth: "(\<forall>x \<in> set (drop n xs). P x) \<longleftrightarrow> (\<forall>i < length xs. n \<le> i \<longrightarrow> P (xs ! i))"
proof -
  have "(\<forall>x \<in> set (drop n xs). P x) \<longleftrightarrow> (\<forall>i < length xs - n. P (xs ! (n + i)))"
    by (auto simp: all_set_conv_all_nth)
  also have "\<dots> \<longleftrightarrow> (\<forall>i < length xs. n \<le> i \<longrightarrow> P (xs ! i))"
    by (metis add_diff_inverse_nat diff_less_mono le_add1 less_diff_conv2 less_imp_le_nat
        nat_le_linear not_less add.commute less_diff_conv)
  finally show ?thesis .
qed

lemma bex_set_nth: "(\<exists>x \<in> set xs. P x) \<longleftrightarrow> (\<exists>i < length xs. P (xs ! i))"
  by (metis in_set_conv_nth)

lemma nth_mem_drop: "lo \<le> i \<Longrightarrow> i < length xs \<Longrightarrow> xs ! i \<in> set (drop lo xs)"
  using ball_drop_nth [of lo xs "\<lambda>x. x \<in> set (drop lo xs)"] by blast

lemma take_take_drop: "take a xs @ take b (drop a xs) @ drop (a + b) xs = xs"
  by (metis add.commute append_take_drop_id drop_drop)

lemma upt_split: "k < n \<Longrightarrow> [0..<n] = [0..<k] @ k # [Suc k..<n]"
  using upt_add_eq_append [of 0 k "n - k"] by (simp add: upt_conv_Cons)

section \<open>Words read as naturals\<close>

lemma unat_ucast_32_64 [simp]: "unat (ucast (n :: 32 word) :: 64 word) = unat n"
proof -
  have "unat n < 2 ^ LENGTH(32)" by (rule unsigned_less)
  then show ?thesis by (simp add: unsigned_ucast_eq take_bit_nat_eq_self_iff)
qed

lemma unat_plus_small:
  "unat (x :: 'a::len word) + unat y < 2 ^ LENGTH('a) \<Longrightarrow> unat (x + y) = unat x + unat y"
  by (rule unat_add_lem [THEN iffD1])

lemma unat_Suc_less: "(x :: 'a::len word) < y \<Longrightarrow> unat (x + 1) = unat x + 1"
proof -
  assume "x < y"
  moreover have "unat y < 2 ^ LENGTH('a)" by (rule unsigned_less)
  ultimately have "unat x + unat (1 :: 'a word) < 2 ^ LENGTH('a)"
    unfolding word_less_nat_alt unat_1 by linarith
  then show ?thesis by (subst unat_plus_small) auto
qed

lemma sint_small:
  fixes w :: "32 word"
  assumes "unat w < 2 ^ 31" shows "sint w = int (unat w)"
proof -
  have "uint w < 2 ^ 31" using assms by (metis of_nat_less_iff of_nat_numeral of_nat_power of_nat_unat)
  moreover have "- (2 ^ 31) \<le> uint w" by (rule order_trans [of _ 0]) auto
  ultimately show ?thesis using signed_take_bit_int_eq_self [of 31 "uint w"] by (simp add: sint_uint)
qed

section \<open>Orders\<close>

abbreviation descending :: "'a::linorder list \<Rightarrow> bool" where
  "descending \<equiv> sorted_wrt (\<ge>)"

end
