(* ===== verification/Bsearch.thy ===== *)
theory Bsearch
  imports Prelude
begin

text \<open>
  The binary search that the ID list functions share, as an interface: a loop that satisfies the
  search loop's equation for some three-way comparison \<open>probe\<close> finds the place of a key in any array
  along which the comparison falls from positive to negative.  \<open>midl.c\<close> has two such loops; the
  theory of the ID lists interprets the locale on both.
\<close>

locale bsearch =
  fixes loop :: "'a list \<Rightarrow> 'k \<Rightarrow> nat \<Rightarrow> nat \<Rightarrow> int \<Rightarrow> nat \<Rightarrow> nat option"
    and probe :: "'a \<Rightarrow> 'k \<Rightarrow> int"
  assumes loop_unfold:
    "loop ids key base cursor val n =
       (if 0 < n then
          let pivot = n div 2;
              cursor = base + pivot + 1
          in do {
            x \<leftarrow> c_read ids cursor;
            let val = probe x key;
            if val < 0 then loop ids key base cursor val pivot
            else if val > 0 then loop ids key cursor cursor val (n - (pivot + 1))
            else Some cursor }
        else Some (if val > 0 then u32 (cursor + 1) else cursor))"
begin

text \<open>
  The comparison results along the first \<open>N\<close> elements fall from positive over zero to negative,
  which is what a sorted array gives.
\<close>

definition falling :: "'a list \<Rightarrow> 'k \<Rightarrow> nat \<Rightarrow> bool" where
  "falling ids key N \<longleftrightarrow>
     (\<forall>i j. 1 \<le> i \<and> i \<le> j \<and> j \<le> N \<longrightarrow>
        (probe (ids ! j) key > 0 \<longrightarrow> probe (ids ! i) key > 0) \<and>
        (probe (ids ! i) key < 0 \<longrightarrow> probe (ids ! j) key < 0))"

definition located :: "'a list \<Rightarrow> 'k \<Rightarrow> nat \<Rightarrow> nat \<Rightarrow> bool" where
  "located ids key N r \<longleftrightarrow>
     1 \<le> r \<and> r \<le> N + 1 \<and>
     (r \<le> N \<and> probe (ids ! r) key = 0 \<or>
      (\<forall>i. 1 \<le> i \<and> i \<le> N \<longrightarrow>
         (i < r \<longrightarrow> probe (ids ! i) key > 0) \<and> (r \<le> i \<longrightarrow> probe (ids ! i) key < 0)))"

lemma loop_located:
  assumes "falling ids key N" "N < length ids" "N + 1 < 2 ^ 32" "base + n \<le> N"
    and "\<forall>i. 1 \<le> i \<and> i \<le> base \<longrightarrow> probe (ids ! i) key > 0"
    and "\<forall>i. base + n < i \<and> i \<le> N \<longrightarrow> probe (ids ! i) key < 0"
    and "n = 0 \<longrightarrow> (if val > 0 then cursor = base else cursor = base + 1)"
  shows "\<exists>r. loop ids key base cursor val n = Some r \<and> located ids key N r"
  using assms(4-7)
proof (induction n arbitrary: base cursor val rule: less_induct)
  case (less n)
  show ?case
  proof (cases "n = 0")
    case True
    then have "loop ids key base cursor val n = Some (base + 1)"
      using less.prems assms(3) by (subst loop_unfold) auto
    moreover have "located ids key N (base + 1)"
      using True less.prems by (auto simp: located_def)
    ultimately show ?thesis by blast
  next
    case False
    let ?p = "n div 2"
    let ?c = "base + ?p + 1"
    let ?v = "probe (ids ! ?c) key"
    have c: "base < ?c" "?c \<le> base + n" "?c \<le> N" using False less.prems by auto
    have step: "loop ids key base cursor val n =
        (if ?v < 0 then loop ids key base ?c ?v ?p
         else if ?v > 0 then loop ids key ?c ?c ?v (n - (?p + 1)) else Some ?c)"
      using False c assms(2) by (subst loop_unfold) (simp add: mem_simps Let_def)
    consider "?v < 0" | "?v > 0" | "?v = 0" by linarith
    then show ?thesis
    proof cases
      case 1
      have "\<exists>r. loop ids key base ?c ?v ?p = Some r \<and> located ids key N r"
      proof (rule less.IH)
        show "\<forall>i. base + ?p < i \<and> i \<le> N \<longrightarrow> probe (ids ! i) key < 0"
        proof (intro allI impI)
          fix i assume "base + ?p < i \<and> i \<le> N"
          then have "1 \<le> ?c \<and> ?c \<le> i \<and> i \<le> N" by auto
          with 1 assms(1) show "probe (ids ! i) key < 0" unfolding falling_def by blast
        qed
        show "?p = 0 \<longrightarrow> (if ?v > 0 then ?c = base else ?c = base + 1)"
        proof
          assume p0: "?p = 0"
          show "if ?v > 0 then ?c = base else ?c = base + 1"
            using 1 unfolding p0 by simp
        qed
      qed (use less.prems False in auto)
      with 1 step show ?thesis by simp
    next
      case 2
      have "\<exists>r. loop ids key ?c ?c ?v (n - (?p + 1)) = Some r \<and> located ids key N r"
      proof (rule less.IH)
        show "\<forall>i. 1 \<le> i \<and> i \<le> ?c \<longrightarrow> probe (ids ! i) key > 0"
          using 2 c assms(1) unfolding falling_def by blast
        show "\<forall>i. ?c + (n - (?p + 1)) < i \<and> i \<le> N \<longrightarrow> probe (ids ! i) key < 0"
          using less.prems(3) False by auto
      qed (use 2 less.prems False in auto)
      with 2 step show ?thesis by simp
    next
      case 3
      then have "located ids key N ?c" using c by (simp add: located_def)
      with 3 step show ?thesis by simp
    qed
  qed
qed

lemma located_split:
  assumes fall: "falling ids key N" and N: "N < length ids" and loc: "located ids key N r"
  defines "xs \<equiv> take N (tl ids)"
  shows "(\<forall>x \<in> set (take (r - 1) xs). probe x key \<ge> 0)"
    and "(\<forall>x \<in> set (drop (r - 1) xs). probe x key \<le> 0)"
    and "(\<exists>x \<in> set xs. probe x key = 0) \<longleftrightarrow> r \<le> N \<and> probe (xs ! (r - 1)) key = 0"
proof -
  have len: "length xs = N" using N by (auto simp: xs_def)
  have nth: "ids ! Suc i = xs ! i" if "i < N" for i
    using that N by (simp add: xs_def nth_tl)
  have mono: "(probe (xs ! j) key > 0 \<longrightarrow> probe (xs ! i) key > 0) \<and>
      (probe (xs ! i) key < 0 \<longrightarrow> probe (xs ! j) key < 0)" if "i \<le> j" "j < N" for i j
    using fall [unfolded falling_def, THEN spec [of _ "Suc i"], THEN spec [of _ "Suc j"]]
      that nth [of i] nth [of j] by simp
  have r1: "1 \<le> r" and idx: "r \<le> N \<Longrightarrow> r - 1 < N" using loc by (auto simp: located_def)
  consider (hit) "r \<le> N" "probe (xs ! (r - 1)) key = 0"
    | (miss) "\<forall>i < N. (i < r - 1 \<longrightarrow> probe (xs ! i) key > 0) \<and>
                     (r - 1 \<le> i \<longrightarrow> probe (xs ! i) key < 0)"
  proof (cases "r \<le> N \<and> probe (ids ! r) key = 0")
    case True
    then show ?thesis using nth [OF idx] r1 hit by simp
  next
    case False
    then have *: "\<forall>i. 1 \<le> i \<and> i \<le> N \<longrightarrow>
        (i < r \<longrightarrow> probe (ids ! i) key > 0) \<and> (r \<le> i \<longrightarrow> probe (ids ! i) key < 0)"
      using loc by (simp add: located_def) blast
    show ?thesis
    proof (rule miss, intro allI impI)
      fix i assume "i < N"
      with spec [OF *, of "Suc i"] nth [of i] r1
      show "(i < r - 1 \<longrightarrow> probe (xs ! i) key > 0) \<and> (r - 1 \<le> i \<longrightarrow> probe (xs ! i) key < 0)"
        by auto
    qed
  qed
  then have "(\<forall>i < N. i < r - 1 \<longrightarrow> probe (xs ! i) key \<ge> 0) \<and>
      (\<forall>i < N. r - 1 \<le> i \<longrightarrow> probe (xs ! i) key \<le> 0) \<and>
      ((\<exists>i < N. probe (xs ! i) key = 0) \<longleftrightarrow> r \<le> N \<and> probe (xs ! (r - 1)) key = 0)"
  proof cases
    case hit
    then show ?thesis using mono [of _ "r - 1"] mono [of "r - 1"] idx
      by (metis less_irrefl less_imp_le not_le_imp_less)
  next
    case miss
    then show ?thesis using idx by (metis less_imp_le less_irrefl not_le_imp_less le_refl)
  qed
  then show "(\<forall>x \<in> set (take (r - 1) xs). probe x key \<ge> 0)"
    and "(\<forall>x \<in> set (drop (r - 1) xs). probe x key \<le> 0)"
    and "(\<exists>x \<in> set xs. probe x key = 0) \<longleftrightarrow> r \<le> N \<and> probe (xs ! (r - 1)) key = 0"
    unfolding ball_take_nth ball_drop_nth bex_set_nth len by blast+
qed

corollary search_located:
  assumes "falling ids key N" "N < length ids" "N + 1 < 2 ^ 32"
  obtains r where "loop ids key 0 1 0 N = Some r" "located ids key N r"
  using loop_located [OF assms, of 0 N 0 1] by auto

end

end
