(* ===== verification/Midl.thy ===== *)
theory Midl
  imports Bsearch
begin

text \<open>
  ID lists, \<open>LegacyDatabase/midl.c\<close> and \<open>midl.h\<close>.

  An \<open>MDB_IDL\<close> points one word into its allocation: \<open>ids[-1]\<close> is the number of IDs the block has
  room for, \<open>ids[0]\<close> the number of IDs in the list and \<open>ids[1..]\<close> the IDs, in descending order
  once sorted.  The record \<open>idl\<close> holds the header word and the cells from \<open>ids[0]\<close> on;
  operations that never look at the header take the cells alone.  An \<open>MDB_ID2L\<close> pairs each ID
  with a pointer and is kept in ascending order; the transaction's dirty list is one.
\<close>

section \<open>Data\<close>

record idl =
  alloclen :: mdb_id
  cells :: "mdb_id list"

record 'p mdb_id2 =
  mid :: mdb_id
  mptr :: 'p

definition MDB_IDL_UM_MAX :: nat where
  "MDB_IDL_UM_MAX = 2 ^ 17 - 1"

definition CMP :: "'a::linorder \<Rightarrow> 'a \<Rightarrow> int" where
  "CMP x y = (if x < y then -1 else if x > y then 1 else 0)"

datatype midl_rc = MIDL_OK | MIDL_ENOMEM

text \<open>A C \<open>int\<close> (here 32 bits) used where a \<open>size_t\<close> is wanted is sign extended.\<close>

definition size_of_int :: "32 word \<Rightarrow> 64 word" where
  "size_of_int n = scast n"

text \<open>\<open>realloc(p, n * sizeof(MDB_ID))\<close>: the product is a \<open>size_t\<close> and may wrap.\<close>

definition id_words :: "64 word \<Rightarrow> nat" where
  "id_words n = unat (n * 8) div 8"

section \<open>Searching a descending list\<close>

function midl_search_loop ::
  "mdb_id list \<Rightarrow> mdb_id \<Rightarrow> nat \<Rightarrow> nat \<Rightarrow> int \<Rightarrow> nat \<Rightarrow> nat option" where
  "midl_search_loop ids key base cursor val n =
     (if 0 < n then
        let pivot = n div 2;
            cursor = base + pivot + 1
        in do {
          x \<leftarrow> c_read ids cursor;
          let val = CMP x key;
          if val < 0 then midl_search_loop ids key base cursor val pivot
          else if val > 0 then midl_search_loop ids key cursor cursor val (n - (pivot + 1))
          else Some cursor }
      else Some (if val > 0 then u32 (cursor + 1) else cursor))"
  by pat_completeness auto
termination
  by (relation "measure (\<lambda>(ids, key, base, cursor, val, n). n)") auto

definition mdb_midl_search :: "mdb_id list \<Rightarrow> mdb_id \<Rightarrow> nat option" where
  "mdb_midl_search ids key = do {
     n \<leftarrow> c_read ids 0;
     midl_search_loop ids key 0 1 0 (u32 (unat n)) }"

section \<open>Allocation\<close>

definition mdb_midl_alloc :: "mdb_id alloc \<Rightarrow> nat \<Rightarrow> idl option" where
  "mdb_midl_alloc al num =
     (case c_malloc al (num + 2) of
        None \<Rightarrow> None
      | Some blk \<Rightarrow> Some \<lparr>alloclen = of_nat num, cells = (tl blk)[0 := 0]\<rparr>)"

definition mdb_midl_shrink :: "mdb_id alloc \<Rightarrow> idl \<Rightarrow> bool \<times> idl" where
  "mdb_midl_shrink al ids =
     (if alloclen ids > of_nat MDB_IDL_UM_MAX then
        case c_realloc al (alloclen ids # cells ids) (MDB_IDL_UM_MAX + 1) of
          None \<Rightarrow> (False, ids)
        | Some blk \<Rightarrow> (True, \<lparr>alloclen = of_nat MDB_IDL_UM_MAX, cells = tl blk\<rparr>)
      else (False, ids))"

definition mdb_midl_grow :: "mdb_id alloc \<Rightarrow> idl \<Rightarrow> 32 word \<Rightarrow> midl_rc \<times> idl" where
  "mdb_midl_grow al ids num =
     (case c_realloc al (alloclen ids # cells ids) (id_words (alloclen ids + size_of_int num + 2)) of
        None \<Rightarrow> (MIDL_ENOMEM, ids)
      | Some blk \<Rightarrow> (MIDL_OK, \<lparr>alloclen = alloclen ids + size_of_int num, cells = tl blk\<rparr>))"

definition mdb_midl_need :: "mdb_id alloc \<Rightarrow> idl \<Rightarrow> nat \<Rightarrow> (midl_rc \<times> idl) option" where
  "mdb_midl_need al ids num = do {
     c \<leftarrow> c_read (cells ids) 0;
     let num = u32 (num + unat c);
     if num > unat (alloclen ids) then
       let num = u32 (num + num div 4 + (256 + 2)) div 256 * 256 in
       (case c_realloc al (alloclen ids # cells ids) num of
          None \<Rightarrow> Some (MIDL_ENOMEM, ids)
        | Some blk \<Rightarrow> Some (MIDL_OK, \<lparr>alloclen = of_nat (u32 (num + 2 ^ 32 - 2)), cells = tl blk\<rparr>))
     else Some (MIDL_OK, ids) }"

section \<open>Appending\<close>

definition mdb_midl_xappend :: "mdb_id list \<Rightarrow> mdb_id \<Rightarrow> mdb_id list option" where
  "mdb_midl_xappend ids x = do {
     c \<leftarrow> c_read ids 0;
     ids \<leftarrow> c_write ids 0 (c + 1);
     c_write ids (unat (c + 1)) x }"

definition mdb_midl_append :: "mdb_id alloc \<Rightarrow> idl \<Rightarrow> mdb_id \<Rightarrow> (midl_rc \<times> idl) option" where
  "mdb_midl_append al ids x = do {
     c \<leftarrow> c_read (cells ids) 0;
     let (rc, ids) = (if c \<ge> alloclen ids then mdb_midl_grow al ids (of_nat MDB_IDL_UM_MAX)
                      else (MIDL_OK, ids));
     if rc = MIDL_ENOMEM then Some (MIDL_ENOMEM, ids)
     else do {
       c \<leftarrow> c_read (cells ids) 0;
       a \<leftarrow> c_write (cells ids) 0 (c + 1);
       a \<leftarrow> c_write a (unat (c + 1)) x;
       Some (MIDL_OK, ids\<lparr>cells := a\<rparr>) } }"

text \<open>\<open>memcpy\<close> of \<open>n\<close> cells between two different arrays.\<close>

fun copy_cells :: "'a list \<Rightarrow> nat \<Rightarrow> 'a list \<Rightarrow> nat \<Rightarrow> nat \<Rightarrow> 'a list option" where
  "copy_cells dst d src s 0 = Some dst"
| "copy_cells dst d src s (Suc n) = do {
     x \<leftarrow> c_read src s;
     dst \<leftarrow> c_write dst d x;
     copy_cells dst (Suc d) src (Suc s) n }"

definition mdb_midl_append_list ::
  "mdb_id alloc \<Rightarrow> idl \<Rightarrow> mdb_id list \<Rightarrow> (midl_rc \<times> idl) option" where
  "mdb_midl_append_list al ids app = do {
     c \<leftarrow> c_read (cells ids) 0;
     ac \<leftarrow> c_read app 0;
     let (rc, ids) = (if c + ac \<ge> alloclen ids then mdb_midl_grow al ids (ucast ac)
                      else (MIDL_OK, ids));
     if rc = MIDL_ENOMEM then Some (MIDL_ENOMEM, ids)
     else do {
       c \<leftarrow> c_read (cells ids) 0;
       a \<leftarrow> copy_cells (cells ids) (unat (c + 1)) app 1 (unat ac);
       a \<leftarrow> c_write a 0 (c + ac);
       Some (MIDL_OK, ids\<lparr>cells := a\<rparr>) } }"

text \<open>The loop \<open>while (n) ids[n--] = id++\<close>, with \<open>ids\<close> already advanced by \<open>len\<close>.\<close>

fun append_range_loop :: "mdb_id list \<Rightarrow> nat \<Rightarrow> mdb_id \<Rightarrow> nat \<Rightarrow> mdb_id list option" where
  "append_range_loop ids len x 0 = Some ids"
| "append_range_loop ids len x (Suc n) = do {
     ids \<leftarrow> c_write ids (len + Suc n) x;
     append_range_loop ids len (x + 1) n }"

definition mdb_midl_append_range ::
  "mdb_id alloc \<Rightarrow> idl \<Rightarrow> mdb_id \<Rightarrow> 32 word \<Rightarrow> (midl_rc \<times> idl) option" where
  "mdb_midl_append_range al ids x n = do {
     len \<leftarrow> c_read (cells ids) 0;
     let (rc, ids) =
       (if len + ucast n > alloclen ids then mdb_midl_grow al ids (n OR of_nat MDB_IDL_UM_MAX)
        else (MIDL_OK, ids));
     if rc = MIDL_ENOMEM then Some (MIDL_ENOMEM, ids)
     else do {
       a \<leftarrow> c_write (cells ids) 0 (len + ucast n);
       a \<leftarrow> append_range_loop a (unat len) x (unat n);
       Some (MIDL_OK, ids\<lparr>cells := a\<rparr>) } }"

section \<open>Merging\<close>

text \<open>
  \<open>j\<close> counts down to the delimiter that \<open>mdb_midl_xmerge\<close> puts at \<open>idl[0]\<close>; running past it
  would read before the array.  \<open>k\<close> is an \<open>MDB_ID\<close>, so \<open>k--\<close> wraps at 0.
\<close>

definition dec64 :: "nat \<Rightarrow> nat" where
  "dec64 k = (if k = 0 then 2 ^ 64 - 1 else k - 1)"

fun xmerge_inner ::
  "mdb_id list \<Rightarrow> mdb_id \<Rightarrow> mdb_id \<Rightarrow> nat \<Rightarrow> nat \<Rightarrow> (mdb_id list \<times> mdb_id \<times> nat \<times> nat) option" where
  "xmerge_inner idl merge_id old_id 0 k =
     (if old_id < merge_id then None else Some (idl, old_id, 0, k))"
| "xmerge_inner idl merge_id old_id (Suc j) k =
     (if old_id < merge_id then do {
        idl \<leftarrow> c_write idl k old_id;
        old_id \<leftarrow> c_read idl j;
        xmerge_inner idl merge_id old_id j (dec64 k) }
      else Some (idl, old_id, Suc j, k))"

fun xmerge_outer ::
  "mdb_id list \<Rightarrow> mdb_id list \<Rightarrow> nat \<Rightarrow> mdb_id \<Rightarrow> nat \<Rightarrow> nat \<Rightarrow> mdb_id list option" where
  "xmerge_outer idl merge 0 old_id j k = Some idl"
| "xmerge_outer idl merge (Suc i) old_id j k = do {
     merge_id \<leftarrow> c_read merge (Suc i);
     (idl, old_id, j, k) \<leftarrow> xmerge_inner idl merge_id old_id j k;
     idl \<leftarrow> c_write idl k merge_id;
     xmerge_outer idl merge i old_id j (dec64 k) }"

definition mdb_midl_xmerge :: "mdb_id list \<Rightarrow> mdb_id list \<Rightarrow> mdb_id list option" where
  "mdb_midl_xmerge idl merge = do {
     i \<leftarrow> c_read merge 0;
     j \<leftarrow> c_read idl 0;
     let total = i + j;
     idl \<leftarrow> c_write idl 0 (-1);
     old_id \<leftarrow> c_read idl (unat j);
     idl \<leftarrow> xmerge_outer idl merge (unat i) old_id (unat j) (unat total);
     c_write idl 0 total }"

section \<open>The ID/pointer lists\<close>

function mid2l_search_loop ::
  "'p mdb_id2 list \<Rightarrow> mdb_id \<Rightarrow> nat \<Rightarrow> nat \<Rightarrow> int \<Rightarrow> nat \<Rightarrow> nat option" where
  "mid2l_search_loop ids key base cursor val n =
     (if 0 < n then
        let pivot = n div 2;
            cursor = base + pivot + 1
        in do {
          x \<leftarrow> c_read ids cursor;
          let val = CMP key (mid x);
          if val < 0 then mid2l_search_loop ids key base cursor val pivot
          else if val > 0 then mid2l_search_loop ids key cursor cursor val (n - (pivot + 1))
          else Some cursor }
      else Some (if val > 0 then u32 (cursor + 1) else cursor))"
  by pat_completeness auto
termination
  by (relation "measure (\<lambda>(ids, key, base, cursor, val, n). n)") auto

definition mdb_mid2l_search :: "'p mdb_id2 list \<Rightarrow> mdb_id \<Rightarrow> nat option" where
  "mdb_mid2l_search ids key = do {
     c \<leftarrow> c_read ids 0;
     mid2l_search_loop ids key 0 1 0 (u32 (unat (mid c))) }"

datatype mid2l_rc = MID2L_OK | MID2L_DUPLICATE | MID2L_TOO_BIG

text \<open>The loop \<open>for (i = ids[0].mid; i > x; i--) ids[i] = ids[i-1]\<close>.\<close>

fun shift_up :: "'a list \<Rightarrow> nat \<Rightarrow> nat \<Rightarrow> 'a list option" where
  "shift_up ids x 0 = Some ids"
| "shift_up ids x (Suc i) =
     (if Suc i > x then do {
        v \<leftarrow> c_read ids i;
        ids \<leftarrow> c_write ids (Suc i) v;
        shift_up ids x i }
      else Some ids)"

definition mdb_mid2l_insert ::
  "'p mdb_id2 list \<Rightarrow> 'p mdb_id2 \<Rightarrow> (mid2l_rc \<times> 'p mdb_id2 list) option" where
  "mdb_mid2l_insert ids e = do {
     x \<leftarrow> mdb_mid2l_search ids (mid e);
     if x < 1 then Some (MID2L_TOO_BIG, ids)
     else do {
       c \<leftarrow> c_read ids 0;
       dup \<leftarrow> (if x \<le> unat (mid c) then do { y \<leftarrow> c_read ids x; Some (mid y = mid e) }
               else Some False);
       if dup then Some (MID2L_DUPLICATE, ids)
       else if unat (mid c) \<ge> MDB_IDL_UM_MAX then Some (MID2L_TOO_BIG, ids)
       else do {
         ids \<leftarrow> c_write ids 0 (c\<lparr>mid := mid c + 1\<rparr>);
         ids \<leftarrow> shift_up ids x (unat (mid c + 1));
         ids \<leftarrow> c_write ids x e;
         Some (MID2L_OK, ids) } } }"

definition mdb_mid2l_append ::
  "'p mdb_id2 list \<Rightarrow> 'p mdb_id2 \<Rightarrow> (mid2l_rc \<times> 'p mdb_id2 list) option" where
  "mdb_mid2l_append ids e = do {
     c \<leftarrow> c_read ids 0;
     if unat (mid c) \<ge> MDB_IDL_UM_MAX then Some (MID2L_TOO_BIG, ids)
     else do {
       ids \<leftarrow> c_write ids 0 (c\<lparr>mid := mid c + 1\<rparr>);
       ids \<leftarrow> c_write ids (unat (mid c + 1)) e;
       Some (MID2L_OK, ids) } }"

section \<open>Laws of the search loops\<close>

declare midl_search_loop.simps [simp del] mid2l_search_loop.simps [simp del]

interpretation midl_bs: bsearch midl_search_loop CMP
  by unfold_locales (rule midl_search_loop.simps)

interpretation mid2l_bs: bsearch mid2l_search_loop "\<lambda>x key. CMP key (mid x)"
  by unfold_locales (rule mid2l_search_loop.simps)


section \<open>Abstraction\<close>

definition idl_list :: "mdb_id list \<Rightarrow> mdb_id list" where
  "idl_list ids = take (unat (ids ! 0)) (tl ids)"

definition idl_wf :: "mdb_id list \<Rightarrow> bool" where
  "idl_wf ids \<longleftrightarrow> unat (ids ! 0) < length ids"

lemma idl_wf_nonempty: "idl_wf ids \<Longrightarrow> ids \<noteq> []"
  by (auto simp: idl_wf_def)

lemma length_idl_list: "idl_wf ids \<Longrightarrow> length (idl_list ids) = unat (ids ! 0)"
  by (auto simp: idl_wf_def idl_list_def)

lemma idl_list_nth: "idl_wf ids \<Longrightarrow> i < unat (ids ! 0) \<Longrightarrow> idl_list ids ! i = ids ! Suc i"
  by (auto simp: idl_wf_def idl_list_def nth_tl)

lemma idl_cells: "idl_wf ids \<Longrightarrow> ids = ids ! 0 # idl_list ids @ drop (Suc (unat (ids ! 0))) ids"
  by (cases ids) (auto simp: idl_wf_def idl_list_def)

lemma CMP_less [simp]: "CMP x y < 0 \<longleftrightarrow> x < y"
  and CMP_greater [simp]: "CMP x y > 0 \<longleftrightarrow> x > y"
  and CMP_eq [simp]: "CMP x y = 0 \<longleftrightarrow> x = y"
  and CMP_le [simp]: "CMP x y \<le> 0 \<longleftrightarrow> x \<le> y"
  and CMP_ge [simp]: "CMP x y \<ge> 0 \<longleftrightarrow> x \<ge> y"
  by (auto simp: CMP_def)

lemma idl_falling:
  assumes "idl_wf ids" "sorted_wrt (\<ge>) (idl_list ids)"
  shows "midl_bs.falling ids key (unat (ids ! 0))"
proof -
  have "ids ! j \<le> ids ! i" if "1 \<le> i" "i \<le> j" "j \<le> unat (ids ! 0)" for i j
    using that assms sorted_wrt_nth_less [OF assms(2), of "i - 1" "j - 1"]
    by (cases "i = j") (auto simp: length_idl_list idl_list_nth)
  then show ?thesis by (force simp: midl_bs.falling_def)
qed

lemma midl_search_place:
  assumes "idl_wf ids" "sorted_wrt (\<ge>) (idl_list ids)" "length (idl_list ids) + 1 < 2 ^ 32"
  shows "\<exists>r. mdb_midl_search ids key = Some r \<and> 1 \<le> r \<and> r \<le> length (idl_list ids) + 1
    \<and> (\<forall>x \<in> set (take (r - 1) (idl_list ids)). x \<ge> key)
    \<and> (\<forall>x \<in> set (drop (r - 1) (idl_list ids)). x \<le> key)
    \<and> (key \<in> set (idl_list ids) \<longleftrightarrow> r \<le> length (idl_list ids) \<and> idl_list ids ! (r - 1) = key)"
proof -
  let ?N = "unat (ids ! 0)"
  have N: "?N < length ids" "?N + 1 < 2 ^ 32" "length (idl_list ids) = ?N"
    using assms by (auto simp: idl_wf_def length_idl_list)
  note fall = idl_falling [OF assms(1,2), of key]
  obtain r where r: "midl_search_loop ids key 0 1 0 ?N = Some r" "midl_bs.located ids key ?N r"
    using midl_bs.search_located [OF fall N(1,2)] by blast
  have "mdb_midl_search ids key = Some r"
    using r(1) N idl_wf_nonempty [OF assms(1)] by (simp add: mdb_midl_search_def mem_simps)
  moreover have "1 \<le> r" "r \<le> ?N + 1"
    using r(2) by (auto simp: midl_bs.located_def)
  ultimately show ?thesis
    using midl_bs.located_split [OF fall N(1) r(2), folded idl_list_def] N(3)
    by (intro exI [of _ r]) auto
qed

text \<open>C26: the search of a descending ID list ends, reads only cells of the list and returns the place of the
  ID: everything before it is at least the ID, everything from it on at most the ID, and the ID is in the list exactly
  when it stands at that place.\<close>

theorem mdb_midl_search_correct:
  assumes "idl_wf ids" "sorted_wrt (\<ge>) (idl_list ids)" "length (idl_list ids) + 1 < 2 ^ 32"
  shows "\<exists>r. mdb_midl_search ids key = Some r \<and> 1 \<le> r \<and> r \<le> length (idl_list ids) + 1
    \<and> (\<forall>x \<in> set (take (r - 1) (idl_list ids)). x \<ge> key)
    \<and> (\<forall>x \<in> set (drop (r - 1) (idl_list ids)). x \<le> key)
    \<and> (key \<in> set (idl_list ids) \<longleftrightarrow> r \<le> length (idl_list ids) \<and> idl_list ids ! (r - 1) = key)"
  by (rule midl_search_place [OF assms])

theorem mdb_midl_search_correct_witness:
  "\<exists>r. mdb_midl_search [3, 9, 5, 2] 5 = Some r \<and> idl_list [3, 9, 5, 2] ! (r - 1) = 5"
  using mdb_midl_search_correct [of "[3, 9, 5, 2]" 5] by (auto simp: idl_wf_def idl_list_def)

section \<open>Allocation and appending\<close>

definition idl_inv :: "idl \<Rightarrow> bool" where
  "idl_inv il \<longleftrightarrow> length (cells il) = unat (alloclen il) + 1 \<and> unat (cells il ! 0) \<le> unat (alloclen il)"

lemma idl_inv_wf: "idl_inv il \<Longrightarrow> idl_wf (cells il)"
  by (simp add: idl_inv_def idl_wf_def)

lemma mdb_midl_alloc_inv:
  assumes "num < 2 ^ 31"
  shows "\<exists>il. mdb_midl_alloc (Some junk) num = Some il \<and> idl_inv il \<and> idl_list (cells il) = []
    \<and> unat (alloclen il) = num"
proof -
  have "unat (of_nat num :: mdb_id) = num" using assms by (simp add: unat_of_nat)
  then show ?thesis
    by (simp add: mdb_midl_alloc_def c_malloc_def idl_inv_def idl_list_def nth_tl upt_conv_Cons
        del: upt_Suc)
qed

lemma id_words_small: "unat n < 2 ^ 61 \<Longrightarrow> id_words n = unat n"
  by (simp add: id_words_def unat_mult_lem [THEN iffD1])

lemma size_of_int_small:
  assumes "unat num < 2 ^ 31" shows "size_of_int num = ucast num"
proof -
  have "\<not> bit num 31"
  proof -
    have "\<not> bit (unat num) 31" using assms by (simp add: bit_iff_odd)
    then show ?thesis by (simp add: bit_unsigned_iff)
  qed
  then have "bit (size_of_int num) i = bit (ucast num :: 64 word) i" for i
    by (cases "i < 31")
      (auto simp: size_of_int_def bit_signed_iff bit_unsigned_iff not_less min_def le_less
        dest: bit_imp_le_length)
  then show ?thesis by (intro bit_word_eqI) simp
qed

lemma grow_cells:
  assumes "idl_inv il" "unat num < 2 ^ 31" "unat (alloclen il) < 2 ^ 60"
  shows "\<exists>ext. mdb_midl_grow (Some junk) il num =
      (MIDL_OK, \<lparr>alloclen = alloclen il + ucast num, cells = cells il @ ext\<rparr>)
    \<and> length ext = unat num \<and> unat (alloclen il + ucast num) = unat (alloclen il) + unat num"
proof -
  note u = unat_ucast_32_64 [of num]
  have sum: "unat (alloclen il + ucast num) = unat (alloclen il) + unat num"
    using assms u by (subst unat_add_lem [THEN iffD1]) auto
  have sum2: "unat (alloclen il + ucast num + 2) = unat (alloclen il) + unat num + 2"
    using assms u by (subst unat_add_lem [THEN iffD1]) (auto simp: sum)
  have "id_words (alloclen il + size_of_int num + 2) = unat (alloclen il) + unat num + 2"
    using assms by (subst id_words_small) (auto simp: size_of_int_small sum2)
  then show ?thesis
    using assms sum
    by (simp add: mdb_midl_grow_def c_realloc_grow idl_inv_def size_of_int_small) arith
qed


text \<open>
  The three operations that append first make room.  \<open>roomy\<close> says what they need of the block
  they continue with.
\<close>

definition roomy :: "idl \<Rightarrow> idl \<Rightarrow> nat \<Rightarrow> bool" where
  "roomy il il' n \<longleftrightarrow>
     (\<exists>ext. cells il' = cells il @ ext) \<and> length (cells il') = unat (alloclen il') + 1 \<and>
     unat (cells il ! 0) + n \<le> unat (alloclen il') \<and>
     unat (alloclen il') \<le> unat (alloclen il) + 2 ^ 31"

lemma roomy_same: "idl_inv il \<Longrightarrow> unat (cells il ! 0) + n \<le> unat (alloclen il) \<Longrightarrow> roomy il il n"
  by (auto simp: roomy_def idl_inv_def)

lemma roomy_grow:
  assumes "idl_inv il" "unat num < 2 ^ 31" "unat (alloclen il) < 2 ^ 60" "n \<le> unat num"
  shows "\<exists>il'. mdb_midl_grow (Some junk) il num = (MIDL_OK, il') \<and> roomy il il' n"
proof -
  obtain ext where "mdb_midl_grow (Some junk) il num =
      (MIDL_OK, \<lparr>alloclen = alloclen il + ucast num, cells = cells il @ ext\<rparr>)"
    "length ext = unat num" "unat (alloclen il + ucast num) = unat (alloclen il) + unat num"
    using grow_cells [OF assms(1-3)] by blast
  then show ?thesis using assms by (auto simp: roomy_def idl_inv_def nth_append)
qed

lemma roomy_cells:
  assumes "idl_inv il" "roomy il il' n"
  shows "cells il' ! 0 = cells il ! 0" "cells il' \<noteq> []"
    and "idl_list (cells il') = idl_list (cells il)"
    and "unat (cells il ! 0) + n < length (cells il')"
    and "i \<le> unat (cells il ! 0) \<Longrightarrow> cells il' ! i = cells il ! i"
  using assms by (auto simp: roomy_def idl_inv_def nth_append idl_list_def tl_append
      split: list.splits)

lemma append_cells_inv:
  assumes "idl_inv il" "roomy il il' n" and "unat (alloclen il) < 2 ^ 60"
    and "length a = length (cells il')" "a ! 0 = cells il ! 0 + of_nat n"
    and "\<And>i. i < n \<Longrightarrow> a ! (unat (cells il ! 0) + Suc i) = ys ! i" "length ys = n"
    and "\<And>i. 0 < i \<Longrightarrow> i \<le> unat (cells il ! 0) \<Longrightarrow> a ! i = cells il' ! i"
  shows "idl_inv (il'\<lparr>cells := a\<rparr>) \<and> idl_list a = idl_list (cells il) @ ys"
proof -
  let ?c = "unat (cells il ! 0)"
  have "n < 2 ^ 62" using assms by (auto simp: roomy_def idl_inv_def)
  then have n: "unat (of_nat n :: mdb_id) = n" by (simp add: unat_of_nat)
  have c: "unat (a ! 0) = ?c + n"
    using assms n by (subst assms(5), subst unat_plus_small) (auto simp: roomy_def idl_inv_def)
  then have inv: "idl_inv (il'\<lparr>cells := a\<rparr>)"
    using assms by (auto simp: idl_inv_def roomy_def)
  have len: "?c + n < length a" "a \<noteq> []" using assms roomy_cells by auto
  have "idl_list a = idl_list (cells il) @ ys"
  proof (rule nth_equalityI)
    show "length (idl_list a) = length (idl_list (cells il) @ ys)"
      using assms len c by (simp add: idl_list_def idl_inv_def)
    fix i assume "i < length (idl_list a)"
    then have i: "i < ?c + n" by (simp add: idl_list_def c)
    have "length (idl_list (cells il)) = ?c" using assms(1) by (simp add: idl_list_def idl_inv_def)
    then show "idl_list a ! i = (idl_list (cells il) @ ys) ! i"
      using i len assms(6) [of "i - ?c"] assms(8) [of "Suc i"]
        roomy_cells(4) [OF assms(1,2)] roomy_cells(5) [OF assms(1,2), of "Suc i"] assms(1)
      by (cases "i < ?c") (auto simp: idl_list_def c nth_append nth_tl idl_inv_def)
  qed
  with inv show ?thesis ..
qed


lemma make_room:
  assumes "idl_inv il" "unat (alloclen il) < 2 ^ 60" "unat num < 2 ^ 31" "n \<le> unat num"
    and "\<not> grow \<Longrightarrow> unat (cells il ! 0) + n \<le> unat (alloclen il)"
  obtains il' where "(if grow then mdb_midl_grow (Some junk) il num else (MIDL_OK, il)) = (MIDL_OK, il')"
    and "roomy il il' n"
  using assms roomy_same roomy_grow [OF assms(1,3,2,4), of junk] by (cases grow) auto

lemma append_appends:
  assumes "idl_inv il" "unat (alloclen il) < 2 ^ 60"
  shows "\<exists>il'. mdb_midl_append (Some junk) il x = Some (MIDL_OK, il') \<and> idl_inv il'
    \<and> idl_list (cells il') = idl_list (cells il) @ [x]"
proof -
  let ?c = "cells il ! 0"
  obtain il1 where il1: "(if ?c \<ge> alloclen il then mdb_midl_grow (Some junk) il (of_nat MDB_IDL_UM_MAX)
      else (MIDL_OK, il)) = (MIDL_OK, il1)" and room: "roomy il il1 1"
    by (rule make_room [OF assms, of "of_nat MDB_IDL_UM_MAX" 1 "?c \<ge> alloclen il" junk])
      (auto simp: MDB_IDL_UM_MAX_def word_le_nat_alt)
  note rc = roomy_cells [OF assms(1) room]
  have c1: "unat (?c + 1) = unat ?c + 1"
    using assms by (subst unat_plus_small) (auto simp: idl_inv_def)
  define a where "a = (cells il1)[0 := ?c + 1, unat ?c + 1 := x]"
  have "mdb_midl_append (Some junk) il x = Some (MIDL_OK, il1\<lparr>cells := a\<rparr>)"
    using idl_inv_wf [OF assms(1), THEN idl_wf_nonempty] rc(1,2,4)
    by (simp add: mdb_midl_append_def il1 mem_simps c1 a_def)
  moreover have "idl_inv (il1\<lparr>cells := a\<rparr>) \<and> idl_list a = idl_list (cells il) @ [x]"
    by (rule append_cells_inv [OF assms(1) room assms(2)])
      (use rc in \<open>auto simp: a_def nth_list_update\<close>)
  ultimately show ?thesis by auto
qed

text \<open>C29: appending an ID keeps the list's invariant (the block has room for as many IDs as its header
  says) and puts the ID at the end, growing the block when it is full; no cell outside the block is touched.\<close>

theorem mdb_midl_append_correct:
  assumes "idl_inv il" "unat (alloclen il) < 2 ^ 60"
  shows "\<exists>il'. mdb_midl_append (Some junk) il x = Some (MIDL_OK, il') \<and> idl_inv il'
    \<and> idl_list (cells il') = idl_list (cells il) @ [x]"
  by (rule append_appends [OF assms])

theorem mdb_midl_append_correct_witness:
  "\<exists>il'. mdb_midl_append (Some (\<lambda>i. 7)) \<lparr>alloclen = 1, cells = [1, 4]\<rparr> 8 = Some (MIDL_OK, il') \<and> idl_inv il' \<and>
    idl_list (cells il') = [4, 8]"
  using mdb_midl_append_correct [of "\<lparr>alloclen = 1, cells = [1, 4]\<rparr>" "\<lambda>i. 7" 8]
  by (simp add: idl_inv_def idl_list_def)

text \<open>C30: when the block is full and cannot be grown, appending reports \<open>ENOMEM\<close> and leaves the list as it
  was; when there is room the allocator is not needed.\<close>

theorem mdb_midl_append_nomem:
  assumes "idl_inv il"
  shows "mdb_midl_append None il x =
    (if cells il ! 0 < alloclen il then
       Some (MIDL_OK, il\<lparr>cells := (cells il)[0 := cells il ! 0 + 1, unat (cells il ! 0 + 1) := x]\<rparr>)
     else Some (MIDL_ENOMEM, il))"
proof -
  have "unat (cells il ! 0 + 1) < length (cells il)" if "cells il ! 0 < alloclen il"
    using that assms unat_Suc_less [OF that] by (auto simp: idl_inv_def word_less_nat_alt)
  then show ?thesis
    using idl_inv_wf [OF assms, THEN idl_wf_nonempty]
    by (auto simp: mdb_midl_append_def mem_simps mdb_midl_grow_def not_less)
qed

theorem mdb_midl_append_nomem_witness:
  "mdb_midl_append None \<lparr>alloclen = 1, cells = [1, 4]\<rparr> 8 = Some (MIDL_ENOMEM, \<lparr>alloclen = 1, cells = [1, 4]\<rparr>)"
  using mdb_midl_append_nomem [of "\<lparr>alloclen = 1, cells = [1, 4]\<rparr>" 8]
  by (simp add: idl_inv_def)

text \<open>The size \<open>(num + num/4 + (256 + 2)) & -256\<close> has room for the capacity word, the count and \<open>num\<close> IDs.\<close>

lemma need_size:
  fixes num :: nat
  assumes "num < 2 ^ 30"
  defines "sz \<equiv> u32 (num + num div 4 + (256 + 2)) div 256 * 256"
  shows "num + 2 \<le> sz" "sz < 2 ^ 31" "u32 (sz + 2 ^ 32 - 2) = sz - 2"
proof -
  have small: "num + num div 4 + (256 + 2) < 2 ^ 31" using assms(1) by simp
  have "(num + num div 4 + 258) mod 256 < 256" by simp
  moreover have "sz = num + num div 4 + 258 - (num + num div 4 + 258) mod 256"
    using small by (simp add: sz_def u32_small minus_mod_eq_div_mult [symmetric])
  ultimately show a: "num + 2 \<le> sz" "sz < 2 ^ 31" using small by linarith+
  then have "sz + 2 ^ 32 - 2 = (sz - 2) + 2 ^ 32" by simp
  then have "u32 (sz + 2 ^ 32 - 2) = u32 (sz - 2)" unfolding u32_def by (simp only: mod_add_self2)
  also have "\<dots> = sz - 2" using a(2) by (simp add: u32_small)
  finally show "u32 (sz + 2 ^ 32 - 2) = sz - 2" .
qed

lemma need_room:
  assumes "idl_inv il" "unat (cells il ! 0) + n < 2 ^ 30" "unat (alloclen il) < 2 ^ 32"
  shows "\<exists>il'. mdb_midl_need (Some junk) il n = Some (MIDL_OK, il') \<and> roomy il il' n \<and> unat (alloclen il') < 2 ^ 32"
proof -
  let ?num = "n + unat (cells il ! 0)"
  have c: "c_read (cells il) 0 = Some (cells il ! 0)" using assms(1) by (auto simp: idl_inv_def c_read_def)
  have num: "u32 ?num = ?num" using assms(2) by (simp add: u32_small)
  show ?thesis
  proof (cases "?num > unat (alloclen il)")
    case False
    then show ?thesis using c num assms roomy_same [OF assms(1)] by (auto simp: mdb_midl_need_def add.commute)
  next
    case True
    define sz where "sz = u32 (?num + ?num div 4 + (256 + 2)) div 256 * 256"
    have sz: "?num + 2 \<le> sz" "sz < 2 ^ 31" "u32 (sz + 2 ^ 32 - 2) = sz - 2"
      unfolding sz_def by (rule need_size; use assms(2) in simp)+
    have len: "length (alloclen il # cells il) \<le> sz" using assms(1) True sz(1) by (simp add: idl_inv_def)
    let ?il = "\<lparr>alloclen = of_nat (sz - 2), cells = cells il @ map junk [length (alloclen il # cells il)..<sz]\<rparr>"
    have al: "unat (alloclen ?il) = sz - 2" using sz(2) by (simp add: unat_of_nat)
    have "mdb_midl_need (Some junk) il n = Some (MIDL_OK, ?il)"
      unfolding mdb_midl_need_def c Option.bind.simps Let_def num if_P [OF True] sz_def [symmetric] sz(3)
      using c_realloc_grow [OF len, of junk] by simp
    moreover have "roomy il ?il n"
      using al sz len assms(1) unfolding roomy_def idl_inv_def by (auto simp: add.commute)
    ultimately show ?thesis using al sz(2) by auto
  qed
qed

text \<open>C28: \<open>mdb_midl_need\<close> leaves the IDs of a list as they are and makes room for \<open>n\<close> more, within the block it
  reallocates.\<close>

theorem mdb_midl_need_correct:
  assumes "idl_inv il" "length (idl_list (cells il)) + n < 2 ^ 30" "unat (alloclen il) < 2 ^ 32"
  shows "\<exists>il'. mdb_midl_need (Some junk) il n = Some (MIDL_OK, il') \<and> idl_inv il' \<and>
    idl_list (cells il') = idl_list (cells il) \<and> length (idl_list (cells il')) + n \<le> unat (alloclen il')"
proof -
  have c: "unat (cells il ! 0) = length (idl_list (cells il))" using length_idl_list [OF idl_inv_wf [OF assms(1)]] by simp
  obtain il' where il': "mdb_midl_need (Some junk) il n = Some (MIDL_OK, il')" "roomy il il' n"
    using need_room [OF assms(1) _ assms(3), of n junk] assms(2) c by auto
  then show ?thesis using roomy_cells [OF assms(1) il'(2)] c by (auto simp: roomy_def idl_inv_def)
qed

theorem mdb_midl_need_correct_witness:
  "\<exists>il'. mdb_midl_need (Some (\<lambda>i. 7)) \<lparr>alloclen = 1, cells = [1, 4]\<rparr> 5 = Some (MIDL_OK, il') \<and> idl_list (cells il') = [4]"
  using mdb_midl_need_correct [of "\<lparr>alloclen = 1, cells = [1, 4]\<rparr>" 5 "\<lambda>i. 7"] by (auto simp: idl_inv_def idl_list_def)

lemma append_range_loop_cells:
  assumes "len + n < length a"
  shows "\<exists>a'. append_range_loop a len x n = Some a' \<and> length a' = length a \<and>
    (\<forall>i < length a. a' ! i = (if len < i \<and> i \<le> len + n then x + of_nat (len + n - i) else a ! i))"
  using assms
proof (induction n arbitrary: a x)
  case 0
  then show ?case by auto
next
  case (Suc n)
  let ?a = "a[len + Suc n := x]"
  obtain a' where a': "append_range_loop ?a len (x + 1) n = Some a'" "length a' = length a"
    and nth: "\<forall>i < length a. a' ! i =
      (if len < i \<and> i \<le> len + n then x + 1 + of_nat (len + n - i) else ?a ! i)"
    using Suc.IH [of ?a "x + 1"] Suc.prems by auto
  have "a' ! i = (if len < i \<and> i \<le> len + Suc n then x + of_nat (len + Suc n - i) else a ! i)"
    if "i < length a" for i
    using nth that Suc.prems by (auto simp: nth_list_update Suc_diff_le algebra_simps not_le le_Suc_eq)
  with a' Suc.prems show ?case by (simp add: mem_simps)
qed

lemma copy_cells_Some:
  "s + n \<le> length src \<Longrightarrow> d + n \<le> length dst \<Longrightarrow>
     copy_cells dst d src s n = Some (take d dst @ take n (drop s src) @ drop (d + n) dst)"
proof (induction n arbitrary: d s dst)
  case 0
  then show ?case by simp
next
  case (Suc n)
  then have "copy_cells dst d src s (Suc n) = copy_cells (dst[d := src ! s]) (Suc d) src (Suc s) n"
    by (simp add: mem_simps)
  also have "\<dots> = Some (take (Suc d) (dst[d := src ! s]) @ take n (drop (Suc s) src) @
      drop (Suc d + n) (dst[d := src ! s]))"
    using Suc.prems by (intro Suc.IH) auto
  also have "take (Suc d) (dst[d := src ! s]) = take d dst @ [src ! s]"
    using Suc.prems by (simp add: take_Suc_conv_app_nth)
  also have "take (Suc n) (drop s src) = src ! s # take n (drop (Suc s) src)"
    using Suc.prems by (simp add: Cons_nth_drop_Suc [symmetric])
  ultimately show ?case using Suc.prems by simp
qed

text \<open>Appending a range of \<open>n\<close> consecutive IDs keeps the invariant and adds them in descending order.\<close>

theorem mdb_midl_append_range_correct:
  assumes "idl_inv il" "unat (alloclen il) < 2 ^ 60" "unat n < 2 ^ 31"
  shows "\<exists>il'. mdb_midl_append_range (Some junk) il x n = Some (MIDL_OK, il') \<and> idl_inv il'
    \<and> idl_list (cells il') = idl_list (cells il) @ rev (map (\<lambda>k. x + of_nat k) [0..<unat n])"
proof -
  let ?c = "cells il ! 0" and ?n = "unat n"
  have sum: "unat (?c + ucast n) = unat ?c + ?n"
    using assms by (subst unat_plus_small) (auto simp: idl_inv_def)
  have num: "unat (n OR of_nat MDB_IDL_UM_MAX) < 2 ^ 31" "?n \<le> unat (n OR of_nat MDB_IDL_UM_MAX)"
  proof -
    have "uint n < 2 ^ 31" using assms(3) by (metis of_nat_less_iff of_nat_numeral of_nat_power of_nat_unat)
    moreover have "uint (of_nat MDB_IDL_UM_MAX :: 32 word) < 2 ^ 31" by (simp add: MDB_IDL_UM_MAX_def)
    ultimately have "uint (n OR of_nat MDB_IDL_UM_MAX) < 2 ^ 31"
      unfolding uint_or by (intro OR_upper) simp_all
    then show "unat (n OR of_nat MDB_IDL_UM_MAX) < 2 ^ 31"
      by (metis of_nat_less_iff of_nat_numeral of_nat_power of_nat_unat)
    show "?n \<le> unat (n OR of_nat MDB_IDL_UM_MAX)"
      using le_word_or2 [of n "of_nat MDB_IDL_UM_MAX"] by (simp add: word_le_nat_alt)
  qed
  obtain il1 where il1: "(if ?c + ucast n > alloclen il then
      mdb_midl_grow (Some junk) il (n OR of_nat MDB_IDL_UM_MAX) else (MIDL_OK, il)) = (MIDL_OK, il1)"
      and room: "roomy il il1 ?n"
    by (rule make_room [OF assms(1,2) num, of "?c + ucast n > alloclen il" junk])
      (auto simp: word_less_nat_alt sum)
  note rc = roomy_cells [OF assms(1) room]
  let ?a0 = "(cells il1)[0 := ?c + ucast n]"
  obtain a where a: "append_range_loop ?a0 (unat ?c) x ?n = Some a" "length a = length (cells il1)"
    and nth: "\<forall>i < length a. a ! i =
      (if unat ?c < i \<and> i \<le> unat ?c + ?n then x + of_nat (unat ?c + ?n - i) else ?a0 ! i)"
    using append_range_loop_cells [of "unat ?c" ?n ?a0 x] rc(4) by auto
  have "mdb_midl_append_range (Some junk) il x n = Some (MIDL_OK, il1\<lparr>cells := a\<rparr>)"
    using idl_inv_wf [OF assms(1), THEN idl_wf_nonempty] rc(2,4)
    by (simp add: mdb_midl_append_range_def il1 mem_simps a)
  moreover have "idl_inv (il1\<lparr>cells := a\<rparr>) \<and>
      idl_list a = idl_list (cells il) @ rev (map (\<lambda>k. x + of_nat k) [0..<?n])"
    by (rule append_cells_inv [OF assms(1) room assms(2)])
      (use rc a nth in \<open>auto simp: nth_list_update rev_nth\<close>)
  ultimately show ?thesis by auto
qed

theorem mdb_midl_append_range_correct_witness:
  "\<exists>il'. mdb_midl_append_range (Some (\<lambda>i. 7)) \<lparr>alloclen = 1, cells = [1, 9]\<rparr> 3 2 = Some (MIDL_OK, il') \<and> idl_inv il' \<and>
    idl_list (cells il') = [9, 4, 3]"
  using mdb_midl_append_range_correct [of "\<lparr>alloclen = 1, cells = [1, 9]\<rparr>" 2 "\<lambda>i. 7" 3]
  by (simp add: idl_inv_def idl_list_def upt_rec)

text \<open>Appending a whole list keeps the invariant and yields the concatenation.\<close>

theorem mdb_midl_append_list_correct:
  assumes "idl_inv il" "unat (alloclen il) < 2 ^ 60" "idl_wf app" "length (idl_list app) < 2 ^ 31"
  shows "\<exists>il'. mdb_midl_append_list (Some junk) il app = Some (MIDL_OK, il') \<and> idl_inv il'
    \<and> idl_list (cells il') = idl_list (cells il) @ idl_list app"
proof -
  let ?c = "cells il ! 0" and ?ac = "app ! 0"
  let ?n = "unat ?ac"
  have n: "?n < 2 ^ 31" using assms(3,4) by (simp add: length_idl_list)
  have sum: "unat (?c + ?ac) = unat ?c + ?n" "unat (?c + 1) = unat ?c + 1"
    using assms n by (subst unat_plus_small; auto simp: idl_inv_def)+
  have un: "unat (ucast ?ac :: 32 word) = ?n"
    using n by (simp add: unsigned_ucast_eq take_bit_nat_eq_self_iff)
  obtain il1 where il1: "(if ?c + ?ac \<ge> alloclen il then mdb_midl_grow (Some junk) il (ucast ?ac)
      else (MIDL_OK, il)) = (MIDL_OK, il1)" and room: "roomy il il1 ?n"
    by (rule make_room [OF assms(1,2), of "ucast ?ac" ?n "?c + ?ac \<ge> alloclen il" junk])
      (use n in \<open>auto simp: word_le_nat_alt sum un\<close>)
  note rc = roomy_cells [OF assms(1) room]
  define a where "a = (take (unat ?c + 1) (cells il1) @ idl_list app @
      drop (unat ?c + 1 + ?n) (cells il1))[0 := ?c + ?ac]"
  have "copy_cells (cells il1) (unat (?c + 1)) app 1 ?n =
      Some (take (unat ?c + 1) (cells il1) @ idl_list app @ drop (unat ?c + 1 + ?n) (cells il1))"
    using rc(4) assms(3) by (subst copy_cells_Some) (auto simp: idl_wf_def idl_list_def sum drop_Suc)
  then have "mdb_midl_append_list (Some junk) il app = Some (MIDL_OK, il1\<lparr>cells := a\<rparr>)"
    using idl_inv_wf [OF assms(1), THEN idl_wf_nonempty] idl_wf_nonempty [OF assms(3)] rc(1,2,4)
    by (simp add: mdb_midl_append_list_def il1 mem_simps a_def c_write_def)
  moreover have "idl_inv (il1\<lparr>cells := a\<rparr>) \<and> idl_list a = idl_list (cells il) @ idl_list app"
    by (rule append_cells_inv [OF assms(1) room assms(2)])
      (use rc length_idl_list [OF assms(3)] in \<open>auto simp: a_def nth_list_update nth_append\<close>)
  ultimately show ?thesis by auto
qed

theorem mdb_midl_append_list_correct_witness:
  "\<exists>il'. mdb_midl_append_list (Some (\<lambda>i. 7)) \<lparr>alloclen = 1, cells = [1, 9]\<rparr> [2, 6, 5] = Some (MIDL_OK, il') \<and> idl_inv il' \<and>
    idl_list (cells il') = [9, 6, 5]"
  using mdb_midl_append_list_correct [of "\<lparr>alloclen = 1, cells = [1, 9]\<rparr>" "[2, 6, 5]" "\<lambda>i. 7"]
  by (simp add: idl_inv_def idl_list_def idl_wf_def)

section \<open>Shrinking and merging\<close>

text \<open>C31: \<open>mdb_midl_shrink\<close> keeps one cell less than the capacity it records: the shrunk list violates the
  invariant, and appending the last ID that the recorded capacity admits writes outside the block.\<close>

theorem mdb_midl_shrink_short:
  assumes "idl_inv il" "alloclen il > of_nat MDB_IDL_UM_MAX"
  shows "\<exists>il'. mdb_midl_shrink (Some junk) il = (True, il') \<and> \<not> idl_inv il' \<and>
    (\<forall>al cs x. length cs = length (cells il') \<and> cs ! 0 = of_nat (MDB_IDL_UM_MAX - 1) \<longrightarrow>
       mdb_midl_append al (il'\<lparr>cells := cs\<rparr>) x = None)"
proof -
  define il' where "il' = \<lparr>alloclen = of_nat MDB_IDL_UM_MAX, cells = take MDB_IDL_UM_MAX (cells il)\<rparr>"
  have len: "MDB_IDL_UM_MAX < length (cells il)"
    using assms by (auto simp: idl_inv_def word_less_nat_alt MDB_IDL_UM_MAX_def)
  then have "mdb_midl_shrink (Some junk) il = (True, il')"
    using assms by (simp add: mdb_midl_shrink_def c_realloc_def il'_def)
  moreover have "length (cells il') = MDB_IDL_UM_MAX" using len by (simp add: il'_def)
  moreover have "\<not> idl_inv il'"
    using calculation(2) by (simp add: idl_inv_def il'_def MDB_IDL_UM_MAX_def)
  ultimately show ?thesis
    by (auto simp: mdb_midl_append_def il'_def c_read_def c_write_def MDB_IDL_UM_MAX_def)
qed

theorem mdb_midl_shrink_short_witness:
  "\<exists>il'. mdb_midl_shrink (Some (\<lambda>i. 0)) \<lparr>alloclen = 131072, cells = replicate 131073 0\<rparr> = (True, il') \<and> \<not> idl_inv il'"
  using mdb_midl_shrink_short [of "\<lparr>alloclen = 131072, cells = replicate 131073 0\<rparr>" "\<lambda>i. 0"]
  by (auto simp: idl_inv_def MDB_IDL_UM_MAX_def)

lemma xmerge_inner_split:
  assumes "G \<noteq> []" "mx \<ge> m" "descending P"
  shows "\<exists>P1 P2 G'. xmerge_inner (mx # P @ G @ S) m (last (mx # P)) (length P) (length P + length G) =
      Some (mx # P1 @ G' @ P2 @ S, last (mx # P1), length P1, length P1 + length G)
    \<and> P = P1 @ P2 \<and> length G' = length G \<and> (\<forall>x \<in> set P2. x < m) \<and> (\<forall>x \<in> set P1. x \<ge> m)"
  using assms
proof (induction P arbitrary: G S rule: rev_induct)
  case Nil
  then show ?case by (intro exI [of _ "[]"] exI [of _ G]) auto
next
  case (snoc x P)
  obtain G0 g where G: "G = G0 @ [g]" using snoc.prems(1) by (metis append_butlast_last_id)
  show ?case
  proof (cases "x < m")
    case False
    then show ?thesis using snoc.prems(3)
      by (intro exI [of _ "P @ [x]"] exI [of _ "[]"] exI [of _ G]) (auto simp: sorted_wrt_append)
  next
    case True
    have wr: "c_write (mx # (P @ [x]) @ G @ S) (length (P @ [x]) + length G) x =
        Some (mx # P @ (x # G0) @ x # S)"
      by (simp add: c_write_def G nth_append list_update_append)
    have rd: "c_read (mx # P @ (x # G0) @ x # S) (length P) = Some (last (mx # P))"
      by (cases P rule: rev_cases) (auto simp: c_read_def nth_append nth_Cons')
    have k: "dec64 (length (P @ [x]) + length G) = length P + length (x # G0)"
      by (simp add: dec64_def G)
    have "descending P" using snoc.prems(3) by (simp add: sorted_wrt_append)
    with snoc.IH [of "x # G0" "x # S"] snoc.prems(2)
    obtain P1 P2 G' where IH: "xmerge_inner (mx # P @ (x # G0) @ x # S) m (last (mx # P)) (length P)
        (length P + length (x # G0)) =
        Some (mx # P1 @ G' @ P2 @ x # S, last (mx # P1), length P1, length P1 + length (x # G0))"
      "P = P1 @ P2" "length G' = length (x # G0)" "\<forall>x \<in> set P2. x < m" "\<forall>x \<in> set P1. x \<ge> m"
      by blast
    have "xmerge_inner (mx # (P @ [x]) @ G @ S) m (last (mx # P @ [x])) (length (P @ [x]))
        (length (P @ [x]) + length G) =
        xmerge_inner (mx # P @ (x # G0) @ x # S) m (last (mx # P)) (length P) (length P + length (x # G0))"
      using True wr rd k by simp
    with IH True show ?thesis
      by (intro exI [of _ P1] exI [of _ "P2 @ [x]"] exI [of _ G']) (auto simp: G)
  qed
qed

lemma xmerge_outer_merges:
  assumes "length G = i" "i < length merge" "\<forall>m. m \<le> mx"
    and "descending P" "descending (take i (tl merge))" "descending S"
    and "\<forall>s \<in> set S. \<forall>y \<in> set P \<union> set (take i (tl merge)). s \<le> y"
  shows "\<exists>R. xmerge_outer (mx # P @ G @ S @ T) merge i (last (mx # P)) (length P) (length P + i) =
      Some (mx # R @ S @ T) \<and> descending (R @ S) \<and> mset R = mset P + mset (take i (tl merge))"
  using assms
proof (induction i arbitrary: P G S)
  case 0
  then show ?case by (auto simp: sorted_wrt_append)
next
  case (Suc i)
  let ?m = "merge ! Suc i" and ?M = "take i (tl merge)"
  have M: "take (Suc i) (tl merge) = ?M @ [?m]"
    using Suc.prems(2) by (simp add: take_Suc_conv_app_nth nth_tl)
  have "G \<noteq> []" using Suc.prems(1) by auto
  then obtain P1 P2 G' where inner:
    "xmerge_inner (mx # P @ G @ S @ T) ?m (last (mx # P)) (length P) (length P + length G) =
      Some (mx # P1 @ G' @ P2 @ S @ T, last (mx # P1), length P1, length P1 + length G)"
    "P = P1 @ P2" "length G' = length G" "\<forall>x \<in> set P2. x < ?m" "\<forall>x \<in> set P1. x \<ge> ?m"
    using xmerge_inner_split [of G ?m mx P "S @ T"] Suc.prems by blast
  obtain G0 g where G': "G' = G0 @ [g]" using inner(3) \<open>G \<noteq> []\<close> by (metis append_butlast_last_id length_0_conv)
  have wr: "c_write (mx # P1 @ G' @ P2 @ S @ T) (length P1 + length G) ?m =
      Some (mx # P1 @ G0 @ (?m # P2 @ S) @ T)"
  proof -
    have "length G = Suc (length G0)" using inner(3) G' by simp
    then show ?thesis by (simp add: c_write_def G' list_update_append)
  qed
  have k: "dec64 (length P1 + length G) = length P1 + i" using Suc.prems(1) by (simp add: dec64_def)
  have "\<exists>R. xmerge_outer (mx # P1 @ G0 @ (?m # P2 @ S) @ T) merge i (last (mx # P1)) (length P1)
      (length P1 + i) = Some (mx # R @ (?m # P2 @ S) @ T) \<and> descending (R @ (?m # P2 @ S))
      \<and> mset R = mset P1 + mset ?M"
  proof (rule Suc.IH)
    show "length G0 = i" using inner(3) G' Suc.prems(1) by simp
    show "descending P1" "descending ?M"
      using Suc.prems(4,5) inner(2) M by (auto simp: sorted_wrt_append)
    show "descending (?m # P2 @ S)"
      using Suc.prems(4,6,7) inner M by (fastforce simp: sorted_wrt_append)
    show "\<forall>s \<in> set (?m # P2 @ S). \<forall>y \<in> set P1 \<union> set ?M. s \<le> y"
      using Suc.prems(4,5,7) inner M by (fastforce simp: sorted_wrt_append)
  qed (use Suc.prems in auto)
  then obtain R where R: "xmerge_outer (mx # P1 @ G0 @ (?m # P2 @ S) @ T) merge i (last (mx # P1)) (length P1)
      (length P1 + i) = Some (mx # R @ (?m # P2 @ S) @ T)" "descending (R @ (?m # P2 @ S))"
    "mset R = mset P1 + mset ?M" by blast
  have "xmerge_outer (mx # P @ G @ S @ T) merge (Suc i) (last (mx # P)) (length P) (length P + Suc i) =
      Some (mx # (R @ ?m # P2) @ S @ T)"
    using inner(1) wr k R(1) Suc.prems(1,2) by (simp add: mem_simps)
  then show ?case using R inner(2) M
    by (intro exI [of _ "R @ ?m # P2"]) auto
qed

lemma xmerge_merges:
  assumes "idl_wf ids" "idl_wf merge" "descending (idl_list ids)" "descending (idl_list merge)"
    and "length (idl_list ids) + length (idl_list merge) < length ids"
    and "length (idl_list ids) + length (idl_list merge) < 2 ^ 64"
  shows "\<exists>r. mdb_midl_xmerge ids merge = Some r \<and> idl_wf r \<and> length r = length ids
    \<and> descending (idl_list r) \<and> mset (idl_list r) = mset (idl_list ids) + mset (idl_list merge)"
proof -
  let ?i = "unat (merge ! 0)" and ?j = "unat (ids ! 0)"
  let ?P = "idl_list ids" and ?G = "take ?i (drop ?j (tl ids))" and ?T = "drop (?j + ?i) (tl ids)"
  note len = length_idl_list [OF assms(1)] length_idl_list [OF assms(2)]
  have tot: "unat (merge ! 0 + ids ! 0) = ?j + ?i"
    using assms(6) len by (subst unat_plus_small) auto
  have ne: "ids \<noteq> []" "merge \<noteq> []" using assms(1,2) by (auto dest: idl_wf_nonempty)
  have arr: "ids[0 := -1] = (-1) # ?P @ ?G @ [] @ ?T"
    using ne(1) by (cases ids) (simp_all add: idl_list_def take_take_drop)
  have old: "c_read ((-1) # ?P @ ?G @ [] @ ?T) ?j = Some (last (-1 # ?P))"
    using len by (cases ?P rule: rev_cases) (auto simp: c_read_def nth_append nth_Cons')
  obtain R where R: "xmerge_outer ((-1) # ?P @ ?G @ [] @ ?T) merge ?i (last (-1 # ?P)) ?j (?j + ?i) =
      Some ((-1) # R @ [] @ ?T)" "descending R" "mset R = mset ?P + mset (idl_list merge)"
    using xmerge_outer_merges [of ?G ?i merge "-1" ?P "[]" ?T] assms len
    by (auto simp: idl_list_def idl_wf_def)
  let ?r = "(merge ! 0 + ids ! 0) # R @ ?T"
  have "mdb_midl_xmerge ids merge = Some ?r"
    using ne R(1) old by (simp add: mdb_midl_xmerge_def mem_simps arr tot c_write_def)
  moreover have lenR: "length R = ?j + ?i"
    using arg_cong [OF R(3), of size] len by simp
  moreover have "idl_list ?r = R" by (simp add: idl_list_def tot lenR)
  moreover have "length ?r = length ids" "idl_wf ?r"
    using assms(5) len lenR by (auto simp: idl_wf_def tot)
  ultimately show ?thesis using R by auto
qed

text \<open>C24: merging two descending lists in place, when the first has room for both, ends without leaving the
  array and gives a descending list with the IDs of both.\<close>

theorem mdb_midl_xmerge_correct:
  assumes "idl_wf ids" "idl_wf merge" "descending (idl_list ids)" "descending (idl_list merge)"
    and "length (idl_list ids) + length (idl_list merge) < length ids"
    and "length (idl_list ids) + length (idl_list merge) < 2 ^ 64"
  shows "\<exists>r. mdb_midl_xmerge ids merge = Some r \<and> idl_wf r \<and> length r = length ids
    \<and> descending (idl_list r) \<and> mset (idl_list r) = mset (idl_list ids) + mset (idl_list merge)"
  by (rule xmerge_merges [OF assms])

theorem mdb_midl_xmerge_correct_witness:
  "\<exists>r. mdb_midl_xmerge [2, 9, 4, 0, 0] [2, 6, 1] = Some r \<and> descending (idl_list r) \<and>
     mset (idl_list r) = {#9, 4, 6, 1#}"
  using mdb_midl_xmerge_correct [of "[2, 9, 4, 0, 0]" "[2, 6, 1]"]
  by (auto simp: idl_list_def idl_wf_def)

section \<open>The ID/pointer lists: correctness\<close>

definition id2l_list :: "'p mdb_id2 list \<Rightarrow> 'p mdb_id2 list" where
  "id2l_list ids = take (unat (mid (ids ! 0))) (tl ids)"

definition id2l_inv :: "'p mdb_id2 list \<Rightarrow> bool" where
  "id2l_inv ids \<longleftrightarrow> unat (mid (ids ! 0)) < length ids \<and> MDB_IDL_UM_MAX < length ids \<and>
     unat (mid (ids ! 0)) \<le> MDB_IDL_UM_MAX \<and> sorted_wrt (<) (map mid (id2l_list ids))"

lemma id2l_list_length: "id2l_inv ids \<Longrightarrow> length (id2l_list ids) = unat (mid (ids ! 0))"
  by (auto simp: id2l_inv_def id2l_list_def)

lemma id2l_list_nth:
  "id2l_inv ids \<Longrightarrow> i < unat (mid (ids ! 0)) \<Longrightarrow> id2l_list ids ! i = ids ! Suc i"
  by (auto simp: id2l_inv_def id2l_list_def nth_tl)

lemma id2l_less:
  assumes "id2l_inv ids" "i < j" "j < length (id2l_list ids)"
  shows "mid (id2l_list ids ! i) < mid (id2l_list ids ! j)"
  using assms sorted_wrt_nth_less [of "(<)" "map mid (id2l_list ids)" i j] by (simp add: id2l_inv_def)

lemma id2l_falling:
  assumes "id2l_inv ids"
  shows "mid2l_bs.falling ids key (unat (mid (ids ! 0)))"
proof -
  have "mid (ids ! i) \<le> mid (ids ! j)" if "1 \<le> i" "i \<le> j" "j \<le> unat (mid (ids ! 0))" for i j
    using that assms id2l_less [OF assms, of "i - 1" "j - 1"]
    by (cases i; cases j; cases "i = j") (auto simp: id2l_list_length id2l_list_nth)
  then show ?thesis by (force simp: mid2l_bs.falling_def)
qed

lemma mid2l_search_take:
  assumes "id2l_inv ids"
  shows "\<exists>r. mdb_mid2l_search ids key = Some r \<and> 1 \<le> r \<and> r \<le> length (id2l_list ids) + 1
    \<and> filter (\<lambda>y. mid y < key) (id2l_list ids) = take (r - 1) (id2l_list ids)
    \<and> (\<forall>y \<in> set (drop (r - 1) (id2l_list ids)). key \<le> mid y)
    \<and> (key \<in> mid ` set (id2l_list ids) \<longleftrightarrow>
         r \<le> length (id2l_list ids) \<and> mid (id2l_list ids ! (r - 1)) = key)"
proof -
  let ?N = "unat (mid (ids ! 0))" and ?xs = "id2l_list ids"
  have N: "?N < length ids" "?N + 1 < 2 ^ 32" "length ?xs = ?N"
    using assms by (auto simp: id2l_inv_def id2l_list_length MDB_IDL_UM_MAX_def)
  note fall = id2l_falling [OF assms, of key]
  obtain r where r: "mid2l_search_loop ids key 0 1 0 ?N = Some r" "mid2l_bs.located ids key ?N r"
    using mid2l_bs.search_located [OF fall N(1,2)] by blast
  note split = mid2l_bs.located_split [OF fall N(1) r(2), folded id2l_list_def]
  have bounds: "1 \<le> r" "r \<le> ?N + 1" using r(2) by (auto simp: mid2l_bs.located_def)
  have lt: "mid x < key" if x: "x \<in> set (take (r - 1) ?xs)" for x
  proof (rule ccontr)
    assume "\<not> mid x < key"
    with x split(1) have eq: "mid x = key" by force
    obtain i where i: "i < r - 1" "i < ?N" "x = ?xs ! i" using x N(3) unfolding in_set_conv_nth by auto
    have "x \<in> set ?xs" using x by (rule in_set_takeD)
    then have "r \<le> ?N \<and> mid (?xs ! (r - 1)) = key" using split(3) eq by auto
    moreover from this bounds have "r - 1 < ?N" by linarith
    ultimately show False using i id2l_less [OF assms, of i "r - 1"] N(3) eq by simp
  qed
  have "filter (\<lambda>y. mid y < key) (take (r - 1) ?xs @ drop (r - 1) ?xs) = take (r - 1) ?xs"
    using lt split(2) unfolding filter_append by (simp add: filter_id_conv filter_empty_conv) force
  moreover have "mdb_mid2l_search ids key = Some r"
    using r(1) N by (cases ids) (simp_all add: mdb_mid2l_search_def c_read_def)
  ultimately show ?thesis
    using bounds N(3) split(2,3) by (intro exI [of _ r]) (auto simp: image_iff)
qed

text \<open>C27: the search of an ascending ID/pointer list returns one more than the number of smaller IDs.\<close>

theorem mdb_mid2l_search_correct:
  assumes "id2l_inv ids"
  shows "mdb_mid2l_search ids key = Some (1 + length (filter (\<lambda>y. mid y < key) (id2l_list ids)))"
  using mid2l_search_take [OF assms, of key] by auto

theorem mdb_mid2l_search_correct_witness:
  "mdb_mid2l_search (replicate 131072 \<lparr>mid = 0, mptr = ()\<rparr>) 5 = Some 1"
  using mdb_mid2l_search_correct [of "replicate 131072 \<lparr>mid = 0, mptr = ()\<rparr>" 5]
  by (simp add: id2l_inv_def id2l_list_def MDB_IDL_UM_MAX_def)

lemma shift_up_Some:
  assumes "i < length ids" "x \<le> i"
  shows "shift_up ids x i = Some (take x ids @ ids ! x # take (i - x) (drop x ids) @ drop (Suc i) ids)"
  using assms
proof (induction i arbitrary: ids)
  case 0
  then show ?case by (simp add: Cons_nth_drop_Suc)
next
  case (Suc i)
  show ?case
  proof (cases "x = Suc i")
    case True
    then show ?thesis using Suc.prems by (simp add: id_take_nth_drop [symmetric])
  next
    case False
    let ?ids = "ids[Suc i := ids ! i]"
    have "shift_up ids x (Suc i) = shift_up ?ids x i"
      using False Suc.prems by (simp add: mem_simps)
    also have "\<dots> = Some (take x ?ids @ ?ids ! x # take (i - x) (drop x ?ids) @ drop (Suc i) ?ids)"
      using False Suc.prems by (intro Suc.IH) auto
    also have "drop (Suc i) ?ids = ids ! i # drop (Suc (Suc i)) ids"
      using Suc.prems by (simp add: Cons_nth_drop_Suc [symmetric] drop_update_cancel)
    also have "take (i - x) (drop x ?ids) @ ids ! i # drop (Suc (Suc i)) ids =
        take (Suc i - x) (drop x ids) @ drop (Suc (Suc i)) ids"
      using False Suc.prems by (simp add: drop_update_swap Suc_diff_le take_Suc_conv_app_nth)
    finally show ?thesis using False Suc.prems by simp
  qed
qed

lemma insert_cells:
  assumes "1 \<le> r" "r \<le> n + 1" "n + 1 < length ids"
  shows "\<exists>ids'. do { ids1 \<leftarrow> c_write ids 0 h; ids2 \<leftarrow> shift_up ids1 r (n + 1); c_write ids2 r e } = Some ids'
     \<and> length ids' = length ids \<and> ids' ! 0 = h
     \<and> take (n + 1) (tl ids') = take (r - 1) (take n (tl ids)) @ e # drop (r - 1) (take n (tl ids))"
proof -
  obtain z ys where ids: "ids = z # ys" using assms(3) by (cases ids) auto
  obtain q where r: "r = Suc q" using assms(1) by (cases r) auto
  let ?ids' = "h # take q ys @ e # take (n - q) (drop q ys) @ drop (n + 1) ys"
  have "shift_up (h # ys) r (n + 1) =
      Some (h # take q ys @ ys ! q # take (n - q) (drop q ys) @ drop (n + 1) ys)"
    using assms by (subst shift_up_Some) (auto simp: ids r)
  moreover have "q < length ys" using assms by (simp add: ids r)
  ultimately have "do { ids1 \<leftarrow> c_write ids 0 h; ids2 \<leftarrow> shift_up ids1 r (n + 1); c_write ids2 r e } = Some ?ids'"
    by (simp add: ids r c_write_def list_update_append)
  then show ?thesis
    using assms by (intro exI [of _ ?ids']) (auto simp: ids r take_Cons' min_def drop_take)
qed

lemma mid2l_inserts:
  assumes inv: "id2l_inv ids"
  shows "if mid e \<in> mid ` set (id2l_list ids) then mdb_mid2l_insert ids e = Some (MID2L_DUPLICATE, ids)
    else if length (id2l_list ids) = MDB_IDL_UM_MAX then mdb_mid2l_insert ids e = Some (MID2L_TOO_BIG, ids)
    else \<exists>ids'. mdb_mid2l_insert ids e = Some (MID2L_OK, ids') \<and> id2l_inv ids' \<and> length ids' = length ids
      \<and> id2l_list ids' = filter (\<lambda>y. mid y < mid e) (id2l_list ids) @ e #
                         filter (\<lambda>y. mid y > mid e) (id2l_list ids)"
proof -
  let ?xs = "id2l_list ids" and ?c = "ids ! 0"
  let ?n = "unat (mid ?c)"
  note len = id2l_list_length [OF inv]
  have n: "?n < length ids" "?n \<le> MDB_IDL_UM_MAX" "MDB_IDL_UM_MAX < length ids"
    using inv by (auto simp: id2l_inv_def)
  obtain r where r: "mdb_mid2l_search ids (mid e) = Some r" "1 \<le> r" "r \<le> ?n + 1"
    and lo: "filter (\<lambda>y. mid y < mid e) ?xs = take (r - 1) ?xs"
    and hi: "\<forall>y \<in> set (drop (r - 1) ?xs). mid e \<le> mid y"
    and hit: "mid e \<in> mid ` set ?xs \<longleftrightarrow> r \<le> ?n \<and> mid (?xs ! (r - 1)) = mid e"
    using mid2l_search_take [OF inv, of "mid e"] unfolding len by blast
  have dup: "r \<le> ?n \<Longrightarrow> ids ! r = ?xs ! (r - 1)"
    using id2l_list_nth [OF inv, of "r - 1"] r(2) by (cases r) auto
  have step: "mdb_mid2l_insert ids e =
     (if mid e \<in> mid ` set ?xs then Some (MID2L_DUPLICATE, ids)
      else if ?n \<ge> MDB_IDL_UM_MAX then Some (MID2L_TOO_BIG, ids)
      else do { ids1 \<leftarrow> c_write ids 0 (?c\<lparr>mid := mid ?c + 1\<rparr>);
        ids2 \<leftarrow> shift_up ids1 r (unat (mid ?c + 1)); ids3 \<leftarrow> c_write ids2 r e; Some (MID2L_OK, ids3) })"
    using r n dup hit by (auto simp: mdb_mid2l_insert_def c_read_def)
  show ?thesis
  proof (cases "mid e \<in> mid ` set ?xs \<or> ?n = MDB_IDL_UM_MAX")
    case True
    then show ?thesis using step n(2) len by auto
  next
    case False
    then have new: "mid e \<notin> mid ` set ?xs" and room: "?n < MDB_IDL_UM_MAX" using n(2) by auto
    have c1: "unat (mid ?c + 1) = ?n + 1"
      using room by (subst unat_plus_small) (auto simp: MDB_IDL_UM_MAX_def)
    obtain ids' where ids': "do { ids1 \<leftarrow> c_write ids 0 (?c\<lparr>mid := mid ?c + 1\<rparr>);
        ids2 \<leftarrow> shift_up ids1 r (?n + 1); c_write ids2 r e } = Some ids'"
      "length ids' = length ids" "ids' ! 0 = ?c\<lparr>mid := mid ?c + 1\<rparr>"
      "take (?n + 1) (tl ids') = take (r - 1) ?xs @ e # drop (r - 1) ?xs"
      using insert_cells [OF r(2,3), of ids "?c\<lparr>mid := mid ?c + 1\<rparr>" e] room n(3)
      unfolding id2l_list_def by auto
    have below: "\<forall>y \<in> set (take (r - 1) ?xs). mid y < mid e" unfolding lo [symmetric] by simp
    have strict: "\<forall>y \<in> set (drop (r - 1) ?xs). mid e < mid y"
      using hi new by (metis image_eqI in_set_dropD order_le_less)
    have "filter (\<lambda>y. mid e < mid y) (take (r - 1) ?xs @ drop (r - 1) ?xs) = drop (r - 1) ?xs"
      using strict below unfolding filter_append by (fastforce simp: filter_id_conv filter_empty_conv)
    then have up: "filter (\<lambda>y. mid e < mid y) ?xs = drop (r - 1) ?xs" by simp
    have l': "id2l_list ids' = filter (\<lambda>y. mid y < mid e) ?xs @ e # filter (\<lambda>y. mid y > mid e) ?xs"
      unfolding lo up using ids'(3,4) c1 by (simp add: id2l_list_def [of ids'])
    have "sorted_wrt (<) (map mid (id2l_list ids'))"
      using inv unfolding l' by (auto simp: id2l_inv_def sorted_wrt_map sorted_wrt_append sorted_wrt_filter)
    then have "id2l_inv ids'"
      using ids' c1 room n by (simp add: id2l_inv_def)
    moreover have "mdb_mid2l_insert ids e = Some (MID2L_OK, ids')"
      using step new room ids'(1) c1 by (simp add: bind_eq_Some_conv) 
    ultimately show ?thesis using new room len ids'(2) l' by auto
  qed
qed

text \<open>C25: inserting into an ascending ID/pointer list refuses an ID that is present, refuses to exceed the
  maximum length, and otherwise puts the element at its place, keeping the list sorted and its array in bounds.\<close>

theorem mdb_mid2l_insert_correct:
  assumes inv: "id2l_inv ids"
  shows "if mid e \<in> mid ` set (id2l_list ids) then mdb_mid2l_insert ids e = Some (MID2L_DUPLICATE, ids)
    else if length (id2l_list ids) = MDB_IDL_UM_MAX then mdb_mid2l_insert ids e = Some (MID2L_TOO_BIG, ids)
    else \<exists>ids'. mdb_mid2l_insert ids e = Some (MID2L_OK, ids') \<and> id2l_inv ids' \<and> length ids' = length ids
      \<and> id2l_list ids' = filter (\<lambda>y. mid y < mid e) (id2l_list ids) @ e #
                         filter (\<lambda>y. mid y > mid e) (id2l_list ids)"
  by (rule mid2l_inserts [OF assms])

theorem mdb_mid2l_insert_correct_witness:
  "\<exists>ids'. mdb_mid2l_insert (replicate 131072 \<lparr>mid = 0, mptr = ()\<rparr>) \<lparr>mid = 7, mptr = ()\<rparr> = Some (MID2L_OK, ids') \<and>
     id2l_list ids' = [\<lparr>mid = 7, mptr = ()\<rparr>]"
  using mdb_mid2l_insert_correct [of "replicate 131072 \<lparr>mid = 0, mptr = ()\<rparr>" "\<lparr>mid = 7, mptr = ()\<rparr>"]
  by (auto simp: id2l_inv_def id2l_list_def MDB_IDL_UM_MAX_def)

end
