(* ===== verification/Midl_Sort.thy ===== *)
theory Midl_Sort
  imports Midl
begin

text \<open>
  \<open>mdb_midl_sort\<close> of \<open>LegacyDatabase/midl.c\<close>: quicksort with an explicit stack of pending ranges and
  insertion sort for short ones, into descending order.

  The C variables \<open>i, j, k, l, ir, jstack\<close> are \<open>int\<close>; none of them goes below 0 while the
  code is defined, so they are naturals here, and \<open>ir - l < SMALL\<close> is written \<open>ir < l + SMALL\<close>.
  Signed overflow in \<open>l + ir\<close>, an access outside \<open>ids\<close> and an access outside \<open>istack\<close> are all
  undefined behaviour, \<^term>\<open>None\<close>.  The theorem at the end says that none of them happens, that
  the loop ends, and that the result is the sorted list.
\<close>

section \<open>The code\<close>

definition SMALL :: nat where
  "SMALL = 8"

text \<open>\<open>for (i=j-1; i>=1; i--) { if (ids[i] >= a) break; ids[i+1] = ids[i]; }\<close>\<close>

fun insertion_inner :: "mdb_id list \<Rightarrow> mdb_id \<Rightarrow> nat \<Rightarrow> (mdb_id list \<times> nat) option" where
  "insertion_inner ids a 0 = Some (ids, 0)"
| "insertion_inner ids a (Suc i) = do {
     x \<leftarrow> c_read ids (Suc i);
     if x \<ge> a then Some (ids, Suc i)
     else do {
       ids \<leftarrow> c_write ids (Suc i + 1) x;
       insertion_inner ids a i } }"

function insertion_outer :: "mdb_id list \<Rightarrow> nat \<Rightarrow> nat \<Rightarrow> mdb_id list option" where
  "insertion_outer ids j ir =
     (if j \<le> ir then do {
        a \<leftarrow> c_read ids j;
        (ids, i) \<leftarrow> insertion_inner ids a (j - 1);
        ids \<leftarrow> c_write ids (i + 1) a;
        insertion_outer ids (j + 1) ir }
      else Some ids)"
  by pat_completeness auto
termination
  by (relation "measure (\<lambda>(ids, j, ir). Suc ir - j)") auto

text \<open>\<open>do i++; while (ids[i] > a);\<close> and \<open>do j--; while (ids[j] < a);\<close>\<close>

function scan_up :: "mdb_id list \<Rightarrow> mdb_id \<Rightarrow> nat \<Rightarrow> nat option" where
  "scan_up ids a i =
     (if Suc i < length ids then
        if ids ! Suc i > a then scan_up ids a (Suc i) else Some (Suc i)
      else None)"
  by pat_completeness auto
termination
  by (relation "measure (\<lambda>(ids, a, i). length ids - i)") auto

fun scan_down :: "mdb_id list \<Rightarrow> mdb_id \<Rightarrow> nat \<Rightarrow> nat option" where
  "scan_down ids a 0 = None"
| "scan_down ids a (Suc j) = do {
     x \<leftarrow> c_read ids j;
     if x < a then scan_down ids a j else Some j }"

partial_function (option) partition_loop ::
  "mdb_id list \<Rightarrow> mdb_id \<Rightarrow> nat \<Rightarrow> nat \<Rightarrow> (mdb_id list \<times> nat \<times> nat) option" where
  "partition_loop ids a i j = do {
     i \<leftarrow> scan_up ids a i;
     j \<leftarrow> scan_down ids a j;
     if j < i then Some (ids, i, j)
     else do {
       ids \<leftarrow> c_swap ids i j;
       partition_loop ids a i j } }"

definition swap_if_less :: "mdb_id list \<Rightarrow> nat \<Rightarrow> nat \<Rightarrow> mdb_id list option" where
  "swap_if_less ids p q = do {
     x \<leftarrow> c_read ids p;
     y \<leftarrow> c_read ids q;
     if x < y then c_swap ids p q else Some ids }"

text \<open>One partition step on \<open>ids[l..ir]\<close>: median of three, partition, pivot into place.\<close>

definition partition_step :: "mdb_id list \<Rightarrow> nat \<Rightarrow> nat \<Rightarrow> (mdb_id list \<times> nat \<times> nat) option" where
  "partition_step ids l ir =
     (if l + ir < 2 ^ 31 then do {
        let k = (l + ir) div 2;
        ids \<leftarrow> c_swap ids k (l + 1);
        ids \<leftarrow> swap_if_less ids l ir;
        ids \<leftarrow> swap_if_less ids (l + 1) ir;
        ids \<leftarrow> swap_if_less ids l (l + 1);
        a \<leftarrow> c_read ids (l + 1);
        (ids, i, j) \<leftarrow> partition_loop ids a (l + 1) ir;
        x \<leftarrow> c_read ids j;
        ids \<leftarrow> c_write ids (l + 1) x;
        ids \<leftarrow> c_write ids j a;
        Some (ids, i, j) }
      else None)"

partial_function (option) sort_loop ::
  "mdb_id list \<Rightarrow> nat list \<Rightarrow> nat \<Rightarrow> nat \<Rightarrow> nat \<Rightarrow> mdb_id list option" where
  "sort_loop ids istack jstack l ir =
     (if ir < l + SMALL then do {
        ids \<leftarrow> insertion_outer ids (l + 1) ir;
        if jstack = 0 then Some ids
        else do {
          ir \<leftarrow> c_read istack jstack;
          l \<leftarrow> c_read istack (jstack - 1);
          sort_loop ids istack (jstack - 2) l ir } }
      else do {
        (ids, i, j) \<leftarrow> partition_step ids l ir;
        let jstack = jstack + 2;
        if ir + 1 - i \<ge> j - l then do {
          istack \<leftarrow> c_write istack jstack ir;
          istack \<leftarrow> c_write istack (jstack - 1) i;
          sort_loop ids istack jstack l (j - 1) }
        else do {
          istack \<leftarrow> c_write istack jstack (j - 1);
          istack \<leftarrow> c_write istack (jstack - 1) l;
          sort_loop ids istack jstack i ir } })"

text \<open>
  \<open>(int)ids[0]\<close> keeps the low 32 bits as a signed number; a negative one leaves the range
  \<open>[1, ir]\<close> empty, as 0 does.  \<open>istack\<close> starts uninitialised.
\<close>

definition mdb_midl_sort :: "(nat \<Rightarrow> nat) \<Rightarrow> mdb_id list \<Rightarrow> mdb_id list option" where
  "mdb_midl_sort junk ids = do {
     c \<leftarrow> c_read ids 0;
     let ir = nat (sint (ucast c :: 32 word));
     sort_loop ids (map junk [0..<64]) 0 1 ir }"

declare insertion_outer.simps [simp del] scan_up.simps [simp del]
declare partition_loop.simps [code] sort_loop.simps [code]

section \<open>Insertion sort\<close>

lemma insertion_inner_split:
  assumes "X \<noteq> []" "length X \<ge> 2 \<Longrightarrow> last X \<ge> a" "descending S"
  shows "\<exists>S1 S2 g'. insertion_inner (X @ S @ g # Y) a (length X + length S - 1) =
      Some (X @ S1 @ g' # S2 @ Y, length X + length S1 - 1)
    \<and> S = S1 @ S2 \<and> (\<forall>x \<in> set S1. x \<ge> a) \<and> (\<forall>x \<in> set S2. x < a)"
  using assms
proof (induction S arbitrary: g Y rule: rev_induct)
  case Nil
  have "insertion_inner (X @ g # Y) a (length X - 1) = Some (X @ g # Y, length X - 1)"
  proof (cases "length X \<ge> 2")
    case True
    then obtain k where k: "length X - 1 = Suc k" by (cases "length X - 1") auto
    have "(X @ g # Y) ! Suc k = last X"
      using k True assms(1) by (subst nth_append) (auto simp: last_conv_nth)
    then show ?thesis using k True assms(2) by (simp add: c_read_def)
  next
    case False
    then have "length X - 1 = 0" by linarith
    then show ?thesis by simp
  qed
  then show ?case by (intro exI [of _ "[]"] exI [of _ g]) simp
next
  case (snoc x S)
  have idx: "length X + length (S @ [x]) - 1 = Suc (length X + length S - 1)"
    using assms(1) by (cases X) auto
  have rd: "c_read (X @ (S @ [x]) @ g # Y) (Suc (length X + length S - 1)) = Some x"
    using idx by (simp add: c_read_def nth_append)
  show ?case
  proof (cases "x \<ge> a")
    case True
    have "\<forall>y \<in> set (S @ [x]). y \<ge> a" using True snoc.prems(3) by (auto simp: sorted_wrt_append)
    moreover have "insertion_inner (X @ (S @ [x]) @ g # Y) a (length X + length (S @ [x]) - 1) =
        Some (X @ (S @ [x]) @ g # Y, length X + length (S @ [x]) - 1)"
      unfolding idx using True rd by simp
    ultimately show ?thesis
      by (intro exI [of _ "S @ [x]"] exI [of _ "[]"] exI [of _ g]) auto
  next
    case False
    have wr: "c_write (X @ (S @ [x]) @ g # Y) (Suc (length X + length S - 1) + 1) x =
        Some (X @ S @ x # x # Y)"
      using assms(1) by (simp add: c_write_def list_update_append nth_append)
    have "descending S" using snoc.prems(3) by (simp add: sorted_wrt_append)
    then obtain S1 S2 g' where IH: "insertion_inner (X @ S @ x # x # Y) a (length X + length S - 1) =
        Some (X @ S1 @ g' # S2 @ x # Y, length X + length S1 - 1)"
      "S = S1 @ S2" "\<forall>x \<in> set S1. x \<ge> a" "\<forall>x \<in> set S2. x < a"
      using snoc.IH [of x "x # Y"] snoc.prems by blast
    have "insertion_inner (X @ (S @ [x]) @ g # Y) a (length X + length (S @ [x]) - 1) =
        Some (X @ S1 @ g' # (S2 @ [x]) @ Y, length X + length S1 - 1)"
      unfolding idx using False rd wr IH(1) by simp
    then show ?thesis using IH False
      by (intro exI [of _ S1] exI [of _ "S2 @ [x]"] exI [of _ g']) auto
  qed
qed

lemma insertion_outer_sorts:
  assumes "X \<noteq> []" "length X \<ge> 2 \<Longrightarrow> \<forall>a \<in> set R. last X \<ge> a" "descending S"
  shows "\<exists>S'. insertion_outer (X @ S @ R @ Y) (length X + length S) (length X + length S + length R - 1) =
      Some (X @ S' @ Y) \<and> descending S' \<and> mset S' = mset S + mset R"
  using assms
proof (induction R arbitrary: S)
  case Nil
  then have "\<not> length X + length S \<le> length X + length S - 1" by (cases X) auto
  then show ?case using Nil.prems by (subst insertion_outer.simps) auto
next
  case (Cons a R)
  obtain S1 S2 g' where inner: "insertion_inner (X @ S @ a # R @ Y) a (length X + length S - 1) =
      Some (X @ S1 @ g' # S2 @ R @ Y, length X + length S1 - 1)"
    "S = S1 @ S2" "\<forall>x \<in> set S1. x \<ge> a" "\<forall>x \<in> set S2. x < a"
    using insertion_inner_split [of X a S a "R @ Y"] Cons.prems by auto
  have wr: "c_write (X @ S1 @ g' # S2 @ R @ Y) (length X + length S1 - 1 + 1) a =
      Some (X @ (S1 @ a # S2) @ R @ Y)"
    using assms(1) by (cases X) (simp_all add: c_write_def list_update_append)
  have rd: "c_read (X @ S @ a # R @ Y) (length X + length S) = Some a"
    by (simp add: c_read_def nth_append)
  have sorted: "descending (S1 @ a # S2)"
    using Cons.prems(3) inner by (fastforce simp: sorted_wrt_append)
  obtain S' where S': "insertion_outer (X @ (S1 @ a # S2) @ R @ Y) (length X + length (S1 @ a # S2))
      (length X + length (S1 @ a # S2) + length R - 1) = Some (X @ S' @ Y)" "descending S'"
    "mset S' = mset (S1 @ a # S2) + mset R"
    using Cons.IH [OF Cons.prems(1) _ sorted] Cons.prems(2) by auto
  have "insertion_outer (X @ S @ (a # R) @ Y) (length X + length S)
      (length X + length S + length (a # R) - 1) = Some (X @ S' @ Y)"
    using rd inner(1) wr S'(1) inner(2) by (subst insertion_outer.simps) simp
  then show ?case using S' inner(2) by auto
qed

section \<open>Permutations of a range\<close>

definition range_perm :: "nat \<Rightarrow> nat \<Rightarrow> 'a list \<Rightarrow> 'a list \<Rightarrow> bool" where
  "range_perm l r xs ys \<longleftrightarrow> length ys = length xs \<and> mset ys = mset xs \<and>
     (\<forall>p < length xs. p < l \<or> r < p \<longrightarrow> ys ! p = xs ! p)"

lemma range_perm_refl [simp]: "range_perm l r xs xs"
  by (simp add: range_perm_def)

lemma range_perm_trans:
  "range_perm l r xs ys \<Longrightarrow> range_perm l r ys zs \<Longrightarrow> range_perm l r xs zs"
  by (auto simp: range_perm_def)

lemma range_perm_mono:
  "range_perm l r xs ys \<Longrightarrow> l' \<le> l \<Longrightarrow> r \<le> r' \<Longrightarrow> range_perm l' r' xs ys"
  by (auto simp: range_perm_def)

lemma range_perm_swap:
  assumes "l \<le> i" "i \<le> r" "l \<le> j" "j \<le> r" "r < length xs"
  shows "range_perm l r xs (xs[i := xs ! j, j := xs ! i])"
  using assms by (auto simp: range_perm_def mset_swap nth_list_update)

lemma range_perm_values:
  assumes "range_perm l r xs ys" "l \<le> p" "p \<le> r" "r < length xs"
  obtains p' where "l \<le> p'" "p' \<le> r" "ys ! p = xs ! p'"
proof -
  let ?mid = "\<lambda>zs. take (Suc r - l) (drop l zs)"
  have eq: "take l ys = take l xs" "drop (Suc r) ys = drop (Suc r) xs"
    using assms(1) by (auto simp: range_perm_def intro!: nth_equalityI)
  have split: "zs = take l zs @ ?mid zs @ drop (Suc r) zs" if "length zs = length xs" for zs :: "'a list"
    using take_take_drop [of l zs "Suc r - l"] assms(2,3) by simp
  have "mset (?mid ys) = mset (?mid xs)"
    using assms(1) split [of xs] split [of ys] eq unfolding range_perm_def
    by (metis add_left_cancel add_right_cancel mset_append)
  moreover have "ys ! p \<in> set (?mid ys)"
    using assms by (auto simp: in_set_conv_nth range_perm_def intro!: exI [of _ "p - l"])
  ultimately have "ys ! p \<in> set (?mid xs)" by (metis set_mset_mset)
  then obtain i where "i < length (?mid xs)" "?mid xs ! i = ys ! p" by (auto simp: in_set_conv_nth)
  then show ?thesis using that [of "l + i"] assms by auto
qed


section \<open>Partitioning\<close>

lemma scan_up_finds:
  assumes "i < q" "q < length ids" "ids ! q \<le> a"
  shows "\<exists>i'. scan_up ids a i = Some i' \<and> i < i' \<and> i' \<le> q \<and> ids ! i' \<le> a \<and>
    (\<forall>p. i < p \<and> p < i' \<longrightarrow> ids ! p > a)"
  using assms
proof (induction "q - i" arbitrary: i)
  case 0
  then show ?case by simp
next
  case (Suc d)
  show ?case
  proof (cases "ids ! Suc i > a")
    case True
    then have "Suc i < q" using Suc.prems by (metis Suc_leI le_less leD)
    moreover have "d = q - Suc i" using Suc.hyps(2) by linarith
    ultimately obtain i' where "scan_up ids a (Suc i) = Some i'" "Suc i < i'" "i' \<le> q" "ids ! i' \<le> a"
      "\<forall>p. Suc i < p \<and> p < i' \<longrightarrow> ids ! p > a"
      using Suc.hyps(1) [of "Suc i"] Suc.prems by auto
    then show ?thesis using True Suc.prems
      by (subst scan_up.simps) (auto, metis Suc_lessI)
  next
    case False
    then show ?thesis using Suc.prems by (subst scan_up.simps) auto
  qed
qed

lemma scan_down_finds:
  assumes "q < j" "j \<le> length ids" "ids ! q \<ge> a"
  shows "\<exists>j'. scan_down ids a j = Some j' \<and> j' < j \<and> q \<le> j' \<and> ids ! j' \<ge> a \<and>
    (\<forall>p. j' < p \<and> p < j \<longrightarrow> ids ! p < a)"
  using assms
proof (induction j)
  case 0
  then show ?case by simp
next
  case (Suc j)
  show ?case
  proof (cases "ids ! j < a")
    case True
    then have "q < j" using Suc.prems by (metis less_antisym not_le)
    then obtain j' where "scan_down ids a j = Some j'" "j' < j" "q \<le> j'" "ids ! j' \<ge> a"
      "\<forall>p. j' < p \<and> p < j \<longrightarrow> ids ! p < a"
      using Suc by auto
    then show ?thesis using True Suc.prems by (auto simp: mem_simps less_Suc_eq)
  next
    case False
    then show ?thesis using Suc.prems by (auto simp: mem_simps)
  qed
qed

text \<open>What holds of the array between two rounds of the partition loop.\<close>

definition part_inv :: "mdb_id list \<Rightarrow> mdb_id \<Rightarrow> nat \<Rightarrow> nat \<Rightarrow> nat \<Rightarrow> nat \<Rightarrow> bool" where
  "part_inv ids a l ir i j \<longleftrightarrow> l < i \<and> i \<le> j \<and> j \<le> ir \<and> i < ir \<and> ir < length ids \<and>
     (i = j \<longrightarrow> l + 2 \<le> i) \<and> ids ! (l + 1) = a \<and>
     (\<forall>p. l \<le> p \<and> p \<le> i \<longrightarrow> ids ! p \<ge> a) \<and> (\<forall>p. j \<le> p \<and> p \<le> ir \<longrightarrow> ids ! p \<le> a)"

definition part_done :: "mdb_id list \<Rightarrow> mdb_id \<Rightarrow> nat \<Rightarrow> nat \<Rightarrow> nat \<Rightarrow> nat \<Rightarrow> bool" where
  "part_done ids a l ir i j \<longleftrightarrow> l < j \<and> j < i \<and> i \<le> ir \<and> ids ! (l + 1) = a \<and>
     (\<forall>p. l \<le> p \<and> p < i \<longrightarrow> ids ! p \<ge> a) \<and> (\<forall>p. j < p \<and> p \<le> ir \<longrightarrow> ids ! p \<le> a)"

lemma partition_loop_done:
  assumes "part_inv ids a l ir i j"
  shows "\<exists>ids' i' j'. partition_loop ids a i j = Some (ids', i', j') \<and> range_perm l ir ids ids' \<and>
    part_done ids' a l ir i' j'"
  using assms
proof (induction "ir - i" arbitrary: ids i j rule: less_induct)
  case less
  let ?q = "if i < j then j else Suc i"
  let ?q' = "if i < j then i else i - 1"
  note inv = less.prems [unfolded part_inv_def]
  have q: "i < ?q" "?q < length ids" "ids ! ?q \<le> a" and q': "?q' < j" "j \<le> length ids" "ids ! ?q' \<ge> a"
    using inv by auto
  obtain i' where i': "scan_up ids a i = Some i'" "i < i'" "i' \<le> ?q" "ids ! i' \<le> a"
    "\<forall>p. i < p \<and> p < i' \<longrightarrow> ids ! p > a"
    using scan_up_finds [OF q] by blast
  obtain j' where j': "scan_down ids a j = Some j'" "j' < j" "?q' \<le> j'" "ids ! j' \<ge> a"
    "\<forall>p. j' < p \<and> p < j \<longrightarrow> ids ! p < a"
    using scan_down_finds [OF q'] by blast
  have bounds: "i' \<le> ir" "l < j'" using i' j' inv by (auto split: if_splits)
  have lo: "ids ! p \<ge> a" if "l \<le> p" "p < i'" for p
    using that inv i'(5) by (cases "p \<le> i") (auto intro: less_imp_le)
  have hi: "ids ! p \<le> a" if "j' < p" "p \<le> ir" for p
    using that inv j'(5) by (cases "j \<le> p") (auto intro: less_imp_le)
  show ?case
  proof (cases "j' < i'")
    case True
    then have "partition_loop ids a i j = Some (ids, i', j')"
      using i'(1) j'(1) by (simp add: partition_loop.simps)
    moreover have "part_done ids a l ir i' j'"
      using True bounds lo hi inv by (auto simp: part_done_def)
    ultimately show ?thesis by auto
  next
    case False
    let ?ids = "ids[i' := ids ! j', j' := ids ! i']"
    have step: "partition_loop ids a i j = partition_loop ?ids a i' j'"
      using False i' j' inv by (subst partition_loop.simps) (simp add: mem_simps)
    have perm: "range_perm l ir ids ?ids"
      using False i' j' bounds inv by (intro range_perm_swap) auto
    have "part_inv ?ids a l ir i' j'"
      using False i' j' bounds inv lo hi by (auto simp: part_inv_def nth_list_update)
    moreover have "ir - i' < ir - i" using i'(2) bounds by linarith
    ultimately obtain ids' i'' j'' where "partition_loop ?ids a i' j' = Some (ids', i'', j'')"
      "range_perm l ir ?ids ids'" "part_done ids' a l ir i'' j''"
      using less.hyps by blast
    then show ?thesis using step range_perm_trans [OF perm] by auto
  qed
qed

lemma swap_if_less_perm:
  assumes "l \<le> p" "p \<le> r" "l \<le> q" "q \<le> r" "r < length ids"
  shows "\<exists>ids'. swap_if_less ids p q = Some ids' \<and> range_perm l r ids ids' \<and>
    ids' ! p = max (ids ! p) (ids ! q) \<and> ids' ! q = min (ids ! p) (ids ! q) \<and>
    (\<forall>k. k \<noteq> p \<and> k \<noteq> q \<longrightarrow> ids' ! k = ids ! k)"
  using assms range_perm_swap [OF assms]
  by (auto simp: swap_if_less_def mem_simps nth_list_update max_def min_def)

text \<open>After a step the pivot is in place: what is left to sort are the ranges on either side.\<close>

lemma partition_step_splits:
  assumes "1 \<le> l" "l + SMALL \<le> ir" "ir < length ids" "l + ir < 2 ^ 31"
  shows "\<exists>ids' i j. partition_step ids l ir = Some (ids', i, j) \<and> range_perm l ir ids ids' \<and>
    l < j \<and> j < i \<and> i \<le> ir \<and>
    (\<forall>p q. l \<le> p \<and> p < q \<and> q \<le> ir \<longrightarrow> q < j \<or> i \<le> p \<or> ids' ! p \<ge> ids' ! q)"
proof -
  let ?k = "(l + ir) div 2"
  have r: "l \<le> l + 1" "l + 1 \<le> ir" "l \<le> ir" "l \<le> ?k" "?k \<le> ir" "ir \<noteq> l" "ir \<noteq> l + 1" "l \<noteq> l + 1" "l \<noteq> ir"
    using assms(2) by (auto simp: SMALL_def)
  let ?s1 = "ids[?k := ids ! (l + 1), l + 1 := ids ! ?k]"
  have s1: "c_swap ids ?k (l + 1) = Some ?s1" "range_perm l ir ids ?s1" "ir < length ?s1"
    using r assms by (auto simp: mem_simps intro!: range_perm_swap)
  obtain s2 where s2: "swap_if_less ?s1 l ir = Some s2" "range_perm l ir ?s1 s2"
    "s2 ! l = max (?s1 ! l) (?s1 ! ir)" "s2 ! ir = min (?s1 ! l) (?s1 ! ir)"
    using swap_if_less_perm [of l l ir ir ?s1] r s1 by blast
  have "ir < length s2" using s2(2) s1(3) by (simp add: range_perm_def)
  then obtain s3 where s3: "swap_if_less s2 (l + 1) ir = Some s3" "range_perm l ir s2 s3"
    "s3 ! (l + 1) = max (s2 ! (l + 1)) (s2 ! ir)" "s3 ! ir = min (s2 ! (l + 1)) (s2 ! ir)" "s3 ! l = s2 ! l"
    using swap_if_less_perm [of l "l + 1" ir ir s2] r by blast
  have "ir < length s3" using s3(2) \<open>ir < length s2\<close> by (simp add: range_perm_def)
  then obtain s4 where s4: "swap_if_less s3 l (l + 1) = Some s4" "range_perm l ir s3 s4"
    "s4 ! l = max (s3 ! l) (s3 ! (l + 1))" "s4 ! (l + 1) = min (s3 ! l) (s3 ! (l + 1))" "s4 ! ir = s3 ! ir"
    using swap_if_less_perm [of l l ir "l + 1" s3] r by blast
  have len4: "ir < length s4" using s4(2) \<open>ir < length s3\<close> by (simp add: range_perm_def)
  let ?a = "s4 ! (l + 1)"
  have "s3 ! ir \<le> s3 ! l" unfolding s3(4,5) s2(3,4) by (simp add: min_le_iff_disj le_max_iff_disj)
  moreover have "s3 ! ir \<le> s3 ! (l + 1)" unfolding s3(3,4) by (simp add: min_le_iff_disj)
  ultimately have "s4 ! ir \<le> ?a" "s4 ! l \<ge> ?a"
    unfolding s4(3-5) by (simp_all add: min_le_iff_disj le_max_iff_disj)
  then have "part_inv s4 ?a l ir (l + 1) ir"
    using r len4 by (auto simp: part_inv_def le_Suc_eq dest!: le_antisym)
  then obtain s5 i j where s5: "partition_loop s4 ?a (l + 1) ir = Some (s5, i, j)"
    "range_perm l ir s4 s5" "part_done s5 ?a l ir i j"
    using partition_loop_done by blast
  have len5: "ir < length s5" using s5(2) len4 by (simp add: range_perm_def)
  note dn = s5(3) [unfolded part_done_def]
  let ?s6 = "s5[l + 1 := s5 ! j, j := ?a]"
  have "partition_step ids l ir = Some (?s6, i, j)"
    unfolding partition_step_def Let_def
    using s1(1) s2(1) s3(1) s4(1) s5(1) assms(4) len4 len5 dn r(2)
    by (simp add: mem_simps)
  moreover have "range_perm l ir s5 ?s6"
    using dn len5 r range_perm_swap [of l "l + 1" ir j s5] by simp
  then have "range_perm l ir ids ?s6"
    using s1(2) s2(2) s3(2) s4(2) s5(2) by (blast intro: range_perm_trans)
  moreover have "?s6 ! p \<ge> ?s6 ! q" if "l \<le> p" "p < q" "q \<le> ir" "\<not> q < j" "\<not> i \<le> p" for p q
  proof -
    have "?s6 ! p \<ge> ?a" using that dn len5 by (auto simp: nth_list_update)
    moreover have "?s6 ! q \<le> ?a" using that dn len5 by (cases "q = j") (auto simp: nth_list_update)
    ultimately show ?thesis by (rule order_trans [rotated])
  qed
  ultimately show ?thesis using dn by blast
qed

section \<open>Pending ranges\<close>

definition in_range :: "nat \<Rightarrow> nat \<times> nat \<Rightarrow> bool" where
  "in_range p s \<longleftrightarrow> fst s \<le> p \<and> p \<le> snd s"

text \<open>
  Any two positions of the list are in order already unless one pending range holds both; pending
  ranges do not overlap.
\<close>

definition pending :: "mdb_id list \<Rightarrow> nat \<Rightarrow> (nat \<times> nat) list \<Rightarrow> bool" where
  "pending ids n segs \<longleftrightarrow>
     (\<forall>s \<in> set segs. 1 \<le> fst s \<and> snd s \<le> n) \<and>
     sorted_wrt (\<lambda>s t. \<forall>p. \<not> (in_range p s \<and> in_range p t)) segs \<and>
     (\<forall>p q. 1 \<le> p \<and> p < q \<and> q \<le> n \<longrightarrow>
        (\<exists>s \<in> set segs. in_range p s \<and> in_range q s) \<or> ids ! p \<ge> ids ! q)"

lemma pending_order:
  assumes "pending ids n segs" "1 \<le> p" "p < q" "q \<le> n"
    and "\<not> (\<exists>s \<in> set segs. in_range p s \<and> in_range q s)"
  shows "ids ! p \<ge> ids ! q"
  using assms unfolding pending_def by blast

lemma pending_outside:
  assumes "pending ids n ((l, r) # rest)" "l \<le> p" "p \<le> r" "1 \<le> q" "q \<le> n" "\<not> (l \<le> q \<and> q \<le> r)"
  shows "p < q \<Longrightarrow> ids ! p \<ge> ids ! q" "q < p \<Longrightarrow> ids ! q \<ge> ids ! p"
proof -
  have p: "in_range p (l, r)" "\<not> in_range q (l, r)" using assms by (auto simp: in_range_def)
  moreover have "\<forall>s \<in> set rest. \<not> in_range p s" using assms(1) p(1) by (auto simp: pending_def)
  ultimately have no: "\<not> (\<exists>s \<in> set ((l, r) # rest). in_range p s \<and> in_range q s)" by auto
  have "1 \<le> p" "p \<le> n" using assms by (auto simp: pending_def)
  then show "p < q \<Longrightarrow> ids ! p \<ge> ids ! q" "q < p \<Longrightarrow> ids ! q \<ge> ids ! p"
    using pending_order [OF assms(1), of p q] pending_order [OF assms(1), of q p] no assms(4,5) by blast+
qed

lemma pending_refine:
  assumes pend: "pending ids n ((l, r) # rest)" and perm: "range_perm l r ids ids'" and n: "n < length ids"
    and sub: "\<forall>s \<in> set new. l \<le> fst s \<and> snd s \<le> r"
    and disj: "sorted_wrt (\<lambda>s t. \<forall>p. \<not> (in_range p s \<and> in_range p t)) new"
    and ord: "\<forall>p q. l \<le> p \<and> p < q \<and> q \<le> r \<longrightarrow>
       (\<exists>s \<in> set new. in_range p s \<and> in_range q s) \<or> ids' ! p \<ge> ids' ! q"
  shows "pending ids' n (new @ rest)"
proof -
  have lr: "1 \<le> l" "r \<le> n" "r < length ids" using pend n by (auto simp: pending_def)
  have same: "ids' ! p = ids ! p" if "\<not> (l \<le> p \<and> p \<le> r)" "p \<le> n" for p
    using that perm n by (auto simp: range_perm_def)
  have "(\<exists>s \<in> set (new @ rest). in_range p s \<and> in_range q s) \<or> ids' ! p \<ge> ids' ! q"
    if pq: "1 \<le> p" "p < q" "q \<le> n" for p q
  proof (cases "l \<le> p \<and> p \<le> r"; cases "l \<le> q \<and> q \<le> r")
    assume "l \<le> p \<and> p \<le> r" "l \<le> q \<and> q \<le> r"
    then show ?thesis using ord pq by auto
  next
    assume p: "l \<le> p \<and> p \<le> r" and q: "\<not> (l \<le> q \<and> q \<le> r)"
    obtain p' where "l \<le> p'" "p' \<le> r" "ids' ! p = ids ! p'"
      using range_perm_values [OF perm _ _ lr(3), of p] p by blast
    then show ?thesis using pending_outside(1) [OF pend, of p' q] same [OF q] p q pq by auto
  next
    assume p: "\<not> (l \<le> p \<and> p \<le> r)" and q: "l \<le> q \<and> q \<le> r"
    obtain q' where "l \<le> q'" "q' \<le> r" "ids' ! q = ids ! q'"
      using range_perm_values [OF perm _ _ lr(3), of q] q by blast
    then show ?thesis using pending_outside(2) [OF pend, of q' p] same [OF p] p q pq by auto
  next
    assume p: "\<not> (l \<le> p \<and> p \<le> r)" and q: "\<not> (l \<le> q \<and> q \<le> r)"
    show ?thesis
    proof (cases "\<exists>s \<in> set rest. in_range p s \<and> in_range q s")
      case False
      then have "\<not> (\<exists>s \<in> set ((l, r) # rest). in_range p s \<and> in_range q s)"
        using p by (auto simp: in_range_def)
      then show ?thesis using pending_order [OF pend pq] same [OF p] same [OF q] pq by simp
    qed auto
  qed
  moreover have "sorted_wrt (\<lambda>s t. \<forall>p. \<not> (in_range p s \<and> in_range p t)) (new @ rest)"
    using pend disj sub by (fastforce simp: pending_def sorted_wrt_append in_range_def)
  ultimately show ?thesis using pend sub lr by (fastforce simp: pending_def)
qed

lemma insertion_range:
  assumes "1 \<le> l" "ir < length ids" "\<And>q. 2 \<le> l \<Longrightarrow> l \<le> q \<Longrightarrow> q \<le> ir \<Longrightarrow> ids ! (l - 1) \<ge> ids ! q"
  shows "\<exists>ids'. insertion_outer ids (l + 1) ir = Some ids' \<and> range_perm l ir ids ids' \<and>
    (\<forall>p q. l \<le> p \<and> p < q \<and> q \<le> ir \<longrightarrow> ids' ! p \<ge> ids' ! q)"
proof (cases "l \<le> ir")
  case False
  then show ?thesis by (subst insertion_outer.simps) auto
next
  case True
  let ?X = "take l ids" and ?R = "take (ir - l) (drop (Suc l) ids)" and ?Y = "drop (Suc ir) ids"
  have len: "length ?X = l" "length ?R = ir - l" "?X \<noteq> []" using True assms by auto
  have ids: "?X @ [ids ! l] @ ?R @ ?Y = ids"
    using True assms take_take_drop [of "Suc l" ids "ir - l"] by (simp add: take_Suc_conv_app_nth)
  have "last ?X \<ge> a" if two: "2 \<le> l" and a: "a \<in> set ?R" for a
  proof -
    obtain k where "k < ir - l" "a = ids ! (Suc l + k)"
      using a assms(2) by (auto simp: in_set_conv_nth)
    then show ?thesis using assms(3) [OF two, of "Suc l + k"] two len True assms(2)
      by (auto simp: last_conv_nth)
  qed
  then obtain S where S: "insertion_outer (?X @ [ids ! l] @ ?R @ ?Y) (l + 1) (l + 1 + (ir - l) - 1) =
      Some (?X @ S @ ?Y)" "descending S" "mset S = mset [ids ! l] + mset ?R"
    using insertion_outer_sorts [of ?X ?R "[ids ! l]" ?Y] len by auto
  let ?ids' = "?X @ S @ ?Y"
  have lenS: "length S = Suc ir - l" using arg_cong [OF S(3), of size] True len by simp
  have "mset ?ids' = mset (?X @ [ids ! l] @ ?R @ ?Y)" using S(3) by simp
  then have "mset ?ids' = mset ids" unfolding ids .
  then have "range_perm l ir ids ?ids'"
    using True assms(2) len lenS by (auto simp: range_perm_def nth_append)
  moreover have "?ids' ! p \<ge> ?ids' ! q" if "l \<le> p" "p < q" "q \<le> ir" for p q
    using that True assms(2) len lenS sorted_wrt_nth_less [OF S(2), of "p - l" "q - l"]
    by (auto simp: nth_append)
  ultimately show ?thesis using S(1) True ids by auto
qed

section \<open>The main loop\<close>

primrec stk :: "nat list \<Rightarrow> nat \<Rightarrow> (nat \<times> nat) list" where
  "stk istack 0 = []"
| "stk istack (Suc d) = (istack ! (2 * d + 1), istack ! (2 * d + 2)) # stk istack d"

definition seg_size :: "nat \<times> nat \<Rightarrow> nat" where
  "seg_size s = Suc (snd s) - fst s"

definition weight :: "(nat \<times> nat) list \<Rightarrow> nat" where
  "weight segs = (\<Sum>s \<leftarrow> segs. 2 * seg_size s + 1)"

text \<open>The stack never holds more than logarithmically many ranges: the smaller part goes on first.\<close>

definition stk_bounded :: "nat \<Rightarrow> nat list \<Rightarrow> nat \<Rightarrow> bool" where
  "stk_bounded n istack d \<longleftrightarrow> d \<le> 28 \<and>
     (\<forall>k < d. seg_size (istack ! (2 * k + 1), istack ! (2 * k + 2)) * 2 ^ k \<le> n)"

lemma stk_update:
  "2 * d < i \<Longrightarrow> stk (istack[i := v]) d = stk istack d"
  by (induction d) auto

lemma stk_push:
  assumes "2 * d + 2 < length istack"
  shows "stk (istack[2 * d + 2 := r, 2 * d + 1 := l]) (Suc d) = (l, r) # stk istack d"
  using assms by (simp add: stk_update)

lemma stk_bounded_push:
  assumes "stk_bounded n istack d" "2 * d + 2 < length istack" "seg_size (l, r) * 2 ^ d \<le> n" "d < 28"
  shows "stk_bounded n (istack[2 * d + 2 := r, 2 * d + 1 := l]) (Suc d)"
  using assms by (auto simp: stk_bounded_def less_Suc_eq nth_list_update)

lemma sort_loop_sorts:
  assumes "pending ids n ((l, ir) # stk istack d)" "n < length ids" "n < 2 ^ 30" "length istack = 64"
    "seg_size (l, ir) * 2 ^ d \<le> n" "stk_bounded n istack d"
  shows "\<exists>ids'. sort_loop ids istack (2 * d) l ir = Some ids' \<and> range_perm 1 n ids ids' \<and> pending ids' n []"
  using assms
proof (induction "weight ((l, ir) # stk istack d)" arbitrary: ids istack d l ir rule: less_induct)
  case less
  note pend = less.prems(1) and bnd = less.prems(5,6)
  have lr: "1 \<le> l" "ir \<le> n" using pend by (auto simp: pending_def)
  show ?case
  proof (cases "ir < l + SMALL")
    case True
    have "\<exists>ids1. insertion_outer ids (l + 1) ir = Some ids1 \<and> range_perm l ir ids ids1 \<and>
        (\<forall>p q. l \<le> p \<and> p < q \<and> q \<le> ir \<longrightarrow> ids1 ! p \<ge> ids1 ! q)"
      using lr less.prems(2) pending_outside(2) [OF pend, of _ "l - 1"]
      by (intro insertion_range) auto
    then obtain ids1 where ids1: "insertion_outer ids (l + 1) ir = Some ids1"
      and perm: "range_perm l ir ids ids1"
      and sorted: "\<forall>p q. l \<le> p \<and> p < q \<and> q \<le> ir \<longrightarrow> ids1 ! p \<ge> ids1 ! q" by blast
    have perm1: "range_perm 1 n ids ids1" using range_perm_mono [OF perm] lr by simp
    have pend1: "pending ids1 n (stk istack d)"
      using pending_refine [OF pend perm less.prems(2), of "[]"] sorted by simp
    show ?thesis
    proof (cases d)
      case 0
      then show ?thesis using True ids1 perm1 pend1 by (simp add: sort_loop.simps)
    next
      case (Suc e)
      let ?l = "istack ! (2 * e + 1)" and ?r = "istack ! (2 * e + 2)"
      have e: "2 * e + 2 < 64" using less.prems(6) Suc by (simp add: stk_bounded_def)
      have "sort_loop ids istack (2 * d) l ir = sort_loop ids1 istack (2 * e) ?l ?r"
        using True ids1 Suc e less.prems(4) by (subst sort_loop.simps) (simp add: mem_simps)
      moreover have "\<exists>ids'. sort_loop ids1 istack (2 * e) ?l ?r = Some ids' \<and> range_perm 1 n ids1 ids' \<and>
          pending ids' n []"
        using less.prems pend1 Suc perm1
        by (intro less.hyps) (auto simp: weight_def stk_bounded_def range_perm_def)
      ultimately show ?thesis using range_perm_trans [OF perm1] by auto
    qed
  next
    case False
    have big: "9 * 2 ^ d \<le> n"
    proof -
      have "9 \<le> seg_size (l, ir)" using False by (auto simp: seg_size_def SMALL_def)
      then show ?thesis using bnd(1) by (meson le_trans mult_le_mono1)
    qed
    have d: "d < 28"
    proof (rule ccontr)
      assume "\<not> d < 28"
      then have "(2 :: nat) ^ 28 \<le> 2 ^ d" by (intro power_increasing) auto
      then show False using big less.prems(3) by simp
    qed
    obtain ids1 i j where step: "partition_step ids l ir = Some (ids1, i, j)"
      and perm: "range_perm l ir ids ids1" and ij: "l < j" "j < i" "i \<le> ir"
      and ord: "\<forall>p q. l \<le> p \<and> p < q \<and> q \<le> ir \<longrightarrow> q < j \<or> i \<le> p \<or> ids1 ! p \<ge> ids1 ! q"
      using partition_step_splits [of l ir ids] False lr less.prems(2,3) by auto
    have perm1: "range_perm 1 n ids ids1" using range_perm_mono [OF perm] lr by simp
    have len1: "n < length ids1" using perm1 less.prems(2) by (simp add: range_perm_def)
    have pend1: "pending ids1 n (new @ stk istack d)" if "new = [(l, j - 1), (i, ir)] \<or> new = [(i, ir), (l, j - 1)]" for new
      using that ij ord by (intro pending_refine [OF pend perm less.prems(2)]) (fastforce simp: in_range_def)+
    have sizes: "seg_size (l, j - 1) = j - l" "seg_size (i, ir) = ir + 1 - i"
      "(j - l) + (ir + 1 - i) < seg_size (l, ir)" using ij lr by (auto simp: seg_size_def)
    let ?push = "\<lambda>a b. istack[2 * d + 2 := b, 2 * d + 1 := a]"
    have go: "\<exists>ids'. sort_loop ids1 (?push a b) (2 * Suc d) a' b' = Some ids' \<and> range_perm 1 n ids1 ids' \<and> pending ids' n []"
      if "[(a', b'), (a, b)] = [(l, j - 1), (i, ir)] \<or> [(a', b'), (a, b)] = [(i, ir), (l, j - 1)]"
        "seg_size (a', b') \<le> seg_size (a, b)" for a b a' b'
    proof (rule less.hyps)
      have stk: "stk (?push a b) (Suc d) = (a, b) # stk istack d"
        using stk_push d less.prems(4) by simp
      show "weight ((a', b') # stk (?push a b) (Suc d)) < weight ((l, ir) # stk istack d)"
        unfolding stk using that(1) sizes by (auto simp: weight_def)
      show "pending ids1 n ((a', b') # stk (?push a b) (Suc d))"
        unfolding stk using pend1 [of "[(a', b'), (a, b)]"] that(1) by simp
      have "2 * seg_size (a', b') \<le> seg_size (l, ir)" "seg_size (a, b) \<le> seg_size (l, ir)"
        using that sizes by auto
      then have "2 * seg_size (a', b') * 2 ^ d \<le> n" "seg_size (a, b) * 2 ^ d \<le> n"
        using bnd(1) by (meson le_trans mult_le_mono1)+
      then show "seg_size (a', b') * 2 ^ Suc d \<le> n" "stk_bounded n (?push a b) (Suc d)"
        using stk_bounded_push [OF bnd(2)] d less.prems(4) by (simp_all add: mult.commute mult.left_commute)
    qed (use less.prems len1 in auto)
    have "\<exists>ids'. sort_loop ids istack (2 * d) l ir = Some ids' \<and> range_perm 1 n ids1 ids' \<and> pending ids' n []"
    proof (cases "ir + 1 - i \<ge> j - l")
      case True
      then have "sort_loop ids istack (2 * d) l ir = sort_loop ids1 (?push i ir) (2 * Suc d) l (j - 1)"
        using False step d less.prems(4) by (subst sort_loop.simps) (simp add: mem_simps)
      then show ?thesis using go [of l "j - 1" i ir] True sizes by simp
    next
      case False2: False
      then have "sort_loop ids istack (2 * d) l ir = sort_loop ids1 (?push l (j - 1)) (2 * Suc d) i ir"
        using False step d less.prems(4) by (subst sort_loop.simps) (simp add: mem_simps)
      then show ?thesis using go [of i ir l "j - 1"] False2 sizes by simp
    qed
    then show ?thesis using range_perm_trans [OF perm1] by blast
  qed
qed


text \<open>C23: \<open>mdb_midl_sort\<close> terminates on every list of fewer than \<open>2 ^ 30\<close> IDs, reads and writes only the
  list's cells, never overflows its 64-entry stack, and leaves the IDs in descending order.\<close>

theorem mdb_midl_sort_correct:
  assumes "idl_wf ids" "length (idl_list ids) < 2 ^ 30"
  shows "\<exists>ids'. mdb_midl_sort junk ids = Some ids' \<and> idl_wf ids' \<and> length ids' = length ids
    \<and> descending (idl_list ids') \<and> mset (idl_list ids') = mset (idl_list ids)"
proof -
  let ?n = "unat (ids ! 0)"
  have n: "?n < 2 ^ 30" "?n < length ids" using assms by (auto simp: length_idl_list idl_wf_def)
  have ir: "nat (sint (ucast (ids ! 0) :: 32 word)) = ?n"
  proof -
    have "unat (ucast (ids ! 0) :: 32 word) = ?n"
      using n by (simp add: unsigned_ucast_eq take_bit_nat_eq_self_iff)
    then show ?thesis using n sint_small [of "ucast (ids ! 0) :: 32 word"] by simp
  qed
  have "pending ids ?n [(1, ?n)]" by (auto simp: pending_def in_range_def)
  then obtain ids' where ids': "sort_loop ids (map junk [0..<64]) 0 1 ?n = Some ids'"
    "range_perm 1 ?n ids ids'" "pending ids' ?n []"
    using sort_loop_sorts [of ids ?n 1 ?n "map junk [0..<64]" 0] n
    by (auto simp: seg_size_def stk_bounded_def)
  have same: "ids' ! 0 = ids ! 0" "length ids' = length ids"
    using ids'(2) idl_wf_nonempty [OF assms(1)] by (auto simp: range_perm_def)
  have "mdb_midl_sort junk ids = Some ids'"
    using idl_wf_nonempty [OF assms(1)] ids'(1) ir by (simp add: mdb_midl_sort_def mem_simps)
  moreover have wf: "idl_wf ids'" using assms(1) same by (simp add: idl_wf_def)
  moreover have "descending (idl_list ids')"
    using ids'(3) wf by (auto simp: sorted_wrt_iff_nth_less length_idl_list idl_list_nth same pending_def)
  moreover have "mset (idl_list ids') = mset (idl_list ids)"
  proof -
    have "drop (Suc ?n) ids' = drop (Suc ?n) ids"
      using ids'(2) by (auto simp: range_perm_def intro!: nth_equalityI)
    then show ?thesis
      using ids'(2) idl_cells [OF assms(1)] idl_cells [OF wf] same(1)
      unfolding range_perm_def by (metis add_mset_add_single add_right_cancel mset.simps(2) mset_append)
  qed
  ultimately show ?thesis using same by auto
qed

theorem mdb_midl_sort_correct_witness:
  "\<exists>ids'. mdb_midl_sort (\<lambda>i. 0) [4, 2, 9, 2, 5] = Some ids' \<and> descending (idl_list ids') \<and>
    mset (idl_list ids') = {#9, 5, 2, 2#}"
  using mdb_midl_sort_correct [of "[4, 2, 9, 2, 5]" "\<lambda>i. 0"] by (auto simp: idl_list_def idl_wf_def)

end
