(* ===== verification/Bytes.thy ===== *)
theory Bytes
  imports Prelude
begin

text \<open>
  Byte memory: little-endian loads and stores of \<open>k\<close>-byte integers in a block of bytes, and
  \<open>memcpy\<close>/\<open>memmove\<close> inside one block and between blocks.  Every access is checked against the
  block's length.
\<close>

section \<open>Little-endian integers\<close>

fun le_nat :: "byte list \<Rightarrow> nat" where
  "le_nat [] = 0"
| "le_nat (b # bs) = unat b + 256 * le_nat bs"

fun le_bytes :: "nat \<Rightarrow> nat \<Rightarrow> byte list" where
  "le_bytes 0 n = []"
| "le_bytes (Suc k) n = of_nat n # le_bytes k (n div 256)"

text \<open>The \<open>n\<close> bytes at \<open>ofs\<close>, and the block with the bytes at \<open>ofs\<close> overwritten.\<close>

definition slice :: "'a list \<Rightarrow> nat \<Rightarrow> nat \<Rightarrow> 'a list" where
  "slice p ofs n = take n (drop ofs p)"

definition splice :: "'a list \<Rightarrow> nat \<Rightarrow> 'a list \<Rightarrow> 'a list" where
  "splice p ofs bs = take ofs p @ bs @ drop (ofs + length bs) p"

definition rd :: "nat \<Rightarrow> byte list \<Rightarrow> nat \<Rightarrow> nat option" where
  "rd k p ofs = (if ofs + k \<le> length p then Some (le_nat (slice p ofs k)) else None)"

definition wr :: "nat \<Rightarrow> byte list \<Rightarrow> nat \<Rightarrow> nat \<Rightarrow> byte list option" where
  "wr k p ofs n = (if ofs + k \<le> length p then Some (splice p ofs (le_bytes k n)) else None)"

abbreviation rd16 :: "byte list \<Rightarrow> nat \<Rightarrow> nat option" where "rd16 \<equiv> rd 2"
abbreviation rd32 :: "byte list \<Rightarrow> nat \<Rightarrow> nat option" where "rd32 \<equiv> rd 4"
abbreviation rd64 :: "byte list \<Rightarrow> nat \<Rightarrow> nat option" where "rd64 \<equiv> rd 8"
abbreviation wr16 :: "byte list \<Rightarrow> nat \<Rightarrow> nat \<Rightarrow> byte list option" where "wr16 \<equiv> wr 2"
abbreviation wr32 :: "byte list \<Rightarrow> nat \<Rightarrow> nat \<Rightarrow> byte list option" where "wr32 \<equiv> wr 4"
abbreviation wr64 :: "byte list \<Rightarrow> nat \<Rightarrow> nat \<Rightarrow> byte list option" where "wr64 \<equiv> wr 8"

text \<open>\<open>memcpy(p + d, src + s, n)\<close> between two blocks; with \<open>src = p\<close> it is \<open>memmove\<close>.\<close>

definition put_bytes :: "byte list \<Rightarrow> nat \<Rightarrow> byte list \<Rightarrow> byte list option" where
  "put_bytes p d bs = (if d + length bs \<le> length p then Some (splice p d bs) else None)"

definition get_bytes :: "byte list \<Rightarrow> nat \<Rightarrow> nat \<Rightarrow> byte list option" where
  "get_bytes p s n = (if s + n \<le> length p then Some (slice p s n) else None)"

definition c_memmove :: "byte list \<Rightarrow> nat \<Rightarrow> nat \<Rightarrow> nat \<Rightarrow> byte list option" where
  "c_memmove p d s n = do { bs \<leftarrow> get_bytes p s n; put_bytes p d bs }"

section \<open>Laws\<close>

named_theorems byte_simps \<open>loads and stores at known offsets\<close>

lemma length_le_bytes [simp]: "length (le_bytes k n) = k"
  by (induction k arbitrary: n) auto

lemma le_nat_le_bytes [simp]: "le_nat (le_bytes k n) = n mod 256 ^ k"
proof (induction k arbitrary: n)
  case (Suc k)
  have "n mod 256 + 256 * (n div 256 mod 256 ^ k) = n mod 256 ^ Suc k"
    by (simp add: mod_mult2_eq)
  then show ?case using Suc by (simp add: unat_of_nat)
qed simp

lemma le_nat_bound: "le_nat bs < 256 ^ length bs"
proof (induction bs)
  case (Cons b bs)
  have "unat b < 256" using unsigned_less [of b] by simp
  then show ?case using Cons by simp
qed simp

lemma le_bytes_le_nat [simp]: "le_bytes (length bs) (le_nat bs) = bs"
proof (induction bs)
  case (Cons b bs)
  have "unat b < 256" using unsigned_less [of b] by simp
  then have "(unat b + 256 * le_nat bs) div 256 = le_nat bs" by simp
  moreover have "(of_nat (unat b + 256 * le_nat bs) :: byte) = b"
  proof -
    have "(256 :: byte) * x = 0" for x
    proof -
      have "(256 :: byte) = 0" by simp
      then show ?thesis by (metis mult_zero_left)
    qed
    then show ?thesis by simp
  qed
  ultimately show ?case using Cons by simp
qed simp

lemma le_nat_inject: "length a = length b \<Longrightarrow> le_nat a = le_nat b \<longleftrightarrow> a = b"
  by (metis le_bytes_le_nat)

lemma le_nat_append: "le_nat (a @ b) = le_nat a + 256 ^ length a * le_nat b"
  by (induction a) (auto simp: algebra_simps)


lemma length_slice [simp]: "ofs + n \<le> length p \<Longrightarrow> length (slice p ofs n) = n"
  by (simp add: slice_def)

lemma length_splice [simp]: "ofs + length bs \<le> length p \<Longrightarrow> length (splice p ofs bs) = length p"
  by (simp add: splice_def)

lemma nth_slice: "ofs + n \<le> length p \<Longrightarrow> i < n \<Longrightarrow> slice p ofs n ! i = p ! (ofs + i)"
  by (simp add: slice_def)

lemma nth_splice:
  "ofs + length bs \<le> length p \<Longrightarrow> i < length p \<Longrightarrow>
     splice p ofs bs ! i = (if ofs \<le> i \<and> i < ofs + length bs then bs ! (i - ofs) else p ! i)"
  by (auto simp: splice_def nth_append min_def)

lemma slice_eqI:
  assumes "ofs + n \<le> length p" "ofs' + n \<le> length q" "\<And>i. i < n \<Longrightarrow> p ! (ofs + i) = q ! (ofs' + i)"
  shows "slice p ofs n = slice q ofs' n"
  using assms by (auto intro!: nth_equalityI simp: nth_slice)

lemma slice_0 [simp]: "slice p ofs 0 = []"
  by (simp add: slice_def)

lemma slice_splice_same [simp]:
  "ofs + length bs \<le> length p \<Longrightarrow> n = length bs \<Longrightarrow> slice (splice p ofs bs) ofs n = bs"
  by (simp add: slice_def splice_def)

lemma slice_splice_inside:
  assumes "d + length bs \<le> length p" "d \<le> ofs" "ofs + n \<le> d + length bs"
  shows "slice (splice p d bs) ofs n = slice bs (ofs - d) n"
  using assms by (intro slice_eqI) (auto simp: nth_splice)

lemma slice_splice_other [byte_simps]:
  assumes "d + length bs \<le> length p" "ofs + n \<le> length p" "ofs + n \<le> d \<or> d + length bs \<le> ofs"
  shows "slice (splice p d bs) ofs n = slice p ofs n"
  using assms by (intro slice_eqI) (auto simp: nth_splice)

lemma slice_slice:
  assumes "a + m \<le> length p" "b + n \<le> m" shows "slice (slice p a m) b n = slice p (a + b) n"
  using assms by (intro slice_eqI) (auto simp: nth_slice add.assoc)

lemma rd_Some [byte_simps]: "ofs + k \<le> length p \<Longrightarrow> rd k p ofs = Some (le_nat (slice p ofs k))"
  by (simp add: rd_def)

lemma wr_Some [byte_simps]: "ofs + k \<le> length p \<Longrightarrow> wr k p ofs n = Some (splice p ofs (le_bytes k n))"
  by (simp add: wr_def)

lemma put_bytes_Some [byte_simps]:
  "d + length bs \<le> length p \<Longrightarrow> put_bytes p d bs = Some (splice p d bs)"
  by (simp add: put_bytes_def)

lemma get_bytes_Some [byte_simps]: "s + n \<le> length p \<Longrightarrow> get_bytes p s n = Some (slice p s n)"
  by (simp add: get_bytes_def)

lemma c_memmove_Some [byte_simps]:
  "s + n \<le> length p \<Longrightarrow> d + n \<le> length p \<Longrightarrow> c_memmove p d s n = Some (splice p d (slice p s n))"
  by (simp add: c_memmove_def byte_simps)

lemma le_nat_slice_bound: "ofs + k \<le> length p \<Longrightarrow> le_nat (slice p ofs k) < 256 ^ k"
  using le_nat_bound [of "slice p ofs k"] by simp

text \<open>Neighbouring and overlapping stores.\<close>

lemma slice_append: "slice p ofs (a + b) = slice p ofs a @ slice p (ofs + a) b"
  by (simp add: slice_def take_add add.commute)

lemma splice_below:
  "d + length a + length b \<le> length p \<Longrightarrow> d' = d + length a \<Longrightarrow> splice (splice p d' b) d a = splice p d (a @ b)"
  by (simp add: splice_def add.commute add.left_commute)

lemma splice_above:
  "d + length a + length b \<le> length p \<Longrightarrow> d' = d + length a \<Longrightarrow> splice (splice p d a) d' b = splice p d (a @ b)"
  by (simp add: splice_def add.commute add.left_commute)

lemma splice_within:
  "d + length a + length b + length c \<le> length p \<Longrightarrow> d' = d + length a \<Longrightarrow> length b' = length b \<Longrightarrow>
     splice (splice p d (a @ b @ c)) d' b' = splice p d (a @ b' @ c)"
  by (simp add: splice_def add.commute add.left_commute)

lemma splice_Nil [simp]: "splice p d [] = p"
  by (simp add: splice_def)

lemma le_bytes_add: "le_bytes (a + b) n = le_bytes a n @ le_bytes b (n div 256 ^ a)"
  by (induction a arbitrary: n) (simp_all add: div_mult2_eq)

lemma le_nat_slice_add: "ofs + a + b \<le> length p \<Longrightarrow>
    le_nat (slice p ofs (a + b)) = le_nat (slice p ofs a) + 256 ^ a * le_nat (slice p (ofs + a) b)"
  by (simp add: slice_append le_nat_append)

end
