(* ===== verification/Compare.thy ===== *)
theory Compare
  imports Bytes Midl "HOL-Library.List_Lexorder"
begin

text \<open>
  The key comparison functions of \<open>LegacyDatabase/mdb.c\<close>.  An \<open>MDB_val\<close> is its byte list; a
  comparison that reads outside one of its arguments returns \<^term>\<open>None\<close>.  The interface the rest of
  the code relies on is the locale \<open>key_order\<close>: a total order on the keys a database admits.
\<close>

section \<open>The code\<close>

definition mdb_cmp_long :: "byte list \<Rightarrow> byte list \<Rightarrow> int option" where
  "mdb_cmp_long a b = do {
     x \<leftarrow> rd64 a 0;
     y \<leftarrow> rd64 b 0;
     Some (CMP x y) }"

definition mdb_cmp_int :: "byte list \<Rightarrow> byte list \<Rightarrow> int option" where
  "mdb_cmp_int a b = do {
     x \<leftarrow> rd32 a 0;
     y \<leftarrow> rd32 b 0;
     Some (CMP x y) }"

text \<open>
  \<open>ofs\<close> is the distance of \<open>u\<close> and \<open>c\<close> from the start of their items; \<open>*--u\<close> with less than
  two bytes left reads before the item.
\<close>

fun cmp_cint_loop :: "byte list \<Rightarrow> byte list \<Rightarrow> nat \<Rightarrow> int option" where
  "cmp_cint_loop a b (Suc (Suc ofs)) = do {
     u \<leftarrow> rd16 a ofs;
     c \<leftarrow> rd16 b ofs;
     let x = int u - int c;
     if x = 0 \<and> ofs > 0 then cmp_cint_loop a b ofs else Some x }"
| "cmp_cint_loop a b ofs = None"

definition mdb_cmp_cint :: "byte list \<Rightarrow> byte list \<Rightarrow> int option" where
  "mdb_cmp_cint a b = cmp_cint_loop a b (length a)"

text \<open>\<open>memcmp\<close>: only the sign of its result is specified.\<close>

fun c_memcmp :: "byte list \<Rightarrow> byte list \<Rightarrow> nat \<Rightarrow> int option" where
  "c_memcmp a b 0 = Some 0"
| "c_memcmp (x # a) (y # b) (Suc n) = (if x = y then c_memcmp a b n else Some (CMP x y))"
| "c_memcmp a b (Suc n) = None"

definition mdb_cmp_memn :: "byte list \<Rightarrow> byte list \<Rightarrow> int option" where
  "mdb_cmp_memn a b =
     (let len = u32 (length a);
          len_diff = int (length a) - int (length b);
          (len, len_diff) = (if len_diff > 0 then (u32 (length b), 1) else (len, len_diff))
      in do {
        diff \<leftarrow> c_memcmp a b len;
        Some (if diff \<noteq> 0 then diff else if len_diff < 0 then -1 else len_diff) })"

text \<open>The loop of \<open>mdb_cmp_memnr\<close>; \<open>p1\<close> and \<open>p2\<close> are offsets, \<open>p1_lim\<close> the offset where it stops.\<close>

function cmp_memnr_loop :: "byte list \<Rightarrow> byte list \<Rightarrow> nat \<Rightarrow> nat \<Rightarrow> nat \<Rightarrow> int \<Rightarrow> int option" where
  "cmp_memnr_loop a b p1 p2 p1_lim len_diff =
     (if p1 > p1_lim then
        if p2 = 0 then None
        else do {
          x \<leftarrow> c_read a (p1 - 1);
          y \<leftarrow> c_read b (p2 - 1);
          let diff = int (unat x) - int (unat y);
          if diff \<noteq> 0 then Some diff else cmp_memnr_loop a b (p1 - 1) (p2 - 1) p1_lim len_diff }
      else Some (if len_diff < 0 then -1 else len_diff))"
  by pat_completeness auto
termination
  by (relation "measure (\<lambda>(a, b, p1, p2, p1_lim, len_diff). p1)") auto

definition mdb_cmp_memnr :: "byte list \<Rightarrow> byte list \<Rightarrow> int option" where
  "mdb_cmp_memnr a b =
     (let len_diff = int (length a) - int (length b);
          (p1_lim, len_diff) = (if len_diff > 0 then (nat len_diff, 1) else (0, len_diff))
      in cmp_memnr_loop a b (length a) (length b) p1_lim len_diff)"

declare cmp_memnr_loop.simps [simp del]

section \<open>The interface\<close>

locale key_order =
  fixes cmp :: "byte list \<Rightarrow> byte list \<Rightarrow> int option"
    and valid :: "byte list \<Rightarrow> bool"
  assumes cmp_defined: "valid a \<Longrightarrow> valid b \<Longrightarrow> cmp a b \<noteq> None"
    and cmp_eq: "valid a \<Longrightarrow> valid b \<Longrightarrow> cmp a b = Some 0 \<longleftrightarrow> a = b"
    and cmp_swap: "valid a \<Longrightarrow> valid b \<Longrightarrow> the (cmp a b) < 0 \<longleftrightarrow> the (cmp b a) > 0"
    and cmp_trans: "valid a \<Longrightarrow> valid b \<Longrightarrow> valid c \<Longrightarrow>
      the (cmp a b) < 0 \<Longrightarrow> the (cmp b c) < 0 \<Longrightarrow> the (cmp a c) < 0"

text \<open>A comparison that follows some measure into a linear order is such an order.\<close>

lemma key_orderI:
  fixes f :: "byte list \<Rightarrow> 'a::linorder"
  assumes "\<And>a b. valid a \<Longrightarrow> valid b \<Longrightarrow> \<exists>v. cmp a b = Some v \<and> sgn v = CMP (f a) (f b)"
    and "\<And>a b. valid a \<Longrightarrow> valid b \<Longrightarrow> f a = f b \<Longrightarrow> a = b"
  shows "key_order cmp valid"
proof -
  have v: "cmp a b \<noteq> None" "the (cmp a b) = 0 \<longleftrightarrow> f a = f b" "the (cmp a b) < 0 \<longleftrightarrow> f a < f b"
    "the (cmp a b) > 0 \<longleftrightarrow> f a > f b" if ab: "valid a" "valid b" for a b
  proof -
    obtain v where v: "cmp a b = Some v" "sgn v = CMP (f a) (f b)" using assms(1) [OF ab] by blast
    then show "cmp a b \<noteq> None" "the (cmp a b) = 0 \<longleftrightarrow> f a = f b" "the (cmp a b) < 0 \<longleftrightarrow> f a < f b"
      "the (cmp a b) > 0 \<longleftrightarrow> f a > f b"
      by (auto simp: CMP_def sgn_if split: if_splits)
  qed
  show ?thesis
  proof
    fix a b c assume "valid a" "valid b" "valid c" "the (cmp a b) < 0" "the (cmp b c) < 0"
    then show "the (cmp a c) < 0" using v by (metis less_trans)
  next
    fix a b assume ab: "valid a" "valid b"
    then show "cmp a b = Some 0 \<longleftrightarrow> a = b" using v [OF ab] assms(2) by (metis option.collapse option.sel)
    show "the (cmp a b) < 0 \<longleftrightarrow> the (cmp b a) > 0" using v ab by metis
  qed (use v in auto)
qed

section \<open>Integer keys\<close>

lemma CMP_high_digit:
  fixes x y B u c :: nat
  assumes "x < B" "y < B" "u \<noteq> c"
  shows "CMP (x + B * u) (y + B * c) = CMP u c"
proof -
  have less: "x + B * u < y + B * c" if "u < c" "x < B" for u c x y :: nat
  proof -
    have "x + B * u < B * Suc u" using that(2) by simp
    also have "\<dots> \<le> B * c" using that(1) by (intro mult_le_mono2) simp
    finally show ?thesis by simp
  qed
  show ?thesis
    using less [of u c x y] less [of c u y x] assms by (cases "u < c") (auto simp: CMP_def)
qed

lemma cmp_cint_numeric:
  assumes "n > 0" "even n" "n \<le> length a" "n \<le> length b"
  shows "\<exists>v. cmp_cint_loop a b n = Some v \<and> sgn v = CMP (le_nat (take n a)) (le_nat (take n b))"
  using assms
proof (induction a b n rule: cmp_cint_loop.induct)
  case (1 a b m)
  let ?u = "le_nat (slice a m 2)" and ?c = "le_nat (slice b m 2)"
  let ?x = "le_nat (take m a)" and ?y = "le_nat (take m b)"
  have xy: "?x < 256 ^ m" "?y < 256 ^ m"
    using le_nat_bound [of "take m a"] le_nat_bound [of "take m b"] "1.prems" by auto
  have split: "le_nat (take (Suc (Suc m)) p) = le_nat (take m p) + 256 ^ m * le_nat (slice p m 2)"
    if "Suc (Suc m) \<le> length p" for p
    using that take_add [of m 2 p] by (simp add: slice_def le_nat_append)
  have step: "cmp_cint_loop a b (Suc (Suc m)) =
      (if ?u = ?c \<and> m > 0 then cmp_cint_loop a b m else Some (int ?u - int ?c))"
    using "1.prems" by (simp add: byte_simps)
  show ?case
  proof (cases "?u = ?c")
    case True
    then have eq: "CMP (le_nat (take (Suc (Suc m)) a)) (le_nat (take (Suc (Suc m)) b)) = CMP ?x ?y"
      using "1.prems" split by (simp add: CMP_def)
    show ?thesis
    proof (cases "m = 0")
      case True
      then show ?thesis using step \<open>?u = ?c\<close> eq by (simp add: CMP_def)
    next
      case False
      then show ?thesis
        using step True eq "1.IH" [of ?u ?c] "1.prems" by (simp add: byte_simps)
    qed
  next
    case False
    then have "CMP (le_nat (take (Suc (Suc m)) a)) (le_nat (take (Suc (Suc m)) b)) = CMP ?u ?c"
      using "1.prems" split CMP_high_digit [OF xy False] by simp
    with False step show ?thesis by (auto simp: CMP_def sgn_if)
  qed
qed auto

text \<open>On integer keys all three comparisons give the numerical order.\<close>

lemma mdb_cmp_cint_sgn:
  assumes "length a = n" "length b = n" "n > 0" "even n"
  shows "\<exists>v. mdb_cmp_cint a b = Some v \<and> sgn v = CMP (le_nat a) (le_nat b)"
  using cmp_cint_numeric [of n a b] assms by (simp add: mdb_cmp_cint_def)

interpretation cint: key_order mdb_cmp_cint "\<lambda>k. length k = 8"
  by (rule key_orderI [where f = le_nat]) (auto intro: mdb_cmp_cint_sgn simp: le_nat_inject)

interpretation cint32: key_order mdb_cmp_cint "\<lambda>k. length k = 4"
  by (rule key_orderI [where f = le_nat]) (auto intro: mdb_cmp_cint_sgn simp: le_nat_inject)

lemma mdb_cmp_long_eq: "length a = 8 \<Longrightarrow> length b = 8 \<Longrightarrow> mdb_cmp_long a b = Some (CMP (le_nat a) (le_nat b))"
  by (simp add: mdb_cmp_long_def byte_simps slice_def)

lemma mdb_cmp_int_eq: "length a = 4 \<Longrightarrow> length b = 4 \<Longrightarrow> mdb_cmp_int a b = Some (CMP (le_nat a) (le_nat b))"
  by (simp add: mdb_cmp_int_def byte_simps slice_def)

interpretation cmp_long: key_order mdb_cmp_long "\<lambda>k. length k = 8"
  by (rule key_orderI [where f = le_nat]) (auto simp: mdb_cmp_long_eq CMP_def le_nat_inject)

interpretation cmp_int: key_order mdb_cmp_int "\<lambda>k. length k = 4"
  by (rule key_orderI [where f = le_nat]) (auto simp: mdb_cmp_int_eq CMP_def le_nat_inject)

lemma sgn_CMP [simp]: "sgn (CMP x y) = CMP x y"
  by (simp add: CMP_def)

lemma map_option_sgn:
  "\<exists>v. x = Some v \<and> sgn v = CMP m n \<Longrightarrow> map_option sgn x = Some (CMP m n)"
  by auto

text \<open>C32: on 8-byte keys \<open>mdb_cmp_cint\<close> and the aligned fast path \<open>mdb_cmp_long\<close> agree on the order of any two keys, and
  so do \<open>mdb_cmp_cint\<close> and \<open>mdb_cmp_int\<close> on 4-byte keys; so replacing one by the other (as
  \<open>mdb_node_search\<close> does on branch pages) does not change any search.\<close>

theorem mdb_cmp_cint_equiv:
  assumes "length a = length b"
  shows "(length a = 8 \<longrightarrow> map_option sgn (mdb_cmp_cint a b) = map_option sgn (mdb_cmp_long a b)) \<and>
    (length a = 4 \<longrightarrow> map_option sgn (mdb_cmp_cint a b) = map_option sgn (mdb_cmp_int a b))"
proof (intro conjI impI)
  assume "length a = 8"
  then show "map_option sgn (mdb_cmp_cint a b) = map_option sgn (mdb_cmp_long a b)"
    using map_option_sgn [OF mdb_cmp_cint_sgn [of a 8 b]] assms by (simp add: mdb_cmp_long_eq)
next
  assume "length a = 4"
  then show "map_option sgn (mdb_cmp_cint a b) = map_option sgn (mdb_cmp_int a b)"
    using map_option_sgn [OF mdb_cmp_cint_sgn [of a 4 b]] assms by (simp add: mdb_cmp_int_eq)
qed

theorem mdb_cmp_cint_equiv_witness:
  "map_option sgn (mdb_cmp_cint [1, 0, 0, 2] [3, 0, 0, 1]) = map_option sgn (mdb_cmp_int [1, 0, 0, 2] [3, 0, 0, 1])"
  using mdb_cmp_cint_equiv [of "[1, 0, 0, 2]" "[3, 0, 0, 1]"] by simp

section \<open>Byte strings\<close>

lemma CMP_Cons: "CMP (x # a) (y # b) = (if x = y then CMP a b else CMP x (y :: 'a::linorder))"
  by (auto simp: CMP_def)

lemma CMP_append_same_length:
  fixes a c :: "'a::linorder list"
  assumes "length a = length c" "a \<noteq> c" shows "CMP (a @ s) (c @ t) = CMP a c"
  using assms by (induction a c rule: list_induct2) (auto simp: CMP_Cons)

lemma CMP_prefix: "CMP (a @ s) (a @ t) = CMP s (t :: 'a::linorder list)"
  by (induction a) (auto simp: CMP_Cons)

lemma c_memcmp_eq:
  "n \<le> length a \<Longrightarrow> n \<le> length b \<Longrightarrow> c_memcmp a b n = Some (CMP (take n a) (take n b))"
  by (induction a b n rule: c_memcmp.induct) (auto simp: CMP_Cons CMP_def [of "[]" "[]"])

text \<open>Comparing the common length first and then the lengths is the lexicographic order.\<close>

lemma CMP_lexicographic:
  fixes a b :: "'a::linorder list"
  defines "n \<equiv> min (length a) (length b)"
  shows "CMP a b = (if CMP (take n a) (take n b) \<noteq> 0 then CMP (take n a) (take n b)
    else CMP (length a) (length b))"
proof -
  have split: "CMP a b = CMP (take n a @ drop n a) (take n b @ drop n b)" by simp
  show ?thesis
  proof (cases "take n a = take n b")
    case True
    then have "CMP a b = CMP (drop n a) (drop n b)" unfolding split by (simp add: CMP_prefix del: append_take_drop_id)
    moreover have "drop n a = [] \<or> drop n b = []" by (auto simp: n_def)
    ultimately show ?thesis using True
      by (cases "drop n a"; cases "drop n b") (auto simp: CMP_def n_def min_def split: if_splits)
  next
    case False
    then show ?thesis unfolding split using CMP_append_same_length [of "take n a" "take n b"]
      by (simp add: n_def del: append_take_drop_id)
  qed
qed

lemma mdb_cmp_memn_sgn:
  assumes "length a < 2 ^ 32" "length b < 2 ^ 32"
  shows "\<exists>v. mdb_cmp_memn a b = Some v \<and> sgn v = CMP a b"
proof -
  let ?n = "min (length a) (length b)"
  have "mdb_cmp_memn a b = Some (if CMP (take ?n a) (take ?n b) \<noteq> 0 then CMP (take ?n a) (take ?n b)
      else if length a < length b then -1 else if length a > length b then 1 else 0)"
    using assms by (auto simp: mdb_cmp_memn_def c_memcmp_eq min_def)
  then show ?thesis using CMP_lexicographic [of a b] by (auto simp: CMP_def)
qed

lemma sgn_byte_diff: "sgn (int (unat x) - int (unat y)) = CMP x (y :: byte)"
  by (auto simp: CMP_def sgn_if word_less_def word_uint_eq_iff)

lemma cmp_memnr_loop_sgn:
  assumes "p1 \<le> length a" "p2 \<le> length b" "p1 = lim + k" "k \<le> p2"
  shows "\<exists>v. cmp_memnr_loop a b p1 p2 lim d = Some v \<and>
    sgn v = (let x = take k (rev (take p1 a)); y = take k (rev (take p2 b))
             in if x = y then sgn d else CMP x y)"
  using assms
proof (induction k arbitrary: p1 p2)
  case 0
  then show ?case by (simp add: cmp_memnr_loop.simps sgn_if)
next
  case (Suc k)
  obtain q1 q2 where q: "p1 = Suc q1" "p2 = Suc q2" "q1 = lim + k" "k \<le> q2"
    using Suc.prems by (cases p1; cases p2) auto
  have tk: "take (Suc k) (rev (take p1 a)) = a ! q1 # take k (rev (take q1 a))"
    "take (Suc k) (rev (take p2 b)) = b ! q2 # take k (rev (take q2 b))"
    using q Suc.prems by (simp_all add: take_Suc_conv_app_nth)
  show ?case
  proof (cases "a ! q1 = b ! q2")
    case True
    then have "cmp_memnr_loop a b p1 p2 lim d = cmp_memnr_loop a b q1 q2 lim d"
      using q Suc.prems by (subst cmp_memnr_loop.simps) (simp add: mem_simps)
    then show ?thesis using Suc.IH [of q1 q2] q Suc.prems True unfolding tk by (auto simp: CMP_def Let_def)
  next
    case False
    then have "int (unat (a ! q1)) \<noteq> int (unat (b ! q2))" by (metis of_nat_eq_iff word_unat_eq_iff)
    then have "cmp_memnr_loop a b p1 p2 lim d = Some (int (unat (a ! q1)) - int (unat (b ! q2)))"
      using q Suc.prems by (subst cmp_memnr_loop.simps) (simp add: mem_simps)
    then show ?thesis using False unfolding tk by (simp add: CMP_Cons sgn_byte_diff del: of_nat_unat)
  qed
qed

lemma mdb_cmp_memnr_sgn: "\<exists>v. mdb_cmp_memnr a b = Some v \<and> sgn v = CMP (rev a) (rev b)"
proof -
  let ?n = "min (length a) (length b)" and ?d = "int (length a) - int (length b)"
  let ?lim = "if ?d > 0 then nat ?d else 0"
  have "\<exists>v. cmp_memnr_loop a b (length a) (length b) ?lim (if ?d > 0 then 1 else ?d) = Some v \<and>
      sgn v = (if take ?n (rev a) = take ?n (rev b) then sgn (if ?d > 0 then 1 else ?d)
               else CMP (take ?n (rev a)) (take ?n (rev b)))"
    using cmp_memnr_loop_sgn [of "length a" a "length b" b ?lim ?n "if ?d > 0 then 1 else ?d"]
    by (auto simp: Let_def)
  moreover have "sgn (if ?d > 0 then 1 else ?d) = CMP (length a) (length b)"
    by (auto simp: CMP_def sgn_if)
  moreover have "CMP (rev a) (rev b) = (if take ?n (rev a) = take ?n (rev b) then CMP (length a) (length b)
      else CMP (take ?n (rev a)) (take ?n (rev b)))"
    using CMP_lexicographic [of "rev a" "rev b"] by simp
  moreover have "mdb_cmp_memnr a b =
      cmp_memnr_loop a b (length a) (length b) ?lim (if ?d > 0 then 1 else ?d)"
    by (simp add: mdb_cmp_memnr_def)
  ultimately show ?thesis by metis
qed

interpretation memn: key_order mdb_cmp_memn "\<lambda>k. length k < 2 ^ 32"
  by (rule key_orderI [where f = "\<lambda>k. k"]) (auto intro: mdb_cmp_memn_sgn)

interpretation memnr: key_order mdb_cmp_memnr "\<lambda>k. True"
  by (rule key_orderI [where f = rev]) (auto intro: mdb_cmp_memnr_sgn)

end
