(* ===== verification/Page.thy ===== *)
theory Page
  imports Compare
begin

text \<open>
  Pages and the nodes on them, from \<open>LegacyDatabase/mdb.c\<close>: the layout macros (lines 690-870),
  \<open>mdb_node_search\<close>, \<open>mdb_leaf_size\<close>, \<open>mdb_branch_size\<close>, \<open>mdb_node_add\<close>, \<open>mdb_node_del\<close>,
  \<open>mdb_node_shrink\<close> and \<open>mdb_page_copy\<close>.

  A page is the list of its bytes.  The header takes the first 16 bytes; the array \<open>mp_ptrs\<close> of
  node offsets grows up from there to \<open>mp_lower\<close>, and the nodes themselves fill the page from its
  end down to \<open>mp_upper\<close>.  \<open>PAGEBASE\<close> is 0 because \<open>MDB_DEVEL\<close> is not set.  A failed
  \<open>mdb_cassert\<close> aborts the process and is \<^term>\<open>None\<close>, like an access outside the page.
\<close>

section \<open>Layout\<close>

datatype rc = MDB_SUCCESS | MDB_KEYEXIST | MDB_NOTFOUND | MDB_PAGE_NOTFOUND | MDB_CORRUPTED | MDB_PANIC
  | MDB_VERSION_MISMATCH | MDB_INVALID | MDB_MAP_FULL | MDB_DBS_FULL | MDB_READERS_FULL | MDB_TLS_FULL
  | MDB_TXN_FULL | MDB_CURSOR_FULL | MDB_PAGE_FULL | MDB_MAP_RESIZED | MDB_INCOMPATIBLE | MDB_BAD_RSLOT
  | MDB_BAD_TXN | MDB_BAD_VALSIZE | MDB_BAD_DBI | ENOMEM | EINVAL | EACCES | EIO
  | ENOENT | ENOSPC | EBUSY | ERRNO nat

type_synonym page = "byte list"

record mdb_db =
  md_pad :: nat
  md_flags :: nat
  md_depth :: nat
  md_branch_pages :: nat
  md_leaf_pages :: nat
  md_overflow_pages :: nat
  md_entries :: nat
  md_root :: nat

text \<open>A data item: its size, and the bytes that can be read at its address.\<close>

record mdb_val =
  mv_size :: nat
  mv_data :: "byte list"

definition PAGEHDRSZ :: nat where "PAGEHDRSZ = 16"
definition NODESIZE :: nat where "NODESIZE = 8"

definition P_BRANCH :: nat where "P_BRANCH = 0x01"
definition P_LEAF :: nat where "P_LEAF = 0x02"
definition P_OVERFLOW :: nat where "P_OVERFLOW = 0x04"
definition P_META :: nat where "P_META = 0x08"
definition P_DIRTY :: nat where "P_DIRTY = 0x10"
definition P_LEAF2 :: nat where "P_LEAF2 = 0x20"
definition P_SUBP :: nat where "P_SUBP = 0x40"
definition P_LOOSE :: nat where "P_LOOSE = 0x4000"
definition P_KEEP :: nat where "P_KEEP = 0x8000"
definition F_BIGDATA :: nat where "F_BIGDATA = 0x01"
definition F_SUBDATA :: nat where "F_SUBDATA = 0x02"
definition F_DUPDATA :: nat where "F_DUPDATA = 0x04"
definition MDB_RESERVE :: nat where "MDB_RESERVE = 0x10000"

definition MDB_TXN_ERROR :: nat where "MDB_TXN_ERROR = 0x02"

definition F_ISSET :: "nat \<Rightarrow> nat \<Rightarrow> bool" where
  "F_ISSET w f \<longleftrightarrow> w AND f = f"

definition EVEN :: "nat \<Rightarrow> nat" where
  "EVEN n = (n + 1) div 2 * 2"

definition mp_pgno :: "page \<Rightarrow> nat option" where "mp_pgno p = rd64 p 0"
definition mp_pad :: "page \<Rightarrow> nat option" where "mp_pad p = rd16 p 8"
definition mp_flags :: "page \<Rightarrow> nat option" where "mp_flags p = rd16 p 10"
definition mp_lower :: "page \<Rightarrow> nat option" where "mp_lower p = rd16 p 12"
definition mp_upper :: "page \<Rightarrow> nat option" where "mp_upper p = rd16 p 14"
definition mp_ptr :: "page \<Rightarrow> nat \<Rightarrow> nat option" where "mp_ptr p i = rd16 p (PAGEHDRSZ + 2 * i)"

definition IS_LEAF :: "nat \<Rightarrow> bool" where "IS_LEAF fl = F_ISSET fl P_LEAF"
definition IS_LEAF2 :: "nat \<Rightarrow> bool" where "IS_LEAF2 fl = F_ISSET fl P_LEAF2"
definition IS_BRANCH :: "nat \<Rightarrow> bool" where "IS_BRANCH fl = F_ISSET fl P_BRANCH"
definition IS_OVERFLOW :: "nat \<Rightarrow> bool" where "IS_OVERFLOW fl = F_ISSET fl P_OVERFLOW"

text \<open>\<open>NUMKEYS\<close> and \<open>SIZELEFT\<close> are unsigned subtractions.\<close>

definition NUMKEYS :: "page \<Rightarrow> nat option" where
  "NUMKEYS p = do { lower \<leftarrow> mp_lower p; Some (u32 (lower + 2 ^ 32 - PAGEHDRSZ) div 2) }"

definition SIZELEFT :: "page \<Rightarrow> nat option" where
  "SIZELEFT p = do { lower \<leftarrow> mp_lower p; upper \<leftarrow> mp_upper p; Some (u16 (upper + 2 ^ 16 - lower)) }"

definition OVPAGES :: "nat \<Rightarrow> nat \<Rightarrow> nat" where
  "OVPAGES sz psize = (PAGEHDRSZ - 1 + sz) div psize + 1"

text \<open>Node fields, for the node at offset \<open>nd\<close> of the page.\<close>

definition mn_lo :: "page \<Rightarrow> nat \<Rightarrow> nat option" where "mn_lo p nd = rd16 p nd"
definition mn_hi :: "page \<Rightarrow> nat \<Rightarrow> nat option" where "mn_hi p nd = rd16 p (nd + 2)"
definition mn_flags :: "page \<Rightarrow> nat \<Rightarrow> nat option" where "mn_flags p nd = rd16 p (nd + 4)"
definition mn_ksize :: "page \<Rightarrow> nat \<Rightarrow> nat option" where "mn_ksize p nd = rd16 p (nd + 6)"

definition NODEDSZ :: "page \<Rightarrow> nat \<Rightarrow> nat option" where
  "NODEDSZ p nd = do { lo \<leftarrow> mn_lo p nd; hi \<leftarrow> mn_hi p nd; Some (lo + hi * 2 ^ 16) }"

definition NODEPGNO :: "page \<Rightarrow> nat \<Rightarrow> nat option" where
  "NODEPGNO p nd = do {
     lo \<leftarrow> mn_lo p nd; hi \<leftarrow> mn_hi p nd; fl \<leftarrow> mn_flags p nd;
     Some (lo + hi * 2 ^ 16 + fl * 2 ^ 32) }"

definition SETDSZ :: "page \<Rightarrow> nat \<Rightarrow> nat \<Rightarrow> page option" where
  "SETDSZ p nd sz = do { p \<leftarrow> wr16 p nd sz; wr16 p (nd + 2) (sz div 2 ^ 16) }"

definition SETPGNO :: "page \<Rightarrow> nat \<Rightarrow> nat \<Rightarrow> page option" where
  "SETPGNO p nd pgno = do {
     p \<leftarrow> wr16 p nd pgno;
     p \<leftarrow> wr16 p (nd + 2) (pgno div 2 ^ 16);
     wr16 p (nd + 4) (pgno div 2 ^ 32) }"

definition NODEKEY :: "page \<Rightarrow> nat \<Rightarrow> byte list option" where
  "NODEKEY p nd = do { ks \<leftarrow> mn_ksize p nd; get_bytes p (nd + NODESIZE) ks }"

definition LEAF2KEY :: "page \<Rightarrow> nat \<Rightarrow> nat \<Rightarrow> byte list option" where
  "LEAF2KEY p i ks = get_bytes p (PAGEHDRSZ + i * ks) ks"

section \<open>Node sizes\<close>

text \<open>\<open>sz -= data->mv_size - sizeof(pgno_t)\<close> on \<open>size_t\<close>.\<close>

definition mdb_leaf_size :: "nat \<Rightarrow> nat \<Rightarrow> nat \<Rightarrow> nat" where
  "mdb_leaf_size me_nodemax ksize dsize =
     (let sz = NODESIZE + ksize + dsize;
          sz = (if sz > me_nodemax then NODESIZE + ksize + 8 else sz)
      in EVEN (sz + 2))"

definition mdb_branch_size :: "byte list option \<Rightarrow> nat" where
  "mdb_branch_size key = NODESIZE + (case key of None \<Rightarrow> 0 | Some k \<Rightarrow> length k) + 2"

section \<open>Searching a page\<close>

datatype cmp_func = Cmp_memn | Cmp_memnr | Cmp_int | Cmp_cint | Cmp_long
  | Cmp_user "byte list \<Rightarrow> byte list \<Rightarrow> int option"

fun run_cmp :: "cmp_func \<Rightarrow> byte list \<Rightarrow> byte list \<Rightarrow> int option" where
  "run_cmp Cmp_memn = mdb_cmp_memn"
| "run_cmp Cmp_memnr = mdb_cmp_memnr"
| "run_cmp Cmp_int = mdb_cmp_int"
| "run_cmp Cmp_cint = mdb_cmp_cint"
| "run_cmp Cmp_long = mdb_cmp_long"
| "run_cmp (Cmp_user f) = f"

text \<open>
  The two search loops of \<open>mdb_node_search\<close> differ only in how they fetch the key at index \<open>i\<close>,
  which is \<open>keyat\<close> here.  The result is the last \<open>i\<close> and the last \<open>rc\<close>.
\<close>

function node_search_loop ::
  "(nat \<Rightarrow> byte list option) \<Rightarrow> (byte list \<Rightarrow> byte list \<Rightarrow> int option) \<Rightarrow> byte list \<Rightarrow>
   nat \<Rightarrow> int \<Rightarrow> nat \<Rightarrow> int \<Rightarrow> (nat \<times> int) option" where
  "node_search_loop keyat cmp key low high i rc =
     (if int low \<le> high then
        let i = (low + nat high) div 2 in do {
          nodekey \<leftarrow> keyat i;
          rc \<leftarrow> cmp key nodekey;
          if rc = 0 then Some (i, rc)
          else if rc > 0 then node_search_loop keyat cmp key (i + 1) high i rc
          else node_search_loop keyat cmp key low (int i - 1) i rc }
      else Some (i, rc))"
  by pat_completeness auto
termination
  by (relation "measure (\<lambda>(keyat, cmp, key, low, high, i, rc). nat (high + 1 - int low))") auto

declare node_search_loop.simps [simp del]

text \<open>
  The page, the comparison and \<open>md_pad\<close> are those of the cursor.  The result is the node (\<^term>\<open>None\<close>
  for \<open>NULL\<close>), the index stored in \<open>mc_ki\<close> and \<open>*exactp\<close>.  \<open>node\<close> stays \<open>NULL\<close> when the
  loop makes no step, which happens on an empty page and on a branch page with a single key.
\<close>

definition mdb_node_search ::
  "cmp_func \<Rightarrow> nat \<Rightarrow> page \<Rightarrow> byte list \<Rightarrow> (nat option \<times> nat \<times> bool) option" where
  "mdb_node_search md_cmp pad mp key = do {
     nkeys \<leftarrow> NUMKEYS mp;
     fl \<leftarrow> mp_flags mp;
     let low = (if IS_LEAF fl then 0 else 1);
     cmp \<leftarrow> (case md_cmp of
         Cmp_cint \<Rightarrow>
           if IS_BRANCH fl then do {
             nd \<leftarrow> mp_ptr mp 1;
             ks \<leftarrow> mn_ksize mp nd;
             Some (if ks = 8 then Cmp_long else Cmp_int) }
           else Some Cmp_cint
       | c \<Rightarrow> Some c);
     (i, rc) \<leftarrow> (if IS_LEAF2 fl
        then node_search_loop (\<lambda>i. LEAF2KEY mp i pad) (run_cmp cmp) key low (int nkeys - 1) 0 0
        else node_search_loop (\<lambda>i. do { nd \<leftarrow> mp_ptr mp i; NODEKEY mp nd }) (run_cmp cmp) key low (int nkeys - 1) 0 0);
     let i = (if rc > 0 then i + 1 else i);
     node \<leftarrow> (if IS_LEAF2 fl then map_option Some (mp_ptr mp 0)
             else if int low \<le> int nkeys - 1 then map_option Some (mp_ptr mp i)
             else Some None);
     let exact = (rc = 0 \<and> nkeys > 0);
     Some (if i \<ge> nkeys then None else node, i, exact) }"

section \<open>Adding a node\<close>

text \<open>
  The part of the cursor's and the transaction's state that adding a node changes: the page, the
  database record, the transaction's flags and the state \<open>na_txn\<close> of the page allocator.
\<close>

record 's na_state =
  na_page :: page
  na_db :: mdb_db
  na_mt_flags :: nat
  na_txn :: 's

text \<open>
  \<open>mdb_page_new\<close>: \<open>page_alloc\<close> stands for \<open>mdb_page_alloc\<close>; it hands out \<open>num\<close> contiguous pages.
\<close>

definition mdb_page_new ::
  "('s \<Rightarrow> nat \<Rightarrow> ('s \<times> (rc + page)) option) \<Rightarrow> nat \<Rightarrow> 's na_state \<Rightarrow> nat \<Rightarrow> nat \<Rightarrow>
   ('s na_state \<times> (rc + page)) option" where
  "mdb_page_new page_alloc me_psize st flags num = do {
     (s, r) \<leftarrow> page_alloc (na_txn st) num;
     let st = st\<lparr>na_txn := s\<rparr>;
     (case r of
        Inl rc \<Rightarrow> Some (st, Inl rc)
      | Inr np \<Rightarrow> do {
          let fl = u16 (flags OR P_DIRTY);
          np \<leftarrow> wr16 np 10 fl;
          np \<leftarrow> wr16 np 12 PAGEHDRSZ;
          np \<leftarrow> wr16 np 14 me_psize;
          let db = na_db st;
          if IS_BRANCH fl then
            Some (st\<lparr>na_db := db\<lparr>md_branch_pages := md_branch_pages db + 1\<rparr>\<rparr>, Inr np)
          else if IS_LEAF fl then
            Some (st\<lparr>na_db := db\<lparr>md_leaf_pages := md_leaf_pages db + 1\<rparr>\<rparr>, Inr np)
          else if IS_OVERFLOW fl then do {
            np \<leftarrow> wr32 np 12 num;
            Some (st\<lparr>na_db := db\<lparr>md_overflow_pages := md_overflow_pages db + num\<rparr>\<rparr>, Inr np) }
          else Some (st, Inr np) }) }"

text \<open>The loop \<open>for (i = NUMKEYS(mp); i > indx; i--) mp->mp_ptrs[i] = mp->mp_ptrs[i - 1]\<close>.\<close>

fun ptrs_up :: "page \<Rightarrow> nat \<Rightarrow> nat \<Rightarrow> page option" where
  "ptrs_up mp indx 0 = Some mp"
| "ptrs_up mp indx (Suc i) =
     (if Suc i > indx then do {
        v \<leftarrow> mp_ptr mp i;
        mp \<leftarrow> wr16 mp (PAGEHDRSZ + 2 * Suc i) v;
        ptrs_up mp indx i }
      else Some mp)"

text \<open>
  Writing the node's bytes.  For \<open>MDB_RESERVE\<close> the data is left to the caller, to whom the
  code returns the node's data address.
\<close>

definition node_write ::
  "page \<Rightarrow> nat \<Rightarrow> nat \<Rightarrow> byte list option \<Rightarrow> mdb_val option \<Rightarrow> nat \<Rightarrow> nat \<Rightarrow> page option \<Rightarrow>
   (page \<times> page option) option" where
  "node_write mp fl node key data pgno flags ofp = do {
     mp \<leftarrow> wr16 mp (node + 6) (case key of None \<Rightarrow> 0 | Some k \<Rightarrow> length k);
     mp \<leftarrow> wr16 mp (node + 4) flags;
     mp \<leftarrow> (if IS_LEAF fl then do { d \<leftarrow> data; SETDSZ mp node (mv_size d) } else SETPGNO mp node pgno);
     mp \<leftarrow> (case key of None \<Rightarrow> Some mp | Some k \<Rightarrow> put_bytes mp (node + NODESIZE) k);
     if IS_LEAF fl then do {
       k \<leftarrow> key;
       d \<leftarrow> data;
       let dst = node + NODESIZE + length k;
       (case ofp of
          None \<Rightarrow>
            if F_ISSET flags F_BIGDATA then do {
              b \<leftarrow> get_bytes (mv_data d) 0 8;
              mp \<leftarrow> put_bytes mp dst b;
              Some (mp, None) }
            else if F_ISSET flags MDB_RESERVE then Some (mp, None)
            else do {
              b \<leftarrow> get_bytes (mv_data d) 0 (mv_size d);
              mp \<leftarrow> put_bytes mp dst b;
              Some (mp, None) }
        | Some ofp \<Rightarrow> do {
            b \<leftarrow> get_bytes ofp 0 8;
            mp \<leftarrow> put_bytes mp dst b;
            ofp \<leftarrow> (if F_ISSET flags MDB_RESERVE then Some ofp
                    else do {
                      b \<leftarrow> get_bytes (mv_data d) 0 (mv_size d);
                      put_bytes ofp PAGEHDRSZ b });
            Some (mp, Some ofp) }) }
     else Some (mp, ofp) }"

text \<open>From the label \<open>update\<close> on.\<close>

definition node_add_update ::
  "page \<Rightarrow> nat \<Rightarrow> byte list option \<Rightarrow> mdb_val option \<Rightarrow> nat \<Rightarrow> nat \<Rightarrow> nat \<Rightarrow> page option \<Rightarrow>
   (page \<times> page option) option" where
  "node_add_update mp indx key data pgno flags node_size ofp = do {
     fl \<leftarrow> mp_flags mp;
     nkeys \<leftarrow> NUMKEYS mp;
     mp \<leftarrow> ptrs_up mp indx nkeys;
     upper \<leftarrow> mp_upper mp;
     lower \<leftarrow> mp_lower mp;
     let ofs = u16 (upper + 2 ^ 16 - node_size);
     if ofs < lower + 2 then None
     else do {
       mp \<leftarrow> wr16 mp (PAGEHDRSZ + 2 * indx) ofs;
       mp \<leftarrow> wr16 mp 14 ofs;
       mp \<leftarrow> wr16 mp 12 (lower + 2);
       node \<leftarrow> mp_ptr mp indx;
       node_write mp fl node key data pgno flags ofp } }"

definition node_add_leaf2 :: "page \<Rightarrow> nat \<Rightarrow> nat \<Rightarrow> byte list option \<Rightarrow> page option" where
  "node_add_leaf2 mp ksize indx key = do {
     nkeys \<leftarrow> NUMKEYS mp;
     let ptr = PAGEHDRSZ + indx * ksize;
     mp \<leftarrow> (if nkeys > indx then c_memmove mp (ptr + ksize) ptr ((nkeys - indx) * ksize) else Some mp);
     k \<leftarrow> key;
     b \<leftarrow> get_bytes k 0 ksize;
     mp \<leftarrow> put_bytes mp ptr b;
     lower \<leftarrow> mp_lower mp;
     mp \<leftarrow> wr16 mp 12 (lower + 2);
     upper \<leftarrow> mp_upper mp;
     wr16 mp 14 (upper + 2 + (2 ^ 16 - ksize mod 2 ^ 16)) }"

datatype node_room = Room nat | Overflow nat

definition mdb_node_add ::
  "('s \<Rightarrow> nat \<Rightarrow> ('s \<times> (rc + page)) option) \<Rightarrow> nat \<Rightarrow> nat \<Rightarrow> 's na_state \<Rightarrow> nat \<Rightarrow>
   byte list option \<Rightarrow> mdb_val option \<Rightarrow> nat \<Rightarrow> nat \<Rightarrow> (rc \<times> 's na_state \<times> page option) option" where
  "mdb_node_add page_alloc me_psize me_nodemax st indx key data pgno flags = do {
     let mp = na_page st;
     upper \<leftarrow> mp_upper mp;
     lower \<leftarrow> mp_lower mp;
     fl \<leftarrow> mp_flags mp;
     if upper < lower then None
     else if IS_LEAF2 fl then do {
       mp \<leftarrow> node_add_leaf2 mp (md_pad (na_db st)) indx key;
       Some (MDB_SUCCESS, st\<lparr>na_page := mp\<rparr>, None) }
     else do {
       left \<leftarrow> SIZELEFT mp;
       let room = int left - 2;
       let node_size = NODESIZE + (case key of None \<Rightarrow> 0 | Some k \<Rightarrow> length k);
       need \<leftarrow> (if IS_LEAF fl then do {
           d \<leftarrow> data;
           Some (if F_ISSET flags F_BIGDATA then Room (node_size + 8)
                 else if node_size + mv_size d > me_nodemax then Overflow (node_size + 8)
                 else Room (node_size + mv_size d)) }
         else Some (Room node_size));
       let full = (MDB_PAGE_FULL, st\<lparr>na_mt_flags := na_mt_flags st OR MDB_TXN_ERROR\<rparr>, None);
       (case need of
          Room sz \<Rightarrow>
            if int (EVEN sz) > room then Some full
            else do {
              (mp, ofp) \<leftarrow> node_add_update mp indx key data pgno flags (EVEN sz) None;
              Some (MDB_SUCCESS, st\<lparr>na_page := mp\<rparr>, ofp) }
        | Overflow sz \<Rightarrow>
            if int (EVEN sz) > room then Some full
            else do {
              d \<leftarrow> data;
              (st, r) \<leftarrow> mdb_page_new page_alloc me_psize st P_OVERFLOW (OVPAGES (mv_size d) me_psize);
              (case r of
                 Inl rc \<Rightarrow> Some (rc, st, None)
               | Inr ofp \<Rightarrow> do {
                   (mp, ofp) \<leftarrow> node_add_update mp indx key data pgno (flags OR F_BIGDATA) (EVEN sz) (Some ofp);
                   Some (MDB_SUCCESS, st\<lparr>na_page := mp\<rparr>, ofp) }) }) } }"

section \<open>Deleting a node\<close>

text \<open>The loop that closes the gap in \<open>mp_ptrs\<close> and adjusts the offsets below the deleted node.\<close>

function del_ptrs :: "page \<Rightarrow> nat \<Rightarrow> nat \<Rightarrow> nat \<Rightarrow> nat \<Rightarrow> nat \<Rightarrow> nat \<Rightarrow> page option" where
  "del_ptrs mp indx ptr sz numkeys i j =
     (if i < numkeys then
        if i \<noteq> indx then do {
          v \<leftarrow> mp_ptr mp i;
          mp \<leftarrow> wr16 mp (PAGEHDRSZ + 2 * j) v;
          v \<leftarrow> mp_ptr mp i;
          mp \<leftarrow> (if v < ptr then do {
                   w \<leftarrow> mp_ptr mp j;
                   wr16 mp (PAGEHDRSZ + 2 * j) (w + sz) }
                 else Some mp);
          del_ptrs mp indx ptr sz numkeys (i + 1) (j + 1) }
        else del_ptrs mp indx ptr sz numkeys (i + 1) j
      else Some mp)"
  by pat_completeness auto
termination
  by (relation "measure (\<lambda>(mp, indx, ptr, sz, numkeys, i, j). numkeys - i)") auto

declare del_ptrs.simps [simp del]

definition node_size_of :: "page \<Rightarrow> nat \<Rightarrow> nat \<Rightarrow> nat option" where
  "node_size_of mp fl node = do {
     ks \<leftarrow> mn_ksize mp node;
     sz \<leftarrow> (if IS_LEAF fl then do {
              nf \<leftarrow> mn_flags mp node;
              if F_ISSET nf F_BIGDATA then Some (NODESIZE + ks + 8)
              else do { ds \<leftarrow> NODEDSZ mp node; Some (NODESIZE + ks + ds) } }
            else Some (NODESIZE + ks));
     Some (EVEN (u32 sz)) }"

definition mdb_node_del :: "page \<Rightarrow> nat \<Rightarrow> nat \<Rightarrow> page option" where
  "mdb_node_del mp indx ksize = do {
     numkeys \<leftarrow> NUMKEYS mp;
     fl \<leftarrow> mp_flags mp;
     if \<not> indx < u16 numkeys then None
     else if IS_LEAF2 fl then do {
       let x = u16 numkeys - 1 - indx;
       let base = PAGEHDRSZ + indx * ksize;
       mp \<leftarrow> (if x \<noteq> 0 then c_memmove mp base (base + ksize) (x * ksize) else Some mp);
       lower \<leftarrow> mp_lower mp;
       mp \<leftarrow> wr16 mp 12 (lower + 2 ^ 16 - 2);
       upper \<leftarrow> mp_upper mp;
       wr16 mp 14 (upper + ksize + 2 ^ 16 - 2) }
     else do {
       node \<leftarrow> mp_ptr mp indx;
       sz \<leftarrow> node_size_of mp fl node;
       mp \<leftarrow> del_ptrs mp indx node sz (u16 numkeys) 0 0;
       upper \<leftarrow> mp_upper mp;
       if node < upper then None
       else do {
         mp \<leftarrow> c_memmove mp (upper + sz) upper (node - upper);
         lower \<leftarrow> mp_lower mp;
         mp \<leftarrow> wr16 mp 12 (lower + 2 ^ 16 - 2);
         upper \<leftarrow> mp_upper mp;
         wr16 mp 14 (upper + sz) } } }"

section \<open>Shrinking a node, copying a page\<close>

fun shrink_sub_ptrs :: "page \<Rightarrow> nat \<Rightarrow> nat \<Rightarrow> nat \<Rightarrow> page option" where
  "shrink_sub_ptrs mp sp delta 0 = Some mp"
| "shrink_sub_ptrs mp sp delta (Suc i) = do {
     v \<leftarrow> rd16 mp (sp + PAGEHDRSZ + 2 * i);
     mp \<leftarrow> wr16 mp (sp + delta + PAGEHDRSZ + 2 * i) (v + 2 ^ 16 - delta);
     shrink_sub_ptrs mp sp delta i }"

fun shrink_ptrs :: "page \<Rightarrow> nat \<Rightarrow> nat \<Rightarrow> nat \<Rightarrow> page option" where
  "shrink_ptrs mp ptr delta 0 = Some mp"
| "shrink_ptrs mp ptr delta (Suc n) = do {
     mp \<leftarrow> shrink_ptrs mp ptr delta n;
     v \<leftarrow> mp_ptr mp n;
     if v \<le> ptr then wr16 mp (PAGEHDRSZ + 2 * n) (v + delta) else Some mp }"

definition mdb_node_shrink :: "page \<Rightarrow> nat \<Rightarrow> page option" where
  "mdb_node_shrink mp indx = do {
     node \<leftarrow> mp_ptr mp indx;
     ks \<leftarrow> mn_ksize mp node;
     let sp = node + NODESIZE + ks;
     splower \<leftarrow> rd16 mp (sp + 12);
     spupper \<leftarrow> rd16 mp (sp + 14);
     let delta = u16 (spupper + 2 ^ 16 - splower);
     let xp = sp + delta;
     spfl \<leftarrow> rd16 mp (sp + 10);
     let numkeys = u32 (splower + 2 ^ 32 - PAGEHDRSZ) div 2;
     sppad \<leftarrow> rd16 mp (sp + 8);
     if IS_LEAF2 spfl \<and> odd (numkeys * sppad) then Some mp
     else do {
       mp \<leftarrow> (if IS_LEAF2 spfl then c_memmove mp (xp + PAGEHDRSZ) (sp + PAGEHDRSZ) (numkeys * sppad)
              else shrink_sub_ptrs mp sp delta (u16 numkeys));
       v \<leftarrow> rd16 mp (sp + 12);
       mp \<leftarrow> wr16 mp (xp + 14) v;
       v \<leftarrow> rd16 mp (sp + 12);
       mp \<leftarrow> wr16 mp (xp + 12) v;
       v \<leftarrow> rd16 mp (sp + 10);
       mp \<leftarrow> wr16 mp (xp + 10) v;
       v \<leftarrow> rd16 mp (sp + 8);
       mp \<leftarrow> wr16 mp (xp + 8) v;
       pg \<leftarrow> get_bytes mp 0 8;
       mp \<leftarrow> put_bytes mp xp pg;
       ds \<leftarrow> NODEDSZ mp node;
       mp \<leftarrow> SETDSZ mp node (ds + 2 ^ 32 - delta);
       ptr \<leftarrow> mp_ptr mp indx;
       n \<leftarrow> NUMKEYS mp;
       mp \<leftarrow> shrink_ptrs mp ptr delta (u16 n);
       upper \<leftarrow> mp_upper mp;
       ks \<leftarrow> mn_ksize mp node;
       if ptr + NODESIZE + ks < upper then None
       else do {
         mp \<leftarrow> c_memmove mp (upper + delta) upper (ptr + NODESIZE + ks - upper);
         upper \<leftarrow> mp_upper mp;
         wr16 mp 14 (upper + delta) } } }"

definition mdb_page_copy :: "page \<Rightarrow> page \<Rightarrow> nat \<Rightarrow> page option" where
  "mdb_page_copy dst src psize = do {
     upper \<leftarrow> mp_upper src;
     lower \<leftarrow> mp_lower src;
     fl \<leftarrow> mp_flags src;
     let unused = u16 (upper + 2 ^ 16 - lower) div 8 * 8;
     if unused \<noteq> 0 \<and> \<not> IS_LEAF2 fl then do {
       let upper = upper div 8 * 8;
       b \<leftarrow> get_bytes src 0 ((lower + 7) div 8 * 8);
       dst \<leftarrow> put_bytes dst 0 b;
       b \<leftarrow> get_bytes src upper (psize - upper);
       put_bytes dst upper b }
     else do {
       b \<leftarrow> get_bytes src 0 (psize - unused);
       put_bytes dst 0 b } }"

end
