(* ===== verification/Page_View.thy ===== *)
theory Page_View
  imports Page
begin

text \<open>
  What a page means: the invariant of the slotted layout and the list of nodes it holds.  The checked
  accessors of the page are related to total ones, so that the proofs about the operations can
  speak of offsets and slices only.
\<close>

section \<open>Total accessors\<close>

declare add_2_eq_Suc [simp del] add_2_eq_Suc' [simp del]

abbreviation w16 :: "page \<Rightarrow> nat \<Rightarrow> nat" where
  "w16 p ofs \<equiv> le_nat (slice p ofs 2)"

definition pg_flags :: "page \<Rightarrow> nat" where "pg_flags p = w16 p 10"
definition pg_lower :: "page \<Rightarrow> nat" where "pg_lower p = w16 p 12"
definition pg_upper :: "page \<Rightarrow> nat" where "pg_upper p = w16 p 14"
definition pg_n :: "page \<Rightarrow> nat" where "pg_n p = (pg_lower p - 16) div 2"
definition pg_ptr :: "page \<Rightarrow> nat \<Rightarrow> nat" where "pg_ptr p i = w16 p (16 + 2 * i)"

definition ptrs :: "page \<Rightarrow> nat list" where
  "ptrs p = map (pg_ptr p) [0..<pg_n p]"

text \<open>The bytes a node takes, from its header, on a page with flags \<open>fl\<close>.\<close>

definition nd_ksize :: "byte list \<Rightarrow> nat" where "nd_ksize raw = w16 raw 6"
definition nd_flags :: "byte list \<Rightarrow> nat" where "nd_flags raw = w16 raw 4"
definition nd_dsize :: "byte list \<Rightarrow> nat" where "nd_dsize raw = w16 raw 0 + w16 raw 2 * 65536"
definition nd_pgno :: "byte list \<Rightarrow> nat" where "nd_pgno raw = nd_dsize raw + nd_flags raw * 2 ^ 32"
definition nd_key :: "byte list \<Rightarrow> byte list" where "nd_key raw = slice raw 8 (nd_ksize raw)"

definition nd_dlen :: "nat \<Rightarrow> byte list \<Rightarrow> nat" where
  "nd_dlen fl raw =
     (if IS_LEAF fl then if F_ISSET (nd_flags raw) F_BIGDATA then 8 else nd_dsize raw else 0)"

definition nd_len :: "nat \<Rightarrow> byte list \<Rightarrow> nat" where
  "nd_len fl raw = EVEN (8 + nd_ksize raw + nd_dlen fl raw)"

text \<open>The bytes stored after the key: the data, or the number of its overflow page.\<close>

definition nd_payload :: "nat \<Rightarrow> byte list \<Rightarrow> byte list" where
  "nd_payload fl raw = slice raw (8 + nd_ksize raw) (nd_dlen fl raw)"

definition node_at :: "page \<Rightarrow> nat \<Rightarrow> byte list" where
  "node_at p ofs = slice p ofs (nd_len (pg_flags p) (drop ofs p))"

definition page_nodes :: "page \<Rightarrow> byte list list" where
  "page_nodes p = map (node_at p) (ptrs p)"

section \<open>The invariant\<close>

definition node_ok :: "page \<Rightarrow> nat \<Rightarrow> bool" where
  "node_ok p ofs \<longleftrightarrow> pg_upper p \<le> ofs \<and> ofs + nd_len (pg_flags p) (drop ofs p) \<le> length p"

definition apart :: "page \<Rightarrow> nat \<Rightarrow> nat \<Rightarrow> bool" where
  "apart p a b \<longleftrightarrow> a + nd_len (pg_flags p) (drop a p) \<le> b \<or> b + nd_len (pg_flags p) (drop b p) \<le> a"

definition page_inv :: "page \<Rightarrow> bool" where
  "page_inv p \<longleftrightarrow>
     length p \<le> 0x8000 \<and> \<not> IS_LEAF2 (pg_flags p) \<and>
     16 \<le> pg_lower p \<and> even (pg_lower p) \<and> pg_lower p \<le> pg_upper p \<and> pg_upper p \<le> length p \<and>
     (\<forall>ofs \<in> set (ptrs p). node_ok p ofs) \<and> sorted_wrt (apart p) (ptrs p) \<and>
     sum_list (map (\<lambda>ofs. nd_len (pg_flags p) (drop ofs p)) (ptrs p)) = length p - pg_upper p"

section \<open>Checked and total accessors\<close>

lemma EVEN_bounds: "n \<le> EVEN n" "EVEN n \<le> n + 1" "even (EVEN n)"
  by (auto simp: EVEN_def)

lemma nd_len_ge: "8 \<le> nd_len fl raw" "even (nd_len fl raw)"
  using EVEN_bounds by (auto simp: nd_len_def intro: order_trans [of _ "8 + nd_ksize raw + nd_dlen fl raw"])

lemma w16_bound: "ofs + 2 \<le> length p \<Longrightarrow> w16 p ofs < 65536"
  using le_nat_slice_bound [of ofs 2 p] by simp

lemma slice_drop: "slice (drop a p) b n = slice p (a + b) n"
  by (simp add: slice_def add.commute)

lemma page_inv_len: "page_inv p \<Longrightarrow> 16 \<le> length p"
  by (auto simp: page_inv_def)

lemma page_inv_lower: "page_inv p \<Longrightarrow> pg_lower p = 16 + 2 * pg_n p"
  by (auto simp: page_inv_def pg_n_def)

lemma length_ptrs [simp]: "length (ptrs p) = pg_n p"
  by (simp add: ptrs_def)

lemma nth_ptrs [simp]: "i < pg_n p \<Longrightarrow> ptrs p ! i = pg_ptr p i"
  by (simp add: ptrs_def)

lemma length_page_nodes [simp]: "length (page_nodes p) = pg_n p"
  by (simp add: page_nodes_def)

lemma page_inv_node: "page_inv p \<Longrightarrow> i < pg_n p \<Longrightarrow> node_ok p (pg_ptr p i)"
  unfolding page_inv_def by (metis length_ptrs nth_mem nth_ptrs)

lemma page_inv_room:
  assumes "page_inv p" "i \<le> pg_n p" "pg_n p > 0"
  shows "16 + 2 * i + 2 \<le> length p"
proof -
  have "node_ok p (pg_ptr p 0)" using page_inv_node assms by blast
  then have "pg_lower p + 8 \<le> length p"
    using assms nd_len_ge [of "pg_flags p" "drop (pg_ptr p 0) p"] by (auto simp: node_ok_def page_inv_def)
  then show ?thesis using page_inv_lower [OF assms(1)] assms by simp
qed

lemma mp_flags_eq: "16 \<le> length p \<Longrightarrow> mp_flags p = Some (pg_flags p)"
  and mp_lower_eq: "16 \<le> length p \<Longrightarrow> mp_lower p = Some (pg_lower p)"
  and mp_upper_eq: "16 \<le> length p \<Longrightarrow> mp_upper p = Some (pg_upper p)"
  by (simp_all add: mp_flags_def mp_lower_def mp_upper_def pg_flags_def pg_lower_def pg_upper_def byte_simps)

lemma mp_ptr_eq: "16 + 2 * i + 2 \<le> length p \<Longrightarrow> mp_ptr p i = Some (pg_ptr p i)"
  by (simp add: mp_ptr_def pg_ptr_def byte_simps PAGEHDRSZ_def)

lemma pg_bounds:
  assumes "16 \<le> length p" shows "pg_lower p < 65536" "pg_upper p < 65536" "pg_flags p < 65536"
  using assms w16_bound by (auto simp: pg_lower_def pg_upper_def pg_flags_def)

lemma NUMKEYS_eq: "16 \<le> length p \<Longrightarrow> 16 \<le> pg_lower p \<Longrightarrow> NUMKEYS p = Some (pg_n p)"
  using pg_bounds [of p] u32_sub [of 16 "pg_lower p"] by (simp add: NUMKEYS_def mp_lower_eq pg_n_def PAGEHDRSZ_def)

lemma SIZELEFT_eq: "16 \<le> length p \<Longrightarrow> pg_lower p \<le> pg_upper p \<Longrightarrow> SIZELEFT p = Some (pg_upper p - pg_lower p)"
  using pg_bounds [of p] by (simp add: SIZELEFT_def mp_lower_eq mp_upper_eq)

lemmas page_access = mp_flags_eq mp_lower_eq mp_upper_eq mp_ptr_eq NUMKEYS_eq SIZELEFT_eq

lemma page_inv_bounds: "page_inv p \<Longrightarrow> 16 \<le> pg_lower p" "page_inv p \<Longrightarrow> pg_lower p \<le> pg_upper p"
  "page_inv p \<Longrightarrow> pg_upper p \<le> length p" "page_inv p \<Longrightarrow> length p \<le> 32768"
  by (auto simp: page_inv_def)

lemma node_header_eq:
  assumes "ofs + 8 \<le> length p"
  shows "mn_ksize p ofs = Some (nd_ksize (drop ofs p))" "mn_flags p ofs = Some (nd_flags (drop ofs p))"
    and "NODEDSZ p ofs = Some (nd_dsize (drop ofs p))" "NODEPGNO p ofs = Some (nd_pgno (drop ofs p))"
  using assms by (simp_all add: mn_ksize_def mn_flags_def NODEDSZ_def NODEPGNO_def mn_lo_def mn_hi_def byte_simps
      nd_ksize_def nd_flags_def nd_dsize_def nd_pgno_def slice_drop)

lemma nd_len_fields:
  "8 + nd_ksize raw + nd_dlen fl raw \<le> nd_len fl raw"
  using EVEN_bounds by (simp add: nd_len_def)

text \<open>A node read through the page is the node read from its own bytes.\<close>

lemma nd_fields_take:
  assumes "8 \<le> n" "8 \<le> length raw"
  shows "nd_ksize (take n raw) = nd_ksize raw" "nd_flags (take n raw) = nd_flags raw"
    "nd_dsize (take n raw) = nd_dsize raw" "nd_pgno (take n raw) = nd_pgno raw"
    "nd_dlen fl (take n raw) = nd_dlen fl raw" "nd_len fl (take n raw) = nd_len fl raw"
proof -
  have s: "slice (take n raw) a 2 = slice raw a 2" if "a + 2 \<le> 8" for a
    using assms that by (simp add: slice_def drop_take min_def)
  show 1: "nd_ksize (take n raw) = nd_ksize raw" "nd_flags (take n raw) = nd_flags raw"
    "nd_dsize (take n raw) = nd_dsize raw"
    by (simp_all add: nd_ksize_def nd_flags_def nd_dsize_def s)
  then show "nd_pgno (take n raw) = nd_pgno raw" "nd_dlen fl (take n raw) = nd_dlen fl raw"
    by (simp_all add: nd_pgno_def nd_dlen_def)
  then show "nd_len fl (take n raw) = nd_len fl raw" using 1 by (simp add: nd_len_def)
qed

lemma node_ok_room: "node_ok p ofs \<Longrightarrow> ofs + 8 \<le> length p"
  using nd_len_ge [of "pg_flags p" "drop ofs p"] by (simp add: node_ok_def)

lemma node_at_fields:
  assumes "node_ok p ofs"
  shows "nd_ksize (node_at p ofs) = nd_ksize (drop ofs p)" "nd_flags (node_at p ofs) = nd_flags (drop ofs p)"
    "nd_dsize (node_at p ofs) = nd_dsize (drop ofs p)" "nd_pgno (node_at p ofs) = nd_pgno (drop ofs p)"
    "nd_len fl (node_at p ofs) = nd_len fl (drop ofs p)"
    "length (node_at p ofs) = nd_len (pg_flags p) (drop ofs p)"
proof -
  have "8 \<le> length (drop ofs p)" using node_ok_room [OF assms] by simp
  from nd_fields_take [OF nd_len_ge(1) [of "pg_flags p" "drop ofs p"] this] assms
  show "nd_ksize (node_at p ofs) = nd_ksize (drop ofs p)" "nd_flags (node_at p ofs) = nd_flags (drop ofs p)"
    "nd_dsize (node_at p ofs) = nd_dsize (drop ofs p)" "nd_pgno (node_at p ofs) = nd_pgno (drop ofs p)"
    "nd_len fl (node_at p ofs) = nd_len fl (drop ofs p)"
    "length (node_at p ofs) = nd_len (pg_flags p) (drop ofs p)"
    by (auto simp: node_at_def slice_def node_ok_def)
qed

lemma NODEKEY_eq:
  assumes "node_ok p ofs"
  shows "NODEKEY p ofs = Some (nd_key (node_at p ofs))"
proof -
  have len: "ofs + 8 + nd_ksize (drop ofs p) \<le> ofs + nd_len (pg_flags p) (drop ofs p)"
    using nd_len_fields [of "drop ofs p" "pg_flags p"] by simp
  then have "ofs + 8 + nd_ksize (drop ofs p) \<le> length p" using assms by (simp add: node_ok_def)
  moreover have "nd_key (node_at p ofs) = slice p (ofs + 8) (nd_ksize (drop ofs p))"
    using assms len unfolding nd_key_def node_at_fields(1) [OF assms] unfolding node_at_def
    by (subst slice_slice) (auto simp: node_ok_def)
  ultimately show ?thesis
    using node_header_eq [OF node_ok_room [OF assms]] by (simp add: NODEKEY_def NODESIZE_def byte_simps)
qed

section \<open>A sample page\<close>

text \<open>A leaf page with the two records A = x and B = y, for the witnesses.\<close>

definition sample_leaf :: page where
  "sample_leaf = [5,0,0,0,0,0,0,0, 0,0, 2,0, 20,0, 24,0, 34,0, 24,0, 0,0,0,0,
     1,0, 0,0, 0,0, 1,0, 66, 121,
     1,0, 0,0, 0,0, 1,0, 65, 120]"

lemma sample_header:
  "length sample_leaf = 44" "pg_flags sample_leaf = 2" "pg_lower sample_leaf = 20" "pg_upper sample_leaf = 24" "pg_n sample_leaf = 2"
  "ptrs sample_leaf = [34, 24]"
  by (simp_all add: sample_leaf_def pg_flags_def pg_lower_def pg_upper_def pg_n_def ptrs_def pg_ptr_def slice_def upt_rec)

lemma leaf_flag: "IS_LEAF 2" "\<not> IS_BRANCH 2" "\<not> IS_LEAF2 2" "IS_BRANCH 1" "\<not> IS_LEAF 1" "\<not> IS_LEAF2 1"
  by (simp_all add: IS_LEAF_def IS_BRANCH_def IS_LEAF2_def F_ISSET_def P_LEAF_def P_BRANCH_def P_LEAF2_def)

lemma sample_node_len: "nd_len 2 (drop 34 sample_leaf) = 10" "nd_len 2 (drop 24 sample_leaf) = 10"
  by (simp_all add: sample_leaf_def nd_len_def nd_ksize_def nd_dlen_def leaf_flag nd_flags_def nd_dsize_def F_ISSET_def F_BIGDATA_def EVEN_def slice_def)

lemma sample_inv: "page_inv sample_leaf"
  by (simp add: page_inv_def sample_header leaf_flag node_ok_def apart_def sample_node_len)

lemma sample_keys: "map nd_key (page_nodes sample_leaf) = [[65],[66]]"
  by (simp add: page_nodes_def sample_header node_at_def sample_node_len nd_key_def nd_ksize_def)
    (simp add: sample_leaf_def slice_def)

text \<open>An empty leaf page of the same size.\<close>

definition sample_empty :: page where
  "sample_empty = [5,0,0,0,0,0,0,0, 0,0, 2,0, 16,0, 44,0] @ replicate 28 0"

lemma sample_empty_header:
  "length sample_empty = 44" "pg_flags sample_empty = 2" "pg_lower sample_empty = 16" "pg_upper sample_empty = 44"
  "pg_n sample_empty = 0" "ptrs sample_empty = []" "page_nodes sample_empty = []"
  by (simp_all add: sample_empty_def pg_flags_def pg_lower_def pg_upper_def pg_n_def ptrs_def page_nodes_def slice_def)

lemma sample_empty_inv: "page_inv sample_empty"
  by (simp add: page_inv_def sample_empty_header leaf_flag)

definition sample_empty_branch :: page where
  "sample_empty_branch = [5,0,0,0,0,0,0,0, 0,0, 1,0, 16,0, 26,0] @ replicate 10 0"

lemma sample_empty_branch_header:
  "length sample_empty_branch = 26" "pg_flags sample_empty_branch = 1" "pg_lower sample_empty_branch = 16"
  "pg_upper sample_empty_branch = 26" "pg_n sample_empty_branch = 0" "ptrs sample_empty_branch = []"
  "page_nodes sample_empty_branch = []"
  by (simp_all add: sample_empty_branch_def pg_flags_def pg_lower_def pg_upper_def pg_n_def ptrs_def page_nodes_def slice_def)

lemma sample_empty_branch_inv: "page_inv sample_empty_branch"
  by (simp add: page_inv_def sample_empty_branch_header leaf_flag [unfolded One_nat_def])

end
