(* ===== verification/Page_Search.thy ===== *)
theory Page_Search
  imports Page_View
begin

text \<open>
  Correctness of \<open>mdb_node_search\<close>: on a page whose keys are in the order of the database's
  comparison, the index it stores is the number of keys smaller than the one sought (on a branch page the
  first key, which is never compared, counts as smaller), and \<open>exact\<close> says whether the key is there.
\<close>

section \<open>The search loop\<close>

context key_order
begin

definition kless :: "byte list \<Rightarrow> byte list \<Rightarrow> bool" where
  "kless a b \<longleftrightarrow> the (cmp a b) < 0"

lemma kless_irrefl: "valid a \<Longrightarrow> \<not> kless a a"
  using cmp_eq [of a a] by (simp add: kless_def)

lemma kless_trans: "valid a \<Longrightarrow> valid b \<Longrightarrow> valid c \<Longrightarrow> kless a b \<Longrightarrow> kless b c \<Longrightarrow> kless a c"
  using cmp_trans unfolding kless_def by blast

lemma kless_total: "valid a \<Longrightarrow> valid b \<Longrightarrow> a = b \<or> kless a b \<or> kless b a"
proof -
  assume v: "valid a" "valid b"
  then obtain r where r: "cmp a b = Some r" using cmp_defined by blast
  then have "r = 0 \<longleftrightarrow> a = b" "r < 0 \<longleftrightarrow> kless a b" "r > 0 \<longleftrightarrow> kless b a"
    using v cmp_eq [of a b] cmp_swap [of b a] by (auto simp: kless_def)
  then show ?thesis by linarith
qed

lemma kless_asym: "valid a \<Longrightarrow> valid b \<Longrightarrow> kless a b \<Longrightarrow> \<not> kless b a"
  using kless_trans kless_irrefl by blast

lemma cmp_cases:
  assumes "valid key" "valid k"
  obtains (eq) "cmp key k = Some 0" "k = key"
  | (greater) r where "cmp key k = Some r" "r > 0" "kless k key"
  | (less) r where "cmp key k = Some r" "r < 0" "kless key k"
proof -
  obtain r where r: "cmp key k = Some r" using assms cmp_defined by blast
  then have "r = 0 \<longleftrightarrow> key = k" "r < 0 \<longleftrightarrow> kless key k" "r > 0 \<longleftrightarrow> kless k key"
    using assms cmp_eq [of key k] cmp_swap [of k key] by (auto simp: kless_def)
  with r that show ?thesis by (metis linorder_cases)
qed

text \<open>The keys from index \<open>lo\<close> on are in ascending order.\<close>

definition ordered_keys :: "nat \<Rightarrow> byte list list \<Rightarrow> bool" where
  "ordered_keys lo ks \<longleftrightarrow> (\<forall>k \<in> set (drop lo ks). valid k) \<and> sorted_wrt kless (drop lo ks)"

lemma ordered_keys_valid: "ordered_keys lo ks \<Longrightarrow> lo \<le> i \<Longrightarrow> i < length ks \<Longrightarrow> valid (ks ! i)"
  unfolding ordered_keys_def ball_drop_nth by blast

lemma ordered_keys_less:
  assumes "ordered_keys lo ks" "lo \<le> i" "i < j" "j < length ks"
  shows "kless (ks ! i) (ks ! j)"
proof -
  have "kless (drop lo ks ! (i - lo)) (drop lo ks ! (j - lo))"
    using assms sorted_wrt_nth_less [of kless "drop lo ks" "i - lo" "j - lo"]
    by (simp add: ordered_keys_def)
  then show ?thesis using assms by simp
qed

text \<open>The place of a key: the keys below it are smaller, the others are not.\<close>

definition key_place :: "nat \<Rightarrow> byte list list \<Rightarrow> byte list \<Rightarrow> nat \<Rightarrow> bool" where
  "key_place lo ks key i \<longleftrightarrow> lo \<le> i \<and> i \<le> length ks \<and>
     (\<forall>j. lo \<le> j \<and> j < i \<longrightarrow> kless (ks ! j) key) \<and> (\<forall>j. i \<le> j \<and> j < length ks \<longrightarrow> \<not> kless (ks ! j) key)"

lemma key_place_unique: "key_place lo ks key i \<Longrightarrow> key_place lo ks key j \<Longrightarrow> i = j"
  unfolding key_place_def by (metis linorder_neqE_nat order_le_less_trans order_less_le_trans order_refl)

lemma key_place_exact:
  assumes "ordered_keys lo ks" "valid key" "key_place lo ks key i"
  shows "key \<in> set (drop lo ks) \<longleftrightarrow> i < length ks \<and> ks ! i = key"
proof
  assume "key \<in> set (drop lo ks)"
  then obtain j0 where "j0 < length ks - lo" "ks ! (lo + j0) = key"
    by (auto simp: in_set_conv_nth)
  then obtain j where j: "lo \<le> j" "j < length ks" "ks ! j = key"
    using that [of "lo + j0"] by auto
  have "\<not> j < i" using assms j kless_irrefl by (auto simp: key_place_def)
  moreover have "\<not> i < j"
    using assms j ordered_keys_less [OF assms(1), of i j] by (auto simp: key_place_def)
  ultimately show "i < length ks \<and> ks ! i = key" using j by (metis linorder_neqE_nat)
next
  assume "i < length ks \<and> ks ! i = key"
  moreover have "lo \<le> i" using assms(3) by (simp add: key_place_def)
  ultimately show "key \<in> set (drop lo ks)"
    unfolding in_set_conv_nth by (intro exI [of _ "i - lo"]) auto
qed

lemma key_place_hit:
  assumes "ordered_keys lo ks" "valid key" "lo \<le> i" "i < length ks" "ks ! i = key"
  shows "key_place lo ks key i"
  unfolding key_place_def
proof (intro conjI allI impI)
  fix j assume "lo \<le> j \<and> j < i"
  then show "kless (ks ! j) key" using ordered_keys_less [OF assms(1), of j i] assms(4,5) by auto
next
  fix j assume j: "i \<le> j \<and> j < length ks"
  show "\<not> kless (ks ! j) key"
  proof (cases "i = j")
    case False
    then have "kless key (ks ! j)" using ordered_keys_less [OF assms(1,3), of j] j assms(5) by auto
    then show ?thesis using kless_asym assms(2) ordered_keys_valid [OF assms(1), of j] j assms(3) by force
  qed (use assms kless_irrefl in auto)
qed (use assms in auto)

lemma node_search_loop_place:
  assumes ks: "ordered_keys lo ks" and key: "valid key"
    and keyat: "\<And>i. lo \<le> i \<Longrightarrow> i < length ks \<Longrightarrow> keyat i = Some (ks ! i)"
    and "lo \<le> low" "high < int (length ks)" "int low \<le> high + 1"
    and "\<forall>j. lo \<le> j \<and> j < low \<longrightarrow> kless (ks ! j) key"
    and "\<forall>j. high < int j \<and> j < length ks \<longrightarrow> kless key (ks ! j)"
    and "int low = high + 1 \<longrightarrow> rc \<noteq> 0 \<and> (if rc > 0 then i + 1 = low else i = low)"
  shows "\<exists>i' rc'. node_search_loop keyat cmp key low high i rc = Some (i', rc') \<and>
    key_place lo ks key (if rc' > 0 then i' + 1 else i') \<and>
    (rc' = 0 \<longleftrightarrow> key \<in> set (drop lo ks))"
  using assms(4-)
proof (induction "nat (high + 1 - int low)" arbitrary: low high i rc rule: less_induct)
  case less
  show ?case
  proof (cases "int low \<le> high")
    case False
    then have low: "int low = high + 1" using less.prems by linarith
    have "key_place lo ks key low"
      unfolding key_place_def
    proof (intro conjI allI impI)
      fix j assume j: "low \<le> j \<and> j < length ks"
      then have "kless key (ks ! j)" using less.prems(5) low by auto
      then show "\<not> kless (ks ! j) key"
        using kless_asym key ordered_keys_valid [OF ks, of j] j less.prems(1) by force
    qed (use less.prems low in auto)
    moreover have "key \<notin> set (drop lo ks)"
      using calculation key_place_exact [OF ks key] kless_irrefl [OF key] less.prems(5) low by auto
    ultimately show ?thesis
      using False less.prems(6) low by (subst node_search_loop.simps) auto
  next
    case True
    define m where "m = (low + nat high) div 2"
    have m: "low \<le> m" "int m \<le> high" "m < length ks" "lo \<le> m"
      using True less.prems by (auto simp: m_def)
    have km: "keyat m = Some (ks ! m)" "valid (ks ! m)"
      using keyat m ordered_keys_valid [OF ks] by auto
    have step: "node_search_loop keyat cmp key low high i rc = do {
        rc \<leftarrow> cmp key (ks ! m);
        if rc = 0 then Some (m, rc)
        else if rc > 0 then node_search_loop keyat cmp key (m + 1) high m rc
        else node_search_loop keyat cmp key low (int m - 1) m rc }"
      using True km(1) unfolding m_def by (subst node_search_loop.simps) (simp add: Let_def)
    from key km(2) show ?thesis
    proof (cases rule: cmp_cases)
      case eq
      then have "key_place lo ks key m" using key_place_hit [OF ks key m(4,3)] by simp
      then show ?thesis using step eq key_place_exact [OF ks key] m(3) by auto
    next
      case (greater r)
      have below: "kless (ks ! j) key" if "lo \<le> j" "j < m + 1" for j
        using that greater(3) ordered_keys_less [OF ks that(1), of m] m(3) km(2) key
          kless_trans [of "ks ! j" "ks ! m" key] ordered_keys_valid [OF ks that(1)]
        by (cases "j = m") auto
      have "\<exists>i' rc'. node_search_loop keyat cmp key (m + 1) high m r = Some (i', rc') \<and>
          key_place lo ks key (if rc' > 0 then i' + 1 else i') \<and> (rc' = 0 \<longleftrightarrow> key \<in> set (drop lo ks))"
        by (rule less.hyps) (use m less.prems greater below True in auto)
      then show ?thesis using step greater by simp
    next
      case (less r)
      have above: "kless key (ks ! j)" if "int m - 1 < int j" "j < length ks" for j
        using that less(3) ordered_keys_less [OF ks m(4), of j] km(2) key
          kless_trans [of key "ks ! m" "ks ! j"] ordered_keys_valid [OF ks, of j] m(4)
        by (cases "j = m") auto
      have "\<exists>i' rc'. node_search_loop keyat cmp key low (int m - 1) m r = Some (i', rc') \<and>
          key_place lo ks key (if rc' > 0 then i' + 1 else i') \<and> (rc' = 0 \<longleftrightarrow> key \<in> set (drop lo ks))"
        by (rule less.hyps) (use m less.prems less above True in auto)
      then show ?thesis using step less by simp
    qed
  qed
qed

end

section \<open>The search of a page\<close>

text \<open>On branch pages integer keys are compared by a faster function, which gives the same order.\<close>

definition branch_cmp :: "cmp_func \<Rightarrow> nat \<Rightarrow> nat \<Rightarrow> cmp_func" where
  "branch_cmp c fl ks = (case c of
       Cmp_cint \<Rightarrow> if IS_BRANCH fl then if ks = 8 then Cmp_long else Cmp_int else Cmp_cint
     | c \<Rightarrow> c)"

text \<open>
  What the search needs to know of the comparison: it is an order on the valid keys, and the integer
  comparison of unknown alignment is only used with keys of one of the two integer sizes.
\<close>

definition cmp_ok :: "cmp_func \<Rightarrow> (byte list \<Rightarrow> bool) \<Rightarrow> bool" where
  "cmp_ok c valid \<longleftrightarrow> key_order (run_cmp c) valid \<and>
     (c = Cmp_cint \<longrightarrow> (\<forall>k. valid k \<longrightarrow> length k = 8) \<or> (\<forall>k. valid k \<longrightarrow> length k = 4))"

lemma branch_cmp_sign:
  assumes "cmp_ok c valid" "valid k0" "valid a" "valid b"
  shows "\<exists>v w. run_cmp (branch_cmp c fl (length k0)) a b = Some v \<and> run_cmp c a b = Some w \<and> sgn v = sgn w"
proof (cases "c = Cmp_cint \<and> IS_BRANCH fl")
  case False
  then have "branch_cmp c fl (length k0) = c" by (cases c) (auto simp: branch_cmp_def)
  moreover have "run_cmp c a b \<noteq> None" using assms key_order.cmp_defined unfolding cmp_ok_def by blast
  ultimately show ?thesis by auto
next
  case True
  then consider "length k0 = 8" "length a = 8" "length b = 8" | "length k0 = 4" "length a = 4" "length b = 4"
    using assms by (auto simp: cmp_ok_def)
  then show ?thesis
  proof cases
    case 1
    then show ?thesis using mdb_cmp_cint_sgn [of a 8 b] mdb_cmp_long_eq [of a b] True by (auto simp: branch_cmp_def)
  next
    case 2
    then show ?thesis using mdb_cmp_cint_sgn [of a 4 b] mdb_cmp_int_eq [of a b] True by (auto simp: branch_cmp_def)
  qed
qed

lemma branch_cmp_order:
  assumes "cmp_ok c valid" "valid k0"
  shows "key_order (run_cmp (branch_cmp c fl (length k0))) valid"
proof -
  let ?d = "run_cmp (branch_cmp c fl (length k0))"
  have same: "?d a b \<noteq> None" "?d a b = Some 0 \<longleftrightarrow> run_cmp c a b = Some 0"
    "the (?d a b) < 0 \<longleftrightarrow> the (run_cmp c a b) < 0" "the (?d a b) > 0 \<longleftrightarrow> the (run_cmp c a b) > 0"
    if "valid a" "valid b" for a b
    using branch_cmp_sign [OF assms that, of fl] by (auto simp: sgn_if split: if_splits)
  note ord = assms(1) [unfolded cmp_ok_def, THEN conjunct1]
  show ?thesis
  proof
    fix a b c' assume v: "valid a" "valid b" "valid c'" "the (?d a b) < 0" "the (?d b c') < 0"
    then show "the (?d a c') < 0"
      using key_order.cmp_trans [OF ord v(1-3)] same(3) by simp
  next
    fix a b assume v: "valid a" "valid b"
    show "?d a b \<noteq> None" using same(1) [OF v] .
    show "?d a b = Some 0 \<longleftrightarrow> a = b" using same(2) [OF v] key_order.cmp_eq [OF ord v] by simp
    show "the (?d a b) < 0 \<longleftrightarrow> the (?d b a) > 0"
      using same(3) [OF v] same(4) [OF v(2,1)] key_order.cmp_swap [OF ord v] by simp
  qed
qed

lemma branch_cmp_less:
  assumes "cmp_ok c valid" "valid k0" "valid a" "valid b"
  shows "the (run_cmp (branch_cmp c fl (length k0)) a b) < 0 \<longleftrightarrow> the (run_cmp c a b) < 0"
  using branch_cmp_sign [OF assms, of fl] by (auto simp: sgn_if split: if_splits)

text \<open>The loop as \<open>mdb_node_search\<close> starts it, with the comparison it chose.\<close>

lemma search_loop_place:
  assumes c: "cmp_ok c valid" and k0: "valid k0" and key: "valid key" and lo: "lo < length ks"
    and valid: "\<forall>k \<in> set (drop lo ks). valid k"
    and sorted: "sorted_wrt (\<lambda>a b. the (run_cmp c a b) < 0) (drop lo ks)"
    and keyat: "\<And>i. lo \<le> i \<Longrightarrow> i < length ks \<Longrightarrow> keyat i = Some (ks ! i)"
  shows "\<exists>i rc. node_search_loop keyat (run_cmp (branch_cmp c fl (length k0))) key lo (int (length ks) - 1) 0 0 = Some (i, rc) \<and>
    (rc = 0 \<longleftrightarrow> key \<in> set (drop lo ks)) \<and>
    key_order.key_place (run_cmp c) lo ks key (if rc > 0 then i + 1 else i)"
proof -
  let ?d = "run_cmp (branch_cmp c fl (length k0))"
  note d = branch_cmp_order [OF c k0, of fl]
  note ord = c [unfolded cmp_ok_def, THEN conjunct1]
  note less = branch_cmp_less [OF c k0, of _ _ fl]
  have "sorted_wrt (key_order.kless ?d) (drop lo ks)"
    using sorted by (rule sorted_wrt_mono_rel [rotated]) (use valid less in \<open>auto simp: key_order.kless_def [OF d]\<close>)
  then have "key_order.ordered_keys ?d valid lo ks"
    using valid by (simp add: key_order.ordered_keys_def [OF d])
  from key_order.node_search_loop_place [OF d this key, of keyat lo "int (length ks) - 1" 0 0]
  have "\<exists>i rc. node_search_loop keyat ?d key lo (int (length ks) - 1) 0 0 = Some (i, rc) \<and>
    key_order.key_place ?d lo ks key (if rc > 0 then i + 1 else i) \<and> (rc = 0 \<longleftrightarrow> key \<in> set (drop lo ks))"
    using lo keyat by fastforce
  then obtain i rc where i: "node_search_loop keyat ?d key lo (int (length ks) - 1) 0 0 = Some (i, rc)"
    "rc = 0 \<longleftrightarrow> key \<in> set (drop lo ks)" "key_order.key_place ?d lo ks key (if rc > 0 then i + 1 else i)"
    by blast
  have "key_order.kless ?d (ks ! j) key \<longleftrightarrow> key_order.kless (run_cmp c) (ks ! j) key" if "lo \<le> j" "j < length ks" for j
    using less valid that key unfolding ball_drop_nth by (simp add: key_order.kless_def [OF d] key_order.kless_def [OF ord])
  then have "key_order.key_place (run_cmp c) lo ks key (if rc > 0 then i + 1 else i)"
    using i(3) unfolding key_order.key_place_def [OF d] key_order.key_place_def [OF ord] by auto
  with i show ?thesis by blast
qed

lemma node_search_place:
  assumes "page_inv p" "cmp_ok c valid" "valid key" "IS_BRANCH (pg_flags p) \<longleftrightarrow> \<not> IS_LEAF (pg_flags p)"
  defines "keys \<equiv> map nd_key (page_nodes p)" and "lo \<equiv> (if IS_LEAF (pg_flags p) then 0 else 1)"
  assumes "lo < length keys" "\<forall>k \<in> set (drop lo keys). valid k"
    and "sorted_wrt (\<lambda>a b. the (run_cmp c a b) < 0) (drop lo keys)"
  shows "\<exists>i. mdb_node_search c pad p key =
      Some (if i < length keys then Some (pg_ptr p i) else None, i, key \<in> set (drop lo keys)) \<and>
    lo \<le> i \<and> i \<le> length keys \<and>
    (\<forall>j. lo \<le> j \<and> j < i \<longrightarrow> the (run_cmp c (keys ! j) key) < 0) \<and>
    (\<forall>j. i \<le> j \<and> j < length keys \<longrightarrow> \<not> the (run_cmp c (keys ! j) key) < 0)"
proof -
  let ?fl = "pg_flags p"
  have len: "length keys = pg_n p" by (simp add: keys_def)
  have n: "lo < pg_n p" "16 \<le> length p" using assms page_inv_len by (auto simp: len)
  note acc = mp_flags_eq [OF n(2)] NUMKEYS_eq [OF n(2) page_inv_bounds(1) [OF assms(1)]]
  have nodes: "NODEKEY p (pg_ptr p i) = Some (keys ! i)" "mn_ksize p (pg_ptr p i) = Some (length (keys ! i))"
    if "i < pg_n p" for i
  proof -
    note ok = page_inv_node [OF assms(1) that]
    show "NODEKEY p (pg_ptr p i) = Some (keys ! i)"
      using that NODEKEY_eq [OF ok] by (simp add: keys_def page_nodes_def)
    then have "length (keys ! i) = nd_ksize (drop (pg_ptr p i) p)"
      using node_header_eq(1) [OF node_ok_room [OF ok]]
      by (auto simp: NODEKEY_def get_bytes_def split: if_splits) (metis length_slice)
    then show "mn_ksize p (pg_ptr p i) = Some (length (keys ! i))"
      using node_header_eq(1) [OF node_ok_room [OF ok]] by simp
  qed
  have ptr: "mp_ptr p i = Some (pg_ptr p i)" if "i \<le> pg_n p" for i
    using page_inv_room [OF assms(1) that] n by (intro mp_ptr_eq) auto
  note ord = assms(2) [unfolded cmp_ok_def, THEN conjunct1]
  let ?k0 = "keys ! lo"
  have k0: "valid ?k0" using assms(7,8) unfolding ball_drop_nth by auto
  have lo1: "IS_BRANCH ?fl \<Longrightarrow> lo = 1" using assms(4) by (simp add: lo_def)
  have cmp: "(case c of Cmp_cint \<Rightarrow> if IS_BRANCH ?fl then do {
         nd \<leftarrow> mp_ptr p 1; ks \<leftarrow> mn_ksize p nd; Some (if ks = 8 then Cmp_long else Cmp_int) }
       else Some Cmp_cint | c \<Rightarrow> Some c) = Some (branch_cmp c ?fl (length ?k0))"
    using ptr [of 1] nodes(2) [of 1] n lo1 by (cases c) (auto simp: branch_cmp_def)
  obtain i rc where i: "node_search_loop (\<lambda>i. do { nd \<leftarrow> mp_ptr p i; NODEKEY p nd })
      (run_cmp (branch_cmp c ?fl (length ?k0))) key lo (int (length keys) - 1) 0 0 = Some (i, rc)"
    "rc = 0 \<longleftrightarrow> key \<in> set (drop lo keys)" "key_order.key_place (run_cmp c) lo keys key (if rc > 0 then i + 1 else i)"
    using search_loop_place [OF assms(2) k0 assms(3,7,8,9),
        of "\<lambda>i. do { nd \<leftarrow> mp_ptr p i; NODEKEY p nd }" ?fl] ptr nodes len by auto
  define i' where "i' = (if rc > 0 then i + 1 else i)"
  have "i' \<le> pg_n p"
    using i(3) len unfolding i'_def key_order.key_place_def [OF ord] by simp
  then have "mdb_node_search c pad p key =
      Some (if i' < length keys then Some (pg_ptr p i') else None, i', key \<in> set (drop lo keys))"
    using assms(1) n i(1,2) cmp ptr acc unfolding len
    by (auto simp: mdb_node_search_def page_inv_def lo_def [symmetric] i'_def [symmetric] Let_def)
  then show ?thesis
    using i(3) unfolding i'_def key_order.key_place_def [OF ord] key_order.kless_def [OF ord] by auto
qed

lemma cmp_ok_memn: "cmp_ok Cmp_memn (\<lambda>k. length k < 2 ^ 32)"
  unfolding cmp_ok_def using memn.key_order_axioms by auto

text \<open>C33: on a page that satisfies the layout invariant and has its keys in the order of the comparison,
  \<open>mdb_node_search\<close> reads only bytes of the page and stores the index of the first key that is not smaller than the
  one sought (counting from the second key on branch pages); it returns that node, or \<open>NULL\<close> when there is none, and
  reports an exact match exactly when the key is on the page.\<close>

theorem mdb_node_search_correct:
  assumes "page_inv p" "cmp_ok c valid" "valid key" "IS_BRANCH (pg_flags p) \<longleftrightarrow> \<not> IS_LEAF (pg_flags p)"
  defines "keys \<equiv> map nd_key (page_nodes p)" and "lo \<equiv> (if IS_LEAF (pg_flags p) then 0 else 1)"
  assumes "lo < length keys" "\<forall>k \<in> set (drop lo keys). valid k"
    and "sorted_wrt (\<lambda>a b. the (run_cmp c a b) < 0) (drop lo keys)"
  shows "\<exists>i. mdb_node_search c pad p key =
      Some (if i < length keys then Some (pg_ptr p i) else None, i, key \<in> set (drop lo keys)) \<and>
    lo \<le> i \<and> i \<le> length keys \<and>
    (\<forall>j. lo \<le> j \<and> j < i \<longrightarrow> the (run_cmp c (keys ! j) key) < 0) \<and>
    (\<forall>j. i \<le> j \<and> j < length keys \<longrightarrow> \<not> the (run_cmp c (keys ! j) key) < 0)"
  unfolding keys_def lo_def
  by (rule node_search_place [OF assms(1-4), folded keys_def lo_def, OF assms(7-9), unfolded keys_def lo_def])

theorem mdb_node_search_correct_witness:
  "\<exists>nd i. mdb_node_search Cmp_memn 0 sample_leaf [66] = Some (nd, i, True) \<and> i \<le> 2"
proof -
  have "the (mdb_cmp_memn [65] [66]) < 0" by (simp add: mdb_cmp_memn_def)
  then show ?thesis
    using mdb_node_search_correct [OF sample_inv cmp_ok_memn, of "[66]" 0]
    by (auto simp: sample_keys sample_header leaf_flag)
qed

end
