(* ===== verification/Page_Nodes.thy ===== *)
theory Page_Nodes
  imports Page_View
begin

text \<open>
  Correctness of the operations that change a page: \<open>mdb_node_add\<close> inserts a node at an index and
  \<open>mdb_node_del\<close> removes one, both keep the layout invariant, and \<open>mdb_page_copy\<close> copies everything
  a page holds.
\<close>

section \<open>Pages that agree on their nodes\<close>

lemma nd_len_same:
  assumes "\<And>a. a + 2 \<le> 8 \<Longrightarrow> slice p' (ofs' + a) 2 = slice p (ofs + a) 2"
  shows "nd_len fl (drop ofs' p') = nd_len fl (drop ofs p)"
  using assms [of 0] assms [of 2] assms [of 4] assms [of 6]
  by (simp add: nd_len_def nd_dlen_def nd_ksize_def nd_flags_def nd_dsize_def slice_drop)

lemma node_same:
  assumes "pg_flags p' = pg_flags p" "length p' = length p" "ofs + nd_len (pg_flags p) (drop ofs p) \<le> length p"
    and "ofs' + nd_len (pg_flags p) (drop ofs p) \<le> length p"
    and same: "\<And>a k. a + k \<le> nd_len (pg_flags p) (drop ofs p) \<Longrightarrow> slice p' (ofs' + a) k = slice p (ofs + a) k"
  shows "nd_len (pg_flags p') (drop ofs' p') = nd_len (pg_flags p) (drop ofs p)" (is ?len)
    and "node_at p' ofs' = node_at p ofs"
proof -
  show ?len
    unfolding assms(1) by (rule nd_len_same)
      (use nd_len_ge(1) [of "pg_flags p" "drop ofs p"] in \<open>intro same, linarith\<close>)
  then show "node_at p' ofs' = node_at p ofs"
    using same [of 0 "nd_len (pg_flags p) (drop ofs p)"] by (simp add: node_at_def assms(1))
qed

lemma apart_sym: "apart p a b \<Longrightarrow> apart p b a"
  by (auto simp: apart_def)

lemma page_inv_apart:
  assumes "page_inv p" "i < pg_n p" "j < pg_n p" "i \<noteq> j"
  shows "apart p (pg_ptr p i) (pg_ptr p j)"
proof -
  have "apart p (ptrs p ! a) (ptrs p ! b)" if "a < b" "b < pg_n p" for a b
    using assms(1) that sorted_wrt_nth_less [of "apart p" "ptrs p" a b] by (simp add: page_inv_def)
  then show ?thesis using assms apart_sym by (metis linorder_neqE_nat nth_ptrs)
qed

section \<open>Inserting a node, abstractly\<close>

definition insert_at :: "nat \<Rightarrow> 'a \<Rightarrow> 'a list \<Rightarrow> 'a list" where
  "insert_at i x xs = take i xs @ x # drop i xs"

definition remove_at :: "nat \<Rightarrow> 'a list \<Rightarrow> 'a list" where
  "remove_at i xs = take i xs @ drop (Suc i) xs"

lemma map_insert_at: "map f (insert_at i x xs) = insert_at i (f x) (map f xs)"
  by (simp add: insert_at_def take_map drop_map)

lemma map_remove_at: "map f (remove_at i xs) = remove_at i (map f xs)"
  by (simp add: remove_at_def take_map drop_map)

lemma sorted_insert_at:
  assumes "sorted_wrt P xs" "\<And>y. y \<in> set xs \<Longrightarrow> P x y \<and> P y x"
  shows "sorted_wrt P (insert_at i x xs)"
  using assms sorted_wrt_append [of P "take i xs" "drop i xs"]
  by (auto simp: insert_at_def sorted_wrt_append dest: in_set_takeD in_set_dropD)

lemma sum_list_insert_at: "sum_list (insert_at i x xs) = x + sum_list (xs :: nat list)"
proof -
  have "sum_list xs = sum_list (take i xs @ drop i xs)" by simp
  also have "\<dots> = sum_list (take i xs) + sum_list (drop i xs)" by (rule sum_list_append)
  finally show ?thesis by (simp add: insert_at_def)
qed

lemma set_insert_at: "set (insert_at i x xs) = insert x (set xs)"
  by (metis Un_insert_right append_take_drop_id insert_at_def list.simps(15) set_append)

lemma nth_insert_at:
  "i \<le> length xs \<Longrightarrow> j \<le> length xs \<Longrightarrow>
     insert_at i x xs ! j = (if j < i then xs ! j else if j = i then x else xs ! (j - 1))"
  by (auto simp: insert_at_def nth_append nth_Cons' min_def)

lemma nth_remove_at:
  "i < length xs \<Longrightarrow> j < length xs - 1 \<Longrightarrow> remove_at i xs ! j = (if j < i then xs ! j else xs ! Suc j)"
  by (auto simp: remove_at_def nth_append min_def)

lemma length_insert_at [simp]: "i \<le> length xs \<Longrightarrow> length (insert_at i x xs) = Suc (length xs)"
  by (simp add: insert_at_def)

lemma length_remove_at [simp]: "i < length xs \<Longrightarrow> length (remove_at i xs) = length xs - 1"
  by (simp add: remove_at_def)

text \<open>
  What the page looks like after a node of \<open>sz\<close> bytes has been put below \<open>mp_upper\<close> and its offset
  into slot \<open>indx\<close>.
\<close>

definition node_inserted :: "page \<Rightarrow> nat \<Rightarrow> nat \<Rightarrow> page \<Rightarrow> bool" where
  "node_inserted p indx sz p' \<longleftrightarrow>
     length p' = length p \<and> pg_flags p' = pg_flags p \<and> pg_lower p' = pg_lower p + 2 \<and>
     pg_upper p' + sz = pg_upper p \<and> pg_lower p + 2 \<le> pg_upper p' \<and>
     ptrs p' = insert_at indx (pg_upper p') (ptrs p) \<and>
     nd_len (pg_flags p) (drop (pg_upper p') p') = sz \<and>
     (\<forall>a k. pg_upper p \<le> a \<longrightarrow> a + k \<le> length p \<longrightarrow> slice p' a k = slice p a k)"

lemma node_inserted_inv:
  assumes inv: "page_inv p" and ins: "node_inserted p indx sz p'"
  shows "page_inv p'" "page_nodes p' = insert_at indx (node_at p' (pg_upper p')) (page_nodes p)"
proof -
  let ?u = "pg_upper p'" and ?len = "\<lambda>p a. nd_len (pg_flags p) (drop a p)"
  have fl: "pg_flags p' = pg_flags p" and len: "length p' = length p"
    and up: "?u + sz = pg_upper p" "pg_lower p + 2 \<le> ?u" and new: "?len p' ?u = sz"
    and pt: "ptrs p' = insert_at indx ?u (ptrs p)"
    and old: "\<And>a k. pg_upper p \<le> a \<Longrightarrow> a + k \<le> length p \<Longrightarrow> slice p' a k = slice p a k"
    using ins by (auto simp: node_inserted_def)
  have keep: "?len p' a = ?len p a" "node_at p' a = node_at p a" if "node_ok p a" for a
    using that old node_same [OF fl len, of a a] by (auto simp: node_ok_def)
  have ok: "\<forall>a \<in> set (ptrs p). node_ok p a" using inv by (simp add: page_inv_def)
  have ok': "node_ok p' a" if "a \<in> set (ptrs p)" for a
    using ok that keep(1) up len by (fastforce simp: node_ok_def)
  have new_ok: "node_ok p' ?u" using inv up len new by (simp add: node_ok_def page_inv_def)
  have below: "?u + sz \<le> a" if "a \<in> set (ptrs p)" for a using ok that up by (auto simp: node_ok_def)
  show "page_nodes p' = insert_at indx (node_at p' ?u) (page_nodes p)"
    using keep(2) ok by (simp add: page_nodes_def pt map_insert_at cong: map_cong)
  have "sorted_wrt (apart p') (ptrs p)"
    using inv keep(1) ok by (auto simp: page_inv_def apart_def elim!: sorted_wrt_mono_rel [rotated])
  then have "sorted_wrt (apart p') (ptrs p')"
    unfolding pt using below new by (intro sorted_insert_at) (auto simp: apart_def)
  moreover have "sum_list (map (?len p') (ptrs p)) = sum_list (map (?len p) (ptrs p))"
    using keep(1) ok by (simp cong: map_cong)
  then have "sum_list (map (?len p') (ptrs p)) = length p - pg_upper p"
    using inv by (simp add: page_inv_def)
  then have "sum_list (map (?len p') (ptrs p')) = length p' - ?u"
    using page_inv_bounds(3) [OF inv] up len by (simp add: pt map_insert_at sum_list_insert_at new)
  ultimately show "page_inv p'"
    using inv ins ok' new_ok by (auto simp: page_inv_def node_inserted_def set_insert_at)
qed

section \<open>Removing a node, abstractly\<close>

definition node_removed :: "page \<Rightarrow> nat \<Rightarrow> page \<Rightarrow> bool" where
  "node_removed p indx p' \<longleftrightarrow>
     (let ptr = pg_ptr p indx; sz = nd_len (pg_flags p) (drop ptr p) in
      length p' = length p \<and> pg_flags p' = pg_flags p \<and> pg_lower p' + 2 = pg_lower p \<and>
      pg_upper p' = pg_upper p + sz \<and>
      ptrs p' = map (\<lambda>a. if a < ptr then a + sz else a) (remove_at indx (ptrs p)) \<and>
      (\<forall>a k. pg_upper p \<le> a \<longrightarrow> a + k \<le> ptr \<longrightarrow> slice p' (a + sz) k = slice p a k) \<and>
      (\<forall>a k. ptr + sz \<le> a \<longrightarrow> a + k \<le> length p \<longrightarrow> slice p' a k = slice p a k))"

lemma sum_list_remove_at: "i < length xs \<Longrightarrow> sum_list (remove_at i xs) + xs ! i = sum_list (xs :: nat list)"
  by (subst (2) id_take_nth_drop [of i xs]) (auto simp: remove_at_def)

lemma set_remove_at:
  assumes "i < length xs" "x \<in> set (remove_at i xs)"
  shows "\<exists>j < length xs. j \<noteq> i \<and> x = xs ! j"
proof -
  obtain j where j: "j < length xs - 1" "x = remove_at i xs ! j"
    using assms by (metis in_set_conv_nth length_remove_at)
  then have "x = xs ! (if j < i then j else Suc j)" using assms(1) by (simp add: nth_remove_at)
  moreover have "(if j < i then j else Suc j) < length xs \<and> (if j < i then j else Suc j) \<noteq> i"
    using j assms(1) by auto
  ultimately show ?thesis by blast
qed

lemma sorted_remove_at: "sorted_wrt P xs \<Longrightarrow> sorted_wrt P (remove_at i xs)"
proof (cases "i < length xs")
  case True
  assume "sorted_wrt P xs"
  then have "sorted_wrt P (take i xs @ xs ! i # drop (Suc i) xs)" using True by (simp add: id_take_nth_drop [symmetric])
  then show ?thesis by (simp add: remove_at_def sorted_wrt_append)
qed (simp add: remove_at_def)

lemma node_removed_inv:
  assumes inv: "page_inv p" and i: "indx < pg_n p" and rem: "node_removed p indx p'"
  shows "page_inv p'" "page_nodes p' = remove_at indx (page_nodes p)"
proof -
  let ?len = "\<lambda>p a. nd_len (pg_flags p) (drop a p)"
  define ptr where "ptr = pg_ptr p indx"
  define sz where "sz = ?len p ptr"
  define adj where "adj = (\<lambda>a. if a < ptr then a + sz else a)"
  have fl: "pg_flags p' = pg_flags p" and len: "length p' = length p"
    and up: "pg_upper p' = pg_upper p + sz" and pt: "ptrs p' = map adj (remove_at indx (ptrs p))"
    and lo: "\<And>a k. pg_upper p \<le> a \<Longrightarrow> a + k \<le> ptr \<Longrightarrow> slice p' (a + sz) k = slice p a k"
    and hi: "\<And>a k. ptr + sz \<le> a \<Longrightarrow> a + k \<le> length p \<Longrightarrow> slice p' a k = slice p a k"
    using rem by (auto simp: node_removed_def Let_def ptr_def sz_def adj_def)
  have sz8: "8 \<le> sz" by (simp add: sz_def nd_len_ge)
  have mem: "\<exists>j < pg_n p. j \<noteq> indx \<and> a = pg_ptr p j" if "a \<in> set (remove_at indx (ptrs p))" for a
    using set_remove_at [OF _ that] i by auto
  have place: "node_ok p a" "a < ptr \<and> a + ?len p a \<le> ptr \<or> ptr + sz \<le> a"
    if "a \<in> set (remove_at indx (ptrs p))" for a
  proof -
    obtain j where j: "j < pg_n p" "j \<noteq> indx" "a = pg_ptr p j" using mem [OF \<open>a \<in> _\<close>] by blast
    then show "node_ok p a" using page_inv_node [OF inv] by simp
    show "a < ptr \<and> a + ?len p a \<le> ptr \<or> ptr + sz \<le> a"
      using page_inv_apart [OF inv j(1) i j(2)] nd_len_ge(1) [of "pg_flags p" "drop a p"]
      by (auto simp: apart_def ptr_def [symmetric] j(3) sz_def)
  qed
  have ptr_ok: "pg_upper p \<le> ptr" "ptr + sz \<le> length p"
    using page_inv_node [OF inv i] by (auto simp: node_ok_def ptr_def sz_def)
  have keep: "?len p' (adj a) = ?len p a \<and> node_at p' (adj a) = node_at p a \<and> node_ok p' (adj a)"
    if a: "a \<in> set (remove_at indx (ptrs p))" for a
  proof -
    have s: "slice p' (adj a + b) k = slice p (a + b) k" if "b + k \<le> ?len p a" for b k
      using place [OF a] that lo [of "a + b" k] hi [of "a + b" k]
      by (auto simp: adj_def node_ok_def add.commute add.left_commute)
    have fit: "a + ?len p a \<le> length p" "adj a + ?len p a \<le> length p" "pg_upper p' \<le> adj a"
      using place [OF a] ptr_ok sz8 by (auto simp: node_ok_def adj_def up)
    from node_same [OF fl len fit(1,2) s] fit show ?thesis by (simp add: node_ok_def len)
  qed
  show "page_nodes p' = remove_at indx (page_nodes p)"
    using keep by (simp add: page_nodes_def pt map_remove_at [symmetric])
  have ap: "apart p' (adj a) (adj b)" if ab: "a \<in> set (remove_at indx (ptrs p))" "b \<in> set (remove_at indx (ptrs p))" "apart p a b" for a b
    using place(2) [OF ab(1)] place(2) [OF ab(2)] ab(3) keep [OF ab(1)] keep [OF ab(2)]
    unfolding apart_def by (auto simp: adj_def)
  have "sorted_wrt (apart p) (remove_at indx (ptrs p))"
    using inv by (auto simp: page_inv_def intro: sorted_remove_at)
  then have srt: "sorted_wrt (apart p') (ptrs p')"
    unfolding pt sorted_wrt_map by (rule sorted_wrt_mono_rel [rotated]) (use ap in auto)
  have "sum_list (map (?len p') (ptrs p')) = sum_list (map (?len p) (remove_at indx (ptrs p)))"
    using keep by (simp add: pt o_def cong: map_cong)
  also have "\<dots> + sz = length p - pg_upper p"
    using inv i sum_list_remove_at [of indx "map (?len p) (ptrs p)"]
    by (simp add: map_remove_at page_inv_def sz_def ptr_def)
  finally have "sum_list (map (?len p') (ptrs p')) = length p' - pg_upper p'"
    by (simp add: up len)
  moreover have "\<forall>a \<in> set (ptrs p'). node_ok p' a" using keep by (simp add: pt)
  moreover have "16 \<le> pg_lower p'" "even (pg_lower p')" "pg_lower p' \<le> pg_upper p'"
    using rem inv i up page_inv_lower [OF inv] by (auto simp: node_removed_def Let_def page_inv_def)
  ultimately show "page_inv p'"
    using srt inv ptr_ok fl len up by (simp add: page_inv_def)
qed

section \<open>The slot array\<close>

lemma ptrs_up_Some:
  assumes "indx \<le> i" "16 + 2 * i + 2 \<le> length p"
  shows "ptrs_up p indx i = Some (splice p (18 + 2 * indx) (slice p (16 + 2 * indx) (2 * (i - indx))))"
  using assms
proof (induction i arbitrary: p)
  case (Suc i)
  show ?case
  proof (cases "indx = Suc i")
    case False
    let ?p = "splice p (18 + 2 * i) (slice p (16 + 2 * i) 2)"
    have "le_bytes 2 (pg_ptr p i) = slice p (16 + 2 * i) 2"
      using Suc.prems le_bytes_le_nat [of "slice p (16 + 2 * i) 2"] by (simp add: pg_ptr_def)
    then have "ptrs_up p indx (Suc i) = ptrs_up ?p indx i"
      using Suc.prems False by (simp add: mp_ptr_eq byte_simps PAGEHDRSZ_def)
    also have "\<dots> = Some (splice ?p (18 + 2 * indx) (slice ?p (16 + 2 * indx) (2 * (i - indx))))"
      using Suc.prems False by (intro Suc.IH) auto
    also have "slice ?p (16 + 2 * indx) (2 * (i - indx)) = slice p (16 + 2 * indx) (2 * (i - indx))"
      using Suc.prems False by (intro slice_splice_other) auto
    also have "splice ?p (18 + 2 * indx) \<dots> =
        splice p (18 + 2 * indx) (slice p (16 + 2 * indx) (2 * (i - indx)) @ slice p (16 + 2 * i) 2)"
      using Suc.prems False by (intro splice_below) auto
    also have "slice p (16 + 2 * indx) (2 * (i - indx)) @ slice p (16 + 2 * i) 2 = slice p (16 + 2 * indx) (2 * (Suc i - indx))"
    proof -
      have "2 * (Suc i - indx) = 2 * (i - indx) + 2" "16 + 2 * indx + 2 * (i - indx) = 16 + 2 * i"
        using Suc.prems False by auto
      then show ?thesis using slice_append [of p "16 + 2 * indx" "2 * (i - indx)" 2] by metis
    qed
    finally show ?thesis .
  qed simp
qed simp

text \<open>The page after the slot array and the header have been updated, before the node is written.\<close>

definition slot_page :: "page \<Rightarrow> nat \<Rightarrow> nat \<Rightarrow> page" where
  "slot_page p indx ofs =
     (let p = splice p (18 + 2 * indx) (slice p (16 + 2 * indx) (2 * (pg_n p - indx)));
          p = splice p (16 + 2 * indx) (le_bytes 2 ofs);
          p = splice p 14 (le_bytes 2 ofs)
      in splice p 12 (le_bytes 2 (pg_lower p + 2)))"

lemma slot_page_laws:
  assumes "page_inv p" "indx \<le> pg_n p" "pg_lower p + 2 \<le> ofs" "ofs \<le> length p"
  defines "q \<equiv> slot_page p indx ofs"
  shows "length q = length p" "pg_flags q = pg_flags p" "pg_lower q = pg_lower p + 2" "pg_upper q = ofs"
    "ptrs q = insert_at indx ofs (ptrs p)"
    "pg_lower p + 2 \<le> a \<Longrightarrow> a + k \<le> length p \<Longrightarrow> slice q a k = slice p a k"
proof -
  define n where "n = pg_n p"
  define mv where "mv = slice p (16 + 2 * indx) (2 * (n - indx))"
  have low: "pg_lower p = 16 + 2 * n" using page_inv_lower [OF assms(1)] by (simp add: n_def)
  have len: "18 + 2 * n \<le> length p" "length p \<le> 32768" "indx \<le> n"
    using assms(2-4) low page_inv_bounds [OF assms(1)] by (auto simp: n_def)
  have mvl: "length mv = 2 * (n - indx)" using len by (simp add: mv_def)
  let ?p1 = "splice p (18 + 2 * indx) mv"
  let ?p2 = "splice ?p1 (16 + 2 * indx) (le_bytes 2 ofs)"
  let ?p3 = "splice ?p2 14 (le_bytes 2 ofs)"
  have lower3: "pg_lower ?p3 = pg_lower p"
    unfolding pg_lower_def using len mvl by (simp add: slice_splice_other)
  have q: "q = splice ?p3 12 (le_bytes 2 (pg_lower p + 2))"
    using lower3 by (simp add: q_def slot_page_def Let_def mv_def n_def [symmetric])
  show len_q: "length q = length p" using len mvl by (simp add: q)
  show "pg_flags q = pg_flags p"
    unfolding pg_flags_def q using len mvl by (simp add: slice_splice_other)
  show lower_q: "pg_lower q = pg_lower p + 2"
    unfolding q pg_lower_def [of "splice _ _ _"] using len mvl low by simp
  show upper_q: "pg_upper q = ofs"
    unfolding q pg_upper_def using len mvl low assms(4) by (simp add: slice_splice_other)
  show "slice q a k = slice p a k" if "pg_lower p + 2 \<le> a" "a + k \<le> length p"
  proof -
    have "slice ?p1 a k = slice p a k" using len mvl low that by (intro slice_splice_other) auto
    then show ?thesis unfolding q using len mvl low that by (simp add: slice_splice_other)
  qed
  have slot: "pg_ptr q j = insert_at indx ofs (ptrs p) ! j" if j: "j \<le> n" for j
  proof -
    have "pg_ptr q j = pg_ptr ?p2 j"
      unfolding pg_ptr_def q using len mvl j by (simp add: slice_splice_other)
    also have "\<dots> = (if j < indx then pg_ptr p j else if j = indx then ofs else pg_ptr p (j - 1))"
    proof -
      consider "j < indx" | "j = indx" | "j > indx" by linarith
      then show ?thesis
      proof cases
        case 1
        then show ?thesis unfolding pg_ptr_def using len mvl by (simp add: slice_splice_other)
      next
        case 2
        then show ?thesis unfolding pg_ptr_def using len mvl assms(4) by simp
      next
        case 3
        then have "slice ?p2 (16 + 2 * j) 2 = slice ?p1 (16 + 2 * j) 2"
          using len mvl j by (intro slice_splice_other) auto
        also have "\<dots> = slice mv (2 * (j - 1 - indx)) 2"
          using 3 len mvl j by (subst slice_splice_inside) (auto simp: diff_mult_distrib2)
        also have "\<dots> = slice p (16 + 2 * (j - 1)) 2"
          unfolding mv_def using 3 len j by (subst slice_slice) (auto simp: diff_mult_distrib2)
        finally show ?thesis using 3 by (simp add: pg_ptr_def)
      qed
    qed
    also have "\<dots> = insert_at indx ofs (ptrs p) ! j"
      using j len by (auto simp: nth_insert_at n_def)
    finally show ?thesis .
  qed
  have "pg_n q = Suc n" using lower_q low by (simp add: pg_n_def)
  then show "ptrs q = insert_at indx ofs (ptrs p)"
    using slot len by (intro nth_equalityI) (auto simp: n_def)
qed

section \<open>The node's bytes\<close>

text \<open>The bytes after the key that \<open>mdb_node_add\<close> writes: nothing for \<open>MDB_RESERVE\<close>.\<close>

definition new_payload :: "mdb_val \<Rightarrow> nat \<Rightarrow> page option \<Rightarrow> byte list" where
  "new_payload d flags ofp = (case ofp of
       Some q \<Rightarrow> slice q 0 8
     | None \<Rightarrow> if F_ISSET flags F_BIGDATA then slice (mv_data d) 0 8
               else if F_ISSET flags MDB_RESERVE then [] else slice (mv_data d) 0 (mv_size d))"

definition leaf_bytes :: "byte list \<Rightarrow> mdb_val \<Rightarrow> nat \<Rightarrow> page option \<Rightarrow> byte list" where
  "leaf_bytes k d flags ofp =
     le_bytes 4 (mv_size d) @ le_bytes 2 flags @ le_bytes 2 (length k) @ k @ new_payload d flags ofp"

definition branch_bytes :: "byte list \<Rightarrow> nat \<Rightarrow> byte list" where
  "branch_bytes k pgno = le_bytes 6 pgno @ le_bytes 2 (length k) @ k"

lemma le_bytes_2_2: "le_bytes 2 n @ le_bytes 2 (n div 65536) = le_bytes 4 n"
  using le_bytes_add [of 2 2 n] by simp

lemma le_bytes_4_2: "le_bytes 4 n @ le_bytes 2 (n div 4294967296) = le_bytes 6 n"
  using le_bytes_add [of 4 2 n] by simp

lemma header_splices:
  assumes "node + 8 \<le> length p"
  shows "splice (splice (splice (splice p (node + 6) (le_bytes 2 ks)) (node + 4) (le_bytes 2 fl)) node (le_bytes 2 lo))
      (node + 2) (le_bytes 2 hi) = splice p node (le_bytes 2 lo @ le_bytes 2 hi @ le_bytes 2 fl @ le_bytes 2 ks)"
  (is "?lhs = _")
proof -
  have "?lhs = splice (splice p (node + 4) (le_bytes 2 fl @ le_bytes 2 ks)) node (le_bytes 2 lo @ le_bytes 2 hi)"
    using assms by (simp add: splice_below splice_above)
  then show ?thesis using assms by (simp add: splice_below)
qed

lemma node_write_leaf:
  assumes "IS_LEAF fl" "node + 8 + length k + length (new_payload d flags ofp) \<le> length p"
    and "ofp = None \<Longrightarrow> F_ISSET flags F_BIGDATA \<Longrightarrow> 8 \<le> length (mv_data d)"
    and "F_ISSET flags F_BIGDATA \<and> ofp = None \<or> mv_size d \<le> length (mv_data d)"
    and "ofp = None \<or> (\<exists>q. ofp = Some q \<and> 16 + mv_size d \<le> length q)"
  shows "node_write p fl node (Some k) (Some d) pgno flags ofp =
    Some (splice p node (leaf_bytes k d flags ofp),
      map_option (\<lambda>q. if F_ISSET flags MDB_RESERVE then q else splice q 16 (slice (mv_data d) 0 (mv_size d))) ofp)"
proof -
  let ?pl = "new_payload d flags ofp"
  let ?h = "le_bytes 4 (mv_size d) @ le_bytes 2 flags @ le_bytes 2 (length k)"
  have h: "splice (splice (splice (splice p (node + 6) (le_bytes 2 (length k))) (node + 4) (le_bytes 2 flags)) node
      (le_bytes 2 (mv_size d))) (node + 2) (le_bytes 2 (mv_size d div 65536)) = splice p node ?h"
    using assms(2) header_splices [of node p] by (simp add: le_bytes_2_2 [symmetric])
  have k: "splice (splice p node ?h) (node + 8) k = splice p node (?h @ k)"
    using assms(2) by (intro splice_above) auto
  have pl: "splice (splice p node (?h @ k)) (node + 8 + length k) ?pl = splice p node (?h @ k @ ?pl)"
    using assms(2) splice_above [of node "?h @ k" ?pl p "node + 8 + length k"] by simp
  have "put_bytes (splice p node (?h @ k)) (node + 8 + length k) ?pl = Some (splice p node (?h @ k @ ?pl))"
    using assms(2) pl by (simp add: byte_simps)
  then show ?thesis
    using assms h k
    by (cases ofp) (auto simp: node_write_def SETDSZ_def byte_simps NODESIZE_def PAGEHDRSZ_def leaf_bytes_def new_payload_def)
qed

lemma node_write_branch:
  assumes "\<not> IS_LEAF fl" and key: "(case key of None \<Rightarrow> [] | Some k \<Rightarrow> k) = k" and len: "node + 8 + length k \<le> length p"
  shows "node_write p fl node key data pgno flags None = Some (splice p node (branch_bytes k pgno), None)"
proof -
  have ks: "(case key of None \<Rightarrow> 0 | Some k \<Rightarrow> length k) = length k" using key by (cases key) auto
  have put: "(case key of None \<Rightarrow> Some q | Some k \<Rightarrow> put_bytes q (node + NODESIZE) k) = put_bytes q (node + 8) k"
    if "node + 8 \<le> length q" for q
    using that key by (cases key) (auto simp: byte_simps NODESIZE_def)
  have h: "splice (splice (splice (splice p (node + 6) (le_bytes 2 (length k))) (node + 4) (le_bytes 2 flags)) node
      (le_bytes 2 pgno)) (node + 2) (le_bytes 2 (pgno div 65536)) =
      splice p node (le_bytes 4 pgno @ le_bytes 2 flags @ le_bytes 2 (length k))"
    using len header_splices [of node p] by (simp add: le_bytes_2_2 [symmetric])
  have pg: "splice (splice p node (le_bytes 4 pgno @ le_bytes 2 flags @ le_bytes 2 (length k))) (node + 4)
      (le_bytes 2 (pgno div 4294967296)) = splice p node (le_bytes 6 pgno @ le_bytes 2 (length k))"
    unfolding le_bytes_4_2 [symmetric] append_assoc by (rule splice_within) (use len in simp_all)
  have "splice (splice p node (le_bytes 6 pgno @ le_bytes 2 (length k))) (node + 8) k = splice p node (branch_bytes k pgno)"
    unfolding branch_bytes_def append_assoc [symmetric] by (rule splice_above) (use len in simp_all)
  then show ?thesis
    unfolding node_write_def ks using assms(1) len h pg by (simp add: SETPGNO_def byte_simps put)
qed

lemma slice_le_bytes_head: "slice (le_bytes n v @ rest) 0 n = le_bytes n v"
  by (simp add: slice_def)

lemma slice_skip: "n = length a \<Longrightarrow> ofs \<ge> n \<Longrightarrow> slice (a @ rest) ofs k = slice rest (ofs - n) k"
  by (simp add: slice_def)

lemma nd_dsize_slice: "4 \<le> length raw \<Longrightarrow> nd_dsize raw = le_nat (slice raw 0 4)"
  using le_nat_slice_add [of 0 2 2 raw] by (simp add: nd_dsize_def del: add_2_eq_Suc add_2_eq_Suc')

lemma nd_pgno_slice: "6 \<le> length raw \<Longrightarrow> nd_pgno raw = le_nat (slice raw 0 6)"
  using le_nat_slice_add [of 0 4 2 raw] by (simp add: nd_pgno_def nd_dsize_slice nd_flags_def)

lemma leaf_bytes_fields:
  assumes "length k < 65536" "mv_size d < 2 ^ 32"
  shows "nd_ksize (leaf_bytes k d flags ofp) = length k" "nd_flags (leaf_bytes k d flags ofp) = u16 flags"
    "nd_dsize (leaf_bytes k d flags ofp) = mv_size d"
    "nd_key (leaf_bytes k d flags ofp) = k"
proof -
  show ks: "nd_ksize (leaf_bytes k d flags ofp) = length k"
    using assms by (simp add: nd_ksize_def leaf_bytes_def slice_skip slice_le_bytes_head)
  show "nd_flags (leaf_bytes k d flags ofp) = u16 flags"
    by (simp add: nd_flags_def leaf_bytes_def slice_skip slice_le_bytes_head u16_def)
  show "nd_dsize (leaf_bytes k d flags ofp) = mv_size d"
    using assms by (simp add: nd_dsize_slice leaf_bytes_def slice_le_bytes_head)
  show "nd_key (leaf_bytes k d flags ofp) = k"
    unfolding nd_key_def ks by (simp add: leaf_bytes_def slice_skip) (simp add: slice_def)
qed

lemma branch_bytes_fields:
  assumes "length k < 65536" "pgno < 2 ^ 48"
  shows "nd_ksize (branch_bytes k pgno) = length k" "nd_pgno (branch_bytes k pgno) = pgno" "nd_key (branch_bytes k pgno) = k"
proof -
  show ks: "nd_ksize (branch_bytes k pgno) = length k"
    using assms by (simp add: nd_ksize_def branch_bytes_def slice_skip slice_le_bytes_head)
  show "nd_pgno (branch_bytes k pgno) = pgno"
    using assms by (simp add: nd_pgno_slice branch_bytes_def slice_le_bytes_head)
  show "nd_key (branch_bytes k pgno) = k"
    unfolding nd_key_def ks by (simp add: branch_bytes_def slice_skip) (simp add: slice_def)
qed

section \<open>Adding a node\<close>

lemma node_add_update_inserts:
  assumes inv: "page_inv p" and indx: "indx \<le> pg_n p" and room: "pg_lower p + 2 + sz \<le> pg_upper p"
    and raw: "8 \<le> length raw" "length raw \<le> sz" "nd_len (pg_flags p) raw = sz"
  defines "ofs \<equiv> pg_upper p - sz"
  defines "p' \<equiv> splice (slot_page p indx ofs) ofs raw"
  assumes wr: "node_write (slot_page p indx ofs) (pg_flags p) ofs key data pgno flags ofp = Some (p', ofp')"
  shows "node_add_update p indx key data pgno flags sz ofp = Some (p', ofp')"
    and "node_inserted p indx sz p'" "take (length raw) (node_at p' (pg_upper p')) = raw"
proof -
  let ?q = "slot_page p indx ofs"
  have b: "pg_upper p \<le> length p" "length p \<le> 32768" "16 \<le> pg_lower p" "16 \<le> length p" "pg_lower p = 16 + 2 * pg_n p"
    using page_inv_bounds [OF inv] page_inv_len [OF inv] page_inv_lower [OF inv] by auto
  have ofs: "pg_lower p + 2 \<le> ofs" "ofs \<le> length p" "ofs + sz = pg_upper p" using room b by (auto simp: ofs_def)
  note sl = slot_page_laws [OF inv indx ofs(1,2)]
  define p1 where "p1 = splice p (18 + 2 * indx) (slice p (16 + 2 * indx) (2 * (pg_n p - indx)))"
  have l1: "length p1 = length p" using b room indx by (simp add: ofs_def p1_def)
  have hdr: "pg_upper p1 = pg_upper p" "pg_lower p1 = pg_lower p"
    unfolding pg_upper_def pg_lower_def p1_def using b room indx by (simp_all add: slice_splice_other)
  have q: "?q = splice (splice (splice p1 (16 + 2 * indx) (le_bytes 2 ofs)) 14 (le_bytes 2 ofs)) 12 (le_bytes 2 (pg_lower p + 2))"
  proof -
    have "pg_lower (splice (splice p1 (16 + 2 * indx) (le_bytes 2 ofs)) 14 (le_bytes 2 ofs)) = pg_lower p"
      using b room indx hdr(2) unfolding pg_lower_def by (simp add: slice_splice_other l1)
    then show ?thesis by (simp add: slot_page_def Let_def p1_def)
  qed
  have node: "mp_ptr ?q indx = Some ofs"
  proof -
    have "pg_n ?q = Suc (pg_n p)" using sl(3) b(3) by (simp add: pg_n_def)
    then have "pg_ptr ?q indx = ofs"
      using indx sl(5) nth_ptrs [of indx ?q] nth_insert_at [of indx "ptrs p" indx ofs] by simp
    then show ?thesis using b room indx sl(1) by (simp add: mp_ptr_eq)
  qed
  have up: "ptrs_up p indx (pg_n p) = Some p1" unfolding p1_def using b room indx by (intro ptrs_up_Some) auto
  have u: "u16 (pg_upper p + 65536 - sz) = ofs" using b room by (simp add: ofs_def)
  show "node_add_update p indx key data pgno flags sz ofp = Some (p', ofp')"
  proof -
    have w: "wr16 p1 (16 + 2 * indx) ofs = Some (splice p1 (16 + 2 * indx) (le_bytes 2 ofs))"
      "wr16 (splice p1 (16 + 2 * indx) (le_bytes 2 ofs)) 14 ofs =
         Some (splice (splice p1 (16 + 2 * indx) (le_bytes 2 ofs)) 14 (le_bytes 2 ofs))"
      "wr16 (splice (splice p1 (16 + 2 * indx) (le_bytes 2 ofs)) 14 (le_bytes 2 ofs)) 12 (pg_lower p + 2) = Some ?q"
      unfolding q using b l1 room indx by (simp_all add: byte_simps)
    have h: "mp_upper p1 = Some (pg_upper p)" "mp_lower p1 = Some (pg_lower p)"
      using b l1 hdr by (simp_all add: mp_upper_eq mp_lower_eq)
    show ?thesis
      using b(3,4) up u ofs(1) node wr
      by (simp add: node_add_update_def mp_flags_eq NUMKEYS_eq h w PAGEHDRSZ_def)
  qed
  have lp: "length p' = length p" using sl(1) raw ofs b by (simp add: p'_def)
  have in_p': "take (length raw) (drop ofs p') = raw"
    using sl(1) raw ofs b by (simp add: p'_def splice_def)
  then have len: "nd_len fl (drop ofs p') = nd_len fl raw" for fl
    using nd_fields_take(6) [of "length raw" "drop ofs p'" fl] raw lp ofs b by simp
  have hdr': "slice p' a 2 = slice ?q a 2" if "a + 2 \<le> ofs" for a
    unfolding p'_def using that sl(1) raw ofs b by (intro slice_splice_other) auto
  have head: "pg_flags p' = pg_flags p" "pg_lower p' = pg_lower p + 2" "pg_upper p' = ofs" "ptrs p' = ptrs ?q"
    using hdr' sl(2-4) ofs b by (auto simp: pg_flags_def pg_lower_def pg_upper_def ptrs_def pg_n_def pg_ptr_def)
  have "slice p' a k = slice p a k" if "pg_upper p \<le> a" "a + k \<le> length p" for a k
  proof -
    have "slice p' a k = slice ?q a k" unfolding p'_def using that sl(1) raw ofs b by (intro slice_splice_other) auto
    then show ?thesis using sl(6) that ofs by simp
  qed
  then show "node_inserted p indx sz p'"
    using head lp ofs sl(5) len raw(3) by (simp add: node_inserted_def)
  show "take (length raw) (node_at p' (pg_upper p')) = raw"
    using in_p' raw len head by (simp add: node_at_def slice_def min_def)
qed

lemma F_ISSET_BIGDATA [simp]: "F_ISSET f F_BIGDATA \<longleftrightarrow> odd f"
  by (simp add: F_ISSET_def F_BIGDATA_def and_one_eq odd_iff_mod_2_eq_one)

lemma odd_u16 [simp]: "odd (u16 f) \<longleftrightarrow> odd f"
  by (simp add: u16_def odd_iff_mod_2_eq_one mod_mod_cancel)

text \<open>A node whose first bytes are those written has the fields written.\<close>

lemma fields_of_prefix:
  assumes "take (length lb) raw = lb" "8 \<le> length lb" "8 + nd_ksize lb + m \<le> length lb"
  shows "nd_ksize raw = nd_ksize lb" "nd_flags raw = nd_flags lb" "nd_dsize raw = nd_dsize lb" "nd_pgno raw = nd_pgno lb"
    "nd_len fl raw = nd_len fl lb" "nd_dlen fl raw = nd_dlen fl lb" "nd_key raw = nd_key lb"
    "take m (nd_payload fl raw) = take m (nd_payload fl lb)"
proof -
  have "8 \<le> length raw" using assms(1,2) by (metis length_take min.boundedE)
  note f = nd_fields_take [OF assms(2) this, unfolded assms(1)]
  have s: "slice raw a b = slice lb a b" if "a + b \<le> length lb" for a b
  proof -
    have "slice lb a b = slice (take (length lb) raw) a b" using assms(1) by simp
    then show ?thesis using that by (simp add: slice_def drop_take min_def)
  qed
  show "nd_ksize raw = nd_ksize lb" "nd_flags raw = nd_flags lb" "nd_dsize raw = nd_dsize lb" "nd_pgno raw = nd_pgno lb"
    "nd_len fl raw = nd_len fl lb" "nd_dlen fl raw = nd_dlen fl lb" using f by auto
  show "nd_key raw = nd_key lb" using s [of 8 "nd_ksize lb"] assms(3) f(1) by (simp add: nd_key_def)
  have "take m (nd_payload fl raw) = slice raw (8 + nd_ksize lb) (min m (nd_dlen fl lb))"
    using f by (simp add: nd_payload_def slice_def min.commute)
  also have "\<dots> = slice lb (8 + nd_ksize lb) (min m (nd_dlen fl lb))" using assms(3) by (intro s) auto
  finally show "take m (nd_payload fl raw) = take m (nd_payload fl lb)"
    by (simp add: nd_payload_def slice_def min.commute)
qed

definition leaf_need :: "byte list \<Rightarrow> mdb_val \<Rightarrow> nat \<Rightarrow> nat" where
  "leaf_need k d flags = EVEN (8 + length k + (if odd flags then 8 else mv_size d))"

lemma leaf_node_inserted:
  assumes inv: "page_inv p" and leaf: "IS_LEAF (pg_flags p)" and indx: "indx \<le> pg_n p"
    and bnd: "length k < 65536" "mv_size d < 2 ^ 32"
    and room: "pg_lower p + 2 + leaf_need k d flags \<le> pg_upper p"
    and big: "ofp = None \<Longrightarrow> odd flags \<Longrightarrow> 8 \<le> length (mv_data d)"
    and src: "odd flags \<and> ofp = None \<or> mv_size d \<le> length (mv_data d)"
    and ofp: "ofp = None \<or> (\<exists>q. ofp = Some q \<and> 16 + mv_size d \<le> length q \<and> odd flags)"
  shows "\<exists>p' raw. node_add_update p indx (Some k) (Some d) pgno flags (leaf_need k d flags) ofp =
      Some (p', map_option (\<lambda>q. if F_ISSET flags MDB_RESERVE then q else splice q 16 (slice (mv_data d) 0 (mv_size d))) ofp) \<and>
    page_inv p' \<and> page_nodes p' = insert_at indx raw (page_nodes p) \<and> pg_flags p' = pg_flags p \<and> length p' = length p \<and>
    nd_key raw = k \<and> nd_flags raw = u16 flags \<and> nd_dsize raw = mv_size d \<and>
    take (length (new_payload d flags ofp)) (nd_payload (pg_flags p) raw) = new_payload d flags ofp"
proof -
  let ?pl = "new_payload d flags ofp" and ?lb = "leaf_bytes k d flags ofp" and ?sz = "leaf_need k d flags"
  let ?dl = "if odd flags then 8 else mv_size d"
  have pl: "length ?pl \<le> ?dl"
    using big src ofp by (auto simp: new_payload_def slice_def split: option.splits)
  note f = leaf_bytes_fields [OF bnd, of flags ofp]
  have len: "length ?lb = 8 + length k + length ?pl" by (simp add: leaf_bytes_def)
  have dl: "nd_dlen (pg_flags p) ?lb = ?dl" using leaf f by (simp add: nd_dlen_def)
  have sz: "8 \<le> length ?lb" "length ?lb \<le> ?sz" "nd_len (pg_flags p) ?lb = ?sz"
    using len pl f EVEN_bounds(1) [of "8 + length k + ?dl"] by (auto simp: nd_len_def dl leaf_need_def)
  let ?ofs = "pg_upper p - ?sz"
  have lq: "length (slot_page p indx ?ofs) = length p"
    using slot_page_laws(1) [OF inv indx, of ?ofs] room page_inv_bounds(3) [OF inv] by simp
  define p' where "p' = splice (slot_page p indx ?ofs) ?ofs ?lb"
  define ofp' where "ofp' = map_option (\<lambda>q. if F_ISSET flags MDB_RESERVE then q else splice q 16 (slice (mv_data d) 0 (mv_size d))) ofp"
  have wr: "node_write (slot_page p indx ?ofs) (pg_flags p) ?ofs (Some k) (Some d) pgno flags ofp = Some (p', ofp')"
    unfolding p'_def ofp'_def
    using leaf sz len lq room page_inv_bounds(3) [OF inv] big src ofp by (intro node_write_leaf) auto
  note ins = node_add_update_inserts [OF inv indx room sz wr [unfolded p'_def], folded p'_def]
  note fp = fields_of_prefix [OF ins(3) sz(1), of "length ?pl"]
  have "take (length ?pl) (nd_payload (pg_flags p) ?lb) = ?pl"
    using f(1) dl pl by (simp add: nd_payload_def) (simp add: leaf_bytes_def slice_skip, simp add: slice_def split: if_splits)
  moreover have "pg_flags p' = pg_flags p" "length p' = length p" using ins(2) by (auto simp: node_inserted_def)
  ultimately show ?thesis
    using ins(1) node_inserted_inv [OF inv ins(2)] fp f len unfolding ofp'_def
    by (intro exI [of _ p'] exI [of _ "node_at p' (pg_upper p')"]) simp
qed

text \<open>C34: adding a record whose data fits on a leaf page inserts exactly one node at the given index, with the
  given key, flags, data size and data; the other nodes and the layout invariant are kept.  When the free space is too small the
  page is left alone, \<open>MDB_PAGE_FULL\<close> is returned and the transaction is marked as failed.\<close>

theorem mdb_node_add_leaf_correct:
  fixes st :: "'s na_state"
  assumes "page_inv (na_page st)" "IS_LEAF (pg_flags (na_page st))" "indx \<le> pg_n (na_page st)"
    and "length k < 65536" "mv_size d < 2 ^ 32" "mv_size d \<le> length (mv_data d)"
    and "even flags" "\<not> F_ISSET flags MDB_RESERVE" "8 + length k + mv_size d \<le> nodemax"
  shows "if EVEN (8 + length k + mv_size d) + 2 \<le> pg_upper (na_page st) - pg_lower (na_page st)
    then \<exists>p' raw. mdb_node_add page_alloc psize nodemax st indx (Some k) (Some d) pgno flags =
        Some (MDB_SUCCESS, st\<lparr>na_page := p'\<rparr>, None) \<and>
      page_inv p' \<and> page_nodes p' = insert_at indx raw (page_nodes (na_page st)) \<and>
      nd_key raw = k \<and> nd_flags raw = u16 flags \<and> nd_dsize raw = mv_size d \<and>
      nd_payload (pg_flags p') raw = take (mv_size d) (mv_data d)
    else mdb_node_add page_alloc psize nodemax st indx (Some k) (Some d) pgno flags =
      Some (MDB_PAGE_FULL, st\<lparr>na_mt_flags := na_mt_flags st OR MDB_TXN_ERROR\<rparr>, None)"
proof -
  let ?p = "na_page st" and ?sz = "EVEN (8 + length k + mv_size d)"
  note b = page_inv_bounds [OF assms(1)] page_inv_len [OF assms(1)]
  have l2: "\<not> IS_LEAF2 (pg_flags ?p)" using assms(1) by (simp add: page_inv_def)
  have step: "mdb_node_add page_alloc psize nodemax st indx (Some k) (Some d) pgno flags =
     (if int ?sz > int (pg_upper ?p - pg_lower ?p) - 2
      then Some (MDB_PAGE_FULL, st\<lparr>na_mt_flags := na_mt_flags st OR MDB_TXN_ERROR\<rparr>, None)
      else do { (mp, ofp) \<leftarrow> node_add_update ?p indx (Some k) (Some d) pgno flags ?sz None;
                Some (MDB_SUCCESS, st\<lparr>na_page := mp\<rparr>, ofp) })"
    using assms(2,7,9) b l2 by (simp add: mdb_node_add_def page_access NODESIZE_def Let_def)
  show ?thesis
  proof (cases "?sz + 2 \<le> pg_upper ?p - pg_lower ?p")
    case True
    have need: "leaf_need k d flags = ?sz" using assms(7) by (simp add: leaf_need_def)
    have room: "pg_lower ?p + 2 + leaf_need k d flags \<le> pg_upper ?p" using True need by linarith
    obtain p' raw where r: "node_add_update ?p indx (Some k) (Some d) pgno flags ?sz None = Some (p', None)"
      "page_inv p'" "page_nodes p' = insert_at indx raw (page_nodes ?p)" "pg_flags p' = pg_flags ?p"
      "nd_key raw = k" "nd_flags raw = u16 flags" "nd_dsize raw = mv_size d"
      "take (length (new_payload d flags None)) (nd_payload (pg_flags ?p) raw) = new_payload d flags None"
      using leaf_node_inserted [OF assms(1-5) room, of None pgno] assms(6,7) unfolding need by auto
    have pl: "new_payload d flags None = take (mv_size d) (mv_data d)"
      using assms(7,8) by (simp add: new_payload_def slice_def)
    have "length (nd_payload (pg_flags ?p) raw) \<le> mv_size d"
      using r(6,7) assms(2,7) by (simp add: nd_payload_def nd_dlen_def slice_def)
    then have "nd_payload (pg_flags p') raw = take (mv_size d) (mv_data d)"
      using r(4,8) pl assms(6) by simp
    moreover have "\<not> int ?sz > int (pg_upper ?p - pg_lower ?p) - 2" using True by linarith
    ultimately show ?thesis
      unfolding if_P [OF True] using step r by (intro exI [of _ p'] exI [of _ raw] conjI) simp_all
  next
    case False
    then show ?thesis using step by auto
  qed
qed

theorem mdb_node_add_leaf_correct_witness:
  "\<exists>p' raw. mdb_node_add (\<lambda>s n. None) 44 100 \<lparr>na_page = sample_empty, na_db = undefined, na_mt_flags = 0, na_txn = ()\<rparr> 0
      (Some [65]) (Some \<lparr>mv_size = 1, mv_data = [120]\<rparr>) 0 0 =
      Some (MDB_SUCCESS, \<lparr>na_page = p', na_db = undefined, na_mt_flags = 0, na_txn = ()\<rparr>, None) \<and>
    page_nodes p' = [raw] \<and> nd_key raw = [65] \<and> nd_payload (pg_flags p') raw = [120]"
  using mdb_node_add_leaf_correct [of "\<lparr>na_page = sample_empty, na_db = undefined, na_mt_flags = 0, na_txn = ()\<rparr>" 0 "[65]"
      "\<lparr>mv_size = 1, mv_data = [120]\<rparr>" 0 100 "\<lambda>s n. None" 44 0]
  by (auto simp: sample_empty_inv sample_empty_header leaf_flag F_ISSET_def MDB_RESERVE_def EVEN_def insert_at_def)

text \<open>C35: adding a child to a branch page inserts exactly one node at the given index, with the given
  separator key (empty for the first child) and page number, and keeps the other nodes and the invariant; a page without room is left alone.\<close>

theorem mdb_node_add_branch_correct:
  fixes st :: "'s na_state"
  assumes "page_inv (na_page st)" "\<not> IS_LEAF (pg_flags (na_page st))" "indx \<le> pg_n (na_page st)"
    and "(case key of None \<Rightarrow> [] | Some k \<Rightarrow> k) = k" "length k < 65536" "pgno < 2 ^ 48"
  shows "if EVEN (8 + length k) + 2 \<le> pg_upper (na_page st) - pg_lower (na_page st)
    then \<exists>p' raw. mdb_node_add page_alloc psize nodemax st indx key data pgno flags =
        Some (MDB_SUCCESS, st\<lparr>na_page := p'\<rparr>, None) \<and>
      page_inv p' \<and> page_nodes p' = insert_at indx raw (page_nodes (na_page st)) \<and>
      nd_key raw = k \<and> nd_pgno raw = pgno
    else mdb_node_add page_alloc psize nodemax st indx key data pgno flags =
      Some (MDB_PAGE_FULL, st\<lparr>na_mt_flags := na_mt_flags st OR MDB_TXN_ERROR\<rparr>, None)"
proof -
  let ?p = "na_page st" and ?sz = "EVEN (8 + length k)" and ?bb = "branch_bytes k pgno"
  note b = page_inv_bounds [OF assms(1)] page_inv_len [OF assms(1)]
  have l2: "\<not> IS_LEAF2 (pg_flags ?p)" using assms(1) by (simp add: page_inv_def)
  have ks: "(case key of None \<Rightarrow> 0 | Some k \<Rightarrow> length k) = length k" using assms(4) by (cases key) auto
  have step: "mdb_node_add page_alloc psize nodemax st indx key data pgno flags =
     (if int ?sz > int (pg_upper ?p - pg_lower ?p) - 2
      then Some (MDB_PAGE_FULL, st\<lparr>na_mt_flags := na_mt_flags st OR MDB_TXN_ERROR\<rparr>, None)
      else do { (mp, ofp) \<leftarrow> node_add_update ?p indx key data pgno flags ?sz None;
                Some (MDB_SUCCESS, st\<lparr>na_page := mp\<rparr>, ofp) })"
    using assms(2) b l2 by (simp add: mdb_node_add_def page_access NODESIZE_def Let_def ks)
  show ?thesis
  proof (cases "?sz + 2 \<le> pg_upper ?p - pg_lower ?p")
    case True
    note f = branch_bytes_fields [OF assms(5,6)]
    have room: "pg_lower ?p + 2 + ?sz \<le> pg_upper ?p" using True by linarith
    have sz: "8 \<le> length ?bb" "length ?bb \<le> ?sz" "nd_len (pg_flags ?p) ?bb = ?sz"
      using assms(2) f(1) EVEN_bounds(1) [of "8 + length k"] by (auto simp: nd_len_def nd_dlen_def branch_bytes_def)
    let ?ofs = "pg_upper ?p - ?sz"
    have lq: "length (slot_page ?p indx ?ofs) = length ?p"
      using slot_page_laws(1) [OF assms(1,3), of ?ofs] room b(3) by simp
    define p' where "p' = splice (slot_page ?p indx ?ofs) ?ofs ?bb"
    have wr: "node_write (slot_page ?p indx ?ofs) (pg_flags ?p) ?ofs key data pgno flags None = Some (p', None)"
      unfolding p'_def using assms(2,4) sz room b(3) lq
      by (intro node_write_branch) (auto simp: branch_bytes_def)
    note ins = node_add_update_inserts [OF assms(1,3) room sz wr [unfolded p'_def], folded p'_def]
    note fp = fields_of_prefix [OF ins(3) sz(1), of 0]
    have "\<not> int ?sz > int (pg_upper ?p - pg_lower ?p) - 2" using True by linarith
    then show ?thesis
      unfolding if_P [OF True] using step ins(1) node_inserted_inv [OF assms(1) ins(2)] fp f
      by (intro exI [of _ p'] exI [of _ "node_at p' (pg_upper p')"] conjI) (simp_all add: branch_bytes_def)
  qed (use step in auto)
qed

theorem mdb_node_add_branch_correct_witness:
  "\<exists>p' raw. mdb_node_add (\<lambda>s n. None) 44 100 \<lparr>na_page = sample_empty_branch, na_db = undefined, na_mt_flags = 0, na_txn = ()\<rparr> 0
      None None 9 0 = Some (MDB_SUCCESS, \<lparr>na_page = p', na_db = undefined, na_mt_flags = 0, na_txn = ()\<rparr>, None) \<and>
    page_nodes p' = [raw] \<and> nd_key raw = [] \<and> nd_pgno raw = 9"
  using mdb_node_add_branch_correct [of "\<lparr>na_page = sample_empty_branch, na_db = undefined, na_mt_flags = 0, na_txn = ()\<rparr>" 0 None "[]"
      9 "\<lambda>s n. None" 44 100 None 0]
  by (auto simp: sample_empty_branch_inv sample_empty_branch_header leaf_flag [unfolded One_nat_def] EVEN_def insert_at_def)

lemma OVPAGES_room:
  assumes "0 < psize" shows "16 + n \<le> OVPAGES n psize * psize"
proof -
  have "15 + n < psize * ((15 + n) div psize + 1)"
    using assms dividend_less_div_times [of psize "15 + n"] by (simp add: mult.commute)
  then show ?thesis by (simp add: OVPAGES_def PAGEHDRSZ_def mult.commute)
qed

lemma mdb_page_new_overflow:
  assumes "page_alloc (na_txn st) num = Some (s', Inr np)" "16 \<le> length np"
  shows "\<exists>ofp. mdb_page_new page_alloc psize st P_OVERFLOW num = Some
      (st\<lparr>na_txn := s', na_db := (na_db st)\<lparr>md_overflow_pages := md_overflow_pages (na_db st) + num\<rparr>\<rparr>, Inr ofp) \<and>
    length ofp = length np \<and> slice ofp 0 8 = slice np 0 8"
proof -
  have fl: "u16 (P_OVERFLOW OR P_DIRTY) = 20" "\<not> IS_BRANCH 20" "\<not> IS_LEAF 20" "IS_OVERFLOW 20"
    by (simp_all add: P_OVERFLOW_def P_DIRTY_def IS_BRANCH_def IS_LEAF_def IS_OVERFLOW_def F_ISSET_def P_BRANCH_def P_LEAF_def)
  show ?thesis
    using assms by (simp add: mdb_page_new_def byte_simps PAGEHDRSZ_def Let_def fl)
qed

text \<open>C36: adding a record whose data is too large for the page puts the data on freshly allocated overflow
  pages and inserts a node that holds the number of the first of them, with \<open>F_BIGDATA\<close> set and the size of the data.
  The overflow pages are counted, and when they cannot be allocated the page is unchanged and the error is passed on.\<close>

theorem mdb_node_add_overflow_correct:
  fixes st :: "'s na_state"
  assumes "page_inv (na_page st)" "IS_LEAF (pg_flags (na_page st))" "indx \<le> pg_n (na_page st)"
    and "length k < 65536" "mv_size d < 2 ^ 32" "mv_size d \<le> length (mv_data d)"
    and "even flags" "\<not> F_ISSET flags MDB_RESERVE" "8 + length k + mv_size d > nodemax"
    and "EVEN (8 + length k + 8) + 2 \<le> pg_upper (na_page st) - pg_lower (na_page st)"
    and "page_alloc (na_txn st) (OVPAGES (mv_size d) psize) = Some (s', r)" "0 < psize"
    and "\<And>np. r = Inr np \<Longrightarrow> length np = OVPAGES (mv_size d) psize * psize"
  shows "case r of
      Inl e \<Rightarrow> mdb_node_add page_alloc psize nodemax st indx (Some k) (Some d) pgno flags =
        Some (e, st\<lparr>na_txn := s'\<rparr>, None)
    | Inr np \<Rightarrow> \<exists>p' raw ofp st'. mdb_node_add page_alloc psize nodemax st indx (Some k) (Some d) pgno flags =
        Some (MDB_SUCCESS, st'\<lparr>na_page := p'\<rparr>, Some ofp) \<and>
      md_overflow_pages (na_db st') = md_overflow_pages (na_db st) + OVPAGES (mv_size d) psize \<and>
      page_inv p' \<and> page_nodes p' = insert_at indx raw (page_nodes (na_page st)) \<and>
      nd_key raw = k \<and> odd (nd_flags raw) \<and> nd_dsize raw = mv_size d \<and>
      nd_payload (pg_flags p') raw = slice np 0 8 \<and>
      slice ofp 0 8 = slice np 0 8 \<and> slice ofp 16 (mv_size d) = take (mv_size d) (mv_data d)"
proof (cases r)
  case (Inl e)
  have "\<not> int (EVEN (8 + length k + 8)) > int (pg_upper (na_page st) - pg_lower (na_page st)) - 2"
    using assms(10) by linarith
  with Inl show ?thesis
    using assms(2,7,9,11) page_inv_bounds [OF assms(1)] page_inv_len [OF assms(1)] assms(1)
    by (simp add: mdb_node_add_def page_access NODESIZE_def Let_def mdb_page_new_def page_inv_def add.assoc)
next
  case (Inr np)
  let ?p = "na_page st" and ?sz = "EVEN (8 + length k + 8)" and ?num = "OVPAGES (mv_size d) psize" and ?fl = "flags OR F_BIGDATA"
  note ov = OVPAGES_room [OF assms(12), of "mv_size d"]
  have lnp: "length np = ?num * psize" using assms(13) Inr by simp
  let ?st = "st\<lparr>na_txn := s', na_db := (na_db st)\<lparr>md_overflow_pages := md_overflow_pages (na_db st) + ?num\<rparr>\<rparr>"
  obtain ofp where new: "mdb_page_new page_alloc psize st P_OVERFLOW ?num = Some (?st, Inr ofp)"
    and lofp: "length ofp = length np" "slice ofp 0 8 = slice np 0 8"
    using mdb_page_new_overflow [of page_alloc st ?num s' np psize] assms(11) Inr lnp ov by auto
  have odd: "odd ?fl" by (simp add: F_BIGDATA_def even_or_iff)
  have need: "leaf_need k d ?fl = ?sz" using odd by (simp add: leaf_need_def)
  have room: "pg_lower ?p + 2 + leaf_need k d ?fl \<le> pg_upper ?p" using assms(10) unfolding need by linarith
  have res: "\<not> F_ISSET ?fl MDB_RESERVE"
  proof -
    have "(flags OR 1) AND 65536 = flags AND (65536 :: nat)"
      by (rule bit_eqI) (auto simp: bit_simps)
    then show ?thesis using assms(8) by (simp add: F_ISSET_def MDB_RESERVE_def F_BIGDATA_def)
  qed
  obtain p' raw where r: "node_add_update ?p indx (Some k) (Some d) pgno ?fl ?sz (Some ofp) =
      Some (p', Some (splice ofp 16 (slice (mv_data d) 0 (mv_size d))))"
    "page_inv p'" "page_nodes p' = insert_at indx raw (page_nodes ?p)" "pg_flags p' = pg_flags ?p"
    "nd_key raw = k" "nd_flags raw = u16 ?fl" "nd_dsize raw = mv_size d"
    "take (length (new_payload d ?fl (Some ofp))) (nd_payload (pg_flags ?p) raw) = new_payload d ?fl (Some ofp)"
    using leaf_node_inserted [OF assms(1-5) room, of "Some ofp" pgno] assms(6) odd res lofp lnp ov unfolding need by auto
  have "length (nd_payload (pg_flags p') raw) \<le> 8"
    using r(4,6) assms(2) odd by (simp add: nd_payload_def nd_dlen_def slice_def)
  then have pl: "nd_payload (pg_flags p') raw = slice np 0 8"
    using r(4,8) lofp lnp ov by (simp add: new_payload_def)
  let ?of = "splice ofp 16 (slice (mv_data d) 0 (mv_size d))"
  have of: "slice ?of 0 8 = slice np 0 8" "slice ?of 16 (mv_size d) = take (mv_size d) (mv_data d)"
    using lofp lnp ov assms(6) by (simp_all add: slice_splice_other) (simp add: slice_def)
  have "\<not> int ?sz > int (pg_upper ?p - pg_lower ?p) - 2" using assms(10) by linarith
  then have "mdb_node_add page_alloc psize nodemax st indx (Some k) (Some d) pgno flags =
      Some (MDB_SUCCESS, ?st\<lparr>na_page := p'\<rparr>, Some ?of)"
    using assms(1,2,7,9) page_inv_bounds [OF assms(1)] page_inv_len [OF assms(1)] new r(1)
    by (simp add: mdb_node_add_def page_access NODESIZE_def Let_def page_inv_def)
  then show ?thesis
    unfolding Inr sum.case using r(2,3,5-7) pl of odd
    by (intro exI [of _ p'] exI [of _ raw] exI [of _ ?of] exI [of _ ?st] conjI) simp_all
qed

theorem mdb_node_add_overflow_correct_witness:
  "\<exists>p' raw ofp st'. mdb_node_add (\<lambda>s n. Some (s, Inr (replicate 44 7))) 44 5
      \<lparr>na_page = sample_empty, na_db = undefined, na_mt_flags = 0, na_txn = ()\<rparr> 0
      (Some [65]) (Some \<lparr>mv_size = 1, mv_data = [120]\<rparr>) 0 0 = Some (MDB_SUCCESS, st'\<lparr>na_page := p'\<rparr>, Some ofp) \<and>
    page_nodes p' = [raw] \<and> nd_key raw = [65] \<and> nd_payload (pg_flags p') raw = replicate 8 7 \<and> slice ofp 16 1 = [120]"
  using mdb_node_add_overflow_correct [of "\<lparr>na_page = sample_empty, na_db = undefined, na_mt_flags = 0, na_txn = ()\<rparr>" 0 "[65]"
      "\<lparr>mv_size = 1, mv_data = [120]\<rparr>" 0 5 "\<lambda>s n. Some (s, Inr (replicate 44 7))" 44 "()" "Inr (replicate 44 7)" 0]
  by (auto simp: sample_empty_inv sample_empty_header leaf_flag F_ISSET_def MDB_RESERVE_def EVEN_def insert_at_def
      OVPAGES_def PAGEHDRSZ_def slice_def [of "replicate _ _"] min_def)

section \<open>Deleting a node\<close>

lemma del_ptrs_step:
  assumes "i < n" "i \<noteq> indx" "j \<le> i" "16 + 2 * n \<le> length p"
  defines "v \<equiv> pg_ptr p i"
  shows "del_ptrs p indx ptr sz n i j =
    del_ptrs (splice p (16 + 2 * j) (le_bytes 2 (if v < ptr then v + sz else v))) indx ptr sz n (i + 1) (j + 1)"
proof -
  let ?q = "splice p (16 + 2 * j) (le_bytes 2 v)"
  have v: "v < 65536" using assms w16_bound [of "16 + 2 * i" p] by (simp add: pg_ptr_def)
  have q: "mp_ptr p i = Some v" "wr16 p (16 + 2 * j) v = Some ?q" "length ?q = length p"
    using assms by (simp_all add: mp_ptr_eq byte_simps)
  have qj: "pg_ptr ?q j = v" using assms(1-4) v by (simp add: pg_ptr_def)
  have "pg_ptr ?q i = v"
  proof (cases "j = i")
    case False
    then show ?thesis unfolding pg_ptr_def v_def using assms(1-4) by (subst slice_splice_other) auto
  qed (use qj in simp)
  then have ptr: "mp_ptr ?q i = Some v" "mp_ptr ?q j = Some v" using qj q(3) assms(1-4) by (simp_all add: mp_ptr_eq)
  have "wr16 ?q (16 + 2 * j) (v + sz) = Some (splice p (16 + 2 * j) (le_bytes 2 (v + sz)))"
    using q(3) assms(1-4) by (simp add: byte_simps) (simp add: splice_def)
  then show ?thesis
    using assms(1,2) q ptr by (subst del_ptrs.simps) (simp add: PAGEHDRSZ_def)
qed

lemma del_ptrs_laws:
  assumes "indx < n" "16 + 2 * n \<le> length p" "i \<le> n" "j = (if i \<le> indx then i else i - 1)"
  shows "\<exists>q. del_ptrs p indx ptr sz n i j = Some q \<and> length q = length p \<and>
    (\<forall>a k. a + k \<le> 16 \<or> 16 + 2 * n \<le> a \<longrightarrow> a + k \<le> length p \<longrightarrow> slice q a k = slice p a k) \<and>
    (\<forall>m < j. pg_ptr q m = pg_ptr p m) \<and>
    (\<forall>m. j \<le> m \<and> m < n - 1 \<longrightarrow> pg_ptr q m =
       (let v = pg_ptr p (if m < indx then m else Suc m) in u16 (if v < ptr then v + sz else v)))"
  using assms(2-)
proof (induction "n - i" arbitrary: p i j)
  case 0
  then show ?case using assms(1) by (subst del_ptrs.simps) auto
next
  case (Suc x)
  then have i: "i < n" by simp
  show ?case
  proof (cases "i = indx")
    case True
    have "del_ptrs p indx ptr sz n i j = del_ptrs p indx ptr sz n (i + 1) j"
      using True i by (subst del_ptrs.simps) simp
    then show ?thesis using Suc.hyps(1) [of "i + 1" p j] Suc.hyps(2) Suc.prems True i by auto
  next
    case False
    let ?v = "pg_ptr p i"
    let ?w = "if ?v < ptr then ?v + sz else ?v"
    let ?q = "splice p (16 + 2 * j) (le_bytes 2 ?w)"
    have j: "j \<le> i" "j + 1 = (if i + 1 \<le> indx then i + 1 else i + 1 - 1)" using Suc.prems(3) False by auto
    have lq: "length ?q = length p" using Suc.prems(1) i j by simp
    have other: "pg_ptr ?q m = pg_ptr p m" if "m \<noteq> j" "m < n" for m
      unfolding pg_ptr_def using that Suc.prems(1) i j by (subst slice_splice_other) auto
    have same: "pg_ptr ?q j = u16 ?w" unfolding pg_ptr_def using Suc.prems(1) i j by (simp add: u16_def)
    have out: "slice ?q a k = slice p a k" if "a + k \<le> 16 \<or> 16 + 2 * n \<le> a" "a + k \<le> length p" for a k
      using that Suc.prems(1) i j by (intro slice_splice_other) auto
    obtain q where q: "del_ptrs ?q indx ptr sz n (i + 1) (j + 1) = Some q" "length q = length ?q"
      "\<forall>a k. a + k \<le> 16 \<or> 16 + 2 * n \<le> a \<longrightarrow> a + k \<le> length ?q \<longrightarrow> slice q a k = slice ?q a k"
      "\<forall>m < j + 1. pg_ptr q m = pg_ptr ?q m"
      "\<forall>m. j + 1 \<le> m \<and> m < n - 1 \<longrightarrow> pg_ptr q m =
         (let v = pg_ptr ?q (if m < indx then m else Suc m) in u16 (if v < ptr then v + sz else v))"
    proof -
      have "x = n - (i + 1)" "16 + 2 * n \<le> length ?q" "i + 1 \<le> n" using Suc.hyps(2) Suc.prems(1) lq i by auto
      from Suc.hyps(1) [OF this j(2)] that show ?thesis by blast
    qed
    have "pg_ptr q m = (let v = pg_ptr p (if m < indx then m else Suc m) in u16 (if v < ptr then v + sz else v))"
      if m: "j \<le> m" "m < n - 1" for m
    proof (cases "m = j")
      case True
      then have "i = (if m < indx then m else Suc m)" using Suc.prems(3) False by auto
      then show ?thesis using q(4) same True by (simp add: Let_def)
    next
      case False
      then show ?thesis using q(5) m other [of "if m < indx then m else Suc m"] j by auto
    qed
    moreover have "pg_ptr q m = pg_ptr p m" if "m < j" for m using q(4) that other [of m] i j by auto
    moreover have "del_ptrs p indx ptr sz n i j = Some q"
      using del_ptrs_step [OF i False j(1) Suc.prems(1), of ptr sz] q(1) by simp
    ultimately show ?thesis using q(2,3) lq out by (intro exI [of _ q]) auto
  qed
qed

lemma node_size_of_eq:
  assumes inv: "page_inv p" and ok: "node_ok p ofs"
  shows "node_size_of p (pg_flags p) ofs = Some (nd_len (pg_flags p) (drop ofs p))"
proof -
  have "8 + nd_ksize (drop ofs p) + nd_dlen (pg_flags p) (drop ofs p) \<le> nd_len (pg_flags p) (drop ofs p)"
    by (rule nd_len_fields)
  also have "\<dots> \<le> 32768" using ok page_inv_bounds(4) [OF inv] by (simp add: node_ok_def)
  finally show ?thesis
    using node_header_eq [OF node_ok_room [OF ok]]
    by (auto simp: node_size_of_def nd_len_def nd_dlen_def NODESIZE_def split: if_splits)
qed

text \<open>C37: \<open>mdb_node_del\<close> removes exactly the node at the given index, keeps the order and the contents of the
  others and the layout invariant, and gives the removed node's space back to the free area.\<close>

theorem mdb_node_del_correct:
  assumes inv: "page_inv p" and i: "indx < pg_n p"
  shows "\<exists>p'. mdb_node_del p indx ksize = Some p' \<and> page_inv p' \<and> page_nodes p' = remove_at indx (page_nodes p) \<and>
    pg_upper p' - pg_lower p' = pg_upper p - pg_lower p + length (page_nodes p ! indx) + 2"
proof -
  define ptr where "ptr = pg_ptr p indx"
  define sz where "sz = nd_len (pg_flags p) (drop ptr p)"
  define n where "n = pg_n p"
  note b = page_inv_bounds [OF inv] page_inv_len [OF inv]
  have low: "pg_lower p = 16 + 2 * n" using page_inv_lower [OF inv] by (simp add: n_def)
  have ok: "node_ok p ptr" using page_inv_node [OF inv i] by (simp add: ptr_def)
  have pb: "pg_upper p \<le> ptr" "ptr + sz \<le> length p" using ok by (auto simp: node_ok_def sz_def)
  obtain q where q: "del_ptrs p indx ptr sz n 0 0 = Some q" "length q = length p"
    "\<And>a k. a + k \<le> 16 \<or> 16 + 2 * n \<le> a \<Longrightarrow> a + k \<le> length p \<Longrightarrow> slice q a k = slice p a k"
    "\<And>m. m < n - 1 \<Longrightarrow> pg_ptr q m =
       (let v = pg_ptr p (if m < indx then m else Suc m) in u16 (if v < ptr then v + sz else v))"
    using del_ptrs_laws [of indx n p 0 0 ptr sz] i b low by (auto simp: n_def)
  have hdr: "mp_upper q = Some (pg_upper p)" "mp_lower q = Some (pg_lower p)" "pg_flags q = pg_flags p"
    using q(2) q(3) [of 12 2] q(3) [of 14 2] q(3) [of 10 2] b
    by (simp_all add: mp_upper_eq mp_lower_eq pg_upper_def pg_lower_def pg_flags_def)
  let ?mv = "slice q (pg_upper p) (ptr - pg_upper p)"
  let ?q1 = "splice q (pg_upper p + sz) ?mv"
  let ?q2 = "splice ?q1 12 (le_bytes 2 (pg_lower p + 65536 - 2))"
  define p' where "p' = splice ?q2 14 (le_bytes 2 (pg_upper p + sz))"
  have lm: "length ?mv = ptr - pg_upper p" using pb q(2) by simp
  have l1: "length ?q1 = length p" using lm pb q(2) by simp
  have q1: "slice ?q1 a k = slice q a k" if "a + k \<le> pg_upper p + sz" "a + k \<le> length p" for a k
    using that lm pb q(2) by (intro slice_splice_other) auto
  have lp: "length p' = length p" using l1 b by (simp add: p'_def)
  have u2: "mp_upper ?q2 = Some (pg_upper p)"
    using q1 [of 14 2] l1 b hdr(1) q(2) by (simp add: mp_upper_def byte_simps slice_splice_other)
  have lo1: "mp_lower ?q1 = Some (pg_lower p)"
    using q1 [of 12 2] l1 b hdr(2) q(2) by (simp add: mp_lower_def byte_simps)
  have del: "mdb_node_del p indx ksize = Some p'"
  proof -
    have "u16 n = n" using low b by (intro u16_small) auto
    moreover have "NUMKEYS p = Some n" "mp_flags p = Some (pg_flags p)" "mp_ptr p indx = Some ptr"
      using b low i by (simp_all add: page_access n_def ptr_def)
    moreover have "c_memmove q (pg_upper p + sz) (pg_upper p) (ptr - pg_upper p) = Some ?q1"
      using pb q(2) by (simp add: byte_simps)
    moreover have "wr16 ?q1 12 (pg_lower p + 65536 - 2) = Some ?q2" "wr16 ?q2 14 (pg_upper p + sz) = Some p'"
      using l1 b by (simp_all add: byte_simps p'_def)
    moreover have "\<not> IS_LEAF2 (pg_flags p)" using inv by (simp add: page_inv_def)
    ultimately show ?thesis
      using node_size_of_eq [OF inv ok, folded sz_def] i q(1) hdr(1) lo1 u2 pb(1)
      by (simp add: mdb_node_del_def n_def)
  qed
  have pq1: "slice p' a k = slice ?q1 a k" if "a + k \<le> 12 \<or> 16 \<le> a" "a + k \<le> length p" for a k
  proof -
    have "slice p' a k = slice ?q2 a k" unfolding p'_def using that l1 b by (intro slice_splice_other) auto
    also have "\<dots> = slice ?q1 a k" using that l1 b by (intro slice_splice_other) auto
    finally show ?thesis .
  qed
  have head: "slice p' a k = slice q a k" if "a + k \<le> 12 \<or> 16 \<le> a" "a + k \<le> pg_upper p + sz" "a + k \<le> length p" for a k
    using that q1 [of a k] pq1 [of a k] by simp
  have "pg_flags p' = pg_flags p" using head [of 10 2] hdr(3) b by (simp add: pg_flags_def)
  moreover have lower': "pg_lower p' + 2 = pg_lower p"
    using l1 b low i mod_sub_wrap [of 2 "pg_lower p" 65536] pg_bounds(1) [OF b(5)]
    unfolding p'_def pg_lower_def [of "splice _ _ _"] by (simp add: slice_splice_other n_def)
  moreover have upper': "pg_upper p' = pg_upper p + sz"
    using l1 b pb unfolding p'_def pg_upper_def [of "splice _ _ _"] by simp
  moreover have "ptrs p' = map (\<lambda>a. if a < ptr then a + sz else a) (remove_at indx (ptrs p))"
  proof (rule nth_equalityI)
    have "0 < n" using i by (simp add: n_def)
    then have "pg_lower p' = 16 + 2 * (n - 1)" using lower' low by linarith
    then have np': "pg_n p' = n - 1" by (simp add: pg_n_def)
    then show "length (ptrs p') = length (map (\<lambda>a. if a < ptr then a + sz else a) (remove_at indx (ptrs p)))"
      using i by (simp add: n_def)
    fix m assume "m < length (ptrs p')"
    then have m: "m < n - 1" using np' by simp
    define v where "v = pg_ptr p (if m < indx then m else Suc m)"
    have "v < 65536" unfolding v_def pg_ptr_def using m b low by (intro w16_bound) auto
    then have "pg_ptr p' m = (if v < ptr then v + sz else v)"
      using head [of "16 + 2 * m" 2] q(4) [OF m] m b low pb by (simp add: pg_ptr_def v_def Let_def)
    moreover have "remove_at indx (ptrs p) ! m = v"
      using m i by (auto simp: nth_remove_at n_def v_def)
    ultimately show "ptrs p' ! m = map (\<lambda>a. if a < ptr then a + sz else a) (remove_at indx (ptrs p)) ! m"
      using m np' i by (simp add: n_def)
  qed
  moreover have "slice p' (a + sz) k = slice p a k" if a: "pg_upper p \<le> a" "a + k \<le> ptr" for a k
  proof -
    have "slice p' (a + sz) k = slice ?q1 (a + sz) k"
      using a pb b by (intro pq1) auto
    also have "\<dots> = slice ?mv (a - pg_upper p) k"
      using a pb lm q(2) by (subst slice_splice_inside) auto
    also have "\<dots> = slice q a k" using a pb q(2) by (subst slice_slice) auto
    also have "\<dots> = slice p a k" using a pb b low by (intro q(3)) auto
    finally show ?thesis .
  qed
  moreover have "slice p' a k = slice p a k" if a: "ptr + sz \<le> a" "a + k \<le> length p" for a k
  proof -
    have "slice p' a k = slice ?q1 a k" using a pb b by (intro pq1) auto
    also have "\<dots> = slice q a k" using a pb lm q(2) by (intro slice_splice_other) auto
    also have "\<dots> = slice p a k" using a pb b low by (intro q(3)) auto
    finally show ?thesis .
  qed
  ultimately have rem: "node_removed p indx p'"
    using lp by (simp add: node_removed_def Let_def ptr_def [symmetric] sz_def [symmetric])
  have "length (page_nodes p ! indx) = sz"
    using i node_at_fields(6) [OF ok] by (simp add: page_nodes_def ptr_def sz_def)
  then show ?thesis using del node_removed_inv [OF inv i rem] upper' lower' b(2) by (intro exI [of _ p']) auto
qed

theorem mdb_node_del_correct_witness:
  "\<exists>p'. mdb_node_del sample_leaf 0 0 = Some p' \<and> page_inv p' \<and> map nd_key (page_nodes p') = [[66]]"
  using mdb_node_del_correct [OF sample_inv, of 0 0] sample_keys
  by (auto simp: sample_header map_remove_at) (simp add: remove_at_def)

end
