(* ===== verification/Page_Space.thy ===== *)
theory Page_Space
  imports Page_Nodes
begin

text \<open>
  Free space: the size functions that callers use before they add a node agree with what
  \<open>mdb_node_add\<close> needs, and \<open>mdb_page_copy\<close>, which skips the free space, copies every node.
\<close>

section \<open>Sizes\<close>

lemma EVEN_plus_2: "EVEN (n + 2) = EVEN n + 2"
  unfolding EVEN_def by presburger

lemma sum_list_even: "(\<And>x. x \<in> set xs \<Longrightarrow> even (f x)) \<Longrightarrow> even (sum_list (map f xs) :: nat)"
  by (induction xs) auto

lemma even_free_space:
  assumes "page_inv p" "even (length p)" shows "even (pg_upper p - pg_lower p)"
proof -
  have "even (length p - pg_upper p)"
    using assms(1) sum_list_even [of "ptrs p" "\<lambda>ofs. nd_len (pg_flags p) (drop ofs p)"] nd_len_ge(2)
    by (simp add: page_inv_def)
  then show ?thesis using assms page_inv_bounds [OF assms(1)] by (auto simp: page_inv_def)
qed

lemma mdb_node_add_full_leaf:
  fixes st :: "'s na_state"
  assumes "page_inv (na_page st)" "IS_LEAF (pg_flags (na_page st))" "even flags"
    and "\<And>s n s' e. page_alloc s n = Some (s', Inl e) \<Longrightarrow> e \<noteq> MDB_PAGE_FULL"
  shows "(\<exists>st' ofp. mdb_node_add page_alloc psize nodemax st indx (Some k) (Some d) pgno flags = Some (MDB_PAGE_FULL, st', ofp)) \<longleftrightarrow>
    int (EVEN (8 + length k + (if 8 + length k + mv_size d > nodemax then 8 else mv_size d))) >
      int (pg_upper (na_page st) - pg_lower (na_page st)) - 2"
  using assms page_inv_bounds [OF assms(1)] page_inv_len [OF assms(1)]
  by (auto simp: mdb_node_add_def page_access NODESIZE_def Let_def page_inv_def mdb_page_new_def bind_eq_Some_conv
      split: sum.splits if_splits)

text \<open>C38: \<open>mdb_leaf_size\<close> is the exact room a record needs: adding it to a leaf page reports \<open>MDB_PAGE_FULL\<close> if and
  only if the free space of the page is less than \<open>mdb_leaf_size\<close>, whether or not the data goes to overflow pages.\<close>

theorem mdb_leaf_size_exact:
  fixes st :: "'s na_state"
  assumes "page_inv (na_page st)" "IS_LEAF (pg_flags (na_page st))" "even flags"
    and "\<And>s n s' e. page_alloc s n = Some (s', Inl e) \<Longrightarrow> e \<noteq> MDB_PAGE_FULL"
  shows "(\<exists>st' ofp. mdb_node_add page_alloc psize nodemax st indx (Some k) (Some d) pgno flags = Some (MDB_PAGE_FULL, st', ofp)) \<longleftrightarrow>
    SIZELEFT (na_page st) = Some (pg_upper (na_page st) - pg_lower (na_page st)) \<and>
    pg_upper (na_page st) - pg_lower (na_page st) < mdb_leaf_size nodemax (length k) (mv_size d)"
proof -
  have "mdb_leaf_size nodemax (length k) (mv_size d) =
      EVEN (8 + length k + (if 8 + length k + mv_size d > nodemax then 8 else mv_size d)) + 2"
    using EVEN_plus_2 by (simp add: mdb_leaf_size_def NODESIZE_def Let_def)
  then show ?thesis
    using mdb_node_add_full_leaf [OF assms, where k = k and d = d and pgno = pgno and psize = psize and nodemax = nodemax and indx = indx]
      page_inv_bounds [OF assms(1)] page_inv_len [OF assms(1)] by (auto simp: SIZELEFT_eq)
qed

theorem mdb_leaf_size_exact_witness:
  "(\<exists>st' ofp. mdb_node_add (\<lambda>s n. Some (s, Inl ENOMEM)) 44 100
      \<lparr>na_page = sample_leaf, na_db = undefined, na_mt_flags = 0, na_txn = ()\<rparr> 0 (Some [67]) (Some \<lparr>mv_size = 1, mv_data = [1]\<rparr>) 0 0 =
      Some (MDB_PAGE_FULL, st', ofp)) \<and> mdb_leaf_size 100 1 1 = 12"
  using mdb_leaf_size_exact [of "\<lparr>na_page = sample_leaf, na_db = undefined, na_mt_flags = 0, na_txn = ()\<rparr>" 0
      "\<lambda>s n. Some (s, Inl ENOMEM)" 44 100 0 "[67]" "\<lparr>mv_size = 1, mv_data = [1]\<rparr>" 0]
  by (simp add: sample_inv sample_header leaf_flag SIZELEFT_eq mdb_leaf_size_def NODESIZE_def EVEN_def)

text \<open>C39: \<open>mdb_branch_size\<close> does not round up to an even size, but a branch page's free space is always even, so
  a separator for which \<open>mdb_branch_size\<close> fits is never refused: adding it reports \<open>MDB_PAGE_FULL\<close> if and only if the free
  space is less than \<open>mdb_branch_size\<close>.\<close>

theorem mdb_branch_size_exact:
  fixes st :: "'s na_state"
  assumes "page_inv (na_page st)" "\<not> IS_LEAF (pg_flags (na_page st))" "even (length (na_page st))"
  shows "(\<exists>st' ofp. mdb_node_add page_alloc psize nodemax st indx key data pgno flags = Some (MDB_PAGE_FULL, st', ofp)) \<longleftrightarrow>
    pg_upper (na_page st) - pg_lower (na_page st) < mdb_branch_size key"
proof -
  let ?room = "pg_upper (na_page st) - pg_lower (na_page st)"
  define n where "n = (case key of None \<Rightarrow> 0 | Some k \<Rightarrow> length k)"
  have "(\<exists>st' ofp. mdb_node_add page_alloc psize nodemax st indx key data pgno flags = Some (MDB_PAGE_FULL, st', ofp)) \<longleftrightarrow>
      int (EVEN (8 + n)) > int ?room - 2"
    using assms page_inv_bounds [OF assms(1)] page_inv_len [OF assms(1)]
    by (auto simp: mdb_node_add_def page_access NODESIZE_def Let_def page_inv_def n_def bind_eq_Some_conv split: if_splits)
  moreover have "even ?room" by (rule even_free_space [OF assms(1,3)])
  then have "int (EVEN (8 + n)) > int ?room - 2 \<longleftrightarrow> ?room < 8 + n + 2"
    using EVEN_bounds [of "8 + n"] by presburger
  ultimately show ?thesis unfolding mdb_branch_size_def NODESIZE_def n_def by simp
qed

theorem mdb_branch_size_exact_witness:
  "\<exists>st' ofp. mdb_node_add (\<lambda>s n. None) 26 100 \<lparr>na_page = sample_empty_branch, na_db = undefined, na_mt_flags = 0, na_txn = ()\<rparr> 0
      (Some [67]) None 3 0 = Some (MDB_PAGE_FULL, st', ofp)"
  using mdb_branch_size_exact [of "\<lparr>na_page = sample_empty_branch, na_db = undefined, na_mt_flags = 0, na_txn = ()\<rparr>"
      "\<lambda>s n. None" 26 100 0 "Some [67]" None 3 0]
  by (simp add: sample_empty_branch_inv sample_empty_branch_header leaf_flag [unfolded One_nat_def] mdb_branch_size_def NODESIZE_def)

section \<open>Copying\<close>

lemma page_same:
  assumes inv: "page_inv p" and len: "length q = length p"
    and same: "\<And>a k. a + k \<le> pg_lower p \<or> pg_upper p \<le> a \<Longrightarrow> a + k \<le> length p \<Longrightarrow> slice q a k = slice p a k"
  shows "page_inv q" "page_nodes q = page_nodes p" "pg_flags q = pg_flags p" "mp_pgno q = mp_pgno p"
proof -
  note b = page_inv_bounds [OF inv] page_inv_len [OF inv]
  have h: "slice q a k = slice p a k" if "a + k \<le> 16" for a k using that b by (intro same) auto
  have hd: "pg_flags q = pg_flags p" "pg_lower q = pg_lower p" "pg_upper q = pg_upper p" "pg_n q = pg_n p"
    by (simp_all add: pg_flags_def pg_lower_def pg_upper_def pg_n_def h)
  have "pg_ptr q i = pg_ptr p i" if "i < pg_n p" for i
    unfolding pg_ptr_def using that b page_inv_lower [OF inv] by (subst same) auto
  then have pt: "ptrs q = ptrs p" by (simp add: ptrs_def hd)
  have nodes: "nd_len (pg_flags q) (drop a q) = nd_len (pg_flags p) (drop a p)" "node_at q a = node_at p a"
    if "node_ok p a" for a
    using that node_same [OF hd(1) len, of a a] same by (auto simp: node_ok_def)
  have ok: "\<forall>a \<in> set (ptrs p). node_ok p a" using inv by (simp add: page_inv_def)
  show "page_nodes q = page_nodes p" using nodes ok by (simp add: page_nodes_def pt)
  show "pg_flags q = pg_flags p" by (rule hd)
  show "mp_pgno q = mp_pgno p" using b len h by (simp add: mp_pgno_def byte_simps)
  have "sorted_wrt (apart q) (ptrs p)"
    using inv nodes(1) ok by (auto simp: page_inv_def apart_def elim!: sorted_wrt_mono_rel [rotated])
  moreover have "sum_list (map (\<lambda>a. nd_len (pg_flags q) (drop a q)) (ptrs p)) =
      sum_list (map (\<lambda>a. nd_len (pg_flags p) (drop a p)) (ptrs p))"
    using nodes(1) ok by (simp cong: map_cong)
  moreover have "\<forall>a \<in> set (ptrs p). node_ok q a" using ok nodes(1) len hd by (simp add: node_ok_def)
  ultimately show "page_inv q" using inv unfolding page_inv_def pt len hd by simp
qed

text \<open>Only the used parts of the page are copied, in whole words.\<close>

lemma page_copies:
  assumes inv: "page_inv src" and len: "length src = psize" "length dst = psize"
  shows "\<exists>q. mdb_page_copy dst src psize = Some q \<and> length q = psize \<and> page_inv q \<and>
    page_nodes q = page_nodes src \<and> pg_flags q = pg_flags src \<and> mp_pgno q = mp_pgno src"
proof -
  let ?u = "pg_upper src" and ?l = "pg_lower src"
  note b = page_inv_bounds [OF inv] page_inv_len [OF inv]
  let ?hi = "?u div 8 * 8" and ?lo = "(?l + 7) div 8 * 8"
  have unused: "u16 (?u + 65536 - ?l) = ?u - ?l" using b by simp
  have l2: "\<not> IS_LEAF2 (pg_flags src)" using inv by (simp add: page_inv_def)
  show ?thesis
  proof (cases "(?u - ?l) div 8 * 8 = 0")
    case True
    then have "mdb_page_copy dst src psize = Some (splice dst 0 (slice src 0 psize))"
      using b len unused by (simp add: mdb_page_copy_def page_access byte_simps Let_def)
    also have "splice dst 0 (slice src 0 psize) = src" using len by (simp add: splice_def slice_def)
    finally show ?thesis using inv len by auto
  next
    case False
    then have gap: "8 \<le> ?u - ?l" by auto
    have le: "?lo \<le> psize" "?hi \<le> ?u" "?l \<le> ?lo" "?u \<le> psize" "16 \<le> ?hi" using gap b len by auto
    let ?q1 = "splice dst 0 (slice src 0 ?lo)"
    define q where "q = splice ?q1 ?hi (slice src ?hi (psize - ?hi))"
    have l1: "length ?q1 = psize" using le len by simp
    have lq: "length q = psize" unfolding q_def using le len l1 by simp
    have copy: "mdb_page_copy dst src psize = Some q"
      using False b len le l1 l2 unused by (simp add: mdb_page_copy_def page_access byte_simps Let_def q_def)
    have up: "slice q a k = slice src a k" if "?u \<le> a" "a + k \<le> psize" for a k
    proof -
      have "slice q a k = slice (slice src ?hi (psize - ?hi)) (a - ?hi) k"
        unfolding q_def using that le len l1 by (subst slice_splice_inside) auto
      then show ?thesis using that le len by (simp add: slice_slice)
    qed
    have dn: "slice q a k = slice src a k" if "a + k \<le> ?l" for a k
    proof -
      have "slice q a k = slice ?q1 a k"
        unfolding q_def using that le len l1 gap by (intro slice_splice_other) auto
      also have "\<dots> = slice (slice src 0 ?lo) a k"
        using that le len by (subst slice_splice_inside) auto
      finally show ?thesis using that le len by (simp add: slice_slice)
    qed
    show ?thesis
      using copy lq page_same [OF inv, of q] lq len up dn by auto
  qed
qed

text \<open>C40: \<open>mdb_page_copy\<close> skips most of the free space but copies everything a page holds: the copy satisfies the
  layout invariant and has the same number, flags and nodes, and only bytes of the two pages are accessed.\<close>

theorem mdb_page_copy_correct:
  assumes "page_inv src" "length src = psize" "length dst = psize"
  shows "\<exists>q. mdb_page_copy dst src psize = Some q \<and> length q = psize \<and> page_inv q \<and>
    page_nodes q = page_nodes src \<and> pg_flags q = pg_flags src \<and> mp_pgno q = mp_pgno src"
  by (rule page_copies [OF assms])

theorem mdb_page_copy_correct_witness:
  "\<exists>q. mdb_page_copy (replicate 44 0) sample_leaf 44 = Some q \<and> page_inv q \<and> map nd_key (page_nodes q) = [[65], [66]]"
  using mdb_page_copy_correct [OF sample_inv, of 44 "replicate 44 0"] by (auto simp: sample_header sample_keys)

end
