(* ===== verification/Store.thy ===== *)
theory Store
  imports Page_View Midl_Sort
begin

text \<open>
  The environment and the transaction as far as reading and allocating pages needs them, and
  \<open>mdb_page_get\<close>, which finds the current version of a page.

  A page pointer is either the address of a page inside the memory map of the data file or the address
  of a page buffer obtained from \<open>malloc\<close>.  The transaction record holds, for itself and its
  ancestors, the list of spilled pages and the dirty list (\<open>mt_levels\<close>, innermost first).
\<close>

section \<open>State\<close>

datatype page_ptr = PMap nat | PBuf nat

text \<open>\<open>md_name\<close> has no data, \<^term>\<open>None\<close>, when the handle is not in use.\<close>

record mdb_dbx =
  md_name :: "byte list option"
  md_cmp :: cmp_func
  md_dcmp :: cmp_func

definition name_bytes :: "mdb_dbx \<Rightarrow> byte list" where
  "name_bytes x = (case md_name x of None \<Rightarrow> [] | Some b \<Rightarrow> b)"

record mdb_cursor =
  mc_dbi :: nat
  mc_snum :: nat
  mc_top :: nat
  mc_flags :: nat
  mc_pg :: "page_ptr option list"
  mc_ki :: "nat list"

text \<open>The reader table in the lock file: \<open>mr_pid\<close> is zero in a free slot.\<close>

record mdb_reader =
  mr_txnid :: nat
  mr_pid :: nat
  mr_tid :: nat

record mdb_txninfo =
  mti_txnid :: nat
  mti_numreaders :: nat
  mti_readers :: "mdb_reader list"

record mdb_env =
  me_flags :: nat
  me_psize :: nat
  me_maxpg :: nat
  me_nodemax :: nat
  me_map :: "byte list"
  me_dbiseqs :: "nat list"
  me_pghead :: "idl option"
  me_pglast :: nat
  me_pgoldest :: nat
  me_dpages :: "nat list"
  me_txns :: "mdb_txninfo option"
  me_mapsize :: nat
  me_maxreaders :: nat
  me_numreaders :: nat
  me_numdbs :: nat
  me_maxdbs :: nat
  me_pid :: nat
  me_dbxs :: "mdb_dbx list"
  me_dbflags :: "nat list"
  me_txkey :: "nat \<Rightarrow> nat option"
  me_live_reader :: bool
  me_free_pgs :: "idl option"
  me_dirty_list :: "page_ptr mdb_id2 list"
  me_txn :: bool

record txn_level =
  mt_spill_pgs :: "mdb_id list option"
  dirty_list :: "page_ptr mdb_id2 list"

record mdb_txn =
  mt_env :: mdb_env
  mt_heap :: "nat \<Rightarrow> page option"
  mt_flags :: nat
  mt_txnid :: nat
  mt_next_pgno :: nat
  mt_levels :: "txn_level list"
  mt_free_pgs :: idl
  mt_loose_pgs :: "page_ptr list"
  mt_loose_count :: nat
  mt_dirty_room :: nat
  mt_dbs :: "mdb_db list"
  mt_dbxs :: "mdb_dbx list"
  mt_dbflags :: "nat list"
  mt_dbiseqs :: "nat list"
  mt_numdbs :: nat
  mt_cursors :: "mdb_cursor list list option"
  mt_reader :: "nat option"
  mt_reset :: bool
  mt_brk :: nat
  mt_oom :: "nat \<Rightarrow> bool"
  mt_junk :: "nat \<Rightarrow> nat \<Rightarrow> nat"

text \<open>
  \<open>mt_cursors\<close> is \<open>NULL\<close> in a read-only transaction; otherwise it lists, for each database, the open cursors other
  than the one that is in use.  The links of \<open>mt_loose_pgs\<close>, \<open>me_dpages\<close> and \<open>mt_cursors\<close>, which the code
  stores in the listed objects, are represented by lists.

  \<open>me_txkey\<close> maps a thread to the slot of the reader table that \<open>pthread_getspecific\<close> returns for it, and
  \<open>mt_reader\<close> is the index of the slot of a read-only transaction.  \<open>me_free_pgs\<close> is \<^term>\<open>None\<close> when the pointer
  is dangling, \<open>me_txn\<close> says whether the write transaction of the process is active, and \<open>mt_reset\<close> whether
  \<open>mt_dbxs\<close> is \<open>NULL\<close>.

  The last three fields are the memory allocator: \<open>mt_brk\<close> counts the requests and is the address of the
  block that the next request returns, \<open>mt_oom\<close> says which requests fail, and \<open>mt_junk\<close> what a new block contains.
\<close>

definition c_alloc :: "mdb_txn \<Rightarrow> 'a::semiring_1 alloc \<times> mdb_txn" where
  "c_alloc t = (if mt_oom t (mt_brk t) then None else Some (\<lambda>i. of_nat (mt_junk t (mt_brk t) i)), t\<lparr>mt_brk := mt_brk t + 1\<rparr>)"

definition MDB_TXN_RDONLY :: nat where "MDB_TXN_RDONLY = 0x01"
definition MDB_WRITEMAP :: nat where "MDB_WRITEMAP = 0x80000"
definition DB_DIRTY :: nat where "DB_DIRTY = 0x01"
definition DB_STALE :: nat where "DB_STALE = 0x02"
definition DB_VALID :: nat where "DB_VALID = 0x08"
definition FREE_DBI :: nat where "FREE_DBI = 0"
definition MAIN_DBI :: nat where "MAIN_DBI = 1"
definition P_INVALID :: nat where "P_INVALID = 2 ^ 64 - 1"

text \<open>\<open>~x\<close> on a 32-bit unsigned integer.\<close>

definition u32_not :: "nat \<Rightarrow> nat" where
  "u32_not x = 2 ^ 32 - 1 - x"

section \<open>Pages in memory\<close>

text \<open>\<open>n\<close> bytes at offset \<open>ofs\<close> of a page pointer; a page of the map is followed by the next one.\<close>

definition mem_bytes :: "mdb_txn \<Rightarrow> page_ptr \<Rightarrow> nat \<Rightarrow> nat \<Rightarrow> byte list option" where
  "mem_bytes t ptr ofs n = (case ptr of
       PMap pg \<Rightarrow> get_bytes (me_map (mt_env t)) (me_psize (mt_env t) * pg + ofs) n
     | PBuf a \<Rightarrow> do { p \<leftarrow> mt_heap t a; get_bytes p ofs n })"

definition page_at :: "mdb_txn \<Rightarrow> page_ptr \<Rightarrow> page option" where
  "page_at t ptr = mem_bytes t ptr 0 (me_psize (mt_env t))"

text \<open>
  Storing bytes at an offset of a page.  The map is writable with \<open>MDB_WRITEMAP\<close> only; otherwise a store into it
  is a fault.
\<close>

definition mem_put :: "mdb_txn \<Rightarrow> page_ptr \<Rightarrow> nat \<Rightarrow> byte list \<Rightarrow> mdb_txn option" where
  "mem_put t ptr ofs b = (case ptr of
       PMap pg \<Rightarrow> if me_flags (mt_env t) AND MDB_WRITEMAP = 0 then None
         else do {
           m \<leftarrow> put_bytes (me_map (mt_env t)) (me_psize (mt_env t) * pg + ofs) b;
           Some (t\<lparr>mt_env := (mt_env t)\<lparr>me_map := m\<rparr>\<rparr>) }
     | PBuf a \<Rightarrow> do {
         p \<leftarrow> mt_heap t a;
         p \<leftarrow> put_bytes p ofs b;
         Some (t\<lparr>mt_heap := (mt_heap t)(a \<mapsto> p)\<rparr>) })"

section \<open>Looking up a page\<close>

text \<open>
  The loop over the transaction and its ancestors.  The result is the pointer that was found with its
  level, or \<open>Inl level\<close> when no level has the page.
\<close>

fun page_get_loop :: "txn_level list \<Rightarrow> nat \<Rightarrow> nat \<Rightarrow> (nat + page_ptr \<times> nat) option" where
  "page_get_loop [] pgno level = Some (Inl level)"
| "page_get_loop (l # ls) pgno level = do {
     spilled \<leftarrow> (case mt_spill_pgs l of
         None \<Rightarrow> Some False
       | Some sl \<Rightarrow> do {
           let pn = push_bit 1 (of_nat pgno :: mdb_id);
           x \<leftarrow> mdb_midl_search sl pn;
           c \<leftarrow> c_read sl 0;
           if x \<le> unat c then do { v \<leftarrow> c_read sl x; Some (v = pn) } else Some False });
     if spilled then Some (Inr (PMap pgno, level))
     else do {
       c \<leftarrow> c_read (dirty_list l) 0;
       hit \<leftarrow> (if mid c \<noteq> 0 then do {
           x \<leftarrow> mdb_mid2l_search (dirty_list l) (of_nat pgno);
           if x \<le> unat (mid c) then do {
             v \<leftarrow> c_read (dirty_list l) x;
             Some (if mid v = of_nat pgno then Some (mptr v) else None) }
           else Some None }
         else Some None);
       (case hit of
          Some p \<Rightarrow> Some (Inr (p, level))
        | None \<Rightarrow> page_get_loop ls pgno (level + 1)) } }"

definition mdb_page_get :: "mdb_txn \<Rightarrow> nat \<Rightarrow> ((rc + page_ptr \<times> nat) \<times> mdb_txn) option" where
  "mdb_page_get t pgno = do {
     found \<leftarrow> (if mt_flags t AND MDB_TXN_RDONLY = 0 \<and> me_flags (mt_env t) AND MDB_WRITEMAP = 0
              then page_get_loop (mt_levels t) pgno 1 else Some (Inl 0));
     (case found of
        Inr (p, level) \<Rightarrow> Some (Inr (p, level), t)
      | Inl _ \<Rightarrow>
          if pgno < mt_next_pgno t then Some (Inr (PMap pgno, 0), t)
          else Some (Inl MDB_PAGE_NOTFOUND, t\<lparr>mt_flags := mt_flags t OR MDB_TXN_ERROR\<rparr>)) }"

text \<open>\<open>mdb_node_read\<close> for the node at offset \<open>nd\<close> of page \<open>mp\<close>; the data is returned by value.\<close>

definition mdb_node_read :: "mdb_txn \<Rightarrow> page \<Rightarrow> nat \<Rightarrow> ((rc + byte list) \<times> mdb_txn) option" where
  "mdb_node_read t mp nd = do {
     fl \<leftarrow> mn_flags mp nd;
     ks \<leftarrow> mn_ksize mp nd;
     dsz \<leftarrow> NODEDSZ mp nd;
     if \<not> F_ISSET fl F_BIGDATA then do {
       b \<leftarrow> get_bytes mp (nd + NODESIZE + ks) dsz;
       Some (Inr b, t) }
     else do {
       pgno \<leftarrow> rd64 mp (nd + NODESIZE + ks);
       (r, t) \<leftarrow> mdb_page_get t pgno;
       (case r of
          Inl rc \<Rightarrow> Some (Inl rc, t)
        | Inr (omp, level) \<Rightarrow> do {
            b \<leftarrow> mem_bytes t omp PAGEHDRSZ dsz;
            Some (Inr b, t) }) } }"

section \<open>Database records\<close>

definition TXN_DBI_EXIST :: "mdb_txn \<Rightarrow> nat \<Rightarrow> bool option" where
  "TXN_DBI_EXIST t dbi =
     (if dbi < mt_numdbs t then do { fl \<leftarrow> c_read (mt_dbflags t) dbi; Some (fl AND DB_VALID \<noteq> 0) } else Some False)"

definition TXN_DBI_CHANGED :: "mdb_txn \<Rightarrow> nat \<Rightarrow> bool option" where
  "TXN_DBI_CHANGED t dbi = do {
     a \<leftarrow> c_read (mt_dbiseqs t) dbi;
     b \<leftarrow> c_read (me_dbiseqs (mt_env t)) dbi;
     Some (a \<noteq> b) }"

text \<open>The 48 bytes of an \<open>MDB_db\<close>.\<close>

definition db_of_bytes :: "byte list \<Rightarrow> mdb_db option" where
  "db_of_bytes b = do {
     pad \<leftarrow> rd32 b 0; fl \<leftarrow> rd16 b 4; depth \<leftarrow> rd16 b 6; br \<leftarrow> rd64 b 8; lf \<leftarrow> rd64 b 16;
     ov \<leftarrow> rd64 b 24; en \<leftarrow> rd64 b 32; root \<leftarrow> rd64 b 40;
     Some \<lparr>md_pad = pad, md_flags = fl, md_depth = depth, md_branch_pages = br, md_leaf_pages = lf,
           md_overflow_pages = ov, md_entries = en, md_root = root\<rparr> }"

definition bytes_of_db :: "mdb_db \<Rightarrow> byte list" where
  "bytes_of_db d = le_bytes 4 (md_pad d) @ le_bytes 2 (md_flags d) @ le_bytes 2 (md_depth d) @
     le_bytes 8 (md_branch_pages d) @ le_bytes 8 (md_leaf_pages d) @ le_bytes 8 (md_overflow_pages d) @
     le_bytes 8 (md_entries d) @ le_bytes 8 (md_root d)"

end
