(* ===== verification/Cursor.thy ===== *)
theory Cursor
  imports Store
begin

text \<open>
  Cursors on databases without sorted duplicates (\<open>mc_xcursor\<close> is \<open>NULL\<close>), from
  \<open>LegacyDatabase/mdb.c\<close>: the page stack, the descent from the root, moving to the first, last, next and previous
  item and to a given key, \<open>mdb_cursor_get\<close> and \<open>mdb_get\<close>.  The legacy database opens its databases
  with \<open>MDB_CREATE\<close> only, so all its cursors are of this kind.  Where the code would use
  \<open>mc_xcursor\<close> the model returns \<^term>\<open>None\<close>, as for every use of a null pointer.

  Keys and data that the code returns through \<open>MDB_val\<close> pointers are returned by value: \<open>wk\<close> and \<open>wd\<close> say
  whether the caller passed a key and a data pointer, and the pair of options in the result holds
  what was stored through them.
\<close>

section \<open>State\<close>

definition CURSOR_STACK :: nat where "CURSOR_STACK = 32"

definition C_INITIALIZED :: nat where "C_INITIALIZED = 0x01"
definition C_EOF :: nat where "C_EOF = 0x02"
definition C_DEL :: nat where "C_DEL = 0x08"
definition C_UNTRACK :: nat where "C_UNTRACK = 0x40"

definition MDB_PS_MODIFY :: nat where "MDB_PS_MODIFY = 1"
definition MDB_PS_ROOTONLY :: nat where "MDB_PS_ROOTONLY = 2"
definition MDB_PS_FIRST :: nat where "MDB_PS_FIRST = 4"
definition MDB_PS_LAST :: nat where "MDB_PS_LAST = 8"
definition MDB_DUPSORT :: nat where "MDB_DUPSORT = 0x04"
definition MDB_DUPFIXED :: nat where "MDB_DUPFIXED = 0x10"
definition PERSISTENT_FLAGS :: nat where "PERSISTENT_FLAGS = 0x7fff"

datatype mdb_cursor_op = MDB_FIRST | MDB_FIRST_DUP | MDB_GET_BOTH | MDB_GET_BOTH_RANGE | MDB_GET_CURRENT
  | MDB_GET_MULTIPLE | MDB_LAST | MDB_LAST_DUP | MDB_NEXT | MDB_NEXT_DUP | MDB_NEXT_MULTIPLE | MDB_NEXT_NODUP
  | MDB_PREV | MDB_PREV_DUP | MDB_PREV_NODUP | MDB_SET | MDB_SET_KEY | MDB_SET_RANGE

type_synonym kv = "byte list option \<times> byte list option"

text \<open>Reading through the cursor: the page and the index at the top, the database records.\<close>

definition pg_at :: "mdb_txn \<Rightarrow> mdb_cursor \<Rightarrow> nat \<Rightarrow> page option" where
  "pg_at t mc i = do { ptr \<leftarrow> c_read (mc_pg mc) i; ptr \<leftarrow> ptr; page_at t ptr }"

definition top_page :: "mdb_txn \<Rightarrow> mdb_cursor \<Rightarrow> page option" where
  "top_page t mc = pg_at t mc (mc_top mc)"

definition top_ki :: "mdb_cursor \<Rightarrow> nat option" where
  "top_ki mc = c_read (mc_ki mc) (mc_top mc)"

definition set_ki :: "mdb_cursor \<Rightarrow> nat \<Rightarrow> mdb_cursor option" where
  "set_ki mc i = do { ki \<leftarrow> c_write (mc_ki mc) (mc_top mc) (u16 i); Some (mc\<lparr>mc_ki := ki\<rparr>) }"

definition mc_db :: "mdb_txn \<Rightarrow> mdb_cursor \<Rightarrow> mdb_db option" where
  "mc_db t mc = c_read (mt_dbs t) (mc_dbi mc)"

definition mc_dbx :: "mdb_txn \<Rightarrow> mdb_cursor \<Rightarrow> mdb_dbx option" where
  "mc_dbx t mc = c_read (mt_dbxs t) (mc_dbi mc)"

text \<open>\<open>mdb_node_search\<close> through the cursor: it stores the index in \<open>mc_ki\<close>.\<close>

definition cursor_node_search ::
  "mdb_txn \<Rightarrow> mdb_cursor \<Rightarrow> byte list \<Rightarrow> (nat option \<times> bool \<times> mdb_cursor) option" where
  "cursor_node_search t mc key = do {
     mp \<leftarrow> top_page t mc;
     dbx \<leftarrow> mc_dbx t mc;
     db \<leftarrow> mc_db t mc;
     (node, i, exact) \<leftarrow> mdb_node_search (md_cmp dbx) (md_pad db) mp key;
     mc \<leftarrow> set_ki mc i;
     Some (node, exact, mc) }"

section \<open>The page stack\<close>

definition mdb_cursor_pop :: "mdb_cursor \<Rightarrow> mdb_cursor" where
  "mdb_cursor_pop mc =
     (if mc_snum mc \<noteq> 0 then
        let mc = mc\<lparr>mc_snum := mc_snum mc - 1\<rparr>
        in if mc_snum mc \<noteq> 0 then mc\<lparr>mc_top := mc_top mc - 1\<rparr> else mc
      else mc)"

definition mdb_cursor_push :: "mdb_txn \<Rightarrow> mdb_cursor \<Rightarrow> page_ptr \<Rightarrow> (rc \<times> mdb_txn \<times> mdb_cursor) option" where
  "mdb_cursor_push t mc mp =
     (if mc_snum mc \<ge> CURSOR_STACK
      then Some (MDB_CURSOR_FULL, t\<lparr>mt_flags := mt_flags t OR MDB_TXN_ERROR\<rparr>, mc)
      else do {
        let top = mc_snum mc;
        pg \<leftarrow> c_write (mc_pg mc) top (Some mp);
        ki \<leftarrow> c_write (mc_ki mc) top 0;
        Some (MDB_SUCCESS, t, mc\<lparr>mc_top := top, mc_snum := top + 1, mc_pg := pg, mc_ki := ki\<rparr>) })"

section \<open>Descending from the root\<close>

text \<open>
  \<open>mdb_page_search_root\<close>: the index of the child to follow, then the loop.  \<open>touch\<close> stands for
  \<open>mdb_page_touch\<close>, which is called only with \<open>MDB_PS_MODIFY\<close>.
\<close>

definition search_root_index ::
  "mdb_txn \<Rightarrow> mdb_cursor \<Rightarrow> page \<Rightarrow> byte list option \<Rightarrow> nat \<Rightarrow> (nat \<times> mdb_cursor) option" where
  "search_root_index t mc mp key flags = do {
     nkeys \<leftarrow> NUMKEYS mp;
     if flags AND (MDB_PS_FIRST OR MDB_PS_LAST) \<noteq> 0 then
       Some (if flags AND MDB_PS_LAST \<noteq> 0 then u16 (nkeys - 1) else 0, mc)
     else do {
       k \<leftarrow> key;
       (node, exact, mc) \<leftarrow> cursor_node_search t mc k;
       if node = None then Some (u16 (nkeys - 1), mc)
       else do {
         i \<leftarrow> top_ki mc;
         if exact then Some (i, mc)
         else if i > 0 then Some (i - 1, mc) else None } } }"

partial_function (option) mdb_page_search_root ::
  "(mdb_txn \<Rightarrow> mdb_cursor \<Rightarrow> (rc \<times> mdb_txn \<times> mdb_cursor) option) \<Rightarrow>
   mdb_txn \<Rightarrow> mdb_cursor \<Rightarrow> byte list option \<Rightarrow> nat \<Rightarrow> (rc \<times> mdb_txn \<times> mdb_cursor) option" where
  "mdb_page_search_root touch t mc key flags = do {
     mp \<leftarrow> top_page t mc;
     fl \<leftarrow> mp_flags mp;
     if IS_BRANCH fl then do {
       nkeys \<leftarrow> NUMKEYS mp;
       if nkeys \<le> 1 then None
       else do {
         (i, mc) \<leftarrow> search_root_index t mc mp key flags;
         if i \<ge> nkeys then None
         else do {
           node \<leftarrow> mp_ptr mp i;
           pgno \<leftarrow> NODEPGNO mp node;
           (r, t) \<leftarrow> mdb_page_get t pgno;
           (case r of
              Inl rc \<Rightarrow> Some (rc, t, mc)
            | Inr pl \<Rightarrow> do {
                mc \<leftarrow> set_ki mc i;
                (rc, t, mc) \<leftarrow> mdb_cursor_push t mc (fst pl);
                if rc \<noteq> MDB_SUCCESS then Some (rc, t, mc)
                else do {
                  (rc, t, mc) \<leftarrow> (if flags AND MDB_PS_MODIFY \<noteq> 0 then touch t mc else Some (MDB_SUCCESS, t, mc));
                  if rc \<noteq> MDB_SUCCESS then Some (rc, t, mc)
                  else mdb_page_search_root touch t mc key flags } }) } } }
     else if \<not> IS_LEAF fl then
       Some (MDB_CORRUPTED, t\<lparr>mt_flags := mt_flags t OR MDB_TXN_ERROR\<rparr>, mc)
     else Some (MDB_SUCCESS, t, mc\<lparr>mc_flags := (mc_flags mc OR C_INITIALIZED) AND u32_not C_EOF\<rparr>) }"

declare mdb_page_search_root.simps [code]

definition mdb_page_search_lowest ::
  "(mdb_txn \<Rightarrow> mdb_cursor \<Rightarrow> (rc \<times> mdb_txn \<times> mdb_cursor) option) \<Rightarrow>
   mdb_txn \<Rightarrow> mdb_cursor \<Rightarrow> (rc \<times> mdb_txn \<times> mdb_cursor) option" where
  "mdb_page_search_lowest touch t mc = do {
     mp \<leftarrow> top_page t mc;
     node \<leftarrow> mp_ptr mp 0;
     pgno \<leftarrow> NODEPGNO mp node;
     (r, t) \<leftarrow> mdb_page_get t pgno;
     (case r of
        Inl rc \<Rightarrow> Some (rc, t, mc)
      | Inr pl \<Rightarrow> do {
          mc \<leftarrow> set_ki mc 0;
          (rc, t, mc) \<leftarrow> mdb_cursor_push t mc (fst pl);
          if rc \<noteq> MDB_SUCCESS then Some (rc, t, mc)
          else mdb_page_search_root touch t mc None MDB_PS_FIRST }) }"

text \<open>
  \<open>mdb_page_search\<close> once the database record is known to be current.  The root page is fetched again
  only when the cursor's first page is not it.
\<close>

definition page_search_current ::
  "(mdb_txn \<Rightarrow> mdb_cursor \<Rightarrow> (rc \<times> mdb_txn \<times> mdb_cursor) option) \<Rightarrow>
   mdb_txn \<Rightarrow> mdb_cursor \<Rightarrow> byte list option \<Rightarrow> nat \<Rightarrow> (rc \<times> mdb_txn \<times> mdb_cursor) option" where
  "page_search_current touch t mc key flags = do {
     db \<leftarrow> mc_db t mc;
     let root = md_root db;
     if root = P_INVALID then Some (MDB_NOTFOUND, t, mc)
     else if root \<le> 1 then None
     else do {
       pg0 \<leftarrow> c_read (mc_pg mc) 0;
       cached \<leftarrow> (case pg0 of
           None \<Rightarrow> Some False
         | Some ptr \<Rightarrow> do { p \<leftarrow> page_at t ptr; n \<leftarrow> mp_pgno p; Some (n = root) });
       (r, t) \<leftarrow> (if cached then Some (Inr pg0, t)
                 else do {
                   (r, t) \<leftarrow> mdb_page_get t root;
                   Some (case r of Inl rc \<Rightarrow> Inl rc | Inr pl \<Rightarrow> Inr (Some (fst pl)), t) });
       (case r of
          Inl rc \<Rightarrow> Some (rc, t, mc)
        | Inr ptr \<Rightarrow> do {
            pg \<leftarrow> c_write (mc_pg mc) 0 ptr;
            let mc = mc\<lparr>mc_pg := pg, mc_snum := 1, mc_top := 0\<rparr>;
            (rc, t, mc) \<leftarrow> (if flags AND MDB_PS_MODIFY \<noteq> 0 then touch t mc else Some (MDB_SUCCESS, t, mc));
            if rc \<noteq> MDB_SUCCESS then Some (rc, t, mc)
            else if flags AND MDB_PS_ROOTONLY \<noteq> 0 then Some (MDB_SUCCESS, t, mc)
            else mdb_page_search_root touch t mc key flags }) } }"

definition cursor_blank :: "nat \<Rightarrow> mdb_cursor" where
  "cursor_blank dbi = \<lparr>mc_dbi = dbi, mc_snum = 0, mc_top = 0, mc_flags = 0,
     mc_pg = replicate CURSOR_STACK None, mc_ki = replicate CURSOR_STACK 0\<rparr>"

text \<open>
  \<open>mdb_page_search\<close> refreshes a stale record from the main database first, with a cursor of its
  own, by calling itself.  The record of the main database is never stale, so the depth
  \<open>n\<close> of the calls is at most two; a stale main database would make the code recurse forever.
\<close>

fun page_search_n ::
  "nat \<Rightarrow> (mdb_txn \<Rightarrow> mdb_cursor \<Rightarrow> (rc \<times> mdb_txn \<times> mdb_cursor) option) \<Rightarrow>
   mdb_txn \<Rightarrow> mdb_cursor \<Rightarrow> byte list option \<Rightarrow> nat \<Rightarrow> (rc \<times> mdb_txn \<times> mdb_cursor) option" where
  "page_search_n 0 touch t mc key flags = None"
| "page_search_n (Suc n) touch t mc key flags =
     (if F_ISSET (mt_flags t) MDB_TXN_ERROR then Some (MDB_BAD_TXN, t, mc)
      else do {
        dbflag \<leftarrow> c_read (mt_dbflags t) (mc_dbi mc);
        if dbflag AND DB_STALE = 0 then page_search_current touch t mc key flags
        else do {
          changed \<leftarrow> TXN_DBI_CHANGED t (mc_dbi mc);
          if changed then Some (MDB_BAD_DBI, t, mc)
          else do {
            dbx \<leftarrow> mc_dbx t mc;
            mainfl \<leftarrow> c_read (mt_dbflags t) MAIN_DBI;
            (rc, t, mc2) \<leftarrow> (if mainfl AND DB_STALE \<noteq> 0
                then page_search_n n touch t (cursor_blank MAIN_DBI) None MDB_PS_ROOTONLY
                else Some (MDB_SUCCESS, t, cursor_blank MAIN_DBI));
            (rc, t, mc2) \<leftarrow> page_search_n n touch t mc2 (Some (name_bytes dbx)) 0;
            if rc \<noteq> MDB_SUCCESS then Some (rc, t, mc)
            else do {
              (leaf, exact, mc2) \<leftarrow> cursor_node_search t mc2 (name_bytes dbx);
              if \<not> exact then Some (MDB_NOTFOUND, t, mc)
              else do {
                leaf \<leftarrow> leaf;
                mp \<leftarrow> top_page t mc2;
                (r, t) \<leftarrow> mdb_node_read t mp leaf;
                (case r of
                   Inl rc \<Rightarrow> Some (rc, t, mc)
                 | Inr data \<Rightarrow> do {
                     newdb \<leftarrow> db_of_bytes data;
                     db \<leftarrow> mc_db t mc;
                     if md_flags db AND PERSISTENT_FLAGS \<noteq> md_flags newdb then Some (MDB_INCOMPATIBLE, t, mc)
                     else do {
                       dbs \<leftarrow> c_write (mt_dbs t) (mc_dbi mc) newdb;
                       dbflags \<leftarrow> c_write (mt_dbflags t) (mc_dbi mc) (dbflag AND (255 - DB_STALE));
                       page_search_current touch (t\<lparr>mt_dbs := dbs, mt_dbflags := dbflags\<rparr>) mc key flags } }) } } } } })"

definition mdb_page_search ::
  "(mdb_txn \<Rightarrow> mdb_cursor \<Rightarrow> (rc \<times> mdb_txn \<times> mdb_cursor) option) \<Rightarrow>
   mdb_txn \<Rightarrow> mdb_cursor \<Rightarrow> byte list option \<Rightarrow> nat \<Rightarrow> (rc \<times> mdb_txn \<times> mdb_cursor) option" where
  "mdb_page_search = page_search_n 2"

text \<open>Lookups never touch pages: the \<open>touch\<close> argument of the read path is never called.\<close>

abbreviation no_touch :: "mdb_txn \<Rightarrow> mdb_cursor \<Rightarrow> (rc \<times> mdb_txn \<times> mdb_cursor) option" where
  "no_touch \<equiv> \<lambda>t mc. None"

definition mdb_cursor_init :: "mdb_txn \<Rightarrow> nat \<Rightarrow> (mdb_txn \<times> mdb_cursor) option" where
  "mdb_cursor_init t dbi = do {
     db \<leftarrow> c_read (mt_dbs t) dbi;
     if md_flags db AND MDB_DUPSORT \<noteq> 0 then None
     else do {
       dbflag \<leftarrow> c_read (mt_dbflags t) dbi;
       if dbflag AND DB_STALE \<noteq> 0 then do {
         (rc, t, mc) \<leftarrow> mdb_page_search no_touch t (cursor_blank dbi) None MDB_PS_ROOTONLY;
         Some (t, mc) }
       else Some (t, cursor_blank dbi) } }"

section \<open>Moving\<close>

lemma snum_pop: "mc_snum (mdb_cursor_pop mc) = mc_snum mc - 1"
  by (simp add: mdb_cursor_pop_def Let_def)

function mdb_cursor_sibling ::
  "mdb_txn \<Rightarrow> mdb_cursor \<Rightarrow> bool \<Rightarrow> (rc \<times> mdb_txn \<times> mdb_cursor) option" where
  "mdb_cursor_sibling t mc move_right =
     (if mc_snum mc < 2 then Some (MDB_NOTFOUND, t, mc)
      else do {
        let mc = mdb_cursor_pop mc;
        ki \<leftarrow> top_ki mc;
        mp \<leftarrow> top_page t mc;
        nkeys \<leftarrow> NUMKEYS mp;
        (rc, t, mc) \<leftarrow> (if (if move_right then ki + 1 \<ge> nkeys else ki = 0) then do {
            (rc, t, mc) \<leftarrow> mdb_cursor_sibling t mc move_right;
            Some (rc, t, if rc \<noteq> MDB_SUCCESS then mc\<lparr>mc_top := mc_top mc + 1, mc_snum := mc_snum mc + 1\<rparr> else mc) }
          else do {
            mc \<leftarrow> set_ki mc (if move_right then ki + 1 else ki - 1);
            Some (MDB_SUCCESS, t, mc) });
        if rc \<noteq> MDB_SUCCESS then Some (rc, t, mc)
        else do {
          mp \<leftarrow> top_page t mc;
          fl \<leftarrow> mp_flags mp;
          if \<not> IS_BRANCH fl then None
          else do {
            ki \<leftarrow> top_ki mc;
            indx \<leftarrow> mp_ptr mp ki;
            pgno \<leftarrow> NODEPGNO mp indx;
            (r, t) \<leftarrow> mdb_page_get t pgno;
            (case r of
               Inl rc \<Rightarrow> Some (rc, t, mc\<lparr>mc_flags := mc_flags mc AND u32_not (C_INITIALIZED OR C_EOF)\<rparr>)
             | Inr pl \<Rightarrow> do {
                 (rc, t, mc) \<leftarrow> mdb_cursor_push t mc (fst pl);
                 if move_right then Some (MDB_SUCCESS, t, mc)
                 else do {
                   mp \<leftarrow> page_at t (fst pl);
                   n \<leftarrow> NUMKEYS mp;
                   mc \<leftarrow> set_ki mc (n + 2 ^ 32 - 1);
                   Some (MDB_SUCCESS, t, mc) } }) } } })"
  by pat_completeness auto
termination
  by (relation "measure (\<lambda>(t, mc, r). mc_snum mc)") (auto simp: snum_pop)

declare mdb_cursor_sibling.simps [simp del]

text \<open>
  The end of all the moves: the key and the data of the record the cursor is on.  On a page with
  fixed-size keys (\<open>P_LEAF2\<close>) only the key is returned, and a null key pointer is not checked for.
  \<open>step\<close> is set for \<open>mdb_cursor_next\<close> and \<open>mdb_cursor_prev\<close>, which check that they are on a leaf and set
  up the sub-cursor of a record with duplicates even when no data is wanted.
\<close>

definition cursor_record ::
  "mdb_txn \<Rightarrow> mdb_cursor \<Rightarrow> bool \<Rightarrow> bool \<Rightarrow> bool \<Rightarrow> (rc \<times> kv \<times> mdb_txn \<times> mdb_cursor) option" where
  "cursor_record t mc step wk wd = do {
     mp \<leftarrow> top_page t mc;
     fl \<leftarrow> mp_flags mp;
     ki \<leftarrow> top_ki mc;
     if IS_LEAF2 fl then
       if \<not> wk then None
       else do {
         db \<leftarrow> mc_db t mc;
         k \<leftarrow> LEAF2KEY mp ki (md_pad db);
         Some (MDB_SUCCESS, (Some k, None), t, mc) }
     else if step \<and> \<not> IS_LEAF fl then None
     else do {
       leaf \<leftarrow> mp_ptr mp ki;
       nf \<leftarrow> mn_flags mp leaf;
       if F_ISSET nf F_DUPDATA \<and> (step \<or> wd) then None
       else do {
         (r, t) \<leftarrow> (if wd then do {
             (r, t) \<leftarrow> mdb_node_read t mp leaf;
             Some (map_sum id Some r, t) }
           else Some (Inr None, t));
         (case r of
            Inl rc \<Rightarrow> Some (rc, (None, None), t, mc)
          | Inr d \<Rightarrow> do {
              k \<leftarrow> (if wk then map_option Some (NODEKEY mp leaf) else Some None);
              Some (MDB_SUCCESS, (k, d), t, mc) }) } } }"

definition mdb_cursor_next ::
  "mdb_txn \<Rightarrow> mdb_cursor \<Rightarrow> bool \<Rightarrow> bool \<Rightarrow> mdb_cursor_op \<Rightarrow> (rc \<times> kv \<times> mdb_txn \<times> mdb_cursor) option" where
  "mdb_cursor_next t mc wk wd op =
     (if mc_flags mc AND C_EOF \<noteq> 0 then Some (MDB_NOTFOUND, (None, None), t, mc)
      else if mc_flags mc AND C_INITIALIZED = 0 then None
      else do {
        mp \<leftarrow> top_page t mc;
        db \<leftarrow> mc_db t mc;
        if md_flags db AND MDB_DUPSORT \<noteq> 0 then None
        else if mc_flags mc AND C_DEL \<noteq> 0 then cursor_record t mc True wk wd
        else do {
          ki \<leftarrow> top_ki mc;
          nkeys \<leftarrow> NUMKEYS mp;
          (rc, t, mc) \<leftarrow> (if ki + 1 \<ge> nkeys then mdb_cursor_sibling t mc True
            else do { mc \<leftarrow> set_ki mc (ki + 1); Some (MDB_SUCCESS, t, mc) });
          if rc \<noteq> MDB_SUCCESS then Some (rc, (None, None), t, mc\<lparr>mc_flags := mc_flags mc OR C_EOF\<rparr>)
          else cursor_record t mc True wk wd } })"

definition mdb_cursor_prev ::
  "mdb_txn \<Rightarrow> mdb_cursor \<Rightarrow> bool \<Rightarrow> bool \<Rightarrow> mdb_cursor_op \<Rightarrow> (rc \<times> kv \<times> mdb_txn \<times> mdb_cursor) option" where
  "mdb_cursor_prev t mc wk wd op =
     (if mc_flags mc AND C_INITIALIZED = 0 then None
      else do {
        db \<leftarrow> mc_db t mc;
        if md_flags db AND MDB_DUPSORT \<noteq> 0 then None
        else do {
          ki \<leftarrow> top_ki mc;
          (rc, t, mc) \<leftarrow> (if ki = 0 then do {
              (rc, t, mc) \<leftarrow> mdb_cursor_sibling t mc False;
              if rc \<noteq> MDB_SUCCESS then Some (rc, t, mc)
              else do {
                mp \<leftarrow> top_page t mc;
                n \<leftarrow> NUMKEYS mp;
                mc \<leftarrow> set_ki mc (n + 2 ^ 32 - 1);
                Some (MDB_SUCCESS, t, mc) } }
            else do { mc \<leftarrow> set_ki mc (ki - 1); Some (MDB_SUCCESS, t, mc) });
          if rc \<noteq> MDB_SUCCESS then Some (rc, (None, None), t, mc)
          else cursor_record t (mc\<lparr>mc_flags := mc_flags mc AND u32_not C_EOF\<rparr>) True wk wd } })"

text \<open>\<open>mdb_cursor_first\<close> and \<open>mdb_cursor_last\<close> search from the root unless the root is the only page.\<close>

definition mdb_cursor_first ::
  "mdb_txn \<Rightarrow> mdb_cursor \<Rightarrow> bool \<Rightarrow> bool \<Rightarrow> (rc \<times> kv \<times> mdb_txn \<times> mdb_cursor) option" where
  "mdb_cursor_first t mc wk wd = do {
     (rc, t, mc) \<leftarrow> (if mc_flags mc AND C_INITIALIZED = 0 \<or> mc_top mc \<noteq> 0
        then mdb_page_search no_touch t mc None MDB_PS_FIRST else Some (MDB_SUCCESS, t, mc));
     if rc \<noteq> MDB_SUCCESS then Some (rc, (None, None), t, mc)
     else do {
       mp \<leftarrow> top_page t mc;
       fl \<leftarrow> mp_flags mp;
       if \<not> IS_LEAF fl then None
       else do {
         let mc = mc\<lparr>mc_flags := (mc_flags mc OR C_INITIALIZED) AND u32_not C_EOF\<rparr>;
         mc \<leftarrow> set_ki mc 0;
         cursor_record t mc False wk wd } } }"

definition mdb_cursor_last ::
  "mdb_txn \<Rightarrow> mdb_cursor \<Rightarrow> bool \<Rightarrow> bool \<Rightarrow> (rc \<times> kv \<times> mdb_txn \<times> mdb_cursor) option" where
  "mdb_cursor_last t mc wk wd = do {
     (rc, t, mc) \<leftarrow> (if mc_flags mc AND C_EOF = 0 then do {
         (rc, t, mc) \<leftarrow> (if mc_flags mc AND C_INITIALIZED = 0 \<or> mc_top mc \<noteq> 0
            then mdb_page_search no_touch t mc None MDB_PS_LAST else Some (MDB_SUCCESS, t, mc));
         if rc \<noteq> MDB_SUCCESS then Some (rc, t, mc)
         else do {
           mp \<leftarrow> top_page t mc;
           fl \<leftarrow> mp_flags mp;
           if IS_LEAF fl then Some (MDB_SUCCESS, t, mc) else None } }
       else Some (MDB_SUCCESS, t, mc));
     if rc \<noteq> MDB_SUCCESS then Some (rc, (None, None), t, mc)
     else do {
       mp \<leftarrow> top_page t mc;
       n \<leftarrow> NUMKEYS mp;
       mc \<leftarrow> set_ki mc (n + 2 ^ 32 - 1);
       cursor_record t (mc\<lparr>mc_flags := mc_flags mc OR C_INITIALIZED OR C_EOF\<rparr>) False wk wd } }"

section \<open>Finding a key\<close>

text \<open>
  \<open>mdb_cursor_set\<close> from the label \<open>set1\<close> on, for a cursor without sub-cursor: \<open>leaf\<close> is the node found,
  \<open>din\<close> the data item passed in (used by the \<open>GET_BOTH\<close> operations only).
\<close>

definition cursor_set1 ::
  "mdb_txn \<Rightarrow> mdb_cursor \<Rightarrow> nat option \<Rightarrow> byte list option \<Rightarrow> bool \<Rightarrow> mdb_cursor_op \<Rightarrow>
   (rc \<times> kv \<times> mdb_txn \<times> mdb_cursor) option" where
  "cursor_set1 t mc leaf din wd op = do {
     let mc = mc\<lparr>mc_flags := (mc_flags mc OR C_INITIALIZED) AND u32_not C_EOF\<rparr>;
     mp \<leftarrow> top_page t mc;
     fl \<leftarrow> mp_flags mp;
     if IS_LEAF2 fl then
       if op = MDB_SET_RANGE \<or> op = MDB_SET_KEY then do {
         db \<leftarrow> mc_db t mc;
         ki \<leftarrow> top_ki mc;
         k \<leftarrow> LEAF2KEY mp ki (md_pad db);
         Some (MDB_SUCCESS, (Some k, None), t, mc) }
       else Some (MDB_SUCCESS, (None, None), t, mc)
     else do {
       leaf \<leftarrow> leaf;
       nf \<leftarrow> mn_flags mp leaf;
       if F_ISSET nf F_DUPDATA then None
       else do {
         (r, t) \<leftarrow> (if \<not> wd then Some (Inr None, t)
           else do {
             (r, t) \<leftarrow> mdb_node_read t mp leaf;
             (case r of
                Inl rc \<Rightarrow> Some (Inl rc, t)
              | Inr d2 \<Rightarrow>
                  if op = MDB_GET_BOTH \<or> op = MDB_GET_BOTH_RANGE then do {
                    dbx \<leftarrow> mc_dbx t mc;
                    d \<leftarrow> din;
                    c \<leftarrow> run_cmp (md_dcmp dbx) d d2;
                    Some (if c = 0 then Inr None
                          else if op = MDB_GET_BOTH \<or> c > 0 then Inl MDB_NOTFOUND
                          else Inr (Some d2), t) }
                  else Some (Inr (Some d2), t)) });
         (case r of
            Inl rc \<Rightarrow> Some (rc, (None, None), t, mc)
          | Inr d \<Rightarrow> do {
              k \<leftarrow> (if op = MDB_SET_RANGE \<or> op = MDB_SET_KEY then map_option Some (NODEKEY mp leaf) else Some None);
              Some (MDB_SUCCESS, (k, d), t, mc) }) } } }"

text \<open>From the label \<open>set2\<close> on; \<open>exactp\<close> says whether the caller passed an \<open>exactp\<close> pointer.\<close>

definition cursor_set2 ::
  "mdb_txn \<Rightarrow> mdb_cursor \<Rightarrow> byte list \<Rightarrow> byte list option \<Rightarrow> bool \<Rightarrow> mdb_cursor_op \<Rightarrow> bool \<Rightarrow>
   (rc \<times> kv \<times> mdb_txn \<times> mdb_cursor) option" where
  "cursor_set2 t mc key din wd op exactp = do {
     (leaf, exact, mc) \<leftarrow> cursor_node_search t mc key;
     if exactp \<and> \<not> exact then Some (MDB_NOTFOUND, (None, None), t, mc)
     else if leaf = None then do {
       (rc, t, mc) \<leftarrow> mdb_cursor_sibling t mc True;
       if rc \<noteq> MDB_SUCCESS then Some (rc, (None, None), t, mc)
       else do {
         mp \<leftarrow> top_page t mc;
         fl \<leftarrow> mp_flags mp;
         if \<not> IS_LEAF fl then None
         else do {
           leaf \<leftarrow> mp_ptr mp 0;
           cursor_set1 t mc (Some leaf) din wd op } } }
     else cursor_set1 t mc leaf din wd op }"

text \<open>The key at index \<open>i\<close> of a page, and its node unless the page has fixed-size keys.\<close>

definition cursor_key_at :: "mdb_txn \<Rightarrow> mdb_cursor \<Rightarrow> page \<Rightarrow> nat \<Rightarrow> (byte list \<times> nat option) option" where
  "cursor_key_at t mc mp i = do {
     fl \<leftarrow> mp_flags mp;
     if fl AND P_LEAF2 \<noteq> 0 then do {
       db \<leftarrow> mc_db t mc;
       k \<leftarrow> LEAF2KEY mp i (md_pad db);
       Some (k, None) }
     else do {
       leaf \<leftarrow> mp_ptr mp i;
       k \<leftarrow> NODEKEY mp leaf;
       Some (k, Some leaf) } }"

text \<open>Does any page of the stack below the top have a right sibling key?\<close>

fun parent_has_more :: "mdb_txn \<Rightarrow> mdb_cursor \<Rightarrow> nat \<Rightarrow> nat \<Rightarrow> bool option" where
  "parent_has_more t mc i 0 = Some False"
| "parent_has_more t mc i (Suc n) = do {
     ki \<leftarrow> c_read (mc_ki mc) i;
     mp \<leftarrow> pg_at t mc i;
     nkeys \<leftarrow> NUMKEYS mp;
     if ki < u32 (nkeys + 2 ^ 32 - 1) then Some True else parent_has_more t mc (i + 1) n }"

definition cursor_set_search ::
  "mdb_txn \<Rightarrow> mdb_cursor \<Rightarrow> byte list \<Rightarrow> byte list option \<Rightarrow> bool \<Rightarrow> mdb_cursor_op \<Rightarrow> bool \<Rightarrow>
   (rc \<times> kv \<times> mdb_txn \<times> mdb_cursor) option" where
  "cursor_set_search t mc key din wd op exactp = do {
     (rc, t, mc) \<leftarrow> mdb_page_search no_touch t mc (Some key) 0;
     if rc \<noteq> MDB_SUCCESS then Some (rc, (None, None), t, mc)
     else do {
       mp \<leftarrow> top_page t mc;
       fl \<leftarrow> mp_flags mp;
       if \<not> IS_LEAF fl then None else cursor_set2 t mc key din wd op exactp } }"

text \<open>The checks for the page the cursor is on, when it is initialised.\<close>

definition cursor_set_here ::
  "mdb_txn \<Rightarrow> mdb_cursor \<Rightarrow> byte list \<Rightarrow> byte list option \<Rightarrow> bool \<Rightarrow> mdb_cursor_op \<Rightarrow> bool \<Rightarrow>
   (rc \<times> kv \<times> mdb_txn \<times> mdb_cursor) option" where
  "cursor_set_here t mc key din wd op exactp = do {
     mp \<leftarrow> top_page t mc;
     nkeys \<leftarrow> NUMKEYS mp;
     if nkeys = 0 then do { mc \<leftarrow> set_ki mc 0; Some (MDB_NOTFOUND, (None, None), t, mc) }
     else do {
       dbx \<leftarrow> mc_dbx t mc;
       (k0, leaf0) \<leftarrow> cursor_key_at t mc mp 0;
       c0 \<leftarrow> run_cmp (md_cmp dbx) key k0;
       if c0 = 0 then do { mc \<leftarrow> set_ki mc 0; cursor_set1 t mc leaf0 din wd op }
       else if c0 > 0 then do {
         (kl, leafl) \<leftarrow> (if nkeys > 1 then cursor_key_at t mc mp (nkeys - 1) else Some (k0, leaf0));
         cl \<leftarrow> (if nkeys > 1 then run_cmp (md_cmp dbx) key kl else Some 1);
         if cl = 0 then do { mc \<leftarrow> set_ki mc (nkeys - 1); cursor_set1 t mc leafl din wd op }
         else if cl < 0 then do {
           ki \<leftarrow> top_ki mc;
           if ki < nkeys then do {
             (kc, leafc) \<leftarrow> cursor_key_at t mc mp ki;
             cc \<leftarrow> run_cmp (md_cmp dbx) key kc;
             if cc = 0 then cursor_set1 t mc leafc din wd op
             else cursor_set2 t mc key din wd op exactp }
           else cursor_set2 t mc key din wd op exactp }
         else do {
           more \<leftarrow> parent_has_more t mc 0 (mc_top mc);
           if \<not> more then do { mc \<leftarrow> set_ki mc nkeys; Some (MDB_NOTFOUND, (None, None), t, mc) }
           else cursor_set_search t mc key din wd op exactp } }
       else if mc_top mc = 0 then do {
         mc \<leftarrow> set_ki mc 0;
         if op = MDB_SET_RANGE \<and> \<not> exactp then cursor_set1 t mc leaf0 din wd op
         else Some (MDB_NOTFOUND, (None, None), t, mc) }
       else cursor_set_search t mc key din wd op exactp } }"

definition mdb_cursor_set ::
  "mdb_txn \<Rightarrow> mdb_cursor \<Rightarrow> byte list \<Rightarrow> byte list option \<Rightarrow> bool \<Rightarrow> mdb_cursor_op \<Rightarrow> bool \<Rightarrow>
   (rc \<times> kv \<times> mdb_txn \<times> mdb_cursor) option" where
  "mdb_cursor_set t mc key din wd op exactp =
     (if length key = 0 then Some (MDB_BAD_VALSIZE, (None, None), t, mc)
      else if mc_flags mc AND C_INITIALIZED \<noteq> 0 then cursor_set_here t mc key din wd op exactp
      else cursor_set_search t mc key din wd op exactp)"

definition mdb_get :: "mdb_txn \<Rightarrow> nat \<Rightarrow> byte list \<Rightarrow> (rc \<times> byte list option \<times> mdb_txn) option" where
  "mdb_get t dbi key = do {
     ex \<leftarrow> TXN_DBI_EXIST t dbi;
     if dbi = FREE_DBI \<or> \<not> ex then Some (EINVAL, None, t)
     else if mt_flags t AND MDB_TXN_ERROR \<noteq> 0 then Some (MDB_BAD_TXN, None, t)
     else do {
       (t, mc) \<leftarrow> mdb_cursor_init t dbi;
       (rc, out, t, mc) \<leftarrow> mdb_cursor_set t mc key None True MDB_SET True;
       Some (rc, snd out, t) } }"

section \<open>The cursor interface\<close>

text \<open>
  \<open>mdb_cursor_get\<close>; \<open>kin\<close> and \<open>din\<close> are the contents of the caller's \<open>MDB_val\<close>s, \<^term>\<open>None\<close> for a null pointer.
\<close>

definition cursor_get_current ::
  "mdb_txn \<Rightarrow> mdb_cursor \<Rightarrow> bool \<Rightarrow> bool \<Rightarrow> (rc \<times> kv \<times> mdb_txn \<times> mdb_cursor) option" where
  "cursor_get_current t mc wk wd =
     (if mc_flags mc AND C_INITIALIZED = 0 then Some (EINVAL, (None, None), t, mc)
      else do {
        mp \<leftarrow> top_page t mc;
        nkeys \<leftarrow> NUMKEYS mp;
        ki \<leftarrow> top_ki mc;
        if nkeys = 0 \<or> ki \<ge> nkeys then do {
          mc \<leftarrow> set_ki mc nkeys;
          Some (MDB_NOTFOUND, (None, None), t, mc) }
        else do {
          fl \<leftarrow> mp_flags mp;
          if IS_LEAF2 fl then
            if \<not> wk then None
            else do {
              db \<leftarrow> mc_db t mc;
              k \<leftarrow> LEAF2KEY mp ki (md_pad db);
              Some (MDB_SUCCESS, (Some k, None), t, mc) }
          else do {
            leaf \<leftarrow> mp_ptr mp ki;
            k \<leftarrow> (if wk then map_option Some (NODEKEY mp leaf) else Some None);
            if \<not> wd then Some (MDB_SUCCESS, (k, None), t, mc)
            else do {
              nf \<leftarrow> mn_flags mp leaf;
              if F_ISSET nf F_DUPDATA then None
              else do {
                (r, t) \<leftarrow> mdb_node_read t mp leaf;
                (case r of
                   Inl rc \<Rightarrow> Some (rc, (k, None), t, mc)
                 | Inr d \<Rightarrow> Some (MDB_SUCCESS, (k, Some d), t, mc)) } } } } })"

definition cursor_get_op ::
  "mdb_txn \<Rightarrow> mdb_cursor \<Rightarrow> byte list option \<Rightarrow> byte list option \<Rightarrow> mdb_cursor_op \<Rightarrow>
   (rc \<times> kv \<times> mdb_txn \<times> mdb_cursor) option" where
  "cursor_get_op t mc kin din op =
     (let wk = (kin \<noteq> None); wd = (din \<noteq> None);
          init = (mc_flags mc AND C_INITIALIZED \<noteq> 0);
          fail = (\<lambda>rc. Some (rc, (None, None), t, mc))
      in case op of
           MDB_GET_CURRENT \<Rightarrow> cursor_get_current t mc wk wd
         | MDB_GET_BOTH \<Rightarrow> fail (if \<not> wd then EINVAL else MDB_INCOMPATIBLE)
         | MDB_GET_BOTH_RANGE \<Rightarrow> fail (if \<not> wd then EINVAL else MDB_INCOMPATIBLE)
         | MDB_SET \<Rightarrow> (case kin of None \<Rightarrow> fail EINVAL | Some k \<Rightarrow> mdb_cursor_set t mc k din wd op True)
         | MDB_SET_KEY \<Rightarrow> (case kin of None \<Rightarrow> fail EINVAL | Some k \<Rightarrow> mdb_cursor_set t mc k din wd op True)
         | MDB_SET_RANGE \<Rightarrow> (case kin of None \<Rightarrow> fail EINVAL | Some k \<Rightarrow> mdb_cursor_set t mc k din wd op False)
         | MDB_GET_MULTIPLE \<Rightarrow>
             if \<not> wd \<or> \<not> init then fail EINVAL
             else do {
               db \<leftarrow> mc_db t mc;
               if md_flags db AND MDB_DUPFIXED = 0 then fail MDB_INCOMPATIBLE else None }
         | MDB_NEXT_MULTIPLE \<Rightarrow>
             if \<not> wd then fail EINVAL
             else do {
               db \<leftarrow> mc_db t mc;
               if md_flags db AND MDB_DUPFIXED = 0 then fail MDB_INCOMPATIBLE else None }
         | MDB_FIRST \<Rightarrow> mdb_cursor_first t mc wk wd
         | MDB_LAST \<Rightarrow> mdb_cursor_last t mc wk wd
         | MDB_FIRST_DUP \<Rightarrow> fail (if \<not> wd \<or> \<not> init then EINVAL else MDB_INCOMPATIBLE)
         | MDB_LAST_DUP \<Rightarrow> fail (if \<not> wd \<or> \<not> init then EINVAL else MDB_INCOMPATIBLE)
         | MDB_NEXT \<Rightarrow> if init then mdb_cursor_next t mc wk wd op else mdb_cursor_first t mc wk wd
         | MDB_NEXT_DUP \<Rightarrow> if init then mdb_cursor_next t mc wk wd op else mdb_cursor_first t mc wk wd
         | MDB_NEXT_NODUP \<Rightarrow> if init then mdb_cursor_next t mc wk wd op else mdb_cursor_first t mc wk wd
         | _ \<Rightarrow>
             if init then mdb_cursor_prev t mc wk wd op
             else do {
               (rc, out, t, mc) \<leftarrow> mdb_cursor_last t mc wk wd;
               if rc \<noteq> MDB_SUCCESS then Some (rc, out, t, mc)
               else do {
                 let mc = mc\<lparr>mc_flags := mc_flags mc OR C_INITIALIZED\<rparr>;
                 ki \<leftarrow> top_ki mc;
                 mc \<leftarrow> set_ki mc (ki + 1);
                 mdb_cursor_prev t mc wk wd op } })"

definition mdb_cursor_get ::
  "mdb_txn \<Rightarrow> mdb_cursor \<Rightarrow> byte list option \<Rightarrow> byte list option \<Rightarrow> mdb_cursor_op \<Rightarrow>
   (rc \<times> kv \<times> mdb_txn \<times> mdb_cursor) option" where
  "mdb_cursor_get t mc kin din op =
     (if mt_flags t AND MDB_TXN_ERROR \<noteq> 0 then Some (MDB_BAD_TXN, (None, None), t, mc)
      else do {
        (rc, out, t, mc) \<leftarrow> cursor_get_op t mc kin din op;
        Some (rc, out, t, if mc_flags mc AND C_DEL \<noteq> 0 then mc\<lparr>mc_flags := mc_flags mc XOR C_DEL\<rparr> else mc) })"

end
