(* ===== verification/Tree.thy ===== *)
theory Tree
  imports Cursor Page_Search
begin

text \<open>
  The B+-tree that the pages of a database form: which records it holds (\<open>entries\<close>), when it is
  well formed (\<open>tree_ok\<close>: uniform depth, branch pages with at least two children, keys in order and
  between the separators above them), and paths from the root into it.
\<close>

section \<open>The tree of pages\<close>

text \<open>The page that a page number stands for in a transaction.\<close>

definition tpage :: "mdb_txn \<Rightarrow> nat \<Rightarrow> page option" where
  "tpage t pg = do { (r, t') \<leftarrow> mdb_page_get t pg; (case r of Inl e \<Rightarrow> None | Inr pl \<Rightarrow> page_at t (fst pl)) }"

definition child :: "page \<Rightarrow> nat \<Rightarrow> nat" where
  "child p i = nd_pgno (page_nodes p ! i)"

fun entries :: "mdb_txn \<Rightarrow> nat \<Rightarrow> nat \<Rightarrow> byte list list" where
  "entries t 0 pg = (case tpage t pg of None \<Rightarrow> [] | Some p \<Rightarrow> page_nodes p)"
| "entries t (Suc d) pg = (case tpage t pg of None \<Rightarrow> []
     | Some p \<Rightarrow> concat (map (\<lambda>i. entries t d (child p i)) [0..<pg_n p]))"

definition klt :: "cmp_func \<Rightarrow> byte list \<Rightarrow> byte list \<Rightarrow> bool" where
  "klt c a b \<longleftrightarrow> the (run_cmp c a b) < 0"

text \<open>Bounds of a subtree: \<^term>\<open>None\<close> is no bound; the lower one is inclusive, the upper one exclusive.\<close>

definition above :: "cmp_func \<Rightarrow> byte list option \<Rightarrow> byte list \<Rightarrow> bool" where
  "above c lo k \<longleftrightarrow> (case lo of None \<Rightarrow> True | Some l \<Rightarrow> \<not> klt c k l)"

definition below :: "cmp_func \<Rightarrow> byte list option \<Rightarrow> byte list \<Rightarrow> bool" where
  "below c hi k \<longleftrightarrow> (case hi of None \<Rightarrow> True | Some h \<Rightarrow> klt c k h)"

definition page_keys :: "page \<Rightarrow> byte list list" where
  "page_keys p = map nd_key (page_nodes p)"

fun tree_ok ::
  "cmp_func \<Rightarrow> (byte list \<Rightarrow> bool) \<Rightarrow> mdb_txn \<Rightarrow> nat \<Rightarrow> nat \<Rightarrow> byte list option \<Rightarrow> byte list option \<Rightarrow> bool" where
  "tree_ok c valid t 0 pg lo hi \<longleftrightarrow> (case tpage t pg of None \<Rightarrow> False | Some p \<Rightarrow>
     page_inv p \<and> IS_LEAF (pg_flags p) \<and> \<not> IS_BRANCH (pg_flags p) \<and> 0 < pg_n p \<and>
     (\<forall>k \<in> set (page_keys p). valid k \<and> above c lo k \<and> below c hi k) \<and> sorted_wrt (klt c) (page_keys p))"
| "tree_ok c valid t (Suc d) pg lo hi \<longleftrightarrow> (case tpage t pg of None \<Rightarrow> False | Some p \<Rightarrow>
     page_inv p \<and> IS_BRANCH (pg_flags p) \<and> \<not> IS_LEAF (pg_flags p) \<and> 1 < pg_n p \<and>
     (\<forall>k \<in> set (drop 1 (page_keys p)). valid k \<and> above c lo k \<and> below c hi k) \<and> sorted_wrt (klt c) (drop 1 (page_keys p)) \<and>
     (\<forall>i < pg_n p. tree_ok c valid t d (child p i)
        (if i = 0 then lo else Some (page_keys p ! i)) (if i + 1 < pg_n p then Some (page_keys p ! (i + 1)) else hi)))"

lemma tree_ok_page:
  assumes "tree_ok c valid t d pg lo hi"
  obtains p where "tpage t pg = Some p" "page_inv p" "0 < pg_n p" "IS_BRANCH (pg_flags p) \<longleftrightarrow> \<not> IS_LEAF (pg_flags p)"
    "IS_LEAF (pg_flags p) \<longleftrightarrow> d = 0"
  using assms by (cases d) (auto split: option.splits)

lemma tpage_get:
  assumes "tpage t pg = Some p"
  obtains ptr lvl where "mdb_page_get t pg = Some (Inr (ptr, lvl), t)" "page_at t ptr = Some p"
proof -
  obtain r t' where r: "mdb_page_get t pg = Some (r, t')"
    using assms by (auto simp: tpage_def split: Option.bind_splits)
  then obtain pl where pl: "r = Inr pl" "page_at t (fst pl) = Some p" using assms by (auto simp: tpage_def split: sum.splits)
  then have "t' = t" using r by (auto simp: mdb_page_get_def split: Option.bind_splits sum.splits if_splits)
  then show ?thesis using that [of "fst pl" "snd pl"] r pl by simp
qed

section \<open>Order\<close>

lemma key_order_laws:
  assumes "cmp_ok c valid"
  shows "valid a \<Longrightarrow> \<not> klt c a a"
    and "valid a \<Longrightarrow> valid b \<Longrightarrow> valid k \<Longrightarrow> klt c a b \<Longrightarrow> klt c b k \<Longrightarrow> klt c a k"
    and "valid a \<Longrightarrow> valid b \<Longrightarrow> a = b \<or> klt c a b \<or> klt c b a"
    and "valid a \<Longrightarrow> valid b \<Longrightarrow> klt c a b \<Longrightarrow> \<not> klt c b a"
proof -
  note ord = assms [unfolded cmp_ok_def, THEN conjunct1]
  have k: "klt c = key_order.kless (run_cmp c)" by (intro ext) (simp add: klt_def key_order.kless_def [OF ord])
  show "valid a \<Longrightarrow> \<not> klt c a a"
    and "valid a \<Longrightarrow> valid b \<Longrightarrow> valid k \<Longrightarrow> klt c a b \<Longrightarrow> klt c b k \<Longrightarrow> klt c a k"
    and "valid a \<Longrightarrow> valid b \<Longrightarrow> a = b \<or> klt c a b \<or> klt c b a"
    and "valid a \<Longrightarrow> valid b \<Longrightarrow> klt c a b \<Longrightarrow> \<not> klt c b a"
    unfolding k using key_order.kless_irrefl [OF ord] key_order.kless_trans [OF ord] key_order.kless_total [OF ord]
      key_order.kless_asym [OF ord] by blast+
qed

lemma klt_le_trans:
  assumes "cmp_ok c valid" "valid a" "valid b" "valid k" "klt c a b" "\<not> klt c k b"
  shows "klt c a k"
  using key_order_laws(2,3) [OF assms(1)] assms(2-) by metis

lemma le_klt_trans:
  assumes "cmp_ok c valid" "valid a" "valid b" "valid k" "\<not> klt c b a" "klt c b k"
  shows "klt c a k"
  using key_order_laws(2,3) [OF assms(1)] assms(2-) by metis

lemma le_le_trans:
  assumes "cmp_ok c valid" "valid a" "valid b" "valid k" "\<not> klt c b a" "\<not> klt c k b"
  shows "\<not> klt c k a"
  using key_order_laws(2,3) [OF assms(1)] assms(2-) by metis

section \<open>The records of a well-formed tree\<close>

lemma sorted_wrt_concat:
  assumes "\<And>i. i < n \<Longrightarrow> sorted_wrt P (f i)"
    and "\<And>i j x y. i < j \<Longrightarrow> j < n \<Longrightarrow> x \<in> set (f i) \<Longrightarrow> y \<in> set (f j) \<Longrightarrow> P x y"
  shows "sorted_wrt P (concat (map f [0..<n]))"
  using assms by (induction n) (auto simp: sorted_wrt_append)

lemma above_trans:
  assumes "cmp_ok c valid" "valid k" "valid l" "pred_option valid lo" "above c lo l" "\<not> klt c k l"
  shows "above c lo k"
proof (cases lo)
  case (Some a)
  then show ?thesis using assms(2-) le_le_trans [OF assms(1), of a l k] by (simp add: above_def)
qed (simp add: above_def)

lemma below_trans:
  assumes "cmp_ok c valid" "valid k" "valid h" "pred_option valid hi" "below c hi h" "klt c k h"
  shows "below c hi k"
proof (cases hi)
  case (Some a)
  then show ?thesis using assms(2-) key_order_laws(2) [OF assms(1), of k h a] by (simp add: below_def)
qed (simp add: below_def)

text \<open>The bounds of the children of a branch page.\<close>

definition lo_of :: "page \<Rightarrow> byte list option \<Rightarrow> nat \<Rightarrow> byte list option" where
  "lo_of p lo i = (if i = 0 then lo else Some (page_keys p ! i))"

definition hi_of :: "page \<Rightarrow> byte list option \<Rightarrow> nat \<Rightarrow> byte list option" where
  "hi_of p hi i = (if i + 1 < pg_n p then Some (page_keys p ! (i + 1)) else hi)"

lemma length_page_keys [simp]: "length (page_keys p) = pg_n p"
  by (simp add: page_keys_def)

lemma tree_ok_branch:
  assumes "tree_ok c valid t (Suc d) pg lo hi" "tpage t pg = Some p"
  shows "page_inv p" "IS_BRANCH (pg_flags p)" "\<not> IS_LEAF (pg_flags p)" "1 < pg_n p"
    "sorted_wrt (klt c) (drop 1 (page_keys p))" "\<forall>k \<in> set (drop 1 (page_keys p)). valid k"
    "i < pg_n p \<Longrightarrow> tree_ok c valid t d (child p i) (lo_of p lo i) (hi_of p hi i)"
    "0 < i \<Longrightarrow> i < pg_n p \<Longrightarrow> valid (page_keys p ! i) \<and> above c lo (page_keys p ! i) \<and> below c hi (page_keys p ! i)"
    "0 < i \<Longrightarrow> i < j \<Longrightarrow> j < pg_n p \<Longrightarrow> klt c (page_keys p ! i) (page_keys p ! j)"
proof -
  have ok: "page_inv p \<and> IS_BRANCH (pg_flags p) \<and> \<not> IS_LEAF (pg_flags p) \<and> 1 < pg_n p \<and>
     (\<forall>k \<in> set (drop 1 (page_keys p)). valid k \<and> above c lo k \<and> below c hi k) \<and> sorted_wrt (klt c) (drop 1 (page_keys p)) \<and>
     (\<forall>i < pg_n p. tree_ok c valid t d (child p i) (lo_of p lo i) (hi_of p hi i))"
    using assms by (simp add: lo_of_def hi_of_def)
  then show "page_inv p" "IS_BRANCH (pg_flags p)" "\<not> IS_LEAF (pg_flags p)" "1 < pg_n p"
    "sorted_wrt (klt c) (drop 1 (page_keys p))" "\<forall>k \<in> set (drop 1 (page_keys p)). valid k"
    "i < pg_n p \<Longrightarrow> tree_ok c valid t d (child p i) (lo_of p lo i) (hi_of p hi i)" by auto
  show "valid (page_keys p ! i) \<and> above c lo (page_keys p ! i) \<and> below c hi (page_keys p ! i)" if "0 < i" "i < pg_n p"
    using ok that unfolding ball_drop_nth by auto
  show "klt c (page_keys p ! i) (page_keys p ! j)" if "0 < i" "i < j" "j < pg_n p"
    using ok that sorted_wrt_nth_less [of "klt c" "drop 1 (page_keys p)" "i - 1" "j - 1"] by auto
qed

lemma entries_nonempty: "tree_ok c valid t d pg lo hi \<Longrightarrow> entries t d pg \<noteq> []"
proof (induction d arbitrary: pg lo hi)
  case 0
  then obtain p where "tpage t pg = Some p" "0 < pg_n p" by (rule tree_ok_page)
  then show ?case using length_page_nodes [of p] by (auto simp del: length_page_nodes)
next
  case (Suc d)
  obtain p where p: "tpage t pg = Some p" using Suc.prems by (rule tree_ok_page)
  note b = tree_ok_branch [OF Suc.prems p]
  have "entries t d (child p 0) \<noteq> []" using Suc.IH [OF b(7) [of 0]] b(4) by simp
  then show ?case using p b(4) by (auto simp: upt_conv_Cons)
qed

lemma bounds_valid:
  assumes "tree_ok c valid t (Suc d) pg lo hi" "tpage t pg = Some p" "i < pg_n p"
    and "pred_option valid lo" "pred_option valid hi"
  shows "pred_option valid (lo_of p lo i)" "pred_option valid (hi_of p hi i)"
  using tree_ok_branch(8) [OF assms(1,2)] assms(3-) by (auto simp: lo_of_def hi_of_def)

lemma entries_keys:
  assumes c: "cmp_ok c valid" and "tree_ok c valid t d pg lo hi" "pred_option valid lo" "pred_option valid hi"
  shows "\<forall>r \<in> set (entries t d pg). valid (nd_key r) \<and> above c lo (nd_key r) \<and> below c hi (nd_key r)"
    and "sorted_wrt (\<lambda>r s. klt c (nd_key r) (nd_key s)) (entries t d pg)"
  using assms(2-)
proof (induction d arbitrary: pg lo hi)
  case 0
  { case 1 then show ?case by (auto simp: page_keys_def split: option.splits) }
  { case 2 then show ?case by (auto simp: page_keys_def sorted_wrt_map split: option.splits) }
next
  case (Suc d)
  have child: "\<forall>r \<in> set (entries t d (child p i)). valid (nd_key r) \<and> above c (lo_of p lo i) (nd_key r) \<and> below c (hi_of p hi i) (nd_key r)"
    "sorted_wrt (\<lambda>r s. klt c (nd_key r) (nd_key s)) (entries t d (child p i))"
    if "tree_ok c valid t (Suc d) pg lo hi" "pred_option valid lo" "pred_option valid hi" "tpage t pg = Some p" "i < pg_n p"
    for pg lo hi p i
    using Suc.IH [OF tree_ok_branch(7) [OF that(1,4,5)] bounds_valid [OF that(1,4,5,2,3)]] by auto
  { case 1
    obtain p where p: "tpage t pg = Some p" using "1"(1) by (rule tree_ok_page)
    note b = tree_ok_branch [OF "1"(1) p]
    show ?case
    proof
      fix r assume "r \<in> set (entries t (Suc d) pg)"
      then obtain i where i: "i < pg_n p" "r \<in> set (entries t d (child p i))" by (auto simp: p)
      then have r: "valid (nd_key r)" "above c (lo_of p lo i) (nd_key r)" "below c (hi_of p hi i) (nd_key r)"
        using child(1) [OF 1 p i(1)] by auto
      have "above c lo (nd_key r)"
        using r i(1) b(8) [of i] above_trans [OF c r(1), of "page_keys p ! i" lo] 1
        by (cases "i = 0") (auto simp: lo_of_def above_def [of c "Some _"])
      moreover have "below c hi (nd_key r)"
        using r i(1) b(8) [of "i + 1"] below_trans [OF c r(1), of "page_keys p ! (i + 1)" hi] 1
        by (cases "i + 1 < pg_n p") (auto simp: hi_of_def below_def [of c "Some _"])
      ultimately show "valid (nd_key r) \<and> above c lo (nd_key r) \<and> below c hi (nd_key r)" using r by simp
    qed }
  { case 2
    obtain p where p: "tpage t pg = Some p" using "2"(1) by (rule tree_ok_page)
    note b = tree_ok_branch [OF "2"(1) p]
    have "klt c (nd_key r) (nd_key s)"
      if ij: "i < j" "j < pg_n p" and r: "r \<in> set (entries t d (child p i))" and s: "s \<in> set (entries t d (child p j))" for i j r s
    proof -
      have rr: "valid (nd_key r)" "klt c (nd_key r) (page_keys p ! (i + 1))"
        using child(1) [OF 2 p, of i] ij r by (auto simp: hi_of_def below_def)
      have ss: "valid (nd_key s)" "\<not> klt c (nd_key s) (page_keys p ! j)"
        using child(1) [OF 2 p, of j] ij s by (auto simp: lo_of_def above_def)
      have v: "valid (page_keys p ! (i + 1))" "valid (page_keys p ! j)" using b(8) ij by auto
      have "klt c (nd_key r) (page_keys p ! j)"
        using rr b(9) [of "i + 1" j] ij key_order_laws(2) [OF c rr(1) v rr(2)] by (cases "i + 1 = j") auto
      then show ?thesis using klt_le_trans [OF c rr(1) v(2) ss(1)] ss(2) by blast
    qed
    then show ?case unfolding entries.simps p option.case using child(2) [OF 2 p]
      by (intro sorted_wrt_concat) auto }
qed

section \<open>Paths\<close>

text \<open>
  \<open>desc t d pg ps ks\<close> follows the indices \<open>ks\<close> from page \<open>pg\<close>, the root of a tree of depth \<open>d\<close>, through
  pages whose addresses are \<open>ps\<close>, and gives the depth and number of the page reached; \<open>base\<close>
  counts the records to the left of that page.
\<close>

fun desc :: "mdb_txn \<Rightarrow> nat \<Rightarrow> nat \<Rightarrow> page_ptr list \<Rightarrow> nat list \<Rightarrow> (nat \<times> nat) option" where
  "desc t d pg [] [] = Some (d, pg)"
| "desc t (Suc d) pg (ptr # ps) (k # ks) = do {
     p \<leftarrow> tpage t pg;
     if page_at t ptr = Some p \<and> k < pg_n p then desc t d (child p k) ps ks else None }"
| "desc t d pg ps ks = None"

fun base :: "mdb_txn \<Rightarrow> nat \<Rightarrow> nat \<Rightarrow> nat list \<Rightarrow> nat" where
  "base t (Suc d) pg (k # ks) = (case tpage t pg of None \<Rightarrow> 0 | Some p \<Rightarrow>
     length (concat (map (\<lambda>i. entries t d (child p i)) [0..<k])) + base t d (child p k) ks)"
| "base t d pg ks = 0"

lemma desc_length: "desc t d pg ps ks = Some (d', pg') \<Longrightarrow> length ps = length ks \<and> d = d' + length ks"
  by (induction t d pg ps ks rule: desc.induct) (auto split: Option.bind_splits if_splits)

lemma desc_snoc:
  assumes "desc t d pg ps ks = Some (Suc d', pg')" "tpage t pg' = Some p" "page_at t ptr = Some p" "k < pg_n p"
  shows "desc t d pg (ps @ [ptr]) (ks @ [k]) = Some (d', child p k)"
    and "base t d pg (ks @ [k]) = base t d pg ks + length (concat (map (\<lambda>i. entries t d' (child p i)) [0..<k]))"
  using assms
  by (induction t d pg ps ks rule: desc.induct) (auto split: Option.bind_splits if_splits)

lemma desc_snocD:
  assumes "desc t d pg (ps @ [ptr]) (ks @ [k]) = Some (d', pg')"
  obtains pg1 p where "desc t d pg ps ks = Some (Suc d', pg1)" "tpage t pg1 = Some p" "page_at t ptr = Some p"
    "k < pg_n p" "pg' = child p k"
proof -
  have "length ps = length ks" using desc_length [OF assms] by simp
  have "\<exists>pg1 p. desc t d pg ps ks = Some (Suc d', pg1) \<and> tpage t pg1 = Some p \<and> page_at t ptr = Some p \<and> k < pg_n p \<and> pg' = child p k"
    using \<open>length ps = length ks\<close> assms
  proof (induction ps ks arbitrary: d pg rule: list_induct2)
    case Nil
    then show ?case by (cases d) (auto split: Option.bind_splits if_splits)
  next
    case (Cons q ps j ks)
    then show ?case by (cases d) (auto split: Option.bind_splits if_splits)
  qed
  then show ?thesis using that by blast
qed

lemma desc_tree_ok:
  assumes "tree_ok c valid t d pg lo hi" "desc t d pg ps ks = Some (d', pg')"
  shows "\<exists>lo' hi'. tree_ok c valid t d' pg' lo' hi'"
  using assms
proof (induction t d pg ps ks arbitrary: lo hi rule: desc.induct)
  case (2 t d pg ptr ps k ks)
  obtain p where p: "tpage t pg = Some p" using "2.prems"(1) by (rule tree_ok_page)
  then have k: "k < pg_n p" "desc t d (child p k) ps ks = Some (d', pg')" "page_at t ptr = Some p"
    using "2.prems"(2) by (auto split: if_splits)
  show ?case by (rule "2.IH" [OF p _ tree_ok_branch(7) [OF "2.prems"(1) p k(1)] k(2)]) (use k in simp)
qed auto

text \<open>The records of the whole tree are those to the left, those of the page reached, and those to the right.\<close>

lemma entries_split:
  assumes "desc t d pg ps ks = Some (d', pg')"
  shows "\<exists>A B. entries t d pg = A @ entries t d' pg' @ B \<and> length A = base t d pg ks"
  using assms
proof (induction t d pg ps ks rule: desc.induct)
  case (1 t d pg)
  then show ?case by (intro exI [of _ "[]"]) (cases d; auto)
next
  case (2 t d pg ptr ps k ks)
  then obtain p where p: "tpage t pg = Some p" "page_at t ptr = Some p" "k < pg_n p"
    "desc t d (child p k) ps ks = Some (d', pg')" by (auto split: Option.bind_splits if_splits)
  obtain A B where AB: "entries t d (child p k) = A @ entries t d' pg' @ B" "length A = base t d (child p k) ks"
    using "2.IH" [OF p(1) _ p(4)] p(2,3) by auto
  from upt_split [OF p(3)] have "entries t (Suc d) pg = concat (map (\<lambda>i. entries t d (child p i)) [0..<k]) @ A @ entries t d' pg' @ B @
      concat (map (\<lambda>i. entries t d (child p i)) [Suc k..<pg_n p])"
    by (simp add: p(1) AB)
  then show ?case
    using AB(2) p(1)
    by (intro exI [of _ "B @ concat (map (\<lambda>i. entries t d (child p i)) [Suc k..<pg_n p])"]
        exI [of _ "concat (map (\<lambda>i. entries t d (child p i)) [0..<k]) @ A"]) auto
qed auto

end
