(* ===== verification/Cursor_Path.thy ===== *)
theory Cursor_Path
  imports Tree
begin

text \<open>
  A cursor as a path into the tree: its stack holds page addresses and indices.  The stack operations
  act on the end of the path; the descent from the root extends it down to a leaf.
\<close>

section \<open>The stack\<close>

definition rep :: "mdb_cursor \<Rightarrow> page_ptr list \<Rightarrow> nat list \<Rightarrow> bool" where
  "rep mc ps ks \<longleftrightarrow> length (mc_pg mc) = 32 \<and> length (mc_ki mc) = 32 \<and> length ps = length ks \<and> ps \<noteq> [] \<and>
     mc_snum mc = length ps \<and> mc_top mc = length ps - 1 \<and>
     take (length ps) (mc_pg mc) = map Some ps \<and> take (length ks) (mc_ki mc) = ks"

text \<open>What the stack operations leave alone.\<close>

definition frame :: "mdb_cursor \<Rightarrow> mdb_cursor \<Rightarrow> bool" where
  "frame mc mc' \<longleftrightarrow> mc_dbi mc' = mc_dbi mc \<and> mc_flags mc' = mc_flags mc"

lemma frame_trans: "frame a b \<Longrightarrow> frame b e \<Longrightarrow> frame a e"
  by (simp add: frame_def)

lemma frame_refl [simp]: "frame a a"
  by (simp add: frame_def)

lemma take_snocD: "take (Suc n) xs = ys @ [y] \<Longrightarrow> length ys = n \<Longrightarrow> n < length xs \<and> xs ! n = y \<and> take n xs = ys"
  by (cases "n < length xs") (auto simp: take_Suc_conv_app_nth)

lemma rep_len: "rep mc ps ks \<Longrightarrow> length ps \<le> 32"
  unfolding rep_def by (metis length_map length_take min.cobounded2 min.commute)

lemma rep_top:
  assumes "rep mc (ps @ [p]) (ks @ [k])"
  shows "top_ki mc = Some k" "top_page t mc = page_at t p" "mc_top mc = length ps"
proof -
  have "length ks = length ps" "mc_top mc = length ps" "length (mc_ki mc) = 32" "length (mc_pg mc) = 32"
    "take (Suc (length ps)) (mc_pg mc) = map Some ps @ [Some p]" "take (Suc (length ps)) (mc_ki mc) = ks @ [k]"
    using assms by (auto simp: rep_def)
  with take_snocD [OF this(5)] take_snocD [OF this(6)]
  show "top_ki mc = Some k" "top_page t mc = page_at t p" "mc_top mc = length ps"
    by (auto simp: top_ki_def top_page_def pg_at_def mem_simps)
qed

lemma rep_set_ki:
  assumes "rep mc (ps @ [p]) (ks @ [k])" "i < 65536"
  shows "\<exists>mc'. set_ki mc i = Some mc' \<and> rep mc' (ps @ [p]) (ks @ [i]) \<and> frame mc mc'"
proof -
  have l: "length ks = length ps" "mc_top mc = length ps" "length (mc_ki mc) = 32"
    "take (Suc (length ps)) (mc_ki mc) = ks @ [k]" using assms by (auto simp: rep_def)
  have l32: "length ps < 32" using rep_len [OF assms(1)] by simp
  have "take (Suc (length ps)) ((mc_ki mc)[length ps := i]) = ks @ [i]"
    using l l32 take_snocD [OF l(4) l(1)] by (simp add: take_Suc_conv_app_nth)
  then show ?thesis using assms l l32 by (simp add: set_ki_def mem_simps rep_def frame_def)
qed

lemma set_ki_same:
  assumes "rep mc (ps @ [p]) (ks @ [k])" "k < 65536" shows "set_ki mc k = Some mc"
proof -
  have "mc_ki mc ! mc_top mc = k" "mc_top mc < length (mc_ki mc)"
    using rep_top(1) [OF assms(1)] by (auto simp: top_ki_def c_read_eq_Some_iff)
  then show ?thesis using assms(2) by (auto simp: set_ki_def mem_simps)
qed

lemma rep_push:
  assumes "rep mc ps ks" "length ps < 32"
  shows "\<exists>mc'. mdb_cursor_push t mc p = Some (MDB_SUCCESS, t, mc') \<and> rep mc' (ps @ [p]) (ks @ [0]) \<and> frame mc mc'"
  using assms by (auto simp: mdb_cursor_push_def CURSOR_STACK_def mem_simps rep_def frame_def take_Suc_conv_app_nth Let_def)

lemma rep_pop:
  assumes "rep mc (ps @ [p]) (ks @ [k])" "ps \<noteq> []"
  shows "rep (mdb_cursor_pop mc) ps ks" "frame mc (mdb_cursor_pop mc)"
    "(mdb_cursor_pop mc)\<lparr>mc_top := mc_top (mdb_cursor_pop mc) + 1, mc_snum := mc_snum (mdb_cursor_pop mc) + 1\<rparr> = mc"
proof -
  have l: "length ks = length ps" "mc_top mc = length ps" "mc_snum mc = Suc (length ps)"
    "take (Suc (length ps)) (mc_pg mc) = map Some ps @ [Some p]" "take (Suc (length ps)) (mc_ki mc) = ks @ [k]"
    using assms by (auto simp: rep_def)
  have pop: "mdb_cursor_pop mc = mc\<lparr>mc_snum := length ps, mc_top := length ps - 1\<rparr>"
    using l assms(2) by (simp add: mdb_cursor_pop_def Let_def)
  show "rep (mdb_cursor_pop mc) ps ks" "frame mc (mdb_cursor_pop mc)"
    using pop assms l take_snocD [OF l(4)] take_snocD [OF l(5)] by (auto simp: rep_def frame_def)
  show "(mdb_cursor_pop mc)\<lparr>mc_top := mc_top (mdb_cursor_pop mc) + 1, mc_snum := mc_snum (mdb_cursor_pop mc) + 1\<rparr> = mc"
    unfolding pop using l assms(2) by (cases ps) simp_all
qed

lemma rep_snoc: "rep mc ps ks \<Longrightarrow> \<exists>qs q js j. ps = qs @ [q] \<and> ks = js @ [j] \<and> length qs = length js"
  by (cases ps rule: rev_cases; cases ks rule: rev_cases) (auto simp: rep_def)

lemma frame_db: "frame mc mc' \<Longrightarrow> mc_db t mc' = mc_db t mc" "frame mc mc' \<Longrightarrow> mc_dbx t mc' = mc_dbx t mc"
  by (simp_all add: frame_def mc_db_def mc_dbx_def)

section \<open>Choosing a child\<close>

lemma page_n_small: "page_inv p \<Longrightarrow> pg_n p < 16384"
  using page_inv_lower [of p] page_inv_bounds [of p] by simp

lemma NODEPGNO_child:
  assumes "page_inv p" "i < pg_n p"
  shows "mp_ptr p i = Some (pg_ptr p i)" "NODEPGNO p (pg_ptr p i) = Some (child p i)"
proof -
  have ok: "node_ok p (pg_ptr p i)" using page_inv_node [OF assms] .
  show "mp_ptr p i = Some (pg_ptr p i)" using page_inv_room [OF assms(1), of i] assms(2) by (intro mp_ptr_eq) auto
  show "NODEPGNO p (pg_ptr p i) = Some (child p i)"
    using node_header_eq(4) [OF node_ok_room [OF ok]] node_at_fields(4) [OF ok] assms(2)
    by (simp add: child_def page_nodes_def)
qed

text \<open>The child to follow: the last one whose separator is not larger than the key.\<close>

definition follows :: "cmp_func \<Rightarrow> page \<Rightarrow> byte list \<Rightarrow> nat \<Rightarrow> bool" where
  "follows c p key i \<longleftrightarrow> i < pg_n p \<and> (0 < i \<longrightarrow> \<not> klt c key (page_keys p ! i)) \<and>
     (i + 1 < pg_n p \<longrightarrow> klt c key (page_keys p ! (i + 1)))"

lemma branch_search_follows:
  assumes c: "cmp_ok c valid" and key: "valid key"
    and ok: "tree_ok c valid t (Suc d) pg lo hi" and p: "tpage t pg = Some p"
    and rep: "rep mc (ps @ [ptr]) (ks @ [k])" and ptr: "page_at t ptr = Some p"
    and db: "mc_dbx t mc = Some dbx" "md_cmp dbx = c" "mc_db t mc = Some db"
  shows "\<exists>i mc'. search_root_index t mc p (Some key) 0 = Some (i, mc') \<and> follows c p key i \<and>
    rep mc' (ps @ [ptr]) (ks @ [mc_ki mc' ! mc_top mc']) \<and> frame mc mc'"
proof -
  note b = tree_ok_branch [OF ok p]
  have fl: "IS_BRANCH (pg_flags p) \<longleftrightarrow> \<not> IS_LEAF (pg_flags p)" using b by simp
  obtain i0 where i0: "mdb_node_search c (md_pad db) p key =
      Some (if i0 < pg_n p then Some (pg_ptr p i0) else None, i0, key \<in> set (drop 1 (page_keys p)))"
    "1 \<le> i0" "i0 \<le> pg_n p" "\<forall>j. 1 \<le> j \<and> j < i0 \<longrightarrow> klt c (page_keys p ! j) key"
    "\<forall>j. i0 \<le> j \<and> j < pg_n p \<longrightarrow> \<not> klt c (page_keys p ! j) key"
    using node_search_place [OF b(1) c key fl, of "md_pad db"] b(3-6)
    by (auto simp: page_keys_def [symmetric] klt_def [symmetric])
  have small: "i0 < 65536" using i0(3) page_n_small [OF b(1)] by simp
  obtain mc' where mc': "set_ki mc i0 = Some mc'" "rep mc' (ps @ [ptr]) (ks @ [i0])" "frame mc mc'"
    using rep_set_ki [OF rep small] by blast
  have search: "cursor_node_search t mc key =
      Some (if i0 < pg_n p then Some (pg_ptr p i0) else None, key \<in> set (drop 1 (page_keys p)), mc')"
    using rep_top(2) [OF rep, of t] ptr db i0(1) mc'(1) by (simp add: cursor_node_search_def)
  have valid: "valid (page_keys p ! j)" if "1 \<le> j" "j < pg_n p" for j using b(8) that by auto
  define i where "i = (if i0 < pg_n p then if key \<in> set (drop 1 (page_keys p)) then i0 else i0 - 1 else pg_n p - 1)"
  have exact: "i0 < pg_n p \<Longrightarrow> key \<in> set (drop 1 (page_keys p)) \<Longrightarrow> page_keys p ! i0 = key"
  proof -
    assume *: "i0 < pg_n p" "key \<in> set (drop 1 (page_keys p))"
    then obtain j0 where "j0 < pg_n p - 1" "page_keys p ! Suc j0 = key"
      unfolding in_set_conv_nth by auto
    then obtain j where j: "1 \<le> j" "j < pg_n p" "page_keys p ! j = key"
      using that [of "Suc j0"] by auto
    have "\<not> j < i0" using i0(4) j key_order_laws(1) [OF c key] by auto
    moreover have "\<not> i0 < j" using b(9) [of i0 j] i0(2,5) * j by auto
    ultimately show ?thesis using j by (metis linorder_neqE_nat)
  qed
  have "search_root_index t mc p (Some key) 0 = Some (i, mc')"
    using b(1,4) search mc'(2) i0(2) page_inv_len [OF b(1)] page_inv_bounds(1) [OF b(1)] page_n_small [OF b(1)]
    by (auto simp: search_root_index_def NUMKEYS_eq i_def rep_top(1))
  moreover have "follows c p key i"
  proof (cases "i0 < pg_n p")
    case True
    show ?thesis
    proof (cases "key \<in> set (drop 1 (page_keys p))")
      case ex: True
      have "klt c key (page_keys p ! (i0 + 1))" if "i0 + 1 < pg_n p"
        using b(9) [of i0 "i0 + 1"] that i0(2) exact [OF True ex] by simp
      then show ?thesis using True ex exact key_order_laws(1) [OF c key] by (simp add: follows_def i_def)
    next
      case ex: False
      have "page_keys p ! i0 \<noteq> key" using ex nth_mem_drop [OF i0(2), of "page_keys p"] True by auto
      then have "klt c key (page_keys p ! i0)"
        using key_order_laws(3) [OF c key valid [OF i0(2) True]] i0(5) True by auto
      moreover have "\<not> klt c key (page_keys p ! (i0 - 1))" if "0 < i0 - 1"
        using i0(4) that True key_order_laws(4) [OF c valid key, of "i0 - 1"] by auto
      ultimately show ?thesis using True ex i0(2) by (simp add: follows_def i_def)
    qed
  next
    case False
    then show ?thesis
      using i0(2-4) b(4) key_order_laws(4) [OF c valid key, of "pg_n p - 1"] by (auto simp: follows_def i_def)
  qed
  moreover have "mc_ki mc' ! mc_top mc' = i0" using rep_top(1) [OF mc'(2)] by (auto simp: top_ki_def c_read_def split: if_splits)
  ultimately show ?thesis using mc' by auto
qed

section \<open>Descending\<close>

text \<open>One step down, for any choice of the index.\<close>

lemma descend_step:
  assumes p: "tpage t pg = Some p" "page_inv p" "IS_BRANCH (pg_flags p)" "1 < pg_n p"
    and rep: "rep mc (ps @ [ptr]) (ks @ [k])" and ptr: "page_at t ptr = Some p" and room: "length ps + 1 < 32"
    and idx: "search_root_index t mc p key flags = Some (i, mc1)" "i < pg_n p" "rep mc1 (ps @ [ptr]) (ks @ [k1])" "frame mc mc1"
    and flags: "flags AND MDB_PS_MODIFY = 0" and sub: "tpage t (child p i) = Some q"
  shows "\<exists>mc2 ptr2. mdb_page_search_root touch t mc key flags = mdb_page_search_root touch t mc2 key flags \<and>
    rep mc2 (ps @ [ptr, ptr2]) (ks @ [i, 0]) \<and> frame mc mc2 \<and> page_at t ptr2 = Some q"
proof -
  obtain ptr2 lvl where get: "mdb_page_get t (child p i) = Some (Inr (ptr2, lvl), t)" "page_at t ptr2 = Some q"
    using tpage_get [OF sub] by blast
  obtain mc2 where mc2: "set_ki mc1 i = Some mc2" "rep mc2 (ps @ [ptr]) (ks @ [i])" "frame mc1 mc2"
    using rep_set_ki [OF idx(3), of i] idx(2) page_n_small [OF p(2)] by auto
  obtain mc3 where mc3: "mdb_cursor_push t mc2 ptr2 = Some (MDB_SUCCESS, t, mc3)"
    "rep mc3 ((ps @ [ptr]) @ [ptr2]) ((ks @ [i]) @ [0])" "frame mc2 mc3"
    using rep_push [OF mc2(2), of t ptr2] room by auto
  have "mdb_page_search_root touch t mc key flags = mdb_page_search_root touch t mc3 key flags"
    using rep_top(2) [OF rep, of t] ptr p idx(1,2) NODEPGNO_child [OF p(2) idx(2)] get(1) mc2(1) mc3(1) flags
      page_inv_len [OF p(2)] page_inv_bounds(1) [OF p(2)]
    by (subst mdb_page_search_root.simps) (simp add: mp_flags_eq NUMKEYS_eq)
  then show ?thesis
    using mc3(2,3) mc2(3) idx(4) get(2) frame_trans by (intro exI [of _ mc3] exI [of _ ptr2]) (auto simp: frame_def)
qed

lemma descend_leaf:
  assumes "rep mc (ps @ [ptr]) (ks @ [k])" "page_at t ptr = Some p" "page_inv p" "IS_LEAF (pg_flags p)" "\<not> IS_BRANCH (pg_flags p)"
  shows "mdb_page_search_root touch t mc key flags =
    Some (MDB_SUCCESS, t, mc\<lparr>mc_flags := (mc_flags mc OR C_INITIALIZED) AND u32_not C_EOF\<rparr>)"
  using assms rep_top(2) [OF assms(1), of t] page_inv_len [OF assms(3)]
  by (subst mdb_page_search_root.simps) (simp add: mp_flags_eq)

text \<open>
  The cursor stands on a leaf of the tree: at the end of path \<open>ps\<close>, \<open>ks\<close> below \<open>root\<close>, on page \<open>p\<close> at
  index \<open>k\<close>.
\<close>

definition on_leaf ::
  "mdb_txn \<Rightarrow> nat \<Rightarrow> nat \<Rightarrow> mdb_cursor \<Rightarrow> nat list \<Rightarrow> nat \<Rightarrow> page \<Rightarrow> bool" where
  "on_leaf t d root mc ks k p \<longleftrightarrow> (\<exists>ps ptr pg. rep mc (ps @ [ptr]) (ks @ [k]) \<and> desc t d root ps ks = Some (0, pg) \<and>
     tpage t pg = Some p \<and> page_at t ptr = Some p)"

text \<open>The records left of a page are smaller than the key, those right of it are larger.\<close>

definition around :: "cmp_func \<Rightarrow> byte list \<Rightarrow> byte list list \<Rightarrow> nat \<Rightarrow> nat \<Rightarrow> bool" where
  "around c key E a n \<longleftrightarrow> (\<forall>r \<in> set (take a E). klt c (nd_key r) key) \<and> (\<forall>r \<in> set (drop (a + n) E). klt c key (nd_key r))"

lemma around_append:
  "around c key (A @ M @ B) (length A) (length M) \<longleftrightarrow>
     (\<forall>r \<in> set A. klt c (nd_key r) key) \<and> (\<forall>r \<in> set B. klt c key (nd_key r))"
  by (simp add: around_def)

lemma entries_children:
  assumes "tpage t pg = Some p" "i < pg_n p"
  shows "entries t (Suc d) pg = concat (map (\<lambda>j. entries t d (child p j)) [0..<i]) @ entries t d (child p i) @
    concat (map (\<lambda>j. entries t d (child p j)) [Suc i..<pg_n p])"
  using upt_split [OF assms(2)] by (simp add: assms(1))

lemma around_child:
  assumes c: "cmp_ok c valid" and key: "valid key"
    and ok: "tree_ok c valid t (Suc d) pg lo hi" "pred_option valid lo" "pred_option valid hi"
    and p: "tpage t pg = Some p" and i: "follows c p key i"
    and path: "desc t d0 root ps ks = Some (Suc d, pg)" "page_at t ptr = Some p"
    and ar: "around c key (entries t d0 root) (base t d0 root ks) (length (entries t (Suc d) pg))"
  shows "around c key (entries t d0 root) (base t d0 root (ks @ [i])) (length (entries t d (child p i)))"
proof -
  let ?L = "concat (map (\<lambda>j. entries t d (child p j)) [0..<i])"
  let ?R = "concat (map (\<lambda>j. entries t d (child p j)) [Suc i..<pg_n p])"
  note b = tree_ok_branch [OF ok(1) p]
  have in_p: "i < pg_n p" using i by (simp add: follows_def)
  obtain A B where AB: "entries t d0 root = A @ entries t (Suc d) pg @ B" "length A = base t d0 root ks"
    using entries_split [OF path(1)] by blast
  note ch = entries_children [OF p in_p, of d]
  have key_of: "valid (nd_key r) \<and> above c (lo_of p lo j) (nd_key r) \<and> below c (hi_of p hi j) (nd_key r)"
    if "j < pg_n p" "r \<in> set (entries t d (child p j))" for j r
    using entries_keys(1) [OF c b(7) [OF that(1)] bounds_valid [OF ok(1) p that(1) ok(2,3)]] that(2) by auto
  have left: "klt c (nd_key r) key" if "j < i" "r \<in> set (entries t d (child p j))" for j r
  proof -
    have r: "valid (nd_key r)" "klt c (nd_key r) (page_keys p ! (j + 1))"
      using key_of [of j r] that in_p by (auto simp: hi_of_def below_def)
    have v: "valid (page_keys p ! (j + 1))" "valid (page_keys p ! i)" using b(8) that in_p by auto
    have "klt c (nd_key r) (page_keys p ! i)"
      using r b(9) [of "j + 1" i] that in_p key_order_laws(2) [OF c r(1) v r(2)] by (cases "j + 1 = i") auto
    then show ?thesis using klt_le_trans [OF c r(1) v(2) key] i that by (auto simp: follows_def)
  qed
  have right: "klt c key (nd_key r)" if "i < j" "j < pg_n p" "r \<in> set (entries t d (child p j))" for j r
  proof -
    have r: "valid (nd_key r)" "\<not> klt c (nd_key r) (page_keys p ! j)"
      using key_of [of j r] that by (auto simp: lo_of_def above_def)
    have v: "valid (page_keys p ! (i + 1))" "valid (page_keys p ! j)" using b(8) that by auto
    have "klt c key (page_keys p ! (i + 1))" using i that by (auto simp: follows_def)
    then have "klt c key (page_keys p ! j)"
      using b(9) [of "i + 1" j] that key_order_laws(2) [OF c key v] by (cases "i + 1 = j") auto
    then show ?thesis using klt_le_trans [OF c key v(2) r(1)] r(2) by blast
  qed
  have E: "entries t d0 root = (A @ ?L) @ entries t d (child p i) @ (?R @ B)" using AB(1) ch by simp
  have bs: "base t d0 root (ks @ [i]) = length (A @ ?L)"
    using desc_snoc(2) [OF path(1) p path(2) in_p] AB(2) by simp
  have "(\<forall>r \<in> set A. klt c (nd_key r) key) \<and> (\<forall>r \<in> set B. klt c key (nd_key r))"
    using ar unfolding AB(1) AB(2) [symmetric] around_append .
  then show ?thesis unfolding E bs around_append using left right by (auto simp: Suc_le_eq)
qed

lemma follows_bounds:
  assumes "follows c p key i" "above c lo key" "below c hi key"
  shows "above c (lo_of p lo i) key" "below c (hi_of p hi i) key"
  using assms by (auto simp: follows_def lo_of_def hi_of_def above_def below_def)

lemma tree_ok_leaf:
  assumes "tree_ok c valid t 0 pg lo hi" "tpage t pg = Some p"
  shows "page_inv p" "IS_LEAF (pg_flags p)" "\<not> IS_BRANCH (pg_flags p)" "0 < pg_n p" "entries t 0 pg = page_nodes p"
    "\<forall>k \<in> set (page_keys p). valid k" "sorted_wrt (klt c) (page_keys p)"
  using assms by auto

declare tree_ok.simps [simp del]

text \<open>The descent for a key ends on the leaf where the key belongs.\<close>

lemma search_root_key:
  assumes c: "cmp_ok c valid" and key: "valid key"
    and db: "mc_dbx t mc = Some dbx" "md_cmp dbx = c" "mc_db t mc = Some db"
    and "tree_ok c valid t d pg lo hi" "pred_option valid lo" "pred_option valid hi"
    and "tpage t pg = Some p" "page_at t ptr = Some p" "rep mc (ps @ [ptr]) (ks @ [k])"
    and "desc t d0 root ps ks = Some (d, pg)" "length ps + d < 32"
    and "around c key (entries t d0 root) (base t d0 root ks) (length (entries t d pg))"
  shows "\<exists>mc' ks' k' p' lo' hi' pg'. mdb_page_search_root touch t mc (Some key) 0 = Some (MDB_SUCCESS, t, mc') \<and>
    on_leaf t d0 root mc' ks' k' p' \<and> tpage t pg' = Some p' \<and> tree_ok c valid t 0 pg' lo' hi' \<and>
    around c key (entries t d0 root) (base t d0 root ks') (pg_n p') \<and>
    mc_dbi mc' = mc_dbi mc \<and> mc_flags mc' = (mc_flags mc OR C_INITIALIZED) AND u32_not C_EOF"
  using assms(3-)
proof (induction d arbitrary: pg lo hi p ptr mc ps ks k)
  case 0
  note b = tree_ok_leaf [OF "0.prems"(4,7)]
  let ?mc = "mc\<lparr>mc_flags := (mc_flags mc OR C_INITIALIZED) AND u32_not C_EOF\<rparr>"
  have "mdb_page_search_root touch t mc (Some key) 0 = Some (MDB_SUCCESS, t, ?mc)"
    using descend_leaf [OF "0.prems"(9,8) b(1-3)] by simp
  moreover have "on_leaf t d0 root ?mc ks k p"
    using "0.prems" unfolding on_leaf_def
    by (intro exI [of _ ps] exI [of _ ptr] exI [of _ pg]) (auto simp: rep_def)
  ultimately show ?case
    using "0.prems" b(5)
    by (intro exI [of _ ?mc] exI [of _ ks] exI [of _ k] exI [of _ p] exI [of _ lo] exI [of _ hi] exI [of _ pg]) auto
next
  case (Suc d)
  note b = tree_ok_branch [OF Suc.prems(4,7)]
  obtain i mc1 where i: "search_root_index t mc p (Some key) 0 = Some (i, mc1)" "follows c p key i"
    "rep mc1 (ps @ [ptr]) (ks @ [mc_ki mc1 ! mc_top mc1])" "frame mc mc1"
    using branch_search_follows [OF c key Suc.prems(4,7,9,8,1-3)] by blast
  have in_p: "i < pg_n p" using i(2) by (simp add: follows_def)
  note ch = b(7) [OF in_p] bounds_valid [OF Suc.prems(4,7) in_p Suc.prems(5,6)]
  obtain q where q: "tpage t (child p i) = Some q" using ch(1) by (rule tree_ok_page)
  obtain mc2 ptr2 where mc2: "mdb_page_search_root touch t mc (Some key) 0 = mdb_page_search_root touch t mc2 (Some key) 0"
    "rep mc2 (ps @ [ptr, ptr2]) (ks @ [i, 0])" "frame mc mc2" "page_at t ptr2 = Some q"
    using descend_step [OF Suc.prems(7) b(1,2,4) Suc.prems(9,8) _ i(1) in_p i(3,4) _ q, of touch] Suc.prems(11) by auto
  have rep2: "rep mc2 ((ps @ [ptr]) @ [ptr2]) ((ks @ [i]) @ [0])" using mc2(2) by simp
  have len: "length (ps @ [ptr]) + d < 32" using Suc.prems(11) by simp
  note fr = frame_db [OF mc2(3), of t]
  note desc' = desc_snoc(1) [OF Suc.prems(10,7,8) in_p]
  note ar = around_child [OF c key Suc.prems(4-7) i(2) Suc.prems(10,8,12)]
  from Suc.IH [OF _ Suc.prems(2) _ ch q mc2(4) rep2 desc' len ar] Suc.prems(1,3) fr mc2(1,3)
  show ?case by (simp add: frame_def)
qed

text \<open>The descent along the left or the right edge ends on the first or the last leaf of the subtree.\<close>

lemma ps_flags: "MDB_PS_FIRST AND (MDB_PS_FIRST OR MDB_PS_LAST) \<noteq> 0" "MDB_PS_LAST AND (MDB_PS_FIRST OR MDB_PS_LAST) \<noteq> 0"
  "MDB_PS_LAST AND MDB_PS_LAST \<noteq> 0" "MDB_PS_FIRST AND MDB_PS_LAST = 0" "MDB_PS_FIRST AND MDB_PS_MODIFY = 0"
  "MDB_PS_LAST AND MDB_PS_MODIFY = 0" "MDB_PS_FIRST AND MDB_PS_ROOTONLY = 0" "MDB_PS_LAST AND MDB_PS_ROOTONLY = 0"
  by (simp_all add: MDB_PS_FIRST_def MDB_PS_LAST_def MDB_PS_MODIFY_def MDB_PS_ROOTONLY_def)

lemma search_root_edge:
  fixes last :: bool
  defines "flags \<equiv> (if last then MDB_PS_LAST else MDB_PS_FIRST)"
  assumes "tree_ok c valid t d pg lo hi"
    and "tpage t pg = Some p" "page_at t ptr = Some p" "rep mc (ps @ [ptr]) (ks @ [k])"
    and "desc t d0 root ps ks = Some (d, pg)" "length ps + d < 32"
  shows "\<exists>mc' ks' k' p' lo' hi' pg'. mdb_page_search_root touch t mc key flags = Some (MDB_SUCCESS, t, mc') \<and>
    on_leaf t d0 root mc' ks' k' p' \<and> tpage t pg' = Some p' \<and> tree_ok c valid t 0 pg' lo' hi' \<and>
    (if last then base t d0 root ks' + pg_n p' = base t d0 root ks + length (entries t d pg)
     else base t d0 root ks' = base t d0 root ks) \<and>
    mc_dbi mc' = mc_dbi mc \<and> mc_flags mc' = (mc_flags mc OR C_INITIALIZED) AND u32_not C_EOF"
  using assms(2-)
proof (induction d arbitrary: pg lo hi p ptr mc ps ks k)
  case 0
  note b = tree_ok_leaf [OF "0.prems"(1,2)]
  let ?mc = "mc\<lparr>mc_flags := (mc_flags mc OR C_INITIALIZED) AND u32_not C_EOF\<rparr>"
  have "mdb_page_search_root touch t mc key flags = Some (MDB_SUCCESS, t, ?mc)"
    using descend_leaf [OF "0.prems"(4,3) b(1-3)] by simp
  moreover have "on_leaf t d0 root ?mc ks k p"
    using "0.prems" unfolding on_leaf_def
    by (intro exI [of _ ps] exI [of _ ptr] exI [of _ pg]) (auto simp: rep_def)
  ultimately show ?case
    using "0.prems" b(5)
    by (intro exI [of _ ?mc] exI [of _ ks] exI [of _ k] exI [of _ p] exI [of _ lo] exI [of _ hi] exI [of _ pg]) auto
next
  case (Suc d)
  note b = tree_ok_branch [OF Suc.prems(1,2)]
  define i where "i = (if last then pg_n p - 1 else 0)"
  have in_p: "i < pg_n p" using b(4) by (simp add: i_def)
  have idx: "search_root_index t mc p key flags = Some (i, mc)"
    using page_inv_len [OF b(1)] page_inv_bounds(1) [OF b(1)] page_n_small [OF b(1)] b(4)
    by (simp add: search_root_index_def NUMKEYS_eq flags_def ps_flags i_def)
  obtain q where q: "tpage t (child p i) = Some q" using b(7) [OF in_p] by (rule tree_ok_page)
  have fl: "flags AND MDB_PS_MODIFY = 0" by (simp add: flags_def ps_flags)
  obtain mc2 ptr2 where mc2: "mdb_page_search_root touch t mc key flags = mdb_page_search_root touch t mc2 key flags"
    "rep mc2 (ps @ [ptr, ptr2]) (ks @ [i, 0])" "frame mc mc2" "page_at t ptr2 = Some q"
    using descend_step [OF Suc.prems(2) b(1,2,4) Suc.prems(4,3) _ idx in_p Suc.prems(4) frame_refl fl q, of touch] Suc.prems(6) by auto
  have rep2: "rep mc2 ((ps @ [ptr]) @ [ptr2]) ((ks @ [i]) @ [0])" using mc2(2) by simp
  have len: "length (ps @ [ptr]) + d < 32" using Suc.prems(6) by simp
  note ds = desc_snoc [OF Suc.prems(5,2,3) in_p]
  have edge: "if last then base t d0 root (ks @ [i]) + length (entries t d (child p i)) = base t d0 root ks + length (entries t (Suc d) pg)
      else base t d0 root (ks @ [i]) = base t d0 root ks"
    using entries_children [OF Suc.prems(2) in_p, of d] ds(2) b(4) by (cases last) (simp_all add: i_def)
  from Suc.IH [OF b(7) [OF in_p] q mc2(4) rep2 ds(1) len] edge mc2(1,3)
  show ?case by (cases last) (simp_all add: frame_def)
qed

section \<open>Siblings\<close>

lemma base_next:
  assumes "desc t d0 root ps ks = Some (Suc d, pg)" "tpage t pg = Some p" "page_at t ptr = Some p" "i + 1 < pg_n p"
  shows "base t d0 root (ks @ [i + 1]) = base t d0 root (ks @ [i]) + length (entries t d (child p i))"
  using desc_snoc(2) [OF assms(1-3), of i] desc_snoc(2) [OF assms(1-3), of "i + 1"] assms(4) by simp

text \<open>The sibling step once the parent's index has been moved.\<close>

definition sibling_child :: "mdb_txn \<Rightarrow> mdb_cursor \<Rightarrow> bool \<Rightarrow> (rc \<times> mdb_txn \<times> mdb_cursor) option" where
  "sibling_child t mc move_right = do {
     mp \<leftarrow> top_page t mc;
     fl \<leftarrow> mp_flags mp;
     if \<not> IS_BRANCH fl then None
     else do {
       ki \<leftarrow> top_ki mc;
       indx \<leftarrow> mp_ptr mp ki;
       pgno \<leftarrow> NODEPGNO mp indx;
       (r, t) \<leftarrow> mdb_page_get t pgno;
       (case r of
          Inl rc \<Rightarrow> Some (rc, t, mc\<lparr>mc_flags := mc_flags mc AND u32_not (C_INITIALIZED OR C_EOF)\<rparr>)
        | Inr pl \<Rightarrow> do {
            (rc, t, mc) \<leftarrow> mdb_cursor_push t mc (fst pl);
            if move_right then Some (MDB_SUCCESS, t, mc)
            else do {
              mp \<leftarrow> page_at t (fst pl);
              n \<leftarrow> NUMKEYS mp;
              mc \<leftarrow> set_ki mc (n + 2 ^ 32 - 1);
              Some (MDB_SUCCESS, t, mc) } }) } }"

lemma sibling_unfold:
  "mdb_cursor_sibling t mc move_right =
     (if mc_snum mc < 2 then Some (MDB_NOTFOUND, t, mc)
      else do {
        let mc = mdb_cursor_pop mc;
        ki \<leftarrow> top_ki mc;
        mp \<leftarrow> top_page t mc;
        nkeys \<leftarrow> NUMKEYS mp;
        (rc, t, mc) \<leftarrow> (if (if move_right then ki + 1 \<ge> nkeys else ki = 0) then do {
            (rc, t, mc) \<leftarrow> mdb_cursor_sibling t mc move_right;
            Some (rc, t, if rc \<noteq> MDB_SUCCESS then mc\<lparr>mc_top := mc_top mc + 1, mc_snum := mc_snum mc + 1\<rparr> else mc) }
          else do {
            mc \<leftarrow> set_ki mc (if move_right then ki + 1 else ki - 1);
            Some (MDB_SUCCESS, t, mc) });
        if rc \<noteq> MDB_SUCCESS then Some (rc, t, mc) else sibling_child t mc move_right })"
  unfolding sibling_child_def by (rule mdb_cursor_sibling.simps)

lemma sibling_child_pushes:
  assumes rep: "rep mc (ps @ [ptr]) (ks @ [k])" "length ps + 1 < 32" and p: "page_at t ptr = Some p" "page_inv p" "IS_BRANCH (pg_flags p)"
    and k: "k < pg_n p" and q: "tpage t (child p k) = Some q" "page_inv q" "0 < pg_n q"
  shows "\<exists>mc' ptr'. sibling_child t mc move_right = Some (MDB_SUCCESS, t, mc') \<and> page_at t ptr' = Some q \<and> frame mc mc' \<and>
    rep mc' ((ps @ [ptr]) @ [ptr']) ((ks @ [k]) @ [if move_right then 0 else pg_n q - 1])"
proof -
  obtain ptr' lvl where get: "mdb_page_get t (child p k) = Some (Inr (ptr', lvl), t)" "page_at t ptr' = Some q"
    using tpage_get [OF q(1)] by blast
  obtain mc1 where mc1: "mdb_cursor_push t mc ptr' = Some (MDB_SUCCESS, t, mc1)"
    "rep mc1 ((ps @ [ptr]) @ [ptr']) ((ks @ [k]) @ [0])" "frame mc mc1"
    using rep_push [OF rep(1), of t ptr'] rep(2) by auto
  have u: "u16 (pg_n q + 4294967296 - 1) = pg_n q - 1" using q(3) page_n_small [OF q(2)] by (intro u16_pred) auto
  obtain mc2 where mc2: "set_ki mc1 (pg_n q - 1) = Some mc2" "rep mc2 ((ps @ [ptr]) @ [ptr']) ((ks @ [k]) @ [pg_n q - 1])" "frame mc1 mc2"
  proof -
    have "pg_n q - 1 < 65536" using page_n_small [OF q(2)] by simp
    from rep_set_ki [OF mc1(2) this] that show ?thesis by blast
  qed
  have set: "set_ki mc1 (pg_n q + 4294967296 - 1) = Some mc2"
    using mc2(1) u page_n_small [OF q(2)] by (simp add: set_ki_def)
  have head: "sibling_child t mc move_right = (if move_right then Some (MDB_SUCCESS, t, mc1)
      else do { mp \<leftarrow> page_at t ptr'; n \<leftarrow> NUMKEYS mp; mc \<leftarrow> set_ki mc1 (n + 2 ^ 32 - 1); Some (MDB_SUCCESS, t, mc) })"
    using rep_top [OF rep(1)] p k NODEPGNO_child [OF p(2) k] get(1) mc1(1) page_inv_len [OF p(2)]
    by (simp add: sibling_child_def mp_flags_eq)
  show ?thesis
  proof (cases move_right)
    case True
    then show ?thesis using head get(2) mc1(2,3) by (intro exI [of _ mc1] exI [of _ ptr']) simp
  next
    case False
    then show ?thesis
      using head get(2) mc2(2,3) mc1(3) set frame_trans [OF mc1(3) mc2(3)] page_inv_len [OF q(2)] page_inv_bounds(1) [OF q(2)]
      by (intro exI [of _ mc2] exI [of _ ptr']) (simp add: NUMKEYS_eq)
  qed
qed

text \<open>A path ends at a well-formed subtree; its records lie inside those of the tree.\<close>

lemma path_end:
  assumes "tree_ok c valid t d0 root lo hi" "desc t d0 root ps ks = Some (d, pg)"
  obtains p lo' hi' where "tree_ok c valid t d pg lo' hi'" "tpage t pg = Some p" "page_inv p" "0 < pg_n p"
    "base t d0 root ks + length (entries t d pg) \<le> length (entries t d0 root)" "entries t d pg \<noteq> []"
proof -
  obtain lo' hi' where ok: "tree_ok c valid t d pg lo' hi'" using desc_tree_ok [OF assms] by blast
  obtain p where "tpage t pg = Some p" "page_inv p" "0 < pg_n p" using ok by (rule tree_ok_page)
  moreover have "base t d0 root ks + length (entries t d pg) \<le> length (entries t d0 root)"
    using entries_split [OF assms(2)] by auto
  ultimately show ?thesis using that ok entries_nonempty [OF ok] by blast
qed

lemma sibling_pop:
  assumes rep: "rep mc ((qs @ [pp]) @ [p0]) ((js @ [j]) @ [k0])" and p1: "page_at t pp = Some p1" "page_inv p1"
  shows "mdb_cursor_sibling t mc move_right = do {
      (rc, t, mc1) \<leftarrow> (if (if move_right then j + 1 \<ge> pg_n p1 else j = 0) then do {
          (rc, t, mc1) \<leftarrow> mdb_cursor_sibling t (mdb_cursor_pop mc) move_right;
          Some (rc, t, if rc \<noteq> MDB_SUCCESS then mc1\<lparr>mc_top := mc_top mc1 + 1, mc_snum := mc_snum mc1 + 1\<rparr> else mc1) }
        else do {
          mc1 \<leftarrow> set_ki (mdb_cursor_pop mc) (if move_right then j + 1 else j - 1);
          Some (MDB_SUCCESS, t, mc1) });
      if rc \<noteq> MDB_SUCCESS then Some (rc, t, mc1) else sibling_child t mc1 move_right }"
proof -
  have r: "rep (mdb_cursor_pop mc) (qs @ [pp]) (js @ [j])" using rep_pop(1) [OF rep] by simp
  have "mc_snum mc \<ge> 2" using rep by (auto simp: rep_def)
  then show ?thesis
    using rep_top [OF r] p1 page_inv_len [OF p1(2)] page_inv_bounds(1) [OF p1(2)]
    by (subst sibling_unfold) (simp add: NUMKEYS_eq Let_def cong: if_cong)
qed

text \<open>Moving the parent's index and pushing the child there.\<close>

lemma sibling_move:
  assumes ok: "tree_ok c valid t d0 root lo hi" and rep: "rep mc (qs @ [pp]) (js @ [j])" "length qs + 1 < 32"
    and path: "desc t d0 root qs js = Some (Suc d, pg1)" "tpage t pg1 = Some p1" "page_at t pp = Some p1" and j': "j' < pg_n p1"
  shows "\<exists>mc1 mc' ptr' q. set_ki mc j' = Some mc1 \<and> sibling_child t mc1 move_right = Some (MDB_SUCCESS, t, mc') \<and>
    rep mc' ((qs @ [pp]) @ [ptr']) ((js @ [j']) @ [if move_right then 0 else pg_n q - 1]) \<and> frame mc mc' \<and>
    desc t d0 root (qs @ [pp]) (js @ [j']) = Some (d, child p1 j') \<and> tpage t (child p1 j') = Some q \<and> page_at t ptr' = Some q"
proof -
  obtain lo' hi' where ok1: "tree_ok c valid t (Suc d) pg1 lo' hi'" using desc_tree_ok [OF ok path(1)] by blast
  note b = tree_ok_branch [OF ok1 path(2)]
  have ds: "desc t d0 root (qs @ [pp]) (js @ [j']) = Some (d, child p1 j')" by (rule desc_snoc(1) [OF path j'])
  obtain q where q: "tpage t (child p1 j') = Some q" "page_inv q" "0 < pg_n q" using path_end [OF ok ds] by metis
  have "j' < 65536" using j' page_n_small [OF b(1)] by simp
  then obtain mc1 where mc1: "set_ki mc j' = Some mc1" "rep mc1 (qs @ [pp]) (js @ [j'])" "frame mc mc1"
    using rep_set_ki [OF rep(1)] by blast
  show ?thesis
    using sibling_child_pushes [OF mc1(2) rep(2) path(3) b(1,2) j' q, of move_right] mc1 ds q(1) frame_trans [OF mc1(3)] by blast
qed

lemma sibling_right:
  assumes ok: "tree_ok c valid t d0 root lo hi" and depth: "d0 < 32"
    and "rep mc (ps @ [p0]) (ks @ [k0])" "desc t d0 root ps ks = Some (d, pg)"
  shows "if base t d0 root ks + length (entries t d pg) < length (entries t d0 root)
    then \<exists>mc' ps' ptr' ks' pg' q. mdb_cursor_sibling t mc True = Some (MDB_SUCCESS, t, mc') \<and>
      rep mc' (ps' @ [ptr']) (ks' @ [0]) \<and> frame mc mc' \<and> desc t d0 root ps' ks' = Some (d, pg') \<and>
      tpage t pg' = Some q \<and> page_at t ptr' = Some q \<and> base t d0 root ks' = base t d0 root ks + length (entries t d pg)
    else mdb_cursor_sibling t mc True = Some (MDB_NOTFOUND, t, mc)"
  using assms(3-)
proof (induction ps arbitrary: mc p0 ks k0 d pg rule: rev_induct)
  case Nil
  then have "ks = []" "d = d0" "pg = root" using desc_length [OF Nil(2)] by auto
  then show ?case using Nil(1) by (subst sibling_unfold) (auto simp: rep_def)
next
  case (snoc pp qs)
  obtain js j where ks: "ks = js @ [j]" using desc_length [OF snoc.prems(2)] by (cases ks rule: rev_cases) auto
  obtain pg1 p1 where path: "desc t d0 root qs js = Some (Suc d, pg1)" "tpage t pg1 = Some p1" "page_at t pp = Some p1"
    and j: "j < pg_n p1" "pg = child p1 j"
    using desc_snocD [OF snoc.prems(2) [unfolded ks]] by metis
  have inv: "page_inv p1" using path_end [OF ok path(1)] path(2) by (metis option.inject)
  have repm: "rep mc ((qs @ [pp]) @ [p0]) ((js @ [j]) @ [k0])" using snoc.prems(1) ks by simp
  note pop = rep_pop [OF repm, simplified]
  have room: "length qs + 1 < 32" using desc_length [OF path(1)] depth by simp
  note step = sibling_pop [OF repm path(3) inv, of True]
  show ?case
  proof (cases "j + 1 < pg_n p1")
    case True
    from sibling_move [OF ok pop(1) room path True, of True]
    obtain mc1 mc' ptr' q where m: "set_ki (mdb_cursor_pop mc) (j + 1) = Some mc1" "sibling_child t mc1 True = Some (MDB_SUCCESS, t, mc')"
      "rep mc' ((qs @ [pp]) @ [ptr']) ((js @ [j + 1]) @ [0])" "frame (mdb_cursor_pop mc) mc'"
      "desc t d0 root (qs @ [pp]) (js @ [j + 1]) = Some (d, child p1 (j + 1))" "tpage t (child p1 (j + 1)) = Some q" "page_at t ptr' = Some q"
      by auto
    have "mdb_cursor_sibling t mc True = Some (MDB_SUCCESS, t, mc')" using step True m(1,2) by simp
    moreover have bs: "base t d0 root (js @ [j + 1]) = base t d0 root ks + length (entries t d pg)"
      using base_next [OF path True] by (simp add: ks j)
    moreover have "base t d0 root ks + length (entries t d pg) < length (entries t d0 root)"
      using path_end [OF ok m(5)] bs by (metis add_lessD1 length_greater_0_conv less_add_same_cancel1 order_less_le_trans)
    ultimately show ?thesis
      using m(3,5-7) frame_trans [OF pop(2) m(4)] by (simp only: if_True) blast
  next
    case False
    then have jn: "j = pg_n p1 - 1" using j(1) by simp
    have tot: "base t d0 root ks + length (entries t d pg) = base t d0 root js + length (entries t (Suc d) pg1)"
      using entries_children [OF path(2) j(1), of d] desc_snoc(2) [OF path j(1)] jn by (simp add: ks j(2))
    note ih = snoc.IH [OF pop(1) path(1), folded tot]
    show ?thesis
    proof (cases "base t d0 root ks + length (entries t d pg) < length (entries t d0 root)")
      case True
      then obtain mc1 ps' ptr' ks' pg' q where m: "mdb_cursor_sibling t (mdb_cursor_pop mc) True = Some (MDB_SUCCESS, t, mc1)"
        "rep mc1 (ps' @ [ptr']) (ks' @ [0])" "frame (mdb_cursor_pop mc) mc1" "desc t d0 root ps' ks' = Some (Suc d, pg')"
        "tpage t pg' = Some q" "page_at t ptr' = Some q" "base t d0 root ks' = base t d0 root ks + length (entries t d pg)"
        using ih unfolding if_P [OF True] by blast
      have room': "length ps' + 1 < 32" using desc_length [OF m(4)] depth by simp
      have q0: "0 < pg_n q" using path_end [OF ok m(4)] m(5) by (metis option.inject)
      from sibling_move [OF ok m(2) room' m(4-6) q0, of True]
      obtain mc2 mc' ptr2 q2 where n: "set_ki mc1 0 = Some mc2" "sibling_child t mc2 True = Some (MDB_SUCCESS, t, mc')"
        "rep mc' ((ps' @ [ptr']) @ [ptr2]) ((ks' @ [0]) @ [0])" "frame mc1 mc'"
        "desc t d0 root (ps' @ [ptr']) (ks' @ [0]) = Some (d, child q 0)" "tpage t (child q 0) = Some q2" "page_at t ptr2 = Some q2"
        by auto
      have "mc2 = mc1" using n(1) set_ki_same [OF m(2)] by simp
      then have "mdb_cursor_sibling t mc True = Some (MDB_SUCCESS, t, mc')" using step False m(1) n(2) by simp
      moreover have "base t d0 root (ks' @ [0]) = base t d0 root ks + length (entries t d pg)"
        using desc_snoc(2) [OF m(4-6) q0] m(7) by simp
      ultimately show ?thesis
        unfolding if_P [OF True] using n(3,5-7) frame_trans [OF pop(2) frame_trans [OF m(3) n(4)]] by blast
    next
      case no: False
      then show ?thesis using ih step False pop(3) by simp
    qed
  qed
qed

lemma sibling_left:
  assumes ok: "tree_ok c valid t d0 root lo hi" and depth: "d0 < 32"
    and "rep mc (ps @ [p0]) (ks @ [k0])" "desc t d0 root ps ks = Some (d, pg)"
  shows "if base t d0 root ks > 0
    then \<exists>mc' ps' ptr' ks' pg' q. mdb_cursor_sibling t mc False = Some (MDB_SUCCESS, t, mc') \<and>
      rep mc' (ps' @ [ptr']) (ks' @ [pg_n q - 1]) \<and> frame mc mc' \<and> desc t d0 root ps' ks' = Some (d, pg') \<and>
      tpage t pg' = Some q \<and> page_at t ptr' = Some q \<and> base t d0 root ks' + length (entries t d pg') = base t d0 root ks
    else mdb_cursor_sibling t mc False = Some (MDB_NOTFOUND, t, mc)"
  using assms(3-)
proof (induction ps arbitrary: mc p0 ks k0 d pg rule: rev_induct)
  case Nil
  then have "ks = []" using desc_length [OF Nil(2)] by auto
  then show ?case using Nil(1) by (subst sibling_unfold) (auto simp: rep_def)
next
  case (snoc pp qs)
  obtain js j where ks: "ks = js @ [j]" using desc_length [OF snoc.prems(2)] by (cases ks rule: rev_cases) auto
  obtain pg1 p1 where path: "desc t d0 root qs js = Some (Suc d, pg1)" "tpage t pg1 = Some p1" "page_at t pp = Some p1"
    and j: "j < pg_n p1" "pg = child p1 j"
    using desc_snocD [OF snoc.prems(2) [unfolded ks]] by metis
  have inv: "page_inv p1" using path_end [OF ok path(1)] path(2) by (metis option.inject)
  have repm: "rep mc ((qs @ [pp]) @ [p0]) ((js @ [j]) @ [k0])" using snoc.prems(1) ks by simp
  note pop = rep_pop [OF repm, simplified]
  have room: "length qs + 1 < 32" using desc_length [OF path(1)] depth by simp
  note step = sibling_pop [OF repm path(3) inv, of False]
  show ?case
  proof (cases "j = 0")
    case False
    then have j1: "j - 1 < pg_n p1" "j - 1 + 1 < pg_n p1" using j by auto
    from sibling_move [OF ok pop(1) room path j1(1), of False]
    obtain mc1 mc' ptr' q where m: "set_ki (mdb_cursor_pop mc) (j - 1) = Some mc1" "sibling_child t mc1 False = Some (MDB_SUCCESS, t, mc')"
      "rep mc' ((qs @ [pp]) @ [ptr']) ((js @ [j - 1]) @ [pg_n q - 1])" "frame (mdb_cursor_pop mc) mc'"
      "desc t d0 root (qs @ [pp]) (js @ [j - 1]) = Some (d, child p1 (j - 1))" "tpage t (child p1 (j - 1)) = Some q" "page_at t ptr' = Some q"
      by auto
    have sib: "mdb_cursor_sibling t mc False = Some (MDB_SUCCESS, t, mc')" using step False m(1,2) by simp
    have bs: "base t d0 root (js @ [j - 1]) + length (entries t d (child p1 (j - 1))) = base t d0 root ks"
      using base_next [OF path j1(2)] False by (simp add: ks)
    have pos: "base t d0 root ks > 0" using path_end [OF ok m(5)] bs by (metis add_gr_0 length_greater_0_conv)
    show ?thesis
      unfolding if_P [OF pos] using sib m(3,5-7) bs frame_trans [OF pop(2) m(4)] by blast
  next
    case True
    have tot: "base t d0 root ks = base t d0 root js" using desc_snoc(2) [OF path j(1)] True by (simp add: ks)
    note ih = snoc.IH [OF pop(1) path(1), folded tot]
    show ?thesis
    proof (cases "base t d0 root ks > 0")
      case pos: True
      then obtain mc1 ps' ptr' ks' pg' q where m: "mdb_cursor_sibling t (mdb_cursor_pop mc) False = Some (MDB_SUCCESS, t, mc1)"
        "rep mc1 (ps' @ [ptr']) (ks' @ [pg_n q - 1])" "frame (mdb_cursor_pop mc) mc1" "desc t d0 root ps' ks' = Some (Suc d, pg')"
        "tpage t pg' = Some q" "page_at t ptr' = Some q" "base t d0 root ks' + length (entries t (Suc d) pg') = base t d0 root ks"
        using ih unfolding if_P [OF pos] by blast
      have room': "length ps' + 1 < 32" using desc_length [OF m(4)] depth by simp
      have q0: "0 < pg_n q" "page_inv q" using path_end [OF ok m(4)] m(5) by (metis option.inject)+
      then have last: "pg_n q - 1 < pg_n q" by simp
      from sibling_move [OF ok m(2) room' m(4-6) last, of False]
      obtain mc2 mc' ptr2 q2 where n: "set_ki mc1 (pg_n q - 1) = Some mc2" "sibling_child t mc2 False = Some (MDB_SUCCESS, t, mc')"
        "rep mc' ((ps' @ [ptr']) @ [ptr2]) ((ks' @ [pg_n q - 1]) @ [pg_n q2 - 1])" "frame mc1 mc'"
        "desc t d0 root (ps' @ [ptr']) (ks' @ [pg_n q - 1]) = Some (d, child q (pg_n q - 1))"
        "tpage t (child q (pg_n q - 1)) = Some q2" "page_at t ptr2 = Some q2"
        by auto
      have "mc2 = mc1" using n(1) set_ki_same [OF m(2)] page_n_small [OF q0(2)] by simp
      then have sib: "mdb_cursor_sibling t mc False = Some (MDB_SUCCESS, t, mc')" using step True m(1) n(2) by simp
      have "base t d0 root (ks' @ [pg_n q - 1]) + length (entries t d (child q (pg_n q - 1))) = base t d0 root ks"
        using entries_children [OF m(5) last, of d] desc_snoc(2) [OF m(4-6) last] m(7) q0(1) by simp
      then show ?thesis
        unfolding if_P [OF pos] using sib n(3,5-7) frame_trans [OF pop(2) frame_trans [OF m(3) n(4)]] by blast
    next
      case no: False
      then show ?thesis using ih step True pop(3) by simp
    qed
  qed
qed

end
