(* ===== verification/Cursor_Spec.thy ===== *)
theory Cursor_Spec
  imports Cursor_Path
begin

text \<open>
  What cursors do, in terms of the ordered list of records of the database: \<open>mdb_get\<close> is the
  lookup in the map of the records, and the moves of a cursor are moves along the list.
\<close>

section \<open>Cursor flags\<close>

named_theorems flag_simps \<open>tests and updates of the cursor's flags, by bit\<close>

lemma and_exp: "(x::nat) AND 2 ^ k = (if bit x k then 2 ^ k else 0)"
  by (rule bit_eqI) (auto simp: bit_simps)

lemma and_flag: "(n AND 1 = (0::nat)) \<longleftrightarrow> \<not> bit n 0" "(n AND 2 = (0::nat)) \<longleftrightarrow> \<not> bit n 1" "(n AND 8 = (0::nat)) \<longleftrightarrow> \<not> bit n 3"
proof -
  have *: "(n AND 2 ^ k = 0) \<longleftrightarrow> \<not> bit n k" for k by (simp add: and_exp_eq_0_iff_not_bit)
  show "(n AND 1 = (0::nat)) \<longleftrightarrow> \<not> bit n 0" using * [of 0] by simp
  show "(n AND 2 = (0::nat)) \<longleftrightarrow> \<not> bit n 1" using * [of 1] by simp
  show "(n AND 8 = (0::nat)) \<longleftrightarrow> \<not> bit n 3" using * [of 3] by simp
qed

lemma flag_tests [flag_simps]:
  "(f AND C_INITIALIZED = 0) \<longleftrightarrow> \<not> bit f 0" "(f AND C_EOF = 0) \<longleftrightarrow> \<not> bit f 1" "(f AND C_DEL = 0) \<longleftrightarrow> \<not> bit f 3"
  unfolding C_INITIALIZED_def C_EOF_def C_DEL_def by (rule and_flag)+

lemma flag_updates [flag_simps]:
  "bit (f OR C_INITIALIZED) 0" "bit (f OR C_INITIALIZED) 1 = bit f 1" "bit (f OR C_INITIALIZED) 3 = bit f 3"
  "bit (f OR C_EOF) 0 = bit f 0" "bit (f OR C_EOF) 1" "bit (f OR C_EOF) 3 = bit f 3"
  "bit (f AND u32_not C_EOF) 0 = bit f 0" "\<not> bit (f AND u32_not C_EOF) 1" "bit (f AND u32_not C_EOF) 3 = bit f 3"
  by (simp_all add: C_INITIALIZED_def C_EOF_def u32_not_def bit_simps)

lemmas flag_updates_Suc [flag_simps] = flag_updates [unfolded One_nat_def]

section \<open>The records of a database\<close>

text \<open>The data of a record: stored after the key, or on the overflow pages whose number is stored there.\<close>

definition record_data :: "mdb_txn \<Rightarrow> byte list \<Rightarrow> byte list option" where
  "record_data t r =
     (if even (nd_flags r) then Some (slice r (8 + nd_ksize r) (nd_dsize r))
      else do {
        (res, t') \<leftarrow> mdb_page_get t (le_nat (slice r (8 + nd_ksize r) 8));
        (case res of Inl e \<Rightarrow> None | Inr pl \<Rightarrow> mem_bytes t (fst pl) 16 (nd_dsize r)) })"

text \<open>
  A database that can be read: its handle and record are current, it has no sorted duplicates, its tree is
  empty or a well-formed tree of depth \<open>d\<close>, and the overflow pages of its records exist.
\<close>

definition db_entries :: "mdb_txn \<Rightarrow> nat \<Rightarrow> nat \<Rightarrow> byte list list" where
  "db_entries t dbi d =
     (if md_root (mt_dbs t ! dbi) = P_INVALID then [] else entries t d (md_root (mt_dbs t ! dbi)))"

definition record_ok :: "mdb_txn \<Rightarrow> byte list \<Rightarrow> bool" where
  "record_ok t r \<longleftrightarrow> \<not> F_ISSET (nd_flags r) F_DUPDATA \<and> record_data t r \<noteq> None"

definition db_ok :: "(byte list \<Rightarrow> bool) \<Rightarrow> mdb_txn \<Rightarrow> nat \<Rightarrow> nat \<Rightarrow> bool" where
  "db_ok valid t dbi d \<longleftrightarrow>
     dbi < length (mt_dbs t) \<and> dbi < length (mt_dbxs t) \<and> dbi < length (mt_dbflags t) \<and>
     mt_flags t AND MDB_TXN_ERROR = 0 \<and> (mt_dbflags t ! dbi) AND DB_STALE = 0 \<and>
     md_flags (mt_dbs t ! dbi) AND MDB_DUPSORT = 0 \<and> cmp_ok (md_cmp (mt_dbxs t ! dbi)) valid \<and> d < 32 \<and>
     (md_root (mt_dbs t ! dbi) \<noteq> P_INVALID \<longrightarrow>
        1 < md_root (mt_dbs t ! dbi) \<and> tree_ok (md_cmp (mt_dbxs t ! dbi)) valid t d (md_root (mt_dbs t ! dbi)) None None) \<and>
     (\<forall>r \<in> set (db_entries t dbi d). record_ok t r)"

lemma node_read_record:
  assumes p: "page_inv p" "IS_LEAF (pg_flags p)" and i: "i < pg_n p" and r: "record_data t (page_nodes p ! i) = Some b"
  shows "mdb_node_read t p (pg_ptr p i) = Some (Inr b, t)"
proof -
  let ?o = "pg_ptr p i" and ?r = "page_nodes p ! i"
  have ok: "node_ok p ?o" using page_inv_node [OF p(1) i] .
  have raw: "?r = node_at p ?o" using i by (simp add: page_nodes_def)
  note f = node_at_fields [OF ok, folded raw]
  note h = node_header_eq [OF node_ok_room [OF ok]]
  let ?d = "drop ?o p"
  have len: "?o + 8 + nd_ksize ?d + nd_dlen (pg_flags p) ?d \<le> ?o + nd_len (pg_flags p) ?d"
    using nd_len_fields [of ?d "pg_flags p"] by simp
  then have fit: "?o + 8 + nd_ksize ?d + nd_dlen (pg_flags p) ?d \<le> length p" using ok by (simp add: node_ok_def)
  have sl: "slice ?r (8 + nd_ksize ?r) n = slice p (?o + 8 + nd_ksize ?d) n" if "n \<le> nd_dlen (pg_flags p) ?d" for n
    using that len ok unfolding raw node_at_fields(1) [OF ok] unfolding node_at_def
    by (subst slice_slice) (auto simp: node_ok_def add.assoc)
  show ?thesis
  proof (cases "even (nd_flags ?r)")
    case True
    then have dl: "nd_dlen (pg_flags p) ?d = nd_dsize ?d"
      using p(2) f(2) by (simp add: nd_dlen_def F_ISSET_def F_BIGDATA_def and_one_eq odd_iff_mod_2_eq_one)
    then have "b = slice p (?o + 8 + nd_ksize ?d) (nd_dsize ?d)"
      using r True sl [of "nd_dsize ?d"] f(3) by (simp add: record_data_def)
    then show ?thesis
      using True f(2) h fit dl
      by (simp add: mdb_node_read_def F_ISSET_def F_BIGDATA_def and_one_eq odd_iff_mod_2_eq_one NODESIZE_def byte_simps)
  next
    case False
    then have dl: "nd_dlen (pg_flags p) ?d = 8"
      using p(2) f(2) by (simp add: nd_dlen_def F_ISSET_def F_BIGDATA_def and_one_eq odd_iff_mod_2_eq_one)
    obtain pl t' where g: "mdb_page_get t (le_nat (slice p (?o + 8 + nd_ksize ?d) 8)) = Some (Inr pl, t')"
      "mem_bytes t (fst pl) 16 (nd_dsize ?d) = Some b"
      using r False sl [of 8] f(3) dl by (auto simp: record_data_def split: Option.bind_splits sum.splits)
    have "t' = t" using g(1) by (auto simp: mdb_page_get_def split: Option.bind_splits sum.splits if_splits)
    then show ?thesis
      using False f(2) h fit dl g
      by (cases pl) (simp add: mdb_node_read_def F_ISSET_def F_BIGDATA_def and_one_eq odd_iff_mod_2_eq_one NODESIZE_def
          PAGEHDRSZ_def byte_simps)
  qed
qed

section \<open>Starting at the root\<close>

abbreviation db_root :: "mdb_txn \<Rightarrow> nat \<Rightarrow> nat" where
  "db_root t dbi \<equiv> md_root (mt_dbs t ! dbi)"

abbreviation db_cmp :: "mdb_txn \<Rightarrow> nat \<Rightarrow> cmp_func" where
  "db_cmp t dbi \<equiv> md_cmp (mt_dbxs t ! dbi)"

text \<open>A cursor whose first page, if it has one, is the root page.\<close>

definition cursor_ready :: "mdb_txn \<Rightarrow> nat \<Rightarrow> mdb_cursor \<Rightarrow> bool" where
  "cursor_ready t dbi mc \<longleftrightarrow> length (mc_pg mc) = 32 \<and> length (mc_ki mc) = 32 \<and> mc_dbi mc = dbi \<and>
     (case mc_pg mc ! 0 of None \<Rightarrow> True | Some ptr \<Rightarrow> db_root t dbi \<noteq> P_INVALID \<and> page_at t ptr = tpage t (db_root t dbi))"

lemma blank_ready: "cursor_ready t dbi (cursor_blank dbi)"
  by (simp add: cursor_ready_def cursor_blank_def CURSOR_STACK_def)

lemma db_ok_db:
  assumes "db_ok valid t dbi d" "mc_dbi mc = dbi"
  shows "mc_db t mc = Some (mt_dbs t ! dbi)" "mc_dbx t mc = Some (mt_dbxs t ! dbi)"
  using assms by (simp_all add: db_ok_def mc_db_def mc_dbx_def mem_simps)

lemma db_ok_tree:
  assumes "db_ok valid t dbi d" "db_root t dbi \<noteq> P_INVALID"
  shows "cmp_ok (db_cmp t dbi) valid" "d < 32" "1 < db_root t dbi" "tree_ok (db_cmp t dbi) valid t d (db_root t dbi) None None"
    "db_entries t dbi d = entries t d (db_root t dbi)"
  using assms by (simp_all add: db_ok_def db_entries_def)

lemma page_search_current_db:
  assumes "db_ok valid t dbi d" "mc_dbi mc = dbi"
  shows "mdb_page_search touch t mc key flags = page_search_current touch t mc key flags"
  using assms
  by (simp add: mdb_page_search_def numeral_2_eq_2 db_ok_def F_ISSET_def MDB_TXN_ERROR_def mem_simps)

lemma page_search_empty:
  assumes "db_ok valid t dbi d" "mc_dbi mc = dbi" "db_root t dbi = P_INVALID"
  shows "mdb_page_search touch t mc key flags = Some (MDB_NOTFOUND, t, mc)"
  unfolding page_search_current_db [OF assms(1,2)] page_search_current_def using assms db_ok_db [OF assms(1,2)] by simp

lemma page_search_start:
  assumes ok: "db_ok valid t dbi d" and root: "db_root t dbi \<noteq> P_INVALID" and ready: "cursor_ready t dbi mc"
    and flags: "flags AND MDB_PS_MODIFY = 0" "flags AND MDB_PS_ROOTONLY = 0"
  shows "\<exists>mc' ptr p k. mdb_page_search touch t mc key flags = mdb_page_search_root touch t mc' key flags \<and>
    rep mc' [ptr] [k] \<and> frame mc mc' \<and> tpage t (db_root t dbi) = Some p \<and> page_at t ptr = Some p"
proof -
  obtain p where p: "tpage t (db_root t dbi) = Some p" "page_inv p" using db_ok_tree(4) [OF ok root] by (rule tree_ok_page)
  obtain ptr0 lvl where get: "mdb_page_get t (db_root t dbi) = Some (Inr (ptr0, lvl), t)" "page_at t ptr0 = Some p"
    using tpage_get [OF p(1)] by blast
  have dbi: "mc_dbi mc = dbi" and len: "length (mc_pg mc) = 32" "length (mc_ki mc) = 32" using ready by (auto simp: cursor_ready_def)
  have pgno: "\<exists>n. mp_pgno p = Some n" using page_inv_len [OF p(2)] by (simp add: mp_pgno_def byte_simps)
  obtain ptr where ptr: "page_at t ptr = Some p" "mdb_page_search touch t mc key flags =
      mdb_page_search_root touch t (mc\<lparr>mc_pg := (mc_pg mc)[0 := Some ptr], mc_snum := 1, mc_top := 0\<rparr>) key flags"
  proof (cases "mc_pg mc ! 0")
    case None
    then show ?thesis
      using that [OF get(2)] get db_ok_db [OF ok dbi] db_ok_tree(3) [OF ok root] root len flags
      by (simp add: page_search_current_db [OF ok dbi] page_search_current_def mem_simps Let_def)
  next
    case (Some ptr1)
    then have at: "page_at t ptr1 = Some p" using ready p(1) by (simp add: cursor_ready_def)
    obtain n where n: "mp_pgno p = Some n" using pgno by blast
    show ?thesis
      using that [OF at] that [OF get(2)] Some at n get db_ok_db [OF ok dbi] db_ok_tree(3) [OF ok root] root len flags
      by (cases "n = db_root t dbi")
        (simp_all add: page_search_current_db [OF ok dbi] page_search_current_def mem_simps Let_def)
  qed
  let ?mc = "mc\<lparr>mc_pg := (mc_pg mc)[0 := Some ptr], mc_snum := 1, mc_top := 0\<rparr>"
  have "rep ?mc [ptr] [mc_ki mc ! 0]"
    using len by (cases "mc_pg mc"; cases "mc_ki mc") (auto simp: rep_def)
  then show ?thesis using ptr p(1) by (intro exI [of _ ?mc] exI [of _ ptr] exI [of _ p] exI) (auto simp: frame_def)
qed

section \<open>Positions\<close>

text \<open>
  \<open>at_leaf\<close>: an initialised cursor on a leaf page \<open>p\<close>, with \<open>a\<close> records to the left of the page and index \<open>k\<close>; once
  it has been marked as at the end, the page is the last one.
\<close>

definition at_leaf :: "mdb_txn \<Rightarrow> nat \<Rightarrow> nat \<Rightarrow> mdb_cursor \<Rightarrow> nat \<Rightarrow> nat \<Rightarrow> page \<Rightarrow> bool" where
  "at_leaf t dbi d mc a k p \<longleftrightarrow> mc_dbi mc = dbi \<and> db_root t dbi \<noteq> P_INVALID \<and>
     (\<exists>ks. on_leaf t d (db_root t dbi) mc ks k p \<and> a = base t d (db_root t dbi) ks) \<and>
     (bit (mc_flags mc) 1 \<longrightarrow> a + pg_n p = length (db_entries t dbi d))"

text \<open>What every operation keeps: the cursor is new, or on some leaf page.\<close>

definition cursor_ok :: "mdb_txn \<Rightarrow> nat \<Rightarrow> nat \<Rightarrow> mdb_cursor \<Rightarrow> bool" where
  "cursor_ok t dbi d mc \<longleftrightarrow>
     (if bit (mc_flags mc) 0 then \<exists>a k p. at_leaf t dbi d mc a k p \<and> k \<le> pg_n p
      else \<not> bit (mc_flags mc) 1 \<and> cursor_ready t dbi mc)"

text \<open>The cursor is on record \<open>i\<close> of the database.\<close>

definition cursor_at :: "mdb_txn \<Rightarrow> nat \<Rightarrow> nat \<Rightarrow> mdb_cursor \<Rightarrow> nat \<Rightarrow> bool" where
  "cursor_at t dbi d mc i \<longleftrightarrow> bit (mc_flags mc) 0 \<and>
     (\<exists>a k p. at_leaf t dbi d mc a k p \<and> k < pg_n p \<and> i = a + k) \<and>
     (bit (mc_flags mc) 1 \<longrightarrow> i + 1 = length (db_entries t dbi d))"

lemma cursor_at_ok: "cursor_at t dbi d mc i \<Longrightarrow> cursor_ok t dbi d mc"
  by (auto simp: cursor_at_def cursor_ok_def intro: less_imp_le)

lemma on_leaf_ready:
  assumes "on_leaf t d root mc ks k p" "mc_dbi mc = dbi" "root = db_root t dbi" "root \<noteq> P_INVALID"
  shows "cursor_ready t dbi mc"
proof -
  obtain ps ptr pg where r: "rep mc (ps @ [ptr]) (ks @ [k])" "desc t d root ps ks = Some (0, pg)" "tpage t pg = Some p" "page_at t ptr = Some p"
    using assms(1) by (auto simp: on_leaf_def)
  have hd: "mc_pg mc ! 0 = Some (hd (ps @ [ptr]))"
    using r(1) unfolding rep_def by (metis append_is_Nil_conv hd_conv_nth hd_map length_greater_0_conv map_is_Nil_conv nth_take take_eq_Nil2)
  have "page_at t (hd (ps @ [ptr])) = tpage t root"
  proof (cases ps)
    case Nil
    then show ?thesis using r(2-4) by (cases ks) (auto dest: desc_length)
  next
    case (Cons q qs)
    then show ?thesis using r(2) desc_length [OF r(2)] by (cases ks; cases d) (auto split: Option.bind_splits if_splits)
  qed
  then show ?thesis using r(1) hd assms by (simp add: cursor_ready_def rep_def)
qed

lemma cursor_ok_ready: "cursor_ok t dbi d mc \<Longrightarrow> cursor_ready t dbi mc"
  unfolding cursor_ok_def at_leaf_def by (auto split: if_splits intro: on_leaf_ready)

lemma on_leaf_page:
  assumes ok: "db_ok valid t dbi d" and root: "db_root t dbi \<noteq> P_INVALID" and on: "on_leaf t d (db_root t dbi) mc ks k p"
  obtains A B where "page_inv p" "IS_LEAF (pg_flags p)" "\<not> IS_BRANCH (pg_flags p)" "0 < pg_n p"
    "db_entries t dbi d = A @ page_nodes p @ B" "length A = base t d (db_root t dbi) ks"
    "top_page t mc = Some p" "top_ki mc = Some k"
    "sorted_wrt (klt (db_cmp t dbi)) (page_keys p)" "\<forall>k \<in> set (page_keys p). valid k"
proof -
  obtain ps ptr pg where r: "rep mc (ps @ [ptr]) (ks @ [k])" "desc t d (db_root t dbi) ps ks = Some (0, pg)" "tpage t pg = Some p" "page_at t ptr = Some p"
    using on by (auto simp: on_leaf_def)
  obtain lo hi where "tree_ok (db_cmp t dbi) valid t 0 pg lo hi" using desc_tree_ok [OF db_ok_tree(4) [OF ok root] r(2)] by blast
  note leaf = tree_ok_leaf [OF this r(3)]
  from entries_split [OF r(2)] obtain A B where "entries t d (db_root t dbi) = A @ page_nodes p @ B" "length A = base t d (db_root t dbi) ks"
    unfolding leaf(5) by blast
  then show ?thesis using that leaf rep_top [OF r(1)] r(4) root by (simp add: db_entries_def)
qed

text \<open>What the caller gets for a record, depending on which of the two result pointers are null.\<close>

definition kv_out :: "mdb_txn \<Rightarrow> bool \<Rightarrow> bool \<Rightarrow> byte list \<Rightarrow> kv" where
  "kv_out t wk wd r = (if wk then Some (nd_key r) else None, if wd then record_data t r else None)"

lemma node_here:
  assumes ok: "db_ok valid t dbi d" and at: "at_leaf t dbi d mc a k p" and i: "i < pg_n p"
  shows "mp_flags p = Some (pg_flags p)" "\<not> IS_LEAF2 (pg_flags p)" "mp_ptr p i = Some (pg_ptr p i)"
    "NODEKEY p (pg_ptr p i) = Some (nd_key (db_entries t dbi d ! (a + i)))"
    "\<exists>f. mn_flags p (pg_ptr p i) = Some f \<and> \<not> F_ISSET f F_DUPDATA"
    "\<exists>b. mdb_node_read t p (pg_ptr p i) = Some (Inr b, t) \<and> record_data t (db_entries t dbi d ! (a + i)) = Some b"
    "page_keys p ! i = nd_key (db_entries t dbi d ! (a + i))"
proof -
  have root: "db_root t dbi \<noteq> P_INVALID" using at by (simp add: at_leaf_def)
  obtain ks where ks: "on_leaf t d (db_root t dbi) mc ks k p" "a = base t d (db_root t dbi) ks" using at by (auto simp: at_leaf_def)
  obtain A B where p: "page_inv p" "IS_LEAF (pg_flags p)" "db_entries t dbi d = A @ page_nodes p @ B" "length A = base t d (db_root t dbi) ks"
    using on_leaf_page [OF ok root ks(1)] by metis
  have r: "db_entries t dbi d ! (a + i) = page_nodes p ! i" using p(3,4) ks(2) i by (simp add: nth_append)
  have "page_nodes p ! i \<in> set (db_entries t dbi d)" using p(3) i by simp
  then have rok: "record_ok t (page_nodes p ! i)" using ok by (auto simp: db_ok_def)
  have node: "node_ok p (pg_ptr p i)" using page_inv_node [OF p(1) i] .
  show "mp_flags p = Some (pg_flags p)" using page_inv_len [OF p(1)] by (simp add: mp_flags_eq)
  show "\<not> IS_LEAF2 (pg_flags p)" using p(1) by (simp add: page_inv_def)
  show "mp_ptr p i = Some (pg_ptr p i)" by (rule NODEPGNO_child(1) [OF p(1) i])
  show "NODEKEY p (pg_ptr p i) = Some (nd_key (db_entries t dbi d ! (a + i)))"
    using NODEKEY_eq [OF node] i unfolding r by (simp add: page_nodes_def)
  show "page_keys p ! i = nd_key (db_entries t dbi d ! (a + i))" using i unfolding r by (simp add: page_keys_def)
  show "\<exists>f. mn_flags p (pg_ptr p i) = Some f \<and> \<not> F_ISSET f F_DUPDATA"
    using node_header_eq(2) [OF node_ok_room [OF node]] node_at_fields(2) [OF node] i rok
    by (simp add: record_ok_def page_nodes_def)
  obtain b where "record_data t (page_nodes p ! i) = Some b" using rok by (auto simp: record_ok_def)
  with node_read_record [OF p(1,2) i this]
  show "\<exists>b. mdb_node_read t p (pg_ptr p i) = Some (Inr b, t) \<and> record_data t (db_entries t dbi d ! (a + i)) = Some b"
    unfolding r by simp
qed

lemma at_leaf_page:
  assumes ok: "db_ok valid t dbi d" and at: "at_leaf t dbi d mc a k p"
  shows "page_inv p" "IS_LEAF (pg_flags p)" "0 < pg_n p" "top_page t mc = Some p" "top_ki mc = Some k" "NUMKEYS p = Some (pg_n p)"
    "a + pg_n p \<le> length (db_entries t dbi d)" "pg_n p < 16384" "db_entries t dbi d \<noteq> []"
proof -
  have root: "db_root t dbi \<noteq> P_INVALID" using at by (simp add: at_leaf_def)
  obtain ks where ks: "on_leaf t d (db_root t dbi) mc ks k p" "a = base t d (db_root t dbi) ks" using at by (auto simp: at_leaf_def)
  obtain A B where p: "page_inv p" "IS_LEAF (pg_flags p)" "0 < pg_n p" "db_entries t dbi d = A @ page_nodes p @ B"
    "length A = base t d (db_root t dbi) ks" "top_page t mc = Some p" "top_ki mc = Some k"
    using on_leaf_page [OF ok root ks(1)] by metis
  show "page_inv p" "IS_LEAF (pg_flags p)" "0 < pg_n p" "top_page t mc = Some p" "top_ki mc = Some k" by fact+
  show "NUMKEYS p = Some (pg_n p)" using page_inv_len [OF p(1)] page_inv_bounds(1) [OF p(1)] by (simp add: NUMKEYS_eq)
  show "a + pg_n p \<le> length (db_entries t dbi d)" using p(4,5) ks(2) by simp
  then show "db_entries t dbi d \<noteq> []" using p(3) by auto
  show "pg_n p < 16384" by (rule page_n_small [OF p(1)])
qed

lemma record_here:
  assumes ok: "db_ok valid t dbi d" and at: "at_leaf t dbi d mc a k p" and k: "k < pg_n p"
  shows "cursor_record t mc step wk wd = Some (MDB_SUCCESS, kv_out t wk wd (db_entries t dbi d ! (a + k)), t, mc)"
  using node_here [OF ok at k] at_leaf_page [OF ok at] by (auto simp: cursor_record_def kv_out_def)

lemma on_leaf_flags: "on_leaf t d root (mc\<lparr>mc_flags := f\<rparr>) ks k p = on_leaf t d root mc ks k p"
  by (simp add: on_leaf_def rep_def)

lemma at_leaf_flags:
  assumes "at_leaf t dbi d mc a k p" "bit f 1 \<Longrightarrow> a + pg_n p = length (db_entries t dbi d)"
  shows "at_leaf t dbi d (mc\<lparr>mc_flags := f\<rparr>) a k p"
  using assms by (auto simp: at_leaf_def on_leaf_flags)

lemma at_leaf_set_ki:
  assumes "at_leaf t dbi d mc a k p" "i < 65536"
  shows "\<exists>mc'. set_ki mc i = Some mc' \<and> at_leaf t dbi d mc' a i p \<and> frame mc mc'"
proof -
  obtain ks ps ptr pg where r: "rep mc (ps @ [ptr]) (ks @ [k])" "desc t d (db_root t dbi) ps ks = Some (0, pg)"
    "tpage t pg = Some p" "page_at t ptr = Some p" "a = base t d (db_root t dbi) ks"
    using assms(1) by (auto simp: at_leaf_def on_leaf_def)
  obtain mc' where "set_ki mc i = Some mc'" "rep mc' (ps @ [ptr]) (ks @ [i])" "frame mc mc'"
    using rep_set_ki [OF r(1) assms(2)] by blast
  then show ?thesis using r assms(1) by (auto simp: at_leaf_def on_leaf_def frame_def)
qed

section \<open>Moves\<close>

lemma search_edge:
  fixes last :: bool
  defines "flags \<equiv> (if last then MDB_PS_LAST else MDB_PS_FIRST)"
  assumes ok: "db_ok valid t dbi d" and root: "db_root t dbi \<noteq> P_INVALID" and ready: "cursor_ready t dbi mc"
  shows "\<exists>mc' a k p. mdb_page_search touch t mc key flags = Some (MDB_SUCCESS, t, mc') \<and> at_leaf t dbi d mc' a k p \<and>
    (if last then a + pg_n p = length (db_entries t dbi d) else a = 0) \<and>
    mc_flags mc' = (mc_flags mc OR C_INITIALIZED) AND u32_not C_EOF"
proof -
  have fl: "flags AND MDB_PS_MODIFY = 0" "flags AND MDB_PS_ROOTONLY = 0" by (simp_all add: flags_def ps_flags)
  note tr = db_ok_tree [OF ok root]
  obtain mc1 ptr p k where s: "mdb_page_search touch t mc key flags = mdb_page_search_root touch t mc1 key flags"
    "rep mc1 ([] @ [ptr]) ([] @ [k])" "frame mc mc1" "tpage t (db_root t dbi) = Some p" "page_at t ptr = Some p"
    using page_search_start [OF ok root ready fl, of touch key] by auto
  have ds: "desc t d (db_root t dbi) [] [] = Some (d, db_root t dbi)" by (cases d) auto
  have bs: "base t d (db_root t dbi) [] = 0" by (cases d) auto
  from search_root_edge [OF tr(4) s(4,5,2) ds, of touch key last, folded flags_def] tr(2)
  obtain mc' ks' k' p' where e: "mdb_page_search_root touch t mc1 key flags = Some (MDB_SUCCESS, t, mc')"
    "on_leaf t d (db_root t dbi) mc' ks' k' p'"
    "if last then base t d (db_root t dbi) ks' + pg_n p' = base t d (db_root t dbi) [] + length (entries t d (db_root t dbi))
       else base t d (db_root t dbi) ks' = base t d (db_root t dbi) []"
    "mc_dbi mc' = mc_dbi mc1" "mc_flags mc' = (mc_flags mc1 OR C_INITIALIZED) AND u32_not C_EOF" by auto
  have "at_leaf t dbi d mc' (base t d (db_root t dbi) ks') k' p'"
    using e(2,4,5) s(3) ready root by (auto simp: at_leaf_def frame_def cursor_ready_def flag_simps)
  then show ?thesis using e(1,3,5) s(1,3) bs tr(5) by (cases last) (auto simp: frame_def)
qed

text \<open>Where a move ends: on record \<open>i\<close>, reported to the caller.\<close>

definition moved_to ::
  "mdb_txn \<Rightarrow> nat \<Rightarrow> nat \<Rightarrow> bool \<Rightarrow> bool \<Rightarrow> nat \<Rightarrow> (rc \<times> kv \<times> mdb_txn \<times> mdb_cursor) option \<Rightarrow> bool" where
  "moved_to t dbi d wk wd i res \<longleftrightarrow> i < length (db_entries t dbi d) \<and>
     (\<exists>mc'. res = Some (MDB_SUCCESS, kv_out t wk wd (db_entries t dbi d ! i), t, mc') \<and> cursor_at t dbi d mc' i)"

definition not_found :: "mdb_txn \<Rightarrow> nat \<Rightarrow> nat \<Rightarrow> (rc \<times> kv \<times> mdb_txn \<times> mdb_cursor) option \<Rightarrow> bool" where
  "not_found t dbi d res \<longleftrightarrow> (\<exists>mc'. res = Some (MDB_NOTFOUND, (None, None), t, mc') \<and> cursor_ok t dbi d mc')"

lemma moved_to_record:
  assumes ok: "db_ok valid t dbi d" and at: "at_leaf t dbi d mc a k p" and k: "k < pg_n p" and f: "bit (mc_flags mc) 0"
    and e: "bit (mc_flags mc) 1 \<Longrightarrow> a + k + 1 = length (db_entries t dbi d)"
  shows "moved_to t dbi d wk wd (a + k) (cursor_record t mc step wk wd)"
proof -
  have "cursor_at t dbi d mc (a + k)" using at k f e by (auto simp: cursor_at_def)
  moreover have "a + k < length (db_entries t dbi d)" using at_leaf_page(7) [OF ok at] k by simp
  ultimately show ?thesis using record_here [OF ok at k, of step wk wd] by (auto simp: moved_to_def)
qed

lemma db_empty:
  assumes "db_ok valid t dbi d"
  shows "db_root t dbi = P_INVALID \<longleftrightarrow> db_entries t dbi d = []"
  using entries_nonempty [OF db_ok_tree(4) [OF assms]] by (auto simp: db_entries_def)

lemma cursor_ok_init:
  assumes "cursor_ok t dbi d mc" "bit (mc_flags mc) 0" obtains a k p where "at_leaf t dbi d mc a k p" "k \<le> pg_n p"
  using assms by (auto simp: cursor_ok_def)

lemma at_root:
  assumes "at_leaf t dbi d mc a k p" "mc_top mc = 0" shows "a = 0"
proof -
  obtain ks ps ptr where r: "rep mc (ps @ [ptr]) (ks @ [k])" "a = base t d (db_root t dbi) ks"
    using assms(1) by (auto simp: at_leaf_def on_leaf_def)
  then show ?thesis using assms(2) rep_top(3) [OF r(1)] by (cases d) (auto simp: rep_def)
qed

lemma first_moves:
  assumes ok: "db_ok valid t dbi d" and mc: "cursor_ok t dbi d mc"
  shows "if db_entries t dbi d = [] then not_found t dbi d (mdb_cursor_first t mc wk wd)
    else moved_to t dbi d wk wd 0 (mdb_cursor_first t mc wk wd)"
proof (cases "db_entries t dbi d = []")
  case True
  then have root: "db_root t dbi = P_INVALID" using db_empty [OF ok] by simp
  then have b: "\<not> bit (mc_flags mc) 0" using mc by (auto simp: cursor_ok_def at_leaf_def)
  have "mc_dbi mc = dbi" using cursor_ok_ready [OF mc] by (simp add: cursor_ready_def)
  then show ?thesis using True mc b page_search_empty [OF ok _ root] by (simp add: mdb_cursor_first_def flag_simps not_found_def)
next
  case False
  then have root: "db_root t dbi \<noteq> P_INVALID" using db_empty [OF ok] by simp
  obtain mc1 k p where s: "(if mc_flags mc AND C_INITIALIZED = 0 \<or> mc_top mc \<noteq> 0
        then mdb_page_search no_touch t mc None MDB_PS_FIRST else Some (MDB_SUCCESS, t, mc)) = Some (MDB_SUCCESS, t, mc1)"
    "at_leaf t dbi d mc1 0 k p"
  proof (cases "bit (mc_flags mc) 0 \<and> mc_top mc = 0")
    case True
    then obtain a k p where at: "at_leaf t dbi d mc a k p" using cursor_ok_init [OF mc] by blast
    have "a = 0" using at_root [OF at] True by simp
    then show ?thesis using that at True by (auto simp: flag_simps)
  next
    case no: False
    then show ?thesis using that search_edge [OF ok root cursor_ok_ready [OF mc], of no_touch None False]
      by (auto simp: flag_simps)
  qed
  define mc2 where "mc2 = mc1\<lparr>mc_flags := (mc_flags mc1 OR C_INITIALIZED) AND u32_not C_EOF\<rparr>"
  have at2: "at_leaf t dbi d mc2 0 k p" unfolding mc2_def by (rule at_leaf_flags [OF s(2)]) (simp add: flag_simps)
  have f2: "bit (mc_flags mc2) 0" "\<not> bit (mc_flags mc2) 1" by (simp_all add: mc2_def flag_simps)
  obtain mc3 where mc3: "set_ki mc2 0 = Some mc3" "at_leaf t dbi d mc3 0 0 p" "frame mc2 mc3" using at_leaf_set_ki [OF at2, of 0] by auto
  note pg = at_leaf_page [OF ok s(2)] node_here [OF ok s(2) at_leaf_page(3) [OF ok s(2)]]
  have "mdb_cursor_first t mc wk wd = cursor_record t mc3 False wk wd"
    using s(1) pg(2,4,10) mc3(1) by (simp add: mdb_cursor_first_def mc2_def [symmetric] Let_def)
  moreover have "moved_to t dbi d wk wd (0 + 0) (cursor_record t mc3 False wk wd)"
    using moved_to_record [OF ok mc3(2) pg(3)] mc3(3) f2 by (simp add: frame_def)
  ultimately show ?thesis using False by simp
qed

lemma last_moves:
  assumes ok: "db_ok valid t dbi d" and mc: "cursor_ok t dbi d mc"
  shows "if db_entries t dbi d = [] then not_found t dbi d (mdb_cursor_last t mc wk wd)
    else moved_to t dbi d wk wd (length (db_entries t dbi d) - 1) (mdb_cursor_last t mc wk wd)"
proof (cases "db_entries t dbi d = []")
  case True
  then have root: "db_root t dbi = P_INVALID" using db_empty [OF ok] by simp
  then have b: "\<not> bit (mc_flags mc) 0" "\<not> bit (mc_flags mc) 1" using mc by (auto simp: cursor_ok_def at_leaf_def split: if_splits)
  have "mc_dbi mc = dbi" using cursor_ok_ready [OF mc] by (simp add: cursor_ready_def)
  then show ?thesis using True mc b page_search_empty [OF ok _ root] by (simp add: mdb_cursor_last_def flag_simps not_found_def)
next
  case False
  then have root: "db_root t dbi \<noteq> P_INVALID" using db_empty [OF ok] by simp
  obtain mc1 a k p where s: "(if mc_flags mc AND C_EOF = 0 then do {
         (rc, t, mc) \<leftarrow> (if mc_flags mc AND C_INITIALIZED = 0 \<or> mc_top mc \<noteq> 0
            then mdb_page_search no_touch t mc None MDB_PS_LAST else Some (MDB_SUCCESS, t, mc));
         if rc \<noteq> MDB_SUCCESS then Some (rc, t, mc)
         else do {
           mp \<leftarrow> top_page t mc;
           fl \<leftarrow> mp_flags mp;
           if IS_LEAF fl then Some (MDB_SUCCESS, t, mc) else None } }
       else Some (MDB_SUCCESS, t, mc)) = Some (MDB_SUCCESS, t, mc1)"
    "at_leaf t dbi d mc1 a k p" "a + pg_n p = length (db_entries t dbi d)"
  proof (cases "bit (mc_flags mc) 1 \<or> bit (mc_flags mc) 0 \<and> mc_top mc = 0")
    case True
    then have "bit (mc_flags mc) 0" using mc by (auto simp: cursor_ok_def split: if_splits)
    then obtain a k p where at: "at_leaf t dbi d mc a k p" using cursor_ok_init [OF mc] by blast
    then obtain ks ps ptr pg where r: "rep mc (ps @ [ptr]) (ks @ [k])" "a = base t d (db_root t dbi) ks"
      "desc t d (db_root t dbi) ps ks = Some (0, pg)" "tpage t pg = Some p"
      by (auto simp: at_leaf_def on_leaf_def)
    have "a + pg_n p = length (db_entries t dbi d)"
    proof (cases "bit (mc_flags mc) 1")
      case True
      then show ?thesis using at by (simp add: at_leaf_def)
    next
      case no: False
      then have "ps = []" using True rep_top(3) [OF r(1)] by simp
      then have "ks = []" "d = 0" "pg = db_root t dbi" using desc_length [OF r(3)] r(3) by auto
      then show ?thesis using r(2,4) db_ok_tree(5) [OF ok root] by simp
    qed
    then show ?thesis
      using that [of mc, OF _ at] at_leaf_page [OF ok at] node_here [OF ok at at_leaf_page(3) [OF ok at]] True by (auto simp: flag_simps)
  next
    case no: False
    from search_edge [OF ok root cursor_ok_ready [OF mc], of no_touch None True]
    obtain mc1 a k p where e: "mdb_page_search no_touch t mc None MDB_PS_LAST = Some (MDB_SUCCESS, t, mc1)"
      "at_leaf t dbi d mc1 a k p" "a + pg_n p = length (db_entries t dbi d)" by auto
    show ?thesis
      using that [OF _ e(2,3)] e(1) no at_leaf_page [OF ok e(2)] node_here [OF ok e(2) at_leaf_page(3) [OF ok e(2)]]
      by (auto simp: flag_simps)
  qed
  note pg = at_leaf_page [OF ok s(2)]
  have "pg_n p - 1 < 65536" using pg(8) by simp
  then obtain mc2 where mc2: "set_ki mc1 (pg_n p - 1) = Some mc2" "at_leaf t dbi d mc2 a (pg_n p - 1) p" "frame mc1 mc2"
    using at_leaf_set_ki [OF s(2)] by blast
  have u: "set_ki mc1 (pg_n p + 4294967296 - 1) = Some mc2"
    using mc2(1) u16_pred [of "pg_n p"] pg(3,8) by (simp add: set_ki_def)
  define mc3 where "mc3 = mc2\<lparr>mc_flags := mc_flags mc2 OR C_INITIALIZED OR C_EOF\<rparr>"
  have at3: "at_leaf t dbi d mc3 a (pg_n p - 1) p" unfolding mc3_def by (rule at_leaf_flags [OF mc2(2)]) (simp add: s(3))
  have f3: "bit (mc_flags mc3) 0" by (simp add: mc3_def flag_simps or.assoc [symmetric])
  have "mdb_cursor_last t mc wk wd = cursor_record t mc3 False wk wd"
    using s(1) pg(4,6) u by (simp add: mdb_cursor_last_def mc3_def [symmetric] Let_def)
  moreover have "moved_to t dbi d wk wd (a + (pg_n p - 1)) (cursor_record t mc3 False wk wd)"
    using moved_to_record [OF ok at3 _ f3] s(3) pg(3) by simp
  ultimately show ?thesis using False s(3) pg(3) by (simp add: Nat.add_diff_assoc)
qed

lemma sibling_moves_right:
  assumes ok: "db_ok valid t dbi d" and at: "at_leaf t dbi d mc a k p"
  shows "if a + pg_n p < length (db_entries t dbi d)
    then \<exists>mc' q. mdb_cursor_sibling t mc True = Some (MDB_SUCCESS, t, mc') \<and> frame mc mc' \<and> at_leaf t dbi d mc' (a + pg_n p) 0 q
    else mdb_cursor_sibling t mc True = Some (MDB_NOTFOUND, t, mc)"
proof -
  have root: "db_root t dbi \<noteq> P_INVALID" and dbi: "mc_dbi mc = dbi" using at by (auto simp: at_leaf_def)
  note tr = db_ok_tree [OF ok root]
  obtain ks ps ptr pg where r: "rep mc (ps @ [ptr]) (ks @ [k])" "desc t d (db_root t dbi) ps ks = Some (0, pg)"
    "tpage t pg = Some p" "page_at t ptr = Some p" "a = base t d (db_root t dbi) ks"
    using at by (auto simp: at_leaf_def on_leaf_def)
  have e: "length (entries t 0 pg) = pg_n p" using r(3) by simp
  note sib = sibling_right [OF tr(4,2) r(1,2), unfolded e r(5) [symmetric] tr(5) [symmetric]]
  show ?thesis
  proof (cases "a + pg_n p < length (db_entries t dbi d)")
    case True
    then have eof: "\<not> bit (mc_flags mc) 1" using at by (auto simp: at_leaf_def)
    obtain mc' ps' ptr' ks' pg' q where m: "mdb_cursor_sibling t mc True = Some (MDB_SUCCESS, t, mc')"
      "rep mc' (ps' @ [ptr']) (ks' @ [0])" "frame mc mc'" "desc t d (db_root t dbi) ps' ks' = Some (0, pg')"
      "tpage t pg' = Some q" "page_at t ptr' = Some q" "base t d (db_root t dbi) ks' = a + pg_n p"
      using sib unfolding if_P [OF True] by blast
    have "on_leaf t d (db_root t dbi) mc' ks' 0 q" using m by (auto simp: on_leaf_def)
    then have "at_leaf t dbi d mc' (a + pg_n p) 0 q" unfolding at_leaf_def using m(3,7) dbi root eof by (auto simp: frame_def)
    then show ?thesis using True m(1,3) by auto
  next
    case False
    then show ?thesis using sib by simp
  qed
qed

lemma sibling_moves_left:
  assumes ok: "db_ok valid t dbi d" and at: "at_leaf t dbi d mc a k p"
  shows "if 0 < a then \<exists>mc' a' q. mdb_cursor_sibling t mc False = Some (MDB_SUCCESS, t, mc') \<and> frame mc mc' \<and>
      at_leaf t dbi d (mc'\<lparr>mc_flags := mc_flags mc' AND u32_not C_EOF\<rparr>) a' (pg_n q - 1) q \<and> a' + pg_n q = a \<and> 0 < pg_n q
    else mdb_cursor_sibling t mc False = Some (MDB_NOTFOUND, t, mc)"
proof -
  have root: "db_root t dbi \<noteq> P_INVALID" and dbi: "mc_dbi mc = dbi" using at by (auto simp: at_leaf_def)
  note tr = db_ok_tree [OF ok root]
  obtain ks ps ptr pg where r: "rep mc (ps @ [ptr]) (ks @ [k])" "desc t d (db_root t dbi) ps ks = Some (0, pg)"
    "tpage t pg = Some p" "page_at t ptr = Some p" "a = base t d (db_root t dbi) ks"
    using at by (auto simp: at_leaf_def on_leaf_def)
  note sib = sibling_left [OF tr(4,2) r(1,2), unfolded r(5) [symmetric] tr(5) [symmetric]]
  show ?thesis
  proof (cases "0 < a")
    case True
    obtain mc' ps' ptr' ks' pg' q where m: "mdb_cursor_sibling t mc False = Some (MDB_SUCCESS, t, mc')"
      "rep mc' (ps' @ [ptr']) (ks' @ [pg_n q - 1])" "frame mc mc'" "desc t d (db_root t dbi) ps' ks' = Some (0, pg')"
      "tpage t pg' = Some q" "page_at t ptr' = Some q" "base t d (db_root t dbi) ks' + length (entries t 0 pg') = a"
      using sib unfolding if_P [OF True] by blast
    have on: "on_leaf t d (db_root t dbi) mc' ks' (pg_n q - 1) q" using m by (auto simp: on_leaf_def)
    then have "at_leaf t dbi d (mc'\<lparr>mc_flags := mc_flags mc' AND u32_not C_EOF\<rparr>) (base t d (db_root t dbi) ks') (pg_n q - 1) q"
      unfolding at_leaf_def using m(3) dbi root by (auto simp: frame_def on_leaf_flags flag_simps)
    moreover have "0 < pg_n q" using on_leaf_page [OF ok root on] by metis
    ultimately show ?thesis using True m(1,3,5,7) by auto
  next
    case False
    then show ?thesis using sib by simp
  qed
qed

lemma next_moves:
  assumes ok: "db_ok valid t dbi d" and at: "cursor_at t dbi d mc i" and del: "\<not> bit (mc_flags mc) 3"
  shows "if i + 1 < length (db_entries t dbi d) then moved_to t dbi d wk wd (i + 1) (mdb_cursor_next t mc wk wd op)
    else not_found t dbi d (mdb_cursor_next t mc wk wd op)"
proof -
  obtain a k p where l: "at_leaf t dbi d mc a k p" "k < pg_n p" "i = a + k" and f: "bit (mc_flags mc) 0"
    using at by (auto simp: cursor_at_def)
  note pg = at_leaf_page [OF ok l(1)]
  have dbi: "mc_dbi mc = dbi" using l(1) by (simp add: at_leaf_def)
  have dup: "md_flags (mt_dbs t ! dbi) AND MDB_DUPSORT = 0" using ok by (simp add: db_ok_def)
  show ?thesis
  proof (cases "bit (mc_flags mc) 1")
    case True
    then have "i + 1 = length (db_entries t dbi d)" using at by (simp add: cursor_at_def)
    then show ?thesis using True cursor_at_ok [OF at] by (simp add: mdb_cursor_next_def flag_simps not_found_def)
  next
    case eof: False
    have step: "mdb_cursor_next t mc wk wd op = do {
        (rc, t, mc) \<leftarrow> (if k + 1 \<ge> pg_n p then mdb_cursor_sibling t mc True
            else do { mc \<leftarrow> set_ki mc (k + 1); Some (MDB_SUCCESS, t, mc) });
        if rc \<noteq> MDB_SUCCESS then Some (rc, (None, None), t, mc\<lparr>mc_flags := mc_flags mc OR C_EOF\<rparr>)
        else cursor_record t mc True wk wd }"
      using eof f del pg db_ok_db [OF ok dbi] dup by (simp add: mdb_cursor_next_def flag_simps)
    show ?thesis
    proof (cases "k + 1 < pg_n p")
      case True
      obtain mc' where m: "set_ki mc (k + 1) = Some mc'" "at_leaf t dbi d mc' a (k + 1) p" "frame mc mc'"
        using at_leaf_set_ki [OF l(1), of "k + 1"] True pg(8) by auto
      have "moved_to t dbi d wk wd (a + (k + 1)) (cursor_record t mc' True wk wd)"
        using moved_to_record [OF ok m(2) True] m(3) f eof by (simp add: frame_def)
      moreover have "i + 1 < length (db_entries t dbi d)" using pg(7) l True by simp
      ultimately show ?thesis using step True m(1) l(3) by simp
    next
      case False
      then have k: "k = pg_n p - 1" "i + 1 = a + pg_n p" using l by auto
      note sib = sibling_moves_right [OF ok l(1)]
      show ?thesis
      proof (cases "a + pg_n p < length (db_entries t dbi d)")
        case True
        then obtain mc' q where m: "mdb_cursor_sibling t mc True = Some (MDB_SUCCESS, t, mc')" "frame mc mc'"
          "at_leaf t dbi d mc' (a + pg_n p) 0 q" using sib by auto
        have "moved_to t dbi d wk wd (a + pg_n p + 0) (cursor_record t mc' True wk wd)"
          using moved_to_record [OF ok m(3) at_leaf_page(3) [OF ok m(3)]] m(2) f eof by (simp add: frame_def)
        then show ?thesis using step False m(1) k True by simp
      next
        case no: False
        let ?mc = "mc\<lparr>mc_flags := mc_flags mc OR C_EOF\<rparr>"
        have "at_leaf t dbi d ?mc a k p" using no pg(7) by (intro at_leaf_flags [OF l(1)]) simp
        then have "cursor_ok t dbi d ?mc" using f l(2) by (auto simp: cursor_ok_def flag_simps intro: less_imp_le)
        then show ?thesis using step False sib no k by (simp add: not_found_def)
      qed
    qed
  qed
qed

lemma prev_moves:
  assumes ok: "db_ok valid t dbi d" and f: "bit (mc_flags mc) 0" and l: "at_leaf t dbi d mc a k p" "k \<le> pg_n p"
  shows "if 0 < a + k then moved_to t dbi d wk wd (a + k - 1) (mdb_cursor_prev t mc wk wd op)
    else not_found t dbi d (mdb_cursor_prev t mc wk wd op)"
proof -
  note pg = at_leaf_page [OF ok l(1)]
  have dbi: "mc_dbi mc = dbi" using l(1) by (simp add: at_leaf_def)
  have dup: "md_flags (mt_dbs t ! dbi) AND MDB_DUPSORT = 0" using ok by (simp add: db_ok_def)
  let ?clr = "\<lambda>mc. mc\<lparr>mc_flags := mc_flags mc AND u32_not C_EOF\<rparr>"
  have step: "mdb_cursor_prev t mc wk wd op = do {
      (rc, t, mc) \<leftarrow> (if k = 0 then do {
              (rc, t, mc) \<leftarrow> mdb_cursor_sibling t mc False;
              if rc \<noteq> MDB_SUCCESS then Some (rc, t, mc)
              else do {
                mp \<leftarrow> top_page t mc;
                n \<leftarrow> NUMKEYS mp;
                mc \<leftarrow> set_ki mc (n + 2 ^ 32 - 1);
                Some (MDB_SUCCESS, t, mc) } }
            else do { mc \<leftarrow> set_ki mc (k - 1); Some (MDB_SUCCESS, t, mc) });
          if rc \<noteq> MDB_SUCCESS then Some (rc, (None, None), t, mc)
          else cursor_record t (?clr mc) True wk wd }"
    using f pg db_ok_db [OF ok dbi] dup by (simp add: mdb_cursor_prev_def flag_simps)
  show ?thesis
  proof (cases "k = 0")
    case False
    have "k - 1 < 65536" using l(2) pg(8) by simp
    then obtain mc' where m: "set_ki mc (k - 1) = Some mc'" "at_leaf t dbi d mc' a (k - 1) p" "frame mc mc'"
      using at_leaf_set_ki [OF l(1)] by blast
    have at: "at_leaf t dbi d (?clr mc') a (k - 1) p" by (rule at_leaf_flags [OF m(2)]) (simp add: flag_simps)
    have "moved_to t dbi d wk wd (a + (k - 1)) (cursor_record t (?clr mc') True wk wd)"
      using moved_to_record [OF ok at] False l(2) m(3) f by (simp add: frame_def flag_simps)
    then show ?thesis using step False m(1) by simp
  next
    case k: True
    note sib = sibling_moves_left [OF ok l(1)]
    show ?thesis
    proof (cases "0 < a")
      case True
      then obtain mc' a' q where m: "mdb_cursor_sibling t mc False = Some (MDB_SUCCESS, t, mc')" "frame mc mc'"
        "at_leaf t dbi d (?clr mc') a' (pg_n q - 1) q" "a' + pg_n q = a" "0 < pg_n q" using sib by auto
      note q = at_leaf_page [OF ok m(3)]
      have "top_page t (?clr mc') = top_page t mc'" "top_ki (?clr mc') = top_ki mc'"
        by (simp_all add: top_page_def pg_at_def top_ki_def)
      then have tp: "top_page t mc' = Some q" "top_ki mc' = Some (pg_n q - 1)" using q(4,5) by auto
      have "u16 (pg_n q + 4294967296 - 1) = pg_n q - 1" using m(5) q(8) by (intro u16_pred) auto
      then have "set_ki mc' (pg_n q + 4294967296 - 1) = Some mc'"
        using tp(2) by (auto simp: set_ki_def top_ki_def c_read_eq_Some_iff mem_simps list_update_same_conv)
      then have "mdb_cursor_prev t mc wk wd op = cursor_record t (?clr mc') True wk wd"
        using step k m(1) tp q(6) by simp
      moreover have "moved_to t dbi d wk wd (a' + (pg_n q - 1)) (cursor_record t (?clr mc') True wk wd)"
        using moved_to_record [OF ok m(3)] m(2,5) f by (simp add: frame_def flag_simps)
      moreover have "a' + (pg_n q - 1) = a - 1" using m(4,5) by simp
      ultimately show ?thesis using k True by simp
    next
      case False
      then show ?thesis using step k sib l f by (auto simp: not_found_def cursor_ok_def)
    qed
  qed
qed

section \<open>Finding a key\<close>

text \<open>The place of a key among the records: everything before it is smaller, nothing from it on is.\<close>

definition lower_bound :: "cmp_func \<Rightarrow> byte list \<Rightarrow> byte list list \<Rightarrow> nat \<Rightarrow> bool" where
  "lower_bound c key E j \<longleftrightarrow> j \<le> length E \<and> (\<forall>i < j. klt c (nd_key (E ! i)) key) \<and> (\<forall>i < length E. j \<le> i \<longrightarrow> \<not> klt c (nd_key (E ! i)) key)"

lemma lower_bound_unique: "lower_bound c key E i \<Longrightarrow> lower_bound c key E j \<Longrightarrow> i = j"
  by (cases i j rule: linorder_cases) (auto simp: lower_bound_def)

lemma db_sorted:
  assumes "db_ok valid t dbi d"
  shows "\<forall>r \<in> set (db_entries t dbi d). valid (nd_key r)"
    "sorted_wrt (\<lambda>r s. klt (db_cmp t dbi) (nd_key r) (nd_key s)) (db_entries t dbi d)"
proof -
  have "\<forall>r \<in> set (db_entries t dbi d). valid (nd_key r)" "sorted_wrt (\<lambda>r s. klt (db_cmp t dbi) (nd_key r) (nd_key s)) (db_entries t dbi d)"
    if "db_root t dbi \<noteq> P_INVALID"
    using entries_keys [OF db_ok_tree(1,4) [OF assms that]] db_ok_tree(5) [OF assms that] by auto
  then show "\<forall>r \<in> set (db_entries t dbi d). valid (nd_key r)"
    "sorted_wrt (\<lambda>r s. klt (db_cmp t dbi) (nd_key r) (nd_key s)) (db_entries t dbi d)"
    by (auto simp: db_entries_def)
qed

lemma db_cmp_ok: "db_ok valid t dbi d \<Longrightarrow> cmp_ok (db_cmp t dbi) valid"
  by (simp add: db_ok_def)

lemma db_keys_less:
  assumes "db_ok valid t dbi d" "i < j" "j < length (db_entries t dbi d)"
  shows "klt (db_cmp t dbi) (nd_key (db_entries t dbi d ! i)) (nd_key (db_entries t dbi d ! j))"
  using db_sorted(2) [OF assms(1)] assms(2,3) by (simp add: sorted_wrt_iff_nth_less)

text \<open>The lower bound decides whether a key is there, and the lookup in the map of the records.\<close>

definition db_map :: "mdb_txn \<Rightarrow> nat \<Rightarrow> nat \<Rightarrow> byte list \<rightharpoonup> byte list" where
  "db_map t dbi d = map_of (map (\<lambda>r. (nd_key r, the (record_data t r))) (db_entries t dbi d))"

lemma lookup_lower_bound:
  assumes ok: "db_ok valid t dbi d" and key: "valid key" and lb: "lower_bound (db_cmp t dbi) key (db_entries t dbi d) j"
  shows "db_map t dbi d key = (if j < length (db_entries t dbi d) \<and> nd_key (db_entries t dbi d ! j) = key
      then record_data t (db_entries t dbi d ! j) else None)"
proof -
  let ?E = "db_entries t dbi d" and ?c = "db_cmp t dbi"
  note c = db_cmp_ok [OF ok]
  have sel: "i = j" if "i < length ?E" "nd_key (?E ! i) = key" for i
  proof -
    have "\<not> i < j" using lb that key_order_laws(1) [OF c key] by (auto simp: lower_bound_def)
    moreover have "\<not> j < i" using lb db_keys_less [OF ok, of j i] that by (auto simp: lower_bound_def)
    ultimately show ?thesis by simp
  qed
  have dist: "distinct (map fst (map (\<lambda>r. (nd_key r, the (record_data t r))) ?E))"
    using db_sorted [OF ok] key_order_laws(1) [OF c] by (auto simp: distinct_conv_nth sorted_wrt_iff_nth_less)
      (metis linorder_neqE_nat nth_mem)
  show ?thesis
  proof (cases "j < length ?E \<and> nd_key (?E ! j) = key")
    case True
    then have "?E ! j \<in> set ?E" by simp
    then have "record_data t (?E ! j) \<noteq> None" using ok by (auto simp: db_ok_def record_ok_def)
    moreover have "map_of (map (\<lambda>r. (nd_key r, the (record_data t r))) ?E) key = Some (the (record_data t (?E ! j)))"
      using True by (intro map_of_is_SomeI [OF dist]) auto
    ultimately show ?thesis using True by (simp add: db_map_def)
  next
    case False
    then have "key \<notin> nd_key ` set ?E" using sel by (metis image_iff in_set_conv_nth)
    then show ?thesis using False by (auto simp: db_map_def map_of_eq_None_iff image_image)
  qed
qed

text \<open>The search from the root ends on a leaf that the key belongs to.\<close>

definition key_page :: "mdb_txn \<Rightarrow> nat \<Rightarrow> nat \<Rightarrow> byte list \<Rightarrow> nat \<Rightarrow> page \<Rightarrow> bool" where
  "key_page t dbi d key a p \<longleftrightarrow> around (db_cmp t dbi) key (db_entries t dbi d) a (pg_n p)"

lemma search_key:
  assumes ok: "db_ok valid t dbi d" and root: "db_root t dbi \<noteq> P_INVALID" and ready: "cursor_ready t dbi mc" and key: "valid key"
  shows "\<exists>mc' a k p. mdb_page_search touch t mc (Some key) 0 = Some (MDB_SUCCESS, t, mc') \<and> at_leaf t dbi d mc' a k p \<and>
    key_page t dbi d key a p \<and> mc_flags mc' = (mc_flags mc OR C_INITIALIZED) AND u32_not C_EOF"
proof -
  note tr = db_ok_tree [OF ok root]
  obtain mc1 ptr p k where s: "mdb_page_search touch t mc (Some key) 0 = mdb_page_search_root touch t mc1 (Some key) 0"
    "rep mc1 ([] @ [ptr]) ([] @ [k])" "frame mc mc1" "tpage t (db_root t dbi) = Some p" "page_at t ptr = Some p"
    using page_search_start [OF ok root ready, of 0 touch "Some key"] by auto
  have ds: "desc t d (db_root t dbi) [] [] = Some (d, db_root t dbi)" by (cases d) auto
  have "base t d (db_root t dbi) [] = 0" by (cases d) auto
  then have ar: "around (db_cmp t dbi) key (entries t d (db_root t dbi)) (base t d (db_root t dbi) []) (length (entries t d (db_root t dbi)))"
    by (simp add: around_def)
  have dbi: "mc_dbi mc1 = dbi" using s(3) ready by (simp add: frame_def cursor_ready_def)
  note db = db_ok_db [OF ok dbi]
  have len: "length ([]::page_ptr list) + d < 32" using tr(2) by simp
  obtain mc' ks' k' p' where e: "mdb_page_search_root touch t mc1 (Some key) 0 = Some (MDB_SUCCESS, t, mc')"
    "on_leaf t d (db_root t dbi) mc' ks' k' p'"
    "around (db_cmp t dbi) key (entries t d (db_root t dbi)) (base t d (db_root t dbi) ks') (pg_n p')"
    "mc_dbi mc' = mc_dbi mc1" "mc_flags mc' = (mc_flags mc1 OR C_INITIALIZED) AND u32_not C_EOF"
    using search_root_key [OF tr(1) key db(2) refl db(1) tr(4) _ _ s(4,5,2) ds len ar, of touch] by auto
  have "at_leaf t dbi d mc' (base t d (db_root t dbi) ks') k' p'"
    using e(2,4,5) s(3) dbi root by (auto simp: at_leaf_def frame_def flag_simps)
  then show ?thesis using e(1,3,5) s(1,3) tr(5) by (auto simp: frame_def key_page_def)
qed

text \<open>The search on that leaf finds the lower bound.\<close>

lemma leaf_search:
  assumes ok: "db_ok valid t dbi d" and key: "valid key" and at: "at_leaf t dbi d mc a k p" and kp: "key_page t dbi d key a p"
  shows "\<exists>i mc'. cursor_node_search t mc key =
      Some (if i < pg_n p then Some (pg_ptr p i) else None, i < pg_n p \<and> nd_key (db_entries t dbi d ! (a + i)) = key, mc') \<and>
    at_leaf t dbi d mc' a i p \<and> frame mc mc' \<and> i \<le> pg_n p \<and> lower_bound (db_cmp t dbi) key (db_entries t dbi d) (a + i)"
proof -
  let ?E = "db_entries t dbi d" and ?c = "db_cmp t dbi"
  have root: "db_root t dbi \<noteq> P_INVALID" and dbi: "mc_dbi mc = dbi" using at by (auto simp: at_leaf_def)
  note c = db_cmp_ok [OF ok] and pg = at_leaf_page [OF ok at]
  have keys: "page_keys p ! i = nd_key (?E ! (a + i))" if "i < pg_n p" for i using node_here(7) [OF ok at that] .
  obtain ks where ks: "on_leaf t d (db_root t dbi) mc ks k p" using at by (auto simp: at_leaf_def)
  have lf: "sorted_wrt (klt ?c) (page_keys p)" "\<forall>k \<in> set (page_keys p). valid k" "\<not> IS_BRANCH (pg_flags p)"
    using on_leaf_page [OF ok root ks] by metis+
  have fl: "IS_BRANCH (pg_flags p) \<longleftrightarrow> \<not> IS_LEAF (pg_flags p)" using lf(3) pg(2) by simp
  obtain i where i: "mdb_node_search ?c (md_pad (mt_dbs t ! dbi)) p key =
      Some (if i < pg_n p then Some (pg_ptr p i) else None, i, key \<in> set (page_keys p))"
    "i \<le> pg_n p" "\<forall>j < i. klt ?c (page_keys p ! j) key" "\<forall>j. i \<le> j \<and> j < pg_n p \<longrightarrow> \<not> klt ?c (page_keys p ! j) key"
    using node_search_place [OF pg(1) c key fl, of "md_pad (mt_dbs t ! dbi)"] lf(1,2) pg(2,3)
    by (auto simp: page_keys_def [symmetric] klt_def [symmetric] klt_def [abs_def, symmetric])
  have exact: "key \<in> set (page_keys p) \<longleftrightarrow> i < pg_n p \<and> page_keys p ! i = key"
  proof
    assume "key \<in> set (page_keys p)"
    then obtain j where j: "j < pg_n p" "page_keys p ! j = key" by (auto simp: in_set_conv_nth)
    have "\<not> j < i" using i(3) j key_order_laws(1) [OF c key] by auto
    moreover have "\<not> i < j" using i(4) j lf(1) by (auto simp: sorted_wrt_iff_nth_less)
    ultimately show "i < pg_n p \<and> page_keys p ! i = key" using j by (metis linorder_neqE_nat)
  next
    assume *: "i < pg_n p \<and> page_keys p ! i = key"
    then have "page_keys p ! i \<in> set (page_keys p)" by (intro nth_mem) simp
    then show "key \<in> set (page_keys p)" using * by simp
  qed
  have small: "i < 65536" using i(2) pg(8) by simp
  obtain mc' where mc': "set_ki mc i = Some mc'" "at_leaf t dbi d mc' a i p" "frame mc mc'" using at_leaf_set_ki [OF at small] by blast
  have "cursor_node_search t mc key =
      Some (if i < pg_n p then Some (pg_ptr p i) else None, key \<in> set (page_keys p), mc')"
    using pg(4) db_ok_db [OF ok dbi] i(1) mc'(1) by (simp add: cursor_node_search_def)
  moreover have "lower_bound ?c key ?E (a + i)"
  proof -
    have "klt ?c (nd_key (?E ! n)) key" if "n < a + i" for n
    proof (cases "n < a")
      case True
      then have "?E ! n \<in> set (take a ?E)" using pg(7) by (auto simp: in_set_conv_nth intro!: exI [of _ n])
      then show ?thesis using kp by (auto simp: key_page_def around_def)
    next
      case False
      then have "n - a < i" "a + (n - a) = n" using that by auto
      then show ?thesis using i(2,3) keys [of "n - a"] by auto
    qed
    moreover have "\<not> klt ?c (nd_key (?E ! n)) key" if "a + i \<le> n" "n < length ?E" for n
    proof (cases "n < a + pg_n p")
      case True
      then have "i \<le> n - a" "n - a < pg_n p" "a + (n - a) = n" using that by auto
      then show ?thesis using i(4) keys [of "n - a"] by auto
    next
      case False
      then have "?E ! n \<in> set (drop (a + pg_n p) ?E)" using that
        by (auto simp: in_set_conv_nth intro!: exI [of _ "n - (a + pg_n p)"])
      then have "klt ?c key (nd_key (?E ! n))" using kp by (auto simp: key_page_def around_def)
      then show ?thesis using key_order_laws(4) [OF c key, of "nd_key (?E ! n)"] db_sorted(1) [OF ok] that by simp
    qed
    ultimately show ?thesis using i(2) pg(7) by (auto simp: lower_bound_def)
  qed
  ultimately show ?thesis using mc'(2,3) i(2) exact keys by (intro exI [of _ i] exI [of _ mc']) auto
qed

text \<open>
  After a search that fails the cursor stands where the key would be: record \<open>j\<close> is the first one after it.
\<close>

definition cursor_before :: "mdb_txn \<Rightarrow> nat \<Rightarrow> nat \<Rightarrow> mdb_cursor \<Rightarrow> nat \<Rightarrow> bool" where
  "cursor_before t dbi d mc j \<longleftrightarrow> cursor_ok t dbi d mc \<and>
     (if db_entries t dbi d = [] then \<not> bit (mc_flags mc) 0
      else bit (mc_flags mc) 0 \<and> (\<exists>a k p. at_leaf t dbi d mc a k p \<and> k \<le> pg_n p \<and> a + k = j))"

definition near_miss :: "mdb_txn \<Rightarrow> nat \<Rightarrow> nat \<Rightarrow> nat \<Rightarrow> (rc \<times> kv \<times> mdb_txn \<times> mdb_cursor) option \<Rightarrow> bool" where
  "near_miss t dbi d j res \<longleftrightarrow> (\<exists>mc'. res = Some (MDB_NOTFOUND, (None, None), t, mc') \<and> cursor_before t dbi d mc' j)"

lemma cursor_beforeI:
  assumes "db_ok valid t dbi d" "at_leaf t dbi d mc a k p" "k \<le> pg_n p" "bit (mc_flags mc) 0" "a + k = j"
  shows "cursor_before t dbi d mc j"
  using assms at_leaf_page(9) [OF assms(1,2)] by (auto simp: cursor_before_def cursor_ok_def)

text \<open>
  What \<open>mdb_cursor_set\<close> does: the cursor goes to the lower bound of the key, unless there is none or
  an exact match is required and that record has another key.  \<open>wk\<close>: the key is returned.
\<close>

definition set_spec ::
  "mdb_txn \<Rightarrow> nat \<Rightarrow> nat \<Rightarrow> byte list \<Rightarrow> bool \<Rightarrow> bool \<Rightarrow> bool \<Rightarrow> (rc \<times> kv \<times> mdb_txn \<times> mdb_cursor) option \<Rightarrow> bool" where
  "set_spec t dbi d key wk wd exact res \<longleftrightarrow> (\<exists>j. lower_bound (db_cmp t dbi) key (db_entries t dbi d) j \<and>
     (if j < length (db_entries t dbi d) \<and> (exact \<longrightarrow> nd_key (db_entries t dbi d ! j) = key)
      then moved_to t dbi d wk wd j res else near_miss t dbi d j res))"

abbreviation returns_key :: "mdb_cursor_op \<Rightarrow> bool" where
  "returns_key op \<equiv> op = MDB_SET_RANGE \<or> op = MDB_SET_KEY"

lemma set1_here:
  assumes ok: "db_ok valid t dbi d" and at: "at_leaf t dbi d mc a k p" and k: "k < pg_n p" and op: "op \<noteq> MDB_GET_BOTH" "op \<noteq> MDB_GET_BOTH_RANGE"
  shows "moved_to t dbi d (returns_key op) wd (a + k) (cursor_set1 t mc (Some (pg_ptr p k)) din wd op)"
proof -
  let ?mc = "mc\<lparr>mc_flags := (mc_flags mc OR C_INITIALIZED) AND u32_not C_EOF\<rparr>"
  have at': "at_leaf t dbi d ?mc a k p" by (rule at_leaf_flags [OF at]) (simp add: flag_simps)
  have "cursor_at t dbi d ?mc (a + k)" using at' k by (auto simp: cursor_at_def flag_simps)
  moreover have "cursor_set1 t mc (Some (pg_ptr p k)) din wd op =
      Some (MDB_SUCCESS, kv_out t (returns_key op) wd (db_entries t dbi d ! (a + k)), t, ?mc)"
    using node_here [OF ok at' k] at_leaf_page [OF ok at'] op by (auto simp: cursor_set1_def kv_out_def Let_def)
  moreover have "a + k < length (db_entries t dbi d)" using at_leaf_page(7) [OF ok at] k by simp
  ultimately show ?thesis by (auto simp: moved_to_def)
qed

lemma set2_spec:
  assumes ok: "db_ok valid t dbi d" and key: "valid key" and at: "at_leaf t dbi d mc a k p" and kp: "key_page t dbi d key a p"
    and f: "bit (mc_flags mc) 0" and op: "op \<noteq> MDB_GET_BOTH" "op \<noteq> MDB_GET_BOTH_RANGE"
  shows "set_spec t dbi d key (returns_key op) wd exactp (cursor_set2 t mc key din wd op exactp)"
proof -
  let ?E = "db_entries t dbi d"
  obtain i mc' where s: "cursor_node_search t mc key =
      Some (if i < pg_n p then Some (pg_ptr p i) else None, i < pg_n p \<and> nd_key (?E ! (a + i)) = key, mc')"
    "at_leaf t dbi d mc' a i p" "frame mc mc'" "i \<le> pg_n p" "lower_bound (db_cmp t dbi) key ?E (a + i)"
    using leaf_search [OF ok key at kp] by blast
  have f': "bit (mc_flags mc') 0" using f s(3) by (simp add: frame_def)
  have ok': "cursor_before t dbi d mc' (a + i)" by (rule cursor_beforeI [OF ok s(2,4) f' refl])
  note pg = at_leaf_page [OF ok s(2)]
  have bound: "j = a + i" if "lower_bound (db_cmp t dbi) key ?E j" for j by (rule lower_bound_unique [OF that s(5)])
  show ?thesis
  proof (cases "i < pg_n p")
    case True
    then have "a + i < length ?E" using pg(7) by simp
    then show ?thesis
      using True s(1,5) ok' set1_here [OF ok s(2) True op, of wd din]
      by (auto simp: set_spec_def cursor_set2_def near_miss_def intro!: exI [of _ "a + i"])
  next
    case False
    then have i: "i = pg_n p" using s(4) by simp
    note sib = sibling_moves_right [OF ok s(2)]
    show ?thesis
    proof (cases "a + pg_n p < length ?E")
      case True
      obtain mc2 q where m: "mdb_cursor_sibling t mc' True = Some (MDB_SUCCESS, t, mc2)" "frame mc' mc2" "at_leaf t dbi d mc2 (a + pg_n p) 0 q"
        using sib True by auto
      note q = at_leaf_page [OF ok m(3)] and nq = node_here [OF ok m(3) at_leaf_page(3) [OF ok m(3)]]
      have ne: "nd_key (?E ! (a + pg_n p)) \<noteq> key" 
        using kp key_order_laws(1) [OF db_cmp_ok [OF ok] key] True nth_mem [of 0 "drop (a + pg_n p) ?E"]
        by (auto simp: key_page_def around_def)
      show ?thesis
        using i s(1,5) ok' m(1) q(2,4) nq(1,3) True ne set1_here [OF ok m(3) q(3) op, of wd din]
        by (auto simp: set_spec_def cursor_set2_def near_miss_def intro!: exI [of _ "a + pg_n p"])
    next
      case no: False
      then show ?thesis
        using i s(1,5) ok' sib by (auto simp: set_spec_def cursor_set2_def near_miss_def intro!: exI [of _ "a + pg_n p"])
    qed
  qed
qed

lemma set_search_spec:
  assumes ok: "db_ok valid t dbi d" and key: "valid key" and ready: "cursor_ready t dbi mc" "cursor_ok t dbi d mc"
    and op: "op \<noteq> MDB_GET_BOTH" "op \<noteq> MDB_GET_BOTH_RANGE"
  shows "set_spec t dbi d key (returns_key op) wd exactp (cursor_set_search t mc key din wd op exactp)"
proof (cases "db_root t dbi = P_INVALID")
  case True
  have "mc_dbi mc = dbi" using ready by (simp add: cursor_ready_def)
  then show ?thesis
    using page_search_empty [OF ok _ True, of mc no_touch "Some key" 0] True ready(2)
    by (auto simp: cursor_before_def cursor_ok_def at_leaf_def cursor_set_search_def set_spec_def near_miss_def lower_bound_def db_entries_def)
next
  case False
  obtain mc' a k p where s: "mdb_page_search no_touch t mc (Some key) 0 = Some (MDB_SUCCESS, t, mc')" "at_leaf t dbi d mc' a k p"
    "key_page t dbi d key a p" "mc_flags mc' = (mc_flags mc OR C_INITIALIZED) AND u32_not C_EOF"
    using search_key [OF ok False ready(1) key] by blast
  have f: "bit (mc_flags mc') 0" by (simp add: s(4) flag_simps)
  show ?thesis
    using s(1) at_leaf_page [OF ok s(2)] node_here [OF ok s(2) at_leaf_page(3) [OF ok s(2)]] set2_spec [OF ok key s(2,3) f op]
    by (simp add: cursor_set_search_def)
qed

text \<open>A new cursor.\<close>

lemma set_blank_spec:
  assumes "db_ok valid t dbi d" "valid key" "key \<noteq> []" "op \<noteq> MDB_GET_BOTH" "op \<noteq> MDB_GET_BOTH_RANGE"
    "cursor_ok t dbi d mc" "\<not> bit (mc_flags mc) 0"
  shows "set_spec t dbi d key (returns_key op) wd exactp (mdb_cursor_set t mc key din wd op exactp)"
  using set_search_spec [OF assms(1,2) cursor_ok_ready [OF assms(6)] assms(6,4,5)] assms(3,7)
  by (simp add: mdb_cursor_set_def flag_simps)

end
