(* ===== verification/Cursor_Set.thy ===== *)
theory Cursor_Set
  imports Cursor_Spec
begin

text \<open>
  \<open>mdb_cursor_set\<close> on a cursor that is already on a page: the shortcuts that avoid the search from the root
  find the same record.  Then what \<open>mdb_get\<close> and \<open>mdb_cursor_get\<close> do, operation by operation.
\<close>

section \<open>Shortcuts\<close>

lemma run_cmp_cases:
  assumes c: "cmp_ok c valid" and v: "valid a" "valid b"
  obtains r where "run_cmp c a b = Some r" "r = 0 \<longleftrightarrow> a = b" "r < 0 \<longleftrightarrow> klt c a b" "r > 0 \<longleftrightarrow> klt c b a"
proof -
  note ord = c [unfolded cmp_ok_def, THEN conjunct1]
  obtain r where r: "run_cmp c a b = Some r" using key_order.cmp_defined [OF ord v] by auto
  then show ?thesis
    using that key_order.cmp_eq [OF ord v] key_order.cmp_swap [OF ord v(2,1)] by (auto simp: klt_def)
qed

lemma lower_bound_at:
  assumes ok: "db_ok valid t dbi d" and j: "j < length (db_entries t dbi d)" "nd_key (db_entries t dbi d ! j) = key"
  shows "lower_bound (db_cmp t dbi) key (db_entries t dbi d) j"
proof -
  let ?E = "db_entries t dbi d" and ?c = "db_cmp t dbi"
  note c = db_cmp_ok [OF ok]
  have v: "valid (nd_key (?E ! i))" if "i < length ?E" for i using db_sorted(1) [OF ok] that by simp
  have "\<not> klt ?c (nd_key (?E ! i)) key" if "i < length ?E" "j \<le> i" for i
  proof (cases "i = j")
    case True
    then show ?thesis using key_order_laws(1) [OF c v [OF that(1)]] j(2) by simp
  next
    case False
    then have "klt ?c key (nd_key (?E ! i))" using db_keys_less [OF ok, of j i] that j(2) by simp
    then show ?thesis using key_order_laws(4) [OF c v [OF j(1)] v [OF that(1)]] j(2) by simp
  qed
  then show ?thesis using db_keys_less [OF ok, of _ j] j by (auto simp: lower_bound_def)
qed

lemma key_page_between:
  assumes ok: "db_ok valid t dbi d" and key: "valid key" and at: "at_leaf t dbi d mc a k p"
    and lo: "klt (db_cmp t dbi) (nd_key (db_entries t dbi d ! a)) key"
    and hi: "klt (db_cmp t dbi) key (nd_key (db_entries t dbi d ! (a + pg_n p - 1)))"
  shows "key_page t dbi d key a p"
proof -
  let ?E = "db_entries t dbi d" and ?c = "db_cmp t dbi"
  note c = db_cmp_ok [OF ok] and pg = at_leaf_page [OF ok at]
  have v: "valid (nd_key (?E ! i))" if "i < length ?E" for i using db_sorted(1) [OF ok] that by simp
  have "klt ?c (nd_key (?E ! i)) key" if "i < a" for i
    using key_order_laws(2) [OF c v v key _ lo, of i] db_keys_less [OF ok that] that pg(3,7) by simp
  moreover have "klt ?c key (nd_key (?E ! i))" if "a + pg_n p \<le> i" "i < length ?E" for i
    using key_order_laws(2) [OF c key v v hi, of i] db_keys_less [OF ok, of "a + pg_n p - 1" i] that pg(3,7) by simp
  ultimately show ?thesis
    by (auto simp: key_page_def around_def in_set_conv_nth)
qed

lemma lower_bound_end:
  assumes ok: "db_ok valid t dbi d" and key: "valid key" and n: "db_entries t dbi d \<noteq> []"
    and hi: "klt (db_cmp t dbi) (nd_key (last (db_entries t dbi d))) key"
  shows "lower_bound (db_cmp t dbi) key (db_entries t dbi d) (length (db_entries t dbi d))"
proof -
  let ?E = "db_entries t dbi d" and ?c = "db_cmp t dbi"
  note c = db_cmp_ok [OF ok]
  have v: "valid (nd_key (?E ! i))" if "i < length ?E" for i using db_sorted(1) [OF ok] that by simp
  have "klt ?c (nd_key (?E ! i)) key" if "i < length ?E" for i
    using key_order_laws(2) [OF c v v key, of i "length ?E - 1"] db_keys_less [OF ok, of i "length ?E - 1"] that n hi
    by (cases "i = length ?E - 1") (auto simp: last_conv_nth)
  then show ?thesis by (auto simp: lower_bound_def)
qed

lemma lower_bound_start:
  assumes ok: "db_ok valid t dbi d" and key: "valid key" and n: "db_entries t dbi d \<noteq> []"
    and lo: "klt (db_cmp t dbi) key (nd_key (db_entries t dbi d ! 0))"
  shows "lower_bound (db_cmp t dbi) key (db_entries t dbi d) 0"
proof -
  let ?E = "db_entries t dbi d" and ?c = "db_cmp t dbi"
  note c = db_cmp_ok [OF ok]
  have v: "valid (nd_key (?E ! i))" if "i < length ?E" for i using db_sorted(1) [OF ok] that by simp
  have "klt ?c key (nd_key (?E ! i))" if "i < length ?E" for i
    using key_order_laws(2) [OF c key v v lo, of i] db_keys_less [OF ok, of 0 i] that n lo by (cases "i = 0") auto
  then show ?thesis using key_order_laws(4) [OF c key v] by (auto simp: lower_bound_def)
qed

text \<open>When no parent on the stack has a key to the right, the leaf is the last one.\<close>

lemma parent_more_last:
  assumes "tree_ok c valid t d pg lo hi" "desc t d pg ps ks = Some (d', pg')"
    and "\<And>j. j < length ps \<Longrightarrow> c_read (mc_ki mc) (i + j) = Some (ks ! j) \<and> c_read (mc_pg mc) (i + j) = Some (Some (ps ! j))"
  shows "\<exists>b. parent_has_more t mc i (length ps) = Some b \<and>
    (\<not> b \<longrightarrow> base t d pg ks + length (entries t d' pg') = length (entries t d pg))"
  using assms
proof (induction t d pg ps ks arbitrary: i lo hi rule: desc.induct)
  case (1 t d pg)
  then show ?case by (cases d) auto
next
  case (2 t d pg ptr ps k ks)
  obtain p where p: "tpage t pg = Some p" "page_at t ptr = Some p" "k < pg_n p" "desc t d (child p k) ps ks = Some (d', pg')"
    using "2.prems"(2) by (auto split: Option.bind_splits if_splits)
  note b = tree_ok_branch [OF "2.prems"(1) p(1)]
  have rd: "c_read (mc_ki mc) i = Some k" "c_read (mc_pg mc) i = Some (Some ptr)" using "2.prems"(3) [of 0] by auto
  have "\<exists>b. parent_has_more t mc (i + 1) (length ps) = Some b \<and>
    (\<not> b \<longrightarrow> base t d (child p k) ks + length (entries t d' pg') = length (entries t d (child p k)))"
  proof (rule "2.IH" [OF p(1) _ b(7) [OF p(3)] p(4)])
    show "page_at t ptr = Some p \<and> k < pg_n p" using p by simp
    show "c_read (mc_ki mc) (i + 1 + j) = Some (ks ! j) \<and> c_read (mc_pg mc) (i + 1 + j) = Some (Some (ps ! j))" if "j < length ps" for j
      using "2.prems"(3) [of "Suc j"] that by simp
  qed
  then obtain bb where bb: "parent_has_more t mc (Suc i) (length ps) = Some bb"
    "\<not> bb \<longrightarrow> base t d (child p k) ks + length (entries t d' pg') = length (entries t d (child p k))" by auto
  have n: "NUMKEYS p = Some (pg_n p)" using page_inv_len [OF b(1)] page_inv_bounds(1) [OF b(1)] by (simp add: NUMKEYS_eq)
  have u: "u32 (pg_n p + 4294967296 - 1) = pg_n p - 1" using page_n_small [OF b(1)] b(4) by (intro u32_sub) auto
  have more: "parent_has_more t mc i (length (ptr # ps)) = Some (k < pg_n p - 1 \<or> bb)"
    using rd p(2) n u bb(1) by (auto simp: pg_at_def)
  have tot: "base t (Suc d) pg (k # ks) + length (entries t d' pg') = length (entries t (Suc d) pg)" if "k = pg_n p - 1" "\<not> bb"
    using entries_children [OF p(1) p(3), of d] that bb(2) p(1) b(4) by simp
  show ?case
  proof (intro exI conjI impI)
    show "parent_has_more t mc i (length (ptr # ps)) = Some (k < pg_n p - 1 \<or> bb)" by (rule more)
    assume "\<not> (k < pg_n p - 1 \<or> bb)"
    then show "base t (Suc d) pg (k # ks) + length (entries t d' pg') = length (entries t (Suc d) pg)"
      using p(3) by (intro tot) auto
  qed
qed auto

lemma last_leaf:
  assumes ok: "db_ok valid t dbi d" and at: "at_leaf t dbi d mc a k p"
  shows "\<exists>b. parent_has_more t mc 0 (mc_top mc) = Some b \<and> (\<not> b \<longrightarrow> a + pg_n p = length (db_entries t dbi d))"
proof -
  have root: "db_root t dbi \<noteq> P_INVALID" using at by (auto simp: at_leaf_def)
  note tr = db_ok_tree [OF ok root]
  obtain ks ps ptr pg where r: "rep mc (ps @ [ptr]) (ks @ [k])" "desc t d (db_root t dbi) ps ks = Some (0, pg)"
    "tpage t pg = Some p" "page_at t ptr = Some p" "a = base t d (db_root t dbi) ks"
    using at by (auto simp: at_leaf_def on_leaf_def)
  have rep: "length (mc_pg mc) = 32" "length (mc_ki mc) = 32" "take (length (ps @ [ptr])) (mc_pg mc) = map Some (ps @ [ptr])"
    "take (length (ks @ [k])) (mc_ki mc) = ks @ [k]" "length ps = length ks" using r(1) by (auto simp: rep_def)
  have l32: "length ps < 32" using rep_len [OF r(1)] by simp
  have "c_read (mc_ki mc) (0 + j) = Some (ks ! j) \<and> c_read (mc_pg mc) (0 + j) = Some (Some (ps ! j))" if j: "j < length ps" for j
  proof -
    have "take (length (ks @ [k])) (mc_ki mc) ! j = (ks @ [k]) ! j" "take (length (ps @ [ptr])) (mc_pg mc) ! j = map Some (ps @ [ptr]) ! j"
      unfolding rep(3,4) by simp_all
    then show ?thesis using j l32 rep(1,2,5) by (simp add: nth_append mem_simps)
  qed
  from parent_more_last [OF tr(4) r(2) this] obtain b where b: "parent_has_more t mc 0 (length ps) = Some b"
    "\<not> b \<longrightarrow> base t d (db_root t dbi) ks + length (entries t 0 pg) = length (entries t d (db_root t dbi))" by auto
  then show ?thesis using rep_top(3) [OF r(1)] r(3,5) tr(5) by auto
qed

lemma key_at_here:
  assumes ok: "db_ok valid t dbi d" and at: "at_leaf t dbi d mc a k p" and i: "i < pg_n p"
  shows "cursor_key_at t mc p i = Some (nd_key (db_entries t dbi d ! (a + i)), Some (pg_ptr p i))"
proof -
  note n = node_here [OF ok at i]
  have "pg_flags p AND P_LEAF2 = 0" using n(2) and_exp [of "pg_flags p" 5] by (auto simp: IS_LEAF2_def F_ISSET_def P_LEAF2_def)
  then show ?thesis using n by (simp add: cursor_key_at_def)
qed

lemma set_ki_here:
  assumes "db_ok valid t dbi d" "at_leaf t dbi d mc a k p" "i \<le> pg_n p" "bit (mc_flags mc) 0"
  obtains mc' where "set_ki mc i = Some mc'" "at_leaf t dbi d mc' a i p" "bit (mc_flags mc') 0" "cursor_before t dbi d mc' (a + i)"
proof -
  have "i < 65536" using assms(3) at_leaf_page(8) [OF assms(1,2)] by simp
  then obtain mc' where mc': "set_ki mc i = Some mc'" "at_leaf t dbi d mc' a i p" "frame mc mc'"
    using at_leaf_set_ki [OF assms(2)] by blast
  then have "bit (mc_flags mc') 0" using assms(4) by (simp add: frame_def)
  then show ?thesis using that mc' cursor_beforeI [OF assms(1) mc'(2) assms(3)] by auto
qed

text \<open>The key is on the page, at index \<open>i\<close>.\<close>

lemma set1_spec:
  assumes ok: "db_ok valid t dbi d" and at: "at_leaf t dbi d mc a i p" and i: "i < pg_n p" and key: "nd_key (db_entries t dbi d ! (a + i)) = key"
    and op: "op \<noteq> MDB_GET_BOTH" "op \<noteq> MDB_GET_BOTH_RANGE"
  shows "set_spec t dbi d key (returns_key op) wd exactp (cursor_set1 t mc (Some (pg_ptr p i)) din wd op)"
proof -
  have "a + i < length (db_entries t dbi d)" using at_leaf_page(7) [OF ok at] i by simp
  then show ?thesis
    using lower_bound_at [OF ok _ key] set1_here [OF ok at i op, of wd din] key
    by (auto simp: set_spec_def intro!: exI [of _ "a + i"])
qed

text \<open>The key is larger than every key of the page.\<close>

lemma set_beyond:
  assumes ok: "db_ok valid t dbi d" and key: "valid key" and at: "at_leaf t dbi d mc a k p" "k \<le> pg_n p" and f: "bit (mc_flags mc) 0"
    and op: "op \<noteq> MDB_GET_BOTH" "op \<noteq> MDB_GET_BOTH_RANGE"
    and hi: "klt (db_cmp t dbi) (nd_key (db_entries t dbi d ! (a + pg_n p - 1))) key"
  shows "set_spec t dbi d key (returns_key op) wd exactp (do {
      more \<leftarrow> parent_has_more t mc 0 (mc_top mc);
      if \<not> more then do { mc \<leftarrow> set_ki mc (pg_n p); Some (MDB_NOTFOUND, (None, None), t, mc) }
      else cursor_set_search t mc key din wd op exactp })"
proof -
  have mok: "cursor_ok t dbi d mc" using at f by (auto simp: cursor_ok_def)
  obtain b where b: "parent_has_more t mc 0 (mc_top mc) = Some b" "\<not> b \<longrightarrow> a + pg_n p = length (db_entries t dbi d)"
    using last_leaf [OF ok at(1)] by blast
  show ?thesis
  proof (cases b)
    case True
    then show ?thesis using b(1) set_search_spec [OF ok key cursor_ok_ready [OF mok] mok op] by simp
  next
    case False
    obtain mc' where mc': "set_ki mc (pg_n p) = Some mc'" "cursor_before t dbi d mc' (a + pg_n p)"
      using set_ki_here [OF ok at(1) _ f, of "pg_n p"] by auto
    have "lower_bound (db_cmp t dbi) key (db_entries t dbi d) (length (db_entries t dbi d))"
      using hi b(2) False at_leaf_page(9) [OF ok at(1)] by (intro lower_bound_end [OF ok key]) (auto simp: last_conv_nth)
    then show ?thesis using b False mc' by (auto simp: set_spec_def near_miss_def)
  qed
qed

lemma set_here_spec:
  assumes ok: "db_ok valid t dbi d" and key: "valid key" and at: "at_leaf t dbi d mc a k p" "k \<le> pg_n p" and f: "bit (mc_flags mc) 0"
    and op: "op \<noteq> MDB_GET_BOTH" "op \<noteq> MDB_GET_BOTH_RANGE" and ex: "exactp \<longleftrightarrow> op \<noteq> MDB_SET_RANGE"
  shows "set_spec t dbi d key (returns_key op) wd exactp (cursor_set_here t mc key din wd op exactp)"
proof -
  let ?E = "db_entries t dbi d" and ?c = "db_cmp t dbi"
  note c = db_cmp_ok [OF ok] and pg = at_leaf_page [OF ok at(1)] and kat = key_at_here [OF ok at(1)]
  have mok: "cursor_ok t dbi d mc" using at f by (auto simp: cursor_ok_def)
  have dbi: "mc_dbi mc = dbi" using at(1) by (simp add: at_leaf_def)
  have v: "valid (nd_key (?E ! (a + i)))" if "i < pg_n p" for i using db_sorted(1) [OF ok] pg(7) that by simp
  obtain c0 where c0: "run_cmp ?c key (nd_key (?E ! (a + 0))) = Some c0" "c0 = 0 \<longleftrightarrow> key = nd_key (?E ! (a + 0))"
    "c0 < 0 \<longleftrightarrow> klt ?c key (nd_key (?E ! (a + 0)))" "c0 > 0 \<longleftrightarrow> klt ?c (nd_key (?E ! (a + 0))) key"
    using run_cmp_cases [OF c key v [OF pg(3)]] by blast
  note head = pg(3,4,6) kat [OF pg(3)] db_ok_db(2) [OF ok dbi] c0(1)
  obtain mc0 where mc0: "set_ki mc 0 = Some mc0" "at_leaf t dbi d mc0 a 0 p" "bit (mc_flags mc0) 0" "cursor_before t dbi d mc0 (a + 0)"
    using set_ki_here [OF ok at(1) _ f, of 0] by auto
  have last: "pg_n p - 1 < pg_n p" using pg(3) by simp
  obtain cl where cl: "run_cmp ?c key (nd_key (?E ! (a + (pg_n p - 1)))) = Some cl" "cl = 0 \<longleftrightarrow> key = nd_key (?E ! (a + (pg_n p - 1)))"
    "cl < 0 \<longleftrightarrow> klt ?c key (nd_key (?E ! (a + (pg_n p - 1))))" "cl > 0 \<longleftrightarrow> klt ?c (nd_key (?E ! (a + (pg_n p - 1)))) key"
    using run_cmp_cases [OF c key v [OF last]] by blast
  have pred: "a + pg_n p - 1 = a + (pg_n p - 1)" using pg(3) by simp
  consider (first) "c0 = 0" | (below) "c0 < 0" | (only) "c0 > 0" "pg_n p = 1" | (last) "c0 > 0" "pg_n p > 1" "cl = 0"
    | (inside) "c0 > 0" "pg_n p > 1" "cl < 0" | (beyond) "c0 > 0" "pg_n p > 1" "cl > 0"
    using pg(3) by fastforce
  then show ?thesis
  proof cases
    case first
    then show ?thesis
      using set1_spec [OF ok mc0(2) pg(3) _ op, of key wd exactp din] c0(2) head mc0(1) by (simp add: cursor_set_here_def)
  next
    case below
    show ?thesis
    proof (cases "mc_top mc = 0")
      case True
      then have "a = 0" by (rule at_root [OF at(1)])
      then have lb: "lower_bound ?c key ?E 0" using lower_bound_start [OF ok key pg(9)] below c0(3) by simp
      have ne: "nd_key (?E ! 0) \<noteq> key" using below c0(2) \<open>a = 0\<close> by auto
      have here: "cursor_set_here t mc key din wd op exactp =
          (if op = MDB_SET_RANGE then cursor_set1 t mc0 (Some (pg_ptr p 0)) din wd op else Some (MDB_NOTFOUND, (None, None), t, mc0))"
        using below True head mc0(1) ex by (simp add: cursor_set_here_def)
      have "moved_to t dbi d (returns_key op) wd 0 (cursor_set1 t mc0 (Some (pg_ptr p 0)) din wd op)"
        using set1_here [OF ok mc0(2) pg(3) op, of wd din] \<open>a = 0\<close> by simp
      then show ?thesis
        unfolding set_spec_def here using lb ne mc0(4) pg(9) ex \<open>a = 0\<close> by (intro exI [of _ 0]) (auto simp: near_miss_def)
    next
      case False
      then show ?thesis
        using below head set_search_spec [OF ok key cursor_ok_ready [OF mok] mok op] by (simp add: cursor_set_here_def)
    qed
  next
    case only
    then have "klt ?c (nd_key (?E ! (a + pg_n p - 1))) key" using c0(4) by simp
    from set_beyond [OF ok key at f op this, of wd exactp din, unfolded only(2) One_nat_def] show ?thesis
      using only head by (simp add: cursor_set_here_def)
  next
    case last
    obtain ml where ml: "set_ki mc (pg_n p - 1) = Some ml" "at_leaf t dbi d ml a (pg_n p - 1) p"
      using set_ki_here [OF ok at(1) _ f, of "pg_n p - 1"] by auto
    have "pg_n p - 1 < pg_n p" using pg(3) by simp
    from set1_spec [OF ok ml(2) this _ op, of key wd exactp din] kat [OF this] show ?thesis
      using last cl(1,2) head ml(1) by (simp add: cursor_set_here_def)
  next
    case inside
    have kp: "key_page t dbi d key a p" using key_page_between [OF ok key at(1)] inside c0(4) cl(3) pred by simp
    note s2 = set2_spec [OF ok key at(1) kp f op, of wd exactp din]
    have "pg_n p - 1 < pg_n p" using pg(3) by simp
    note kl = kat [OF this]
    show ?thesis
    proof (cases "k < pg_n p")
      case True
      obtain cc where cc: "run_cmp ?c key (nd_key (?E ! (a + k))) = Some cc" "cc = 0 \<longleftrightarrow> key = nd_key (?E ! (a + k))"
        using run_cmp_cases [OF c key v [OF True]] by blast
      show ?thesis
        using inside head kl cl(1) kat [OF True] cc pg(5) True s2 set1_spec [OF ok at(1) True _ op, of key wd exactp din]
        by (cases "cc = 0") (simp_all add: cursor_set_here_def)
    next
      case False
      then show ?thesis using inside head kl cl(1) pg(5) s2 by (simp add: cursor_set_here_def)
    qed
  next
    case beyond
    then have "klt ?c (nd_key (?E ! (a + pg_n p - 1))) key" using cl(4) pred by simp
    note b = set_beyond [OF ok key at f op this, of wd exactp din]
    have "pg_n p - 1 < pg_n p" using pg(3) by simp
    from kat [OF this] show ?thesis using beyond head cl(1) b by (simp add: cursor_set_here_def)
  qed
qed

lemma set_any_spec:
  assumes ok: "db_ok valid t dbi d" and key: "valid key" "key \<noteq> []" and mc: "cursor_ok t dbi d mc"
    and op: "op \<noteq> MDB_GET_BOTH" "op \<noteq> MDB_GET_BOTH_RANGE" and ex: "exactp \<longleftrightarrow> op \<noteq> MDB_SET_RANGE"
  shows "set_spec t dbi d key (returns_key op) wd exactp (mdb_cursor_set t mc key din wd op exactp)"
proof (cases "bit (mc_flags mc) 0")
  case True
  then obtain a k p where "at_leaf t dbi d mc a k p" "k \<le> pg_n p" using cursor_ok_init [OF mc] by blast
  from set_here_spec [OF ok key(1) this True op ex] show ?thesis using True key(2) by (simp add: mdb_cursor_set_def flag_simps)
next
  case False
  then show ?thesis using set_blank_spec [OF ok key op mc] by simp
qed

end
