(* ===== verification/Cursor_Ops.thy ===== *)
theory Cursor_Ops
  imports Cursor_Set
begin

text \<open>
  The read interface of a database: \<open>mdb_get\<close> looks a key up in the map of the records, and the operations of
  \<open>mdb_cursor_get\<close> move along the ordered list of the records.
\<close>

section \<open>The interface\<close>

lemma flag_updates_del [flag_simps]:
  "bit (f XOR C_DEL) 0 = bit f 0" "bit (f XOR C_DEL) (Suc 0) = bit f (Suc 0)" "bit (f XOR C_DEL) 3 \<longleftrightarrow> \<not> bit f 3"
  by (simp_all add: C_DEL_def bit_simps)

text \<open>The cursor ends on record \<open>i\<close> and the record is returned.\<close>

definition on_record ::
  "mdb_txn \<Rightarrow> nat \<Rightarrow> nat \<Rightarrow> bool \<Rightarrow> bool \<Rightarrow> nat \<Rightarrow> (rc \<times> kv \<times> mdb_txn \<times> mdb_cursor) option \<Rightarrow> bool" where
  "on_record t dbi d wk wd i res \<longleftrightarrow> i < length (db_entries t dbi d) \<and>
     (\<exists>mc'. res = Some (MDB_SUCCESS, kv_out t wk wd (db_entries t dbi d ! i), t, mc') \<and> cursor_at t dbi d mc' i \<and>
        mc_flags mc' AND C_DEL = 0)"

text \<open>No record: the cursor is still usable.\<close>

definition no_record :: "mdb_txn \<Rightarrow> nat \<Rightarrow> nat \<Rightarrow> (rc \<times> kv \<times> mdb_txn \<times> mdb_cursor) option \<Rightarrow> bool" where
  "no_record t dbi d res \<longleftrightarrow> (\<exists>mc'. res = Some (MDB_NOTFOUND, (None, None), t, mc') \<and> cursor_ok t dbi d mc' \<and>
     mc_flags mc' AND C_DEL = 0)"

text \<open>No record, and the cursor is left just before record \<open>j\<close>.\<close>

definition no_record_before :: "mdb_txn \<Rightarrow> nat \<Rightarrow> nat \<Rightarrow> nat \<Rightarrow> (rc \<times> kv \<times> mdb_txn \<times> mdb_cursor) option \<Rightarrow> bool" where
  "no_record_before t dbi d j res \<longleftrightarrow> (\<exists>mc'. res = Some (MDB_NOTFOUND, (None, None), t, mc') \<and> cursor_before t dbi d mc' j \<and>
     mc_flags mc' AND C_DEL = 0)"

lemma at_leaf_same_flags:
  assumes "bit f 1 = bit (mc_flags mc) 1"
  shows "at_leaf t dbi d (mc\<lparr>mc_flags := f\<rparr>) a k p = at_leaf t dbi d mc a k p"
  using assms by (simp add: at_leaf_def on_leaf_flags)

lemma same_flags:
  assumes "bit f 0 = bit (mc_flags mc) 0" "bit f 1 = bit (mc_flags mc) 1"
  shows "cursor_at t dbi d (mc\<lparr>mc_flags := f\<rparr>) i = cursor_at t dbi d mc i"
    "cursor_ok t dbi d (mc\<lparr>mc_flags := f\<rparr>) = cursor_ok t dbi d mc"
    "cursor_before t dbi d (mc\<lparr>mc_flags := f\<rparr>) i = cursor_before t dbi d mc i"
  using assms by (simp_all add: cursor_at_def cursor_ok_def cursor_before_def at_leaf_same_flags cursor_ready_def)

text \<open>The end of \<open>mdb_cursor_get\<close>: the mark of a deletion is cleared.\<close>

lemma get_ends:
  assumes "mt_flags t AND MDB_TXN_ERROR = 0"
  shows "moved_to t dbi d wk wd i (cursor_get_op t mc kin din op) \<Longrightarrow> on_record t dbi d wk wd i (mdb_cursor_get t mc kin din op)"
    "not_found t dbi d (cursor_get_op t mc kin din op) \<Longrightarrow> no_record t dbi d (mdb_cursor_get t mc kin din op)"
    "near_miss t dbi d j (cursor_get_op t mc kin din op) \<Longrightarrow> no_record_before t dbi d j (mdb_cursor_get t mc kin din op)"
  using assms
  by (auto simp: moved_to_def not_found_def near_miss_def on_record_def no_record_def no_record_before_def mdb_cursor_get_def
      flag_simps same_flags)

lemma db_ok_flags: "db_ok valid t dbi d \<Longrightarrow> mt_flags t AND MDB_TXN_ERROR = 0"
  by (simp add: db_ok_def)

section \<open>A sample database\<close>

text \<open>A read transaction on a database with one leaf page, holding the records \<open>A\<close> and \<open>B\<close>.\<close>

definition sample_db :: mdb_db where
  "sample_db = \<lparr>md_pad = 0, md_flags = 0, md_depth = 1, md_branch_pages = 0, md_leaf_pages = 1, md_overflow_pages = 0,
     md_entries = 2, md_root = 2\<rparr>"

definition sample_env :: mdb_env where
  "sample_env = \<lparr>me_flags = 0, me_psize = 44, me_maxpg = 3, me_nodemax = 14, me_map = replicate 88 0 @ sample_leaf,
     me_dbiseqs = [0, 0], me_pghead = None, me_pglast = 0, me_pgoldest = 0, me_dpages = [], me_txns = None, me_mapsize = 132, me_maxreaders = 126, me_numreaders = 0,
     me_numdbs = 2, me_maxdbs = 2, me_pid = 1, me_dbxs = replicate 2 \<lparr>md_name = None, md_cmp = Cmp_memn, md_dcmp = Cmp_memn\<rparr>,
     me_dbflags = [0, 0], me_txkey = (\<lambda>_. None), me_live_reader = False, me_free_pgs = None, me_dirty_list = [], me_txn = False\<rparr>"

definition sample_txn :: mdb_txn where
  "sample_txn = \<lparr>mt_env = sample_env, mt_heap = Map.empty, mt_flags = MDB_TXN_RDONLY, mt_txnid = 1, mt_next_pgno = 3,
     mt_levels = [], mt_free_pgs = \<lparr>alloclen = 0, cells = []\<rparr>, mt_loose_pgs = [], mt_loose_count = 0, mt_dirty_room = 0, mt_dbs = [sample_db, sample_db],
     mt_dbxs = replicate 2 \<lparr>md_name = None, md_cmp = Cmp_memn, md_dcmp = Cmp_memn\<rparr>, mt_dbflags = [DB_VALID, DB_VALID],
     mt_dbiseqs = [0, 0], mt_numdbs = 2, mt_cursors = None, mt_reader = None, mt_reset = False,
     mt_brk = 0, mt_oom = (\<lambda>_. False), mt_junk = (\<lambda>_ _. 0)\<rparr>"

lemma sample_page_get: "mdb_page_get sample_txn 2 = Some (Inr (PMap 2, 0), sample_txn)"
  by (simp add: mdb_page_get_def sample_txn_def sample_env_def MDB_TXN_RDONLY_def)

lemma sample_page_at: "page_at sample_txn (PMap 2) = Some sample_leaf"
  by (simp add: page_at_def mem_bytes_def sample_txn_def sample_env_def get_bytes_def sample_header slice_def)

lemma sample_tpage: "tpage sample_txn 2 = Some sample_leaf"
  by (simp add: tpage_def sample_page_get sample_page_at)

lemma sample_root: "md_root (mt_dbs sample_txn ! 1) = 2" "md_cmp (mt_dbxs sample_txn ! 1) = Cmp_memn"
  "2 \<noteq> P_INVALID"
  by (simp_all add: sample_txn_def sample_db_def P_INVALID_def)

lemma sample_nodes: "page_nodes sample_leaf = [[1,0, 0,0, 0,0, 1,0, 65, 120], [1,0, 0,0, 0,0, 1,0, 66, 121]]"
  by (simp add: page_nodes_def sample_header node_at_def sample_node_len) (simp add: sample_leaf_def slice_def)

lemma sample_entries: "db_entries sample_txn 1 0 = page_nodes sample_leaf"
  using sample_root by (simp add: db_entries_def sample_tpage)

lemma sample_record: "record_data sample_txn [1,0, 0,0, 0,0, 1,0, 65, 120] = Some [120]" "record_data sample_txn [1,0, 0,0, 0,0, 1,0, 66, 121] = Some [121]"
  "nd_key [1,0, 0,0, 0,0, 1,0, 65, 120] = [65]" "nd_key [1,0, 0,0, 0,0, 1,0, 66, 121] = [66]"
  by (simp_all add: record_data_def nd_flags_def nd_ksize_def nd_dsize_def nd_key_def slice_def)

lemma sample_less: "klt Cmp_memn [65] [66]"
  by (simp add: klt_def mdb_cmp_memn_def)

lemma sample_tree: "tree_ok Cmp_memn (\<lambda>k. length k < 2 ^ 32) sample_txn 0 2 None None"
  using sample_inv sample_less
  by (simp add: tree_ok.simps sample_tpage sample_header leaf_flag page_keys_def sample_keys above_def below_def)

lemma sample_ok: "db_ok (\<lambda>k. length k < 2 ^ 32) sample_txn 1 0"
proof -
  have "\<forall>r \<in> set (db_entries sample_txn 1 0). record_ok sample_txn r"
    unfolding sample_entries sample_nodes
    by (simp add: record_ok_def sample_record) (simp add: nd_flags_def F_ISSET_def F_DUPDATA_def slice_def)
  moreover have "length (mt_dbs sample_txn) = 2" "length (mt_dbxs sample_txn) = 2" "length (mt_dbflags sample_txn) = 2"
    "mt_flags sample_txn AND MDB_TXN_ERROR = 0" "mt_dbflags sample_txn ! 1 AND DB_STALE = 0"
    "md_flags (mt_dbs sample_txn ! 1) AND MDB_DUPSORT = 0"
    by (simp_all add: sample_txn_def sample_db_def MDB_TXN_RDONLY_def MDB_TXN_ERROR_def DB_VALID_def DB_STALE_def)
  ultimately show ?thesis
    unfolding db_ok_def sample_root using sample_tree cmp_ok_memn by simp
qed

lemma sample_ready: "cursor_ok sample_txn 1 0 (cursor_blank 1)"
  using blank_ready [of sample_txn 1] by (simp add: cursor_ok_def) (simp add: cursor_blank_def)

section \<open>Looking up a key\<close>

text \<open>C1: in a well-formed database \<open>mdb_get\<close> returns exactly what the map of the records holds for the key, whatever the
  depth of the tree and wherever the data is stored (on the leaf or on overflow pages), reports
  \<open>MDB_NOTFOUND\<close> for every other key, and leaves the transaction unchanged.\<close>

theorem mdb_get_correct:
  assumes ok: "db_ok valid t dbi d" and key: "valid key" "key \<noteq> []"
    and dbi: "dbi \<noteq> FREE_DBI" "dbi < mt_numdbs t" "(mt_dbflags t ! dbi) AND DB_VALID \<noteq> 0"
  shows "mdb_get t dbi key = Some (case db_map t dbi d key of
      None \<Rightarrow> (MDB_NOTFOUND, None, t) | Some v \<Rightarrow> (MDB_SUCCESS, Some v, t))"
proof -
  have pre: "TXN_DBI_EXIST t dbi = Some True" "mdb_cursor_init t dbi = Some (t, cursor_blank dbi)" "mt_flags t AND MDB_TXN_ERROR = 0"
    using ok dbi by (auto simp: TXN_DBI_EXIST_def mdb_cursor_init_def db_ok_def mem_simps)
  have blank: "cursor_ok t dbi d (cursor_blank dbi)"
    using blank_ready [of t dbi] by (simp add: cursor_ok_def) (simp add: cursor_blank_def)
  obtain j where j: "lower_bound (db_cmp t dbi) key (db_entries t dbi d) j"
    "if j < length (db_entries t dbi d) \<and> nd_key (db_entries t dbi d ! j) = key
     then moved_to t dbi d False True j (mdb_cursor_set t (cursor_blank dbi) key None True MDB_SET True)
     else near_miss t dbi d j (mdb_cursor_set t (cursor_blank dbi) key None True MDB_SET True)"
    using set_any_spec [OF ok key blank, of MDB_SET True True None] by (auto simp: set_spec_def)
  have "record_data t (db_entries t dbi d ! j) \<noteq> None" if "j < length (db_entries t dbi d)"
    using ok that by (auto simp: db_ok_def record_ok_def)
  then show ?thesis
    using pre dbi(1) j(2) lookup_lower_bound [OF ok key(1) j(1)]
    by (auto simp: mdb_get_def moved_to_def near_miss_def kv_out_def split: if_splits)
qed

theorem mdb_get_correct_witness: "mdb_get sample_txn 1 [66] = Some (MDB_SUCCESS, Some [121], sample_txn)"
proof -
  have "db_map sample_txn 1 0 [66] = Some [121]"
    unfolding db_map_def sample_entries sample_nodes by (simp add: sample_record)
  then show ?thesis
    using mdb_get_correct [OF sample_ok, of "[66]"]
    by (simp add: FREE_DBI_def sample_txn_def DB_VALID_def)
qed

section \<open>Moving a cursor\<close>

lemma get_ends_if:
  assumes "db_ok valid t dbi d"
    and "if P then moved_to t dbi d wk wd i (cursor_get_op t mc kin din op) else not_found t dbi d (cursor_get_op t mc kin din op)"
  shows "if P then on_record t dbi d wk wd i (mdb_cursor_get t mc kin din op) else no_record t dbi d (mdb_cursor_get t mc kin din op)"
  using get_ends(1,2) [OF db_ok_flags [OF assms(1)]] assms(2) by (meson)

lemma cursor_op_eqs:
  "cursor_get_op t mc kin din MDB_FIRST = mdb_cursor_first t mc (kin \<noteq> None) (din \<noteq> None)"
  "cursor_get_op t mc kin din MDB_LAST = mdb_cursor_last t mc (kin \<noteq> None) (din \<noteq> None)"
  "bit (mc_flags mc) 0 \<Longrightarrow> cursor_get_op t mc kin din MDB_NEXT = mdb_cursor_next t mc (kin \<noteq> None) (din \<noteq> None) MDB_NEXT"
  "bit (mc_flags mc) 0 \<Longrightarrow> cursor_get_op t mc kin din MDB_PREV = mdb_cursor_prev t mc (kin \<noteq> None) (din \<noteq> None) MDB_PREV"
  by (simp_all add: cursor_get_op_def flag_simps)

lemma get_first:
  assumes "db_ok valid t dbi d" "cursor_ok t dbi d mc"
  shows "if db_entries t dbi d \<noteq> [] then on_record t dbi d (kin \<noteq> None) (din \<noteq> None) 0 (mdb_cursor_get t mc kin din MDB_FIRST)
    else no_record t dbi d (mdb_cursor_get t mc kin din MDB_FIRST)"
  by (rule get_ends_if [OF assms(1)]) (use first_moves [OF assms] in \<open>auto simp: cursor_op_eqs\<close>)

lemma get_last:
  assumes "db_ok valid t dbi d" "cursor_ok t dbi d mc"
  shows "if db_entries t dbi d \<noteq> []
    then on_record t dbi d (kin \<noteq> None) (din \<noteq> None) (length (db_entries t dbi d) - 1) (mdb_cursor_get t mc kin din MDB_LAST)
    else no_record t dbi d (mdb_cursor_get t mc kin din MDB_LAST)"
  by (rule get_ends_if [OF assms(1)]) (use last_moves [OF assms] in \<open>auto simp: cursor_op_eqs\<close>)

lemma get_next:
  assumes ok: "db_ok valid t dbi d" and at: "cursor_at t dbi d mc i" and del: "mc_flags mc AND C_DEL = 0"
  shows "if i + 1 < length (db_entries t dbi d) then on_record t dbi d (kin \<noteq> None) (din \<noteq> None) (i + 1) (mdb_cursor_get t mc kin din MDB_NEXT)
    else no_record t dbi d (mdb_cursor_get t mc kin din MDB_NEXT)"
proof (rule get_ends_if [OF ok])
  have b: "bit (mc_flags mc) 0" "\<not> bit (mc_flags mc) 3" using at del by (simp_all add: cursor_at_def flag_simps)
  show "if i + 1 < length (db_entries t dbi d) then moved_to t dbi d (kin \<noteq> None) (din \<noteq> None) (i + 1) (cursor_get_op t mc kin din MDB_NEXT)
    else not_found t dbi d (cursor_get_op t mc kin din MDB_NEXT)"
    using next_moves [OF ok at b(2), of "kin \<noteq> None" "din \<noteq> None" MDB_NEXT] by (simp only: cursor_op_eqs b(1))
qed

lemma prev_from:
  assumes ok: "db_ok valid t dbi d" and f: "bit (mc_flags mc) 0" and l: "at_leaf t dbi d mc a k p" "k \<le> pg_n p"
  shows "if 0 < a + k then on_record t dbi d (kin \<noteq> None) (din \<noteq> None) (a + k - 1) (mdb_cursor_get t mc kin din MDB_PREV)
    else no_record t dbi d (mdb_cursor_get t mc kin din MDB_PREV)"
  by (rule get_ends_if [OF ok])
    (use prev_moves [OF ok f l, of "kin \<noteq> None" "din \<noteq> None" MDB_PREV] f in \<open>simp only: cursor_op_eqs\<close>)

lemma get_prev:
  assumes ok: "db_ok valid t dbi d" and at: "cursor_at t dbi d mc i"
  shows "if 0 < i then on_record t dbi d (kin \<noteq> None) (din \<noteq> None) (i - 1) (mdb_cursor_get t mc kin din MDB_PREV)
    else no_record t dbi d (mdb_cursor_get t mc kin din MDB_PREV)"
proof -
  obtain a k p where l: "at_leaf t dbi d mc a k p" "k < pg_n p" "i = a + k" and f: "bit (mc_flags mc) 0"
    using at by (auto simp: cursor_at_def)
  have k: "k \<le> pg_n p" using l(2) by simp
  show ?thesis unfolding l(3) by (rule prev_from [OF ok f l(1) k])
qed

text \<open>On a cursor that has not been used, \<open>MDB_PREV\<close> goes to the last record.\<close>

lemma get_prev_new:
  assumes ok: "db_ok valid t dbi d" and mc: "cursor_ok t dbi d mc" and f: "\<not> bit (mc_flags mc) 0"
  shows "if db_entries t dbi d \<noteq> []
    then on_record t dbi d (kin \<noteq> None) (din \<noteq> None) (length (db_entries t dbi d) - 1) (mdb_cursor_get t mc kin din MDB_PREV)
    else no_record t dbi d (mdb_cursor_get t mc kin din MDB_PREV)"
proof (cases "db_entries t dbi d = []")
  case True
  then have "not_found t dbi d (mdb_cursor_last t mc (kin \<noteq> None) (din \<noteq> None))" using last_moves [OF ok mc] by simp
  then have "not_found t dbi d (cursor_get_op t mc kin din MDB_PREV)"
    using f by (auto simp: cursor_get_op_def flag_simps not_found_def)
  then show ?thesis using True get_ends(2) [OF db_ok_flags [OF ok]] by auto
next
  case False
  let ?n = "length (db_entries t dbi d)"
  obtain mc1 where l: "mdb_cursor_last t mc (kin \<noteq> None) (din \<noteq> None) =
      Some (MDB_SUCCESS, kv_out t (kin \<noteq> None) (din \<noteq> None) (db_entries t dbi d ! (?n - 1)), t, mc1)" "cursor_at t dbi d mc1 (?n - 1)"
    using last_moves [OF ok mc, of "kin \<noteq> None" "din \<noteq> None"] False by (auto simp: moved_to_def)
  obtain a k p where at: "at_leaf t dbi d mc1 a k p" "k < pg_n p" "?n - 1 = a + k" using l(2) by (auto simp: cursor_at_def)
  define mc2 where "mc2 = mc1\<lparr>mc_flags := mc_flags mc1 OR C_INITIALIZED\<rparr>"
  have at2: "at_leaf t dbi d mc2 a k p" unfolding mc2_def by (subst at_leaf_same_flags) (simp_all add: at flag_simps)
  have f2: "bit (mc_flags mc2) 0" by (simp add: mc2_def flag_simps)
  have le: "k + 1 \<le> pg_n p" using at(2) by simp
  obtain mc3 where mc3: "set_ki mc2 (k + 1) = Some mc3" "at_leaf t dbi d mc3 a (k + 1) p" "bit (mc_flags mc3) 0"
    using set_ki_here [OF ok at2 le f2] by metis
  have ki: "top_ki mc2 = Some k" using at_leaf_page(5) [OF ok at2] .
  have op: "cursor_get_op t mc kin din MDB_PREV = mdb_cursor_prev t mc3 (kin \<noteq> None) (din \<noteq> None) MDB_PREV"
    using f l(1) mc3(1) ki by (simp add: cursor_get_op_def flag_simps mc2_def [symmetric] Let_def)
  have "moved_to t dbi d (kin \<noteq> None) (din \<noteq> None) (?n - 1) (cursor_get_op t mc kin din MDB_PREV)"
    unfolding op using prev_moves [OF ok mc3(3,2) le, of "kin \<noteq> None" "din \<noteq> None" MDB_PREV] at(3) by simp
  then show ?thesis using False get_ends(1) [OF db_ok_flags [OF ok]] by auto
qed

lemma get_set:
  assumes ok: "db_ok valid t dbi d" and mc: "cursor_ok t dbi d mc" and key: "valid key" "key \<noteq> []"
    and op: "op = MDB_SET \<or> op = MDB_SET_KEY \<or> op = MDB_SET_RANGE"
  shows "\<exists>j. lower_bound (db_cmp t dbi) key (db_entries t dbi d) j \<and>
    (if j < length (db_entries t dbi d) \<and> (op = MDB_SET_RANGE \<or> nd_key (db_entries t dbi d ! j) = key)
     then on_record t dbi d (op \<noteq> MDB_SET) (din \<noteq> None) j (mdb_cursor_get t mc (Some key) din op)
     else no_record_before t dbi d j (mdb_cursor_get t mc (Some key) din op))"
proof -
  have rk: "returns_key op \<longleftrightarrow> op \<noteq> MDB_SET" using op by auto
  have gop: "cursor_get_op t mc (Some key) din op = mdb_cursor_set t mc key din (din \<noteq> None) op (op \<noteq> MDB_SET_RANGE)"
    using op by (auto simp: cursor_get_op_def)
  have "set_spec t dbi d key (op \<noteq> MDB_SET) (din \<noteq> None) (op \<noteq> MDB_SET_RANGE) (cursor_get_op t mc (Some key) din op)"
    unfolding gop using set_any_spec [OF ok key mc, of op "op \<noteq> MDB_SET_RANGE" "din \<noteq> None" din] op rk by auto
  then obtain j where j: "lower_bound (db_cmp t dbi) key (db_entries t dbi d) j"
    "if j < length (db_entries t dbi d) \<and> (op \<noteq> MDB_SET_RANGE \<longrightarrow> nd_key (db_entries t dbi d ! j) = key)
     then moved_to t dbi d (op \<noteq> MDB_SET) (din \<noteq> None) j (cursor_get_op t mc (Some key) din op)
     else near_miss t dbi d j (cursor_get_op t mc (Some key) din op)" unfolding set_spec_def by blast
  then show ?thesis
    using get_ends(1,3) [OF db_ok_flags [OF ok]] by (intro exI [of _ j]) (auto split: if_splits)
qed

lemmas sample_simps = sample_entries sample_entries [unfolded One_nat_def] sample_nodes sample_record

lemma sample_first:
  obtains mc where "mdb_cursor_get sample_txn (cursor_blank 1) (Some []) (Some []) MDB_FIRST =
      Some (MDB_SUCCESS, (Some [65], Some [120]), sample_txn, mc)" "cursor_at sample_txn 1 0 mc 0" "mc_flags mc AND C_DEL = 0"
  using get_first [OF sample_ok sample_ready, of "Some []" "Some []"]
  by (auto simp: sample_simps on_record_def kv_out_def)

text \<open>C4: in a well-formed database \<open>MDB_FIRST\<close> moves the cursor to the first and \<open>MDB_LAST\<close> to the last record and
  returns it, from every state a cursor can be in; they report \<open>MDB_NOTFOUND\<close> exactly when the database is empty.\<close>

theorem mdb_cursor_get_ends:
  assumes "db_ok valid t dbi d" "cursor_ok t dbi d mc"
  shows "if db_entries t dbi d = []
    then no_record t dbi d (mdb_cursor_get t mc kin din MDB_FIRST) \<and> no_record t dbi d (mdb_cursor_get t mc kin din MDB_LAST)
    else on_record t dbi d (kin \<noteq> None) (din \<noteq> None) 0 (mdb_cursor_get t mc kin din MDB_FIRST) \<and>
      on_record t dbi d (kin \<noteq> None) (din \<noteq> None) (length (db_entries t dbi d) - 1) (mdb_cursor_get t mc kin din MDB_LAST)"
  using get_first [OF assms, of kin din] get_last [OF assms, of kin din] by (auto split: if_splits)

theorem mdb_cursor_get_ends_witness:
  "on_record sample_txn 1 0 True True 0 (mdb_cursor_get sample_txn (cursor_blank 1) (Some []) (Some []) MDB_FIRST)"
  using mdb_cursor_get_ends [OF sample_ok sample_ready, of "Some []" "Some []"] unfolding sample_entries sample_nodes by simp

text \<open>C2: from record \<open>i\<close> of a well-formed database, \<open>MDB_NEXT\<close> moves to record \<open>i + 1\<close> and \<open>MDB_PREV\<close> to record \<open>i - 1\<close> of
  the ordered list of records, across pages of any tree depth; at the ends they report \<open>MDB_NOTFOUND\<close>.\<close>

theorem mdb_cursor_get_step:
  assumes "db_ok valid t dbi d" "cursor_at t dbi d mc i" "mc_flags mc AND C_DEL = 0"
  shows "(if i + 1 < length (db_entries t dbi d) then on_record t dbi d (kin \<noteq> None) (din \<noteq> None) (i + 1) (mdb_cursor_get t mc kin din MDB_NEXT)
      else no_record t dbi d (mdb_cursor_get t mc kin din MDB_NEXT)) \<and>
    (if 0 < i then on_record t dbi d (kin \<noteq> None) (din \<noteq> None) (i - 1) (mdb_cursor_get t mc kin din MDB_PREV)
      else no_record t dbi d (mdb_cursor_get t mc kin din MDB_PREV))"
  by (rule conjI [OF get_next [OF assms] get_prev [OF assms(1,2)]])

theorem mdb_cursor_get_step_witness:
  "\<exists>mc. mdb_cursor_get sample_txn (cursor_blank 1) (Some []) (Some []) MDB_FIRST = Some (MDB_SUCCESS, (Some [65], Some [120]), sample_txn, mc) \<and>
    on_record sample_txn 1 0 True True 1 (mdb_cursor_get sample_txn mc (Some []) (Some []) MDB_NEXT)"
proof -
  obtain mc where mc: "mdb_cursor_get sample_txn (cursor_blank 1) (Some []) (Some []) MDB_FIRST =
      Some (MDB_SUCCESS, (Some [65], Some [120]), sample_txn, mc)" "cursor_at sample_txn 1 0 mc 0" "mc_flags mc AND C_DEL = 0"
    by (rule sample_first)
  with mdb_cursor_get_step [OF sample_ok mc(2,3), of "Some []" "Some []"] show ?thesis
    unfolding sample_entries sample_nodes by auto
qed

text \<open>C3: in a well-formed database \<open>MDB_SET_RANGE\<close> finds the first record whose key is not smaller than the given one,
  and \<open>MDB_SET\<close> and \<open>MDB_SET_KEY\<close> find the record with exactly that key, from every state a cursor can be in
  (on a used cursor the code takes shortcuts that avoid the search from the root); if there
  is no such record the cursor is left just before the place where the key would be.\<close>

theorem mdb_cursor_get_set:
  assumes "db_ok valid t dbi d" "cursor_ok t dbi d mc" "valid key" "key \<noteq> []"
    and "op = MDB_SET \<or> op = MDB_SET_KEY \<or> op = MDB_SET_RANGE"
  shows "\<exists>j. lower_bound (md_cmp (mt_dbxs t ! dbi)) key (db_entries t dbi d) j \<and>
    (if j < length (db_entries t dbi d) \<and> (op = MDB_SET_RANGE \<or> nd_key (db_entries t dbi d ! j) = key)
     then on_record t dbi d (op \<noteq> MDB_SET) (din \<noteq> None) j (mdb_cursor_get t mc (Some key) din op)
     else no_record_before t dbi d j (mdb_cursor_get t mc (Some key) din op))"
  by (rule get_set [OF assms])

theorem mdb_cursor_get_set_witness:
  "on_record sample_txn 1 0 True True 1 (mdb_cursor_get sample_txn (cursor_blank 1) (Some [66]) (Some []) MDB_SET_KEY)"
proof -
  have lb: "lower_bound Cmp_memn [66] (db_entries sample_txn 1 0) 1"
    using lower_bound_at [OF sample_ok, of 1 "[66]"] sample_root by (simp add: sample_simps)
  obtain j where j: "lower_bound Cmp_memn [66] (db_entries sample_txn 1 0) j"
    "if j < length (db_entries sample_txn 1 0) \<and> (MDB_SET_KEY = MDB_SET_RANGE \<or> nd_key (db_entries sample_txn 1 0 ! j) = [66])
     then on_record sample_txn 1 0 (MDB_SET_KEY \<noteq> MDB_SET) (Some [] \<noteq> (None :: byte list option)) j
       (mdb_cursor_get sample_txn (cursor_blank 1) (Some [66]) (Some []) MDB_SET_KEY)
     else no_record_before sample_txn 1 0 j (mdb_cursor_get sample_txn (cursor_blank 1) (Some [66]) (Some []) MDB_SET_KEY)"
    using mdb_cursor_get_set [OF sample_ok sample_ready, of "[66]" MDB_SET_KEY "Some []"] unfolding sample_root by auto
  then show ?thesis using lower_bound_unique [OF lb j(1)] by (auto simp: sample_simps split: if_splits)
qed

text \<open>C6: \<open>MDB_GET_CURRENT\<close> returns the record the cursor is on without moving it.\<close>

theorem mdb_cursor_get_current:
  assumes "db_ok valid t dbi d" "cursor_at t dbi d mc i" "mc_flags mc AND C_DEL = 0"
  shows "mdb_cursor_get t mc kin din MDB_GET_CURRENT =
    Some (MDB_SUCCESS, kv_out t (kin \<noteq> None) (din \<noteq> None) (db_entries t dbi d ! i), t, mc)"
proof -
  obtain a k p where l: "at_leaf t dbi d mc a k p" "k < pg_n p" "i = a + k" and f: "bit (mc_flags mc) 0"
    using assms(2) by (auto simp: cursor_at_def)
  show ?thesis
    using node_here [OF assms(1) l(1,2)] at_leaf_page [OF assms(1) l(1)] l(2,3) f db_ok_flags [OF assms(1)] assms(3)
    by (auto simp: mdb_cursor_get_def cursor_get_op_def cursor_get_current_def kv_out_def flag_simps)
qed

theorem mdb_cursor_get_current_witness:
  "\<exists>mc. mdb_cursor_get sample_txn mc (Some []) (Some []) MDB_GET_CURRENT = Some (MDB_SUCCESS, (Some [65], Some [120]), sample_txn, mc)"
proof -
  obtain mc where mc: "cursor_at sample_txn 1 0 mc 0" "mc_flags mc AND C_DEL = 0" by (rule sample_first)
  with mdb_cursor_get_current [OF sample_ok mc, of "Some []" "Some []"] show ?thesis
    by (auto simp: sample_simps kv_out_def)
qed

section \<open>The invariant of cursors\<close>

text \<open>What every operation gives: a definite result and a usable cursor.\<close>

definition goes_on :: "mdb_txn \<Rightarrow> nat \<Rightarrow> nat \<Rightarrow> (rc \<times> kv \<times> mdb_txn \<times> mdb_cursor) option \<Rightarrow> bool" where
  "goes_on t dbi d res \<longleftrightarrow> (\<exists>rc out mc'. res = Some (rc, out, t, mc') \<and> cursor_ok t dbi d mc')"

lemma goes_onI:
  "moved_to t dbi d wk wd i res \<Longrightarrow> goes_on t dbi d res" "not_found t dbi d res \<Longrightarrow> goes_on t dbi d res"
  "near_miss t dbi d i res \<Longrightarrow> goes_on t dbi d res"
  by (auto simp: moved_to_def not_found_def near_miss_def goes_on_def cursor_before_def dest: cursor_at_ok)

lemma next_goes_on:
  assumes ok: "db_ok valid t dbi d" and f: "bit (mc_flags mc) 0" "\<not> bit (mc_flags mc) 3" and mc: "cursor_ok t dbi d mc"
  shows "goes_on t dbi d (mdb_cursor_next t mc wk wd op)"
proof (cases "bit (mc_flags mc) 1")
  case True
  then show ?thesis using mc by (simp add: mdb_cursor_next_def flag_simps goes_on_def)
next
  case eof: False
  obtain a k p where l: "at_leaf t dbi d mc a k p" "k \<le> pg_n p" using cursor_ok_init [OF mc f(1)] by blast
  show ?thesis
  proof (cases "k < pg_n p")
    case True
    then have "cursor_at t dbi d mc (a + k)" using l f eof by (auto simp: cursor_at_def)
    from next_moves [OF ok this f(2)] show ?thesis using goes_onI(1,2) by (meson)
  next
    case False
    note pg = at_leaf_page [OF ok l(1)] and sib = sibling_moves_right [OF ok l(1)]
    have dbi: "mc_dbi mc = dbi" using l(1) by (simp add: at_leaf_def)
    have dup: "md_flags (mt_dbs t ! dbi) AND MDB_DUPSORT = 0" using ok by (simp add: db_ok_def)
    have step: "mdb_cursor_next t mc wk wd op = do {
        (rc, t, mc) \<leftarrow> mdb_cursor_sibling t mc True;
        if rc \<noteq> MDB_SUCCESS then Some (rc, (None, None), t, mc\<lparr>mc_flags := mc_flags mc OR C_EOF\<rparr>)
        else cursor_record t mc True wk wd }"
      using eof f pg db_ok_db [OF ok dbi] dup False by (simp add: mdb_cursor_next_def flag_simps)
    show ?thesis
    proof (cases "a + pg_n p < length (db_entries t dbi d)")
      case True
      then obtain mc' q where m: "mdb_cursor_sibling t mc True = Some (MDB_SUCCESS, t, mc')" "frame mc mc'"
        "at_leaf t dbi d mc' (a + pg_n p) 0 q" using sib by auto
      have "moved_to t dbi d wk wd (a + pg_n p + 0) (cursor_record t mc' True wk wd)"
        using moved_to_record [OF ok m(3) at_leaf_page(3) [OF ok m(3)]] m(2) f eof by (simp add: frame_def)
      then show ?thesis using step m(1) goes_onI(1) by auto
    next
      case no: False
      let ?mc = "mc\<lparr>mc_flags := mc_flags mc OR C_EOF\<rparr>"
      have "at_leaf t dbi d ?mc a k p" using no pg(7) by (intro at_leaf_flags [OF l(1)]) simp
      then have "cursor_ok t dbi d ?mc" using f l(2) by (auto simp: cursor_ok_def flag_simps)
      then show ?thesis using step sib no by (simp add: goes_on_def)
    qed
  qed
qed

lemma first_goes_on: "db_ok valid t dbi d \<Longrightarrow> cursor_ok t dbi d mc \<Longrightarrow> goes_on t dbi d (mdb_cursor_first t mc wk wd)"
  using first_moves goes_onI(1,2) by meson

lemma last_goes_on: "db_ok valid t dbi d \<Longrightarrow> cursor_ok t dbi d mc \<Longrightarrow> goes_on t dbi d (mdb_cursor_last t mc wk wd)"
  using last_moves goes_onI(1,2) by meson

lemma set_goes_on:
  assumes "db_ok valid t dbi d" "cursor_ok t dbi d mc" "valid key"
    and "op \<noteq> MDB_GET_BOTH" "op \<noteq> MDB_GET_BOTH_RANGE" "exactp \<longleftrightarrow> op \<noteq> MDB_SET_RANGE"
  shows "goes_on t dbi d (mdb_cursor_set t mc key din wd op exactp)"
proof (cases "key = []")
  case True
  then show ?thesis using assms(2) by (simp add: mdb_cursor_set_def goes_on_def)
next
  case False
  from set_any_spec [OF assms(1,3) False assms(2,4-6)] show ?thesis
    unfolding set_spec_def using goes_onI(1,3) by meson
qed

lemma prev_goes_on:
  assumes ok: "db_ok valid t dbi d" and f: "bit (mc_flags mc) 0" and mc: "cursor_ok t dbi d mc"
  shows "goes_on t dbi d (mdb_cursor_prev t mc wk wd op)"
proof -
  obtain a k p where "at_leaf t dbi d mc a k p" "k \<le> pg_n p" using cursor_ok_init [OF mc f] by blast
  from prev_moves [OF ok f this] show ?thesis using goes_onI(1,2) by (meson)
qed

lemma prev_op_goes_on:
  assumes ok: "db_ok valid t dbi d" and mc: "cursor_ok t dbi d mc" and op: "op = MDB_PREV \<or> op = MDB_PREV_DUP \<or> op = MDB_PREV_NODUP"
  shows "goes_on t dbi d (cursor_get_op t mc kin din op)"
proof (cases "bit (mc_flags mc) 0")
  case True
  then show ?thesis using prev_goes_on [OF ok True mc] op by (auto simp: cursor_get_op_def flag_simps)
next
  case f: False
  note lm = last_moves [OF ok mc, of "kin \<noteq> None" "din \<noteq> None"]
  show ?thesis
  proof (cases "db_entries t dbi d = []")
    case True
    then show ?thesis using lm op f by (auto simp: cursor_get_op_def flag_simps not_found_def goes_on_def)
  next
    case False
    then obtain mc1 i out where l: "mdb_cursor_last t mc (kin \<noteq> None) (din \<noteq> None) = Some (MDB_SUCCESS, out, t, mc1)" "cursor_at t dbi d mc1 i"
      using lm by (auto simp: moved_to_def kv_out_def)
    obtain a k p where at: "at_leaf t dbi d mc1 a k p" "k < pg_n p" using l(2) by (auto simp: cursor_at_def)
    define mc2 where "mc2 = mc1\<lparr>mc_flags := mc_flags mc1 OR C_INITIALIZED\<rparr>"
    have at2: "at_leaf t dbi d mc2 a k p" unfolding mc2_def by (subst at_leaf_same_flags) (simp_all add: at flag_simps)
    have f2: "bit (mc_flags mc2) 0" by (simp add: mc2_def flag_simps)
    have le: "k + 1 \<le> pg_n p" using at(2) by simp
    obtain mc3 where mc3: "set_ki mc2 (k + 1) = Some mc3" "at_leaf t dbi d mc3 a (k + 1) p" "bit (mc_flags mc3) 0"
      "cursor_before t dbi d mc3 (a + (k + 1))"
      using set_ki_here [OF ok at2 le f2] by metis
    have ki: "top_ki mc2 = Some k" using at_leaf_page(5) [OF ok at2] .
    have eq: "cursor_get_op t mc kin din op = mdb_cursor_prev t mc3 (kin \<noteq> None) (din \<noteq> None) op"
      using op f l(1) mc3(1) ki by (auto simp: cursor_get_op_def flag_simps mc2_def [symmetric] Let_def)
    show ?thesis unfolding eq using prev_goes_on [OF ok mc3(3)] mc3(4) by (simp add: cursor_before_def)
  qed
qed

lemma current_goes_on:
  assumes ok: "db_ok valid t dbi d" and mc: "cursor_ok t dbi d mc"
  shows "goes_on t dbi d (cursor_get_current t mc wk wd)"
proof (cases "bit (mc_flags mc) 0")
  case False
  then show ?thesis using mc by (simp add: cursor_get_current_def flag_simps goes_on_def)
next
  case f: True
  obtain a k p where l: "at_leaf t dbi d mc a k p" "k \<le> pg_n p" using cursor_ok_init [OF mc f] by blast
  note pg = at_leaf_page [OF ok l(1)]
  show ?thesis
  proof (cases "k < pg_n p")
    case True
    then show ?thesis using node_here [OF ok l(1) True] pg f mc by (auto simp: cursor_get_current_def flag_simps goes_on_def)
  next
    case False
    obtain mc' where "set_ki mc (pg_n p) = Some mc'" "cursor_before t dbi d mc' (a + pg_n p)"
      using set_ki_here [OF ok l(1) _ f, of "pg_n p"] by auto
    then show ?thesis using False pg f by (simp add: cursor_get_current_def flag_simps goes_on_def cursor_before_def)
  qed
qed

text \<open>C5: every operation of \<open>mdb_cursor_get\<close>, on a well-formed database without sorted duplicates and with any arguments, gives
  a definite result (no failed assertion, no access outside a page, no endless loop), leaves the transaction
  as it is and keeps the invariant of cursors: the cursor is new, or its stack is a path from the root to
  a leaf and its index at most the number of records there, and it is marked as at the end only on the last leaf.\<close>

theorem mdb_cursor_get_invariant:
  assumes ok: "db_ok valid t dbi d" and fixed: "md_flags (mt_dbs t ! dbi) AND MDB_DUPFIXED = 0"
    and mc: "cursor_ok t dbi d mc" "mc_flags mc AND C_DEL = 0" and key: "pred_option valid kin"
  shows "\<exists>rc out mc'. mdb_cursor_get t mc kin din op = Some (rc, out, t, mc') \<and> cursor_ok t dbi d mc' \<and> mc_flags mc' AND C_DEL = 0"
proof -
  have dbi: "mc_db t mc = Some (mt_dbs t ! dbi)"
    using db_ok_db [OF ok] cursor_ok_ready [OF mc(1)] by (simp add: cursor_ready_def)
  have del: "\<not> bit (mc_flags mc) 3" using mc(2) by (simp add: flag_simps)
  have "goes_on t dbi d (cursor_get_op t mc kin din op)"
  proof (cases "op = MDB_PREV \<or> op = MDB_PREV_DUP \<or> op = MDB_PREV_NODUP")
    case True
    then show ?thesis by (rule prev_op_goes_on [OF ok mc(1)])
  next
    case False
    have n: "goes_on t dbi d (if mc_flags mc AND C_INITIALIZED \<noteq> 0 then mdb_cursor_next t mc wk wd op else mdb_cursor_first t mc wk wd)" for wk wd
      using next_goes_on [OF ok _ del mc(1)] first_goes_on [OF ok mc(1)] by (simp add: flag_simps)
    have s: "goes_on t dbi d (mdb_cursor_set t mc k din wd op (op \<noteq> MDB_SET_RANGE))"
      if "kin = Some k" "op = MDB_SET \<or> op = MDB_SET_KEY \<or> op = MDB_SET_RANGE" for k wd
      using set_goes_on [OF ok mc(1), of k op] key that by auto
    show ?thesis
      using False n s current_goes_on [OF ok mc(1)] first_goes_on [OF ok mc(1)] last_goes_on [OF ok mc(1)] dbi fixed mc(1)
      by (cases op) (auto simp: cursor_get_op_def goes_on_def Let_def split: option.split)
  qed
  then show ?thesis
    using db_ok_flags [OF ok] by (auto simp: goes_on_def mdb_cursor_get_def flag_simps same_flags)
qed

theorem mdb_cursor_get_invariant_witness:
  "\<exists>rc out mc'. mdb_cursor_get sample_txn (cursor_blank 1) (Some [70]) None MDB_SET_RANGE = Some (rc, out, sample_txn, mc') \<and>
    cursor_ok sample_txn 1 0 mc' \<and> mc_flags mc' AND C_DEL = 0"
  by (rule mdb_cursor_get_invariant [OF sample_ok _ sample_ready])
    (simp_all add: sample_txn_def sample_db_def cursor_blank_def)

end
