(* ===== verification/Reader.thy ===== *)
theory Reader
  imports Cursor_Ops
begin

text \<open>
  The reader of the legacy database on top of the engine: \<open>PSLMDBKeyValueCursor\<close> and the reading methods of
  \<open>PSLMDBKeyValueReaderWriter\<close> in \<open>LegacyDatabase\<close>.  Range enumeration positions a cursor and steps it until a
  key is out of range or the caller's block asks to stop.

  A block is a function on the caller's state that also says whether to stop.  Failing calls are logged by
  the code and otherwise treated as \<open>not found\<close>.
\<close>

section \<open>The cursor object\<close>

type_synonym place = "mdb_txn \<times> mdb_cursor"
type_synonym record_kv = "byte list \<times> byte list"
type_synonym 's block = "record_kv \<Rightarrow> 's \<Rightarrow> 's \<times> bool"

datatype direction = Forward | Back

text \<open>\<open>MDB_val\<close>s of size zero are passed in; a result is delivered only for \<open>MDB_SUCCESS\<close>.\<close>

definition cursor_move :: "mdb_cursor_op \<Rightarrow> place \<Rightarrow> (record_kv option \<times> place) option" where
  "cursor_move op c = (case c of (t, mc) \<Rightarrow> do {
     (rc, out, t, mc) \<leftarrow> mdb_cursor_get t mc (Some []) (Some []) op;
     if rc = MDB_SUCCESS then do {
       k \<leftarrow> fst out;
       v \<leftarrow> snd out;
       Some (Some (k, v), t, mc) }
     else Some (None, t, mc) })"

definition cursor_previous :: "place \<Rightarrow> (record_kv option \<times> place) option" where
  "cursor_previous = cursor_move MDB_PREV"

definition cursor_next :: "place \<Rightarrow> (record_kv option \<times> place) option" where
  "cursor_next = cursor_move MDB_NEXT"

definition cursor_positionAt :: "place \<Rightarrow> byte list \<Rightarrow> direction \<Rightarrow> (record_kv option \<times> place) option" where
  "cursor_positionAt c key dir = (case c of (t, mc) \<Rightarrow> do {
     (rc, out, t, mc) \<leftarrow> mdb_cursor_get t mc (Some key) (Some []) (if dir = Forward then MDB_SET_RANGE else MDB_SET_KEY);
     if rc = MDB_SUCCESS then do {
       k \<leftarrow> fst out;
       v \<leftarrow> snd out;
       Some (Some (k, v), t, mc) }
     else if rc = MDB_NOTFOUND \<and> dir = Back then cursor_previous (t, mc)
     else Some (None, t, mc) })"

section \<open>Range enumeration\<close>

definition mdb_cmp :: "mdb_txn \<Rightarrow> nat \<Rightarrow> byte list \<Rightarrow> byte list \<Rightarrow> int option" where
  "mdb_cmp t dbi a b = do { dbx \<leftarrow> c_read (mt_dbxs t) dbi; run_cmp (md_cmp dbx) a b }"

text \<open>
  The loop \<open>while (!stop)\<close>: step, test the key, call the block.  \<open>keep\<close> is the test against the bound at
  which the enumeration ends.
\<close>

partial_function (option) walk ::
  "('c \<Rightarrow> ((byte list \<times> 'v) option \<times> 'c) option) \<Rightarrow> ('c \<Rightarrow> byte list \<Rightarrow> bool option) \<Rightarrow>
   (byte list \<times> 'v \<Rightarrow> 's \<Rightarrow> 's \<times> bool) \<Rightarrow> 'c \<Rightarrow> 's \<Rightarrow> ('s \<times> 'c) option" where
  "walk step keep block c s = do {
     (r, c) \<leftarrow> step c;
     (case r of
        None \<Rightarrow> Some (s, c)
      | Some (k, v) \<Rightarrow> do {
          b \<leftarrow> keep c k;
          if b then
            let (s, stop) = block (k, v) s
            in if stop then Some (s, c) else walk step keep block c s
          else Some (s, c) }) }"

declare walk.simps [code]

text \<open>
  Once the cursor is positioned on \<open>(k, v)\<close>.  The code fills \<open>positionedKeyVal\<close> with the key it was positioned at
  before it skips an excluded bound, and compares that value with the other bound afterwards.
\<close>

definition enumerate_from ::
  "(place \<Rightarrow> (record_kv option \<times> place) option) \<Rightarrow> (place \<Rightarrow> byte list \<Rightarrow> bool option) \<Rightarrow>
   's block \<Rightarrow> nat \<Rightarrow> byte list \<Rightarrow> bool \<Rightarrow> place \<Rightarrow> record_kv \<Rightarrow> 's \<Rightarrow> ('s \<times> place) option" where
  "enumerate_from step keep block dbi bound exclusive c kv s = do {
     let positionedKeyVal = fst kv;
     eq \<leftarrow> (if exclusive then do { r \<leftarrow> mdb_cmp (fst c) dbi bound positionedKeyVal; Some (r = 0) } else Some False);
     (next, c) \<leftarrow> (if eq then step c else Some (Some kv, c));
     (case next of
        None \<Rightarrow> Some (s, c)
      | Some kv \<Rightarrow> do {
          b \<leftarrow> keep c positionedKeyVal;
          if b then
            let (s, stop) = block kv s
            in if stop then Some (s, c) else walk step keep block c s
          else Some (s, c) }) }"

definition keep_upper :: "nat \<Rightarrow> byte list \<Rightarrow> bool \<Rightarrow> place \<Rightarrow> byte list \<Rightarrow> bool option" where
  "keep_upper dbi upper exclusive c k = do {
     r \<leftarrow> mdb_cmp (fst c) dbi k upper;
     Some (if exclusive then r < 0 else r \<le> 0) }"

definition keep_lower :: "nat \<Rightarrow> byte list \<Rightarrow> bool \<Rightarrow> place \<Rightarrow> byte list \<Rightarrow> bool option" where
  "keep_lower dbi lower exclusive c k = do {
     r \<leftarrow> mdb_cmp (fst c) dbi k lower;
     Some (if exclusive then r > 0 else r \<ge> 0) }"

record enum_options =
  opt_reverse :: bool
  opt_lower_exclusive :: bool
  opt_upper_exclusive :: bool

text \<open>The body of the block passed to \<open>readWithCursor\<close>, on the new cursor \<open>c\<close>.\<close>

definition enumerate_between ::
  "nat \<Rightarrow> byte list \<Rightarrow> byte list \<Rightarrow> enum_options \<Rightarrow> 's block \<Rightarrow> place \<Rightarrow> 's \<Rightarrow> ('s \<times> place) option" where
  "enumerate_between dbi lower upper opts block c s =
     (if opt_reverse opts then do {
        (r, c) \<leftarrow> cursor_positionAt c upper Back;
        (case r of
           None \<Rightarrow> Some (s, c)
         | Some kv \<Rightarrow> enumerate_from cursor_previous (keep_lower dbi lower (opt_lower_exclusive opts)) block
             dbi upper (opt_upper_exclusive opts) c kv s) }
      else do {
        (r, c) \<leftarrow> cursor_positionAt c lower Forward;
        (case r of
           None \<Rightarrow> Some (s, c)
         | Some kv \<Rightarrow> enumerate_from cursor_next (keep_upper dbi upper (opt_upper_exclusive opts)) block
             dbi lower (opt_lower_exclusive opts) c kv s) })"

text \<open>\<open>readWithCursor\<close>: open a cursor, use it, close it; \<open>mem\<close> says whether the memory for the cursor can be had.
  The new cursor is the one in use, so it does not appear in \<open>mt_cursors\<close>.\<close>

definition mdb_cursor_open :: "bool \<Rightarrow> mdb_txn \<Rightarrow> nat \<Rightarrow> ((rc + mdb_cursor) \<times> mdb_txn) option" where
  "mdb_cursor_open mem t dbi = do {
     ex \<leftarrow> TXN_DBI_EXIST t dbi;
     if \<not> ex then Some (Inl EINVAL, t)
     else if mt_flags t AND MDB_TXN_ERROR \<noteq> 0 then Some (Inl MDB_BAD_TXN, t)
     else if dbi = FREE_DBI \<and> \<not> F_ISSET (mt_flags t) MDB_TXN_RDONLY then Some (Inl EINVAL, t)
     else if \<not> mem then Some (Inl ENOMEM, t)
     else do {
       (t, mc) \<leftarrow> mdb_cursor_init t dbi;
       (case mt_cursors t of
          None \<Rightarrow> Some (Inr mc, t)
        | Some cs \<Rightarrow> do { others \<leftarrow> c_read cs dbi; Some (Inr (mc\<lparr>mc_flags := mc_flags mc OR C_UNTRACK\<rparr>), t) }) } }"

definition enumerateKeysAndValues ::
  "bool \<Rightarrow> mdb_txn \<Rightarrow> nat \<Rightarrow> byte list \<Rightarrow> byte list \<Rightarrow> enum_options \<Rightarrow> 's block \<Rightarrow> 's \<Rightarrow> 's option" where
  "enumerateKeysAndValues mem t dbi lower upper opts block s = do {
     (r, t) \<leftarrow> mdb_cursor_open mem t dbi;
     (case r of
        Inl rc \<Rightarrow> Some s
      | Inr mc \<Rightarrow> do { (s, c) \<leftarrow> enumerate_between dbi lower upper opts block (t, mc) s; Some s }) }"

text \<open>\<open>readValueBetweenLowerBoundKey\<close>: the first record of the enumeration.\<close>

definition readValueBetween ::
  "bool \<Rightarrow> mdb_txn \<Rightarrow> nat \<Rightarrow> byte list \<Rightarrow> byte list \<Rightarrow> bool \<Rightarrow> record_kv option option" where
  "readValueBetween mem t dbi lower upper selectHigher =
     enumerateKeysAndValues mem t dbi lower upper
       \<lparr>opt_reverse = selectHigher, opt_lower_exclusive = False, opt_upper_exclusive = False\<rparr>
       (\<lambda>kv s. (Some kv, True)) None"

definition readValueForRawKey :: "mdb_txn \<Rightarrow> nat \<Rightarrow> byte list \<Rightarrow> byte list option option" where
  "readValueForRawKey t dbi key = do {
     (rc, v, t) \<leftarrow> mdb_get t dbi key;
     if rc = MDB_SUCCESS then do { v \<leftarrow> v; Some (Some v) } else Some None }"

section \<open>Walking an ordered list\<close>

text \<open>What a walk should deliver: the records in order, until the block asks to stop.\<close>

fun run_block :: "('r \<Rightarrow> 's \<Rightarrow> 's \<times> bool) \<Rightarrow> 'r list \<Rightarrow> 's \<Rightarrow> 's" where
  "run_block block [] s = s"
| "run_block block (r # rs) s = (let (s, stop) = block r s in if stop then s else run_block block rs s)"

text \<open>
  The interface the loop needs: a step from position \<open>i\<close> delivers record \<open>i + 1\<close>, or nothing at the end.
\<close>

locale ordered_walk =
  fixes step :: "'c \<Rightarrow> ((byte list \<times> 'v) option \<times> 'c) option"
    and pos :: "'c \<Rightarrow> nat \<Rightarrow> bool"
    and recs :: "(byte list \<times> 'v) list"
  assumes step_next: "pos c i \<Longrightarrow> Suc i < length recs \<Longrightarrow> \<exists>c'. step c = Some (Some (recs ! Suc i), c') \<and> pos c' (Suc i)"
    and step_end: "pos c i \<Longrightarrow> length recs \<le> Suc i \<Longrightarrow> \<exists>c'. step c = Some (None, c')"
begin

lemma walk_delivers:
  assumes "pos c i" "\<And>c i r. pos c i \<Longrightarrow> r \<in> set recs \<Longrightarrow> keep c (fst r) = Some (K (fst r))"
  shows "\<exists>c'. walk step keep block c s = Some (run_block block (takeWhile (\<lambda>r. K (fst r)) (drop (Suc i) recs)) s, c')"
  using assms(1)
proof (induction "length recs - i" arbitrary: c i s rule: less_induct)
  case less
  show ?case
  proof (cases "Suc i < length recs")
    case True
    then obtain c' where c': "step c = Some (Some (recs ! Suc i), c')" "pos c' (Suc i)" using step_next less.prems by blast
    have k: "keep c' (fst (recs ! Suc i)) = Some (K (fst (recs ! Suc i)))" using assms(2) [OF c'(2)] True by simp
    have d: "drop (Suc i) recs = recs ! Suc i # drop (Suc (Suc i)) recs" using True by (simp add: Cons_nth_drop_Suc)
    obtain kv where kv: "recs ! Suc i = kv" by simp
    obtain s' stop where b: "block kv s = (s', stop)" by fastforce
    have u: "walk step keep block c s = (if K (fst kv) then if stop then Some (s', c') else walk step keep block c' s' else Some (s, c'))"
      using c'(1) k b unfolding kv by (subst walk.simps) (cases kv; simp)
    have "\<exists>c''. walk step keep block c' s' = Some (run_block block (takeWhile (\<lambda>r. K (fst r)) (drop (Suc (Suc i)) recs)) s', c'')"
      using less.hyps [OF _ c'(2)] True by auto
    then show ?thesis unfolding u d kv using b by auto
  next
    case False
    then obtain c' where "step c = Some (None, c')" using step_end less.prems by force
    then show ?thesis using False by (subst walk.simps) simp
  qed
qed

text \<open>The walk with the first record, on which the cursor stands already.\<close>

lemma walk_here:
  assumes "pos c i" "i < length recs" "\<And>c i r. pos c i \<Longrightarrow> r \<in> set recs \<Longrightarrow> keep c (fst r) = Some (K (fst r))"
  shows "\<exists>c'. (do { b \<leftarrow> keep c (fst (recs ! i));
      if b then let (s, stop) = block (recs ! i) s in if stop then Some (s, c) else walk step keep block c s else Some (s, c) }) =
    Some (run_block block (takeWhile (\<lambda>r. K (fst r)) (drop i recs)) s, c')"
proof -
  have d: "drop i recs = recs ! i # drop (Suc i) recs" using assms(2) by (simp add: Cons_nth_drop_Suc)
  obtain s' stop where b: "block (recs ! i) s = (s', stop)" by fastforce
  have k: "keep c (fst (recs ! i)) = Some (K (fst (recs ! i)))" using assms by simp
  show ?thesis using walk_delivers [where keep = keep and K = K and block = block and s = s', OF assms(1,3)] by (auto simp: d b k)
qed

end

text \<open>The records of a database as the reader sees them.\<close>

definition db_records :: "mdb_txn \<Rightarrow> nat \<Rightarrow> nat \<Rightarrow> record_kv list" where
  "db_records t dbi d = map (\<lambda>r. (nd_key r, the (record_data t r))) (db_entries t dbi d)"

lemma length_db_records [simp]: "length (db_records t dbi d) = length (db_entries t dbi d)"
  by (simp add: db_records_def)

definition reader_at :: "(byte list \<Rightarrow> bool) \<Rightarrow> mdb_txn \<Rightarrow> nat \<Rightarrow> nat \<Rightarrow> place \<Rightarrow> nat \<Rightarrow> bool" where
  "reader_at valid t dbi d c i \<longleftrightarrow> fst c = t \<and> db_ok valid t dbi d \<and> cursor_at t dbi d (snd c) i \<and> mc_flags (snd c) AND C_DEL = 0"

lemma reader_at_less: "reader_at valid t dbi d c i \<Longrightarrow> i < length (db_entries t dbi d)"
  unfolding reader_at_def cursor_at_def using at_leaf_page(7) by fastforce

text \<open>The result of \<open>mdb_cursor_get\<close> as the cursor object delivers it.\<close>

definition delivered :: "(rc \<times> kv \<times> mdb_txn \<times> mdb_cursor) option \<Rightarrow> (record_kv option \<times> place) option" where
  "delivered res = do {
     (rc, out, t, mc) \<leftarrow> res;
     if rc = MDB_SUCCESS then do { k \<leftarrow> fst out; v \<leftarrow> snd out; Some (Some (k, v), t, mc) } else Some (None, t, mc) }"

lemma cursor_move_delivers: "cursor_move op (t, mc) = delivered (mdb_cursor_get t mc (Some []) (Some []) op)"
  by (simp add: cursor_move_def delivered_def)

lemma delivered_record:
  assumes ok: "db_ok valid t dbi d" and on: "on_record t dbi d True True i res"
  shows "\<exists>c'. delivered res = Some (Some (db_records t dbi d ! i), c') \<and> reader_at valid t dbi d c' i"
proof -
  obtain mc' where mc': "i < length (db_entries t dbi d)" "res = Some (MDB_SUCCESS, kv_out t True True (db_entries t dbi d ! i), t, mc')"
    "cursor_at t dbi d mc' i" "mc_flags mc' AND C_DEL = 0" using on by (auto simp: on_record_def)
  have "record_data t (db_entries t dbi d ! i) \<noteq> None" using ok mc'(1) by (auto simp: db_ok_def record_ok_def)
  then show ?thesis using mc' ok by (auto simp: delivered_def kv_out_def db_records_def reader_at_def)
qed

lemma delivered_nothing:
  "no_record t dbi d res \<Longrightarrow> \<exists>c'. delivered res = Some (None, c')"
  by (auto simp: no_record_def delivered_def)

lemma next_delivers:
  assumes "reader_at valid t dbi d c i"
  shows "Suc i < length (db_entries t dbi d) \<Longrightarrow> \<exists>c'. cursor_next c = Some (Some (db_records t dbi d ! Suc i), c') \<and> reader_at valid t dbi d c' (Suc i)"
    and "length (db_entries t dbi d) \<le> Suc i \<Longrightarrow> \<exists>c'. cursor_next c = Some (None, c')"
proof -
  obtain mc where c: "c = (t, mc)" "db_ok valid t dbi d" "cursor_at t dbi d mc i" "mc_flags mc AND C_DEL = 0"
    using assms by (cases c) (auto simp: reader_at_def)
  note n = get_next [OF c(2-4), of "Some []" "Some []"]
  show "\<exists>c'. cursor_next c = Some (Some (db_records t dbi d ! Suc i), c') \<and> reader_at valid t dbi d c' (Suc i)"
    if "Suc i < length (db_entries t dbi d)"
    using n that delivered_record [OF c(2)] by (simp add: cursor_next_def c(1) cursor_move_delivers)
  show "\<exists>c'. cursor_next c = Some (None, c')" if "length (db_entries t dbi d) \<le> Suc i"
    using n that delivered_nothing by (simp add: cursor_next_def c(1) cursor_move_delivers)
qed

lemma previous_delivers:
  assumes "reader_at valid t dbi d c i"
  shows "0 < i \<Longrightarrow> \<exists>c'. cursor_previous c = Some (Some (db_records t dbi d ! (i - 1)), c') \<and> reader_at valid t dbi d c' (i - 1)"
    and "i = 0 \<Longrightarrow> \<exists>c'. cursor_previous c = Some (None, c')"
proof -
  obtain mc where c: "c = (t, mc)" "db_ok valid t dbi d" "cursor_at t dbi d mc i"
    using assms by (cases c) (auto simp: reader_at_def)
  note n = get_prev [OF c(2-3), of "Some []" "Some []"]
  show "\<exists>c'. cursor_previous c = Some (Some (db_records t dbi d ! (i - 1)), c') \<and> reader_at valid t dbi d c' (i - 1)" if "0 < i"
    using n that delivered_record [OF c(2)] by (simp add: cursor_previous_def c(1) cursor_move_delivers)
  show "\<exists>c'. cursor_previous c = Some (None, c')" if "i = 0"
    using n that delivered_nothing by (simp add: cursor_previous_def c(1) cursor_move_delivers)
qed

text \<open>The two directions of a cursor implement the interface, on the records and on the reversed records.\<close>

interpretation forward: ordered_walk cursor_next "reader_at valid t dbi d" "db_records t dbi d" for valid t dbi d
  by unfold_locales (auto dest: next_delivers)

interpretation backward: ordered_walk cursor_previous
  "\<lambda>c i. i < length (db_records t dbi d) \<and> reader_at valid t dbi d c (length (db_records t dbi d) - 1 - i)"
  "rev (db_records t dbi d)" for valid t dbi d
proof unfold_locales
  let ?n = "length (db_records t dbi d)"
  fix c i
  assume at: "i < ?n \<and> reader_at valid t dbi d c (?n - 1 - i)"
  note p = previous_delivers [OF at [THEN conjunct2]]
  { assume i: "Suc i < length (rev (db_records t dbi d))"
    then have "0 < ?n - 1 - i" "?n - 1 - i - 1 = ?n - 1 - Suc i" by auto
    then show "\<exists>c'. cursor_previous c = Some (Some (rev (db_records t dbi d) ! Suc i), c') \<and>
        Suc i < ?n \<and> reader_at valid t dbi d c' (?n - 1 - Suc i)"
      using p(1) i by (auto simp: rev_nth) }
  { assume "length (rev (db_records t dbi d)) \<le> Suc i"
    then show "\<exists>c'. cursor_previous c = Some (None, c')" using p(2) at by simp }
qed

section \<open>Ranges\<close>

definition in_lower :: "cmp_func \<Rightarrow> byte list \<Rightarrow> bool \<Rightarrow> byte list \<Rightarrow> bool" where
  "in_lower c lower exclusive k \<longleftrightarrow> (if exclusive then klt c lower k else \<not> klt c k lower)"

definition in_upper :: "cmp_func \<Rightarrow> byte list \<Rightarrow> bool \<Rightarrow> byte list \<Rightarrow> bool" where
  "in_upper c upper exclusive k \<longleftrightarrow> (if exclusive then klt c k upper else \<not> klt c upper k)"

lemma keep_bounds:
  assumes "reader_at valid t dbi d c i" "r \<in> set (db_records t dbi d)" "valid bound"
  shows "keep_upper dbi bound ex c (fst r) = Some (in_upper (db_cmp t dbi) bound ex (fst r))"
    "keep_lower dbi bound ex c (fst r) = Some (in_lower (db_cmp t dbi) bound ex (fst r))"
proof -
  have t: "fst c = t" and ok: "db_ok valid t dbi d" using assms(1) by (auto simp: reader_at_def)
  have len: "dbi < length (mt_dbxs t)" using ok by (simp add: db_ok_def)
  have "valid (fst r)" using assms(2) db_sorted(1) [OF ok] by (auto simp: db_records_def)
  then obtain v where v: "run_cmp (db_cmp t dbi) (fst r) bound = Some v" "v = 0 \<longleftrightarrow> fst r = bound" "v < 0 \<longleftrightarrow> klt (db_cmp t dbi) (fst r) bound"
    "v > 0 \<longleftrightarrow> klt (db_cmp t dbi) bound (fst r)" using run_cmp_cases [OF db_cmp_ok [OF ok] _ assms(3)] by blast
  show "keep_upper dbi bound ex c (fst r) = Some (in_upper (db_cmp t dbi) bound ex (fst r))"
    "keep_lower dbi bound ex c (fst r) = Some (in_lower (db_cmp t dbi) bound ex (fst r))"
    using v len by (auto simp: keep_upper_def keep_lower_def mdb_cmp_def t in_upper_def in_lower_def mem_simps)
qed

text \<open>The records are sorted, so a range is a contiguous part of the list.\<close>

lemma records_sorted:
  assumes "db_ok valid t dbi d"
  shows "sorted_wrt (\<lambda>r s. klt (db_cmp t dbi) (fst r) (fst s)) (db_records t dbi d)"
    "r \<in> set (db_records t dbi d) \<Longrightarrow> valid (fst r)"
  using db_sorted [OF assms] by (auto simp: db_records_def sorted_wrt_map)

lemma filter_takeWhile:
  assumes "sorted_wrt R xs" "\<And>x y. x \<in> set xs \<Longrightarrow> y \<in> set xs \<Longrightarrow> R x y \<Longrightarrow> P y \<Longrightarrow> P x"
  shows "filter P xs = takeWhile P xs"
  using assms by (induction xs) (auto simp: filter_empty_conv)

lemma filter_split:
  assumes "\<forall>x \<in> set (take n xs). \<not> P x" "\<forall>x \<in> set (drop n xs). P x"
  shows "filter (\<lambda>x. P x \<and> Q x) xs = filter Q (drop n xs)"
proof -
  have "filter (\<lambda>x. P x \<and> Q x) (take n xs @ drop n xs) = filter Q (drop n xs)"
    unfolding filter_append using assms by (auto simp: filter_empty_conv intro: filter_cong)
  then show ?thesis by simp
qed

lemma in_upper_down:
  assumes "cmp_ok c valid" "valid a" "valid b" "valid u" "klt c a b" "in_upper c u ex b"
  shows "in_upper c u ex a"
  using assms(5,6) key_order_laws(2) [OF assms(1-4)] key_order_laws(2) [OF assms(1,4,2,3)] by (auto simp: in_upper_def)

lemma in_lower_up:
  assumes "cmp_ok c valid" "valid a" "valid b" "valid l" "klt c a b" "in_lower c l ex a"
  shows "in_lower c l ex b"
  using assms(5,6) key_order_laws(2) [OF assms(1,4,2,3)] key_order_laws(2) [OF assms(1-4)] by (auto simp: in_lower_def)

lemma forward_range:
  assumes ok: "db_ok valid t dbi d" and v: "valid upper" and lb: "lower_bound (db_cmp t dbi) lower (db_entries t dbi d) j"
  shows "filter (\<lambda>r. in_lower (db_cmp t dbi) lower False (fst r) \<and> in_upper (db_cmp t dbi) upper ex (fst r)) (db_records t dbi d) =
    takeWhile (\<lambda>r. in_upper (db_cmp t dbi) upper ex (fst r)) (drop j (db_records t dbi d))"
proof -
  let ?R = "db_records t dbi d" and ?c = "db_cmp t dbi"
  note c = db_cmp_ok [OF ok] and srt = records_sorted [OF ok]
  have nth: "fst (?R ! i) = nd_key (db_entries t dbi d ! i)" if "i < length ?R" for i using that by (simp add: db_records_def)
  have "filter (\<lambda>r. in_lower ?c lower False (fst r) \<and> in_upper ?c upper ex (fst r)) ?R = filter (\<lambda>r. in_upper ?c upper ex (fst r)) (drop j ?R)"
    by (rule filter_split) (use lb nth in \<open>auto simp: lower_bound_def in_lower_def all_set_conv_all_nth simp del: split_paired_All\<close>)
  also have "\<dots> = takeWhile (\<lambda>r. in_upper ?c upper ex (fst r)) (drop j ?R)"
  proof (rule filter_takeWhile [where R = "\<lambda>r s. klt ?c (fst r) (fst s)"])
    show "sorted_wrt (\<lambda>r s. klt ?c (fst r) (fst s)) (drop j ?R)" using srt(1) by (simp add: sorted_wrt_drop)
    show "in_upper ?c upper ex (fst x)" if "x \<in> set (drop j ?R)" "y \<in> set (drop j ?R)" "klt ?c (fst x) (fst y)" "in_upper ?c upper ex (fst y)" for x y
      using in_upper_down [OF c srt(2) srt(2) v that(3,4)] that(1,2) by (auto dest: in_set_dropD)
  qed
  finally show ?thesis .
qed

lemma backward_range:
  assumes ok: "db_ok valid t dbi d" and v: "valid lower" and n: "n \<le> length (db_records t dbi d)"
    and lo: "\<forall>i < n. \<not> klt (db_cmp t dbi) upper (fst (db_records t dbi d ! i))"
    and hi: "\<forall>i < length (db_records t dbi d). n \<le> i \<longrightarrow> klt (db_cmp t dbi) upper (fst (db_records t dbi d ! i))"
  shows "rev (filter (\<lambda>r. in_lower (db_cmp t dbi) lower ex (fst r) \<and> in_upper (db_cmp t dbi) upper False (fst r)) (db_records t dbi d)) =
    takeWhile (\<lambda>r. in_lower (db_cmp t dbi) lower ex (fst r)) (drop (length (db_records t dbi d) - n) (rev (db_records t dbi d)))"
proof -
  let ?R = "db_records t dbi d" and ?c = "db_cmp t dbi" and ?S = "rev (take n (db_records t dbi d))"
  note c = db_cmp_ok [OF ok] and srt = records_sorted [OF ok]
  have S: "drop (length ?R - n) (rev ?R) = ?S" using n by (simp add: drop_rev)
  have l: "\<forall>x \<in> set (take n ?R). \<not> klt ?c upper (fst x)"
    using lo n by (auto simp: all_set_conv_all_nth simp del: split_paired_All)
  have h: "\<forall>x \<in> set (drop n ?R). klt ?c upper (fst x)"
    using hi n by (auto simp: all_set_conv_all_nth simp del: split_paired_All)
  have "filter (\<lambda>r. in_lower ?c lower ex (fst r) \<and> in_upper ?c upper False (fst r)) (take n ?R) = filter (\<lambda>r. in_lower ?c lower ex (fst r)) (take n ?R)"
    by (rule filter_cong) (use l in \<open>auto simp: in_upper_def\<close>)
  moreover have "filter (\<lambda>r. in_lower ?c lower ex (fst r) \<and> in_upper ?c upper False (fst r)) (drop n ?R) = []"
    using h by (auto simp: filter_empty_conv in_upper_def)
  ultimately have "filter (\<lambda>r. in_lower ?c lower ex (fst r) \<and> in_upper ?c upper False (fst r)) (take n ?R @ drop n ?R) =
      filter (\<lambda>r. in_lower ?c lower ex (fst r)) (take n ?R)"
    unfolding filter_append by simp
  then have "rev (filter (\<lambda>r. in_lower ?c lower ex (fst r) \<and> in_upper ?c upper False (fst r)) ?R) = filter (\<lambda>r. in_lower ?c lower ex (fst r)) ?S"
    by (simp add: rev_filter)
  also have "\<dots> = takeWhile (\<lambda>r. in_lower ?c lower ex (fst r)) ?S"
  proof (rule filter_takeWhile [where R = "\<lambda>r s. klt ?c (fst s) (fst r)"])
    show "sorted_wrt (\<lambda>r s. klt ?c (fst s) (fst r)) ?S" using srt(1) by (simp add: sorted_wrt_rev sorted_wrt_take)
    show "in_lower ?c lower ex (fst x)" if "x \<in> set ?S" "y \<in> set ?S" "klt ?c (fst y) (fst x)" "in_lower ?c lower ex (fst y)" for x y
      using in_lower_up [OF c srt(2) srt(2) v that(3,4)] that(1,2) by (auto dest: in_set_takeD)
  qed
  finally show ?thesis unfolding S .
qed

section \<open>Positioning\<close>

lemma position_forward:
  assumes ok: "db_ok valid t dbi d" and mc: "cursor_ok t dbi d mc" and key: "valid key" "key \<noteq> []"
  shows "\<exists>j. lower_bound (db_cmp t dbi) key (db_entries t dbi d) j \<and>
    (if j < length (db_entries t dbi d)
     then \<exists>c'. cursor_positionAt (t, mc) key Forward = Some (Some (db_records t dbi d ! j), c') \<and> reader_at valid t dbi d c' j
     else \<exists>c'. cursor_positionAt (t, mc) key Forward = Some (None, c'))"
proof -
  obtain j where j: "lower_bound (db_cmp t dbi) key (db_entries t dbi d) j"
    "if j < length (db_entries t dbi d) then on_record t dbi d True True j (mdb_cursor_get t mc (Some key) (Some []) MDB_SET_RANGE)
     else no_record_before t dbi d j (mdb_cursor_get t mc (Some key) (Some []) MDB_SET_RANGE)"
    using get_set [OF ok mc key, of MDB_SET_RANGE "Some []"] by (auto cong: if_cong)
  show ?thesis
  proof (cases "j < length (db_entries t dbi d)")
    case True
    from delivered_record [OF ok, of j "mdb_cursor_get t mc (Some key) (Some []) MDB_SET_RANGE"] j True
    show ?thesis by (intro exI [of _ j]) (auto simp: cursor_positionAt_def delivered_def on_record_def kv_out_def)
  next
    case False
    then show ?thesis using j by (intro exI [of _ j]) (auto simp: cursor_positionAt_def no_record_before_def)
  qed
qed

text \<open>
  Backwards: the last record whose key is not larger.  When the key is not there the cursor stands where it
  would be, and the step back from there is the step back from a record.
\<close>

lemma previous_before:
  assumes ok: "db_ok valid t dbi d" and bf: "cursor_before t dbi d mc j" and j: "j \<le> length (db_entries t dbi d)"
  shows "if 0 < j then \<exists>c'. cursor_previous (t, mc) = Some (Some (db_records t dbi d ! (j - 1)), c') \<and> reader_at valid t dbi d c' (j - 1)
    else \<exists>c'. cursor_previous (t, mc) = Some (None, c')"
proof (cases "db_entries t dbi d = []")
  case True
  then have "cursor_ok t dbi d mc" "\<not> bit (mc_flags mc) 0" using bf by (auto simp: cursor_before_def)
  from get_prev_new [OF ok this, of "Some []" "Some []"] True j show ?thesis
    using delivered_nothing by (simp add: cursor_previous_def cursor_move_delivers)
next
  case False
  then obtain a k p where l: "bit (mc_flags mc) 0" "at_leaf t dbi d mc a k p" "k \<le> pg_n p" "a + k = j"
    using bf by (auto simp: cursor_before_def)
  from prev_from [OF ok l(1-3), of "Some []" "Some []"] show ?thesis
    using delivered_record [OF ok] delivered_nothing l(4) by (auto simp: cursor_previous_def cursor_move_delivers split: if_splits)
qed

lemma position_back:
  assumes ok: "db_ok valid t dbi d" and mc: "cursor_ok t dbi d mc" and key: "valid key" "key \<noteq> []"
  shows "\<exists>n \<le> length (db_records t dbi d). (\<forall>i < n. \<not> klt (db_cmp t dbi) key (fst (db_records t dbi d ! i))) \<and>
    (\<forall>i < length (db_records t dbi d). n \<le> i \<longrightarrow> klt (db_cmp t dbi) key (fst (db_records t dbi d ! i))) \<and>
    (if 0 < n then \<exists>c'. cursor_positionAt (t, mc) key Back = Some (Some (db_records t dbi d ! (n - 1)), c') \<and> reader_at valid t dbi d c' (n - 1)
     else \<exists>c'. cursor_positionAt (t, mc) key Back = Some (None, c'))"
proof -
  let ?E = "db_entries t dbi d" and ?R = "db_records t dbi d" and ?c = "db_cmp t dbi"
  note c = db_cmp_ok [OF ok]
  have nth: "fst (?R ! i) = nd_key (?E ! i)" if "i < length ?E" for i using that by (simp add: db_records_def)
  have v: "valid (nd_key (?E ! i))" if "i < length ?E" for i using db_sorted(1) [OF ok] that by simp
  let ?get = "mdb_cursor_get t mc (Some key) (Some []) MDB_SET_KEY"
  obtain j where j: "lower_bound ?c key ?E j"
    "if j < length ?E \<and> nd_key (?E ! j) = key then on_record t dbi d True True j ?get else no_record_before t dbi d j ?get"
    using get_set [OF ok mc key, of MDB_SET_KEY "Some []"] by (auto cong: if_cong)
  have jl: "j \<le> length ?E" using j(1) by (simp add: lower_bound_def)
  have below: "\<not> klt ?c key (nd_key (?E ! i))" if "i < j" for i
    using j(1) that v [of i] jl key_order_laws(4) [OF c, of "nd_key (?E ! i)" key] key(1) by (auto simp: lower_bound_def)
  have above: "klt ?c key (nd_key (?E ! i))" if "i < length ?E" "j \<le> i" "nd_key (?E ! i) \<noteq> key" for i
    using j(1) that key_order_laws(3) [OF c key(1) v [OF that(1)]] by (auto simp: lower_bound_def)
  show ?thesis
  proof (cases "j < length ?E \<and> nd_key (?E ! j) = key")
    case True
    have ab: "klt ?c key (nd_key (?E ! i))" if "i < length ?E" "j < i" for i using db_keys_less [OF ok that(2,1)] True by simp
    have "\<exists>c'. cursor_positionAt (t, mc) key Back = Some (Some (?R ! j), c') \<and> reader_at valid t dbi d c' j"
      using delivered_record [OF ok, of j ?get] j(2) True
      by (auto simp: cursor_positionAt_def delivered_def on_record_def kv_out_def)
    moreover have "\<not> klt ?c key (nd_key (?E ! i))" if "i < Suc j" for i
      using below [of i] that True key_order_laws(1) [OF c key(1)] by (cases "i = j") auto
    ultimately show ?thesis
      using True ab by (intro exI [of _ "Suc j"]) (auto simp: nth Suc_le_eq)
  next
    case False
    then obtain mc' where m: "?get = Some (MDB_NOTFOUND, (None, None), t, mc')" "cursor_before t dbi d mc' j"
      using j(2) by (auto simp: no_record_before_def)
    have pos: "cursor_positionAt (t, mc) key Back = cursor_previous (t, mc')" using m(1) by (simp add: cursor_positionAt_def)
    have "klt ?c key (nd_key (?E ! i))" if "i < length ?E" "j \<le> i" for i
    proof (cases "nd_key (?E ! i) = key")
      case True
      then have "i = j" using lower_bound_unique [OF j(1) lower_bound_at [OF ok that(1)]] by blast
      then show ?thesis using False True that by simp
    qed (rule above [OF that])
    then show ?thesis
      unfolding pos using previous_before [OF ok m(2) jl] below jl by (intro exI [of _ j]) (simp add: nth)
  qed
qed

section \<open>What the reader delivers\<close>

definition db_range :: "mdb_txn \<Rightarrow> nat \<Rightarrow> nat \<Rightarrow> byte list \<Rightarrow> byte list \<Rightarrow> enum_options \<Rightarrow> record_kv list" where
  "db_range t dbi d lower upper opts =
     (let rs = filter (\<lambda>r. in_lower (db_cmp t dbi) lower (opt_lower_exclusive opts) (fst r) \<and>
                           in_upper (db_cmp t dbi) upper (opt_upper_exclusive opts) (fst r)) (db_records t dbi d)
      in if opt_reverse opts then rev rs else rs)"

definition handle_ok :: "mdb_txn \<Rightarrow> nat \<Rightarrow> bool" where
  "handle_ok t dbi \<longleftrightarrow> dbi < mt_numdbs t \<and> (mt_dbflags t ! dbi) AND DB_VALID \<noteq> 0 \<and> (dbi = FREE_DBI \<longrightarrow> F_ISSET (mt_flags t) MDB_TXN_RDONLY) \<and>
     pred_option (\<lambda>cs. dbi < length cs) (mt_cursors t)"

lemma open_ready:
  assumes ok: "db_ok valid t dbi d" and h: "handle_ok t dbi"
  shows "\<exists>mc. mdb_cursor_open True t dbi = Some (Inr mc, t) \<and> cursor_ok t dbi d mc"
proof -
  have blank: "cursor_ok t dbi d (cursor_blank dbi)"
    using blank_ready [of t dbi] by (simp add: cursor_ok_def) (simp add: cursor_blank_def)
  then have untrack: "cursor_ok t dbi d ((cursor_blank dbi)\<lparr>mc_flags := mc_flags (cursor_blank dbi) OR C_UNTRACK\<rparr>)"
    by (subst same_flags(2)) (simp_all add: cursor_blank_def C_UNTRACK_def)
  have "TXN_DBI_EXIST t dbi = Some True" "mdb_cursor_init t dbi = Some (t, cursor_blank dbi)" "mt_flags t AND MDB_TXN_ERROR = 0"
    using ok h by (auto simp: TXN_DBI_EXIST_def mdb_cursor_init_def db_ok_def handle_ok_def mem_simps)
  then show ?thesis using h blank untrack by (cases "mt_cursors t") (auto simp: mdb_cursor_open_def handle_ok_def mem_simps)
qed

lemma enumerate_forward:
  assumes ok: "db_ok valid t dbi d" and mc: "cursor_ok t dbi d mc" and lower: "valid lower" "lower \<noteq> []" and upper: "valid upper"
    and opts: "\<not> opt_reverse opts" "\<not> opt_lower_exclusive opts"
  shows "\<exists>c'. enumerate_between dbi lower upper opts block (t, mc) s = Some (run_block block (db_range t dbi d lower upper opts) s, c')"
proof -
  let ?R = "db_records t dbi d"
  obtain j where j: "lower_bound (db_cmp t dbi) lower (db_entries t dbi d) j"
    "if j < length (db_entries t dbi d)
     then \<exists>c'. cursor_positionAt (t, mc) lower Forward = Some (Some (?R ! j), c') \<and> reader_at valid t dbi d c' j
     else \<exists>c'. cursor_positionAt (t, mc) lower Forward = Some (None, c')"
    using position_forward [OF ok mc lower] by blast
  note rng = forward_range [OF ok upper j(1), of "opt_upper_exclusive opts"]
  show ?thesis
  proof (cases "j < length (db_entries t dbi d)")
    case True
    then obtain c' where c': "cursor_positionAt (t, mc) lower Forward = Some (Some (?R ! j), c')" "reader_at valid t dbi d c' j"
      using j(2) by auto
    have "j < length ?R" using True by simp
    moreover have "keep_upper dbi upper (opt_upper_exclusive opts) c (fst r) = Some (in_upper (db_cmp t dbi) upper (opt_upper_exclusive opts) (fst r))"
      if "reader_at valid t dbi d c i" "r \<in> set ?R" for c i r
      by (rule keep_bounds(1) [OF that upper])
    ultimately have "\<exists>c''. (do { b \<leftarrow> keep_upper dbi upper (opt_upper_exclusive opts) c' (fst (?R ! j));
        if b then let (s, stop) = block (?R ! j) s in if stop then Some (s, c')
          else walk cursor_next (keep_upper dbi upper (opt_upper_exclusive opts)) block c' s else Some (s, c') }) =
      Some (run_block block (takeWhile (\<lambda>r. in_upper (db_cmp t dbi) upper (opt_upper_exclusive opts) (fst r)) (drop j ?R)) s, c'')"
      by (rule forward.walk_here [OF c'(2)])
    then show ?thesis using c'(1) opts rng by (simp add: enumerate_between_def enumerate_from_def db_range_def Let_def)
  next
    case False
    then show ?thesis using j(2) opts rng by (auto simp: enumerate_between_def db_range_def)
  qed
qed

lemma enumerate_backward:
  assumes ok: "db_ok valid t dbi d" and mc: "cursor_ok t dbi d mc" and upper: "valid upper" "upper \<noteq> []" and lower: "valid lower"
    and opts: "opt_reverse opts" "\<not> opt_upper_exclusive opts"
  shows "\<exists>c'. enumerate_between dbi lower upper opts block (t, mc) s = Some (run_block block (db_range t dbi d lower upper opts) s, c')"
proof -
  let ?R = "db_records t dbi d"
  obtain n where n: "n \<le> length ?R" "\<forall>i < n. \<not> klt (db_cmp t dbi) upper (fst (?R ! i))"
    "\<forall>i < length ?R. n \<le> i \<longrightarrow> klt (db_cmp t dbi) upper (fst (?R ! i))"
    "if 0 < n then \<exists>c'. cursor_positionAt (t, mc) upper Back = Some (Some (?R ! (n - 1)), c') \<and> reader_at valid t dbi d c' (n - 1)
     else \<exists>c'. cursor_positionAt (t, mc) upper Back = Some (None, c')"
    using position_back [OF ok mc upper] by blast
  note rng = backward_range [OF ok lower n(1-3), of "opt_lower_exclusive opts"]
  show ?thesis
  proof (cases "0 < n")
    case True
    then obtain c' where c': "cursor_positionAt (t, mc) upper Back = Some (Some (?R ! (n - 1)), c')" "reader_at valid t dbi d c' (n - 1)"
      using n(4) by auto
    let ?i = "length ?R - n"
    have at: "?i < length ?R \<and> reader_at valid t dbi d c' (length ?R - 1 - ?i)" using c'(2) True n(1) by (auto simp: Suc_diff_le)
    have here: "rev ?R ! ?i = ?R ! (n - 1)" using True n(1) by (simp add: rev_nth)
    have il: "?i < length (rev ?R)" using at by simp
    have kb: "keep_lower dbi lower (opt_lower_exclusive opts) c (fst r) = Some (in_lower (db_cmp t dbi) lower (opt_lower_exclusive opts) (fst r))"
      if "i < length ?R \<and> reader_at valid t dbi d c (length ?R - 1 - i)" "r \<in> set (rev ?R)" for c i r
      using keep_bounds(2) [of valid t dbi d c _ r lower] that lower by auto
    have "\<exists>c''. (do { b \<leftarrow> keep_lower dbi lower (opt_lower_exclusive opts) c' (fst (rev ?R ! ?i));
        if b then let (s, stop) = block (rev ?R ! ?i) s in if stop then Some (s, c')
          else walk cursor_previous (keep_lower dbi lower (opt_lower_exclusive opts)) block c' s else Some (s, c') }) =
      Some (run_block block (takeWhile (\<lambda>r. in_lower (db_cmp t dbi) lower (opt_lower_exclusive opts) (fst r)) (drop ?i (rev ?R))) s, c'')"
      by (rule backward.walk_here [OF at il]) (rule kb)
    then show ?thesis unfolding here
      using c'(1) opts rng by (simp add: enumerate_between_def enumerate_from_def db_range_def Let_def cong: if_cong)
  next
    case False
    then show ?thesis using n(4) opts rng by (auto simp: enumerate_between_def db_range_def)
  qed
qed

lemma enumerate_delivers:
  assumes "db_ok valid t dbi d" "handle_ok t dbi" "valid lower" "lower \<noteq> []" "valid upper" "upper \<noteq> []"
    and "if opt_reverse opts then \<not> opt_upper_exclusive opts else \<not> opt_lower_exclusive opts"
  shows "enumerateKeysAndValues True t dbi lower upper opts block s = Some (run_block block (db_range t dbi d lower upper opts) s)"
proof -
  obtain mc where mc: "mdb_cursor_open True t dbi = Some (Inr mc, t)" "cursor_ok t dbi d mc" using open_ready [OF assms(1,2)] by blast
  have "\<exists>c'. enumerate_between dbi lower upper opts block (t, mc) s = Some (run_block block (db_range t dbi d lower upper opts) s, c')"
    using enumerate_forward [OF assms(1) mc(2) assms(3-5), of opts] enumerate_backward [OF assms(1) mc(2) assms(5,6,3), of opts] assms(7)
    by (cases "opt_reverse opts") auto
  then show ?thesis using mc(1) by (auto simp: enumerateKeysAndValues_def)
qed

text \<open>C20: range enumeration calls the block on exactly the records whose keys are between the bounds, in ascending order
  or, with the reverse option, in descending order, until the block asks to stop; it terminates on every well-formed database.  The
  exclusive option is covered for the bound at which the enumeration ends.\<close>

theorem enumerate_correct:
  assumes "db_ok valid t dbi d" "handle_ok t dbi" "valid lower" "lower \<noteq> []" "valid upper" "upper \<noteq> []"
    and "if opt_reverse opts then \<not> opt_upper_exclusive opts else \<not> opt_lower_exclusive opts"
  shows "enumerateKeysAndValues True t dbi lower upper opts block s = Some (run_block block (db_range t dbi d lower upper opts) s)"
  by (rule enumerate_delivers [OF assms])

lemma sample_handle: "handle_ok sample_txn 1"
  by (simp add: handle_ok_def sample_txn_def DB_VALID_def FREE_DBI_def)

lemma sample_records: "db_records sample_txn 1 0 = [([65], [120]), ([66], [121])]"
  by (simp add: db_records_def sample_simps)

lemma sample_cmp: "klt Cmp_memn [65] [66]" "\<not> klt Cmp_memn [66] [65]" "\<not> klt Cmp_memn [65] [65]" "\<not> klt Cmp_memn [66] [66]"
  by (simp_all add: klt_def mdb_cmp_memn_def)

theorem enumerate_correct_witness:
  "enumerateKeysAndValues True sample_txn 1 [65] [66] \<lparr>opt_reverse = True, opt_lower_exclusive = True, opt_upper_exclusive = False\<rparr>
     (\<lambda>kv s. (s @ [kv], False)) [] = Some [([66], [121])]"
  using enumerate_correct [OF sample_ok sample_handle, of "[65]" "[66]"
      "\<lparr>opt_reverse = True, opt_lower_exclusive = True, opt_upper_exclusive = False\<rparr>" "\<lambda>kv s. (s @ [kv], False)" "[]"]
  unfolding db_range_def sample_records sample_root by (simp add: in_lower_def in_upper_def sample_cmp)


text \<open>C21: \<open>readValueBetweenLowerBoundKey\<close> selects the first or the last record of the closed range, if there is one.\<close>

theorem readValueBetween_correct:
  assumes "db_ok valid t dbi d" "handle_ok t dbi" "valid lower" "lower \<noteq> []" "valid upper" "upper \<noteq> []"
  defines "rs \<equiv> filter (\<lambda>r. \<not> klt (md_cmp (mt_dbxs t ! dbi)) (fst r) lower \<and> \<not> klt (md_cmp (mt_dbxs t ! dbi)) upper (fst r)) (db_records t dbi d)"
  shows "readValueBetween True t dbi lower upper selectHigher =
    Some (if rs = [] then None else Some (if selectHigher then last rs else hd rs))"
proof -
  have first: "run_block (\<lambda>kv s. (Some kv, True)) xs None = (if xs = [] then None else Some (hd xs))" for xs :: "record_kv list"
    by (cases xs) auto
  show ?thesis
    unfolding readValueBetween_def rs_def
    by (subst enumerate_delivers [OF assms(1-6)])
      (auto simp: first db_range_def in_lower_def in_upper_def hd_rev Let_def)
qed

theorem readValueBetween_correct_witness: "readValueBetween True sample_txn 1 [65] [90] True = Some (Some ([66], [121]))"
proof -
  have "\<not> klt Cmp_memn [90] [65]" "\<not> klt Cmp_memn [90] [66]" by (simp_all add: klt_def mdb_cmp_memn_def)
  then show ?thesis
    using readValueBetween_correct [OF sample_ok sample_handle, of "[65]" "[90]" True]
    unfolding sample_records sample_root by (simp add: sample_cmp)
qed

end
