(* ===== verification/Alloc.thy ===== *)
theory Alloc
  imports Cursor
begin

text \<open>
  Allocation of pages in a write transaction, from \<open>LegacyDatabase/mdb.c\<close>: page buffers
  (\<open>mdb_page_malloc\<close>, \<open>mdb_page_free\<close>, \<open>mdb_dpage_free\<close>, \<open>mdb_dlist_free\<close>), loose pages, the dirty
  list, the oldest reader, and \<open>mdb_page_alloc\<close>, which takes page numbers from the loose pages, from the
  pages that older transactions freed, or from the end of the file.
\<close>

section \<open>Constants\<close>

definition MDB_NOMEMINIT :: nat where "MDB_NOMEMINIT = 0x1000000"
definition MDB_TXN_DIRTY :: nat where "MDB_TXN_DIRTY = 0x04"
definition MDB_TXN_SPILLS :: nat where "MDB_TXN_SPILLS = 0x08"

definition txn_fail :: "mdb_txn \<Rightarrow> mdb_txn" where
  "txn_fail t = t\<lparr>mt_flags := mt_flags t OR MDB_TXN_ERROR\<rparr>"

definition upd_env :: "(mdb_env \<Rightarrow> mdb_env) \<Rightarrow> mdb_txn \<Rightarrow> mdb_txn" where
  "upd_env f t = t\<lparr>mt_env := f (mt_env t)\<rparr>"

definition midl_rc_rc :: "midl_rc \<Rightarrow> rc" where
  "midl_rc_rc r = (case r of MIDL_OK \<Rightarrow> MDB_SUCCESS | MIDL_ENOMEM \<Rightarrow> ENOMEM)"

section \<open>Page buffers\<close>

text \<open>
  A single page is taken from the list of free buffers, with its old contents.  A new buffer is filled
  with zeros from \<open>off\<close> on, unless \<open>MDB_NOMEMINIT\<close> is set; for a single page \<open>off\<close> is the end of the
  header, for several it is the start of the last page.
\<close>

definition mdb_page_malloc :: "mdb_txn \<Rightarrow> nat \<Rightarrow> (nat option \<times> mdb_txn) option" where
  "mdb_page_malloc t num = (case (if num = 1 then me_dpages (mt_env t) else []) of
       a # rest \<Rightarrow> Some (Some a, upd_env (\<lambda>e. e\<lparr>me_dpages := rest\<rparr>) t)
     | [] \<Rightarrow> do {
         let psize = me_psize (mt_env t);
         let (sz, off, n) = (if num = 1 then (psize, PAGEHDRSZ, psize - PAGEHDRSZ) else (psize * num, psize * num - psize, psize));
         let (al, t1) = c_alloc t;
         (case c_malloc al sz of
            None \<Rightarrow> Some (None, txn_fail t1)
          | Some p \<Rightarrow> do {
              p \<leftarrow> (if me_flags (mt_env t) AND MDB_NOMEMINIT = 0
                   then do { p \<leftarrow> put_bytes p off (replicate n 0); wr16 p 8 0 } else Some p);
              Some (Some (mt_brk t), t1\<lparr>mt_heap := (mt_heap t1)(mt_brk t \<mapsto> p)\<rparr>) }) })"

definition mdb_page_free :: "mdb_txn \<Rightarrow> nat \<Rightarrow> mdb_txn" where
  "mdb_page_free t a = upd_env (\<lambda>e. e\<lparr>me_dpages := a # me_dpages e\<rparr>) t"

definition mdb_dpage_free :: "mdb_txn \<Rightarrow> nat \<Rightarrow> mdb_txn option" where
  "mdb_dpage_free t a = do {
     p \<leftarrow> mt_heap t a;
     fl \<leftarrow> mp_flags p;
     pages \<leftarrow> rd32 p 12;
     if \<not> IS_OVERFLOW fl \<or> pages = 1 then Some (mdb_page_free t a)
     else Some (t\<lparr>mt_heap := (mt_heap t)(a := None)\<rparr>) }"

text \<open>The dirty list of the transaction itself, the first of its levels.\<close>

definition own_dirty :: "mdb_txn \<Rightarrow> page_ptr mdb_id2 list option" where
  "own_dirty t = (case mt_levels t of [] \<Rightarrow> None | l # ls \<Rightarrow> Some (dirty_list l))"

definition set_own_dirty :: "mdb_txn \<Rightarrow> page_ptr mdb_id2 list \<Rightarrow> mdb_txn" where
  "set_own_dirty t dl = t\<lparr>mt_levels := (case mt_levels t of [] \<Rightarrow> [] | l # ls \<Rightarrow> l\<lparr>dirty_list := dl\<rparr> # ls)\<rparr>"

fun dlist_free_loop :: "mdb_txn \<Rightarrow> page_ptr mdb_id2 list \<Rightarrow> nat \<Rightarrow> nat \<Rightarrow> mdb_txn option" where
  "dlist_free_loop t dl i 0 = Some t"
| "dlist_free_loop t dl i (Suc n) = do {
     e \<leftarrow> c_read dl i;
     (case mptr e of
        PMap _ \<Rightarrow> None
      | PBuf a \<Rightarrow> do { t \<leftarrow> mdb_dpage_free t a; dlist_free_loop t dl (i + 1) n }) }"

definition mdb_dlist_free :: "mdb_txn \<Rightarrow> mdb_txn option" where
  "mdb_dlist_free t = do {
     dl \<leftarrow> own_dirty t;
     c \<leftarrow> c_read dl 0;
     t \<leftarrow> dlist_free_loop t dl 1 (u32 (unat (mid c)));
     dl \<leftarrow> c_write dl 0 (c\<lparr>mid := 0\<rparr>);
     Some (set_own_dirty t dl) }"

section \<open>Loose pages\<close>

text \<open>The search of the transaction's own dirty list for page \<open>pgno\<close>.\<close>

definition dirty_lookup :: "mdb_txn \<Rightarrow> nat \<Rightarrow> page_ptr option option" where
  "dirty_lookup t pgno = do {
     dl \<leftarrow> own_dirty t;
     c \<leftarrow> c_read dl 0;
     if mid c = 0 then Some None
     else do {
       x \<leftarrow> mdb_mid2l_search dl (of_nat pgno);
       if x \<le> unat (mid c) then do {
         e \<leftarrow> c_read dl x;
         Some (if mid e = of_nat pgno then Some (mptr e) else None) }
       else Some None } }"

text \<open>
  The transaction has a parent when \<open>mt_levels\<close> has a second element.  A loose page is marked \<open>P_LOOSE\<close> and
  linked in front of the list.
\<close>

definition mdb_page_loose :: "mdb_txn \<Rightarrow> mdb_cursor \<Rightarrow> page_ptr \<Rightarrow> (rc \<times> mdb_txn \<times> mdb_cursor) option" where
  "mdb_page_loose t mc mp = do {
     p \<leftarrow> page_at t mp;
     pgno \<leftarrow> mp_pgno p;
     fl \<leftarrow> mp_flags p;
     loose \<leftarrow> (if fl AND P_DIRTY \<noteq> 0 \<and> mc_dbi mc \<noteq> FREE_DBI then
         if length (mt_levels t) > 1 then do {
           found \<leftarrow> dirty_lookup t pgno;
           Some (case found of None \<Rightarrow> Inr False | Some q \<Rightarrow> if mp \<noteq> q then Inl MDB_CORRUPTED else Inr True) }
         else Some (Inr True)
       else Some (Inr False));
     (case loose of
        Inl rc \<Rightarrow> Some (rc, txn_fail t, mc\<lparr>mc_flags := mc_flags mc AND u32_not (C_INITIALIZED OR C_EOF)\<rparr>)
      | Inr True \<Rightarrow> do {
          t \<leftarrow> mem_put t mp 10 (le_bytes 2 (fl OR P_LOOSE));
          Some (MDB_SUCCESS, t\<lparr>mt_loose_pgs := mp # mt_loose_pgs t, mt_loose_count := mt_loose_count t + 1\<rparr>, mc) }
      | Inr False \<Rightarrow> do {
          let (al, t) = c_alloc t;
          (r, il) \<leftarrow> mdb_midl_append al (mt_free_pgs t) (of_nat pgno);
          Some (midl_rc_rc r, t\<lparr>mt_free_pgs := il\<rparr>, mc) }) }"

section \<open>Readers\<close>

definition mdb_find_oldest :: "mdb_txn \<Rightarrow> nat" where
  "mdb_find_oldest t = (case me_txns (mt_env t) of
       None \<Rightarrow> mt_txnid t - 1
     | Some ti \<Rightarrow> foldr (\<lambda>r oldest. if mr_pid r \<noteq> 0 \<and> oldest > mr_txnid r then mr_txnid r else oldest)
         (take (mti_numreaders ti) (mti_readers ti)) (mt_txnid t - 1))"

section \<open>The dirty list\<close>

definition mdb_page_dirty :: "mdb_txn \<Rightarrow> page_ptr \<Rightarrow> mdb_txn option" where
  "mdb_page_dirty t mp = do {
     p \<leftarrow> page_at t mp;
     pgno \<leftarrow> mp_pgno p;
     dl \<leftarrow> own_dirty t;
     let e = \<lparr>mid = of_nat pgno, mptr = mp\<rparr>;
     (rc, dl) \<leftarrow> (if me_flags (mt_env t) AND MDB_WRITEMAP \<noteq> 0 then mdb_mid2l_append dl e else mdb_mid2l_insert dl e);
     if rc \<noteq> MID2L_OK then None
     else Some ((set_own_dirty t dl)\<lparr>mt_dirty_room := u32 (mt_dirty_room t + 2 ^ 32 - 1)\<rparr>) }"

section \<open>Allocating page numbers\<close>

text \<open>
  The search of \<open>mop\<close> for \<open>n2 + 1\<close> consecutive page numbers, from the tail: \<open>mop[i]\<close> is the lowest of them and
  \<open>mop[i - n2]\<close> the highest.
\<close>

fun seek_range :: "mdb_id list \<Rightarrow> nat \<Rightarrow> nat \<Rightarrow> (nat \<times> mdb_id) option option" where
  "seek_range mop n2 0 = None"
| "seek_range mop n2 (Suc i) = do {
     pgno \<leftarrow> c_read mop (Suc i);
     if Suc i < n2 then None
     else do {
       x \<leftarrow> c_read mop (Suc i - n2);
       if x = pgno + of_nat n2 then Some (Some (Suc i, pgno))
       else if i > n2 then seek_range mop n2 i
       else Some None } }"

text \<open>The words of an ID list that is stored as the data of a record.\<close>

fun ids_of_bytes :: "byte list \<Rightarrow> mdb_id list" where
  "ids_of_bytes b = (if length b < 8 then [] else of_nat (le_nat (take 8 b)) # ids_of_bytes (drop 8 b))"

declare ids_of_bytes.simps [simp del]

text \<open>The local variables of \<open>mdb_page_alloc\<close> that its loop changes.\<close>

record alloc_vars =
  av_retry :: int
  av_oldest :: nat
  av_last :: nat
  av_found_old :: bool
  av_m2 :: mdb_cursor
  av_key :: "byte list"

datatype alloc_end = At nat nat | New_pages | Fail rc | Return rc

text \<open>
  \<open>if (oldest <= last) { if (!found_old) { ... } if (oldest <= last) break; }\<close>: the first component says
  whether to leave the loop.
\<close>

definition too_recent :: "mdb_txn \<Rightarrow> alloc_vars \<Rightarrow> bool \<times> mdb_txn \<times> alloc_vars" where
  "too_recent t v =
     (if av_oldest v \<le> av_last v then
        let (t, v) = (if \<not> av_found_old v
              then let o1 = mdb_find_oldest t
                   in (upd_env (\<lambda>e. e\<lparr>me_pgoldest := o1\<rparr>) t, v\<lparr>av_oldest := o1, av_found_old := True\<rparr>)
              else (t, v))
        in (av_oldest v \<le> av_last v, t, v)
      else (False, t, v))"

text \<open>Room in \<open>me_pghead\<close> for \<open>i\<close> more page numbers.\<close>

definition head_room :: "mdb_id alloc \<Rightarrow> mdb_txn \<Rightarrow> nat \<Rightarrow> (rc \<times> mdb_txn) option" where
  "head_room al t i = (case me_pghead (mt_env t) of
       None \<Rightarrow> (case mdb_midl_alloc al i of
           None \<Rightarrow> Some (ENOMEM, t)
         | Some il \<Rightarrow> Some (MDB_SUCCESS, upd_env (\<lambda>e. e\<lparr>me_pghead := Some il\<rparr>) t))
     | Some mop \<Rightarrow> do {
         (r, il) \<leftarrow> mdb_midl_need al mop i;
         Some (midl_rc_rc r, upd_env (\<lambda>e. e\<lparr>me_pghead := Some il\<rparr>) t) })"

text \<open>Merging the ID list \<open>idl\<close> of a record into \<open>me_pghead\<close>.\<close>

definition merge_record :: "mdb_txn \<Rightarrow> nat \<Rightarrow> mdb_id list \<Rightarrow> (rc \<times> mdb_txn) option" where
  "merge_record t lst idl = do {
     c \<leftarrow> c_read idl 0;
     let i = u32 (unat c);
     let (al, t) = c_alloc t;
     (rc, t) \<leftarrow> head_room al t i;
     if rc \<noteq> MDB_SUCCESS then Some (rc, t)
     else do {
       mop \<leftarrow> me_pghead (mt_env t);
       cs \<leftarrow> mdb_midl_xmerge (cells mop) idl;
       Some (MDB_SUCCESS, upd_env (\<lambda>e. e\<lparr>me_pglast := lst, me_pghead := Some (mop\<lparr>cells := cs\<rparr>)\<rparr>) t) } }"

definition pghead_cells :: "mdb_txn \<Rightarrow> mdb_id list option" where
  "pghead_cells t = map_option cells (me_pghead (mt_env t))"

definition pghead_len :: "mdb_txn \<Rightarrow> nat option" where
  "pghead_len t = (case me_pghead (mt_env t) of None \<Rightarrow> Some 0 | Some mop \<Rightarrow> do { c \<leftarrow> c_read (cells mop) 0; Some (u32 (unat c)) })"

text \<open>
  One pass through the body of the loop after the search: fetch the next record of the free list that is old
  enough and merge it.  \<open>Inl e\<close> leaves the loop.  \<open>key.mv_data = &last\<close>, so the key that \<open>MDB_SET_RANGE\<close> looks up
  is the value after \<open>last++\<close>.
\<close>

definition fetch_start :: "mdb_txn \<Rightarrow> mdb_cursor_op \<Rightarrow> alloc_vars \<Rightarrow> (mdb_txn \<times> mdb_cursor_op \<times> alloc_vars) option" where
  "fetch_start t op v = (if op = MDB_FIRST then do {
       (t, m2) \<leftarrow> mdb_cursor_init t FREE_DBI;
       let lst = me_pglast (mt_env t);
       Some (t, if lst \<noteq> 0 then MDB_SET_RANGE else op,
         v\<lparr>av_last := lst, av_oldest := me_pgoldest (mt_env t), av_m2 := m2\<rparr>) }
     else Some (t, op, v))"

definition bump_last :: "mdb_cursor_op \<Rightarrow> alloc_vars \<Rightarrow> alloc_vars" where
  "bump_last op v = (let v = v\<lparr>av_last := (av_last v + 1) mod 2 ^ 64\<rparr>
     in if op = MDB_SET_RANGE then v\<lparr>av_key := le_bytes 8 (av_last v)\<rparr> else v)"

definition use_record :: "mdb_txn \<Rightarrow> alloc_vars \<Rightarrow> (alloc_end option \<times> mdb_txn \<times> alloc_vars) option" where
  "use_record t v = (let (stop, t, v) = too_recent t v in
     if stop then Some (Some New_pages, t, v)
     else do {
       np \<leftarrow> top_page t (av_m2 v);
       ki \<leftarrow> top_ki (av_m2 v);
       leaf \<leftarrow> mp_ptr np ki;
       (r, t) \<leftarrow> mdb_node_read t np leaf;
       (case r of
          Inl rc \<Rightarrow> Some (Some (Return rc), t, v)
        | Inr data \<Rightarrow> do {
            (rc, t) \<leftarrow> merge_record t (av_last v) (ids_of_bytes data);
            Some (if rc \<noteq> MDB_SUCCESS then Some (Fail rc) else None, t, v) }) })"

definition fetch_record ::
  "mdb_txn \<Rightarrow> mdb_cursor_op \<Rightarrow> alloc_vars \<Rightarrow> (alloc_end option \<times> mdb_txn \<times> alloc_vars) option" where
  "fetch_record t op v = do {
     (t, op, v) \<leftarrow> fetch_start t op v;
     let (stop, t, v) = too_recent t (bump_last op v);
     if stop then Some (Some New_pages, t, v)
     else do {
       (rc, out, t, m2) \<leftarrow> mdb_cursor_get t (av_m2 v) (Some (av_key v)) None op;
       let v = v\<lparr>av_m2 := m2\<rparr>;
       if rc = MDB_NOTFOUND then Some (Some New_pages, t, v)
       else if rc \<noteq> MDB_SUCCESS then Some (Some (Fail rc), t, v)
       else do {
         k \<leftarrow> fst out;
         lst \<leftarrow> rd64 k 0;
         use_record t (v\<lparr>av_last := lst, av_key := k\<rparr>) } } }"

partial_function (option) page_alloc_loop ::
  "mdb_txn \<Rightarrow> nat \<Rightarrow> mdb_cursor_op \<Rightarrow> alloc_vars \<Rightarrow> (alloc_end \<times> mdb_txn) option" where
  "page_alloc_loop t n2 op v = do {
     mop_len \<leftarrow> pghead_len t;
     hit \<leftarrow> (if mop_len > n2 then do { mop \<leftarrow> pghead_cells t; seek_range mop n2 mop_len } else Some None);
     (case hit of
        Some (i, pgno) \<Rightarrow> Some (At i (unat pgno), t)
      | None \<Rightarrow>
          let v = (if mop_len > n2 then v\<lparr>av_retry := av_retry v - 1\<rparr> else v) in
          if mop_len > n2 \<and> av_retry v < 0 then Some (New_pages, t)
          else do {
            (e, t, v) \<leftarrow> fetch_record t op v;
            (case e of
               Some e \<Rightarrow> Some (e, t)
             | None \<Rightarrow> page_alloc_loop t n2 MDB_NEXT v) }) }"

declare page_alloc_loop.simps [code]

text \<open>The loop \<open>for (j = i - num; j < mop_len; ) mop[++j] = mop[++i]\<close>.\<close>

function stragglers :: "mdb_id list \<Rightarrow> nat \<Rightarrow> nat \<Rightarrow> nat \<Rightarrow> mdb_id list option" where
  "stragglers mop j i n = (if j < n then do {
       x \<leftarrow> c_read mop (i + 1);
       mop \<leftarrow> c_write mop (j + 1) x;
       stragglers mop (j + 1) (i + 1) n }
     else Some mop)"
  by pat_completeness auto
termination
  by (relation "measure (\<lambda>(mop, j, i, n). n - j)") auto

declare stragglers.simps [simp del]

text \<open>Removing the pages from the free list or from the end of the file; \<open>i\<close> is zero for the latter.\<close>

definition take_pages :: "mdb_txn \<Rightarrow> nat \<Rightarrow> nat \<Rightarrow> nat \<Rightarrow> mdb_txn option" where
  "take_pages t num i pgno = (if i \<noteq> 0 then do {
       mop_len \<leftarrow> pghead_len t;
       mop \<leftarrow> me_pghead (mt_env t);
       let n = u32 (mop_len + 2 ^ 32 - num);
       cs \<leftarrow> c_write (cells mop) 0 (of_nat n);
       cs \<leftarrow> (if i < num then None else stragglers cs (i - num) i n);
       Some (upd_env (\<lambda>e. e\<lparr>me_pghead := Some (mop\<lparr>cells := cs\<rparr>)\<rparr>) t) }
     else Some (t\<lparr>mt_next_pgno := pgno + num\<rparr>))"

text \<open>From the label \<open>search_done\<close> on.\<close>

definition alloc_pages :: "mdb_txn \<Rightarrow> nat \<Rightarrow> nat \<Rightarrow> nat \<Rightarrow> ((rc + page_ptr) \<times> mdb_txn) option" where
  "alloc_pages t num i pgno = do {
     (np, t) \<leftarrow> (if me_flags (mt_env t) AND MDB_WRITEMAP \<noteq> 0 then Some (Some (PMap pgno), t)
       else do { (a, t) \<leftarrow> mdb_page_malloc t num; Some (map_option PBuf a, t) });
     (case np of
        None \<Rightarrow> Some (Inl ENOMEM, txn_fail t)
      | Some np \<Rightarrow> do {
          t \<leftarrow> take_pages t num i pgno;
          t \<leftarrow> mem_put t np 0 (le_bytes 8 pgno);
          t \<leftarrow> mdb_page_dirty t np;
          Some (Inr np, t) }) }"

text \<open>\<open>retry\<close> is an \<open>int\<close>; its computation must not overflow.\<close>

definition mdb_page_alloc :: "mdb_txn \<Rightarrow> nat \<Rightarrow> ((rc + page_ptr) \<times> mdb_txn) option" where
  "mdb_page_alloc t num = (if num = 0 \<or> num * 60 \<ge> 2 ^ 31 then None else
     (case (if num = 1 then mt_loose_pgs t else []) of
        np # rest \<Rightarrow> Some (Inr np, t\<lparr>mt_loose_pgs := rest, mt_loose_count := mt_loose_count t - 1\<rparr>)
      | [] \<Rightarrow>
          if mt_dirty_room t = 0 then Some (Inl MDB_TXN_FULL, txn_fail t)
          else do {
            (e, t) \<leftarrow> page_alloc_loop t (num - 1) MDB_FIRST
              \<lparr>av_retry = int num * 60, av_oldest = 0, av_last = 0, av_found_old = False, av_m2 = cursor_blank FREE_DBI, av_key = []\<rparr>;
            (case e of
               Fail rc \<Rightarrow> Some (Inl rc, txn_fail t)
             | Return rc \<Rightarrow> Some (Inl rc, t)
             | At i pgno \<Rightarrow> alloc_pages t num i pgno
             | New_pages \<Rightarrow>
                 if mt_next_pgno t + num \<ge> me_maxpg (mt_env t) then Some (Inl MDB_MAP_FULL, txn_fail t)
                 else alloc_pages t num 0 (mt_next_pgno t)) }))"

text \<open>The oldest reader is not newer than any reader in the table.\<close>

lemma find_oldest_reader:
  assumes "me_txns (mt_env t) = Some ti" "reader \<in> set (take (mti_numreaders ti) (mti_readers ti))" "mr_pid reader \<noteq> 0"
  shows "mdb_find_oldest t \<le> mr_txnid reader"
proof -
  have "foldr (\<lambda>r old. if mr_pid r \<noteq> 0 \<and> old > mr_txnid r then mr_txnid r else old) rs n \<le> mr_txnid reader"
    if "reader \<in> set rs" for rs and n :: nat using that assms(3) by (induction rs) auto
  then show ?thesis using assms(1,2) by (simp add: mdb_find_oldest_def)
qed

end
