(* ===== verification/Frame.thy ===== *)
theory Frame
  imports Cursor_Ops
begin

text \<open>
  What the records of a database depend on: the pages of its tree and its overflow pages (\<open>db_pages\<close>).  A change
  of the transaction that leaves those pages readable as before (\<open>reads_same\<close>) leaves the database as it was;
  a change of bookkeeping only (\<open>same_view\<close>) leaves cursors valid, too.
\<close>

section \<open>The pages of a database\<close>

definition read_at :: "mdb_txn \<Rightarrow> nat \<Rightarrow> nat \<Rightarrow> nat \<Rightarrow> byte list option" where
  "read_at t pg ofs n = do {
     (r, t') \<leftarrow> mdb_page_get t pg;
     (case r of Inl e \<Rightarrow> None | Inr pl \<Rightarrow> mem_bytes t (fst pl) ofs n) }"

lemma tpage_read: "tpage t pg = read_at t pg 0 (me_psize (mt_env t))"
  unfolding tpage_def read_at_def page_at_def ..

definition ov_page :: "byte list \<Rightarrow> nat" where
  "ov_page r = le_nat (slice r (8 + nd_ksize r) 8)"

lemma record_data_read:
  "record_data t r = (if even (nd_flags r) then Some (slice r (8 + nd_ksize r) (nd_dsize r)) else read_at t (ov_page r) 16 (nd_dsize r))"
  by (simp add: record_data_def read_at_def ov_page_def)

fun tree_pages :: "mdb_txn \<Rightarrow> nat \<Rightarrow> nat \<Rightarrow> nat set" where
  "tree_pages t 0 pg = {pg}"
| "tree_pages t (Suc d) pg = insert pg (case tpage t pg of None \<Rightarrow> {} | Some p \<Rightarrow> \<Union>i<pg_n p. tree_pages t d (child p i))"

definition db_pages :: "mdb_txn \<Rightarrow> nat \<Rightarrow> nat \<Rightarrow> nat set" where
  "db_pages t dbi d = (if db_root t dbi = P_INVALID then {} else tree_pages t d (db_root t dbi)) \<union>
     {ov_page r |r. r \<in> set (db_entries t dbi d) \<and> odd (nd_flags r)}"

section \<open>Frames\<close>

definition reads_same :: "mdb_txn \<Rightarrow> mdb_txn \<Rightarrow> nat set \<Rightarrow> bool" where
  "reads_same t t' S \<longleftrightarrow> me_psize (mt_env t') = me_psize (mt_env t) \<and> (\<forall>pg \<in> S. \<forall>ofs n. read_at t' pg ofs n = read_at t pg ofs n)"

lemma reads_tpage: "reads_same t t' S \<Longrightarrow> pg \<in> S \<Longrightarrow> tpage t' pg = tpage t pg"
  by (simp add: reads_same_def tpage_read)

lemma reads_same_mono: "reads_same t t' S \<Longrightarrow> T \<subseteq> S \<Longrightarrow> reads_same t t' T"
  by (auto simp: reads_same_def)

lemma root_in_tree: "pg \<in> tree_pages t d pg"
  by (cases d) auto

lemma tree_frame:
  assumes "reads_same t t' S" "tree_pages t d pg \<subseteq> S"
  shows "entries t' d pg = entries t d pg" "tree_pages t' d pg = tree_pages t d pg"
    "tree_ok c valid t' d pg lo hi = tree_ok c valid t d pg lo hi"
proof -
  have "entries t' d pg = entries t d pg \<and> tree_pages t' d pg = tree_pages t d pg \<and>
    (\<forall>lo hi. tree_ok c valid t' d pg lo hi = tree_ok c valid t d pg lo hi)"
    using assms(2)
  proof (induction d arbitrary: pg)
    case 0
    then show ?case using reads_tpage [OF assms(1)] by (simp add: tree_ok.simps)
  next
    case (Suc d)
    have p: "tpage t' pg = tpage t pg" using Suc.prems reads_tpage [OF assms(1)] root_in_tree by blast
    show ?case
    proof (cases "tpage t pg")
      case None
      then show ?thesis using p by (simp add: tree_ok.simps)
    next
      case (Some q)
      have "entries t' d (child q i) = entries t d (child q i)" "tree_pages t' d (child q i) = tree_pages t d (child q i)"
        "tree_ok c valid t' d (child q i) lo hi = tree_ok c valid t d (child q i) lo hi" if "i < pg_n q" for i lo hi
        using Suc.IH [of "child q i"] Suc.prems Some that by auto
      then show ?thesis using p Some by (auto simp: tree_ok.simps intro!: arg_cong [of _ _ concat])
    qed
  qed
  then show "entries t' d pg = entries t d pg" "tree_pages t' d pg = tree_pages t d pg"
    "tree_ok c valid t' d pg lo hi = tree_ok c valid t d pg lo hi" by auto
qed

text \<open>The record of a database and the handle are the same in both transactions.\<close>

definition same_handle :: "mdb_txn \<Rightarrow> mdb_txn \<Rightarrow> nat \<Rightarrow> bool" where
  "same_handle t t' dbi \<longleftrightarrow> length (mt_dbs t') = length (mt_dbs t) \<and> mt_dbs t' ! dbi = mt_dbs t ! dbi \<and>
     mt_dbxs t' = mt_dbxs t \<and> mt_dbflags t' = mt_dbflags t \<and> mt_flags t' AND MDB_TXN_ERROR = mt_flags t AND MDB_TXN_ERROR"

lemma db_frame:
  assumes "reads_same t t' (db_pages t dbi d)" "same_handle t t' dbi"
  shows "db_entries t' dbi d = db_entries t dbi d" "db_pages t' dbi d = db_pages t dbi d"
    "r \<in> set (db_entries t dbi d) \<Longrightarrow> record_data t' r = record_data t r"
    "db_ok valid t' dbi d = db_ok valid t dbi d"
proof -
  note h = assms(2) [unfolded same_handle_def]
  have tr: "entries t' d (db_root t dbi) = entries t d (db_root t dbi)" "tree_pages t' d (db_root t dbi) = tree_pages t d (db_root t dbi)"
    "tree_ok c valid t' d (db_root t dbi) None None = tree_ok c valid t d (db_root t dbi) None None" if "db_root t dbi \<noteq> P_INVALID" for c
    using tree_frame [OF assms(1), of d "db_root t dbi"] that by (auto simp: db_pages_def)
  show e: "db_entries t' dbi d = db_entries t dbi d" using tr(1) h by (auto simp: db_entries_def)
  show "db_pages t' dbi d = db_pages t dbi d" unfolding db_pages_def e using tr(2) h by auto
  show d: "record_data t' r = record_data t r" if "r \<in> set (db_entries t dbi d)" for r
    using assms(1) that by (auto simp: record_data_read reads_same_def db_pages_def)
  have "(\<forall>r \<in> set (db_entries t dbi d). record_ok t' r) = (\<forall>r \<in> set (db_entries t dbi d). record_ok t r)"
    using d by (simp add: record_ok_def)
  then show "db_ok valid t' dbi d = db_ok valid t dbi d"
    unfolding db_ok_def e using tr(3) h by (cases "db_root t dbi = P_INVALID") auto
qed

text \<open>All that reading depends on is the same.\<close>

definition same_view :: "mdb_txn \<Rightarrow> mdb_txn \<Rightarrow> bool" where
  "same_view t t' \<longleftrightarrow> mt_heap t' = mt_heap t \<and> mt_flags t' = mt_flags t \<and> mt_next_pgno t' = mt_next_pgno t \<and>
     mt_levels t' = mt_levels t \<and> mt_dbs t' = mt_dbs t \<and> mt_dbxs t' = mt_dbxs t \<and> mt_dbflags t' = mt_dbflags t \<and>
     me_flags (mt_env t') = me_flags (mt_env t) \<and> me_psize (mt_env t') = me_psize (mt_env t) \<and> me_map (mt_env t') = me_map (mt_env t)"

lemma same_view_refl [simp]: "same_view t t"
  by (simp add: same_view_def)

lemma same_view_trans: "same_view t u \<Longrightarrow> same_view u v \<Longrightarrow> same_view t v"
  by (simp add: same_view_def)

lemma view_mem: "same_view t t' \<Longrightarrow> mem_bytes t' = mem_bytes t"
  by (intro ext) (simp add: mem_bytes_def same_view_def split: page_ptr.split)

lemma view_page_at: assumes "same_view t t'" shows "page_at t' = page_at t"
  by (intro ext) (use assms in \<open>simp add: page_at_def view_mem [OF assms] same_view_def\<close>)

lemma page_get_read:
  "read_at t pg ofs n = (case mdb_page_get t pg of Some (Inr pl, t') \<Rightarrow> mem_bytes t (fst pl) ofs n | _ \<Rightarrow> None)"
  by (auto simp: read_at_def split: option.split sum.split Option.bind_split)

lemma view_get:
  assumes "same_view t t'"
  shows "map_option fst (mdb_page_get t' pg) = map_option fst (mdb_page_get t pg)"
  using assms by (auto simp: mdb_page_get_def same_view_def split: sum.split Option.bind_split)

lemma view_read: assumes "same_view t t'" shows "read_at t' = read_at t"
proof (intro ext)
  fix pg ofs n
  show "read_at t' pg ofs n = read_at t pg ofs n"
    using view_get [OF assms, of pg] by (auto simp: page_get_read view_mem [OF assms] split: option.splits sum.splits)
qed

lemma view_reads: assumes "same_view t t'" shows "reads_same t t' S"
  using assms by (simp add: reads_same_def view_read [OF assms]) (simp add: same_view_def)

lemma view_tpage: assumes "same_view t t'" shows "tpage t' = tpage t"
  by (intro ext) (use assms in \<open>simp add: tpage_read view_read [OF assms] same_view_def\<close>)

lemma view_tree: "same_view t t' \<Longrightarrow> entries t' = entries t"
  using tree_frame(1) [OF view_reads, of t t' _ _ UNIV] by (intro ext) simp

lemma view_desc: assumes "same_view t t'" shows "desc t' d pg ps ks = desc t d pg ps ks"
  using assms
proof (induction t d pg ps ks rule: desc.induct)
  case (2 t d pg ptr ps k ks)
  then show ?case by (cases "tpage t pg") (simp_all add: view_tpage [OF 2(2)] view_page_at [OF 2(2)])
qed simp_all

lemma view_base: assumes "same_view t t'" shows "base t' d pg ks = base t d pg ks"
  using assms
proof (induction t d pg ks rule: base.induct)
  case (1 t d pg k ks)
  then show ?case by (simp add: view_tpage [OF 1(2)] view_tree [OF 1(2)] split: option.split)
qed simp_all

lemma view_handle: "same_view t t' \<Longrightarrow> same_handle t t' dbi"
  by (simp add: same_view_def same_handle_def)

lemma view_db:
  assumes "same_view t t'"
  shows "db_entries t' dbi d = db_entries t dbi d" "db_pages t' dbi d = db_pages t dbi d"
    "db_ok valid t' dbi d = db_ok valid t dbi d" "record_data t' = record_data t"
  using db_frame [OF view_reads [OF assms] view_handle [OF assms]] by (auto simp: record_data_read view_read [OF assms])

lemma view_cursor:
  assumes "same_view t t'"
  shows "cursor_at t' dbi d mc i = cursor_at t dbi d mc i" "cursor_ok t' dbi d mc = cursor_ok t dbi d mc"
proof -
  have root: "db_root t' dbi = db_root t dbi" using assms by (simp add: same_view_def)
  note v = view_tpage [OF assms] view_page_at [OF assms] view_desc [OF assms] view_base [OF assms] view_db(1) [OF assms] root
  have l: "at_leaf t' dbi d mc a k p = at_leaf t dbi d mc a k p" for a k p
    by (simp add: at_leaf_def on_leaf_def v)
  show "cursor_at t' dbi d mc i = cursor_at t dbi d mc i" "cursor_ok t' dbi d mc = cursor_ok t dbi d mc"
    unfolding cursor_at_def cursor_ok_def cursor_ready_def l v by (rule refl)+
qed

end
