(* ===== verification/Alloc_Lists.thy ===== *)
theory Alloc_Lists
  imports Alloc Frame
begin

text \<open>
  The list manipulations of page allocation: finding and cutting out a run of consecutive page numbers, looking a page
  up in the dirty list, and the page buffers.
\<close>

section \<open>Runs of consecutive page numbers\<close>

lemma strict_descending: "sorted_wrt (\<ge>) xs \<Longrightarrow> distinct xs \<Longrightarrow> sorted_wrt (>) (xs :: 'a::linorder list)"
  by (induction xs) (auto simp: order.strict_iff_order)

lemma distinct_bounded: "distinct xs \<Longrightarrow> \<forall>x \<in> set xs. x < (n :: nat) \<Longrightarrow> length xs \<le> n"
  using card_mono [of "{..<n}" "set xs"] by (auto simp: distinct_card subset_iff)

text \<open>In a strictly descending list of numbers, positions \<open>m\<close> apart hold values at least \<open>m\<close> apart.\<close>

lemma descending_gap:
  assumes "sorted_wrt (>) (xs :: nat list)" "k + m < length xs"
  shows "xs ! (k + m) + m \<le> xs ! k"
  using assms(2)
proof (induction m)
  case (Suc m)
  have "xs ! (k + Suc m) < xs ! (k + m)" using sorted_wrt_nth_less [OF assms(1), of "k + m" "k + Suc m"] Suc.prems by simp
  then show ?case using Suc by simp
qed simp

lemma descending_run:
  assumes s: "sorted_wrt (>) (xs :: nat list)" and i: "n < i" "i \<le> length xs" and h: "xs ! (i - Suc n) = xs ! (i - 1) + n" and m: "m \<le> n"
  shows "xs ! (i - 1 - m) = xs ! (i - 1) + m"
proof -
  have "xs ! (i - 1) + m \<le> xs ! (i - 1 - m)" using descending_gap [OF s, of "i - 1 - m" m] i m by simp
  moreover have "xs ! (i - 1 - m) + (n - m) \<le> xs ! (i - Suc n)"
    using descending_gap [OF s, of "i - Suc n" "n - m"] i m by (simp add: diff_diff_eq)
  ultimately show ?thesis using h m by simp
qed

text \<open>The numbers at the positions \<open>i - Suc n\<close> to \<open>i - 1\<close> are the run.\<close>

lemma run_slice:
  assumes s: "sorted_wrt (>) (xs :: nat list)" and i: "n < i" "i \<le> length xs" and h: "xs ! (i - Suc n) = xs ! (i - 1) + n"
  shows "set (take (Suc n) (drop (i - Suc n) xs)) = {xs ! (i - 1)..<xs ! (i - 1) + Suc n}"
proof -
  have "take (Suc n) (drop (i - Suc n) xs) = map (\<lambda>k. xs ! (i - 1) + (n - k)) [0..<Suc n]"
  proof (rule nth_equalityI)
    show "length (take (Suc n) (drop (i - Suc n) xs)) = length (map (\<lambda>k. xs ! (i - 1) + (n - k)) [0..<Suc n])" using i by simp
    fix k assume "k < length (take (Suc n) (drop (i - Suc n) xs))"
    then have k: "k \<le> n" using i by simp
    have "i - Suc n + k = i - 1 - (n - k)" using i k by simp
    then show "take (Suc n) (drop (i - Suc n) xs) ! k = map (\<lambda>k. xs ! (i - 1) + (n - k)) [0..<Suc n] ! k"
      using k i descending_run [OF s i h, of "n - k"] by (simp del: upt_Suc)
  qed
  moreover have "(\<lambda>k. xs ! (i - 1) + (n - k)) ` {0..<Suc n} = {xs ! (i - 1)..<xs ! (i - 1) + Suc n}"
  proof (intro equalityI subsetI)
    fix y assume "y \<in> {xs ! (i - 1)..<xs ! (i - 1) + Suc n}"
    then show "y \<in> (\<lambda>k. xs ! (i - 1) + (n - k)) ` {0..<Suc n}" by (intro image_eqI [of _ _ "n - (y - xs ! (i - 1))"]) auto
  qed auto
  ultimately show ?thesis by (simp only: set_map set_upt)
qed

lemma seek_range_spec:
  assumes wf: "idl_wf mop" and i: "n2 < i" "i \<le> length (idl_list mop)"
  shows "\<exists>r. seek_range mop n2 i = Some r \<and> (case r of None \<Rightarrow> True | Some (k, pgno) \<Rightarrow>
    n2 < k \<and> k \<le> i \<and> idl_list mop ! (k - 1) = pgno \<and> idl_list mop ! (k - Suc n2) = pgno + of_nat n2)"
  using i
proof (induction i)
  case (Suc i)
  have len: "unat (mop ! 0) = length (idl_list mop)" using length_idl_list [OF wf] by simp
  have rd: "c_read mop k = Some (idl_list mop ! (k - 1))" if "0 < k" "k \<le> Suc i" for k
    using that idl_list_nth [OF wf, of "k - 1"] wf Suc.prems len by (auto simp: c_read_def idl_wf_def)
  have r1: "c_read mop (Suc i) = Some (idl_list mop ! i)" "c_read mop (Suc i - n2) = Some (idl_list mop ! (i - n2))"
    using rd [of "Suc i"] rd [of "Suc i - n2"] Suc.prems by auto
  show ?case
  proof (cases "idl_list mop ! (i - n2) = idl_list mop ! i + of_nat n2")
    case True
    then show ?thesis using r1 Suc.prems by auto
  next
    case False
    then show ?thesis
    proof (cases "n2 < i")
      case True
      then obtain r where r: "seek_range mop n2 i = Some r" "case r of None \<Rightarrow> True | Some (k, pgno) \<Rightarrow>
        n2 < k \<and> k \<le> i \<and> idl_list mop ! (k - 1) = pgno \<and> idl_list mop ! (k - Suc n2) = pgno + of_nat n2"
        using Suc.IH Suc.prems by auto
      then show ?thesis using r1 False Suc.prems True by (auto split: option.splits)
    qed (use r1 False Suc.prems in auto)
  qed
qed simp

lemma stragglers_spec:
  assumes "j < i" "i + (n - j) < length mop"
  shows "\<exists>m. stragglers mop j i n = Some m \<and> length m = length mop \<and> (\<forall>k. k \<le> j \<or> (n < k \<and> j \<le> n) \<longrightarrow> m ! k = mop ! k) \<and>
    (\<forall>k. j < k \<and> k \<le> n \<longrightarrow> m ! k = mop ! (k + (i - j)))"
  using assms
proof (induction mop j i n rule: stragglers.induct)
  case (1 mop j i n)
  show ?case
  proof (cases "j < n")
    case False
    then show ?thesis by (subst stragglers.simps) auto
  next
    case True
    let ?m1 = "mop[j + 1 := mop ! (i + 1)]"
    have rw: "c_read mop (i + 1) = Some (mop ! (i + 1))" "c_write mop (j + 1) (mop ! (i + 1)) = Some ?m1"
      using "1.prems" True by (auto simp: mem_simps)
    have b: "j + 1 < i + 1" "i + 1 + (n - (j + 1)) < length ?m1" using "1.prems" True by auto
    obtain m where m: "stragglers ?m1 (j + 1) (i + 1) n = Some m" "length m = length ?m1"
      "\<forall>k. k \<le> j + 1 \<or> (n < k \<and> j + 1 \<le> n) \<longrightarrow> m ! k = ?m1 ! k" "\<forall>k. j + 1 < k \<and> k \<le> n \<longrightarrow> m ! k = ?m1 ! (k + (i + 1 - (j + 1)))"
      using "1.IH" [OF True rw b] by blast
    have "stragglers mop j i n = Some m" using m(1) rw True by (subst stragglers.simps) simp
    moreover have "m ! k = mop ! (k + (i - j))" if "j < k" "k \<le> n" for k
      using that m(3,4) "1.prems" by (cases "k = j + 1") auto
    moreover have "m ! k = mop ! k" if "k \<le> j \<or> n < k \<and> j \<le> n" for k using m(3) that True by auto
    ultimately show ?thesis using m(2) by auto
  qed
qed

text \<open>Cutting the run out of the list.\<close>

lemma cut_run:
  assumes wf: "idl_wf mop" and i: "num \<le> i" "i \<le> length (idl_list mop)" "0 < num" and small: "length (idl_list mop) < 2 ^ 32"
  defines "n \<equiv> u32 (length (idl_list mop) + 2 ^ 32 - num)"
  shows "\<exists>m cs. c_write mop 0 (of_nat n) = Some m \<and> stragglers m (i - num) i n = Some cs \<and> length cs = length mop \<and> idl_wf cs \<and>
    unat (cs ! 0) = length (idl_list mop) - num \<and> idl_list cs = take (i - num) (idl_list mop) @ drop i (idl_list mop)"
proof -
  let ?xs = "idl_list mop" and ?m = "mop[0 := of_nat n]"
  have len: "unat (mop ! 0) = length ?xs" "length ?xs < length mop" using length_idl_list [OF wf] wf by (auto simp: idl_wf_def)
  have "length ?xs + 2 ^ 32 - num = (length ?xs - num) + 2 ^ 32" using i by simp
  then have "n = (length ?xs - num) mod 2 ^ 32" unfolding n_def u32_def by (simp only: mod_add_self2)
  then have n: "n = length ?xs - num" using small by simp
  have w: "c_write mop 0 (of_nat n) = Some ?m" using len(2) by (auto simp: c_write_def)
  obtain cs where cs: "stragglers ?m (i - num) i n = Some cs" "length cs = length ?m"
    "\<forall>k. k \<le> i - num \<or> (n < k \<and> i - num \<le> n) \<longrightarrow> cs ! k = ?m ! k" "\<forall>k. i - num < k \<and> k \<le> n \<longrightarrow> cs ! k = ?m ! (k + (i - (i - num)))"
    using stragglers_spec [of "i - num" i n ?m] i n len(2) by auto
  have c0: "unat (cs ! 0) = n" using cs(3) [rule_format, of 0] len(2) n small by (cases mop) (auto simp: unat_of_nat)
  have wf': "idl_wf cs" using c0 cs(2) n len(2) by (simp add: idl_wf_def)
  have "idl_list cs = take (i - num) ?xs @ drop i ?xs"
  proof (rule nth_equalityI)
    show l: "length (idl_list cs) = length (take (i - num) ?xs @ drop i ?xs)" using length_idl_list [OF wf'] c0 n i by simp
    fix k assume "k < length (idl_list cs)"
    then have k: "k < n" using length_idl_list [OF wf'] c0 by simp
    have "idl_list cs ! k = cs ! Suc k" using idl_list_nth [OF wf', of k] k c0 by simp
    moreover have "?xs ! m = mop ! Suc m" if "m < length ?xs" for m using idl_list_nth [OF wf, of m] that len by simp
    ultimately show "idl_list cs ! k = (take (i - num) ?xs @ drop i ?xs) ! k"
      using cs(3,4) k n i by (cases "k < i - num") (auto simp: nth_append)
  qed
  then show ?thesis using w cs(1,2) wf' c0 n by auto
qed

section \<open>The dirty list\<close>

definition dl_find :: "page_ptr mdb_id2 list \<Rightarrow> nat \<Rightarrow> page_ptr option" where
  "dl_find dl pg = map_option mptr (find (\<lambda>e. mid e = of_nat pg) (id2l_list dl))"

lemma find_distinct:
  assumes "distinct (map f xs)" "k < length xs" "f (xs ! k) = y"
  shows "find (\<lambda>e. f e = y) xs = Some (xs ! k)"
  using assms
proof (induction xs arbitrary: k)
  case (Cons x xs)
  then show ?case by (cases k) (simp_all, metis image_eqI nth_mem)
qed simp

lemma id2l_distinct: "id2l_inv dl \<Longrightarrow> distinct (map mid (id2l_list dl))"
  by (simp add: id2l_inv_def strict_sorted_iff)

lemma dirty_search:
  assumes inv: "id2l_inv dl"
  shows "(do { c \<leftarrow> c_read dl 0;
      if mid c \<noteq> 0 then do {
        x \<leftarrow> mdb_mid2l_search dl (of_nat pg);
        if x \<le> unat (mid c) then do { v \<leftarrow> c_read dl x; Some (if mid v = of_nat pg then Some (mptr v) else None) } else Some None }
      else Some None }) = Some (dl_find dl pg)"
proof -
  let ?xs = "id2l_list dl" and ?k = "of_nat pg :: mdb_id"
  note len = id2l_list_length [OF inv]
  obtain r where r: "mdb_mid2l_search dl ?k = Some r" "1 \<le> r" "r \<le> length ?xs + 1"
    and hit: "?k \<in> mid ` set ?xs \<longleftrightarrow> r \<le> length ?xs \<and> mid (?xs ! (r - 1)) = ?k"
    using mid2l_search_take [OF inv, of ?k] by blast
  have nth: "r \<le> length ?xs \<Longrightarrow> c_read dl r = Some (?xs ! (r - 1))"
    using id2l_list_nth [OF inv, of "r - 1"] r(2) len inv by (auto simp: c_read_def id2l_inv_def)
  have c0: "c_read dl 0 = Some (dl ! 0)" using inv by (auto simp: id2l_inv_def c_read_def)
  have none: "dl_find dl pg = None" if "?k \<notin> mid ` set ?xs" using that by (force simp: dl_find_def find_None_iff)
  have some: "dl_find dl pg = Some (mptr (?xs ! (r - 1)))" if "r \<le> length ?xs" "mid (?xs ! (r - 1)) = ?k"
    using find_distinct [OF id2l_distinct [OF inv], of "r - 1"] that r(2) by (simp add: dl_find_def)
  show ?thesis
  proof (cases "mid (dl ! 0) = 0")
    case True
    then have "?xs = []" using len by simp
    then show ?thesis using c0 True none by simp
  next
    case False
    then show ?thesis using c0 r(1) nth len hit none some by (auto simp: Let_def)
  qed
qed

lemma dl_find_insert:
  assumes "id2l_list dl' = filter (\<lambda>y. mid y < mid e) (id2l_list dl) @ e # filter (\<lambda>y. mid y > mid e) (id2l_list dl)"
    and "mid e \<notin> mid ` set (id2l_list dl)"
  shows "dl_find dl' pg = (if mid e = of_nat pg then Some (mptr e) else dl_find dl pg)"
proof -
  have app: "find P (xs @ ys) = (case find P xs of None \<Rightarrow> find P ys | r \<Rightarrow> r)" for P :: "'a \<Rightarrow> bool" and xs ys
    by (induction xs) auto
  have f: "find P (filter Q xs) = find (\<lambda>x. Q x \<and> P x) xs" for P Q :: "'a \<Rightarrow> bool" and xs by (induction xs) auto
  show ?thesis
  proof (cases "mid e = of_nat pg")
    case True
    have "find (\<lambda>x. mid x < mid e \<and> mid x = of_nat pg) (id2l_list dl) = None" using True by (auto simp: find_None_iff)
    then show ?thesis using True assms(1) by (simp add: dl_find_def app f)
  next
    case False
    let ?k = "of_nat pg :: mdb_id"
    have "find (\<lambda>x. mid x < mid e \<and> mid x = ?k) (id2l_list dl) = (if ?k < mid e then find (\<lambda>x. mid x = ?k) (id2l_list dl) else None)"
      by (auto simp: find_None_iff intro!: arg_cong [of _ _ "\<lambda>P. find P _"])
    moreover have "find (\<lambda>x. mid e < mid x \<and> mid x = ?k) (id2l_list dl) = (if mid e < ?k then find (\<lambda>x. mid x = ?k) (id2l_list dl) else None)"
      by (auto simp: find_None_iff intro!: arg_cong [of _ _ "\<lambda>P. find P _"])
    ultimately show ?thesis using False assms(1)
      by (cases "?k < mid e") (auto simp: dl_find_def app f split: option.split)
  qed
qed

section \<open>Page buffers\<close>

text \<open>
  Free buffers are one page long and not in use; addresses from \<open>mt_brk\<close> on have not been handed out.  The dirty
  lists point to buffers that are in use.
\<close>

definition heap_ok :: "mdb_txn \<Rightarrow> bool" where
  "heap_ok t \<longleftrightarrow> 16 \<le> me_psize (mt_env t) \<and> (\<forall>a \<ge> mt_brk t. mt_heap t a = None) \<and> distinct (me_dpages (mt_env t)) \<and>
     (\<forall>a \<in> set (me_dpages (mt_env t)). \<exists>p. mt_heap t a = Some p \<and> length p = me_psize (mt_env t))"

definition in_use :: "mdb_txn \<Rightarrow> page_ptr \<Rightarrow> bool" where
  "in_use t ptr \<longleftrightarrow> (case ptr of PMap _ \<Rightarrow> True | PBuf a \<Rightarrow> a < mt_brk t \<and> a \<notin> set (me_dpages (mt_env t)))"

lemma page_malloc_spec:
  assumes ok: "heap_ok t" and num: "0 < num"
  shows "\<exists>r t'. mdb_page_malloc t num = Some (r, t') \<and> (case r of
      None \<Rightarrow> t' = txn_fail (t\<lparr>mt_brk := mt_brk t + 1\<rparr>)
    | Some a \<Rightarrow> \<exists>p br dp. t' = (upd_env (\<lambda>e. e\<lparr>me_dpages := dp\<rparr>) t)\<lparr>mt_brk := br, mt_heap := (mt_heap t)(a \<mapsto> p)\<rparr> \<and>
        length p = me_psize (mt_env t) * num \<and> heap_ok t' \<and> \<not> in_use t (PBuf a) \<and> in_use t' (PBuf a) \<and>
        set dp \<subseteq> set (me_dpages (mt_env t)) \<and> mt_brk t \<le> br)"
proof (cases "if num = 1 then me_dpages (mt_env t) else []")
  case (Cons a rest)
  then have n1: "num = 1" "me_dpages (mt_env t) = a # rest" by (auto split: if_splits)
  obtain p where p: "mt_heap t a = Some p" "length p = me_psize (mt_env t)" using ok n1 by (auto simp: heap_ok_def)
  then have a: "a < mt_brk t" using ok by (auto simp: heap_ok_def not_le [symmetric])
  have same: "(mt_heap t)(a \<mapsto> p) = mt_heap t" using p(1) by auto
  have "mdb_page_malloc t num = Some (Some a, (upd_env (\<lambda>e. e\<lparr>me_dpages := rest\<rparr>) t)\<lparr>mt_brk := mt_brk t, mt_heap := (mt_heap t)(a \<mapsto> p)\<rparr>)"
    unfolding same using n1 by (simp add: mdb_page_malloc_def upd_env_def)
  moreover have "a \<notin> set rest" using ok n1 by (simp add: heap_ok_def)
  ultimately show ?thesis using ok n1 p a unfolding same
    by (intro exI [of _ "Some a"] exI conjI) (auto simp: heap_ok_def in_use_def upd_env_def same
        intro!: exI [of _ p] exI [of _ "mt_brk t"] exI [of _ rest])
next
  case Nil
  let ?psz = "me_psize (mt_env t)" and ?a = "mt_brk t"
  let ?t1 = "t\<lparr>mt_brk := mt_brk t + 1\<rparr>"
  show ?thesis
  proof (cases "mt_oom t ?a")
    case True
    then have "mdb_page_malloc t num = Some (None, txn_fail ?t1)"
      using Nil by (auto simp: mdb_page_malloc_def c_alloc_def c_malloc_def Let_def)
    then show ?thesis by auto
  next
    case False
    define sz off n where "sz = (if num = 1 then ?psz else ?psz * num)" "off = (if num = 1 then PAGEHDRSZ else ?psz * num - ?psz)"
      "n = (if num = 1 then ?psz - PAGEHDRSZ else ?psz)"
    have sz: "sz = ?psz * num" "off + n = sz" "16 \<le> sz" "?psz \<le> sz"
      using ok num order_trans [of 16 ?psz "?psz * num"] by (auto simp: sz_off_n_def heap_ok_def PAGEHDRSZ_def)
    let ?blk = "map (\<lambda>i. of_nat (mt_junk t ?a i)) [0..<sz] :: byte list"
    define p where "p = (if me_flags (mt_env t) AND MDB_NOMEMINIT = 0 then splice (splice ?blk off (replicate n 0)) 8 (le_bytes 2 0) else ?blk)"
    have lp: "length p = sz" using sz by (simp add: p_def)
    have "mdb_page_malloc t num = Some (Some ?a, ?t1\<lparr>mt_heap := (mt_heap ?t1)(?a \<mapsto> p)\<rparr>)"
      using Nil False sz
      by (auto simp: mdb_page_malloc_def c_alloc_def c_malloc_def Let_def p_def put_bytes_def wr_def splice_def sz_off_n_def)
    moreover have "?t1\<lparr>mt_heap := (mt_heap ?t1)(?a \<mapsto> p)\<rparr> =
        (upd_env (\<lambda>e. e\<lparr>me_dpages := me_dpages (mt_env t)\<rparr>) t)\<lparr>mt_brk := mt_brk t + 1, mt_heap := (mt_heap t)(?a \<mapsto> p)\<rparr>"
      by (simp add: upd_env_def)
    moreover have "?a \<notin> set (me_dpages (mt_env t))" using ok by (fastforce simp: heap_ok_def)
    ultimately show ?thesis using ok lp sz(1)
      by (intro exI [of _ "Some ?a"] exI conjI) (auto simp: heap_ok_def in_use_def upd_env_def
          intro!: exI [of _ p] exI [of _ "Suc (mt_brk t)"] exI [of _ "me_dpages (mt_env t)"])
  qed
qed

end
