(* ===== verification/Free_List.thy ===== *)
theory Free_List
  imports Alloc_Lists
begin

text \<open>
  The pages that older transactions freed.  The free database holds, for each transaction, the list of the pages it
  freed; \<open>mdb_page_alloc\<close> merges its records, in order, into \<open>me_pghead\<close>, and \<open>me_pglast\<close> says how far it got.
  The pages that can be handed out are those in \<open>me_pghead\<close> and in the records not read yet (\<open>pool_list\<close>).
\<close>

section \<open>The state of the free list\<close>

definition rec_key :: "byte list \<Rightarrow> nat" where
  "rec_key r = le_nat (nd_key r)"

definition rec_ids :: "mdb_txn \<Rightarrow> byte list \<Rightarrow> mdb_id list" where
  "rec_ids t r = ids_of_bytes (the (record_data t r))"

definition free_ids :: "mdb_txn \<Rightarrow> mdb_id list" where
  "free_ids t = (case me_pghead (mt_env t) of None \<Rightarrow> [] | Some il \<Rightarrow> idl_list (cells il))"

definition unread_recs :: "mdb_txn \<Rightarrow> nat \<Rightarrow> byte list list" where
  "unread_recs t d = filter (\<lambda>r. me_pglast (mt_env t) < rec_key r) (db_entries t FREE_DBI d)"

definition pool_list :: "mdb_txn \<Rightarrow> nat \<Rightarrow> nat list" where
  "pool_list t d = map unat (free_ids t @ concat (map (\<lambda>r. idl_list (rec_ids t r)) (unread_recs t d)))"

text \<open>The records of the free database are ID lists under 8-byte transaction numbers.\<close>

definition records_ok :: "mdb_txn \<Rightarrow> nat \<Rightarrow> bool" where
  "records_ok t d \<longleftrightarrow> db_ok (\<lambda>k. length k = 8) t FREE_DBI d \<and> db_cmp t FREE_DBI = Cmp_long \<and>
     (\<forall>r \<in> set (db_entries t FREE_DBI d). 0 < rec_key r \<and> idl_wf (rec_ids t r) \<and> descending (idl_list (rec_ids t r)))"

definition pghead_ok :: "mdb_txn \<Rightarrow> bool" where
  "pghead_ok t \<longleftrightarrow> (me_pghead (mt_env t) = None \<longrightarrow> me_pglast (mt_env t) = 0) \<and>
     pred_option (\<lambda>il. idl_inv il \<and> unat (alloclen il) < 2 ^ 32 \<and> descending (idl_list (cells il))) (me_pghead (mt_env t))"

definition pool_ok :: "mdb_txn \<Rightarrow> nat \<Rightarrow> bool" where
  "pool_ok t d \<longleftrightarrow> distinct (pool_list t d) \<and> (\<forall>p \<in> set (pool_list t d). p < mt_next_pgno t) \<and> mt_next_pgno t < 2 ^ 30"

text \<open>Only records older than every reader have been read.\<close>

definition readers_ok :: "mdb_txn \<Rightarrow> bool" where
  "readers_ok t \<longleftrightarrow> me_pgoldest (mt_env t) \<le> mdb_find_oldest t \<and> mt_txnid t < 2 ^ 64 \<and>
     (me_pglast (mt_env t) \<noteq> 0 \<longrightarrow> me_pglast (mt_env t) < mdb_find_oldest t)"

definition free_ok :: "mdb_txn \<Rightarrow> nat \<Rightarrow> bool" where
  "free_ok t d \<longleftrightarrow> records_ok t d \<and> pghead_ok t \<and> pool_ok t d \<and> readers_ok t"

text \<open>What the search for pages may change.\<close>

definition keeps :: "mdb_txn \<Rightarrow> mdb_txn \<Rightarrow> bool" where
  "keeps t t' \<longleftrightarrow> (\<exists>h l ol n. mt_brk t \<le> n \<and>
     t' = t\<lparr>mt_env := (mt_env t)\<lparr>me_pghead := h, me_pglast := l, me_pgoldest := ol\<rparr>, mt_brk := n\<rparr>)"

lemma keepsI: "mt_brk t \<le> n \<Longrightarrow> keeps t (t\<lparr>mt_env := (mt_env t)\<lparr>me_pghead := h, me_pglast := l, me_pgoldest := ol\<rparr>, mt_brk := n\<rparr>)"
  unfolding keeps_def by (intro exI conjI) (assumption, rule refl)

lemma keeps_brk: "mt_brk t \<le> n \<Longrightarrow> keeps t (t\<lparr>mt_brk := n\<rparr>)"
  using keepsI [where t = t and n = n and h = "me_pghead (mt_env t)" and l = "me_pglast (mt_env t)" and ol = "me_pgoldest (mt_env t)"] by simp

lemma keeps_oldest: "keeps t (upd_env (\<lambda>e. e\<lparr>me_pgoldest := x\<rparr>) t)"
  using keepsI [where t = t and n = "mt_brk t" and h = "me_pghead (mt_env t)" and l = "me_pglast (mt_env t)" and ol = x] by (simp add: upd_env_def)

lemma keeps_refl [simp]: "keeps t t"
  using keeps_brk [of t "mt_brk t"] by simp

lemma keeps_trans:
  assumes "keeps t u" "keeps u v" shows "keeps t v"
proof -
  obtain n h l ol where u: "mt_brk t \<le> n" "u = t\<lparr>mt_env := (mt_env t)\<lparr>me_pghead := h, me_pglast := l, me_pgoldest := ol\<rparr>, mt_brk := n\<rparr>"
    using assms(1) by (auto simp: keeps_def)
  obtain n' h' l' ol' where "mt_brk u \<le> n'" "v = u\<lparr>mt_env := (mt_env u)\<lparr>me_pghead := h', me_pglast := l', me_pgoldest := ol'\<rparr>, mt_brk := n'\<rparr>"
    using assms(2) by (auto simp: keeps_def)
  then show ?thesis using u keepsI [where t = t and n = n' and h = h' and l = l' and ol = ol'] by simp
qed

lemma keeps_view: "keeps t t' \<Longrightarrow> same_view t t'"
  by (auto simp: keeps_def same_view_def)

lemma keeps_fields:
  assumes "keeps t t'"
  shows "mt_next_pgno t' = mt_next_pgno t" "mt_txnid t' = mt_txnid t" "mdb_find_oldest t' = mdb_find_oldest t"
    "me_maxpg (mt_env t') = me_maxpg (mt_env t)"
  using assms by (auto simp: keeps_def mdb_find_oldest_def split: option.split)

lemma keeps_records:
  assumes "keeps t t'"
  shows "records_ok t' d = records_ok t d" "rec_ids t' = rec_ids t" "db_entries t' FREE_DBI d = db_entries t FREE_DBI d"
proof -
  note v = view_db [OF keeps_view [OF assms]]
  have c: "db_cmp t' FREE_DBI = db_cmp t FREE_DBI" using keeps_view [OF assms] by (simp add: same_view_def)
  show r: "rec_ids t' = rec_ids t" by (intro ext) (simp add: rec_ids_def v)
  show "records_ok t' d = records_ok t d" by (simp add: records_ok_def v c r)
  show "db_entries t' FREE_DBI d = db_entries t FREE_DBI d" by (rule v)
qed

section \<open>Transaction numbers\<close>

lemma klt_long: "length a = 8 \<Longrightarrow> length b = 8 \<Longrightarrow> klt Cmp_long a b \<longleftrightarrow> le_nat a < le_nat b"
  by (simp add: klt_def mdb_cmp_long_eq)

lemma records_key: "records_ok t d \<Longrightarrow> r \<in> set (db_entries t FREE_DBI d) \<Longrightarrow> length (nd_key r) = 8"
  using db_sorted(1) unfolding records_ok_def by blast

lemma records_less:
  assumes "records_ok t d" "i < j" "j < length (db_entries t FREE_DBI d)"
  shows "rec_key (db_entries t FREE_DBI d ! i) < rec_key (db_entries t FREE_DBI d ! j)"
proof -
  have "db_ok (\<lambda>k. length k = 8) t FREE_DBI d" "db_cmp t FREE_DBI = Cmp_long" using assms(1) by (simp_all add: records_ok_def)
  then show ?thesis
    using db_keys_less [of _ t FREE_DBI d i j] records_key [OF assms(1)] assms(2,3) by (simp add: rec_key_def klt_long)
qed

text \<open>The records after the last one read are those from some position on.\<close>

definition next_rec :: "mdb_txn \<Rightarrow> nat \<Rightarrow> nat \<Rightarrow> bool" where
  "next_rec t d j \<longleftrightarrow> j \<le> length (db_entries t FREE_DBI d) \<and>
     (\<forall>i < j. rec_key (db_entries t FREE_DBI d ! i) \<le> me_pglast (mt_env t)) \<and>
     (\<forall>i < length (db_entries t FREE_DBI d). j \<le> i \<longrightarrow> me_pglast (mt_env t) < rec_key (db_entries t FREE_DBI d ! i))"

lemma unread_drop:
  assumes "next_rec t d j"
  shows "unread_recs t d = drop j (db_entries t FREE_DBI d)"
proof -
  let ?E = "db_entries t FREE_DBI d" and ?P = "\<lambda>r. me_pglast (mt_env t) < rec_key r"
  have "\<forall>r \<in> set (take j ?E). \<not> ?P r" using assms unfolding ball_take_nth next_rec_def by (simp add: not_less)
  then have "filter ?P (take j ?E) = []" by (simp add: filter_empty_conv)
  moreover have "filter ?P (drop j ?E) = drop j ?E" using assms by (auto simp: filter_id_conv next_rec_def ball_drop_nth)
  ultimately show ?thesis
    unfolding unread_recs_def using filter_append [of ?P "take j ?E" "drop j ?E"] by simp
qed

lemma next_rec_after:
  assumes "records_ok t d" "j < length (db_entries t FREE_DBI d)" "me_pglast (mt_env t) = rec_key (db_entries t FREE_DBI d ! j)"
  shows "next_rec t d (Suc j)"
  unfolding next_rec_def
proof (intro conjI allI impI)
  fix i assume "i < Suc j"
  then show "rec_key (db_entries t FREE_DBI d ! i) \<le> me_pglast (mt_env t)"
    using records_less [OF assms(1), of i j] assms(2,3) by (cases "i = j") auto
next
  fix i assume "i < length (db_entries t FREE_DBI d)" "Suc j \<le> i"
  then show "me_pglast (mt_env t) < rec_key (db_entries t FREE_DBI d ! i)"
    using records_less [OF assms(1), of j i] assms(3) by simp
qed (use assms(2) in simp)

section \<open>The pool\<close>

lemma pool_length: "pool_ok t d \<Longrightarrow> length (pool_list t d) < 2 ^ 30"
  using distinct_bounded [of "pool_list t d" "mt_next_pgno t"] by (simp add: pool_ok_def)

lemma pool_ok_mset:
  assumes "pool_ok t d" "mset (pool_list t' d) = mset (pool_list t d)" "mt_next_pgno t' = mt_next_pgno t"
  shows "pool_ok t' d"
proof -
  have "set (pool_list t' d) = set (pool_list t d)" using assms(2) by (rule mset_eq_setD)
  then show ?thesis using assms mset_eq_imp_distinct_iff [OF assms(2)] by (simp add: pool_ok_def)
qed

text \<open>Room in \<open>me_pghead\<close> for \<open>n\<close> more page numbers, or no memory.\<close>

lemma need_cases:
  assumes m: "idl_inv mop" "unat (alloclen mop) < 2 ^ 32" and size: "length (idl_list (cells mop)) + n < 2 ^ 30"
  shows "mdb_midl_need al mop n = Some (MIDL_ENOMEM, mop) \<or>
    (\<exists>il. mdb_midl_need al mop n = Some (MIDL_OK, il) \<and> idl_inv il \<and> idl_list (cells il) = idl_list (cells mop) \<and>
      unat (alloclen il) < 2 ^ 32 \<and> length (idl_list (cells mop)) + n \<le> unat (alloclen il))"
proof -
  have c0: "unat (cells mop ! 0) = length (idl_list (cells mop))" using length_idl_list [OF idl_inv_wf [OF m(1)]] by simp
  have c: "c_read (cells mop) 0 = Some (cells mop ! 0)" using m(1) by (auto simp: idl_inv_def c_read_def)
  have num: "u32 (n + unat (cells mop ! 0)) = n + length (idl_list (cells mop))" using size c0 by (simp add: u32_small)
  show ?thesis
  proof (cases al)
    case None
    then show ?thesis using m c num
      by (cases "n + length (idl_list (cells mop)) \<le> unat (alloclen mop)") (simp_all add: mdb_midl_need_def mem_simps)
  next
    case (Some junk)
    obtain il where il: "mdb_midl_need (Some junk) mop n = Some (MIDL_OK, il)" "roomy mop il n" "unat (alloclen il) < 2 ^ 32"
      using need_room [OF m(1) _ m(2), of n junk] size c0 by auto
    note c = roomy_cells(1,3) [OF m(1) il(2)]
    have "idl_inv il" "length (idl_list (cells mop)) + n \<le> unat (alloclen il)"
      using il(2) c(1) c0 by (auto simp: roomy_def idl_inv_def)
    then show ?thesis using Some il c(2) by auto
  qed
qed

lemma head_room_spec:
  assumes ok: "pghead_ok t" and size: "length (free_ids t) + n < 2 ^ 30"
  shows "head_room al t n = Some (ENOMEM, t) \<or>
    (\<exists>il. head_room al t n = Some (MDB_SUCCESS, upd_env (\<lambda>e. e\<lparr>me_pghead := Some il\<rparr>) t) \<and> idl_inv il \<and>
      idl_list (cells il) = free_ids t \<and> unat (alloclen il) < 2 ^ 32 \<and> length (free_ids t) + n \<le> unat (alloclen il))"
proof (cases "me_pghead (mt_env t)")
  case None
  then show ?thesis using mdb_midl_alloc_inv [of n] size
    by (cases al) (auto simp: head_room_def free_ids_def mdb_midl_alloc_def c_malloc_def)
next
  case (Some mop)
  then have m: "idl_inv mop" "unat (alloclen mop) < 2 ^ 32" "free_ids t = idl_list (cells mop)"
    using ok by (auto simp: pghead_ok_def free_ids_def)
  have same: "upd_env (\<lambda>e. e\<lparr>me_pghead := Some mop\<rparr>) t = t" using Some by (simp add: upd_env_def)
  show ?thesis using need_cases [OF m(1,2), of n al] size m(3) Some same
    by (auto simp: head_room_def midl_rc_rc_def)
qed

text \<open>Merging the first unread record moves its pages from the unread part to \<open>me_pghead\<close>.\<close>

lemma merge_record_spec:
  assumes ok: "records_ok t d" "pghead_ok t" "pool_ok t d" and j: "next_rec t d j" "j < length (db_entries t FREE_DBI d)"
  defines "r \<equiv> db_entries t FREE_DBI d ! j"
  shows "\<exists>rc t'. merge_record t (rec_key r) (rec_ids t r) = Some (rc, t') \<and> keeps t t' \<and>
    me_pgoldest (mt_env t') = me_pgoldest (mt_env t) \<and>
    (rc = ENOMEM \<and> me_pghead (mt_env t') = me_pghead (mt_env t) \<and> me_pglast (mt_env t') = me_pglast (mt_env t) \<or>
     rc = MDB_SUCCESS \<and> me_pglast (mt_env t') = rec_key r \<and> pghead_ok t' \<and> mset (pool_list t' d) = mset (pool_list t d))"
proof -
  let ?E = "db_entries t FREE_DBI d" and ?idl = "rec_ids t r" and ?t1 = "t\<lparr>mt_brk := mt_brk t + 1\<rparr>"
  let ?n = "length (idl_list ?idl)" and ?al = "if mt_oom t (mt_brk t) then None else Some (\<lambda>i. of_nat (mt_junk t (mt_brk t) i) :: mdb_id)"
  have wf: "idl_wf ?idl" "descending (idl_list ?idl)" using ok(1) j(2) by (auto simp: records_ok_def r_def)
  have un: "unread_recs t d = r # drop (Suc j) ?E" unfolding unread_drop [OF j(1)] r_def using j(2) by (simp add: Cons_nth_drop_Suc)
  have size: "length (free_ids t) + ?n < 2 ^ 30" using pool_length [OF ok(3)] by (simp add: pool_list_def un)
  have c: "c_read ?idl 0 = Some (?idl ! 0)" "u32 (unat (?idl ! 0)) = ?n"
    using length_idl_list [OF wf(1)] idl_wf_nonempty [OF wf(1)] size by (auto simp: mem_simps u32_small)
  have ok1: "pghead_ok ?t1" "free_ids ?t1 = free_ids t" using ok(2) by (simp_all add: pghead_ok_def free_ids_def)
  have m: "merge_record t (rec_key r) ?idl = do {
      (rc, t2) \<leftarrow> head_room ?al ?t1 ?n;
      if rc \<noteq> MDB_SUCCESS then Some (rc, t2)
      else do {
        mop \<leftarrow> me_pghead (mt_env t2);
        cs \<leftarrow> mdb_midl_xmerge (cells mop) ?idl;
        Some (MDB_SUCCESS, upd_env (\<lambda>e. e\<lparr>me_pglast := rec_key r, me_pghead := Some (mop\<lparr>cells := cs\<rparr>)\<rparr>) t2) } }"
    using c by (simp add: merge_record_def c_alloc_def Let_def)
  from head_room_spec [OF ok1(1), of ?n ?al] size ok1(2) consider
    (no) "head_room ?al ?t1 ?n = Some (ENOMEM, ?t1)"
  | (yes) il where "head_room ?al ?t1 ?n = Some (MDB_SUCCESS, upd_env (\<lambda>e. e\<lparr>me_pghead := Some il\<rparr>) ?t1)" "idl_inv il"
      "idl_list (cells il) = free_ids t" "unat (alloclen il) < 2 ^ 32" "length (free_ids t) + ?n \<le> unat (alloclen il)"
    by auto
  then show ?thesis
  proof cases
    case no
    have "keeps t ?t1" by (rule keeps_brk) simp
    then show ?thesis unfolding m no by auto
  next
    case yes
    have d: "descending (free_ids t)" using ok(2) by (auto simp: pghead_ok_def free_ids_def split: option.splits)
    have fit: "length (idl_list (cells il)) + ?n < length (cells il)" "length (idl_list (cells il)) + ?n < 2 ^ 64"
      using yes size by (auto simp: idl_inv_def)
    obtain cs where cs: "mdb_midl_xmerge (cells il) ?idl = Some cs" "idl_wf cs" "length cs = length (cells il)"
      "descending (idl_list cs)" "mset (idl_list cs) = mset (free_ids t) + mset (idl_list ?idl)"
      using xmerge_merges [OF idl_inv_wf [OF yes(2)] wf(1) _ wf(2) fit] d unfolding yes(3) by auto
    have "unat (cs ! 0) = length (free_ids t) + ?n"
      using length_idl_list [OF cs(2)] arg_cong [OF cs(5), of size] by simp
    then have inv: "idl_inv (il\<lparr>cells := cs\<rparr>)" using yes(2,5) cs(3) by (simp add: idl_inv_def)
    let ?t' = "t\<lparr>mt_env := (mt_env t)\<lparr>me_pghead := Some (il\<lparr>cells := cs\<rparr>), me_pglast := rec_key r,
      me_pgoldest := me_pgoldest (mt_env t)\<rparr>, mt_brk := mt_brk t + 1\<rparr>"
    have res: "merge_record t (rec_key r) ?idl = Some (MDB_SUCCESS, ?t')"
      unfolding m yes(1) using cs(1) by (simp add: upd_env_def)
    have k: "keeps t ?t'" by (rule keepsI) simp
    have nx: "next_rec ?t' d (Suc j)"
      by (rule next_rec_after; unfold keeps_records [OF k]) (use j(2) ok(1) in \<open>simp_all add: r_def\<close>)
    have "pool_list ?t' d = map unat (idl_list cs @ concat (map (\<lambda>r. idl_list (rec_ids t r)) (drop (Suc j) ?E)))"
      unfolding pool_list_def unread_drop [OF nx] keeps_records [OF k] by (simp add: free_ids_def)
    then have "mset (pool_list ?t' d) = mset (pool_list t d)" using cs(5) by (simp add: pool_list_def un)
    moreover have "pghead_ok ?t'" using inv yes(4) cs(4) by (simp add: pghead_ok_def)
    ultimately show ?thesis using res k by auto
  qed
qed

section \<open>Fetching a record\<close>

lemma free_ok_oldest:
  assumes "free_ok t d" "me_pghead (mt_env t') = me_pghead (mt_env t)" "me_pglast (mt_env t') = me_pglast (mt_env t)"
    "keeps t t'" "me_pgoldest (mt_env t') \<le> mdb_find_oldest t"
  shows "free_ok t' d" "pool_list t' d = pool_list t d" "next_rec t' d j = next_rec t d j"
proof -
  note r = keeps_records [OF assms(4)] keeps_fields [OF assms(4)]
  show p: "pool_list t' d = pool_list t d" by (simp add: pool_list_def free_ids_def unread_recs_def r assms(2,3))
  show "free_ok t' d" using assms p by (simp add: free_ok_def pghead_ok_def pool_ok_def readers_ok_def r)
  show "next_rec t' d j = next_rec t d j" by (simp add: next_rec_def r assms(3))
qed

lemma too_recent_spec:
  assumes "free_ok t d" "av_oldest v \<le> mdb_find_oldest t"
  obtains stop t' v' where "too_recent t v = (stop, t', v')" "keeps t t'" "free_ok t' d" "pool_list t' d = pool_list t d"
    "\<forall>j. next_rec t' d j = next_rec t d j" "me_pglast (mt_env t') = me_pglast (mt_env t)"
    "av_oldest v' \<le> mdb_find_oldest t" "av_last v' = av_last v" "av_m2 v' = av_m2 v" "av_key v' = av_key v" "\<not> stop \<longrightarrow> av_last v < av_oldest v'"
proof -
  let ?o = "mdb_find_oldest t"
  let ?t = "upd_env (\<lambda>e. e\<lparr>me_pgoldest := ?o\<rparr>) t"
  have same: "me_pghead (mt_env ?t) = me_pghead (mt_env t)" "me_pglast (mt_env ?t) = me_pglast (mt_env t)" "me_pgoldest (mt_env ?t) \<le> ?o"
    by (simp_all add: upd_env_def)
  note f = free_ok_oldest [OF assms(1) same(1,2) keeps_oldest same(3)]
  show thesis
  proof (cases "av_oldest v \<le> av_last v \<and> \<not> av_found_old v")
    case True
    then have "too_recent t v = (?o \<le> av_last v, ?t, v\<lparr>av_oldest := ?o, av_found_old := True\<rparr>)" by (simp add: too_recent_def Let_def)
    from that [OF this keeps_oldest f(1,2) _ same(2)] show ?thesis using f(3) by simp
  next
    case False
    then have "too_recent t v = (av_oldest v \<le> av_last v, t, v)" by (auto simp: too_recent_def)
    from that [OF this] show ?thesis using assms by auto
  qed
qed

text \<open>Where the loop stands: before its first fetch, or on the record it merged last.\<close>

definition loop_at :: "mdb_txn \<Rightarrow> nat \<Rightarrow> mdb_cursor_op \<Rightarrow> alloc_vars \<Rightarrow> bool" where
  "loop_at t d op v \<longleftrightarrow> op = MDB_FIRST \<or>
     op = MDB_NEXT \<and> av_oldest v \<le> mdb_find_oldest t \<and> av_last v = me_pglast (mt_env t) \<and>
     (\<exists>j < length (db_entries t FREE_DBI d). cursor_at t FREE_DBI d (av_m2 v) j \<and> mc_flags (av_m2 v) AND C_DEL = 0 \<and>
        av_last v = rec_key (db_entries t FREE_DBI d ! j))"

text \<open>What the cursor finds from there: the first unread record.\<close>

definition finds :: "mdb_txn \<Rightarrow> nat \<Rightarrow> nat \<Rightarrow> (rc \<times> kv \<times> mdb_txn \<times> mdb_cursor) option \<Rightarrow> bool" where
  "finds t d j res \<longleftrightarrow> (if j < length (db_entries t FREE_DBI d) then on_record t FREE_DBI d True False j res
     else \<exists>mc. res = Some (MDB_NOTFOUND, (None, None), t, mc))"

lemma no_record_finds: "no_record t dbi d res \<or> no_record_before t dbi d j res \<Longrightarrow> \<exists>mc. res = Some (MDB_NOTFOUND, (None, None), t, mc)"
  by (auto simp: no_record_def no_record_before_def)

lemma blank_ok: "cursor_ok t dbi d (cursor_blank dbi)"
  using blank_ready [of t dbi] by (simp add: cursor_ok_def) (simp add: cursor_blank_def)

lemma finds_first:
  assumes "records_ok t d" "me_pglast (mt_env t) = 0"
  shows "next_rec t d 0" "finds t d 0 (mdb_cursor_get t (cursor_blank FREE_DBI) (Some k) None MDB_FIRST)"
proof -
  show "next_rec t d 0" using assms by (auto simp: next_rec_def records_ok_def)
  have ok: "db_ok (\<lambda>k. length k = 8) t FREE_DBI d" using assms(1) by (simp add: records_ok_def)
  show "finds t d 0 (mdb_cursor_get t (cursor_blank FREE_DBI) (Some k) None MDB_FIRST)"
    using get_first [OF ok blank_ok, of "Some k" None] no_record_finds [of t FREE_DBI d] by (auto simp: finds_def)
qed

lemma finds_next:
  assumes r: "records_ok t d" and j: "j < length (db_entries t FREE_DBI d)" "me_pglast (mt_env t) = rec_key (db_entries t FREE_DBI d ! j)"
    and at: "cursor_at t FREE_DBI d m2 j" "mc_flags m2 AND C_DEL = 0"
  shows "next_rec t d (Suc j)" "finds t d (Suc j) (mdb_cursor_get t m2 (Some k) None MDB_NEXT)"
proof -
  show "next_rec t d (Suc j)" by (rule next_rec_after [OF r j])
  have ok: "db_ok (\<lambda>k. length k = 8) t FREE_DBI d" using r by (simp add: records_ok_def)
  show "finds t d (Suc j) (mdb_cursor_get t m2 (Some k) None MDB_NEXT)"
    using get_next [OF ok at, of "Some k" None] no_record_finds [of t FREE_DBI d] by (auto simp: finds_def split: if_splits)
qed

lemma finds_range:
  assumes r: "records_ok t d" and p: "me_pglast (mt_env t) + 1 < 2 ^ 64"
  shows "\<exists>j. next_rec t d j \<and>
    finds t d j (mdb_cursor_get t (cursor_blank FREE_DBI) (Some (le_bytes 8 (me_pglast (mt_env t) + 1))) None MDB_SET_RANGE)"
proof -
  let ?E = "db_entries t FREE_DBI d" and ?k = "le_bytes 8 (me_pglast (mt_env t) + 1)"
  have ok: "db_ok (\<lambda>k. length k = 8) t FREE_DBI d" and c: "db_cmp t FREE_DBI = Cmp_long" using r by (simp_all add: records_ok_def)
  have k: "length ?k = 8" "?k \<noteq> []" by (simp_all flip: length_greater_0_conv)
  have v: "le_nat ?k = me_pglast (mt_env t) + 1" using p by simp
  obtain j where j: "lower_bound Cmp_long ?k ?E j"
    "if j < length ?E then on_record t FREE_DBI d True False j (mdb_cursor_get t (cursor_blank FREE_DBI) (Some ?k) None MDB_SET_RANGE)
     else no_record_before t FREE_DBI d j (mdb_cursor_get t (cursor_blank FREE_DBI) (Some ?k) None MDB_SET_RANGE)"
    using get_set [OF ok blank_ok k, of MDB_SET_RANGE None] unfolding c by (auto cong: if_cong)
  have lt: "klt Cmp_long (nd_key (?E ! i)) ?k \<longleftrightarrow> rec_key (?E ! i) \<le> me_pglast (mt_env t)" if "i < length ?E" for i
    using klt_long [of "nd_key (?E ! i)" ?k] records_key [OF r, of "?E ! i"] that v k(1) by (auto simp: rec_key_def)
  have "next_rec t d j" using j(1) lt unfolding lower_bound_def next_rec_def by (auto simp: not_le)
  moreover have "finds t d j (mdb_cursor_get t (cursor_blank FREE_DBI) (Some ?k) None MDB_SET_RANGE)"
    using j(2) no_record_finds [of t FREE_DBI d] by (auto simp: finds_def split: if_splits)
  ultimately show ?thesis by blast
qed

lemma find_oldest_le: "mdb_find_oldest t \<le> mt_txnid t - 1"
proof -
  have "foldr (\<lambda>r old. if mr_pid r \<noteq> 0 \<and> old > mr_txnid r then mr_txnid r else old) rs n \<le> n" for rs n
    by (induction rs) auto
  then show ?thesis unfolding mdb_find_oldest_def by (cases "me_txns (mt_env t)") simp_all
qed

lemma next_last:
  assumes "free_ok t d"
  shows "(me_pglast (mt_env t) + 1) mod 2 ^ 64 = me_pglast (mt_env t) + 1" "me_pglast (mt_env t) + 1 < 2 ^ 64"
proof -
  show "me_pglast (mt_env t) + 1 < 2 ^ 64"
    using assms find_oldest_le [of t] by (cases "me_pglast (mt_env t) = 0") (auto simp: free_ok_def readers_ok_def)
  then show "(me_pglast (mt_env t) + 1) mod 2 ^ 64 = me_pglast (mt_env t) + 1" by (rule mod_less)
qed

text \<open>The progress of one fetch.\<close>

definition fetched :: "mdb_txn \<Rightarrow> nat \<Rightarrow> alloc_end option \<Rightarrow> mdb_txn \<Rightarrow> alloc_vars \<Rightarrow> bool" where
  "fetched t d e t' v' \<longleftrightarrow> keeps t t' \<and> free_ok t' d \<and> mset (pool_list t' d) = mset (pool_list t d) \<and>
     (case e of None \<Rightarrow> loop_at t' d MDB_NEXT v' \<and> length (unread_recs t' d) < length (unread_recs t d)
      | Some New_pages \<Rightarrow> True | Some (Fail rc) \<Rightarrow> rc = ENOMEM | Some _ \<Rightarrow> False)"

lemma use_record_spec:
  assumes ok: "free_ok t d" and j: "next_rec t d j" "j < length (db_entries t FREE_DBI d)"
    and old: "av_oldest v \<le> mdb_find_oldest t" and last: "av_last v = rec_key (db_entries t FREE_DBI d ! j)"
    and at: "cursor_at t FREE_DBI d (av_m2 v) j" "mc_flags (av_m2 v) AND C_DEL = 0"
  shows "\<exists>e t' v'. use_record t v = Some (e, t', v') \<and> fetched t d e t' v'"
proof -
  let ?E = "db_entries t FREE_DBI d"
  obtain stop t2 v2 where tr: "too_recent t v = (stop, t2, v2)" and k: "keeps t t2" and ok2: "free_ok t2 d" and pl: "pool_list t2 d = pool_list t d"
    and nx: "\<forall>j. next_rec t2 d j = next_rec t d j" and lst2: "me_pglast (mt_env t2) = me_pglast (mt_env t)"
    and v2: "av_oldest v2 \<le> mdb_find_oldest t" "av_last v2 = av_last v" "av_m2 v2 = av_m2 v" "av_key v2 = av_key v"
      "\<not> stop \<longrightarrow> av_last v < av_oldest v2"
    by (rule too_recent_spec [OF ok old])
  show ?thesis
  proof (cases stop)
    case True
    then show ?thesis using tr k ok2 pl by (auto simp: use_record_def fetched_def)
  next
    case False
    note E = keeps_records(3) [OF k, of d]
    have r2: "records_ok t2 d" "pghead_ok t2" "pool_ok t2 d" "readers_ok t2" using ok2 by (simp_all add: free_ok_def)
    have db2: "db_ok (\<lambda>k. length k = 8) t2 FREE_DBI d" using r2(1) by (simp add: records_ok_def)
    have at2: "cursor_at t2 FREE_DBI d (av_m2 v) j" using at(1) view_cursor(1) [OF keeps_view [OF k]] by simp
    obtain a i p where l: "at_leaf t2 FREE_DBI d (av_m2 v) a i p" "i < pg_n p" "j = a + i" using at2 by (auto simp: cursor_at_def)
    obtain b where b: "mdb_node_read t2 p (pg_ptr p i) = Some (Inr b, t2)" "record_data t2 (?E ! j) = Some b"
      using node_here(6) [OF db2 l(1,2)] l(3) E by auto
    have ids: "ids_of_bytes b = rec_ids t2 (?E ! j)" using b(2) by (simp add: rec_ids_def)
    have use: "use_record t v = do { (rc, t) \<leftarrow> merge_record t2 (rec_key (?E ! j)) (rec_ids t2 (?E ! j));
        Some (if rc \<noteq> MDB_SUCCESS then Some (Fail rc) else None, t, v2) }"
      using tr False v2(2,3) last at_leaf_page(4,5) [OF db2 l(1)] node_here(3) [OF db2 l(1,2)] b(1) ids
      by (simp add: use_record_def)
    obtain rc t' where m: "merge_record t2 (rec_key (?E ! j)) (rec_ids t2 (?E ! j)) = Some (rc, t')" "keeps t2 t'"
      "me_pgoldest (mt_env t') = me_pgoldest (mt_env t2)"
      "rc = ENOMEM \<and> me_pghead (mt_env t') = me_pghead (mt_env t2) \<and> me_pglast (mt_env t') = me_pglast (mt_env t2) \<or>
       rc = MDB_SUCCESS \<and> me_pglast (mt_env t') = rec_key (?E ! j) \<and> pghead_ok t' \<and> mset (pool_list t' d) = mset (pool_list t2 d)"
      using merge_record_spec [OF r2(1-3), of j] j nx E by auto
    note f = keeps_fields [OF m(2)] keeps_fields [OF k]
    have kk: "keeps t t'" by (rule keeps_trans [OF k m(2)])
    from m(4) show ?thesis
    proof (elim disjE conjE)
      assume e: "rc = ENOMEM" and same: "me_pghead (mt_env t') = me_pghead (mt_env t2)" "me_pglast (mt_env t') = me_pglast (mt_env t2)"
      have "me_pgoldest (mt_env t') \<le> mdb_find_oldest t2" using r2(4) m(3) by (simp add: readers_ok_def)
      from free_ok_oldest [OF ok2 same m(2) this] show ?thesis using use m(1) e kk pl by (auto simp: fetched_def)
    next
      assume e: "rc = MDB_SUCCESS" "me_pglast (mt_env t') = rec_key (?E ! j)" "pghead_ok t'" "mset (pool_list t' d) = mset (pool_list t2 d)"
      have "rec_key (?E ! j) < mdb_find_oldest t" using v2(1,5) False last by simp
      then have "readers_ok t'" using r2(4) m(3) e(2) f by (simp add: readers_ok_def)
      then have ok': "free_ok t' d"
        using keeps_records(1) [OF m(2)] r2(1) e(3) pool_ok_mset [OF r2(3) e(4) f(1)] by (simp add: free_ok_def)
      have E': "db_entries t' FREE_DBI d = ?E" using keeps_records(3) [OF kk] .
      have at': "cursor_at t' FREE_DBI d (av_m2 v2) j" using at(1) v2(3) view_cursor(1) [OF keeps_view [OF kk]] by simp
      have "loop_at t' d MDB_NEXT v2"
        using at' at(2) v2 e(2) last j(2) f by (auto simp: loop_at_def E')
      moreover have "next_rec t' d (Suc j)"
        by (rule next_rec_after) (use e(2) j(2) ok' in \<open>simp_all add: E' free_ok_def\<close>)
      then have "length (unread_recs t' d) < length (unread_recs t d)"
        using unread_drop [of t' d "Suc j"] unread_drop [OF j(1)] j(2) E' by simp
      ultimately show ?thesis using use m(1) e kk ok' pl by (auto simp: fetched_def)
    qed
  qed
qed

text \<open>The start of a fetch: wherever the loop stands, the cursor will find the first unread record.\<close>

lemma fetch_start_spec:
  assumes ok: "free_ok t d" and at: "loop_at t d op v"
  shows "\<exists>op1 v1. fetch_start t op v = Some (t, op1, v1) \<and> av_oldest v1 \<le> mdb_find_oldest t \<and> av_last v1 = me_pglast (mt_env t) \<and>
    (\<forall>t2 k. keeps t t2 \<and> free_ok t2 d \<and> me_pglast (mt_env t2) = me_pglast (mt_env t) \<and>
       (op1 = MDB_SET_RANGE \<longrightarrow> k = le_bytes 8 (me_pglast (mt_env t) + 1)) \<longrightarrow>
       (\<exists>j. next_rec t2 d j \<and> finds t2 d j (mdb_cursor_get t2 (av_m2 v1) (Some k) None op1)))"
proof (cases "op = MDB_FIRST")
  case True
  have db: "db_ok (\<lambda>k. length k = 8) t FREE_DBI d" and old: "me_pgoldest (mt_env t) \<le> mdb_find_oldest t"
    using ok by (simp_all add: free_ok_def records_ok_def readers_ok_def)
  have init: "mdb_cursor_init t FREE_DBI = Some (t, cursor_blank FREE_DBI)"
    using db by (auto simp: mdb_cursor_init_def db_ok_def mem_simps)
  let ?v = "v\<lparr>av_last := me_pglast (mt_env t), av_oldest := me_pgoldest (mt_env t), av_m2 := cursor_blank FREE_DBI\<rparr>"
  have st: "fetch_start t op v = Some (t, if me_pglast (mt_env t) \<noteq> 0 then MDB_SET_RANGE else MDB_FIRST, ?v)"
    using True init by (simp add: fetch_start_def Let_def)
  have "\<exists>j. next_rec t2 d j \<and> finds t2 d j (mdb_cursor_get t2 (cursor_blank FREE_DBI) (Some k) None (if me_pglast (mt_env t) \<noteq> 0 then MDB_SET_RANGE else MDB_FIRST))"
    if "keeps t t2" "free_ok t2 d" "me_pglast (mt_env t2) = me_pglast (mt_env t)"
      "(if me_pglast (mt_env t) \<noteq> 0 then MDB_SET_RANGE else MDB_FIRST) = MDB_SET_RANGE \<longrightarrow> k = le_bytes 8 (me_pglast (mt_env t) + 1)" for t2 k
  proof (cases "me_pglast (mt_env t) = 0")
    case True
    then show ?thesis using finds_first(1) [of t2 d] finds_first(2) [of t2 d k] that by (auto simp: free_ok_def)
  next
    case False
    then show ?thesis using finds_range [of t2 d] next_last(2) [OF that(2)] that by (auto simp: free_ok_def)
  qed
  then show ?thesis using st old by auto
next
  case False
  then obtain j where j: "op = MDB_NEXT" "av_oldest v \<le> mdb_find_oldest t" "av_last v = me_pglast (mt_env t)"
    "j < length (db_entries t FREE_DBI d)" "cursor_at t FREE_DBI d (av_m2 v) j" "mc_flags (av_m2 v) AND C_DEL = 0"
    "av_last v = rec_key (db_entries t FREE_DBI d ! j)"
    using at by (auto simp: loop_at_def)
  have "next_rec t2 d (Suc j) \<and> finds t2 d (Suc j) (mdb_cursor_get t2 (av_m2 v) (Some k) None MDB_NEXT)"
    if "keeps t t2" "free_ok t2 d" "me_pglast (mt_env t2) = me_pglast (mt_env t)" for t2 k
  proof -
    have E: "db_entries t2 FREE_DBI d = db_entries t FREE_DBI d" by (rule keeps_records(3) [OF that(1)])
    have "cursor_at t2 FREE_DBI d (av_m2 v) j" using j(5) view_cursor(1) [OF keeps_view [OF that(1)]] by simp
    then show ?thesis
      using finds_next(1) [of t2 d j "av_m2 v"] finds_next(2) [of t2 d j "av_m2 v" k] that(2,3) j E by (simp add: free_ok_def)
  qed
  moreover have "fetch_start t op v = Some (t, MDB_NEXT, v)" using j(1) by (simp add: fetch_start_def)
  ultimately show ?thesis using j(2,3) by auto
qed

lemma fetched_trans:
  assumes "keeps t t2" "pool_list t2 d = pool_list t d" "unread_recs t2 d = unread_recs t d" "fetched t2 d e t' v'"
  shows "fetched t d e t' v'"
  using assms(2-) keeps_trans [OF assms(1)] by (auto simp: fetched_def split: option.splits alloc_end.splits)

lemma fetch_record_spec:
  assumes ok: "free_ok t d" and at: "loop_at t d op v"
  shows "\<exists>e t' v'. fetch_record t op v = Some (e, t', v') \<and> fetched t d e t' v'"
proof -
  obtain op1 v1 where st: "fetch_start t op v = Some (t, op1, v1)" "av_oldest v1 \<le> mdb_find_oldest t" "av_last v1 = me_pglast (mt_env t)"
    and found: "\<And>t2 k. keeps t t2 \<Longrightarrow> free_ok t2 d \<Longrightarrow> me_pglast (mt_env t2) = me_pglast (mt_env t) \<Longrightarrow>
       (op1 = MDB_SET_RANGE \<longrightarrow> k = le_bytes 8 (me_pglast (mt_env t) + 1)) \<Longrightarrow>
       \<exists>j. next_rec t2 d j \<and> finds t2 d j (mdb_cursor_get t2 (av_m2 v1) (Some k) None op1)"
    using fetch_start_spec [OF ok at] by blast
  define w where "w = bump_last op1 v1"
  have w: "av_oldest w \<le> mdb_find_oldest t" "av_m2 w = av_m2 v1" "op1 = MDB_SET_RANGE \<longrightarrow> av_key w = le_bytes 8 (me_pglast (mt_env t) + 1)"
    using st(2,3) next_last(1) [OF ok] by (simp_all add: w_def bump_last_def Let_def)
  obtain stop t2 v2 where tr: "too_recent t w = (stop, t2, v2)" and k: "keeps t t2" and ok2: "free_ok t2 d" and pl: "pool_list t2 d = pool_list t d"
    and nx: "\<forall>j. next_rec t2 d j = next_rec t d j" and lst2: "me_pglast (mt_env t2) = me_pglast (mt_env t)"
    and v2: "av_oldest v2 \<le> mdb_find_oldest t" "av_last v2 = av_last w" "av_m2 v2 = av_m2 w" "av_key v2 = av_key w"
      "\<not> stop \<longrightarrow> av_last w < av_oldest v2"
    by (rule too_recent_spec [OF ok w(1)])
  have un: "unread_recs t2 d = unread_recs t d" by (simp add: unread_recs_def keeps_records [OF k] lst2)
  have stepped: "fetch_record t op v = (if stop then Some (Some New_pages, t2, v2) else do {
       (rc, out, t, m2) \<leftarrow> mdb_cursor_get t2 (av_m2 v2) (Some (av_key v2)) None op1;
       if rc = MDB_NOTFOUND then Some (Some New_pages, t, v2\<lparr>av_m2 := m2\<rparr>)
       else if rc \<noteq> MDB_SUCCESS then Some (Some (Fail rc), t, v2\<lparr>av_m2 := m2\<rparr>)
       else do { k \<leftarrow> fst out; lst \<leftarrow> rd64 k 0; use_record t (v2\<lparr>av_m2 := m2, av_last := lst, av_key := k\<rparr>) } })"
    using st(1) tr by (simp add: fetch_record_def w_def Let_def)
  obtain j where j: "next_rec t2 d j" "finds t2 d j (mdb_cursor_get t2 (av_m2 v2) (Some (av_key v2)) None op1)"
    using found [OF k ok2 lst2, of "av_key v2"] w v2 by auto
  show ?thesis
  proof (cases "stop \<or> length (db_entries t2 FREE_DBI d) \<le> j")
    case True
    then show ?thesis using stepped k ok2 pl j(2) by (auto simp: finds_def fetched_def)
  next
    case False
    let ?r = "db_entries t2 FREE_DBI d ! j"
    obtain mc where mc: "mdb_cursor_get t2 (av_m2 v2) (Some (av_key v2)) None op1 = Some (MDB_SUCCESS, (Some (nd_key ?r), None), t2, mc)"
      "cursor_at t2 FREE_DBI d mc j" "mc_flags mc AND C_DEL = 0"
      using j(2) False by (auto simp: finds_def on_record_def kv_out_def)
    have "length (nd_key ?r) = 8" using records_key [of t2 d ?r] ok2 False by (simp add: free_ok_def)
    then have key: "rd64 (nd_key ?r) 0 = Some (rec_key ?r)" by (simp add: rd_def rec_key_def slice_def)
    let ?v = "v2\<lparr>av_m2 := mc, av_last := rec_key ?r, av_key := nd_key ?r\<rparr>"
    obtain e t' v' where u: "use_record t2 ?v = Some (e, t', v')" "fetched t2 d e t' v'"
      using use_record_spec [OF ok2 j(1), of ?v] False v2(1) keeps_fields(3) [OF k] mc(2,3) by auto
    have "fetch_record t op v = Some (e, t', v')" using stepped False mc(1) key u(1) by simp
    then show ?thesis using fetched_trans [OF k pl un u(2)] by blast
  qed
qed

end
