(* ===== verification/Alloc_Spec.thy ===== *)
theory Alloc_Spec
  imports Free_List
begin

text \<open>
  \<open>mdb_page_alloc\<close>: it ends, hands out only pages that no transaction can see, records them in the dirty list and leaves
  every other page readable as before.
\<close>

section \<open>The loop\<close>

lemma free_ids_small: "pool_ok t d \<Longrightarrow> length (free_ids t) < 2 ^ 30"
  using pool_length [of t d] by (simp add: pool_list_def)

lemma pghead_len_eq:
  assumes "free_ok t d"
  shows "pghead_len t = Some (length (free_ids t))"
proof (cases "me_pghead (mt_env t)")
  case None
  then show ?thesis by (simp add: pghead_len_def free_ids_def)
next
  case (Some il)
  then have inv: "idl_inv il" using assms by (simp add: free_ok_def pghead_ok_def)
  have "unat (cells il ! 0) = length (free_ids t)" using length_idl_list [OF idl_inv_wf [OF inv]] Some by (simp add: free_ids_def)
  moreover have "cells il \<noteq> []" using idl_wf_nonempty [OF idl_inv_wf [OF inv]] .
  ultimately show ?thesis
    using Some free_ids_small [of t d] assms by (simp add: pghead_len_def mem_simps free_ok_def u32_small)
qed

text \<open>A run of \<open>n2 + 1\<close> pages that ends at position \<open>i\<close> of the list.\<close>

definition run_at :: "mdb_txn \<Rightarrow> nat \<Rightarrow> nat \<Rightarrow> nat \<Rightarrow> bool" where
  "run_at t n2 i p \<longleftrightarrow> n2 < i \<and> i \<le> length (free_ids t) \<and> unat (free_ids t ! (i - 1)) = p \<and>
     free_ids t ! (i - Suc n2) = of_nat p + of_nat n2"

definition searched :: "mdb_txn \<Rightarrow> nat \<Rightarrow> nat \<Rightarrow> alloc_end \<Rightarrow> mdb_txn \<Rightarrow> bool" where
  "searched t d n2 e t' \<longleftrightarrow> keeps t t' \<and> free_ok t' d \<and> mset (pool_list t' d) = mset (pool_list t d) \<and>
     (case e of At i p \<Rightarrow> run_at t' n2 i p | New_pages \<Rightarrow> True | Fail rc \<Rightarrow> rc = ENOMEM | Return rc \<Rightarrow> False)"

lemma seek_spec:
  assumes ok: "free_ok t d" and n: "n2 < length (free_ids t)"
  shows "\<exists>r. do { mop \<leftarrow> pghead_cells t; seek_range mop n2 (length (free_ids t)) } = Some r \<and>
    (case r of None \<Rightarrow> True | Some (i, pgno) \<Rightarrow> run_at t n2 i (unat pgno))"
proof -
  obtain il where il: "me_pghead (mt_env t) = Some il" using n by (auto simp: free_ids_def split: option.splits)
  then have wf: "idl_wf (cells il)" "free_ids t = idl_list (cells il)"
    using ok idl_inv_wf by (auto simp: free_ok_def pghead_ok_def free_ids_def)
  obtain r where "seek_range (cells il) n2 (length (free_ids t)) = Some r" "case r of None \<Rightarrow> True | Some (k, pgno) \<Rightarrow>
      n2 < k \<and> k \<le> length (free_ids t) \<and> free_ids t ! (k - 1) = pgno \<and> free_ids t ! (k - Suc n2) = pgno + of_nat n2"
    using seek_range_spec [OF wf(1) n [unfolded wf(2)]] unfolding wf(2) by auto
  then show ?thesis using il by (auto simp: pghead_cells_def run_at_def split: option.splits)
qed

lemma page_alloc_loop_spec:
  assumes "free_ok t d" "loop_at t d op v"
  shows "\<exists>e t'. page_alloc_loop t n2 op v = Some (e, t') \<and> searched t d n2 e t'"
  using assms
proof (induction "length (unread_recs t d)" arbitrary: t op v rule: less_induct)
  case less
  obtain hit where hit: "(if length (free_ids t) > n2 then do { mop \<leftarrow> pghead_cells t; seek_range mop n2 (length (free_ids t)) } else Some None) = Some hit"
    "case hit of None \<Rightarrow> True | Some (i, pgno) \<Rightarrow> run_at t n2 i (unat pgno)"
    using seek_spec [OF less.prems(1)] by (cases "n2 < length (free_ids t)") auto
  define w where "w = (if length (free_ids t) > n2 then v\<lparr>av_retry := av_retry v - 1\<rparr> else v)"
  have at: "loop_at t d op w" using less.prems(2) by (simp add: w_def loop_at_def)
  have u: "page_alloc_loop t n2 op v = (case hit of
        Some (i, pgno) \<Rightarrow> Some (At i (unat pgno), t)
      | None \<Rightarrow> if length (free_ids t) > n2 \<and> av_retry w < 0 then Some (New_pages, t)
          else do { (e, t, v) \<leftarrow> fetch_record t op w; (case e of Some e \<Rightarrow> Some (e, t) | None \<Rightarrow> page_alloc_loop t n2 MDB_NEXT v) })"
    using hit(1) by (subst page_alloc_loop.simps) (simp add: pghead_len_eq [OF less.prems(1)] w_def Let_def cong: if_cong option.case_cong)
  show ?case
  proof (cases "hit \<noteq> None \<or> (length (free_ids t) > n2 \<and> av_retry w < 0)")
    case True
    then show ?thesis using u hit(2) less.prems(1) by (cases hit) (auto simp: searched_def)
  next
    case False
    obtain e t1 v1 where f: "fetch_record t op w = Some (e, t1, v1)" "fetched t d e t1 v1"
      using fetch_record_spec [OF less.prems(1) at] by blast
    show ?thesis
    proof (cases e)
      case (Some e')
      then have "page_alloc_loop t n2 op v = Some (e', t1)" using u f(1) False by (cases hit) auto
      moreover have "searched t d n2 e' t1" using f(2) Some by (auto simp: searched_def fetched_def split: alloc_end.splits)
      ultimately show ?thesis by blast
    next
      case None
      then have n: "length (unread_recs t1 d) < length (unread_recs t d)" "free_ok t1 d" "loop_at t1 d MDB_NEXT v1" "keeps t t1"
        "mset (pool_list t1 d) = mset (pool_list t d)" using f(2) by (auto simp: fetched_def)
      obtain e' t' where r: "page_alloc_loop t1 n2 MDB_NEXT v1 = Some (e', t')" "searched t1 d n2 e' t'"
        using less.hyps [OF n(1-3)] by blast
      have "page_alloc_loop t n2 op v = Some (e', t')" using u f(1) False None r(1) by (cases hit) auto
      moreover have "searched t d n2 e' t'" using r(2) n(5) keeps_trans [OF n(4)] by (simp add: searched_def)
      ultimately show ?thesis by blast
    qed
  qed
qed

section \<open>The state of a write transaction\<close>

definition level_ok :: "mdb_txn \<Rightarrow> txn_level \<Rightarrow> bool" where
  "level_ok t l \<longleftrightarrow> id2l_inv (dirty_list l) \<and> (\<forall>e \<in> set (id2l_list (dirty_list l)). \<exists>a. mptr e = PBuf a \<and> in_use t (PBuf a))"

text \<open>
  A write transaction without \<open>MDB_WRITEMAP\<close>.  No page of the pool is in use: neither by the free database nor by the
  dirty list.
\<close>

definition alloc_ok :: "mdb_txn \<Rightarrow> nat \<Rightarrow> bool" where
  "alloc_ok t d \<longleftrightarrow> free_ok t d \<and> heap_ok t \<and> me_flags (mt_env t) AND MDB_WRITEMAP = 0 \<and> mt_flags t AND MDB_TXN_RDONLY = 0 \<and>
     (\<forall>l \<in> set (mt_levels t). level_ok t l) \<and> me_maxpg (mt_env t) \<le> 2 ^ 30 \<and>
     db_pages t FREE_DBI d \<subseteq> {..<mt_next_pgno t} - set (pool_list t d) \<and>
     (case mt_levels t of [] \<Rightarrow> False | l # ls \<Rightarrow>
        (\<forall>e \<in> set (id2l_list (dirty_list l)). unat (mid e) \<in> {..<mt_next_pgno t} - set (pool_list t d)) \<and>
        mt_dirty_room t + length (id2l_list (dirty_list l)) \<le> MDB_IDL_UM_MAX)"

definition spilled_in :: "txn_level \<Rightarrow> nat \<Rightarrow> bool option" where
  "spilled_in l pgno = (case mt_spill_pgs l of
       None \<Rightarrow> Some False
     | Some sl \<Rightarrow> do {
         let pn = push_bit 1 (of_nat pgno :: mdb_id);
         x \<leftarrow> mdb_midl_search sl pn;
         c \<leftarrow> c_read sl 0;
         if x \<le> unat c then do { v \<leftarrow> c_read sl x; Some (v = pn) } else Some False })"

lemma page_get_loop_Cons:
  assumes "id2l_inv (dirty_list l)"
  shows "page_get_loop (l # ls) pg k = do { sp \<leftarrow> spilled_in l pg;
    if sp then Some (Inr (PMap pg, k)) else (case dl_find (dirty_list l) pg of Some p \<Rightarrow> Some (Inr (p, k)) | None \<Rightarrow> page_get_loop ls pg (k + 1)) }"
proof -
  let ?dl = "dirty_list l"
  have c0: "c_read ?dl 0 = Some (?dl ! 0)" using assms by (auto simp: id2l_inv_def c_read_def)
  have hit: "(if mid (?dl ! 0) \<noteq> 0 then do {
      x \<leftarrow> mdb_mid2l_search ?dl (of_nat pg);
      if x \<le> unat (mid (?dl ! 0)) then do { v \<leftarrow> c_read ?dl x; Some (if mid v = of_nat pg then Some (mptr v) else None) } else Some None }
    else Some None) = Some (dl_find ?dl pg)"
    using dirty_search [OF assms, of pg] c0 by simp
  show ?thesis unfolding page_get_loop.simps spilled_in_def [symmetric] c0 Option.bind.simps hit ..
qed

text \<open>Pages are found at their place in the map or in a buffer in use.\<close>

lemma page_get_in_use:
  assumes "\<forall>l \<in> set ls. level_ok t l" "page_get_loop ls pg k = Some (Inr (ptr, lv))"
  shows "in_use t ptr"
  using assms
proof (induction ls arbitrary: k)
  case (Cons l ls)
  have inv: "id2l_inv (dirty_list l)" using Cons.prems(1) by (simp add: level_ok_def)
  have dirty: "in_use t p" if hit: "dl_find (dirty_list l) pg = Some p" for p
  proof -
    obtain e where "find (\<lambda>e. mid e = of_nat pg) (id2l_list (dirty_list l)) = Some e" "p = mptr e" using hit by (auto simp: dl_find_def)
    then have "e \<in> set (id2l_list (dirty_list l))" "p = mptr e" by (auto simp: find_Some_iff)
    then show ?thesis using Cons.prems(1) by (fastforce simp: level_ok_def)
  qed
  have map: "in_use t (PMap pg)" by (simp add: in_use_def)
  show ?case
    using Cons.prems(2) [unfolded page_get_loop_Cons [OF inv]] Cons.IH Cons.prems(1) dirty map
    by (auto split: Option.bind_splits if_splits option.splits)
qed simp

section \<open>Taking the pages\<close>

text \<open>The transaction after a successful allocation.\<close>

definition alloced ::
  "mdb_txn \<Rightarrow> nat list \<Rightarrow> idl option \<Rightarrow> nat \<Rightarrow> nat \<Rightarrow> page \<Rightarrow> nat \<Rightarrow> page_ptr mdb_id2 list \<Rightarrow> mdb_txn" where
  "alloced t dp h br a p nx dl = (set_own_dirty t dl)\<lparr>mt_env := (mt_env t)\<lparr>me_dpages := dp, me_pghead := h\<rparr>, mt_brk := br,
     mt_heap := (mt_heap t)(a \<mapsto> p), mt_next_pgno := nx, mt_dirty_room := mt_dirty_room t - 1\<rparr>"

text \<open>The free list without the run.\<close>

definition head_after :: "mdb_txn \<Rightarrow> nat \<Rightarrow> nat \<Rightarrow> idl option \<Rightarrow> bool" where
  "head_after t num i h \<longleftrightarrow> (if i = 0 then h = me_pghead (mt_env t)
     else \<exists>il. h = Some il \<and> idl_inv il \<and> unat (alloclen il) < 2 ^ 32 \<and>
       idl_list (cells il) = take (i - num) (free_ids t) @ drop i (free_ids t))"

lemma take_pages_spec:
  assumes ok: "free_ok t d" and i: "i \<noteq> 0 \<longrightarrow> num \<le> i \<and> i \<le> length (free_ids t)" and num: "0 < num"
    and env: "me_pghead (mt_env t1) = me_pghead (mt_env t)" "mt_next_pgno t1 = mt_next_pgno t"
  shows "\<exists>h. head_after t num i h \<and> take_pages t1 num i pgno =
    Some ((upd_env (\<lambda>e. e\<lparr>me_pghead := h\<rparr>) t1)\<lparr>mt_next_pgno := if i = 0 then pgno + num else mt_next_pgno t\<rparr>)"
proof (cases "i = 0")
  case True
  have "(upd_env (\<lambda>e. e\<lparr>me_pghead := me_pghead (mt_env t)\<rparr>) t1) = t1" using env(1) by (simp add: upd_env_def flip: env(1))
  then show ?thesis using True by (intro exI [of _ "me_pghead (mt_env t)"]) (simp add: head_after_def take_pages_def)
next
  case False
  note i = i [THEN mp, OF False]
  obtain il where il: "me_pghead (mt_env t1) = Some il" using i num env(1) by (auto simp: free_ids_def split: option.splits)
  then have inv: "idl_inv il" "unat (alloclen il) < 2 ^ 32" "free_ids t = idl_list (cells il)"
    using env(1) ok by (auto simp: free_ok_def pghead_ok_def free_ids_def)
  have len: "pghead_len t1 = Some (length (free_ids t))" using pghead_len_eq [OF ok] env(1) by (simp add: pghead_len_def)
  have small: "length (idl_list (cells il)) < 2 ^ 32" using free_ids_small [of t d] ok inv(3) by (simp add: free_ok_def)
  obtain m cs where cs: "c_write (cells il) 0 (of_nat (u32 (length (idl_list (cells il)) + 2 ^ 32 - num))) = Some m"
    "stragglers m (i - num) i (u32 (length (idl_list (cells il)) + 2 ^ 32 - num)) = Some cs" "length cs = length (cells il)" "idl_wf cs"
    "unat (cs ! 0) = length (idl_list (cells il)) - num" "idl_list cs = take (i - num) (free_ids t) @ drop i (free_ids t)"
    using cut_run [OF idl_inv_wf [OF inv(1)] conjunct1 [OF i] conjunct2 [OF i, unfolded inv(3)] num small] unfolding inv(3) by blast
  have "idl_inv (il\<lparr>cells := cs\<rparr>)"
    using inv(1) cs(3,5) length_idl_list [OF idl_inv_wf [OF inv(1)]] by (auto simp: idl_inv_def)
  then have "head_after t num i (Some (il\<lparr>cells := cs\<rparr>))" using inv(2) cs(6) False by (simp add: head_after_def)
  moreover have "take_pages t1 num i pgno = Some (upd_env (\<lambda>e. e\<lparr>me_pghead := Some (il\<lparr>cells := cs\<rparr>)\<rparr>) t1)"
    using cs(1,2) i il inv(3) False by (simp add: take_pages_def len Let_def)
  moreover have "(upd_env (\<lambda>e. e\<lparr>me_pghead := x\<rparr>) t1)\<lparr>mt_next_pgno := mt_next_pgno t\<rparr> = upd_env (\<lambda>e. e\<lparr>me_pghead := x\<rparr>) t1" for x
    by (simp add: upd_env_def flip: env(2))
  ultimately show ?thesis using False by (intro exI [of _ "Some (il\<lparr>cells := cs\<rparr>)"]) simp
qed

text \<open>A page with a new number enters the dirty list.\<close>

definition dl_ins :: "page_ptr mdb_id2 list \<Rightarrow> nat \<Rightarrow> page_ptr \<Rightarrow> page_ptr mdb_id2 list \<Rightarrow> bool" where
  "dl_ins dl pgno ptr dl' \<longleftrightarrow> id2l_inv dl' \<and> id2l_list dl' = filter (\<lambda>y. mid y < of_nat pgno) (id2l_list dl) @
     \<lparr>mid = of_nat pgno, mptr = ptr\<rparr> # filter (\<lambda>y. mid y > of_nat pgno) (id2l_list dl)"

lemma page_dirty_spec:
  assumes dl: "own_dirty t = Some dl" "id2l_inv dl" and room: "0 < mt_dirty_room t" "mt_dirty_room t + length (id2l_list dl) \<le> MDB_IDL_UM_MAX"
    and wm: "me_flags (mt_env t) AND MDB_WRITEMAP = 0" and p: "page_at t ptr = Some p" "mp_pgno p = Some pgno"
    and new: "of_nat pgno \<notin> mid ` set (id2l_list dl)"
  shows "\<exists>dl'. mdb_page_dirty t ptr = Some ((set_own_dirty t dl')\<lparr>mt_dirty_room := mt_dirty_room t - 1\<rparr>) \<and> dl_ins dl pgno ptr dl'"
proof -
  have "mt_dirty_room t + 2 ^ 32 - 1 = (mt_dirty_room t - 1) + 2 ^ 32" using room(1) by simp
  then have "u32 (mt_dirty_room t + 2 ^ 32 - 1) = (mt_dirty_room t - 1) mod 2 ^ 32" unfolding u32_def by (simp only: mod_add_self2)
  then have r: "u32 (mt_dirty_room t + 2 ^ 32 - 1) = mt_dirty_room t - 1" using room(2) by (simp add: MDB_IDL_UM_MAX_def)
  let ?e = "\<lparr>mid = of_nat pgno, mptr = ptr\<rparr>"
  obtain dl' where "mdb_mid2l_insert dl ?e = Some (MID2L_OK, dl')" "dl_ins dl pgno ptr dl'"
    using mid2l_inserts [OF dl(2), of ?e] new room by (auto simp: dl_ins_def)
  then show ?thesis using dl(1) wm p r by (auto simp: mdb_page_dirty_def)
qed

lemma txn_fail_error: "mt_flags (txn_fail t) AND MDB_TXN_ERROR \<noteq> 0"
proof -
  have "(mt_flags t OR 2) AND 2 = (2 :: nat)" by (rule bit_eqI) (auto simp: bit_simps)
  then show ?thesis by (simp add: txn_fail_def MDB_TXN_ERROR_def)
qed

lemma alloc_pages_spec:
  assumes ok: "alloc_ok t d" and room: "0 < mt_dirty_room t" and num: "0 < num" and pgno: "pgno < 2 ^ 31"
    and i: "i \<noteq> 0 \<longrightarrow> num \<le> i \<and> i \<le> length (free_ids t)"
    and lv: "mt_levels t = l # ls" and new: "of_nat pgno \<notin> mid ` set (id2l_list (dirty_list l))"
  shows "(\<exists>t'. alloc_pages t num i pgno = Some (Inl ENOMEM, t') \<and> mt_flags t' AND MDB_TXN_ERROR \<noteq> 0) \<or>
    (\<exists>dp h br a p dl. alloc_pages t num i pgno = Some (Inr (PBuf a), alloced t dp h br a p (if i = 0 then pgno + num else mt_next_pgno t) dl) \<and>
      \<not> in_use t (PBuf a) \<and> a < br \<and> a \<notin> set dp \<and> mt_brk t \<le> br \<and> set dp \<subseteq> set (me_dpages (mt_env t)) \<and> distinct dp \<and>
      (\<forall>b \<ge> br. mt_heap t b = None) \<and>
      length p = me_psize (mt_env t) * num \<and> rd64 p 0 = Some pgno \<and> head_after t num i h \<and> dl_ins (dirty_list l) pgno (PBuf a) dl)"
proof -
  have dl: "own_dirty t = Some (dirty_list l)" "id2l_inv (dirty_list l)" "mt_dirty_room t + length (id2l_list (dirty_list l)) \<le> MDB_IDL_UM_MAX"
    using ok by (auto simp: alloc_ok_def lv level_ok_def own_dirty_def)
  have wm: "me_flags (mt_env t) AND MDB_WRITEMAP = 0" and hk: "heap_ok t" and fk: "free_ok t d" using ok by (auto simp: alloc_ok_def)
  obtain r t1 where m: "mdb_page_malloc t num = Some (r, t1)" and mr: "case r of
      None \<Rightarrow> t1 = txn_fail (t\<lparr>mt_brk := mt_brk t + 1\<rparr>)
    | Some a \<Rightarrow> \<exists>p br dp. t1 = (upd_env (\<lambda>e. e\<lparr>me_dpages := dp\<rparr>) t)\<lparr>mt_brk := br, mt_heap := (mt_heap t)(a \<mapsto> p)\<rparr> \<and>
        length p = me_psize (mt_env t) * num \<and> heap_ok t1 \<and> \<not> in_use t (PBuf a) \<and> in_use t1 (PBuf a) \<and>
        set dp \<subseteq> set (me_dpages (mt_env t)) \<and> mt_brk t \<le> br"
    using page_malloc_spec [OF hk num] by blast
  show ?thesis
  proof (cases r)
    case None
    then have "alloc_pages t num i pgno = Some (Inl ENOMEM, txn_fail t1)" using m wm by (simp add: alloc_pages_def)
    then show ?thesis using txn_fail_error by blast
  next
    case (Some a)
    then obtain p br dp where t1: "t1 = (upd_env (\<lambda>e. e\<lparr>me_dpages := dp\<rparr>) t)\<lparr>mt_brk := br, mt_heap := (mt_heap t)(a \<mapsto> p)\<rparr>"
      and p: "length p = me_psize (mt_env t) * num" "heap_ok t1" "\<not> in_use t (PBuf a)" "in_use t1 (PBuf a)"
        "set dp \<subseteq> set (me_dpages (mt_env t))" "mt_brk t \<le> br" using mr by auto
    have "me_psize (mt_env t) \<le> me_psize (mt_env t) * num" using num by simp
    then have psz: "16 \<le> me_psize (mt_env t)" "me_psize (mt_env t) \<le> length p" using hk p(1) by (simp_all add: heap_ok_def)
    let ?nx = "if i = 0 then pgno + num else mt_next_pgno t" and ?p = "splice p 0 (le_bytes 8 pgno)"
    obtain h where h: "head_after t num i h" "take_pages t1 num i pgno = Some ((upd_env (\<lambda>e. e\<lparr>me_pghead := h\<rparr>) t1)\<lparr>mt_next_pgno := ?nx\<rparr>)"
      using take_pages_spec [OF fk i num, of t1 pgno] by (auto simp: t1 upd_env_def)
    let ?t3 = "t\<lparr>mt_env := (mt_env t)\<lparr>me_dpages := dp, me_pghead := h\<rparr>, mt_brk := br, mt_heap := (mt_heap t)(a \<mapsto> ?p), mt_next_pgno := ?nx\<rparr>"
    have lp: "length ?p = length p" "slice ?p 0 8 = le_bytes 8 pgno" using psz by (simp_all add: splice_def slice_def)
    have put: "mem_put ((upd_env (\<lambda>e. e\<lparr>me_pghead := h\<rparr>) t1)\<lparr>mt_next_pgno := ?nx\<rparr>) (PBuf a) 0 (le_bytes 8 pgno) = Some ?t3"
      using psz by (simp add: mem_put_def t1 upd_env_def put_bytes_def)
    have at: "page_at ?t3 (PBuf a) = Some (slice ?p 0 (me_psize (mt_env t)))"
      using psz lp(1) by (simp add: page_at_def mem_bytes_def get_bytes_def)
    have pg: "mp_pgno (slice ?p 0 (me_psize (mt_env t))) = Some pgno" "rd64 ?p 0 = Some pgno"
      using psz lp pgno by (simp_all add: mp_pgno_def rd_def slice_slice)
    obtain dl' where d: "mdb_page_dirty ?t3 (PBuf a) = Some ((set_own_dirty ?t3 dl')\<lparr>mt_dirty_room := mt_dirty_room t - 1\<rparr>)"
      "dl_ins (dirty_list l) pgno (PBuf a) dl'"
      using page_dirty_spec [OF _ dl(2) _ _ _ at pg(1) new] dl room wm by (auto simp: own_dirty_def)
    have "(set_own_dirty ?t3 dl')\<lparr>mt_dirty_room := mt_dirty_room t - 1\<rparr> = alloced t dp h br a ?p ?nx dl'"
      by (simp add: alloced_def set_own_dirty_def lv)
    then have res: "alloc_pages t num i pgno = Some (Inr (PBuf a), alloced t dp h br a ?p ?nx dl')"
      using m Some wm h(2) put d(1) by (simp add: alloc_pages_def)
    have "\<not> in_use t (PBuf a) \<and> a < br \<and> a \<notin> set dp \<and> mt_brk t \<le> br \<and> set dp \<subseteq> set (me_dpages (mt_env t)) \<and> distinct dp \<and>
      (\<forall>b \<ge> br. mt_heap t b = None) \<and> length ?p = me_psize (mt_env t) * num \<and> rd64 ?p 0 = Some pgno \<and> head_after t num i h \<and>
      dl_ins (dirty_list l) pgno (PBuf a) dl'"
      using p lp(1) pg(2) h(1) d(2) hk by (auto simp: t1 in_use_def heap_ok_def upd_env_def)
    with res show ?thesis by blast
  qed
qed

section \<open>What an allocation leaves as it was\<close>

lemma alloced_simps [simp]:
  "mt_flags (alloced t dp h br a p nx dl) = mt_flags t" "mt_dbs (alloced t dp h br a p nx dl) = mt_dbs t"
  "mt_dbxs (alloced t dp h br a p nx dl) = mt_dbxs t" "mt_dbflags (alloced t dp h br a p nx dl) = mt_dbflags t"
  "mt_next_pgno (alloced t dp h br a p nx dl) = nx" "mt_brk (alloced t dp h br a p nx dl) = br"
  "mt_heap (alloced t dp h br a p nx dl) = (mt_heap t)(a \<mapsto> p)" "mt_txnid (alloced t dp h br a p nx dl) = mt_txnid t"
  "mt_env (alloced t dp h br a p nx dl) = (mt_env t)\<lparr>me_dpages := dp, me_pghead := h\<rparr>"
  "mt_dirty_room (alloced t dp h br a p nx dl) = mt_dirty_room t - 1"
  by (simp_all add: alloced_def set_own_dirty_def)

lemma alloced_levels: "mt_levels t = l # ls \<Longrightarrow> mt_levels (alloced t dp h br a p nx dl) = l\<lparr>dirty_list := dl\<rparr> # ls"
  by (simp add: alloced_def set_own_dirty_def)

lemma unat_of_nat_small: "n < 2 ^ 64 \<Longrightarrow> unat (of_nat n :: mdb_id) = n"
  by (simp add: unat_of_nat)

lemma dl_ins_find:
  assumes "dl_ins dl pgno ptr dl'" "pgno < 2 ^ 64" "pg < 2 ^ 64" "of_nat pgno \<notin> mid ` set (id2l_list dl)"
  shows "dl_find dl' pg = (if pg = pgno then Some ptr else dl_find dl pg)"
proof -
  have "(of_nat pgno :: mdb_id) = of_nat pg \<longleftrightarrow> pg = pgno" using assms(2,3) unat_of_nat_small by metis
  then show ?thesis using dl_find_insert [of dl' "\<lparr>mid = of_nat pgno, mptr = ptr\<rparr>" dl pg] assms(1,4) by (simp add: dl_ins_def)
qed

lemma alloced_reads:
  assumes ok: "alloc_ok t d" and lv: "mt_levels t = l # ls" and a: "\<not> in_use t (PBuf a)" and dl: "dl_ins (dirty_list l) pgno (PBuf a) dl"
    and new: "of_nat pgno \<notin> mid ` set (id2l_list (dirty_list l))" and pgno: "pgno < 2 ^ 31" and nx: "mt_next_pgno t \<le> nx"
  shows "reads_same t (alloced t dp h br a p nx dl) ({..<mt_next_pgno t} - {pgno})"
proof -
  let ?t = "alloced t dp h br a p nx dl"
  have lev: "\<forall>l \<in> set (mt_levels t). level_ok t l" and rw: "mt_flags t AND MDB_TXN_RDONLY = 0" "me_flags (mt_env t) AND MDB_WRITEMAP = 0"
    and small: "mt_next_pgno t < 2 ^ 30"
    using ok by (auto simp: alloc_ok_def free_ok_def pool_ok_def)
  have inv: "id2l_inv (dirty_list l)" using lev lv by (simp add: level_ok_def)
  have inv': "id2l_inv (dirty_list (l\<lparr>dirty_list := dl\<rparr>))" using dl by (simp add: dl_ins_def)
  have mem: "mem_bytes ?t ptr ofs n = mem_bytes t ptr ofs n" if "in_use t ptr" for ptr ofs n
    using a that by (auto simp: mem_bytes_def split: page_ptr.splits)
  have "read_at ?t pg ofs n = read_at t pg ofs n" if pg: "pg < mt_next_pgno t" "pg \<noteq> pgno" for pg ofs n
  proof -
    have "dl_find dl pg = dl_find (dirty_list l) pg" using dl_ins_find [OF dl _ _ new, of pg] pg small pgno by simp
    moreover have "spilled_in (l\<lparr>dirty_list := dl\<rparr>) pg = spilled_in l pg" by (simp add: spilled_in_def)
    ultimately have loop: "page_get_loop (mt_levels ?t) pg 1 = page_get_loop (mt_levels t) pg 1"
      unfolding alloced_levels [OF lv] unfolding lv page_get_loop_Cons [OF inv] page_get_loop_Cons [OF inv'] by (simp cong: if_cong)
    have "in_use t (PMap pg)" by (simp add: in_use_def)
    with loop page_get_in_use [OF lev, of pg 1] show ?thesis
      using rw pg(1) nx mem unfolding page_get_read mdb_page_get_def by (auto split: Option.bind_splits sum.splits)
  qed
  then show ?thesis by (simp add: reads_same_def)
qed

text \<open>The pages that are handed out.\<close>

definition taken :: "mdb_txn \<Rightarrow> nat \<Rightarrow> nat \<Rightarrow> nat \<Rightarrow> bool" where
  "taken t num i pgno \<longleftrightarrow> (if i = 0 then pgno = mt_next_pgno t \<and> pgno + num < me_maxpg (mt_env t)
     else run_at t (num - 1) i pgno)"

lemma taken_run:
  assumes ok: "free_ok t d" and num: "0 < num" "num < 2 ^ 31" and run: "run_at t (num - 1) i pgno"
  shows "num \<le> i" "i \<le> length (free_ids t)" "set (take num (drop (i - num) (map unat (free_ids t)))) = {pgno..<pgno + num}" "pgno + num \<le> mt_next_pgno t"
proof -
  let ?xs = "map unat (free_ids t)"
  have i: "num - 1 < i" "i \<le> length (free_ids t)" and r: "unat (free_ids t ! (i - 1)) = pgno" "free_ids t ! (i - num) = of_nat pgno + of_nat (num - 1)"
    using run num by (auto simp: run_at_def)
  then show n: "num \<le> i" "i \<le> length (free_ids t)" using num by auto
  have pool: "distinct ?xs" "\<forall>x \<in> set ?xs. x < mt_next_pgno t" "mt_next_pgno t < 2 ^ 30" using ok by (auto simp: free_ok_def pool_ok_def pool_list_def)
  have "descending (free_ids t)" using ok by (auto simp: free_ok_def pghead_ok_def free_ids_def split: option.splits)
  then have "descending ?xs" by (auto simp: sorted_wrt_map word_le_nat_alt elim!: sorted_wrt_mono_rel [rotated])
  then have s: "sorted_wrt (>) ?xs" using strict_descending pool(1) by blast
  have mem: "?xs ! (i - 1) \<in> set ?xs" "?xs ! (i - num) \<in> set ?xs" using n num by (auto intro!: nth_mem)
  have p: "?xs ! (i - 1) = pgno" using r(1) n num by simp
  have sum: "pgno < 2 ^ 30" using mem(1) pool(2,3) p by (metis less_trans)
  have "unat (free_ids t ! (i - num)) = pgno + (num - 1)"
    unfolding r(2) of_nat_add [symmetric] by (rule unat_of_nat_small) (use sum num in simp)
  then have top: "?xs ! (i - Suc (num - 1)) = ?xs ! (i - 1) + (num - 1)" using n num p by simp
  have "set (take (Suc (num - 1)) (drop (i - Suc (num - 1)) ?xs)) = {?xs ! (i - 1)..<?xs ! (i - 1) + Suc (num - 1)}"
    by (rule run_slice [OF s i(1) _ top]) (use n in simp)
  then show "set (take num (drop (i - num) ?xs)) = {pgno..<pgno + num}" using num(1) p by simp
  then have "pgno + (num - 1) \<in> set (take num (drop (i - num) ?xs))" using num(1) by simp
  then have "pgno + (num - 1) \<in> set ?xs" by (meson in_set_dropD in_set_takeD)
  then show "pgno + num \<le> mt_next_pgno t" using pool(2) num(1) by fastforce
qed

text \<open>Cutting the run out of the pool.\<close>

lemma cut_middle:
  assumes "distinct (xs @ ys)" "n \<le> i" "i \<le> length xs"
  shows "distinct ((take (i - n) xs @ drop i xs) @ ys)" "set ((take (i - n) xs @ drop i xs) @ ys) = set (xs @ ys) - set (take n (drop (i - n) xs))"
proof -
  have i: "i = (i - n) + n" using assms(2) by simp
  have x: "xs = take (i - n) xs @ take n (drop (i - n) xs) @ drop i xs"
    using take_take_drop [of "i - n" xs n] i by simp
  from assms(1) have d: "distinct ((take (i - n) xs @ take n (drop (i - n) xs) @ drop i xs) @ ys)" by (subst (asm) x)
  then show "distinct ((take (i - n) xs @ drop i xs) @ ys)" by auto
  have "set (xs @ ys) = set ((take (i - n) xs @ take n (drop (i - n) xs) @ drop i xs) @ ys)" by (subst x) (rule refl)
  then show "set ((take (i - n) xs @ drop i xs) @ ys) = set (xs @ ys) - set (take n (drop (i - n) xs))" using d by auto
qed

lemma descending_cut: "descending xs \<Longrightarrow> n \<le> i \<Longrightarrow> descending (take (i - n) xs @ drop i (xs :: 'a::linorder list))"
proof -
  assume d: "descending xs" and n: "n \<le> i"
  have "descending (take (i - n) xs @ take n (drop (i - n) xs) @ drop i xs)"
    using d take_take_drop [of "i - n" xs n] n by simp
  then show ?thesis by (auto simp: sorted_wrt_append)
qed

definition in_pool :: "mdb_txn \<Rightarrow> nat \<Rightarrow> nat \<Rightarrow> bool" where
  "in_pool t d p \<longleftrightarrow> p \<in> set (pool_list t d) \<or> mt_next_pgno t \<le> p"

definition unread_ids :: "mdb_txn \<Rightarrow> nat \<Rightarrow> nat list" where
  "unread_ids t d = map unat (concat (map (\<lambda>r. idl_list (rec_ids t r)) (unread_recs t d)))"

lemma pool_split: "pool_list t d = map unat (free_ids t) @ unread_ids t d"
  by (simp add: pool_list_def unread_ids_def)

lemma taken_facts:
  assumes ok: "alloc_ok t d" and num: "0 < num" "num < 2 ^ 31" and tk: "taken t num i pgno"
  shows "pgno < 2 ^ 31" "i = 0 \<longrightarrow> pgno = mt_next_pgno t" "i \<noteq> 0 \<longrightarrow> {pgno..<pgno + num} \<subseteq> set (map unat (free_ids t)) \<and> pgno + num \<le> mt_next_pgno t"
    "i \<noteq> 0 \<longrightarrow> num \<le> i \<and> i \<le> length (free_ids t)" "(if i = 0 then pgno + num else mt_next_pgno t) < 2 ^ 30"
    "i \<noteq> 0 \<longrightarrow> pgno \<in> set (pool_list t d)" "mt_levels t = l # ls \<Longrightarrow> of_nat pgno \<notin> mid ` set (id2l_list (dirty_list l))"
proof -
  have small: "mt_next_pgno t < 2 ^ 30" "me_maxpg (mt_env t) \<le> 2 ^ 30" and fk: "free_ok t d"
    using ok by (auto simp: alloc_ok_def free_ok_def pool_ok_def)
  show eq: "i = 0 \<longrightarrow> pgno = mt_next_pgno t" using tk by (simp add: taken_def)
  have run: "num \<le> i" "i \<le> length (free_ids t)" "{pgno..<pgno + num} \<subseteq> set (map unat (free_ids t))" "pgno + num \<le> mt_next_pgno t" if "i \<noteq> 0"
  proof -
    have r: "run_at t (num - 1) i pgno" using tk that by (simp add: taken_def)
    note f = taken_run [OF fk num r]
    show "num \<le> i" "i \<le> length (free_ids t)" "pgno + num \<le> mt_next_pgno t" by (rule f)+
    show "{pgno..<pgno + num} \<subseteq> set (map unat (free_ids t))" unfolding f(3) [symmetric] by (meson set_drop_subset set_take_subset subset_trans)
  qed
  then show in_run: "i \<noteq> 0 \<longrightarrow> {pgno..<pgno + num} \<subseteq> set (map unat (free_ids t)) \<and> pgno + num \<le> mt_next_pgno t"
    "i \<noteq> 0 \<longrightarrow> num \<le> i \<and> i \<le> length (free_ids t)" by auto
  show "pgno < 2 ^ 31" using eq in_run small num by (cases "i = 0") auto
  have "pgno \<in> {pgno..<pgno + num}" using num by simp
  then have "i \<noteq> 0 \<longrightarrow> pgno \<in> set (map unat (free_ids t))" using in_run(1) by blast
  then show mem: "i \<noteq> 0 \<longrightarrow> pgno \<in> set (pool_list t d)" by (simp add: pool_split)
  show "(if i = 0 then pgno + num else mt_next_pgno t) < 2 ^ 30" using tk small by (auto simp: taken_def)
  assume lv: "mt_levels t = l # ls"
  show "of_nat pgno \<notin> mid ` set (id2l_list (dirty_list l))"
  proof
    assume "of_nat pgno \<in> mid ` set (id2l_list (dirty_list l))"
    then obtain e where e: "e \<in> set (id2l_list (dirty_list l))" "mid e = of_nat pgno" by auto
    then have "unat (mid e) \<in> {..<mt_next_pgno t} - set (pool_list t d)" using ok lv by (auto simp: alloc_ok_def)
    moreover have "unat (mid e) = pgno" using e(2) \<open>pgno < 2 ^ 31\<close> unat_of_nat_small [of pgno] by simp
    ultimately show False using eq mem by (cases "i = 0") auto
  qed
qed

lemma same_records:
  assumes rs: "reads_same t t' (db_pages t FREE_DBI d)" and h: "same_handle t t' FREE_DBI" and ok: "records_ok t d"
    and l: "me_pglast (mt_env t') = me_pglast (mt_env t)"
  shows "records_ok t' d" "unread_ids t' d = unread_ids t d" "db_pages t' FREE_DBI d = db_pages t FREE_DBI d"
proof -
  note f = db_frame [OF rs h]
  have ids: "rec_ids t' r = rec_ids t r" if "r \<in> set (db_entries t FREE_DBI d)" for r using f(3) [OF that] by (simp add: rec_ids_def)
  have c: "db_cmp t' FREE_DBI = db_cmp t FREE_DBI" using h by (simp add: same_handle_def)
  show "records_ok t' d" using ok ids by (simp add: records_ok_def f c)
  have un: "unread_recs t' d = unread_recs t d" by (simp add: unread_recs_def f l)
  have "map (\<lambda>r. idl_list (rec_ids t' r)) (unread_recs t d) = map (\<lambda>r. idl_list (rec_ids t r)) (unread_recs t d)"
    using ids by (auto simp: unread_recs_def)
  then show "unread_ids t' d = unread_ids t d" unfolding unread_ids_def un by (rule arg_cong)
  show "db_pages t' FREE_DBI d = db_pages t FREE_DBI d" by (rule f)
qed

text \<open>The pool after the run has been cut out.\<close>

lemma head_after_pool:
  assumes fk: "free_ok t d" and tk: "i \<noteq> 0 \<longrightarrow> num \<le> i \<and> i \<le> length (free_ids t)" and run: "i \<noteq> 0 \<Longrightarrow> set (take num (drop (i - num) (map unat (free_ids t)))) = A"
    and h: "head_after t num i h" and t': "me_pghead (mt_env t') = h" "me_pglast (mt_env t') = me_pglast (mt_env t)" "unread_ids t' d = unread_ids t d"
  shows "pghead_ok t'" "distinct (pool_list t' d)" "set (pool_list t' d) = (if i = 0 then set (pool_list t d) else set (pool_list t d) - A)"
proof -
  have pk: "pghead_ok t" "distinct (pool_list t d)" using fk by (simp_all add: free_ok_def pool_ok_def)
  show "pghead_ok t'" "distinct (pool_list t' d)" "set (pool_list t' d) = (if i = 0 then set (pool_list t d) else set (pool_list t d) - A)"
  proof (atomize(full), cases "i = 0")
    case True
    then have "free_ids t' = free_ids t" using h t'(1) by (simp add: free_ids_def head_after_def)
    then show "pghead_ok t' \<and> distinct (pool_list t' d) \<and> set (pool_list t' d) = (if i = 0 then set (pool_list t d) else set (pool_list t d) - A)"
      using pk t' h True by (simp add: pool_split pghead_ok_def head_after_def)
  next
    case False
    then obtain il where il: "h = Some il" "idl_inv il" "unat (alloclen il) < 2 ^ 32"
      "idl_list (cells il) = take (i - num) (free_ids t) @ drop i (free_ids t)" using h by (auto simp: head_after_def)
    have ids: "map unat (free_ids t') = take (i - num) (map unat (free_ids t)) @ drop i (map unat (free_ids t))"
      using il(1,4) t'(1) by (simp add: free_ids_def take_map drop_map)
    have "descending (free_ids t)" using pk(1) by (auto simp: pghead_ok_def free_ids_def split: option.splits)
    then have "pghead_ok t'" using il t'(1) descending_cut [of "free_ids t" num i] tk False by (simp add: pghead_ok_def)
    then show "pghead_ok t' \<and> distinct (pool_list t' d) \<and> set (pool_list t' d) = (if i = 0 then set (pool_list t d) else set (pool_list t d) - A)"
      using cut_middle [of "map unat (free_ids t)" "unread_ids t d" num i] pk(2) tk False run
      by (simp add: pool_split ids t'(3))
  qed
qed

text \<open>After the allocation: the pool without the pages, and everything that reading the free database needs.\<close>

lemma in_use_alloced:
  assumes "in_use t ptr" "mt_brk t \<le> br" "set dp \<subseteq> set (me_dpages (mt_env t))"
  shows "in_use (alloced t dp h br a p nx dl) ptr"
  using assms by (auto simp: in_use_def split: page_ptr.splits)

lemma dl_ins_set: "dl_ins dl pgno ptr dl' \<Longrightarrow> set (id2l_list dl') \<subseteq> insert \<lparr>mid = of_nat pgno, mptr = ptr\<rparr> (set (id2l_list dl))"
  by (auto simp: dl_ins_def)

lemma dl_ins_length: "dl_ins dl pgno ptr dl' \<Longrightarrow> length (id2l_list dl') \<le> Suc (length (id2l_list dl))"
proof -
  have "length (filter (\<lambda>y. mid y < k) xs) + length (filter (\<lambda>y. mid y > k) xs) \<le> length xs" for k :: mdb_id and xs :: "page_ptr mdb_id2 list"
    by (induction xs) auto
  then show "dl_ins dl pgno ptr dl' \<Longrightarrow> length (id2l_list dl') \<le> Suc (length (id2l_list dl))" by (simp add: dl_ins_def)
qed

lemma heap_ok_alloced:
  assumes "heap_ok t" "\<not> in_use t (PBuf a)" "a < br" "a \<notin> set dp" "set dp \<subseteq> set (me_dpages (mt_env t))" "distinct dp" "\<forall>b \<ge> br. mt_heap t b = None"
  shows "heap_ok (alloced t dp h br a p nx dl)"
  using assms by (auto simp: heap_ok_def)

lemma alloced_ok:
  fixes p :: page
  assumes ok: "alloc_ok t d" and lv: "mt_levels t = l # ls" and num: "0 < num" "num < 2 ^ 31" and tk: "taken t num i pgno"
    and a: "\<not> in_use t (PBuf a)" "a < br" "a \<notin> set dp" "mt_brk t \<le> br" "set dp \<subseteq> set (me_dpages (mt_env t))" "distinct dp"
      "\<forall>b \<ge> br. mt_heap t b = None"
    and h: "head_after t num i h" and dl: "dl_ins (dirty_list l) pgno (PBuf a) dl" and room: "0 < mt_dirty_room t"
  defines "t' \<equiv> alloced t dp h br a p (if i = 0 then pgno + num else mt_next_pgno t) dl"
  shows "alloc_ok t' d" "reads_same t t' ({..<mt_next_pgno t} - {pgno})" "\<And>q. in_pool t' d q \<longleftrightarrow> in_pool t d q \<and> q \<notin> {pgno..<pgno + num}"
proof -
  let ?A = "{pgno..<pgno + num}" and ?nx = "if i = 0 then pgno + num else mt_next_pgno t"
  note f = taken_facts [OF ok num tk]
  have fk: "free_ok t d" and pgs: "db_pages t FREE_DBI d \<subseteq> {..<mt_next_pgno t} - set (pool_list t d)" using ok by (auto simp: alloc_ok_def)
  have pin: "pgno \<in> ?A" using num by simp
  show rs: "reads_same t t' ({..<mt_next_pgno t} - {pgno})"
    unfolding t'_def by (rule alloced_reads [OF ok lv a(1) dl f(7) [OF lv] f(1)]) (use f(2) in auto)
  have "db_pages t FREE_DBI d \<subseteq> {..<mt_next_pgno t} - {pgno}" using pgs f(2,6) by (cases "i = 0") auto
  then have rs': "reads_same t t' (db_pages t FREE_DBI d)" by (rule reads_same_mono [OF rs])
  have hd: "same_handle t t' FREE_DBI" and pl: "me_pglast (mt_env t') = me_pglast (mt_env t)" "me_pghead (mt_env t') = h"
    by (simp_all add: t'_def same_handle_def)
  have rk: "records_ok t d" using fk by (simp add: free_ok_def)
  note r = same_records [OF rs' hd rk pl(1)]
  have run: "set (take num (drop (i - num) (map unat (free_ids t)))) = ?A" if "i \<noteq> 0"
    using taken_run(3) [OF fk num] tk that by (simp add: taken_def)
  note pool = head_after_pool [OF fk f(4) run h pl(2,1) r(2)]
  have lt: "\<forall>q \<in> set (pool_list t d). q < mt_next_pgno t" using fk by (simp add: free_ok_def pool_ok_def)
  show ip: "in_pool t' d q \<longleftrightarrow> in_pool t d q \<and> q \<notin> ?A" for q
    using pool(3) f(2,3) lt by (cases "i = 0") (auto simp: in_pool_def t'_def)
  have np: "mt_next_pgno t' = ?nx" "mt_next_pgno t \<le> ?nx" using f(2) by (simp_all add: t'_def)
  have sub: "set (pool_list t' d) \<subseteq> set (pool_list t d)" using pool(3) by auto
  have old: "mdb_find_oldest t' = mdb_find_oldest t" by (cases "me_txns (mt_env t)") (simp_all add: mdb_find_oldest_def t'_def)
  have "pool_ok t' d" unfolding pool_ok_def using pool(2) sub lt f(5) np by fastforce
  moreover have "readers_ok t'" using fk pl(1) by (simp add: free_ok_def readers_ok_def old) (simp add: t'_def)
  ultimately have free: "free_ok t' d" using r(1) pool(1) by (simp add: free_ok_def)
  have use: "in_use t' (PBuf a)" using a by (simp add: in_use_def t'_def)
  have lev: "level_ok t' k" if "level_ok t k" for k
    using that in_use_alloced [OF _ a(4,5)] by (fastforce simp: level_ok_def t'_def)
  have lev': "level_ok t' (l\<lparr>dirty_list := dl\<rparr>)"
    using lev [of l] ok lv use dl dl_ins_set [OF dl] by (fastforce simp: alloc_ok_def level_ok_def dl_ins_def [of _ _ _ dl])
  have "unat (mid e) \<in> {..<mt_next_pgno t'} - set (pool_list t' d)" if e: "e \<in> set (id2l_list dl)" for e
  proof -
    have "e \<in> set (id2l_list (dirty_list l)) \<or> unat (mid e) = pgno" using dl_ins_set [OF dl] e f(1) unat_of_nat_small [of pgno] by auto
    moreover have "pgno < ?nx \<and> pgno \<notin> set (pool_list t' d)" using f(2,3) pin pool(3) lt num by (cases "i = 0") auto
    ultimately show ?thesis using ok lv sub np by (auto simp: alloc_ok_def)
  qed
  moreover have "mt_dirty_room t' + length (id2l_list dl) \<le> MDB_IDL_UM_MAX"
    using dl_ins_length [OF dl] ok lv room by (auto simp: alloc_ok_def t'_def)
  moreover have "heap_ok t'" unfolding t'_def by (rule heap_ok_alloced) (use ok a in \<open>auto simp: alloc_ok_def\<close>)
  moreover have "db_pages t' FREE_DBI d \<subseteq> {..<mt_next_pgno t'} - set (pool_list t' d)" using r(3) pgs sub np by auto
  moreover have "mt_levels t' = l\<lparr>dirty_list := dl\<rparr> # ls" unfolding t'_def by (rule alloced_levels [OF lv])
  moreover have "\<forall>k \<in> set ls. level_ok t' k" using ok lv lev by (auto simp: alloc_ok_def)
  ultimately show "alloc_ok t' d"
    using ok free lev' unfolding alloc_ok_def by (auto simp: t'_def)
qed

section \<open>Allocation as a whole\<close>

lemma keeps_alloc_ok:
  assumes ok: "alloc_ok t d" and k: "keeps t t1" and fk: "free_ok t1 d" and m: "mset (pool_list t1 d) = mset (pool_list t d)"
  shows "alloc_ok t1 d" "\<And>q. in_pool t1 d q = in_pool t d q" "reads_same t t1 S" "in_use t ptr \<Longrightarrow> in_use t1 ptr"
proof -
  have set: "set (pool_list t1 d) = set (pool_list t d)" using m by (rule mset_eq_setD)
  have pg: "db_pages t1 FREE_DBI d = db_pages t FREE_DBI d" using view_db(2) [OF keeps_view [OF k]] .
  obtain n where n: "mt_brk t \<le> n" "mt_brk t1 = n" "mt_heap t1 = mt_heap t" "mt_levels t1 = mt_levels t" "mt_flags t1 = mt_flags t"
    "mt_dirty_room t1 = mt_dirty_room t" "me_flags (mt_env t1) = me_flags (mt_env t)" "me_psize (mt_env t1) = me_psize (mt_env t)"
    "me_dpages (mt_env t1) = me_dpages (mt_env t)"
    using k by (auto simp: keeps_def)
  show use: "in_use t ptr \<Longrightarrow> in_use t1 ptr" for ptr using n by (auto simp: in_use_def split: page_ptr.splits)
  have "heap_ok t1" using ok n by (auto simp: alloc_ok_def heap_ok_def)
  moreover have "level_ok t l \<Longrightarrow> level_ok t1 l" for l using use by (fastforce simp: level_ok_def)
  ultimately show "alloc_ok t1 d"
    using ok fk n set pg keeps_fields [OF k] by (auto simp: alloc_ok_def split: list.splits)
  show "in_pool t1 d q = in_pool t d q" for q using set keeps_fields(1) [OF k] by (simp add: in_pool_def)
  show "reads_same t t1 S" by (rule view_reads [OF keeps_view [OF k]])
qed

text \<open>What an allocation may change: the bookkeeping of free pages and buffers, the buffer itself and the dirty list.\<close>

definition alloc_frame :: "mdb_txn \<Rightarrow> nat \<Rightarrow> page_ptr \<Rightarrow> mdb_txn \<Rightarrow> bool" where
  "alloc_frame t pgno np t' \<longleftrightarrow> (\<exists>a p h lst old dp n nx dl dr l ls. np = PBuf a \<and> mt_levels t = l # ls \<and> dl_ins (dirty_list l) pgno np dl \<and>
     mt_next_pgno t \<le> nx \<and> mt_brk t \<le> n \<and> set dp \<subseteq> set (me_dpages (mt_env t)) \<and>
     t' = t\<lparr>mt_env := (mt_env t)\<lparr>me_pghead := h, me_pglast := lst, me_pgoldest := old, me_dpages := dp\<rparr>, mt_brk := n,
       mt_heap := (mt_heap t)(a \<mapsto> p), mt_levels := l\<lparr>dirty_list := dl\<rparr> # ls, mt_next_pgno := nx, mt_dirty_room := dr\<rparr>)"

lemma alloc_frame_alloced:
  assumes lv: "mt_levels t = l # ls" and dl: "dl_ins (dirty_list l) pgno (PBuf a) dl" and le: "mt_next_pgno t \<le> nx" "mt_brk t \<le> br"
    and dp: "set dp \<subseteq> set (me_dpages (mt_env t))"
  shows "alloc_frame t pgno (PBuf a) (alloced t dp h br a p nx dl)"
proof -
  have "alloced t dp h br a p nx dl = t\<lparr>mt_env := (mt_env t)\<lparr>me_pghead := h, me_pglast := me_pglast (mt_env t),
      me_pgoldest := me_pgoldest (mt_env t), me_dpages := dp\<rparr>, mt_brk := br, mt_heap := (mt_heap t)(a \<mapsto> p),
      mt_levels := l\<lparr>dirty_list := dl\<rparr> # ls, mt_next_pgno := nx, mt_dirty_room := mt_dirty_room t - 1\<rparr>"
    by (simp add: alloced_def set_own_dirty_def lv)
  then show ?thesis unfolding alloc_frame_def using assms by blast
qed

lemma alloc_frame_keeps:
  assumes "keeps t t1" "alloc_frame t1 pgno np t'"
  shows "alloc_frame t pgno np t'"
proof -
  obtain h0 l0 o0 n0 where n0: "mt_brk t \<le> n0" and t1: "t1 = t\<lparr>mt_env := (mt_env t)\<lparr>me_pghead := h0, me_pglast := l0, me_pgoldest := o0\<rparr>, mt_brk := n0\<rparr>"
    using assms(1) unfolding keeps_def by blast
  obtain a p h lst old dp n nx dl dr l ls where f: "np = PBuf a" "mt_levels t = l # ls" "dl_ins (dirty_list l) pgno np dl"
      "mt_next_pgno t \<le> nx" "n0 \<le> n" "set dp \<subseteq> set (me_dpages (mt_env t))"
    and t': "t' = t1\<lparr>mt_env := (mt_env t1)\<lparr>me_pghead := h, me_pglast := lst, me_pgoldest := old, me_dpages := dp\<rparr>, mt_brk := n,
       mt_heap := (mt_heap t)(a \<mapsto> p), mt_levels := l\<lparr>dirty_list := dl\<rparr> # ls, mt_next_pgno := nx, mt_dirty_room := dr\<rparr>"
    using assms(2) unfolding alloc_frame_def by (auto simp: t1)
  have "t' = t\<lparr>mt_env := (mt_env t)\<lparr>me_pghead := h, me_pglast := lst, me_pgoldest := old, me_dpages := dp\<rparr>, mt_brk := n,
       mt_heap := (mt_heap t)(a \<mapsto> p), mt_levels := l\<lparr>dirty_list := dl\<rparr> # ls, mt_next_pgno := nx, mt_dirty_room := dr\<rparr>"
    by (simp add: t' t1)
  moreover have "mt_brk t \<le> n" using n0 f(5) by simp
  ultimately show ?thesis unfolding alloc_frame_def using f(1-4,6) by blast
qed

text \<open>
  Pages \<open>pgno\<close> to \<open>pgno + num - 1\<close> are handed out in the buffer \<open>np\<close>: they were in the pool and no longer are, the buffer
  was not in use, the first page has its number and is on the dirty list, all other pages read as before, and nothing else changes.
\<close>

definition granted :: "mdb_txn \<Rightarrow> nat \<Rightarrow> nat \<Rightarrow> page_ptr \<Rightarrow> nat \<Rightarrow> mdb_txn \<Rightarrow> bool" where
  "granted t d num np pgno t' \<longleftrightarrow> alloc_ok t' d \<and> (\<forall>q \<in> {pgno..<pgno + num}. in_pool t d q) \<and>
     (\<forall>q. in_pool t' d q \<longleftrightarrow> in_pool t d q \<and> q \<notin> {pgno..<pgno + num}) \<and> reads_same t t' ({..<mt_next_pgno t} - {pgno}) \<and>
     \<not> in_use t np \<and> in_use t' np \<and> (\<exists>b. mem_bytes t' np 0 (me_psize (mt_env t) * num) = Some b \<and> mp_pgno b = Some pgno) \<and>
     dirty_lookup t' pgno = Some (Some np) \<and> alloc_frame t pgno np t'"

lemma dirty_lookup_eq:
  assumes "mt_levels t = l # ls" "id2l_inv (dirty_list l)"
  shows "dirty_lookup t pg = Some (dl_find (dirty_list l) pg)"
proof -
  have "dirty_lookup t pg = do { c \<leftarrow> c_read (dirty_list l) 0;
      if mid c \<noteq> 0 then do {
        x \<leftarrow> mdb_mid2l_search (dirty_list l) (of_nat pg);
        if x \<le> unat (mid c) then do { v \<leftarrow> c_read (dirty_list l) x; Some (if mid v = of_nat pg then Some (mptr v) else None) } else Some None }
      else Some None }"
    using assms(1) by (cases "c_read (dirty_list l) 0") (auto simp: dirty_lookup_def own_dirty_def)
  then show ?thesis using dirty_search [OF assms(2)] by simp
qed

lemma granted_pages:
  assumes ok: "alloc_ok t d" and num: "0 < num" "num < 2 ^ 31" and tk: "taken t num i pgno" and room: "0 < mt_dirty_room t"
  shows "\<exists>r t'. alloc_pages t num i pgno = Some (r, t') \<and>
    (case r of Inl rc \<Rightarrow> rc = ENOMEM \<and> mt_flags t' AND MDB_TXN_ERROR \<noteq> 0 | Inr np \<Rightarrow> granted t d num np pgno t')"
proof -
  obtain l ls where lv: "mt_levels t = l # ls" using ok by (auto simp: alloc_ok_def split: list.splits)
  note f = taken_facts [OF ok num tk]
  let ?nx = "if i = 0 then pgno + num else mt_next_pgno t"
  from alloc_pages_spec [OF ok room num(1) f(1) f(4) lv f(7) [OF lv]] show ?thesis
  proof (elim disjE exE)
    fix t' assume "alloc_pages t num i pgno = Some (Inl ENOMEM, t') \<and> mt_flags t' AND MDB_TXN_ERROR \<noteq> 0"
    then show ?thesis by auto
  next
    fix dp h br a p dl
    assume "alloc_pages t num i pgno = Some (Inr (PBuf a), alloced t dp h br a p ?nx dl) \<and> \<not> in_use t (PBuf a) \<and> a < br \<and>
        a \<notin> set dp \<and> mt_brk t \<le> br \<and> set dp \<subseteq> set (me_dpages (mt_env t)) \<and> distinct dp \<and> (\<forall>b \<ge> br. mt_heap t b = None) \<and>
        length p = me_psize (mt_env t) * num \<and> rd64 p 0 = Some pgno \<and> head_after t num i h \<and> dl_ins (dirty_list l) pgno (PBuf a) dl"
    then have 2: "alloc_pages t num i pgno = Some (Inr (PBuf a), alloced t dp h br a p ?nx dl)" "\<not> in_use t (PBuf a)" "a < br"
        "a \<notin> set dp" "mt_brk t \<le> br" "set dp \<subseteq> set (me_dpages (mt_env t))" "distinct dp" "\<forall>b \<ge> br. mt_heap t b = None"
        "length p = me_psize (mt_env t) * num" "rd64 p 0 = Some pgno" "head_after t num i h" "dl_ins (dirty_list l) pgno (PBuf a) dl"
      by auto
    let ?t = "alloced t dp h br a p ?nx dl"
    note ok' = alloced_ok [OF ok lv num tk 2(2-8) 2(11,12) room, of p]
    have inv: "id2l_inv dl" using 2(12) by (simp add: dl_ins_def)
    have "dirty_lookup ?t pgno = Some (Some (PBuf a))"
      using dirty_lookup_eq [OF alloced_levels [OF lv]] inv dl_ins_find [OF 2(12) _ _ f(7) [OF lv], of pgno] f(1) by simp
    moreover have "in_pool t d q" if "q \<in> {pgno..<pgno + num}" for q
      using f(2,3) that by (cases "i = 0") (auto simp: in_pool_def pool_split subset_iff)
    moreover have "mem_bytes ?t (PBuf a) 0 (me_psize (mt_env t) * num) = Some p" using 2(9) by (simp add: mem_bytes_def get_bytes_def slice_def)
    moreover have "in_use ?t (PBuf a)" using 2(3,4) by (simp add: in_use_def)
    moreover have "alloc_frame t pgno (PBuf a) ?t" using alloc_frame_alloced [OF lv 2(12) _ 2(5,6)] f(2) by (cases "i = 0") simp_all
    ultimately have "granted t d num (PBuf a) pgno ?t"
      using ok' 2(2,10) unfolding granted_def by (auto simp: mp_pgno_def)
    then show ?thesis using 2(1) by auto
  qed
qed

text \<open>Records of the free database that the pages come from are older than every reader.\<close>

definition from_old :: "mdb_txn \<Rightarrow> nat \<Rightarrow> nat set \<Rightarrow> bool" where
  "from_old t d A \<longleftrightarrow> (\<forall>r \<in> set (db_entries t FREE_DBI d). me_pglast (mt_env t) < rec_key r \<longrightarrow>
     A \<inter> unat ` set (idl_list (rec_ids t r)) \<noteq> {} \<longrightarrow> rec_key r < mdb_find_oldest t)"

lemma unread_in:
  assumes "r \<in> set (db_entries t FREE_DBI d)" "me_pglast (mt_env t) < rec_key r"
  shows "unat ` set (idl_list (rec_ids t r)) \<subseteq> set (unread_ids t d)"
  using assms by (auto simp: unread_ids_def unread_recs_def)

lemma taken_old:
  assumes fk: "free_ok t d" and k: "keeps t t1" and fk1: "free_ok t1 d" and num: "0 < num" "num < 2 ^ 31" and tk: "taken t1 num i pgno"
  shows "from_old t d {pgno..<pgno + num}"
  unfolding from_old_def
proof (intro ballI impI)
  fix r assume r: "r \<in> set (db_entries t FREE_DBI d)" "me_pglast (mt_env t) < rec_key r"
    and hit: "{pgno..<pgno + num} \<inter> unat ` set (idl_list (rec_ids t r)) \<noteq> {}"
  have E: "db_entries t1 FREE_DBI d = db_entries t FREE_DBI d" "rec_ids t1 = rec_ids t" by (rule keeps_records [OF k])+
  show "rec_key r < mdb_find_oldest t"
  proof (cases "i = 0")
    case True
    then have "pgno = mt_next_pgno t" using tk keeps_fields(1) [OF k] by (simp add: taken_def)
    moreover have "\<forall>q \<in> set (unread_ids t d). q < mt_next_pgno t" using fk by (simp add: free_ok_def pool_ok_def pool_split)
    ultimately show ?thesis using hit unread_in [OF r] by fastforce
  next
    case False
    then have run: "run_at t1 (num - 1) i pgno" using tk by (simp add: taken_def)
    have sub: "{pgno..<pgno + num} \<subseteq> set (map unat (free_ids t1))"
      unfolding taken_run(3) [OF fk1 num run, symmetric] by (meson set_drop_subset set_take_subset subset_trans)
    have dis: "set (map unat (free_ids t1)) \<inter> set (unread_ids t1 d) = {}" using fk1 by (simp add: free_ok_def pool_ok_def pool_split)
    have "\<not> me_pglast (mt_env t1) < rec_key r"
    proof
      assume "me_pglast (mt_env t1) < rec_key r"
      then have "unat ` set (idl_list (rec_ids t r)) \<subseteq> set (unread_ids t1 d)" using unread_in [of r t1 d] r(1) E by simp
      then show False using hit sub dis by (meson disjoint_iff subset_iff)
    qed
    then show ?thesis using fk1 r(2) keeps_fields(3) [OF k] by (auto simp: free_ok_def readers_ok_def)
  qed
qed

lemma page_alloc_spec:
  assumes ok: "alloc_ok t d" and num: "0 < num" "num * 60 < 2 ^ 31" and loose: "num = 1 \<longrightarrow> mt_loose_pgs t = []"
  shows "\<exists>r t'. mdb_page_alloc t num = Some (r, t') \<and> (case r of
      Inl rc \<Rightarrow> rc \<in> {MDB_TXN_FULL, MDB_MAP_FULL, ENOMEM} \<and> mt_flags t' AND MDB_TXN_ERROR \<noteq> 0
    | Inr np \<Rightarrow> \<exists>pgno. granted t d num np pgno t' \<and> from_old t d {pgno..<pgno + num})"
proof (cases "mt_dirty_room t = 0")
  case True
  then show ?thesis using num loose txn_fail_error by (auto simp: mdb_page_alloc_def split: list.splits)
next
  case False
  let ?v = "\<lparr>av_retry = int num * 60, av_oldest = 0, av_last = 0, av_found_old = False, av_m2 = cursor_blank FREE_DBI, av_key = []\<rparr>"
  have fk: "free_ok t d" using ok by (simp add: alloc_ok_def)
  obtain e t1 where l: "page_alloc_loop t (num - 1) MDB_FIRST ?v = Some (e, t1)" "searched t d (num - 1) e t1"
    using page_alloc_loop_spec [OF fk, of MDB_FIRST ?v "num - 1"] by (auto simp: loop_at_def)
  then have k: "keeps t t1" and fk1: "free_ok t1 d" and m: "mset (pool_list t1 d) = mset (pool_list t d)" by (auto simp: searched_def)
  note k1 = keeps_alloc_ok [OF ok k fk1 m]
  have room: "0 < mt_dirty_room t1" using False k by (auto simp: keeps_def)
  have n31: "num < 2 ^ 31" using num by simp
  have start: "mdb_page_alloc t num = (case e of
       Fail rc \<Rightarrow> Some (Inl rc, txn_fail t1) | Return rc \<Rightarrow> Some (Inl rc, t1) | At i pgno \<Rightarrow> alloc_pages t1 num i pgno
     | New_pages \<Rightarrow> if mt_next_pgno t1 + num \<ge> me_maxpg (mt_env t1) then Some (Inl MDB_MAP_FULL, txn_fail t1)
         else alloc_pages t1 num 0 (mt_next_pgno t1))"
    using num loose False l(1) by (auto simp: mdb_page_alloc_def split: list.splits)
  have pages: "\<exists>r t'. alloc_pages t1 num i pgno = Some (r, t') \<and> (case r of
      Inl rc \<Rightarrow> rc \<in> {MDB_TXN_FULL, MDB_MAP_FULL, ENOMEM} \<and> mt_flags t' AND MDB_TXN_ERROR \<noteq> 0
    | Inr np \<Rightarrow> \<exists>pgno. granted t d num np pgno t' \<and> from_old t d {pgno..<pgno + num})" if tk: "taken t1 num i pgno" for i pgno
  proof -
    obtain r t' where a: "alloc_pages t1 num i pgno = Some (r, t')"
      "case r of Inl rc \<Rightarrow> rc = ENOMEM \<and> mt_flags t' AND MDB_TXN_ERROR \<noteq> 0 | Inr np \<Rightarrow> granted t1 d num np pgno t'"
      using granted_pages [OF k1(1) num(1) n31 tk room] by blast
    have "granted t d num np pgno t'" if g: "granted t1 d num np pgno t'" for np
    proof -
      have "me_psize (mt_env t1) = me_psize (mt_env t)" "mt_next_pgno t1 = mt_next_pgno t" using k by (auto simp: keeps_def)
      moreover have "reads_same t t' ({..<mt_next_pgno t} - {pgno})"
        using g k1(3) [of "{..<mt_next_pgno t} - {pgno}"] calculation by (simp add: granted_def reads_same_def)
      moreover have "alloc_frame t pgno np t'" using alloc_frame_keeps [OF k] g by (simp add: granted_def)
      ultimately show ?thesis using g k1(2) k1(4) [of np] unfolding granted_def by auto
    qed
    then show ?thesis using a taken_old [OF fk k fk1 num(1) n31 tk] by (cases r) auto
  qed
  show ?thesis
  proof (cases e)
    case (At i pgno)
    then show ?thesis using start pages [of i pgno] l(2) num by (auto simp: searched_def taken_def run_at_def)
  next
    case New_pages
    then show ?thesis using start pages [of 0 "mt_next_pgno t1"] txn_fail_error by (auto simp: taken_def)
  next
    case (Fail rc)
    then show ?thesis using start l(2) txn_fail_error by (auto simp: searched_def)
  next
    case (Return rc)
    then show ?thesis using l(2) by (auto simp: searched_def)
  qed
qed

section \<open>Properties\<close>

text \<open>A write transaction on an empty database, with one reader.\<close>

definition sample_wenv :: mdb_env where
  "sample_wenv = \<lparr>me_flags = 0, me_psize = 64, me_maxpg = 10, me_nodemax = 20, me_map = [], me_dbiseqs = [0, 0], me_pghead = None,
     me_pglast = 0, me_pgoldest = 0, me_dpages = [],
     me_txns = Some \<lparr>mti_txnid = 5, mti_numreaders = 1, mti_readers = [\<lparr>mr_txnid = 4, mr_pid = 1, mr_tid = 1\<rparr>]\<rparr>, me_mapsize = 640, me_maxreaders = 126, me_numreaders = 0,
     me_numdbs = 2, me_maxdbs = 2, me_pid = 1, me_dbxs = replicate 2 \<lparr>md_name = None, md_cmp = Cmp_long, md_dcmp = Cmp_memn\<rparr>,
     me_dbflags = [0, 0], me_txkey = (\<lambda>_. None), me_live_reader = False, me_free_pgs = None, me_dirty_list = [], me_txn = True\<rparr>"

definition sample_wdb :: mdb_db where
  "sample_wdb = \<lparr>md_pad = 0, md_flags = 8, md_depth = 0, md_branch_pages = 0, md_leaf_pages = 0, md_overflow_pages = 0,
     md_entries = 0, md_root = P_INVALID\<rparr>"

definition sample_wtxn :: mdb_txn where
  "sample_wtxn = \<lparr>mt_env = sample_wenv, mt_heap = Map.empty, mt_flags = 0, mt_txnid = 6, mt_next_pgno = 2,
     mt_levels = [\<lparr>mt_spill_pgs = None, dirty_list = replicate 131072 \<lparr>mid = 0, mptr = PMap 0\<rparr>\<rparr>],
     mt_free_pgs = \<lparr>alloclen = 1, cells = [0, 0]\<rparr>, mt_loose_pgs = [], mt_loose_count = 0, mt_dirty_room = 131071,
     mt_dbs = [sample_wdb, sample_wdb], mt_dbxs = replicate 2 \<lparr>md_name = None, md_cmp = Cmp_long, md_dcmp = Cmp_memn\<rparr>,
     mt_dbflags = [DB_VALID, DB_VALID], mt_dbiseqs = [0, 0], mt_numdbs = 2, mt_cursors = Some [[], []], mt_reader = None, mt_reset = False,
     mt_brk = 0, mt_oom = (\<lambda>_. False), mt_junk = (\<lambda>_ _. 0)\<rparr>"

lemma sample_wempty: "db_entries sample_wtxn FREE_DBI 0 = []" "free_ids sample_wtxn = []"
  by (simp_all add: db_entries_def sample_wtxn_def sample_wdb_def FREE_DBI_def free_ids_def sample_wenv_def)

lemma cmp_ok_long: "cmp_ok Cmp_long (\<lambda>k. length k = 8)"
  unfolding cmp_ok_def using cmp_long.key_order_axioms by auto

lemma sample_walloc: "alloc_ok sample_wtxn 0"
proof -
  have root: "db_root sample_wtxn FREE_DBI = P_INVALID" by (simp add: sample_wtxn_def sample_wdb_def FREE_DBI_def)
  have pool: "pool_list sample_wtxn 0 = []" by (simp add: pool_list_def unread_recs_def sample_wempty)
  have "db_ok (\<lambda>k. length k = 8) sample_wtxn FREE_DBI 0"
    unfolding db_ok_def root sample_wempty using cmp_ok_long
    by (simp add: sample_wtxn_def FREE_DBI_def DB_VALID_def DB_STALE_def sample_wdb_def MDB_DUPSORT_def)
  then have "records_ok sample_wtxn 0" by (simp add: records_ok_def sample_wempty) (simp add: sample_wtxn_def FREE_DBI_def)
  moreover have "pghead_ok sample_wtxn" by (simp add: pghead_ok_def sample_wtxn_def sample_wenv_def)
  moreover have "pool_ok sample_wtxn 0" by (simp add: pool_ok_def pool) (simp add: sample_wtxn_def)
  moreover have "readers_ok sample_wtxn" by (simp add: readers_ok_def sample_wtxn_def sample_wenv_def mdb_find_oldest_def)
  moreover have "db_pages sample_wtxn FREE_DBI 0 = {}" by (simp add: db_pages_def root sample_wempty)
  moreover have "id2l_list (replicate 131072 \<lparr>mid = 0, mptr = PMap 0\<rparr>) = []" "id2l_inv (replicate 131072 \<lparr>mid = 0, mptr = PMap 0\<rparr>)"
    by (simp_all add: id2l_list_def id2l_inv_def MDB_IDL_UM_MAX_def)
  ultimately show ?thesis
    unfolding alloc_ok_def free_ok_def pool
    by (simp add: heap_ok_def level_ok_def) (simp add: sample_wtxn_def sample_wenv_def MDB_IDL_UM_MAX_def)
qed





end
