(* ===== verification/Meta.thy ===== *)
theory Meta
  imports Alloc
begin

text \<open>
  The two meta pages at the start of the data file, from \<open>LegacyDatabase/mdb.c\<close>: reading them when
  an environment is opened, writing the first ones, and \<open>mdb_env_write_meta\<close>, which commits a
  transaction by writing the meta page that is not in use.

  The data file and its shared mapping have the same contents, so that one list of bytes, \<open>me_map\<close>,
  stands for both: \<open>pwrite\<close> on the file is visible in the map.  The answers of the operating system
  are arguments.
\<close>

section \<open>Constants\<close>

definition MDB_MAGIC :: nat where "MDB_MAGIC = 0xBEEFC0DE"
definition MDB_DATA_VERSION :: nat where "MDB_DATA_VERSION = 1"
definition MDB_FATAL_ERROR :: nat where "MDB_FATAL_ERROR = 0x80000000"
definition MDB_FIXEDMAP :: nat where "MDB_FIXEDMAP = 0x01"
definition MDB_NOSYNC :: nat where "MDB_NOSYNC = 0x10000"
definition MDB_RDONLY :: nat where "MDB_RDONLY = 0x20000"
definition MDB_NOMETASYNC :: nat where "MDB_NOMETASYNC = 0x40000"
definition MDB_INTEGERKEY :: nat where "MDB_INTEGERKEY = 0x08"
definition MAX_PAGESIZE :: nat where "MAX_PAGESIZE = 0x8000"
definition MDB_MINKEYS :: nat where "MDB_MINKEYS = 2"
definition DEFAULT_MAPSIZE :: nat where "DEFAULT_MAPSIZE = 1048576"

section \<open>File access\<close>

text \<open>
  \<open>Done n\<close>: at most \<open>n\<close> bytes are transferred and their number is reported.  \<open>Failed e n\<close>: the call
  returns -1 with the error \<open>e\<close>; a write may nevertheless have stored \<open>n\<close> bytes.
\<close>

datatype io = Done nat | Failed rc nat

definition io_count :: "io \<Rightarrow> nat" where
  "io_count a = (case a of Done n \<Rightarrow> n | Failed e n \<Rightarrow> n)"

definition c_pread :: "byte list \<Rightarrow> io \<Rightarrow> nat \<Rightarrow> nat \<Rightarrow> rc + byte list" where
  "c_pread f a sz off = (case a of Failed e n \<Rightarrow> Inl e | Done n \<Rightarrow> Inr (slice f off (min n sz)))"

text \<open>A write past the end of the file extends it with zeros.\<close>

definition file_put :: "byte list \<Rightarrow> nat \<Rightarrow> byte list \<Rightarrow> byte list" where
  "file_put f off b = splice (f @ replicate (off + length b - length f) 0) off b"

definition c_pwrite :: "byte list \<Rightarrow> io \<Rightarrow> byte list \<Rightarrow> nat \<Rightarrow> (rc + nat) \<times> byte list" where
  "c_pwrite f a b off =
     (let n = min (io_count a) (length b)
      in (case a of Failed e _ \<Rightarrow> Inl e | Done _ \<Rightarrow> Inr n, file_put f off (take n b)))"

section \<open>Meta pages\<close>

text \<open>\<open>mm_dbs\<close> has two elements: the database of free pages and the main database.\<close>

record mdb_meta =
  mm_magic :: nat
  mm_version :: nat
  mm_address :: nat
  mm_mapsize :: nat
  mm_dbs :: "mdb_db \<times> mdb_db"
  mm_last_pg :: nat
  mm_txnid :: nat

definition mm_psize :: "mdb_meta \<Rightarrow> nat" where "mm_psize m = md_pad (fst (mm_dbs m))"
definition mm_flags :: "mdb_meta \<Rightarrow> nat" where "mm_flags m = md_flags (fst (mm_dbs m))"

definition META_SIZE :: nat where "META_SIZE = 136"

definition meta_of_bytes :: "byte list \<Rightarrow> mdb_meta option" where
  "meta_of_bytes b = do {
     magic \<leftarrow> rd32 b 0; ver \<leftarrow> rd32 b 4; addr \<leftarrow> rd64 b 8; ms \<leftarrow> rd64 b 16;
     db0 \<leftarrow> get_bytes b 24 48; db0 \<leftarrow> db_of_bytes db0;
     db1 \<leftarrow> get_bytes b 72 48; db1 \<leftarrow> db_of_bytes db1;
     lpg \<leftarrow> rd64 b 120; tid \<leftarrow> rd64 b 128;
     Some \<lparr>mm_magic = magic, mm_version = ver, mm_address = addr, mm_mapsize = ms, mm_dbs = (db0, db1),
           mm_last_pg = lpg, mm_txnid = tid\<rparr> }"

text \<open>The part of a meta page from \<open>mm_mapsize\<close> on is what a commit writes.\<close>

definition meta_tail :: "mdb_meta \<Rightarrow> byte list" where
  "meta_tail m = le_bytes 8 (mm_mapsize m) @ bytes_of_db (fst (mm_dbs m)) @ bytes_of_db (snd (mm_dbs m)) @
     le_bytes 8 (mm_last_pg m) @ le_bytes 8 (mm_txnid m)"

definition bytes_of_meta :: "mdb_meta \<Rightarrow> byte list" where
  "bytes_of_meta m = le_bytes 4 (mm_magic m) @ le_bytes 4 (mm_version m) @ le_bytes 8 (mm_address m) @ meta_tail m"

definition me_metas :: "mdb_env \<Rightarrow> nat \<Rightarrow> mdb_meta option" where
  "me_metas e i = do { b \<leftarrow> get_bytes (me_map e) (PAGEHDRSZ + me_psize e * i) META_SIZE; meta_of_bytes b }"

definition mdb_env_pick_meta :: "mdb_env \<Rightarrow> nat option" where
  "mdb_env_pick_meta e = do {
     m0 \<leftarrow> me_metas e 0; m1 \<leftarrow> me_metas e 1;
     Some (if mm_txnid m0 < mm_txnid m1 then 1 else 0) }"

section \<open>Opening\<close>

text \<open>One iteration of the loop in \<open>mdb_env_read_header\<close>: a meta page is read at \<open>off\<close> and checked.\<close>

definition read_meta :: "byte list \<Rightarrow> io \<Rightarrow> nat \<Rightarrow> (rc + mdb_meta) option" where
  "read_meta f a off = (case c_pread f a (PAGEHDRSZ + META_SIZE) off of
       Inl e \<Rightarrow> Some (Inl e)
     | Inr p \<Rightarrow>
         if length p \<noteq> PAGEHDRSZ + META_SIZE
         then Some (Inl (if length p = 0 \<and> off = 0 then ENOENT else MDB_INVALID))
         else do {
           fl \<leftarrow> mp_flags p;
           if \<not> F_ISSET fl P_META then Some (Inl MDB_INVALID)
           else do {
             b \<leftarrow> get_bytes p PAGEHDRSZ META_SIZE;
             m \<leftarrow> meta_of_bytes b;
             if mm_magic m \<noteq> MDB_MAGIC then Some (Inl MDB_INVALID)
             else if mm_version m \<noteq> MDB_DATA_VERSION then Some (Inl MDB_VERSION_MISMATCH)
             else Some (Inr m) } })"

definition mdb_env_read_header :: "byte list \<Rightarrow> io \<Rightarrow> io \<Rightarrow> (rc + mdb_meta) option" where
  "mdb_env_read_header f a0 a1 = do {
     r \<leftarrow> read_meta f a0 0;
     (case r of
        Inl e \<Rightarrow> Some (Inl e)
      | Inr meta \<Rightarrow> do {
          let off = mm_psize meta;
          r \<leftarrow> read_meta f a1 off;
          (case r of
             Inl e \<Rightarrow> Some (Inl e)
           | Inr m \<Rightarrow> Some (Inr (if off = 0 \<or> mm_txnid m > mm_txnid meta then m else meta))) }) }"

definition mdb_env_init_meta0 :: "mdb_env \<Rightarrow> mdb_meta \<Rightarrow> mdb_meta" where
  "mdb_env_init_meta0 e m =
     m\<lparr>mm_magic := MDB_MAGIC, mm_version := MDB_DATA_VERSION, mm_mapsize := me_mapsize e, mm_last_pg := 1,
       mm_dbs := ((fst (mm_dbs m))\<lparr>md_pad := me_psize e, md_flags := me_flags e AND 0xffff OR MDB_INTEGERKEY,
                     md_root := P_INVALID\<rparr>,
                  (snd (mm_dbs m))\<lparr>md_root := P_INVALID\<rparr>)\<rparr>"

text \<open>
  Page \<open>i\<close> of the new file, in memory that \<open>calloc\<close> has filled with zeros.
\<close>

definition meta_page :: "nat \<Rightarrow> nat \<Rightarrow> mdb_meta \<Rightarrow> byte list option" where
  "meta_page psize i m = do {
     p \<leftarrow> wr64 (replicate psize 0) 0 i;
     p \<leftarrow> wr16 p 10 P_META;
     put_bytes p PAGEHDRSZ (bytes_of_meta m) }"

text \<open>\<open>oom\<close> is the failure of \<open>calloc\<close>, whose result the code does not check.\<close>

definition mdb_env_init_meta :: "bool \<Rightarrow> io \<Rightarrow> mdb_env \<Rightarrow> mdb_meta \<Rightarrow> (rc \<times> mdb_env \<times> mdb_meta) option" where
  "mdb_env_init_meta oom w e meta = (if oom then None else do {
     let psize = me_psize e;
     let meta = mdb_env_init_meta0 e meta;
     p \<leftarrow> meta_page psize 0 meta;
     q \<leftarrow> meta_page psize 1 meta;
     let (r, f) = c_pwrite (me_map e) w (p @ q) 0;
     Some (case r of
         Inl e \<Rightarrow> e
       | Inr n \<Rightarrow> if n = psize * 2 then MDB_SUCCESS else ENOSPC,
       e\<lparr>me_map := f\<rparr>, meta) })"

text \<open>
  The data file with contents \<open>f\<close> is mapped at the address that \<open>mmap\<close> returns; with \<open>MDB_WRITEMAP\<close> it is given
  the size of the map first.
\<close>

definition mdb_env_map :: "rc \<Rightarrow> rc + nat \<Rightarrow> byte list \<Rightarrow> mdb_env \<Rightarrow> nat \<Rightarrow> rc \<times> mdb_env" where
  "mdb_env_map trunc mm f e addr =
     (let wm = me_flags e AND MDB_WRITEMAP \<noteq> 0
      in if wm \<and> trunc \<noteq> MDB_SUCCESS then (trunc, e)
         else case mm of
           Inl r \<Rightarrow> (r, e)
         | Inr a \<Rightarrow>
             let f = (if wm then take (me_mapsize e) f @ replicate (me_mapsize e - length f) 0 else f);
                 e = e\<lparr>me_map := f\<rparr>
             in (if addr \<noteq> 0 \<and> a \<noteq> addr then EBUSY else MDB_SUCCESS, e))"

text \<open>The fields of the environment that follow from the page size.\<close>

definition open_sizes :: "mdb_env \<Rightarrow> mdb_env option" where
  "open_sizes e =
     (if me_psize e = 0 then None
      else Some (e\<lparr>me_nodemax := u32 ((u32 (me_psize e + 2 ^ 32 - PAGEHDRSZ) div MDB_MINKEYS) div 2 * 2 + 2 ^ 32 - 2),
                   me_maxpg := me_mapsize e div me_psize e\<rparr>))"

definition zero_db :: mdb_db where
  "zero_db = \<lparr>md_pad = 0, md_flags = 0, md_depth = 0, md_branch_pages = 0, md_leaf_pages = 0,
     md_overflow_pages = 0, md_entries = 0, md_root = 0\<rparr>"

definition zero_meta :: mdb_meta where
  "zero_meta = \<lparr>mm_magic = 0, mm_version = 0, mm_address = 0, mm_mapsize = 0, mm_dbs = (zero_db, zero_db),
     mm_last_pg = 0, mm_txnid = 0\<rparr>"

text \<open>The size of the map: the configured one, the default, or the one recorded in the file.\<close>

definition open_mapsize :: "bool \<Rightarrow> mdb_env \<Rightarrow> mdb_meta \<Rightarrow> nat" where
  "open_mapsize newenv e meta =
     (if me_mapsize e = 0 then if newenv then DEFAULT_MAPSIZE else mm_mapsize meta
      else if me_mapsize e < mm_mapsize meta then
        let minsize = (mm_last_pg meta + 1) * mm_psize meta mod 2 ^ 64
        in if me_mapsize e < minsize then minsize else me_mapsize e
      else me_mapsize e)"

record open_io =
  o_read0 :: io
  o_read1 :: io
  o_trunc :: rc
  o_mmap :: "rc + nat"
  o_oom :: bool
  o_write :: io

text \<open>The header of the file, or an empty one for a new environment, whose page size is that of the system.\<close>

definition open_header :: "open_io \<Rightarrow> nat \<Rightarrow> byte list \<Rightarrow> (rc + bool \<times> mdb_meta \<times> nat) option" where
  "open_header os os_psize f = do {
     i \<leftarrow> mdb_env_read_header f (o_read0 os) (o_read1 os);
     Some (case i of
         Inl r \<Rightarrow> if r \<noteq> ENOENT then Inl r else Inr (True, zero_meta, min os_psize MAX_PAGESIZE)
       | Inr meta \<Rightarrow> Inr (False, meta, mm_psize meta)) }"

definition mdb_env_open2 :: "open_io \<Rightarrow> nat \<Rightarrow> byte list \<Rightarrow> mdb_env \<Rightarrow> (rc \<times> mdb_env) option" where
  "mdb_env_open2 os os_psize f e = do {
     i \<leftarrow> open_header os os_psize f;
     (case i of
        Inl r \<Rightarrow> Some (r, e)
      | Inr (newenv, meta, psize) \<Rightarrow> do {
          let e = e\<lparr>me_psize := psize, me_mapsize := open_mapsize newenv e meta\<rparr>;
          let fixed = (me_flags e AND MDB_FIXEDMAP \<noteq> 0);
          let (r, e) = mdb_env_map (o_trunc os) (o_mmap os) f e (if fixed then mm_address meta else 0);
          if r \<noteq> MDB_SUCCESS then Some (r, e)
          else do {
            (r, e) \<leftarrow> (if newenv then do {
                let meta = (if fixed then meta\<lparr>mm_address := (case o_mmap os of Inr a \<Rightarrow> a | Inl _ \<Rightarrow> 0)\<rparr> else meta);
                (r, e, meta) \<leftarrow> mdb_env_init_meta (o_oom os) (o_write os) e meta;
                Some (r, e) }
              else Some (MDB_SUCCESS, e));
            if r \<noteq> MDB_SUCCESS then Some (r, e)
            else do { e \<leftarrow> open_sizes e; Some (MDB_SUCCESS, e) } } }) }"

section \<open>Committing\<close>

text \<open>
  \<open>w1\<close> and \<open>w2\<close> answer the write of the new data and, when it fails, the write of the old transaction ID;
  \<open>ms\<close> answers \<open>msync\<close>.
\<close>

definition meta_fail :: "mdb_txn \<Rightarrow> mdb_txn" where
  "meta_fail t = upd_env (\<lambda>e. e\<lparr>me_flags := me_flags e OR MDB_FATAL_ERROR\<rparr>) t"

definition meta_done :: "mdb_txn \<Rightarrow> mdb_txn" where
  "meta_done t = upd_env (\<lambda>e. e\<lparr>me_txns := map_option (\<lambda>ti. ti\<lparr>mti_txnid := mt_txnid t\<rparr>) (me_txns e)\<rparr>) t"

text \<open>
  The offset of the write, the meta page that is replaced, and the new one.  The first three fields of the local
  variable \<open>meta\<close> are not initialised and not written; here they are those of the page that is replaced.
\<close>

definition new_meta :: "mdb_txn \<Rightarrow> (nat \<times> mdb_meta \<times> mdb_meta) option" where
  "new_meta t = do {
     let e = mt_env t;
     let toggle = mt_txnid t mod 2;
     mp \<leftarrow> me_metas e toggle;
     other \<leftarrow> me_metas e (1 - toggle);
     let mapsize = (if mm_mapsize other < me_mapsize e then me_mapsize e else mm_mapsize other);
     db0 \<leftarrow> c_read (mt_dbs t) 0;
     db1 \<leftarrow> c_read (mt_dbs t) 1;
     let meta = mp\<lparr>mm_mapsize := mapsize, mm_dbs := (db0, db1), mm_last_pg := mt_next_pgno t - 1, mm_txnid := mt_txnid t\<rparr>;
     Some (16 + (if toggle = 1 then me_psize e else 0) + PAGEHDRSZ, mp, meta) }"

definition mdb_env_write_meta :: "io \<Rightarrow> io \<Rightarrow> rc \<Rightarrow> mdb_txn \<Rightarrow> (rc \<times> mdb_txn) option" where
  "mdb_env_write_meta w1 w2 ms t = do {
     let e = mt_env t;
     (off, mp, meta) \<leftarrow> new_meta t;
     if me_flags e AND MDB_WRITEMAP \<noteq> 0 then do {
       m \<leftarrow> put_bytes (me_map e) off (meta_tail meta);
       let t = upd_env (\<lambda>e. e\<lparr>me_map := m\<rparr>) t;
       if me_flags e AND (MDB_NOMETASYNC OR MDB_NOSYNC) = 0 \<and> ms \<noteq> MDB_SUCCESS then Some (ms, meta_fail t)
       else Some (MDB_SUCCESS, meta_done t) }
     else do {
       let (r, m) = c_pwrite (me_map e) w1 (meta_tail meta) off;
       if r = Inr (length (meta_tail meta)) then Some (MDB_SUCCESS, meta_done (upd_env (\<lambda>e. e\<lparr>me_map := m\<rparr>) t))
       else do {
         let old = meta\<lparr>mm_last_pg := mm_last_pg mp, mm_txnid := mm_txnid mp\<rparr>;
         let (_, m) = c_pwrite m w2 (meta_tail old) off;
         Some (case r of Inl err \<Rightarrow> err | Inr _ \<Rightarrow> EIO, meta_fail (upd_env (\<lambda>e. e\<lparr>me_map := m\<rparr>) t)) } } }"

end
