(* ===== verification/Txn.thy ===== *)
theory Txn
  imports Meta
begin

text \<open>
  The life of a transaction, from \<open>LegacyDatabase/mdb.c\<close>: \<open>mdb_txn_renew0\<close>, \<open>mdb_txn_renew\<close>, \<open>mdb_txn_begin\<close>,
  \<open>mdb_dbis_update\<close>, \<open>mdb_cursors_close\<close>, \<open>mdb_txn_reset0\<close>, \<open>mdb_txn_reset\<close> and \<open>mdb_txn_abort\<close>, without nested transactions.

  A write transaction is the preallocated \<open>me_txn0\<close>, whose record holds the environment.  The answers of the
  operating system to a thread (its identity, the locks, the thread-specific value) are an argument.
\<close>

section \<open>Constants\<close>

definition DB_NEW :: nat where "DB_NEW = 0x04"
definition MDB_VALID :: nat where "MDB_VALID = 0x8000"
definition PERSISTENT_FLAGS :: nat where "PERSISTENT_FLAGS = 0x7fff"
definition MDB_NOTLS :: nat where "MDB_NOTLS = 0x200000"

text \<open>\<open>(txnid_t)-1\<close>, the ID of a slot whose reader is not active.\<close>

definition NO_TXNID :: nat where "NO_TXNID = 2 ^ 64 - 1"

record thread_os =
  th_tid :: nat
  th_pidset :: rc
  th_rlock :: rc
  th_wlock :: rc
  th_setspecific :: rc

section \<open>Database handles\<close>

text \<open>One iteration of the loop in \<open>mdb_dbis_update\<close>.\<close>

definition dbi_update :: "bool \<Rightarrow> mdb_txn \<Rightarrow> nat \<Rightarrow> mdb_txn option" where
  "dbi_update keep t i = do {
     fl \<leftarrow> c_read (mt_dbflags t) i;
     if fl AND DB_NEW = 0 then Some t
     else if keep then do {
       db \<leftarrow> c_read (mt_dbs t) i;
       fs \<leftarrow> c_write (me_dbflags (mt_env t)) i (md_flags db OR MDB_VALID);
       Some (upd_env (\<lambda>e. e\<lparr>me_dbflags := fs\<rparr>) t) }
     else do {
       x \<leftarrow> c_read (me_dbxs (mt_env t)) i;
       if md_name x = None then Some t
       else do {
         xs \<leftarrow> c_write (me_dbxs (mt_env t)) i (x\<lparr>md_name := None\<rparr>);
         fs \<leftarrow> c_write (me_dbflags (mt_env t)) i 0;
         s \<leftarrow> c_read (me_dbiseqs (mt_env t)) i;
         ss \<leftarrow> c_write (me_dbiseqs (mt_env t)) i (u32 (s + 1));
         Some (upd_env (\<lambda>e. e\<lparr>me_dbxs := xs, me_dbflags := fs, me_dbiseqs := ss\<rparr>) t) } } }"

fun dbis_loop :: "bool \<Rightarrow> mdb_txn \<Rightarrow> nat \<Rightarrow> mdb_txn option" where
  "dbis_loop keep t 0 = Some t"
| "dbis_loop keep t (Suc i) = (if i < 2 then Some t else do { t \<leftarrow> dbi_update keep t i; dbis_loop keep t i })"

definition mdb_dbis_update :: "mdb_txn \<Rightarrow> bool \<Rightarrow> mdb_txn option" where
  "mdb_dbis_update t keep = do {
     t \<leftarrow> dbis_loop keep t (mt_numdbs t);
     Some (if keep \<and> me_numdbs (mt_env t) < mt_numdbs t
           then upd_env (\<lambda>e. e\<lparr>me_numdbs := mt_numdbs t\<rparr>) t else t) }"

text \<open>No cursor has a backup outside nested transactions: all tracked cursors are freed.\<close>

definition mdb_cursors_close :: "mdb_txn \<Rightarrow> mdb_txn option" where
  "mdb_cursors_close t = do {
     cs \<leftarrow> mt_cursors t;
     if length cs < mt_numdbs t then None
     else Some (t\<lparr>mt_cursors := Some (replicate (mt_numdbs t) [] @ drop (mt_numdbs t) cs)\<rparr>) }"

section \<open>Ending a transaction\<close>

definition upd_reader :: "nat \<Rightarrow> (mdb_reader \<Rightarrow> mdb_reader) \<Rightarrow> mdb_txn \<Rightarrow> mdb_txn option" where
  "upd_reader i g t = do {
     ti \<leftarrow> me_txns (mt_env t);
     r \<leftarrow> c_read (mti_readers ti) i;
     rs \<leftarrow> c_write (mti_readers ti) i (g r);
     Some (upd_env (\<lambda>e. e\<lparr>me_txns := Some (ti\<lparr>mti_readers := rs\<rparr>)\<rparr>) t) }"

text \<open>
  \<open>mt_free_pgs\<close> and \<open>me_free_pgs\<close> are the same block until the list grows and is reallocated.  When the block cannot be
  shrunk again, \<open>me_free_pgs\<close> is left dangling.
\<close>

definition give_back_lists :: "mdb_txn \<Rightarrow> mdb_txn option" where
  "give_back_lists t = do {
     let (al, t) = c_alloc t;
     let (ok, il) = mdb_midl_shrink al (mt_free_pgs t);
     dl \<leftarrow> own_dirty t;
     Some (upd_env (\<lambda>e. e\<lparr>me_free_pgs := (if ok \<or> unat (alloclen il) \<le> MDB_IDL_UM_MAX then Some il else None),
                          me_dirty_list := dl\<rparr>) (t\<lparr>mt_free_pgs := il\<rparr>)) }"

definition mdb_txn_reset0 :: "mdb_txn \<Rightarrow> mdb_txn option" where
  "mdb_txn_reset0 t = do {
     t \<leftarrow> mdb_dbis_update t False;
     if F_ISSET (mt_flags t) MDB_TXN_RDONLY then do {
       t \<leftarrow> (case mt_reader t of
             None \<Rightarrow> Some t
           | Some i \<Rightarrow> do {
               t \<leftarrow> upd_reader i (\<lambda>r. r\<lparr>mr_txnid := NO_TXNID\<rparr>) t;
               Some (if me_flags (mt_env t) AND MDB_NOTLS = 0 then t\<lparr>mt_reader := None\<rparr> else t) });
       Some (t\<lparr>mt_numdbs := 0, mt_reset := True\<rparr>) }
     else do {
       let t = upd_env (\<lambda>e. e\<lparr>me_pghead := None, me_pglast := 0\<rparr>) t;
       t \<leftarrow> (if me_flags (mt_env t) AND MDB_WRITEMAP = 0 then mdb_dlist_free t else Some t);
       t \<leftarrow> give_back_lists t;
       let t = upd_env (\<lambda>e. e\<lparr>me_txn := False\<rparr>) t;
       mdb_cursors_close t } }"

definition mdb_txn_reset :: "mdb_txn \<Rightarrow> mdb_txn option" where
  "mdb_txn_reset t = (if mt_flags t AND MDB_TXN_RDONLY = 0 then Some t else mdb_txn_reset0 t)"

definition mdb_txn_abort :: "mdb_txn \<Rightarrow> mdb_txn option" where
  "mdb_txn_abort t = do {
     t \<leftarrow> mdb_txn_reset0 t;
     (case mt_reader t of
        Some i \<Rightarrow> if mt_flags t AND MDB_TXN_RDONLY \<noteq> 0 then upd_reader i (\<lambda>r. r\<lparr>mr_pid := 0\<rparr>) t else Some t
      | None \<Rightarrow> Some t) }"

section \<open>Starting a transaction\<close>

text \<open>The first unused slot below \<open>nr\<close>, or \<open>nr\<close>.\<close>

fun free_slot :: "mdb_reader list \<Rightarrow> nat \<Rightarrow> nat \<Rightarrow> nat option" where
  "free_slot rs i 0 = Some i"
| "free_slot rs i (Suc n) = do { r \<leftarrow> c_read rs i; if mr_pid r = 0 then Some i else free_slot rs (i + 1) n }"

definition take_slot :: "thread_os \<Rightarrow> mdb_txn \<Rightarrow> ((rc + nat) \<times> mdb_txn) option" where
  "take_slot os t =
     (if \<not> me_live_reader (mt_env t) \<and> th_pidset os \<noteq> MDB_SUCCESS then Some (Inl (th_pidset os), t)
      else
        let t = upd_env (\<lambda>e. e\<lparr>me_live_reader := True\<rparr>) t; e = mt_env t
        in if th_rlock os \<noteq> MDB_SUCCESS then Some (Inl (th_rlock os), t)
           else do {
             ti \<leftarrow> me_txns e;
             i \<leftarrow> free_slot (mti_readers ti) 0 (mti_numreaders ti);
             if i = me_maxreaders e then Some (Inl MDB_READERS_FULL, t)
             else do {
               r \<leftarrow> c_read (mti_readers ti) i;
               rs \<leftarrow> c_write (mti_readers ti) i (r\<lparr>mr_pid := me_pid e, mr_tid := th_tid os\<rparr>);
               let nr = (if i = mti_numreaders ti then mti_numreaders ti + 1 else mti_numreaders ti);
               let t = upd_env (\<lambda>e. e\<lparr>me_txns := Some (ti\<lparr>mti_readers := rs, mti_numreaders := nr\<rparr>), me_numreaders := nr\<rparr>) t;
               if me_flags e AND MDB_NOTLS \<noteq> 0 then Some (Inr i, t)
               else if th_setspecific os \<noteq> MDB_SUCCESS then do {
                 t \<leftarrow> upd_reader i (\<lambda>r. r\<lparr>mr_pid := 0\<rparr>) t;
                 Some (Inl (th_setspecific os), t) }
               else Some (Inr i, upd_env (\<lambda>e. e\<lparr>me_txkey := (me_txkey e)(th_tid os \<mapsto> i)\<rparr>) t) } })"

text \<open>The reader's slot: the one that the transaction or the thread already has, or a new one.\<close>

definition reader_slot :: "thread_os \<Rightarrow> mdb_txn \<Rightarrow> ((rc + nat \<times> bool) \<times> mdb_txn) option" where
  "reader_slot os t = do {
     let notls = (me_flags (mt_env t) AND MDB_NOTLS \<noteq> 0);
     (case (if notls then mt_reader t else me_txkey (mt_env t) (th_tid os)) of
        Some i \<Rightarrow> do {
          ti \<leftarrow> me_txns (mt_env t);
          r \<leftarrow> c_read (mti_readers ti) i;
          Some (if mr_pid r \<noteq> me_pid (mt_env t) \<or> mr_txnid r \<noteq> NO_TXNID then Inl MDB_BAD_RSLOT else Inr (i, False), t) }
      | None \<Rightarrow> do {
          (s, t) \<leftarrow> take_slot os t;
          Some (case s of Inl r \<Rightarrow> Inl r | Inr i \<Rightarrow> Inr (i, notls), t) }) }"

definition renew_reader :: "thread_os \<Rightarrow> mdb_txn \<Rightarrow> ((rc + mdb_meta \<times> bool) \<times> mdb_txn) option" where
  "renew_reader os t = (case me_txns (mt_env t) of
       None \<Rightarrow> do {
         i \<leftarrow> mdb_env_pick_meta (mt_env t);
         meta \<leftarrow> me_metas (mt_env t) i;
         Some (Inr (meta, False), t\<lparr>mt_txnid := mm_txnid meta, mt_reader := None\<rparr>) }
     | Some ti \<Rightarrow> do {
         (s, t) \<leftarrow> reader_slot os t;
         (case s of
            Inl r \<Rightarrow> Some (Inl r, t)
          | Inr (i, new_notls) \<Rightarrow> do {
              t \<leftarrow> upd_reader i (\<lambda>r. r\<lparr>mr_txnid := mti_txnid ti\<rparr>) t;
              meta \<leftarrow> me_metas (mt_env t) (mti_txnid ti mod 2);
              Some (Inr (meta, new_notls), t\<lparr>mt_txnid := mti_txnid ti, mt_reader := Some i\<rparr>) }) })"

definition renew_writer :: "thread_os \<Rightarrow> mdb_txn \<Rightarrow> ((rc + mdb_meta \<times> bool) \<times> mdb_txn) option" where
  "renew_writer os t =
     (if me_txns (mt_env t) \<noteq> None \<and> th_wlock os \<noteq> MDB_SUCCESS then Some (Inl (th_wlock os), t)
      else do {
        (tid, meta) \<leftarrow> (case me_txns (mt_env t) of
            Some ti \<Rightarrow> do { meta \<leftarrow> me_metas (mt_env t) (mti_txnid ti mod 2); Some (mti_txnid ti, meta) }
          | None \<Rightarrow> do {
              i \<leftarrow> mdb_env_pick_meta (mt_env t);
              meta \<leftarrow> me_metas (mt_env t) i;
              Some (mm_txnid meta, meta) });
        c \<leftarrow> c_read (me_dirty_list (mt_env t)) 0;
        dl \<leftarrow> c_write (me_dirty_list (mt_env t)) 0 (c\<lparr>mid := 0\<rparr>);
        fp \<leftarrow> me_free_pgs (mt_env t);
        fc \<leftarrow> c_write (cells fp) 0 0;
        if length (me_dbiseqs (mt_env t)) < me_maxdbs (mt_env t) \<or> length (mt_dbiseqs t) < me_maxdbs (mt_env t) then None
        else Some (Inr (meta, False),
          upd_env (\<lambda>e. e\<lparr>me_txn := True\<rparr>)
            (t\<lparr>mt_txnid := (tid + 1) mod 2 ^ 64, mt_dirty_room := MDB_IDL_UM_MAX,
               mt_levels := [\<lparr>mt_spill_pgs = None, dirty_list = dl\<rparr>], mt_free_pgs := fp\<lparr>cells := fc\<rparr>,
               mt_dbiseqs := take (me_maxdbs (mt_env t)) (me_dbiseqs (mt_env t)) @ drop (me_maxdbs (mt_env t)) (mt_dbiseqs t)\<rparr>)) })"

text \<open>The flags of the named databases \<open>i\<close>, ..., \<open>i + n - 1\<close>; their records are read on first use.\<close>

fun named_dbs :: "mdb_txn \<Rightarrow> nat \<Rightarrow> nat \<Rightarrow> mdb_txn option" where
  "named_dbs t i 0 = Some t"
| "named_dbs t i (Suc n) = do {
     x \<leftarrow> c_read (me_dbflags (mt_env t)) i;
     db \<leftarrow> c_read (mt_dbs t) i;
     dbs \<leftarrow> c_write (mt_dbs t) i (db\<lparr>md_flags := x AND PERSISTENT_FLAGS\<rparr>);
     fs \<leftarrow> c_write (mt_dbflags t) i (if x AND MDB_VALID \<noteq> 0 then DB_VALID OR DB_STALE else 0);
     named_dbs (t\<lparr>mt_dbs := dbs, mt_dbflags := fs\<rparr>) (i + 1) n }"

text \<open>The databases of the snapshot: those of the meta page, and the named ones.\<close>

definition renew_dbs :: "mdb_meta \<Rightarrow> mdb_txn \<Rightarrow> mdb_txn option" where
  "renew_dbs meta t = do {
     dbs \<leftarrow> c_write (mt_dbs t) 0 (fst (mm_dbs meta));
     dbs \<leftarrow> c_write dbs 1 (snd (mm_dbs meta));
     t \<leftarrow> named_dbs (t\<lparr>mt_dbs := dbs, mt_next_pgno := (mm_last_pg meta + 1) mod 2 ^ 64\<rparr>) 2 (mt_numdbs t - 2);
     fs \<leftarrow> c_write (mt_dbflags t) 1 DB_VALID;
     fs \<leftarrow> c_write fs 0 DB_VALID;
     Some (t\<lparr>mt_dbflags := fs\<rparr>) }"

definition mdb_txn_renew0 :: "thread_os \<Rightarrow> mdb_txn \<Rightarrow> (rc \<times> mdb_txn) option" where
  "mdb_txn_renew0 os t = do {
     let t = t\<lparr>mt_numdbs := me_numdbs (mt_env t), mt_dbxs := me_dbxs (mt_env t), mt_reset := False\<rparr>;
     (s, t) \<leftarrow> (if mt_flags t AND MDB_TXN_RDONLY \<noteq> 0 then renew_reader os t else renew_writer os t);
     (case s of
        Inl r \<Rightarrow> Some (r, t)
      | Inr (meta, new_notls) \<Rightarrow> do {
          t \<leftarrow> renew_dbs meta t;
          if me_maxpg (mt_env t) < mt_next_pgno t then do {
            t \<leftarrow> mdb_txn_reset0 t;
            (case mt_reader t of
               Some i \<Rightarrow> if new_notls then do {
                   t \<leftarrow> upd_reader i (\<lambda>r. r\<lparr>mr_pid := 0\<rparr>) t;
                   Some (MDB_MAP_RESIZED, t\<lparr>mt_reader := None\<rparr>) }
                 else Some (MDB_MAP_RESIZED, t)
             | None \<Rightarrow> if new_notls then None else Some (MDB_MAP_RESIZED, t)) }
          else Some (MDB_SUCCESS, t) }) }"

definition mdb_txn_renew :: "thread_os \<Rightarrow> mdb_txn \<Rightarrow> (rc \<times> mdb_txn) option" where
  "mdb_txn_renew os t =
     (if \<not> mt_reset t then Some (EINVAL, t)
      else if me_flags (mt_env t) AND MDB_FATAL_ERROR \<noteq> 0 then Some (MDB_PANIC, t)
      else mdb_txn_renew0 os t)"

text \<open>A new read-only transaction, in memory filled with zeros.\<close>

definition new_reader :: "mdb_txn \<Rightarrow> mdb_txn" where
  "new_reader t0 = t0\<lparr>mt_flags := MDB_TXN_RDONLY, mt_txnid := 0, mt_next_pgno := 0, mt_levels := [],
     mt_free_pgs := \<lparr>alloclen = 0, cells = []\<rparr>, mt_loose_pgs := [],
     mt_loose_count := 0, mt_dirty_room := 0, mt_dbs := replicate (me_maxdbs (mt_env t0)) zero_db, mt_dbxs := [],
     mt_dbflags := replicate (me_maxdbs (mt_env t0)) 0, mt_dbiseqs := me_dbiseqs (mt_env t0), mt_numdbs := 0,
     mt_cursors := None, mt_reader := None, mt_reset := True\<rparr>"

text \<open>
  \<open>mdb_txn_begin\<close> without a parent: the result is the return code, \<open>me_txn0\<close> with the environment, and for a
  read-only transaction the new one.
\<close>

definition mdb_txn_begin :: "thread_os \<Rightarrow> nat \<Rightarrow> mdb_txn \<Rightarrow> (rc \<times> mdb_txn \<times> mdb_txn option) option" where
  "mdb_txn_begin os flags t0 =
     (if me_flags (mt_env t0) AND MDB_FATAL_ERROR \<noteq> 0 then Some (MDB_PANIC, t0, None)
      else if me_flags (mt_env t0) AND MDB_RDONLY \<noteq> 0 \<and> flags AND MDB_RDONLY = 0 then Some (EACCES, t0, None)
      else if flags AND MDB_RDONLY = 0 then do {
        (r, t) \<leftarrow> mdb_txn_renew0 os (t0\<lparr>mt_flags := 0\<rparr>);
        Some (r, t, None) }
      else do {
        let (al, t0) = c_alloc t0;
        if (al :: nat alloc) = None then Some (ENOMEM, t0, None)
        else do {
          (r, t) \<leftarrow> mdb_txn_renew0 os (new_reader t0);
          Some (r, t0\<lparr>mt_env := mt_env t\<rparr>, if r = MDB_SUCCESS then Some t else None) } })"

section \<open>The end of a commit\<close>

text \<open>\<open>mdb_txn_commit\<close> of a read-only transaction.\<close>

definition commit_rdonly :: "mdb_txn \<Rightarrow> mdb_txn option" where
  "commit_rdonly t = do { t \<leftarrow> mdb_dbis_update t True; mdb_txn_abort (t\<lparr>mt_numdbs := 2\<rparr>) }"

text \<open>The last steps of a commit, after the meta page is written.\<close>

definition commit_done :: "mdb_txn \<Rightarrow> mdb_txn option" where
  "commit_done t = mdb_dbis_update (upd_env (\<lambda>e. e\<lparr>me_pglast := 0, me_txn := False\<rparr>) t) True"

text \<open>The lock file takes the ID of the last transaction from the meta pages when an environment is opened.\<close>

definition mdb_env_share_locks :: "mdb_env \<Rightarrow> mdb_env option" where
  "mdb_env_share_locks e = do {
     toggle \<leftarrow> mdb_env_pick_meta e;
     meta \<leftarrow> me_metas e toggle;
     ti \<leftarrow> me_txns e;
     Some (e\<lparr>me_txns := Some (ti\<lparr>mti_txnid := mm_txnid meta\<rparr>)\<rparr>) }"

end
