(* ===== verification/Meta_Spec.thy ===== *)
theory Meta_Spec
  imports Meta
begin

text \<open>
  Properties of the meta pages: their layout (a round trip), which of the two pages is read, what a write of the new page
  leaves behind when it stops after any number of bytes, and that opening and committing keep the invariant
  \<open>meta_state\<close>, by which the last committed transaction and the one before it have a meta page each.
\<close>

section \<open>Layout\<close>

lemma slice_append2: "length a \<le> ofs \<Longrightarrow> slice (a @ b) ofs n = slice b (ofs - length a) n"
  by (simp add: slice_def)

lemma slice_append1: "n \<le> length a \<Longrightarrow> slice (a @ b) 0 n = take n a"
  by (simp add: slice_def)

lemma slice_all: "n = length a \<Longrightarrow> slice a 0 n = a"
  by (simp add: slice_def)

definition db_ranges :: "mdb_db \<Rightarrow> bool" where
  "db_ranges d \<longleftrightarrow> md_pad d < 2 ^ 32 \<and> md_flags d < 2 ^ 16 \<and> md_depth d < 2 ^ 16 \<and> md_branch_pages d < 2 ^ 64 \<and>
     md_leaf_pages d < 2 ^ 64 \<and> md_overflow_pages d < 2 ^ 64 \<and> md_entries d < 2 ^ 64 \<and> md_root d < 2 ^ 64"

definition meta_ranges :: "mdb_meta \<Rightarrow> bool" where
  "meta_ranges m \<longleftrightarrow> mm_magic m < 2 ^ 32 \<and> mm_version m < 2 ^ 32 \<and> mm_address m < 2 ^ 64 \<and> mm_mapsize m < 2 ^ 64 \<and>
     db_ranges (fst (mm_dbs m)) \<and> db_ranges (snd (mm_dbs m)) \<and> mm_last_pg m < 2 ^ 64 \<and> mm_txnid m < 2 ^ 64"

lemma length_bytes_of_db [simp]: "length (bytes_of_db d) = 48"
  by (simp add: bytes_of_db_def)

lemma length_meta_tail [simp]: "length (meta_tail m) = 120"
  by (simp add: meta_tail_def)

lemma length_bytes_of_meta [simp]: "length (bytes_of_meta m) = 136"
  by (simp add: bytes_of_meta_def)

lemma db_roundtrip: "db_ranges d \<Longrightarrow> db_of_bytes (bytes_of_db d) = Some d"
  by (simp add: db_of_bytes_def bytes_of_db_def rd_def slice_append1 slice_append2 slice_all db_ranges_def)

lemma meta_roundtrip: "meta_ranges m \<Longrightarrow> meta_of_bytes (bytes_of_meta m) = Some m"
  by (cases m) (auto simp: meta_of_bytes_def bytes_of_meta_def meta_tail_def rd_def get_bytes_def slice_append1 slice_append2 slice_all
    meta_ranges_def db_roundtrip)

lemma db_unread:
  assumes "length b = 48" obtains d where "db_of_bytes b = Some d" "db_ranges d" "bytes_of_db d = b"
proof -
  have r: "le_nat (slice b i k) < 256 ^ k" if "i + k \<le> 48" for i k
    using le_nat_slice_bound [of i k b] that assms by simp
  have eq: "le_bytes k (le_nat (slice b i k)) = slice b i k" if "i + k \<le> 48" for i k
    using that assms by (metis le_bytes_le_nat length_slice)
  define d where "d = \<lparr>md_pad = le_nat (slice b 0 4), md_flags = le_nat (slice b 4 2), md_depth = le_nat (slice b 6 2),
    md_branch_pages = le_nat (slice b 8 8), md_leaf_pages = le_nat (slice b 16 8), md_overflow_pages = le_nat (slice b 24 8),
    md_entries = le_nat (slice b 32 8), md_root = le_nat (slice b 40 8)\<rparr>"
  have "db_of_bytes b = Some d" using assms by (simp add: db_of_bytes_def rd_def d_def)
  moreover have "db_ranges d"
    using r [of 0 4] r [of 4 2] r [of 6 2] r [of 8 8] r [of 16 8] r [of 24 8] r [of 32 8] r [of 40 8]
    by (simp add: db_ranges_def d_def)
  moreover have "bytes_of_db d = slice b 0 48"
    using slice_append [of b 0 4 44] slice_append [of b 4 2 42] slice_append [of b 6 2 40] slice_append [of b 8 8 32]
      slice_append [of b 16 8 24] slice_append [of b 24 8 16] slice_append [of b 32 8 8]
    by (simp add: bytes_of_db_def d_def eq)
  ultimately show ?thesis using that assms by (simp add: slice_all)
qed

lemma meta_unread:
  assumes "length b = 136" obtains m where "meta_of_bytes b = Some m" "meta_ranges m" "bytes_of_meta m = b"
proof -
  have r: "le_nat (slice b i k) < 256 ^ k" if "i + k \<le> 136" for i k
    using le_nat_slice_bound [of i k b] that assms by simp
  have eq: "le_bytes k (le_nat (slice b i k)) = slice b i k" if "i + k \<le> 136" for i k
    using that assms by (metis le_bytes_le_nat length_slice)
  obtain d0 where d0: "db_of_bytes (slice b 24 48) = Some d0" "db_ranges d0" "bytes_of_db d0 = slice b 24 48"
    by (rule db_unread [of "slice b 24 48"]) (use assms in auto)
  obtain d1 where d1: "db_of_bytes (slice b 72 48) = Some d1" "db_ranges d1" "bytes_of_db d1 = slice b 72 48"
    by (rule db_unread [of "slice b 72 48"]) (use assms in auto)
  define m where "m = \<lparr>mm_magic = le_nat (slice b 0 4), mm_version = le_nat (slice b 4 4), mm_address = le_nat (slice b 8 8),
    mm_mapsize = le_nat (slice b 16 8), mm_dbs = (d0, d1), mm_last_pg = le_nat (slice b 120 8), mm_txnid = le_nat (slice b 128 8)\<rparr>"
  have "meta_of_bytes b = Some m" using assms d0 d1 by (simp add: meta_of_bytes_def rd_def get_bytes_def m_def)
  moreover have "meta_ranges m"
    using r [of 0 4] r [of 4 4] r [of 8 8] r [of 16 8] r [of 120 8] r [of 128 8] d0 d1 by (simp add: meta_ranges_def m_def)
  moreover have "bytes_of_meta m = slice b 0 136"
    using slice_append [of b 0 4 132] slice_append [of b 4 4 128] slice_append [of b 8 8 120] slice_append [of b 16 8 112]
      slice_append [of b 24 48 64] slice_append [of b 72 48 16] slice_append [of b 120 8 8]
    by (simp add: bytes_of_meta_def meta_tail_def m_def eq d0 d1)
  ultimately show ?thesis using that assms by (simp add: slice_all)
qed

section \<open>Reading meta pages\<close>

text \<open>A valid meta page at offset \<open>off\<close> of a file.\<close>

definition meta_on :: "byte list \<Rightarrow> nat \<Rightarrow> mdb_meta \<Rightarrow> bool" where
  "meta_on f off m \<longleftrightarrow> off + 152 \<le> length f \<and> F_ISSET (le_nat (slice f (off + 10) 2)) P_META \<and>
     slice f (off + 16) 136 = bytes_of_meta m \<and> meta_ranges m \<and> mm_magic m = MDB_MAGIC \<and> mm_version m = MDB_DATA_VERSION"

definition reads_all :: "io \<Rightarrow> bool" where
  "reads_all a \<longleftrightarrow> (case a of Done n \<Rightarrow> 152 \<le> n | Failed _ _ \<Rightarrow> False)"

lemma read_meta_on:
  assumes "meta_on f off m" "reads_all a" shows "read_meta f a off = Some (Inr m)"
proof -
  obtain n where a: "a = Done n" "152 \<le> n" using assms(2) by (auto simp: reads_all_def split: io.splits)
  have m: "off + 152 \<le> length f" "F_ISSET (le_nat (slice f (off + 10) 2)) P_META"
    "slice f (off + 16) 136 = bytes_of_meta m" "meta_ranges m" "mm_magic m = MDB_MAGIC" "mm_version m = MDB_DATA_VERSION"
    using assms(1) by (auto simp: meta_on_def)
  have s: "slice (slice f off 152) 10 2 = slice f (off + 10) 2" "slice (slice f off 152) 16 136 = slice f (off + 16) 136"
    using m(1) by (simp_all add: slice_slice)
  show ?thesis using m a
    by (simp add: read_meta_def c_pread_def PAGEHDRSZ_def META_SIZE_def min_def mp_flags_def rd_def get_bytes_def s meta_roundtrip)
qed

lemma me_metas_on: "meta_on (me_map e) (me_psize e * i) m \<Longrightarrow> me_metas e i = Some m"
  by (simp add: meta_on_def me_metas_def PAGEHDRSZ_def META_SIZE_def get_bytes_def meta_roundtrip add.commute)

text \<open>The newer of two meta pages; the first of them when they have the same transaction ID.\<close>

definition newer :: "mdb_meta \<Rightarrow> mdb_meta \<Rightarrow> mdb_meta" where
  "newer m0 m1 = (if mm_txnid m0 < mm_txnid m1 then m1 else m0)"

lemma read_header_newer:
  assumes "meta_on f 0 m0" "meta_on f (mm_psize m0) m1" "0 < mm_psize m0" "reads_all a0" "reads_all a1"
  shows "mdb_env_read_header f a0 a1 = Some (Inr (newer m0 m1))"
  using assms by (simp add: mdb_env_read_header_def read_meta_on newer_def)

lemma pick_meta_newer:
  assumes "meta_on (me_map e) 0 m0" "meta_on (me_map e) (me_psize e) m1"
  shows "\<exists>i. mdb_env_pick_meta e = Some i \<and> me_metas e i = Some (newer m0 m1)"
  using me_metas_on [of e 0 m0] me_metas_on [of e 1 m1] assms by (auto simp: mdb_env_pick_meta_def newer_def)

section \<open>Interrupted writes\<close>

text \<open>The first \<open>j\<close> bytes of one block followed by the rest of another.\<close>

definition torn :: "nat \<Rightarrow> byte list \<Rightarrow> byte list \<Rightarrow> byte list" where
  "torn j a b = take j a @ drop j b"

lemma length_torn [simp]: "length a = length b \<Longrightarrow> length (torn j a b) = length b"
  by (simp add: torn_def)

lemma slice_torn:
  assumes "length a = length b" "ofs + n \<le> length b"
  shows "slice (torn j a b) ofs n = torn (j - ofs) (slice a ofs n) (slice b ofs n)"
proof -
  have "slice (torn j a b) ofs n ! i = torn (j - ofs) (slice a ofs n) (slice b ofs n) ! i" if "i < n" for i
    using that assms by (auto simp: torn_def nth_slice nth_append min_def)
  then show ?thesis using assms by (intro nth_equalityI) auto
qed

lemma torn_same [simp]: "torn j a a = a"
  by (simp add: torn_def)

lemma torn_0 [simp]: "torn 0 a b = b"
  by (simp add: torn_def)

lemma torn_all [simp]: "length a = length b \<Longrightarrow> length b \<le> j \<Longrightarrow> torn j a b = a"
  by (simp add: torn_def)

lemma le_nat_torn:
  assumes "j \<le> k" "N < 256 ^ k" "M < 256 ^ k"
  shows "le_nat (torn j (le_bytes k N) (le_bytes k M)) = N mod 256 ^ j + 256 ^ j * (M div 256 ^ j)"
proof -
  have *: "le_bytes k x = le_bytes j x @ le_bytes (k - j) (x div 256 ^ j)" for x
    using le_bytes_add [of j "k - j" x] assms(1) by simp
  have "M div 256 ^ j < 256 ^ (k - j)"
    using assms by (simp add: less_mult_imp_div_less flip: power_add)
  then show ?thesis unfolding torn_def * [of N] * [of M] by (simp add: le_nat_append)
qed

text \<open>
  Writing the transaction ID \<open>M + d\<close> over \<open>M\<close>, byte by byte from the lowest one, goes through values that are either
  the new ID or not greater than the old one.
\<close>

lemma torn_txnid:
  assumes "M + d < 2 ^ 64" "d < 256"
  shows "le_nat (torn j (le_bytes 8 (M + d)) (le_bytes 8 M)) \<le> M \<or> torn j (le_bytes 8 (M + d)) (le_bytes 8 M) = le_bytes 8 (M + d)"
proof (cases "j = 0 \<or> 8 \<le> j")
  case True
  then show ?thesis using assms by auto
next
  case False
  define q where "q = (256 :: nat) ^ j"
  have q: "256 \<le> q" using False power_increasing [of 1 j "256 :: nat"] by (simp add: q_def)
  let ?b = "torn j (le_bytes 8 (M + d)) (le_bytes 8 M)"
  have v: "le_nat ?b = (M + d) mod q + q * (M div q)" unfolding q_def using False assms by (intro le_nat_torn) auto
  have md: "(M + d) mod q = (M mod q + d) mod q" by (rule mod_add_left_eq [symmetric])
  have less: "M mod q < q" using q by simp
  show ?thesis
  proof (cases "M mod q + d < q")
    case True
    then have "le_nat ?b = M + d" unfolding v md by simp
    then have "le_nat ?b = le_nat (le_bytes 8 (M + d))" using assms by simp
    then show ?thesis using le_nat_inject [of ?b "le_bytes 8 (M + d)"] by simp
  next
    case no: False
    have "(M + d) mod q = (M mod q + d - q) mod q" unfolding md using no by (intro le_mod_geq) simp
    also have "\<dots> \<le> M mod q + d - q" by (rule mod_less_eq_dividend)
    also have "\<dots> \<le> M mod q" using q assms(2) by simp
    finally have "le_nat ?b \<le> M mod q + q * (M div q)" unfolding v by (rule add_right_mono)
    then show ?thesis by simp
  qed
qed

lemma bytes_of_meta_txnid: "slice (bytes_of_meta m) 128 8 = le_bytes 8 (mm_txnid m)"
  by (simp add: bytes_of_meta_def meta_tail_def slice_append2 slice_all)

lemma bytes_of_meta_magic: "slice (bytes_of_meta m) 0 16 = le_bytes 4 (mm_magic m) @ le_bytes 4 (mm_version m) @ le_bytes 8 (mm_address m)"
  by (simp add: bytes_of_meta_def slice_def)

lemma bytes_of_meta_pad: "slice (bytes_of_meta m) 24 4 = le_bytes 4 (mm_psize m)"
  by (simp add: bytes_of_meta_def meta_tail_def bytes_of_db_def mm_psize_def slice_append1 slice_append2)

lemma split128: "length b = 136 \<Longrightarrow> slice b 0 128 @ slice b 128 8 = b"
  using slice_append [of b 0 128 8] slice_all [of 136 b] by simp

lemma meta_fields:
  assumes "meta_ranges m"
  shows "mm_txnid m = le_nat (slice (bytes_of_meta m) 128 8)" "mm_psize m = le_nat (slice (bytes_of_meta m) 24 4)"
    "mm_magic m = le_nat (slice (bytes_of_meta m) 0 4)" "mm_version m = le_nat (slice (bytes_of_meta m) 4 4)"
    "mm_address m = le_nat (slice (bytes_of_meta m) 8 8)"
  using assms
  by (simp_all add: bytes_of_meta_txnid bytes_of_meta_pad meta_ranges_def mm_psize_def db_ranges_def)
    (simp_all add: bytes_of_meta_def slice_append1 slice_append2)

text \<open>
  A meta page that is partly overwritten by a newer one with the same page size is still a meta page.  It is the
  new page, or its transaction ID is not greater than the old one.
\<close>

lemma torn_meta:
  assumes old: "meta_ranges m" and new: "meta_ranges m'" "mm_magic m' = mm_magic m" "mm_version m' = mm_version m"
    "mm_psize m' = mm_psize m" "mm_address m' = mm_address m" and id: "mm_txnid m' = mm_txnid m + d" "d < 256"
  obtains r where "torn j (bytes_of_meta m') (bytes_of_meta m) = bytes_of_meta r" "meta_ranges r" "mm_magic r = mm_magic m"
    "mm_version r = mm_version m" "mm_psize r = mm_psize m" "mm_address r = mm_address m" "r = m' \<or> mm_txnid r \<le> mm_txnid m"
proof -
  let ?b = "torn j (bytes_of_meta m') (bytes_of_meta m)"
  obtain r where r: "meta_ranges r" "bytes_of_meta r = ?b" using meta_unread [of ?b] by auto
  note f = meta_fields [OF r(1), unfolded r(2)] meta_fields [OF old] meta_fields [OF new(1)]
  have same: "slice ?b i k = slice (bytes_of_meta m) i k"
    if "i + k \<le> 136" "slice (bytes_of_meta m') i k = slice (bytes_of_meta m) i k" for i k
    using that by (simp add: slice_torn)
  have eq: "slice (bytes_of_meta m') i k = slice (bytes_of_meta m) i k"
    if "i + k \<le> 136" "le_nat (slice (bytes_of_meta m') i k) = le_nat (slice (bytes_of_meta m) i k)" for i k
    using that le_nat_inject [of "slice (bytes_of_meta m') i k" "slice (bytes_of_meta m) i k"] by simp
  have "mm_magic r = mm_magic m" "mm_version r = mm_version m" "mm_psize r = mm_psize m" "mm_address r = mm_address m"
    using same [of 0 4] same [of 4 4] same [of 24 4] same [of 8 8] eq [of 0 4] eq [of 4 4] eq [of 24 4] eq [of 8 8] new(2-5) f
    by (simp_all only:)
  moreover have "r = m' \<or> mm_txnid r \<le> mm_txnid m"
  proof -
    let ?t = "torn (j - 128) (le_bytes 8 (mm_txnid m')) (le_bytes 8 (mm_txnid m))"
    have t: "slice ?b 128 8 = ?t" by (simp add: slice_torn bytes_of_meta_txnid)
    have "mm_txnid m + d < 2 ^ 64" using new(1) id(1) by (simp add: meta_ranges_def)
    from torn_txnid [OF this id(2), of "j - 128"]
    consider "le_nat ?t \<le> mm_txnid m" | "?t = le_bytes 8 (mm_txnid m')" "128 < j" 
      unfolding id(1) by (cases "128 < j") (use \<open>mm_txnid m + d < 2 ^ 64\<close> in auto)
    then show ?thesis
    proof cases
      case 1
      then show ?thesis unfolding f(1) t by simp
    next
      case 2
      have lo: "slice ?b 0 128 = slice (bytes_of_meta m') 0 128" using 2(2) by (simp add: slice_torn)
      have hi: "slice ?b 128 8 = slice (bytes_of_meta m') 128 8" unfolding t 2(1) bytes_of_meta_txnid by (rule refl)
      have "?b = slice ?b 0 128 @ slice ?b 128 8"
        by (rule split128 [symmetric]) simp
      also have "\<dots> = slice (bytes_of_meta m') 0 128 @ slice (bytes_of_meta m') 128 8"
        by (rule arg_cong2 [OF lo hi])
      also have "\<dots> = bytes_of_meta m'"
        by (rule split128) simp
      finally have "bytes_of_meta r = bytes_of_meta m'" using r(2) by simp
      then show ?thesis using meta_roundtrip [OF r(1)] meta_roundtrip [OF new(1)] by (metis option.inject)
    qed
  qed
  ultimately show ?thesis using that r by metis
qed

lemma slice_splice_part:
  "length c \<le> n \<Longrightarrow> d + n \<le> length p \<Longrightarrow> slice (splice p d c) d n = c @ drop (length c) (slice p d n)"
  by (intro nth_equalityI) (auto simp: nth_slice nth_splice nth_append)

lemma file_put_inside: "off + length b \<le> length f \<Longrightarrow> file_put f off b = splice f off b"
  by (simp add: file_put_def)

lemma write_tail:
  fixes k :: nat
  assumes on: "meta_on f P m" and same: "mm_magic m' = mm_magic m" "mm_version m' = mm_version m" "mm_address m' = mm_address m"
  defines "f' \<equiv> file_put f (P + 32) (take k (meta_tail m'))"
  shows "length f' = length f" "slice f' (P + 10) 2 = slice f (P + 10) 2"
    "slice f' (P + 16) 136 = torn (16 + k) (bytes_of_meta m') (bytes_of_meta m)"
    "off + 152 \<le> length f \<Longrightarrow> off + 152 \<le> P \<or> P + 152 \<le> off \<Longrightarrow> meta_on f off r \<Longrightarrow> meta_on f' off r"
proof -
  let ?c = "take k (meta_tail m')"
  have len: "P + 152 \<le> length f" and b: "slice f (P + 16) 136 = bytes_of_meta m" using on by (auto simp: meta_on_def)
  have f': "f' = splice f (P + 32) ?c" unfolding f'_def using len by (intro file_put_inside) simp
  show "length f' = length f" "slice f' (P + 10) 2 = slice f (P + 10) 2"
    unfolding f' using len by (simp_all add: byte_simps)
  show "meta_on f' off r" if "off + 152 \<le> length f" "off + 152 \<le> P \<or> P + 152 \<le> off" "meta_on f off r"
    using that len unfolding f' meta_on_def by (auto simp: slice_splice_other)
  have split: "bytes_of_meta x = slice (bytes_of_meta x) 0 16 @ meta_tail x" for x
    by (simp add: bytes_of_meta_magic) (simp add: bytes_of_meta_def)
  have front: "slice (bytes_of_meta m') 0 16 = slice (bytes_of_meta m) 0 16"
    using same by (simp add: bytes_of_meta_magic)
  have lo: "slice f (P + 16) 16 = slice (bytes_of_meta m) 0 16"
    using slice_slice [of "P + 16" 136 f 0 16] len b by simp
  have hi: "slice f (P + 32) 120 = meta_tail m"
  proof -
    have "slice f (P + 32) 120 = slice (bytes_of_meta m) 16 120"
      using slice_slice [of "P + 16" 136 f 16 120] len b by (simp add: add.assoc)
    also have "\<dots> = meta_tail m" by (simp add: bytes_of_meta_def slice_append2 slice_all)
    finally show ?thesis .
  qed
  have "slice f' (P + 16) 136 = slice f' (P + 16) 16 @ slice f' (P + 32) 120"
    using slice_append [of f' "P + 16" 16 120] by (simp add: add.assoc)
  also have "slice f' (P + 16) 16 = slice (bytes_of_meta m) 0 16"
    unfolding f' using len lo by (simp add: byte_simps)
  also have "slice f' (P + 32) 120 = torn k (meta_tail m') (meta_tail m)"
    unfolding f' using len hi by (subst slice_splice_part) (simp_all add: torn_def min_def)
  also have "slice (bytes_of_meta m) 0 16 @ torn k (meta_tail m') (meta_tail m) =
      torn (16 + k) (slice (bytes_of_meta m') 0 16 @ meta_tail m') (slice (bytes_of_meta m) 0 16 @ meta_tail m)"
    by (simp add: torn_def front)
  finally show "slice f' (P + 16) 136 = torn (16 + k) (bytes_of_meta m') (bytes_of_meta m)"
    by (simp flip: split)
qed

section \<open>The state of the meta pages\<close>

text \<open>
  Transaction \<open>n\<close> was the last one to commit: its meta page \<open>m\<close> is page \<open>n mod 2\<close>, and the other meta page is that of the
  transaction before it.
\<close>

definition meta_state :: "mdb_env \<Rightarrow> nat \<Rightarrow> mdb_meta \<Rightarrow> mdb_meta \<Rightarrow> bool" where
  "meta_state e n m m' \<longleftrightarrow> 152 \<le> me_psize e \<and> mm_psize m = me_psize e \<and> mm_psize m' = me_psize e \<and>
     mm_txnid m = n \<and> mm_txnid m' = n - 1 \<and>
     meta_on (me_map e) (me_psize e * (n mod 2)) m \<and> meta_on (me_map e) (me_psize e * (1 - n mod 2)) m'"

definition committing :: "mdb_txn \<Rightarrow> nat \<Rightarrow> bool" where
  "committing t n \<longleftrightarrow> mt_txnid t = n + 1 \<and> n + 1 < 2 ^ 64 \<and> 2 \<le> length (mt_dbs t) \<and>
     db_ranges (mt_dbs t ! 0) \<and> db_ranges (mt_dbs t ! 1) \<and> md_pad (mt_dbs t ! 0) = me_psize (mt_env t) \<and>
     0 < mt_next_pgno t \<and> mt_next_pgno t < 2 ^ 64 \<and> me_mapsize (mt_env t) < 2 ^ 64"

definition next_meta :: "mdb_txn \<Rightarrow> mdb_meta \<Rightarrow> mdb_meta \<Rightarrow> mdb_meta" where
  "next_meta t m m' = m'\<lparr>mm_mapsize := max (mm_mapsize m) (me_mapsize (mt_env t)), mm_dbs := (mt_dbs t ! 0, mt_dbs t ! 1),
     mm_last_pg := mt_next_pgno t - 1, mm_txnid := mt_txnid t\<rparr>"

lemma meta_state_newer:
  assumes "meta_state e n m m'"
  shows "(if n mod 2 = 0 then newer m m' else newer m' m) = m"
proof -
  have "0 < n" if "n mod 2 \<noteq> 0" using that by (cases n) auto
  then show ?thesis using assms by (auto simp: meta_state_def newer_def)
qed

text \<open>The state as the code reads it: both meta pages by their position.\<close>

lemma meta_pages:
  assumes "meta_on f (psize * (n mod 2)) m" "meta_on f (psize * (1 - n mod 2)) m'"
  shows "meta_on f 0 (if n mod 2 = 0 then m else m')" "meta_on f psize (if n mod 2 = 0 then m' else m)"
  using assms by (auto simp: mod_2_eq_odd)

lemma meta_state_picks:
  assumes "meta_state e n m m'"
  shows "reads_all a0 \<Longrightarrow> reads_all a1 \<Longrightarrow> mdb_env_read_header (me_map e) a0 a1 = Some (Inr m)"
    and "mdb_env_pick_meta e = Some (n mod 2)" "me_metas e (n mod 2) = Some m" "me_metas e (1 - n mod 2) = Some m'"
proof -
  have s: "152 \<le> me_psize e" "mm_psize m = me_psize e" "mm_psize m' = me_psize e" "mm_txnid m = n" "mm_txnid m' = n - 1"
    and on: "meta_on (me_map e) (me_psize e * (n mod 2)) m" "meta_on (me_map e) (me_psize e * (1 - n mod 2)) m'"
    using assms by (auto simp: meta_state_def)
  note p = meta_pages [OF on]
  show m: "me_metas e (n mod 2) = Some m" "me_metas e (1 - n mod 2) = Some m'"
    using on by (auto intro: me_metas_on)
  show "mdb_env_read_header (me_map e) a0 a1 = Some (Inr m)" if "reads_all a0" "reads_all a1"
    using read_header_newer [OF p(1) _ _ that, of "if n mod 2 = 0 then m' else m"] p(2) s meta_state_newer [OF assms]
    by (auto split: if_splits)
  show "mdb_env_pick_meta e = Some (n mod 2)"
    using m s odd_pos [of n] by (cases "n mod 2 = 0") (auto simp: mdb_env_pick_meta_def mod_2_eq_odd)
qed

lemma new_meta_spec:
  assumes "meta_state (mt_env t) n m m'" "committing t n"
  shows "new_meta t = Some (me_psize (mt_env t) * (1 - n mod 2) + 32, m', next_meta t m m')" "meta_ranges (next_meta t m m')"
    "mm_psize (next_meta t m m') = me_psize (mt_env t)" "mm_txnid (next_meta t m m') = n + 1"
proof -
  have tog: "(n + 1) mod 2 = 1 - n mod 2" by presburger
  have c: "mt_txnid t = n + 1" "2 \<le> length (mt_dbs t)" using assms(2) by (auto simp: committing_def)
  note m = meta_state_picks(3,4) [OF assms(1)]
  have mx: "max (mm_mapsize m) (me_mapsize (mt_env t)) =
      (if mm_mapsize m < me_mapsize (mt_env t) then me_mapsize (mt_env t) else mm_mapsize m)" by simp
  have r: "c_read (mt_dbs t) 0 = Some (mt_dbs t ! 0)" "c_read (mt_dbs t) 1 = Some (mt_dbs t ! 1)"
    using c(2) by (auto simp: c_read_def)
  have "1 - (1 - n mod 2) = n mod 2" by presburger
  then show "new_meta t = Some (me_psize (mt_env t) * (1 - n mod 2) + 32, m', next_meta t m m')"
    unfolding new_meta_def c tog Let_def next_meta_def mx using m r
    by (auto simp: PAGEHDRSZ_def mod_2_eq_odd)
  show "meta_ranges (next_meta t m m')" "mm_psize (next_meta t m m') = me_psize (mt_env t)"
    "mm_txnid (next_meta t m m') = n + 1"
    using assms by (auto simp: meta_state_def committing_def meta_on_def meta_ranges_def next_meta_def mm_psize_def)
qed

text \<open>The data file when the write of the new meta page has stored its first \<open>k\<close> bytes only.\<close>

definition cut_off :: "mdb_txn \<Rightarrow> nat \<Rightarrow> byte list option" where
  "cut_off t k = do { (off, mp, meta) \<leftarrow> new_meta t; Some (file_put (me_map (mt_env t)) off (take k (meta_tail meta))) }"

lemma cut_off_page:
  assumes st: "meta_state (mt_env t) n m m'" and c: "committing t n"
  obtains f r where "cut_off t k = Some f" "length f = length (me_map (mt_env t))"
    "meta_on f (me_psize (mt_env t) * (n mod 2)) m" "meta_on f (me_psize (mt_env t) * (1 - n mod 2)) r"
    "mm_psize r = me_psize (mt_env t)" "r = next_meta t m m' \<or> mm_txnid r \<le> n - 1" "120 \<le> k \<longrightarrow> r = next_meta t m m'"
    "mm_address r = mm_address m'"
proof -
  let ?e = "mt_env t" let ?new = "next_meta t m m'"
  let ?P = "me_psize ?e * (1 - n mod 2)" let ?Q = "me_psize ?e * (n mod 2)"
  note nw = new_meta_spec [OF st c]
  define f where "f = file_put (me_map ?e) (?P + 32) (take k (meta_tail ?new))"
  have s: "152 \<le> me_psize ?e" "mm_psize m' = me_psize ?e" "mm_txnid m' = n - 1" "meta_on (me_map ?e) ?Q m"
    "meta_on (me_map ?e) ?P m'" using st by (auto simp: meta_state_def)
  have new: "mm_magic ?new = mm_magic m'" "mm_version ?new = mm_version m'" "mm_address ?new = mm_address m'"
    by (simp_all add: next_meta_def)
  note w = write_tail [OF s(5) new, where k = k, folded f_def]
  have far: "?Q + 152 \<le> ?P \<or> ?P + 152 \<le> ?Q" using s(1) by (auto simp: mod_2_eq_odd)
  obtain r where r: "torn (16 + k) (bytes_of_meta ?new) (bytes_of_meta m') = bytes_of_meta r" "meta_ranges r"
    "mm_magic r = mm_magic m'" "mm_version r = mm_version m'" "mm_psize r = mm_psize m'" "mm_address r = mm_address m'" "r = ?new \<or> mm_txnid r \<le> mm_txnid m'"
  proof (rule torn_meta [of m' ?new "n + 1 - (n - 1)" "16 + k"])
    show "meta_ranges m'" using s(5) by (simp add: meta_on_def)
  qed (use nw new s in auto)
  have "cut_off t k = Some f" by (simp add: cut_off_def nw f_def)
  moreover have "meta_on f ?Q m" using w(4) [OF _ far s(4)] s(4) by (simp add: meta_on_def)
  moreover have "meta_on f ?P r" using s(5) r w(1-3) by (simp add: meta_on_def)
  moreover have "r = ?new" if "120 \<le> k"
    using r(1,2) that meta_roundtrip [of r] meta_roundtrip [OF nw(2)] by simp
  ultimately show ?thesis using that w(1) r s by metis
qed

text \<open>However many bytes were stored, the file is that of the committed transaction or that of the new one.\<close>

lemma cut_off_recovers:
  assumes st: "meta_state (mt_env t) n m m'" and c: "committing t n" and a: "reads_all a0" "reads_all a1"
  obtains f r where "cut_off t k = Some f" "mdb_env_read_header f a0 a1 = Some (Inr r)" "r = m \<or> r = next_meta t m m'"
    "120 \<le> k \<longrightarrow> r = next_meta t m m'"
proof -
  obtain f r where f: "cut_off t k = Some f"
    and on: "meta_on f (me_psize (mt_env t) * (n mod 2)) m" "meta_on f (me_psize (mt_env t) * (1 - n mod 2)) r"
    and r: "mm_psize r = me_psize (mt_env t)" "r = next_meta t m m' \<or> mm_txnid r \<le> n - 1" "120 \<le> k \<longrightarrow> r = next_meta t m m'"
    by (rule cut_off_page [OF st c, of k])
  have s: "152 \<le> me_psize (mt_env t)" "mm_psize m = me_psize (mt_env t)" "mm_txnid m = n" using st by (auto simp: meta_state_def)
  have id: "mm_txnid (next_meta t m m') = n + 1" using new_meta_spec(4) [OF st c] .
  note p = meta_pages [OF on]
  have "mdb_env_read_header f a0 a1 = Some (Inr (if n mod 2 = 0 then newer m r else newer r m))"
    using read_header_newer [OF p(1) _ _ a, of "if n mod 2 = 0 then r else m"] p(2) s r(1) by (auto split: if_splits)
  moreover have "(if n mod 2 = 0 then newer m r else newer r m) = (if r = next_meta t m m' then r else m)"
  proof (cases "r = next_meta t m m'")
    case True
    then show ?thesis using id s(3) by (simp add: newer_def)
  next
    case False
    then have "mm_txnid r \<le> n - 1" using r(2) by simp
    moreover have "n - 1 < n" if "n mod 2 \<noteq> 0" using that by (cases n) auto
    ultimately have "newer m r = m" "n mod 2 \<noteq> 0 \<Longrightarrow> newer r m = m" using s(3) by (auto simp: newer_def)
    with False show ?thesis by simp
  qed
  ultimately have h: "mdb_env_read_header f a0 a1 = Some (Inr (if r = next_meta t m m' then r else m))" by simp
  show ?thesis by (rule that [OF f h]) (use r(3) in auto)
qed

section \<open>Committing\<close>

lemma upd_env_simps [simp]:
  "mt_env (upd_env g t) = g (mt_env t)" "mt_txnid (upd_env g t) = mt_txnid t" "mt_dbs (upd_env g t) = mt_dbs t"
  "mt_next_pgno (upd_env g t) = mt_next_pgno t"
  by (simp_all add: upd_env_def)

lemma meta_state_env: "me_map e' = me_map e \<Longrightarrow> me_psize e' = me_psize e \<Longrightarrow> meta_state e' n m m' = meta_state e n m m'"
  by (simp add: meta_state_def)

lemma cut_off_state:
  assumes st: "meta_state (mt_env t) n m m'" and c: "committing t n" and f: "cut_off t k = Some f" "120 \<le> k"
  shows "meta_state ((mt_env t)\<lparr>me_map := f\<rparr>) (n + 1) (next_meta t m m') m"
proof -
  obtain r where on: "meta_on f (me_psize (mt_env t) * (n mod 2)) m" "meta_on f (me_psize (mt_env t) * (1 - n mod 2)) r"
    and r: "120 \<le> k \<longrightarrow> r = next_meta t m m'"
    by (rule cut_off_page [OF st c, of k]) (use f(1) in auto)
  have "(n + 1) mod 2 = 1 - n mod 2" "1 - (1 - n mod 2) = n mod 2" by presburger+
  then show ?thesis using on r f(2) st new_meta_spec(3,4) [OF st c] by (simp add: meta_state_def)
qed

text \<open>The write of the whole meta page, in the file or in a writable map.\<close>

lemma write_meta_commits:
  assumes st: "meta_state (mt_env t) n m m'" and c: "committing t n"
    and ok: "if me_flags (mt_env t) AND MDB_WRITEMAP = 0 then w1 = Done k \<and> 120 \<le> k
      else me_flags (mt_env t) AND (MDB_NOMETASYNC OR MDB_NOSYNC) \<noteq> 0 \<or> ms = MDB_SUCCESS"
  obtains t' where "mdb_env_write_meta w1 w2 ms t = Some (MDB_SUCCESS, t')"
    "meta_state (mt_env t') (n + 1) (next_meta t m m') m"
    "me_txns (mt_env t') = map_option (\<lambda>ti. ti\<lparr>mti_txnid := n + 1\<rparr>) (me_txns (mt_env t))"
    "t' = t\<lparr>mt_env := (mt_env t)\<lparr>me_map := me_map (mt_env t'), me_txns := me_txns (mt_env t')\<rparr>\<rparr>"
proof -
  let ?e = "mt_env t" let ?P = "me_psize ?e * (1 - n mod 2)"
  note nw = new_meta_spec(1) [OF st c]
  have len: "?P + 152 \<le> length (me_map ?e)" using st by (simp add: meta_state_def meta_on_def)
  define f where "f = file_put (me_map ?e) (?P + 32) (meta_tail (next_meta t m m'))"
  have f: "cut_off t 120 = Some f" by (simp add: cut_off_def nw f_def)
  define t' where "t' = meta_done (upd_env (\<lambda>e. e\<lparr>me_map := f\<rparr>) t)"
  have put: "put_bytes (me_map ?e) (?P + 32) (meta_tail (next_meta t m m')) = Some f"
    using len by (simp add: f_def put_bytes_def file_put_inside)
  have "mdb_env_write_meta w1 w2 ms t = Some (MDB_SUCCESS, t')"
  proof (cases "me_flags ?e AND MDB_WRITEMAP = 0")
    case True
    then show ?thesis using ok
      by (simp add: mdb_env_write_meta_def nw c_pwrite_def io_count_def t'_def f_def Let_def)
  next
    case False
    then show ?thesis using ok by (auto simp: mdb_env_write_meta_def nw put [unfolded One_nat_def] t'_def Let_def)
  qed
  moreover have "meta_state (mt_env t') (n + 1) (next_meta t m m') m"
    using cut_off_state [OF st c f] by (simp add: t'_def meta_done_def meta_state_def)
  moreover have "me_txns (mt_env t') = map_option (\<lambda>ti. ti\<lparr>mti_txnid := n + 1\<rparr>) (me_txns ?e)"
    using c by (simp add: t'_def meta_done_def committing_def)
  moreover have "t' = t\<lparr>mt_env := ?e\<lparr>me_map := me_map (mt_env t'), me_txns := me_txns (mt_env t')\<rparr>\<rparr>"
    by (simp add: t'_def meta_done_def upd_env_def)
  ultimately show ?thesis by (rule that)
qed

text \<open>A failed write: the old transaction ID is written back, and the environment is marked unusable.\<close>

lemma write_meta_fails:
  assumes st: "meta_state (mt_env t) n m m'" and c: "committing t n"
    and wm: "me_flags (mt_env t) AND MDB_WRITEMAP = 0" and w1: "\<And>k. w1 = Done k \<Longrightarrow> k < 120" and w2: "120 \<le> io_count w2"
  obtains t' m'' where
    "mdb_env_write_meta w1 w2 ms t = Some (case w1 of Done _ \<Rightarrow> EIO | Failed err _ \<Rightarrow> err, t')"
    "meta_state (mt_env t') n m m''" "me_flags (mt_env t') = me_flags (mt_env t) OR MDB_FATAL_ERROR"
    "me_txns (mt_env t') = me_txns (mt_env t)"
proof -
  let ?e = "mt_env t" let ?P = "me_psize ?e * (1 - n mod 2)" let ?new = "next_meta t m m'"
  note nw = new_meta_spec [OF st c]
  let ?k = "io_count w1"
  define old where "old = ?new\<lparr>mm_last_pg := mm_last_pg m', mm_txnid := mm_txnid m'\<rparr>"
  define f where "f = file_put (me_map ?e) (?P + 32) (take ?k (meta_tail ?new))"
  define g where "g = file_put f (?P + 32) (meta_tail old)"
  obtain f' r where f': "cut_off t ?k = Some f'" "meta_on f' (me_psize ?e * (n mod 2)) m" "meta_on f' ?P r" "mm_psize r = me_psize ?e"
    "mm_address r = mm_address m'" by (rule cut_off_page [OF st c, of ?k])
  then have [simp]: "f' = f" by (simp add: cut_off_def nw f_def)
  have s: "152 \<le> me_psize ?e" "mm_txnid m' = n - 1" "meta_on (me_map ?e) ?P m'" using st by (auto simp: meta_state_def)
  have same: "mm_magic old = mm_magic r" "mm_version old = mm_version r"
    using f'(3) s(3) by (auto simp: old_def next_meta_def meta_on_def)
  have addr: "mm_address old = mm_address r"
    using f'(5) by (simp add: old_def next_meta_def)
  have g': "take 120 (meta_tail old) = meta_tail old" by simp
  have far: "me_psize ?e * (n mod 2) + 152 \<le> ?P \<or> ?P + 152 \<le> me_psize ?e * (n mod 2)" using s(1) by (auto simp: mod_2_eq_odd)
  have old: "meta_ranges old" "mm_psize old = me_psize ?e" "mm_txnid old = n - 1"
    using nw s(2,3) by (auto simp: old_def meta_ranges_def meta_on_def mm_psize_def)
  define t' where "t' = meta_fail (upd_env (\<lambda>e. e\<lparr>me_map := g\<rparr>) t)"
  have "mdb_env_write_meta w1 w2 ms t = Some (case w1 of Done _ \<Rightarrow> EIO | Failed err _ \<Rightarrow> err, t')"
    using wm w1 w2 by (cases w1)
      (auto simp: mdb_env_write_meta_def nw c_pwrite_def io_count_def t'_def g_def f_def old_def Let_def min_def split: io.splits)
  moreover have "meta_state (mt_env t') n m old"
  proof -
    have on: "meta_on f ?P r" "meta_on f (me_psize ?e * (n mod 2)) m" using f' by auto
    note w = write_tail [OF on(1) same addr, where k = 120, unfolded g', folded g_def]
    have "meta_on g ?P old" using on(1) w(1-3) same old(1) by (auto simp: meta_on_def)
    moreover have "meta_on g (me_psize ?e * (n mod 2)) m" using w(4) [OF _ far on(2)] on(2) by (simp add: meta_on_def)
    ultimately show ?thesis using st old by (simp add: meta_state_def t'_def meta_fail_def)
  qed
  moreover have "me_flags (mt_env t') = me_flags ?e OR MDB_FATAL_ERROR" "me_txns (mt_env t') = me_txns ?e"
    by (simp_all add: t'_def meta_fail_def)
  ultimately show ?thesis by (rule that)
qed

section \<open>Opening\<close>

lemma meta_page_bytes:
  assumes "152 \<le> psize"
  obtains p where "meta_page psize i m = Some p" "length p = psize" "F_ISSET (le_nat (slice p 10 2)) P_META"
    "slice p 16 136 = bytes_of_meta m"
proof -
  define p where "p = splice (splice (replicate psize 0) 0 (le_bytes 8 i)) 10 (le_bytes 2 P_META)"
  have len: "length p = psize" using assms by (simp add: p_def)
  have "slice (splice p 16 (bytes_of_meta m)) 10 2 = le_bytes 2 P_META"
    using len assms by (subst slice_splice_other) (simp_all add: p_def)
  moreover have "meta_page psize i m = Some (splice p 16 (bytes_of_meta m))"
    using assms by (simp add: meta_page_def byte_simps PAGEHDRSZ_def p_def)
  ultimately show ?thesis using that len assms by (simp add: P_META_def F_ISSET_def)
qed

lemma meta_on_append:
  assumes "length a + 152 \<le> length a + length p" "F_ISSET (le_nat (slice p 10 2)) P_META" "slice p 16 136 = bytes_of_meta m"
    "meta_ranges m" "mm_magic m = MDB_MAGIC" "mm_version m = MDB_DATA_VERSION"
  shows "meta_on (a @ p @ b) (length a) m"
proof -
  have "slice (a @ p @ b) (length a + i) n = slice p i n" if "i + n \<le> 152" for i n
    using that assms(1) by (intro slice_eqI) (auto simp: nth_append)
  then show ?thesis using assms by (simp add: meta_on_def)
qed

lemma init_meta0_ranges:
  assumes "meta_ranges m" "me_psize e < 2 ^ 32" "me_mapsize e < 2 ^ 64"
  shows "meta_ranges (mdb_env_init_meta0 e m)"
proof -
  have m16: "(0xffff :: nat) = mask 16" by (simp add: mask_eq_exp_minus_1)
  have "take_bit 16 (me_flags e AND 0xffff OR MDB_INTEGERKEY) = me_flags e AND 0xffff OR MDB_INTEGERKEY"
    unfolding m16 by (simp add: take_bit_or flip: take_bit_eq_mask) (simp add: MDB_INTEGERKEY_def)
  then have "me_flags e AND 0xffff OR MDB_INTEGERKEY < 2 ^ 16" by (metis take_bit_nat_eq_self_iff)
  then show ?thesis using assms by (simp add: meta_ranges_def db_ranges_def mdb_env_init_meta0_def MDB_MAGIC_def
    MDB_DATA_VERSION_def P_INVALID_def)
qed

lemma init_meta_state:
  assumes ps: "152 \<le> me_psize e" "me_psize e < 2 ^ 32" "me_mapsize e < 2 ^ 64" and m: "meta_ranges m" "mm_txnid m = 0"
    and w: "2 * me_psize e \<le> n"
  obtains e' where "mdb_env_init_meta False (Done n) e m = Some (MDB_SUCCESS, e', mdb_env_init_meta0 e m)"
    "meta_state e' 0 (mdb_env_init_meta0 e m) (mdb_env_init_meta0 e m)" "e' = e\<lparr>me_map := me_map e'\<rparr>"
proof -
  let ?m = "mdb_env_init_meta0 e m"
  obtain p where p: "meta_page (me_psize e) 0 ?m = Some p" "length p = me_psize e" "F_ISSET (le_nat (slice p 10 2)) P_META"
    "slice p 16 136 = bytes_of_meta ?m" by (rule meta_page_bytes [OF ps(1)])
  obtain q where q: "meta_page (me_psize e) 1 ?m = Some q" "length q = me_psize e" "F_ISSET (le_nat (slice q 10 2)) P_META"
    "slice q 16 136 = bytes_of_meta ?m" by (rule meta_page_bytes [OF ps(1)])
  define f where "f = file_put (me_map e) 0 (p @ q)"
  have f: "f = p @ q @ drop (2 * me_psize e) (me_map e)"
    using p(2) q(2) by (simp add: f_def file_put_def splice_def mult_2)
  have fm: "mm_magic ?m = MDB_MAGIC" "mm_version ?m = MDB_DATA_VERSION" "mm_psize ?m = me_psize e" "mm_txnid ?m = 0"
    using m by (simp_all add: mdb_env_init_meta0_def mm_psize_def)
  note rg = init_meta0_ranges [OF m(1) ps(2,3)]
  have "meta_on f 0 ?m" using meta_on_append [of "[]" p ?m "q @ drop (2 * me_psize e) (me_map e)"] p fm rg ps by (simp add: f)
  moreover have "meta_on f (me_psize e) ?m" using meta_on_append [of p q ?m "drop (2 * me_psize e) (me_map e)"] p q fm rg ps by (simp add: f)
  ultimately have "meta_state (e\<lparr>me_map := f\<rparr>) 0 ?m ?m" using fm ps by (simp add: meta_state_def)
  moreover have "mdb_env_init_meta False (Done n) e m = Some (MDB_SUCCESS, e\<lparr>me_map := f\<rparr>, ?m)"
    using p q w by (simp add: mdb_env_init_meta_def Let_def c_pwrite_def io_count_def f_def mult_2 min_def)
  moreover have "e\<lparr>me_map := f\<rparr> = e\<lparr>me_map := me_map (e\<lparr>me_map := f\<rparr>)\<rparr>" by (cases e) simp
  ultimately show ?thesis using that by blast
qed

text \<open>The fields that opening the data file does not set.\<close>

definition env_rest where
  "env_rest e = (me_flags e, me_txns e, me_txkey e, me_pid e, me_txn e, me_maxreaders e, me_pgoldest e, me_maxdbs e, me_numdbs e, me_dbflags e,
     me_dbxs e, me_dbiseqs e, me_free_pgs e, me_dirty_list e, me_dpages e)"

lemma open_sizes_spec:
  assumes "152 \<le> me_psize e" "me_psize e < 2 ^ 32"
  obtains e' where "open_sizes e = Some e'" "me_maxpg e' = me_mapsize e div me_psize e"
    "MDB_MINKEYS * (me_nodemax e' + 2) \<le> me_psize e - PAGEHDRSZ" "even (me_nodemax e')"
    "me_psize e - PAGEHDRSZ < MDB_MINKEYS * (me_nodemax e' + 4)"
    "me_psize e' = me_psize e" "me_map e' = me_map e" "me_mapsize e' = me_mapsize e" "env_rest e' = env_rest e"
proof -
  define h where "h = (me_psize e - 16) div 2 div 2 * 2"
  have h: "h \<le> (me_psize e - 16) div 2" "(me_psize e - 16) div 2 < h + 2" "even h" "2 \<le> h" using assms by (simp_all add: h_def)
  have w: "(2 :: nat) ^ 32 = 4294967296" by simp
  have u: "u32 (me_psize e + 2 ^ 32 - PAGEHDRSZ) = me_psize e - 16"
    unfolding w PAGEHDRSZ_def by (rule u32_sub) (use assms in auto)
  have u2: "u32 (h + 2 ^ 32 - 2) = h - 2"
    unfolding w by (rule u32_sub) (use assms h in auto)
  have "open_sizes e = Some (e\<lparr>me_nodemax := h - 2, me_maxpg := me_mapsize e div me_psize e\<rparr>)"
    using assms(1) unfolding open_sizes_def u MDB_MINKEYS_def h_def [symmetric] u2 by auto
  then show ?thesis by (rule that) (use h in \<open>auto simp: PAGEHDRSZ_def MDB_MINKEYS_def env_rest_def\<close>)
qed

text \<open>A new environment: the page size is that of the system, both meta pages are those of transaction 0.\<close>

lemma open2_new:
  assumes "o_read0 os = Done r" "152 \<le> os_psize" "os_psize < 2 ^ 32" "me_flags e AND MDB_FIXEDMAP = 0" "me_flags e AND MDB_WRITEMAP = 0"
    "o_mmap os = Inr a" "\<not> o_oom os" "o_write os = Done n" "2 * os_psize \<le> n" "me_mapsize e < 2 ^ 64"
  obtains e' m where "mdb_env_open2 os os_psize [] e = Some (MDB_SUCCESS, e')" "meta_state e' 0 m m"
    "me_psize e' = min os_psize MAX_PAGESIZE" "me_mapsize e' = (if me_mapsize e = 0 then DEFAULT_MAPSIZE else me_mapsize e)"
    "me_maxpg e' = me_mapsize e' div me_psize e'" "MDB_MINKEYS * (me_nodemax e' + 2) \<le> me_psize e' - PAGEHDRSZ"
    "md_root (fst (mm_dbs m)) = P_INVALID" "md_root (snd (mm_dbs m)) = P_INVALID" "mm_last_pg m = 1"
    "env_rest e' = env_rest e" "mm_mapsize m = me_mapsize e'"
proof -
  define e1 where "e1 = e\<lparr>me_psize := min os_psize MAX_PAGESIZE, me_mapsize := open_mapsize True e zero_meta, me_map := []\<rparr>"
  have z: "meta_ranges zero_meta" "mm_txnid zero_meta = 0" by (simp_all add: zero_meta_def zero_db_def meta_ranges_def db_ranges_def)
  have ms: "me_mapsize e1 = (if me_mapsize e = 0 then DEFAULT_MAPSIZE else me_mapsize e)"
    by (simp add: e1_def open_mapsize_def zero_meta_def)
  have e1: "152 \<le> me_psize e1" "me_psize e1 < 2 ^ 32" "me_mapsize e1 < 2 ^ 64" "2 * me_psize e1 \<le> n" "me_psize e1 = min os_psize MAX_PAGESIZE"
    using assms ms by (auto simp: e1_def MAX_PAGESIZE_def DEFAULT_MAPSIZE_def min_def)
  let ?m = "mdb_env_init_meta0 e1 zero_meta"
  obtain e2 where e2: "mdb_env_init_meta False (Done n) e1 zero_meta = Some (MDB_SUCCESS, e2, ?m)"
    "meta_state e2 0 ?m ?m" "e2 = e1\<lparr>me_map := me_map e2\<rparr>" by (rule init_meta_state [OF e1(1-3) z e1(4)])
  have p2: "me_psize e2 = me_psize e1" "me_mapsize e2 = me_mapsize e1" "env_rest e2 = env_rest e"
    by (subst e2(3), simp add: env_rest_def e1_def)+
  obtain e3 where e3: "open_sizes e2 = Some e3" "me_maxpg e3 = me_mapsize e2 div me_psize e2"
    "MDB_MINKEYS * (me_nodemax e3 + 2) \<le> me_psize e2 - PAGEHDRSZ"
    "me_psize e3 = me_psize e2" "me_map e3 = me_map e2" "me_mapsize e3 = me_mapsize e2" "env_rest e3 = env_rest e2"
    by (rule open_sizes_spec [of e2]) (use e1 p2 in auto)
  have "read_meta [] (Done r) 0 = Some (Inl ENOENT)"
    by (simp add: read_meta_def c_pread_def slice_def PAGEHDRSZ_def META_SIZE_def)
  then have h: "open_header os os_psize [] = Some (Inr (True, zero_meta, min os_psize MAX_PAGESIZE))"
    using assms(1) by (simp add: open_header_def mdb_env_read_header_def)
  have mp: "mdb_env_map (o_trunc os) (o_mmap os) [] (e\<lparr>me_psize := min os_psize MAX_PAGESIZE, me_mapsize := open_mapsize True e zero_meta\<rparr>) 0
      = (MDB_SUCCESS, e1)" using assms by (simp add: mdb_env_map_def e1_def)
  have "mdb_env_open2 os os_psize [] e = Some (MDB_SUCCESS, e3)"
    using assms e2(1) e3(1) by (simp add: mdb_env_open2_def h mp [unfolded assms(6)] Let_def)
  moreover have "meta_state e3 0 ?m ?m" using e2(2) e3 meta_state_env [of e3 e2] by simp
  ultimately show ?thesis by (rule that)
    (use e1 e3 p2 ms in \<open>auto simp: mdb_env_init_meta0_def\<close>)
qed

text \<open>
  An existing environment: the page size and the data are those of the file, and the map has room for every page that the
  last transaction used, when the recorded size of the map has.
\<close>

lemma open2_existing:
  assumes st: "meta_state (e\<lparr>me_map := f, me_psize := ps\<rparr>) n m m'" and rd: "reads_all (o_read0 os)" "reads_all (o_read1 os)"
    and fl: "me_flags e AND MDB_FIXEDMAP = 0" "me_flags e AND MDB_WRITEMAP = 0" and mm: "o_mmap os = Inr a"
    and room: "(mm_last_pg m + 1) * ps \<le> mm_mapsize m"
  obtains e' where "mdb_env_open2 os os_psize f e = Some (MDB_SUCCESS, e')" "meta_state e' n m m'" "me_map e' = f" "me_psize e' = ps"
    "me_maxpg e' = me_mapsize e' div ps" "MDB_MINKEYS * (me_nodemax e' + 2) \<le> ps - PAGEHDRSZ" "mm_last_pg m < me_maxpg e'"
    "me_mapsize e \<le> me_mapsize e'"
proof -
  have s: "152 \<le> ps" "mm_psize m = ps" "meta_ranges m" using st by (auto simp: meta_state_def meta_on_def)
  then have ps: "ps < 2 ^ 32" by (simp add: meta_ranges_def db_ranges_def mm_psize_def)
  have lt: "(mm_last_pg m + 1) * ps < 2 ^ 64" using room s(3) by (simp add: meta_ranges_def)
  define e1 where "e1 = e\<lparr>me_psize := ps, me_mapsize := open_mapsize False e m, me_map := f\<rparr>"
  obtain e2 where e2: "open_sizes e1 = Some e2" "me_maxpg e2 = me_mapsize e1 div me_psize e1"
    "MDB_MINKEYS * (me_nodemax e2 + 2) \<le> me_psize e1 - PAGEHDRSZ"
    "me_psize e2 = me_psize e1" "me_map e2 = me_map e1" "me_mapsize e2 = me_mapsize e1"
    by (rule open_sizes_spec [of e1]) (use s ps in \<open>auto simp: e1_def\<close>)
  have ms: "(mm_last_pg m + 1) * ps \<le> me_mapsize e1" "me_mapsize e \<le> me_mapsize e1"
    using room lt s(2) by (auto simp: e1_def open_mapsize_def Let_def)
  have "(mm_last_pg m + 1) * ps div ps \<le> me_mapsize e1 div ps" by (rule div_le_mono [OF ms(1)])
  then have last: "mm_last_pg m < me_mapsize e1 div ps" using s(1) by simp
  have "open_header os os_psize f = Some (Inr (False, m, ps))"
    using meta_state_picks(1) [OF st rd] s(2) by (simp add: open_header_def)
  moreover have "mdb_env_map (o_trunc os) (o_mmap os) f (e\<lparr>me_psize := ps, me_mapsize := open_mapsize False e m\<rparr>) 0 = (MDB_SUCCESS, e1)"
    using fl mm by (simp add: mdb_env_map_def e1_def)
  ultimately have "mdb_env_open2 os os_psize f e = Some (MDB_SUCCESS, e2)"
    using fl e2(1) by (simp add: mdb_env_open2_def Let_def)
  moreover have "meta_state e2 n m m'" using st e2 by (simp add: meta_state_def e1_def)
  ultimately show ?thesis by (rule that) (use e2 ms last in \<open>auto simp: e1_def\<close>)
qed

end
