(* ===== verification/Txn_Spec.thy ===== *)
theory Txn_Spec
  imports Txn Meta_Spec
begin

text \<open>
  What starting and ending a transaction do to the environment, to the reader table and to the transaction record.
\<close>

section \<open>What the operations keep\<close>

text \<open>The part of the state that the bookkeeping of database handles leaves alone.\<close>

definition env_core :: "mdb_env \<Rightarrow> byte list \<times> nat \<times> nat \<times> nat \<times> nat \<times> bool \<times> nat \<times> nat \<times> nat" where
  "env_core e = (me_map e, me_psize e, me_mapsize e, me_pid e, me_flags e, me_txn e, me_maxpg e, me_maxreaders e, me_pgoldest e)"

definition same_core :: "mdb_txn \<Rightarrow> mdb_txn \<Rightarrow> bool" where
  "same_core t t' \<longleftrightarrow> env_core (mt_env t') = env_core (mt_env t) \<and> me_txns (mt_env t') = me_txns (mt_env t) \<and>
     me_txkey (mt_env t') = me_txkey (mt_env t) \<and> mt_txnid t' = mt_txnid t \<and> mt_flags t' = mt_flags t \<and> mt_reader t' = mt_reader t"

lemma same_core_refl [simp, intro]: "same_core t t"
  by (simp add: same_core_def)

lemma same_core_trans [trans]: "same_core t t1 \<Longrightarrow> same_core t1 t2 \<Longrightarrow> same_core t t2"
  by (simp add: same_core_def)

lemma dbi_update_core: "dbi_update keep t i = Some t' \<Longrightarrow> same_core t t'"
  by (auto simp: dbi_update_def same_core_def env_core_def upd_env_def split: if_splits bind_splits)

lemma dbis_loop_core: "dbis_loop keep t n = Some t' \<Longrightarrow> same_core t t'"
proof (induction n arbitrary: t)
  case (Suc n)
  then show ?case by (auto split: if_splits bind_splits dest!: dbi_update_core intro: same_core_trans)
qed simp

lemma dbis_update_core: "mdb_dbis_update t keep = Some t' \<Longrightarrow> same_core t t'"
  by (auto simp: mdb_dbis_update_def split: bind_splits dest!: dbis_loop_core)
    (auto simp: same_core_def env_core_def upd_env_def)

lemma named_dbs_keeps:
  assumes "named_dbs t i n = Some t'" "2 \<le> i"
  shows "same_core t t'" "mt_env t' = mt_env t" "mt_next_pgno t' = mt_next_pgno t" "length (mt_dbs t') = length (mt_dbs t)"
    "j < 2 \<Longrightarrow> mt_dbs t' ! j = mt_dbs t ! j"
proof -
  have "same_core t t' \<and> mt_env t' = mt_env t \<and> mt_next_pgno t' = mt_next_pgno t \<and> length (mt_dbs t') = length (mt_dbs t) \<and>
      (j < 2 \<longrightarrow> mt_dbs t' ! j = mt_dbs t ! j)"
    using assms
  proof (induction n arbitrary: t i)
    case (Suc n)
    from Suc.prems obtain dbs fs v where s: "c_write (mt_dbs t) i v = Some dbs"
      "named_dbs (t\<lparr>mt_dbs := dbs, mt_dbflags := fs\<rparr>) (i + 1) n = Some t'"
      by (auto split: bind_splits)
    have "dbs = (mt_dbs t)[i := v]" using s(1) by (simp add: c_write_eq_Some_iff)
    with Suc.IH [OF s(2)] Suc.prems(2) show ?case by (auto simp: same_core_def)
  qed simp
  then show "same_core t t'" "mt_env t' = mt_env t" "mt_next_pgno t' = mt_next_pgno t" "length (mt_dbs t') = length (mt_dbs t)"
    "j < 2 \<Longrightarrow> mt_dbs t' ! j = mt_dbs t ! j" by blast+
qed

lemma renew_dbs_spec:
  assumes "renew_dbs meta t = Some t'"
  shows "same_core t t'" "mt_env t' = mt_env t" "mt_next_pgno t' = (mm_last_pg meta + 1) mod 2 ^ 64" "2 \<le> length (mt_dbs t')"
    "mt_dbs t' ! 0 = fst (mm_dbs meta)" "mt_dbs t' ! 1 = snd (mm_dbs meta)"
proof -
  define dbs where "dbs = (mt_dbs t)[0 := fst (mm_dbs meta), 1 := snd (mm_dbs meta)]"
  from assms obtain t1 fs where s: "1 < length (mt_dbs t)" "t' = t1\<lparr>mt_dbflags := fs\<rparr>"
    "named_dbs (t\<lparr>mt_dbs := dbs, mt_next_pgno := (mm_last_pg meta + 1) mod 2 ^ 64\<rparr>) 2 (mt_numdbs t - 2) = Some t1"
    by (fastforce simp: renew_dbs_def c_write_eq_Some_iff dbs_def split: bind_splits)
  note k = named_dbs_keeps [OF s(3) order_refl]
  have len: "length dbs = length (mt_dbs t)" by (simp add: dbs_def)
  show "same_core t t'" "mt_env t' = mt_env t" "mt_next_pgno t' = (mm_last_pg meta + 1) mod 2 ^ 64" "2 \<le> length (mt_dbs t')"
    using k s(1,2) len by (auto simp: same_core_def)
  have "0 < length (mt_dbs t)" using s(1) by linarith
  then show "mt_dbs t' ! 0 = fst (mm_dbs meta)" "mt_dbs t' ! 1 = snd (mm_dbs meta)"
    using k(5) [of 0] k(5) [of 1] s(1,2) by (auto simp: dbs_def)
qed

section \<open>The reader table\<close>

lemma upd_reader_eq_Some_iff:
  "upd_reader i g t = Some t' \<longleftrightarrow> (\<exists>ti. me_txns (mt_env t) = Some ti \<and> i < length (mti_readers ti) \<and>
     t' = upd_env (\<lambda>e. e\<lparr>me_txns := Some (ti\<lparr>mti_readers := (mti_readers ti)[i := g (mti_readers ti ! i)]\<rparr>)\<rparr>) t)"
  by (auto simp: upd_reader_def c_read_def c_write_def split: bind_splits if_splits)

lemma free_slot_spec:
  assumes "free_slot rs i n = Some j" shows "i \<le> j" "j \<le> i + n" "j < i + n \<longrightarrow> mr_pid (rs ! j) = 0"
proof -
  have "i \<le> j \<and> j \<le> i + n \<and> (j < i + n \<longrightarrow> mr_pid (rs ! j) = 0)"
    using assms
  proof (induction n arbitrary: i)
    case (Suc n)
    then show ?case by (fastforce simp: c_read_eq_Some_iff split: bind_splits if_splits)
  qed simp
  then show "i \<le> j" "j \<le> i + n" "j < i + n \<longrightarrow> mr_pid (rs ! j) = 0" by auto
qed

text \<open>The slot \<open>i\<close> of the reader table, among those in use.\<close>

definition slot :: "mdb_env \<Rightarrow> nat \<Rightarrow> mdb_reader option" where
  "slot e i = (case me_txns e of None \<Rightarrow> None
     | Some ti \<Rightarrow> if i < mti_numreaders ti \<and> i < length (mti_readers ti) then Some (mti_readers ti ! i) else None)"

text \<open>A table in which only slot \<open>i\<close> may differ from another one.\<close>

definition only_slot :: "mdb_env \<Rightarrow> mdb_env \<Rightarrow> nat \<Rightarrow> bool" where
  "only_slot e e' i \<longleftrightarrow> map_option mti_txnid (me_txns e') = map_option mti_txnid (me_txns e) \<and>
     (\<forall>j. j \<noteq> i \<longrightarrow> slot e' j = slot e j)"

lemma upd_reader_slot:
  assumes "upd_reader i g t = Some t'"
  shows "only_slot (mt_env t) (mt_env t') i" "slot (mt_env t') i = map_option g (slot (mt_env t) i)"
    "me_txns (mt_env t) \<noteq> None" "\<exists>ti. t' = upd_env (\<lambda>e. e\<lparr>me_txns := Some ti\<rparr>) t"
  using assms by (auto simp: upd_reader_eq_Some_iff only_slot_def slot_def split: if_splits)

text \<open>Every slot that a thread holds is counted.\<close>

definition table_ok :: "mdb_env \<Rightarrow> bool" where
  "table_ok e \<longleftrightarrow> (case me_txns e of None \<Rightarrow> True
     | Some ti \<Rightarrow> mti_numreaders ti \<le> me_maxreaders e \<and> me_maxreaders e \<le> length (mti_readers ti) \<and>
         (\<forall>tid i. me_txkey e tid = Some i \<longrightarrow> i < mti_numreaders ti))"

lemma take_slot_spec:
  assumes "take_slot os t = Some (Inr i, t')" "table_ok (mt_env t)"
  shows "only_slot (mt_env t) (mt_env t') i" "\<exists>r. slot (mt_env t') i = Some r \<and> mr_pid r = me_pid (mt_env t)"
    "\<And>r. slot (mt_env t) i = Some r \<Longrightarrow> mr_pid r = 0" "env_core (mt_env t') = env_core (mt_env t)" "table_ok (mt_env t')"
    "t'\<lparr>mt_env := mt_env t\<rparr> = t"
proof -
  let ?e = "mt_env t"
  from assms(1) obtain ti where s: "me_txns ?e = Some ti" "free_slot (mti_readers ti) 0 (mti_numreaders ti) = Some i"
    "i \<noteq> me_maxreaders ?e" "i < length (mti_readers ti)"
    and t': "me_txns (mt_env t') = Some (ti\<lparr>mti_readers := (mti_readers ti)[i := (mti_readers ti ! i)\<lparr>mr_pid := me_pid ?e, mr_tid := th_tid os\<rparr>],
        mti_numreaders := (if i = mti_numreaders ti then mti_numreaders ti + 1 else mti_numreaders ti)\<rparr>)"
      "env_core (mt_env t') = env_core ?e" "me_maxreaders (mt_env t') = me_maxreaders ?e"
      "me_txkey (mt_env t') = me_txkey ?e \<or> me_txkey (mt_env t') = (me_txkey ?e)(th_tid os \<mapsto> i)" "t'\<lparr>mt_env := mt_env t\<rparr> = t"
    by (auto simp: take_slot_def c_read_eq_Some_iff c_write_eq_Some_iff Let_def upd_env_def env_core_def split: if_splits bind_splits)
  note f = free_slot_spec [OF s(2), simplified]
  show "only_slot ?e (mt_env t') i" "\<exists>r. slot (mt_env t') i = Some r \<and> mr_pid r = me_pid ?e"
    "\<And>r. slot ?e i = Some r \<Longrightarrow> mr_pid r = 0"
    using s t' f by (auto simp: only_slot_def slot_def split: if_splits)
  show "env_core (mt_env t') = env_core ?e" "t'\<lparr>mt_env := mt_env t\<rparr> = t" by (rule t')+
  show "table_ok (mt_env t')" using assms(2) s t' f by (auto simp: table_ok_def less_Suc_eq split: if_splits)
qed

lemma reader_slot_spec:
  assumes "reader_slot os t = Some (Inr (i, nn), t')" "table_ok (mt_env t)" "mt_reader t = None"
  shows "only_slot (mt_env t) (mt_env t') i" "\<exists>r. slot (mt_env t') i = Some r \<and> mr_pid r = me_pid (mt_env t)"
    "\<And>r. slot (mt_env t) i = Some r \<Longrightarrow> mr_pid r = 0 \<or> mr_txnid r = NO_TXNID"
    "env_core (mt_env t') = env_core (mt_env t)" "table_ok (mt_env t')" "t'\<lparr>mt_env := mt_env t\<rparr> = t"
proof -
  let ?k = "if me_flags (mt_env t) AND MDB_NOTLS \<noteq> 0 then mt_reader t else me_txkey (mt_env t) (th_tid os)"
  have "only_slot (mt_env t) (mt_env t') i \<and> (\<exists>r. slot (mt_env t') i = Some r \<and> mr_pid r = me_pid (mt_env t)) \<and>
     (\<forall>r. slot (mt_env t) i = Some r \<longrightarrow> mr_pid r = 0 \<or> mr_txnid r = NO_TXNID) \<and>
     env_core (mt_env t') = env_core (mt_env t) \<and> table_ok (mt_env t') \<and> t'\<lparr>mt_env := mt_env t\<rparr> = t"
  proof (cases ?k)
    case None
    then have "take_slot os t = Some (Inr i, t')" using assms(1)
      by (auto simp: reader_slot_def Let_def split: bind_splits sum.splits)
    from take_slot_spec [OF this assms(2)] show ?thesis by blast
  next
    case (Some k)
    then have fl: "me_flags (mt_env t) AND MDB_NOTLS = 0" and key: "me_txkey (mt_env t) (th_tid os) = Some k"
      using assms(3) by (auto split: if_splits)
    from assms(1) obtain ti where k: "me_txns (mt_env t) = Some ti" "k = i" "t' = t" "mr_pid (mti_readers ti ! i) = me_pid (mt_env t)"
      "mr_txnid (mti_readers ti ! i) = NO_TXNID" "i < length (mti_readers ti)"
      by (auto simp: reader_slot_def fl key c_read_eq_Some_iff split: bind_splits if_splits)
    with key have "i < mti_numreaders ti" using assms(2) by (auto simp: table_ok_def)
    with k show ?thesis using assms(2) by (auto simp: slot_def only_slot_def)
  qed
  then show "only_slot (mt_env t) (mt_env t') i" "\<exists>r. slot (mt_env t') i = Some r \<and> mr_pid r = me_pid (mt_env t)"
    "\<And>r. slot (mt_env t) i = Some r \<Longrightarrow> mr_pid r = 0 \<or> mr_txnid r = NO_TXNID"
    "env_core (mt_env t') = env_core (mt_env t)" "table_ok (mt_env t')" "t'\<lparr>mt_env := mt_env t\<rparr> = t" by blast+
qed

section \<open>Starting a read transaction\<close>

lemma take_slot_error: "take_slot os t = Some (Inl r, t') \<Longrightarrow> r \<noteq> MDB_SUCCESS"
  by (auto simp: take_slot_def Let_def split: if_splits bind_splits)

lemma reader_slot_error: "reader_slot os t = Some (Inl r, t') \<Longrightarrow> r \<noteq> MDB_SUCCESS"
  by (auto simp: reader_slot_def Let_def split: if_splits bind_splits option.splits sum.splits dest: take_slot_error)

lemma only_slot_trans: "only_slot e e1 i \<Longrightarrow> only_slot e1 e2 i \<Longrightarrow> only_slot e e2 i"
  unfolding only_slot_def by auto

text \<open>What a new reader finds: its slot holds the ID of the last committed transaction, and its databases are that transaction's.\<close>

definition reads_at :: "mdb_txn \<Rightarrow> nat \<Rightarrow> mdb_meta \<Rightarrow> bool" where
  "reads_at r n m \<longleftrightarrow> mt_txnid r = n \<and> 2 \<le> length (mt_dbs r) \<and> mt_dbs r ! 0 = fst (mm_dbs m) \<and> mt_dbs r ! 1 = snd (mm_dbs m) \<and>
     mt_next_pgno r = (mm_last_pg m + 1) mod 2 ^ 64"

lemma renew0_reader:
  assumes run: "mdb_txn_renew0 os t = Some (MDB_SUCCESS, t')" and ro: "mt_flags t AND MDB_TXN_RDONLY \<noteq> 0" "mt_reader t = None"
    and ti: "me_txns (mt_env t) = Some ti" "table_ok (mt_env t)" and st: "meta_state (mt_env t) (mti_txnid ti) m m'"
  obtains i rd where "mt_reader t' = Some i" "mt_flags t' = mt_flags t" "reads_at t' (mti_txnid ti) m" "only_slot (mt_env t) (mt_env t') i"
    "slot (mt_env t') i = Some rd" "mr_pid rd = me_pid (mt_env t)" "mr_txnid rd = mti_txnid ti"
    "\<And>r. slot (mt_env t) i = Some r \<Longrightarrow> mr_pid r = 0 \<or> mr_txnid r = NO_TXNID"
    "env_core (mt_env t') = env_core (mt_env t)" "table_ok (mt_env t')"
proof -
  define t1 where "t1 = t\<lparr>mt_numdbs := me_numdbs (mt_env t), mt_dbxs := me_dbxs (mt_env t), mt_reset := False\<rparr>"
  have e1: "mt_env t1 = mt_env t" "mt_reader t1 = None" "mt_flags t1 = mt_flags t" using ro by (simp_all add: t1_def)
  from run obtain i nn t2 t3 where sl: "reader_slot os t1 = Some (Inr (i, nn), t2)"
    "upd_reader i (\<lambda>r. r\<lparr>mr_txnid := mti_txnid ti\<rparr>) t2 = Some t3"
    and fin: "me_metas (mt_env t3) (mti_txnid ti mod 2) \<bind> (\<lambda>meta. renew_dbs meta (t3\<lparr>mt_txnid := mti_txnid ti, mt_reader := Some i\<rparr>)) = Some t'"
    unfolding mdb_txn_renew0_def t1_def [symmetric] Let_def renew_reader_def
    using ro ti e1 by (auto split: bind_splits sum.splits if_splits option.splits dest: reader_slot_error)
  note s = reader_slot_spec [OF sl(1), unfolded e1, OF ti(2) refl]
  note u = upd_reader_slot [OF sl(2)]
  have c2: "mt_flags t2 = mt_flags t" using arg_cong [OF s(6), of mt_flags] e1 by simp
  obtain ti3 where t3: "t3 = upd_env (\<lambda>e. e\<lparr>me_txns := Some ti3\<rparr>) t2" using u(4) by blast
  have core: "env_core (mt_env t3) = env_core (mt_env t)" using s(4) by (simp add: t3 env_core_def)
  then have st3: "meta_state (mt_env t3) (mti_txnid ti) m m'"
    using st meta_state_env [of "mt_env t3" "mt_env t"] by (simp add: env_core_def)
  have "renew_dbs m (t3\<lparr>mt_txnid := mti_txnid ti, mt_reader := Some i\<rparr>) = Some t'"
    using fin meta_state_picks(3) [OF st3] by simp
  note d = renew_dbs_spec [OF this]
  have env: "mt_env t' = mt_env t3" using d(2) by simp
  have tab: "table_ok (mt_env t3)" using s(5) sl(2) by (auto simp: upd_reader_eq_Some_iff table_ok_def)
  obtain r2 where r2: "slot (mt_env t2) i = Some r2" "mr_pid r2 = me_pid (mt_env t)" using s(2) by blast
  show ?thesis
  proof (rule that [of i "r2\<lparr>mr_txnid := mti_txnid ti\<rparr>"])
    show "mt_reader t' = Some i" "mt_flags t' = mt_flags t" using d(1) c2 by (simp_all add: same_core_def t3 upd_env_def)
    show "reads_at t' (mti_txnid ti) m" using d by (simp add: reads_at_def same_core_def)
    show "only_slot (mt_env t) (mt_env t') i" unfolding env by (rule only_slot_trans [OF s(1) u(1)])
  qed (use s u r2 core env tab in auto)
qed

lemma begin_reader:
  assumes run: "mdb_txn_begin os flags t0 = Some (MDB_SUCCESS, t0', Some r)"
    and ti: "me_txns (mt_env t0) = Some ti" "table_ok (mt_env t0)" and st: "meta_state (mt_env t0) (mti_txnid ti) m m'"
  obtains i rd where "mt_reader r = Some i" "mt_flags r = MDB_TXN_RDONLY" "reads_at r (mti_txnid ti) m" "only_slot (mt_env t0) (mt_env r) i"
    "slot (mt_env r) i = Some rd" "mr_pid rd = me_pid (mt_env t0)" "mr_txnid rd = mti_txnid ti"
    "\<And>r. slot (mt_env t0) i = Some r \<Longrightarrow> mr_pid r = 0 \<or> mr_txnid r = NO_TXNID"
    "env_core (mt_env r) = env_core (mt_env t0)" "table_ok (mt_env r)" "\<exists>b. t0' = t0\<lparr>mt_brk := b, mt_env := mt_env r\<rparr>"
proof -
  define t1 where "t1 = new_reader (snd (c_alloc t0 :: nat alloc \<times> mdb_txn))"
  have e1: "mt_env t1 = mt_env t0" "mt_flags t1 = MDB_TXN_RDONLY" "mt_reader t1 = None" "mt_flags t1 AND MDB_TXN_RDONLY \<noteq> 0"
    by (simp_all add: t1_def new_reader_def c_alloc_def MDB_TXN_RDONLY_def)
  have r: "mdb_txn_renew0 os t1 = Some (MDB_SUCCESS, r)" "t0' = (snd (c_alloc t0 :: nat alloc \<times> mdb_txn))\<lparr>mt_env := mt_env r\<rparr>"
    using run by (auto simp: mdb_txn_begin_def t1_def c_alloc_def split: if_splits bind_splits)
  have brk: "\<exists>b. t0' = t0\<lparr>mt_brk := b, mt_env := mt_env r\<rparr>" using r(2) by (auto simp: c_alloc_def)
  show ?thesis
    by (rule renew0_reader [OF r(1) e1(4,3), unfolded e1, OF ti st]) (rule that; (assumption | rule brk))
qed

section \<open>Starting a write transaction\<close>

lemma renew_writer_result: "renew_writer os t = Some (s, t') \<Longrightarrow> (\<exists>r. s = Inl r \<and> r \<noteq> MDB_SUCCESS) \<or> (\<exists>m. s = Inr (m, False))"
  by (auto simp: renew_writer_def split: bind_splits if_splits)

lemma renew0_writer_steps:
  assumes run: "mdb_txn_renew0 os t = Some (MDB_SUCCESS, t')" and rw: "mt_flags t AND MDB_TXN_RDONLY = 0"
  obtains m t2 where "renew_writer os (t\<lparr>mt_numdbs := me_numdbs (mt_env t), mt_dbxs := me_dbxs (mt_env t), mt_reset := False\<rparr>) =
    Some (Inr (m, False), t2)" "renew_dbs m t2 = Some t'"
proof -
  define t1 where "t1 = t\<lparr>mt_numdbs := me_numdbs (mt_env t), mt_dbxs := me_dbxs (mt_env t), mt_reset := False\<rparr>"
  obtain s t2 where w: "renew_writer os t1 = Some (s, t2)"
    using run rw unfolding mdb_txn_renew0_def t1_def [symmetric] Let_def by (auto simp: t1_def split: bind_splits)
  show ?thesis
    using run rw renew_writer_result [OF w] that w
    unfolding mdb_txn_renew0_def t1_def [symmetric] Let_def by (auto simp: t1_def split: bind_splits if_splits option.splits)
qed

lemma renew0_writer:
  assumes run: "mdb_txn_renew0 os t = Some (MDB_SUCCESS, t')" and rw: "mt_flags t AND MDB_TXN_RDONLY = 0"
    and ti: "me_txns (mt_env t) = Some ti" and st: "meta_state (mt_env t) (mti_txnid ti) m m'"
  shows "mt_env t' = (mt_env t)\<lparr>me_txn := True\<rparr>" "mt_txnid t' = (mti_txnid ti + 1) mod 2 ^ 64" "mt_flags t' = mt_flags t"
    "2 \<le> length (mt_dbs t')" "mt_dbs t' ! 0 = fst (mm_dbs m)" "mt_dbs t' ! 1 = snd (mm_dbs m)"
    "mt_next_pgno t' = (mm_last_pg m + 1) mod 2 ^ 64"
proof -
  define t1 where "t1 = t\<lparr>mt_numdbs := me_numdbs (mt_env t), mt_dbxs := me_dbxs (mt_env t), mt_reset := False\<rparr>"
  have e1: "mt_env t1 = mt_env t" "mt_flags t1 = mt_flags t" by (simp_all add: t1_def)
  obtain m2 t2 where w2: "renew_writer os t1 = Some (Inr (m2, False), t2)" "renew_dbs m2 t2 = Some t'"
    using renew0_writer_steps [OF run rw] t1_def by blast
  have "m2 = m" using w2(1) ti e1 meta_state_picks(3) [OF st] by (auto simp: renew_writer_def split: bind_splits if_splits)
  note w = w2 [unfolded this]
  have t2: "mt_env t2 = (mt_env t)\<lparr>me_txn := True\<rparr>" "mt_txnid t2 = (mti_txnid ti + 1) mod 2 ^ 64" "mt_flags t2 = mt_flags t"
    using w(1) ti e1 by (auto simp: renew_writer_def upd_env_def split: bind_splits if_splits option.splits)
  note d = renew_dbs_spec [OF w(2)]
  show "mt_env t' = (mt_env t)\<lparr>me_txn := True\<rparr>" "mt_txnid t' = (mti_txnid ti + 1) mod 2 ^ 64" "mt_flags t' = mt_flags t"
    "2 \<le> length (mt_dbs t')" "mt_dbs t' ! 0 = fst (mm_dbs m)" "mt_dbs t' ! 1 = snd (mm_dbs m)"
    "mt_next_pgno t' = (mm_last_pg m + 1) mod 2 ^ 64"
    using d t2 by (auto simp: same_core_def)
qed

section \<open>Ending a transaction\<close>

lemma only_slot_refl [simp]: "only_slot e e i"
  by (simp add: only_slot_def)

lemma only_slot_txns: "me_txns e' = me_txns e \<Longrightarrow> only_slot e e' i"
  by (simp add: only_slot_def slot_def)

lemma table_ok_core: "env_core e' = env_core e \<Longrightarrow> me_txns e' = me_txns e \<Longrightarrow> me_txkey e' = me_txkey e \<Longrightarrow> table_ok e' = table_ok e"
  by (simp add: table_ok_def env_core_def split: option.split)

lemma upd_reader_env:
  assumes "upd_reader i g t = Some t'"
  shows "env_core (mt_env t') = env_core (mt_env t)" "table_ok (mt_env t') = table_ok (mt_env t)" "mt_flags t' = mt_flags t" "mt_reader t' = mt_reader t"
  using assms by (auto simp: upd_reader_eq_Some_iff table_ok_def env_core_def upd_env_def)

lemma abort_reader:
  assumes run: "mdb_txn_abort t = Some t'" and ro: "F_ISSET (mt_flags t) MDB_TXN_RDONLY" "mt_reader t = Some i"
  shows "only_slot (mt_env t) (mt_env t') i" "env_core (mt_env t') = env_core (mt_env t)" "table_ok (mt_env t') = table_ok (mt_env t)"
    "\<And>rd. slot (mt_env t') i = Some rd \<Longrightarrow> mr_txnid rd = NO_TXNID"
proof -
  from run obtain t1 where 1: "mdb_dbis_update t False = Some t1" by (auto simp: mdb_txn_abort_def mdb_txn_reset0_def split: bind_splits)
  note c1 = dbis_update_core [OF 1]
  from run obtain t2 where 2: "upd_reader i (\<lambda>r. r\<lparr>mr_txnid := NO_TXNID\<rparr>) t1 = Some t2"
    using c1 ro by (auto simp: mdb_txn_abort_def mdb_txn_reset0_def 1 same_core_def split: bind_splits)
  define t3 where "t3 = (if me_flags (mt_env t2) AND MDB_NOTLS = 0 then t2\<lparr>mt_reader := None\<rparr> else t2)\<lparr>mt_numdbs := 0, mt_reset := True\<rparr>"
  have "mdb_txn_reset0 t = Some t3" using c1 ro by (simp add: mdb_txn_reset0_def 1 2 same_core_def t3_def)
  moreover have "mt_reader t3 = None \<or> mt_reader t3 = Some i" "mt_env t3 = mt_env t2"
    using c1 ro upd_reader_env(4) [OF 2] by (auto simp: t3_def same_core_def)
  ultimately have t': "mt_env t' = mt_env t2 \<or> (\<exists>t3 t4. mt_env t3 = mt_env t2 \<and> upd_reader i (\<lambda>r. r\<lparr>mr_pid := 0\<rparr>) t3 = Some t4 \<and> mt_env t' = mt_env t4)"
    using run by (auto simp: mdb_txn_abort_def split: if_splits)
  note u2 = upd_reader_slot [OF 2] upd_reader_env [OF 2]
  have o1: "only_slot (mt_env t) (mt_env t1) i" using c1 by (intro only_slot_txns) (simp add: same_core_def)
  have k1: "env_core (mt_env t1) = env_core (mt_env t)" "table_ok (mt_env t1) = table_ok (mt_env t)"
    using c1 table_ok_core [of "mt_env t1" "mt_env t"] by (auto simp: same_core_def)
  have "only_slot (mt_env t2) (mt_env t') i \<and> env_core (mt_env t') = env_core (mt_env t2) \<and> table_ok (mt_env t') = table_ok (mt_env t2) \<and>
      (\<forall>rd. slot (mt_env t') i = Some rd \<longrightarrow> mr_txnid rd = NO_TXNID)"
    using t'
  proof (elim disjE exE conjE)
    fix t3 t4 assume "mt_env t3 = mt_env t2" "upd_reader i (\<lambda>r. r\<lparr>mr_pid := 0\<rparr>) t3 = Some t4" "mt_env t' = mt_env t4"
    then show ?thesis using upd_reader_slot(1,2) [of i _ t3 t4] upd_reader_env(1,2) [of i _ t3 t4] u2(2) by auto
  qed (use u2(2) in auto)
  then show "only_slot (mt_env t) (mt_env t') i" "env_core (mt_env t') = env_core (mt_env t)" "table_ok (mt_env t') = table_ok (mt_env t)"
    "\<And>rd. slot (mt_env t') i = Some rd \<Longrightarrow> mr_txnid rd = NO_TXNID"
    using u2 k1 only_slot_trans [OF only_slot_trans [OF o1 u2(1)]] by auto
qed

lemma dpage_free_env: "mdb_dpage_free t a = Some t' \<Longrightarrow> (\<exists>dp. mt_env t' = (mt_env t)\<lparr>me_dpages := dp\<rparr>) \<and> mt_flags t' = mt_flags t"
  by (auto simp: mdb_dpage_free_def mdb_page_free_def upd_env_def split: bind_splits if_splits intro: exI [of _ "me_dpages (mt_env t)"])

lemma dlist_free_loop_env:
  "dlist_free_loop t dl i n = Some t' \<Longrightarrow> (\<exists>dp. mt_env t' = (mt_env t)\<lparr>me_dpages := dp\<rparr>) \<and> mt_flags t' = mt_flags t"
proof (induction n arbitrary: t i)
  case 0
  then show ?case by (auto intro: exI [of _ "me_dpages (mt_env t)"])
next
  case (Suc n)
  then obtain t1 a where "mdb_dpage_free t a = Some t1" "dlist_free_loop t1 dl (i + 1) n = Some t'"
    by (auto split: bind_splits page_ptr.splits)
  then show ?case using dpage_free_env [of t a t1] Suc.IH [of t1 "i + 1"] by auto
qed

lemma dlist_free_env: "mdb_dlist_free t = Some t' \<Longrightarrow> (\<exists>dp. mt_env t' = (mt_env t)\<lparr>me_dpages := dp\<rparr>) \<and> mt_flags t' = mt_flags t"
  by (auto simp: mdb_dlist_free_def set_own_dirty_def split: bind_splits dest!: dlist_free_loop_env)

lemma abort_writer_steps:
  assumes run: "mdb_txn_abort t = Some t'" and rw: "mt_flags t AND MDB_TXN_RDONLY = 0"
  obtains t1 t2 t3 t4 where "mdb_dbis_update t False = Some t1" "t2 = upd_env (\<lambda>e. e\<lparr>me_pghead := None, me_pglast := 0\<rparr>) t1"
    "(if me_flags (mt_env t2) AND MDB_WRITEMAP = 0 then mdb_dlist_free t2 else Some t2) = Some t3"
    "give_back_lists t3 = Some t4" "mdb_cursors_close (upd_env (\<lambda>e. e\<lparr>me_txn := False\<rparr>) t4) = Some t'"
proof -
  from run obtain t1 where 1: "mdb_dbis_update t False = Some t1" by (auto simp: mdb_txn_abort_def mdb_txn_reset0_def split: bind_splits)
  note c1 = dbis_update_core [OF 1]
  have nf: "\<not> F_ISSET (mt_flags t1) MDB_TXN_RDONLY" "mt_flags t1 AND MDB_TXN_RDONLY = 0"
    using c1 rw by (simp_all add: F_ISSET_def same_core_def MDB_TXN_RDONLY_def)
  define t2 where "t2 = upd_env (\<lambda>e. e\<lparr>me_pghead := None, me_pglast := 0\<rparr>) t1"
  from run obtain t5 where r5: "mdb_txn_reset0 t = Some t5" and fin: "t' = t5 \<or> mt_flags t5 AND MDB_TXN_RDONLY \<noteq> 0"
    by (auto simp: mdb_txn_abort_def split: bind_splits option.splits if_splits)
  from r5 nf obtain t3 t4 where s: "(if me_flags (mt_env t2) AND MDB_WRITEMAP = 0 then mdb_dlist_free t2 else Some t2) = Some t3"
    "give_back_lists t3 = Some t4" "mdb_cursors_close (upd_env (\<lambda>e. e\<lparr>me_txn := False\<rparr>) t4) = Some t5"
    unfolding mdb_txn_reset0_def 1 Let_def bind.bind_lunit t2_def [symmetric] by (auto split: bind_splits)
  have "mt_flags t5 = mt_flags t4" "mt_flags t4 = mt_flags t3" "mt_flags t3 = mt_flags t1"
    using s by (auto simp: mdb_cursors_close_def give_back_lists_def c_alloc_def upd_env_def t2_def split: bind_splits if_splits prod.splits
      dest!: dlist_free_env)
  then show ?thesis using that [OF 1 t2_def s(1,2)] s(3) fin nf(2) by auto
qed

lemma abort_writer:
  assumes run: "mdb_txn_abort t = Some t'" and rw: "mt_flags t AND MDB_TXN_RDONLY = 0"
  shows "env_core (mt_env t') = env_core ((mt_env t)\<lparr>me_txn := False\<rparr>)" "me_txns (mt_env t') = me_txns (mt_env t)"
    "me_txkey (mt_env t') = me_txkey (mt_env t)"
proof -
  obtain t1 t2 t3 t4 where 1: "mdb_dbis_update t False = Some t1" and t2: "t2 = upd_env (\<lambda>e. e\<lparr>me_pghead := None, me_pglast := 0\<rparr>) t1"
    and s: "(if me_flags (mt_env t2) AND MDB_WRITEMAP = 0 then mdb_dlist_free t2 else Some t2) = Some t3"
    "give_back_lists t3 = Some t4" "mdb_cursors_close (upd_env (\<lambda>e. e\<lparr>me_txn := False\<rparr>) t4) = Some t'"
    by (rule abort_writer_steps [OF run rw])
  have e2: "env_core (mt_env t2) = env_core (mt_env t)" "me_txns (mt_env t2) = me_txns (mt_env t)" "me_txkey (mt_env t2) = me_txkey (mt_env t)"
    using dbis_update_core [OF 1] by (simp_all add: t2 same_core_def env_core_def upd_env_def)
  have e3: "env_core (mt_env t3) = env_core (mt_env t2)" "me_txns (mt_env t3) = me_txns (mt_env t2)" "me_txkey (mt_env t3) = me_txkey (mt_env t2)"
    using s(1) by (auto split: if_splits dest!: dlist_free_env simp: env_core_def)
  have e4: "env_core (mt_env t4) = env_core (mt_env t3)" "me_txns (mt_env t4) = me_txns (mt_env t3)" "me_txkey (mt_env t4) = me_txkey (mt_env t3)"
    using s(2) by (auto simp: give_back_lists_def c_alloc_def upd_env_def env_core_def Let_def split: bind_splits prod.splits)
  have e5: "mt_env t' = (mt_env t4)\<lparr>me_txn := False\<rparr>"
    using s(3) by (auto simp: mdb_cursors_close_def upd_env_def split: bind_splits if_splits)
  then show "env_core (mt_env t') = env_core ((mt_env t)\<lparr>me_txn := False\<rparr>)" "me_txns (mt_env t') = me_txns (mt_env t)"
    "me_txkey (mt_env t') = me_txkey (mt_env t)"
    using e2 e3 e4 by (auto simp: env_core_def)
qed

end
