(* ===== verification/Txn_System.thy ===== *)
theory Txn_System
  imports Txn_Spec Free_List
begin

text \<open>
  The transactions of a process as a state machine.  A state is the write transaction \<open>me_txn0\<close> with the environment, and
  the open read transactions.  The steps are the operations of the code; between its start and its commit, the writer may do
  anything that leaves the reader table and the meta pages alone.
\<close>

section \<open>Steps\<close>

type_synonym system = "mdb_txn \<times> mdb_txn list"

definition writer_work :: "mdb_txn \<Rightarrow> mdb_txn \<Rightarrow> bool" where
  "writer_work t t' \<longleftrightarrow> me_txns (mt_env t') = me_txns (mt_env t) \<and> me_txkey (mt_env t') = me_txkey (mt_env t) \<and>
     me_maxreaders (mt_env t') = me_maxreaders (mt_env t) \<and> me_pid (mt_env t') = me_pid (mt_env t) \<and> me_txn (mt_env t') \<and>
     (me_pgoldest (mt_env t') = me_pgoldest (mt_env t) \<or> me_pgoldest (mt_env t') = mdb_find_oldest t) \<and>
     mt_flags t' AND MDB_TXN_RDONLY = 0 \<and> me_mapsize (mt_env t') = me_mapsize (mt_env t) \<and>
     (\<forall>n. committing t n \<longrightarrow> committing t' n) \<and> (\<forall>n m m'. meta_state (mt_env t) n m m' \<longrightarrow> meta_state (mt_env t') n m m')"

text \<open>A failed call sets an error number.\<close>

definition io_ok :: "io \<Rightarrow> bool" where
  "io_ok a \<longleftrightarrow> (case a of Done _ \<Rightarrow> True | Failed e _ \<Rightarrow> e \<noteq> MDB_SUCCESS)"

inductive step :: "system \<Rightarrow> system \<Rightarrow> bool" where
  begin_read: "mdb_txn_begin os flags t = Some (MDB_SUCCESS, t', Some r) \<Longrightarrow> step (t, rs) (t', r # rs)"
| end_read: "mdb_txn_abort (r\<lparr>mt_env := mt_env t\<rparr>) = Some r' \<Longrightarrow> step (t, xs @ r # ys) (t\<lparr>mt_env := mt_env r'\<rparr>, xs @ ys)"
| begin_write: "\<not> me_txn (mt_env t) \<Longrightarrow> mdb_txn_begin os 0 t = Some (MDB_SUCCESS, t', None) \<Longrightarrow> step (t, rs) (t', rs)"
| work: "me_txn (mt_env t) \<Longrightarrow> writer_work t t' \<Longrightarrow> step (t, rs) (t', rs)"
| abort_write: "me_txn (mt_env t) \<Longrightarrow> mdb_txn_abort t = Some t' \<Longrightarrow> step (t, rs) (t', rs)"
| commit: "me_txn (mt_env t) \<Longrightarrow> mt_txnid t < NO_TXNID \<Longrightarrow> io_ok w1 \<Longrightarrow> mdb_env_write_meta w1 w2 ms t = Some (MDB_SUCCESS, t1) \<Longrightarrow>
    commit_done t1 = Some t' \<Longrightarrow> step (t, rs) (t', rs)"

inductive_cases stepE: "step s s'"

text \<open>An environment that was just opened: the meta pages are valid, and the lock file has no readers of this process.\<close>

definition opened :: "mdb_txn \<Rightarrow> bool" where
  "opened t \<longleftrightarrow> (\<exists>e n m m'. mdb_env_share_locks e = Some (mt_env t) \<and> meta_state e n m m' \<and> n < NO_TXNID \<and> mm_last_pg m + 1 < 2 ^ 64 \<and>
     me_mapsize e < 2 ^ 64 \<and> me_pid e \<noteq> 0 \<and> \<not> me_txn e \<and> table_ok e \<and> me_pgoldest e = 0)"

inductive reachable :: "system \<Rightarrow> bool" where
  start: "opened t \<Longrightarrow> reachable (t, [])"
| next_step: "reachable s \<Longrightarrow> step s s' \<Longrightarrow> reachable s'"

section \<open>The invariant\<close>

text \<open>The slot of an open read transaction holds its ID, which is not newer than the last commit.\<close>

definition registered :: "mdb_env \<Rightarrow> nat \<Rightarrow> mdb_txn \<Rightarrow> bool" where
  "registered e n r \<longleftrightarrow> F_ISSET (mt_flags r) MDB_TXN_RDONLY \<and> mt_txnid r \<le> n \<and>
     (\<exists>i rd. mt_reader r = Some i \<and> slot e i = Some rd \<and> mr_pid rd = me_pid e \<and> mr_txnid rd = mt_txnid r)"

text \<open>The cached ID of the oldest reader is not newer than any reader.\<close>

definition oldest_ok :: "mdb_env \<Rightarrow> nat \<Rightarrow> bool" where
  "oldest_ok e n \<longleftrightarrow> me_pgoldest e \<le> n \<and> (\<forall>i rd. slot e i = Some rd \<longrightarrow> mr_pid rd \<noteq> 0 \<longrightarrow> me_pgoldest e \<le> mr_txnid rd)"

lemma oldest_ok_slot:
  assumes "oldest_ok e n" "only_slot e e' i" "me_pgoldest e' = me_pgoldest e" "\<And>rd. slot e' i = Some rd \<Longrightarrow> n \<le> mr_txnid rd"
  shows "oldest_ok e' n"
  unfolding oldest_ok_def
proof (intro conjI allI impI)
  fix j rd assume j: "slot e' j = Some rd" "mr_pid rd \<noteq> 0"
  show "me_pgoldest e' \<le> mr_txnid rd"
    using assms j by (cases "j = i") (auto simp: oldest_ok_def only_slot_def intro: order_trans)
qed (use assms in \<open>simp add: oldest_ok_def\<close>)

lemma oldest_ok_txns:
  assumes "oldest_ok e n" "map_option mti_readers (me_txns e') = map_option mti_readers (me_txns e)"
    "map_option mti_numreaders (me_txns e') = map_option mti_numreaders (me_txns e)" "me_pgoldest e' = me_pgoldest e" "n \<le> n'"
  shows "oldest_ok e' n'"
proof -
  have "slot e' i = slot e i" for i using assms(2,3)
    by (cases "me_txns e"; cases "me_txns e'") (auto simp: slot_def)
  then show ?thesis using assms by (auto simp: oldest_ok_def)
qed

lemma find_oldest_bound:
  assumes "a \<le> mt_txnid t - 1" "\<And>i rd. slot (mt_env t) i = Some rd \<Longrightarrow> mr_pid rd \<noteq> 0 \<Longrightarrow> a \<le> mr_txnid rd"
  shows "a \<le> mdb_find_oldest t"
proof (cases "me_txns (mt_env t)")
  case (Some ti)
  have "a \<le> mr_txnid rd" if rd: "rd \<in> set (take (mti_numreaders ti) (mti_readers ti))" "mr_pid rd \<noteq> 0" for rd
  proof -
    obtain i where "i < mti_numreaders ti" "i < length (mti_readers ti)" "mti_readers ti ! i = rd"
      using rd(1) by (auto simp: in_set_conv_nth)
    then show ?thesis using assms(2) [of i rd] Some rd(2) by (simp add: slot_def)
  qed
  then have "a \<le> foldr (\<lambda>r old. if mr_pid r \<noteq> 0 \<and> old > mr_txnid r then mr_txnid r else old) rs x"
    if "set rs \<subseteq> set (take (mti_numreaders ti) (mti_readers ti))" "a \<le> x" for rs x
    using that by (induction rs) auto
  then show ?thesis using Some assms(1) by (simp add: mdb_find_oldest_def)
qed (use assms in \<open>simp add: mdb_find_oldest_def\<close>)

lemma find_oldest_slot:
  assumes "slot (mt_env t) i = Some q" "mr_pid q \<noteq> 0" shows "mdb_find_oldest t \<le> mr_txnid q"
proof -
  obtain ti where ti: "me_txns (mt_env t) = Some ti" "i < mti_numreaders ti" "i < length (mti_readers ti)" "q = mti_readers ti ! i"
    using assms(1) by (auto simp: slot_def split: option.splits if_splits)
  then have "q \<in> set (take (mti_numreaders ti) (mti_readers ti))" by (auto simp: in_set_conv_nth)
  then show ?thesis using find_oldest_reader [OF ti(1)] assms(2) by simp
qed

definition sys_ok :: "system \<Rightarrow> nat \<Rightarrow> mdb_meta \<Rightarrow> mdb_meta \<Rightarrow> bool" where
  "sys_ok s n m m' \<longleftrightarrow> (case s of (t, rs) \<Rightarrow>
     meta_state (mt_env t) n m m' \<and> map_option mti_txnid (me_txns (mt_env t)) = Some n \<and> n < NO_TXNID \<and> mm_last_pg m + 1 < 2 ^ 64 \<and>
     me_mapsize (mt_env t) < 2 ^ 64 \<and> me_pid (mt_env t) \<noteq> 0 \<and> table_ok (mt_env t) \<and> oldest_ok (mt_env t) n \<and>
     (me_txn (mt_env t) \<longrightarrow> committing t n \<and> mt_flags t AND MDB_TXN_RDONLY = 0) \<and>
     (\<forall>r \<in> set rs. registered (mt_env t) n r) \<and> distinct (map mt_reader rs))"

lemma opened_ok:
  assumes "opened t" shows "\<exists>n m m'. sys_ok (t, []) n m m'"
proof -
  from assms obtain e n m m' where s: "mdb_env_share_locks e = Some (mt_env t)" "meta_state e n m m'"
    "n < NO_TXNID" "mm_last_pg m + 1 < 2 ^ 64" "me_mapsize e < 2 ^ 64" "me_pid e \<noteq> 0" "\<not> me_txn e" "table_ok e"
    "me_pgoldest e = 0" unfolding opened_def by blast
  note p = meta_state_picks(2,3) [OF s(2)]
  have id: "mm_txnid m = n" using s(2) by (simp add: meta_state_def)
  obtain ti where ti: "me_txns e = Some ti" "mt_env t = e\<lparr>me_txns := Some (ti\<lparr>mti_txnid := n\<rparr>)\<rparr>"
    using s(1) p id by (auto simp: mdb_env_share_locks_def split: bind_splits)
  have "meta_state (mt_env t) n m m'" using s(2) by (simp add: ti meta_state_def)
  moreover have "table_ok (mt_env t)" using s(8) by (simp add: ti table_ok_def)
  moreover have "oldest_ok (mt_env t) n" using s(9) by (simp add: oldest_ok_def ti)
  ultimately have "sys_ok (t, []) n m m'" using s by (simp add: sys_ok_def ti)
  then show ?thesis by blast
qed

text \<open>A reader stays registered while other slots change.\<close>

lemma registered_other:
  assumes "registered e n r" "only_slot e e' i" "mt_reader r \<noteq> Some i" "me_pid e' = me_pid e" "n \<le> n'"
  shows "registered e' n' r"
  using assms unfolding registered_def only_slot_def by fastforce

lemma registered_txns:
  assumes "registered e n r" "map_option mti_readers (me_txns e') = map_option mti_readers (me_txns e)"
    "map_option mti_numreaders (me_txns e') = map_option mti_numreaders (me_txns e)" "me_pid e' = me_pid e" "n \<le> n'"
  shows "registered e' n' r"
proof -
  have "slot e' i = slot e i" for i using assms(2,3)
    by (cases "me_txns e"; cases "me_txns e'") (auto simp: slot_def)
  then show ?thesis using assms(1,4,5) by (auto simp: registered_def)
qed

lemma step_begin_read:
  assumes ok: "sys_ok (t, rs) n m m'" and run: "mdb_txn_begin os flags t = Some (MDB_SUCCESS, t', Some r)"
  shows "sys_ok (t', r # rs) n m m'"
proof -
  have s: "meta_state (mt_env t) n m m'" "n < NO_TXNID" "me_pid (mt_env t) \<noteq> 0" "table_ok (mt_env t)"
    "me_txn (mt_env t) \<longrightarrow> committing t n \<and> mt_flags t AND MDB_TXN_RDONLY = 0"
    "\<forall>r \<in> set rs. registered (mt_env t) n r" "distinct (map mt_reader rs)"
    using ok by (auto simp: sys_ok_def)
  obtain ti where ti: "me_txns (mt_env t) = Some ti" "mti_txnid ti = n" using ok by (auto simp: sys_ok_def)
  obtain i rd b where r: "mt_reader r = Some i" "mt_flags r = MDB_TXN_RDONLY" "reads_at r n m" "only_slot (mt_env t) (mt_env r) i"
    "slot (mt_env r) i = Some rd" "mr_pid rd = me_pid (mt_env t)" "mr_txnid rd = n"
    and fresh: "\<And>r. slot (mt_env t) i = Some r \<Longrightarrow> mr_pid r = 0 \<or> mr_txnid r = NO_TXNID"
    and core: "env_core (mt_env r) = env_core (mt_env t)" "table_ok (mt_env r)" and t': "t' = t\<lparr>mt_brk := b, mt_env := mt_env r\<rparr>"
    using begin_reader [OF run ti(1) s(4)] s(1) ti(2) by metis
  have other: "mt_reader q \<noteq> Some i" if "q \<in> set rs" for q
    using s(2,3,6) fresh that unfolding registered_def by fastforce
  have old: "registered (mt_env r) n q" if "q \<in> set rs" for q
    using registered_other [OF _ r(4) other [OF that]] s(6) that core(1) by (auto simp: env_core_def)
  have new: "registered (mt_env r) n r"
    using r core(1) by (auto simp: registered_def reads_at_def F_ISSET_def env_core_def)
  have "meta_state (mt_env r) n m m'" using s(1) core(1) meta_state_env [of "mt_env r" "mt_env t"] by (simp add: env_core_def)
  moreover have "map_option mti_txnid (me_txns (mt_env r)) = Some n" using r(4) ti by (simp add: only_slot_def)
  moreover have "committing t' n" if "me_txn (mt_env r)" using s(5) that core(1) by (simp add: committing_def t' env_core_def)
  moreover have "Some i \<notin> mt_reader ` set rs" using other by force
  moreover have "oldest_ok (mt_env r) n"
    by (rule oldest_ok_slot [OF _ r(4)]) (use ok r(5,7) core(1) in \<open>auto simp: sys_ok_def env_core_def\<close>)
  ultimately show ?thesis
    using ok s old new core r(1) by (auto simp: sys_ok_def t' env_core_def)
qed

lemma step_end_read:
  assumes ok: "sys_ok (t, xs @ r # ys) n m m'" and run: "mdb_txn_abort (r\<lparr>mt_env := mt_env t\<rparr>) = Some r'"
  shows "sys_ok (t\<lparr>mt_env := mt_env r'\<rparr>, xs @ ys) n m m'"
proof -
  have s: "meta_state (mt_env t) n m m'" "table_ok (mt_env t)" "map_option mti_txnid (me_txns (mt_env t)) = Some n"
    "me_txn (mt_env t) \<longrightarrow> committing t n \<and> mt_flags t AND MDB_TXN_RDONLY = 0"
    "\<forall>q \<in> set (xs @ r # ys). registered (mt_env t) n q" "distinct (map mt_reader (xs @ r # ys))"
    using ok by (auto simp: sys_ok_def)
  obtain i where i: "mt_reader r = Some i" "F_ISSET (mt_flags r) MDB_TXN_RDONLY" using s(5) by (auto simp: registered_def)
  have "only_slot (mt_env t) (mt_env r') i" "env_core (mt_env r') = env_core (mt_env t)" "table_ok (mt_env r') = table_ok (mt_env t)"
    "\<And>q. slot (mt_env r') i = Some q \<Longrightarrow> mr_txnid q = NO_TXNID"
    using abort_reader [OF run, of i] i by auto
  note a = this
  have pid: "me_pid (mt_env r') = me_pid (mt_env t)" using a(2) by (simp add: env_core_def)
  have "registered (mt_env r') n q" if "q \<in> set (xs @ ys)" for q
  proof (rule registered_other [OF _ a(1) _ pid order_refl])
    show "registered (mt_env t) n q" using s(5) that by auto
    show "mt_reader q \<noteq> Some i" using s(6) that i(1) by force
  qed
  moreover have "meta_state (mt_env r') n m m'" using s(1) a(2) meta_state_env [of "mt_env r'" "mt_env t"] by (simp add: env_core_def)
  moreover have "committing (t\<lparr>mt_env := mt_env r'\<rparr>) n" if "me_txn (mt_env r')"
    using s(4) that a(2) by (simp add: committing_def env_core_def)
  moreover have "map_option mti_txnid (me_txns (mt_env r')) = Some n" using s(3) a(1) by (simp add: only_slot_def)
  moreover have "oldest_ok (mt_env r') n"
    by (rule oldest_ok_slot [OF _ a(1)]) (use ok a(2,4) in \<open>auto simp: sys_ok_def env_core_def\<close>)
  ultimately show ?thesis using ok s(4) a by (auto simp: sys_ok_def env_core_def)
qed

lemma step_begin_write:
  assumes ok: "sys_ok (t, rs) n m m'" and run: "mdb_txn_begin os 0 t = Some (MDB_SUCCESS, t', None)"
  shows "sys_ok (t', rs) n m m'"
proof -
  have s: "meta_state (mt_env t) n m m'" "n < NO_TXNID" "mm_last_pg m + 1 < 2 ^ 64" using ok by (auto simp: sys_ok_def)
  obtain ti where ti: "me_txns (mt_env t) = Some ti" "mti_txnid ti = n" using ok by (auto simp: sys_ok_def)
  have r: "mdb_txn_renew0 os (t\<lparr>mt_flags := 0\<rparr>) = Some (MDB_SUCCESS, t')"
    using run by (auto simp: mdb_txn_begin_def split: if_splits bind_splits)
  note w = renew0_writer [OF r, simplified, OF ti(1), unfolded ti(2), OF s(1)]
  have g: "meta_ranges m" "mm_psize m = me_psize (mt_env t)" using s(1) by (auto simp: meta_state_def meta_on_def)
  have "(n + 1) mod 2 ^ 64 = n + 1" "(mm_last_pg m + 1) mod 2 ^ 64 = mm_last_pg m + 1"
    using s(2,3) by (simp_all add: NO_TXNID_def)
  then have "committing t' n" using w g s(2,3) ok
    by (simp add: committing_def meta_ranges_def mm_psize_def NO_TXNID_def sys_ok_def)
  moreover have "meta_state (mt_env t') n m m'" using s(1) w(1) by (simp add: meta_state_def)
  moreover have "registered (mt_env t') n r" if "r \<in> set rs" for r
    using ok that w(1) by (auto simp: sys_ok_def registered_def slot_def)
  moreover have "table_ok (mt_env t')" using ok w(1) by (auto simp: sys_ok_def table_ok_def)
  moreover have "oldest_ok (mt_env t') n" using ok w(1) by (auto simp: sys_ok_def intro: oldest_ok_txns)
  ultimately show ?thesis using ok w by (simp add: sys_ok_def)
qed

lemma step_work:
  assumes ok: "sys_ok (t, rs) n m m'" and run: "me_txn (mt_env t)" "writer_work t t'"
  shows "sys_ok (t', rs) n m m'"
proof -
  have "registered (mt_env t') n r" if "r \<in> set rs" for r
    using ok that run by (auto simp: sys_ok_def writer_work_def intro: registered_txns)
  moreover have "oldest_ok (mt_env t') n"
  proof (cases "me_pgoldest (mt_env t') = me_pgoldest (mt_env t)")
    case True
    then show ?thesis using ok run(2) by (auto simp: sys_ok_def writer_work_def intro: oldest_ok_txns)
  next
    case False
    then have old: "me_pgoldest (mt_env t') = mdb_find_oldest t" "me_txns (mt_env t') = me_txns (mt_env t)"
      using run(2) by (auto simp: writer_work_def)
    have "mdb_find_oldest t \<le> n" using find_oldest_le [of t] ok run(1) by (simp add: sys_ok_def committing_def)
    then show ?thesis using find_oldest_slot [of t] by (simp add: oldest_ok_def old slot_def)
  qed
  ultimately show ?thesis using ok run by (auto simp: sys_ok_def writer_work_def table_ok_def)
qed

lemma step_abort_write:
  assumes ok: "sys_ok (t, rs) n m m'" and run: "me_txn (mt_env t)" "mdb_txn_abort t = Some t'"
  shows "sys_ok (t', rs) n m m'"
proof -
  have a: "env_core (mt_env t') = env_core ((mt_env t)\<lparr>me_txn := False\<rparr>)" "me_txns (mt_env t') = me_txns (mt_env t)"
    "me_txkey (mt_env t') = me_txkey (mt_env t)"
    using abort_writer [OF run(2)] ok run(1) by (auto simp: sys_ok_def)
  have "registered (mt_env t') n r" if "r \<in> set rs" for r
    using ok that a by (auto simp: sys_ok_def env_core_def intro: registered_txns)
  moreover have "meta_state (mt_env t') n m m'" using ok a(1) by (auto simp: sys_ok_def env_core_def meta_state_def)
  moreover have "oldest_ok (mt_env t') n" using ok a by (auto simp: sys_ok_def env_core_def intro: oldest_ok_txns)
  ultimately show ?thesis using ok a by (auto simp: sys_ok_def env_core_def table_ok_def)
qed

lemma write_meta_success:
  assumes st: "meta_state (mt_env t) n m m'" and c: "committing t n" and run: "mdb_env_write_meta w1 w2 ms t = Some (MDB_SUCCESS, t')"
    and io: "io_ok w1"
  shows "meta_state (mt_env t') (n + 1) (next_meta t m m') m"
    "me_txns (mt_env t') = map_option (\<lambda>ti. ti\<lparr>mti_txnid := n + 1\<rparr>) (me_txns (mt_env t))"
    "\<exists>f ti. t' = t\<lparr>mt_env := (mt_env t)\<lparr>me_map := f, me_txns := ti\<rparr>\<rparr>"
proof -
  note nw = new_meta_spec(1) [OF st c]
  have ok: "if me_flags (mt_env t) AND MDB_WRITEMAP = 0 then w1 = Done (io_count w1) \<and> 120 \<le> io_count w1
      else me_flags (mt_env t) AND (MDB_NOMETASYNC OR MDB_NOSYNC) \<noteq> 0 \<or> ms = MDB_SUCCESS"
    using run io
    by (auto simp: mdb_env_write_meta_def nw Let_def c_pwrite_def io_count_def io_ok_def min_def split: if_splits io.splits bind_splits)
  obtain t1 where "mdb_env_write_meta w1 w2 ms t = Some (MDB_SUCCESS, t1)" "meta_state (mt_env t1) (n + 1) (next_meta t m m') m"
    "me_txns (mt_env t1) = map_option (\<lambda>ti. ti\<lparr>mti_txnid := n + 1\<rparr>) (me_txns (mt_env t))"
    "t1 = t\<lparr>mt_env := (mt_env t)\<lparr>me_map := me_map (mt_env t1), me_txns := me_txns (mt_env t1)\<rparr>\<rparr>"
    by (rule write_meta_commits [OF st c ok])
  with run show "meta_state (mt_env t') (n + 1) (next_meta t m m') m"
    "me_txns (mt_env t') = map_option (\<lambda>ti. ti\<lparr>mti_txnid := n + 1\<rparr>) (me_txns (mt_env t))"
    "\<exists>f ti. t' = t\<lparr>mt_env := (mt_env t)\<lparr>me_map := f, me_txns := ti\<rparr>\<rparr>"
    by (auto simp only: option.inject prod.inject)
qed

lemma step_commit:
  assumes ok: "sys_ok (t, rs) n m m'" and tx: "me_txn (mt_env t)" "mt_txnid t < NO_TXNID" "io_ok w1"
    and run: "mdb_env_write_meta w1 w2 ms t = Some (MDB_SUCCESS, t1)" "commit_done t1 = Some t'"
  shows "sys_ok (t', rs) (n + 1) (next_meta t m m') m"
proof -
  have s: "meta_state (mt_env t) n m m'" "committing t n" using ok tx by (auto simp: sys_ok_def)
  note w = write_meta_success [OF s run(1) tx(3)]
  obtain f ti where t1: "t1 = t\<lparr>mt_env := (mt_env t)\<lparr>me_map := f, me_txns := ti\<rparr>\<rparr>" using w(3) by blast
  have d: "env_core (mt_env t') = env_core ((mt_env t1)\<lparr>me_txn := False\<rparr>)" "me_txns (mt_env t') = me_txns (mt_env t1)"
    "me_txkey (mt_env t') = me_txkey (mt_env t1)"
    using dbis_update_core [OF run(2) [unfolded commit_done_def]] by (auto simp: same_core_def env_core_def)
  have "registered (mt_env t') (n + 1) r" if "r \<in> set rs" for r
  proof (rule registered_txns [of "mt_env t" n])
    show "registered (mt_env t) n r" using ok that by (simp add: sys_ok_def)
  qed (use d w(2) in \<open>auto simp: env_core_def t1 option.map_comp comp_def\<close>)
  moreover have "meta_state (mt_env t') (n + 1) (next_meta t m m') m" using w(1) d(1) by (simp add: env_core_def meta_state_def)
  moreover have "oldest_ok (mt_env t') (n + 1)"
  proof (rule oldest_ok_txns [of "mt_env t" n])
    show "oldest_ok (mt_env t) n" using ok by (simp add: sys_ok_def)
  qed (use d w(2) in \<open>auto simp: env_core_def t1 option.map_comp comp_def\<close>)
  moreover have "table_ok (mt_env t')"
    using ok d w(2) by (auto simp: sys_ok_def env_core_def table_ok_def t1)
  ultimately show ?thesis using ok d w(2) s(2) tx(2) t1
    by (auto simp: sys_ok_def env_core_def committing_def next_meta_def)
qed

lemma reachable_ok: "reachable s \<Longrightarrow> \<exists>n m m'. sys_ok s n m m'"
proof (induction rule: reachable.induct)
  case (start t)
  then show ?case by (rule opened_ok)
next
  case (next_step s s')
  then obtain n m m' where ok: "sys_ok s n m m'" by blast
  from next_step(2) show ?case
  proof cases
    case begin_read
    then show ?thesis using step_begin_read ok by blast
  next
    case end_read
    then show ?thesis using step_end_read ok by blast
  next
    case begin_write
    then show ?thesis using step_begin_write ok by blast
  next
    case work
    then show ?thesis using step_work ok by blast
  next
    case abort_write
    then show ?thesis using step_abort_write ok by blast
  next
    case commit
    then show ?thesis using step_commit ok by blast
  qed
qed

end
