(* ===== verification/Txn_Live.thy ===== *)
theory Txn_Live
  imports Txn_System
begin

text \<open>
  Starting a transaction succeeds: the loops over the reader table and the database handles end, and the result is an
  error only for the reasons given.
\<close>

section \<open>Starting a read transaction succeeds\<close>

lemma free_slot_total: "i + n \<le> length rs \<Longrightarrow> \<exists>j. free_slot rs i n = Some j"
  by (induction n arbitrary: i) (auto simp: mem_simps)

lemma free_slot_first:
  assumes "free_slot rs i n = Some j" "k < j" "i \<le> k" shows "mr_pid (rs ! k) \<noteq> 0"
  using assms
proof (induction n arbitrary: i)
  case (Suc n)
  from Suc.prems(1) consider "j = i" | "mr_pid (rs ! i) \<noteq> 0" "free_slot rs (i + 1) n = Some j"
    by (auto simp: c_read_eq_Some_iff split: bind_splits if_splits)
  then show ?case
  proof cases
    case 2
    then show ?thesis using Suc.IH [OF 2(2) Suc.prems(2)] Suc.prems(3) by (cases "k = i") auto
  qed (use Suc.prems in auto)
qed simp

lemma named_dbs_total:
  "i + n \<le> length (mt_dbs t) \<Longrightarrow> i + n \<le> length (mt_dbflags t) \<Longrightarrow> i + n \<le> length (me_dbflags (mt_env t)) \<Longrightarrow>
     \<exists>t'. named_dbs t i n = Some t' \<and> length (mt_dbflags t') = length (mt_dbflags t)"
proof (induction n arbitrary: t i)
  case (Suc n)
  let ?x = "me_dbflags (mt_env t) ! i"
  define t1 where "t1 = t\<lparr>mt_dbs := (mt_dbs t)[i := (mt_dbs t ! i)\<lparr>md_flags := ?x AND PERSISTENT_FLAGS\<rparr>],
    mt_dbflags := (mt_dbflags t)[i := if ?x AND MDB_VALID \<noteq> 0 then DB_VALID OR DB_STALE else 0]\<rparr>"
  have "named_dbs t i (Suc n) = named_dbs t1 (i + 1) n" using Suc.prems by (simp add: mem_simps t1_def)
  moreover have "\<exists>t'. named_dbs t1 (i + 1) n = Some t' \<and> length (mt_dbflags t') = length (mt_dbflags t1)"
    using Suc.prems by (intro Suc.IH) (auto simp: t1_def)
  ultimately show ?case by (simp add: t1_def)
qed simp

lemma renew_dbs_total:
  assumes "2 \<le> length (mt_dbs t)" "2 \<le> length (mt_dbflags t)" "mt_numdbs t \<le> length (mt_dbs t)" "mt_numdbs t \<le> length (mt_dbflags t)"
    "mt_numdbs t \<le> length (me_dbflags (mt_env t))" "2 \<le> length (me_dbflags (mt_env t))"
  shows "\<exists>t'. renew_dbs meta t = Some t'"
proof -
  define t1 where "t1 = t\<lparr>mt_dbs := (mt_dbs t)[0 := fst (mm_dbs meta), 1 := snd (mm_dbs meta)],
    mt_next_pgno := (mm_last_pg meta + 1) mod 2 ^ 64\<rparr>"
  obtain t2 where t2: "named_dbs t1 2 (mt_numdbs t - 2) = Some t2" "length (mt_dbflags t2) = length (mt_dbflags t1)"
  proof -
    have "\<exists>t2. named_dbs t1 2 (mt_numdbs t - 2) = Some t2 \<and> length (mt_dbflags t2) = length (mt_dbflags t1)"
      by (rule named_dbs_total) (use assms in \<open>simp_all add: t1_def le_diff_conv\<close>)
    then show ?thesis using that by blast
  qed
  have "c_write (mt_dbs t) 0 x = Some ((mt_dbs t)[0 := x])" "c_write ((mt_dbs t)[0 := x]) 1 y = Some ((mt_dbs t)[0 := x, 1 := y])" for x y
    using assms(1) by (auto simp: c_write_def)
  then have "renew_dbs meta t = do { fs \<leftarrow> c_write (mt_dbflags t2) 1 DB_VALID; fs \<leftarrow> c_write fs 0 DB_VALID; Some (t2\<lparr>mt_dbflags := fs\<rparr>) }"
    using t2(1) [unfolded t1_def] by (simp add: renew_dbs_def)
  moreover have "2 \<le> length (mt_dbflags t2)" using t2(2) assms(2) by (simp add: t1_def)
  ultimately show ?thesis by (auto simp: c_write_def)
qed

text \<open>An environment in which a thread without a slot can start a read transaction, as far as memory and locks are concerned.\<close>

definition healthy :: "thread_os \<Rightarrow> mdb_txn \<Rightarrow> bool" where
  "healthy os t \<longleftrightarrow> me_flags (mt_env t) AND MDB_FATAL_ERROR = 0 \<and> \<not> mt_oom t (mt_brk t) \<and>
     me_flags (mt_env t) AND MDB_NOTLS = 0 \<and> me_txkey (mt_env t) (th_tid os) = None \<and>
     th_pidset os = MDB_SUCCESS \<and> th_rlock os = MDB_SUCCESS \<and> th_setspecific os = MDB_SUCCESS \<and>
     2 \<le> me_maxdbs (mt_env t) \<and> me_numdbs (mt_env t) \<le> me_maxdbs (mt_env t) \<and> me_maxdbs (mt_env t) \<le> length (me_dbflags (mt_env t))"

lemma begin_reader_outcome:
  assumes ok: "sys_ok (t, rs) n m m'" and h: "healthy os t" and fl: "flags AND MDB_RDONLY \<noteq> 0"
    and room: "mm_last_pg m < me_maxpg (mt_env t)" and ti: "me_txns (mt_env t) = Some ti"
  shows "if \<exists>i < me_maxreaders (mt_env t). mti_numreaders ti \<le> i \<or> mr_pid (mti_readers ti ! i) = 0
    then \<exists>t' r. mdb_txn_begin os flags t = Some (MDB_SUCCESS, t', Some r)
    else \<exists>t'. mdb_txn_begin os flags t = Some (MDB_READERS_FULL, t', None)"
proof -
  let ?e = "mt_env t"
  have s: "meta_state ?e n m m'" "mti_txnid ti = n" "n < NO_TXNID" "mm_last_pg m + 1 < 2 ^ 64"
    and tab: "mti_numreaders ti \<le> me_maxreaders ?e" "me_maxreaders ?e \<le> length (mti_readers ti)"
    using ok ti by (auto simp: sys_ok_def table_ok_def)
  define t1 where "t1 = new_reader (snd (c_alloc t :: nat alloc \<times> mdb_txn))"
  define t2 where "t2 = t1\<lparr>mt_numdbs := me_numdbs ?e, mt_dbxs := me_dbxs ?e, mt_reset := False\<rparr>"
  have e1: "mt_env t1 = ?e" "mt_flags t1 AND MDB_TXN_RDONLY \<noteq> 0" "mt_reader t1 = None"
    "length (mt_dbs t1) = me_maxdbs ?e" "length (mt_dbflags t1) = me_maxdbs ?e"
    by (simp_all add: t1_def new_reader_def c_alloc_def MDB_TXN_RDONLY_def)
  have al: "fst (c_alloc t :: nat alloc \<times> mdb_txn) \<noteq> None" using h by (simp add: c_alloc_def healthy_def)
  obtain j where j: "free_slot (mti_readers ti) 0 (mti_numreaders ti) = Some j" using free_slot_total [of 0] tab by force
  note f = free_slot_spec [OF j, simplified] free_slot_first [OF j]
  show ?thesis
  proof (cases "j = me_maxreaders ?e")
    case True
    then have nf: "\<not> (\<exists>i < me_maxreaders ?e. mti_numreaders ti \<le> i \<or> mr_pid (mti_readers ti ! i) = 0)" using f tab by auto
    have "\<exists>t3. reader_slot os t2 = Some (Inl MDB_READERS_FULL, t3)"
      using h j True ti e1 by (auto simp: reader_slot_def take_slot_def healthy_def t2_def)
    then have "\<exists>t3. mdb_txn_renew0 os t1 = Some (MDB_READERS_FULL, t3)"
      using e1 ti by (auto simp: mdb_txn_renew0_def renew_reader_def t2_def)
    then have "\<exists>t'. mdb_txn_begin os flags t = Some (MDB_READERS_FULL, t', None)"
      using h fl al by (auto simp: mdb_txn_begin_def healthy_def Let_def t1_def split: prod.split)
    then show ?thesis using nf by (simp only: if_False)
  next
    case False
    have fr: "\<exists>i < me_maxreaders ?e. mti_numreaders ti \<le> i \<or> mr_pid (mti_readers ti ! i) = 0"
      using False f tab by (intro exI [of _ j]) auto
    have lt: "j < length (mti_readers ti)" using False f tab by auto
    have "\<exists>t3. reader_slot os t2 = Some (Inr (j, False), t3) \<and> me_dbflags (mt_env t3) = me_dbflags ?e \<and> t3\<lparr>mt_env := ?e\<rparr> = t2"
      using h j False ti e1 lt by (auto simp: reader_slot_def take_slot_def healthy_def t2_def mem_simps upd_env_def)
    then obtain t3 where t3: "reader_slot os t2 = Some (Inr (j, False), t3)" "me_dbflags (mt_env t3) = me_dbflags ?e" "t3\<lparr>mt_env := ?e\<rparr> = t2"
      by blast
    have e2: "mt_env t2 = ?e" "mt_reader t2 = None" "mt_flags t2 AND MDB_TXN_RDONLY \<noteq> 0" using e1 by (simp_all add: t2_def)
    have t3': "mt_numdbs t3 = me_numdbs ?e" "mt_dbs t3 = mt_dbs t1" "mt_dbflags t3 = mt_dbflags t1"
      using arg_cong [OF t3(3), of mt_numdbs] arg_cong [OF t3(3), of mt_dbs] arg_cong [OF t3(3), of mt_dbflags] by (simp_all add: t2_def)
    have tk: "table_ok ?e" using ok by (simp add: sys_ok_def)
    note rs = reader_slot_spec [OF t3(1), unfolded e2, OF tk refl]
    obtain ti3 where ti3: "me_txns (mt_env t3) = Some ti3" "j < length (mti_readers ti3)"
      using rs(2) by (auto simp: slot_def split: option.splits if_splits)
    define t4 where "t4 = upd_env (\<lambda>e. e\<lparr>me_txns := Some (ti3\<lparr>mti_readers := (mti_readers ti3)[j := (mti_readers ti3 ! j)\<lparr>mr_txnid := n\<rparr>]\<rparr>)\<rparr>) t3"
    have u: "upd_reader j (\<lambda>r. r\<lparr>mr_txnid := n\<rparr>) t3 = Some t4" using ti3 by (auto simp: upd_reader_eq_Some_iff t4_def)
    have st4: "meta_state (mt_env t4) n m m'" "me_maxpg (mt_env t4) = me_maxpg ?e"
      using s(1) rs(4) meta_state_env [of "mt_env t4" ?e] by (simp_all add: t4_def env_core_def)
    obtain t5 where t5: "renew_dbs m (t4\<lparr>mt_txnid := n, mt_reader := Some j\<rparr>) = Some t5"
      using renew_dbs_total [of "t4\<lparr>mt_txnid := n, mt_reader := Some j\<rparr>" m] h e1 t3' t3(2)
      by (auto simp: t4_def upd_env_def healthy_def)
    note d = renew_dbs_spec [OF t5]
    have "me_maxpg (mt_env t5) \<ge> mt_next_pgno t5" using d(2,3) st4(2) room s(4) by simp
    then have "mdb_txn_renew0 os t1 = Some (MDB_SUCCESS, t5)"
      using e1 ti t3(1) [unfolded t2_def] u meta_state_picks(3) [OF st4(1)] t5 s(2)
      by (simp add: mdb_txn_renew0_def renew_reader_def)
    then have "\<exists>t' r. mdb_txn_begin os flags t = Some (MDB_SUCCESS, t', Some r)"
      using h fl al by (auto simp: mdb_txn_begin_def healthy_def Let_def t1_def split: prod.split)
    then show ?thesis using fr by (simp only: if_True)
  qed
qed

section \<open>Starting a write transaction succeeds\<close>

definition can_write :: "thread_os \<Rightarrow> mdb_txn \<Rightarrow> bool" where
  "can_write os t \<longleftrightarrow> me_flags (mt_env t) AND MDB_FATAL_ERROR = 0 \<and> me_flags (mt_env t) AND MDB_RDONLY = 0 \<and> th_wlock os = MDB_SUCCESS \<and>
     me_dirty_list (mt_env t) \<noteq> [] \<and> (\<exists>fp. me_free_pgs (mt_env t) = Some fp \<and> cells fp \<noteq> []) \<and>
     me_maxdbs (mt_env t) \<le> length (me_dbiseqs (mt_env t)) \<and> me_maxdbs (mt_env t) \<le> length (mt_dbiseqs t) \<and>
     2 \<le> me_maxdbs (mt_env t) \<and> me_numdbs (mt_env t) \<le> me_maxdbs (mt_env t) \<and> me_maxdbs (mt_env t) \<le> length (me_dbflags (mt_env t)) \<and>
     me_maxdbs (mt_env t) \<le> length (mt_dbs t) \<and> me_maxdbs (mt_env t) \<le> length (mt_dbflags t)"

lemma begin_writer_outcome:
  assumes w: "can_write os t" and ti: "me_txns (mt_env t) = Some ti" and st: "meta_state (mt_env t) (mti_txnid ti) m m'"
    and room: "mm_last_pg m < me_maxpg (mt_env t)" "mm_last_pg m + 1 < 2 ^ 64"
  shows "\<exists>t'. mdb_txn_begin os 0 t = Some (MDB_SUCCESS, t', None)"
proof -
  define t1 where "t1 = t\<lparr>mt_flags := 0, mt_numdbs := me_numdbs (mt_env t), mt_dbxs := me_dbxs (mt_env t), mt_reset := False\<rparr>"
  have "\<exists>t2. renew_writer os t1 = Some (Inr (m, False), t2) \<and> mt_env t2 = (mt_env t)\<lparr>me_txn := True\<rparr> \<and> mt_numdbs t2 = me_numdbs (mt_env t) \<and>
      mt_dbs t2 = mt_dbs t \<and> mt_dbflags t2 = mt_dbflags t"
    using w ti meta_state_picks(3) [OF st]
    by (auto simp: renew_writer_def t1_def can_write_def mem_simps upd_env_def)
  then obtain t2 where t2: "renew_writer os t1 = Some (Inr (m, False), t2)" "mt_env t2 = (mt_env t)\<lparr>me_txn := True\<rparr>"
    "mt_numdbs t2 = me_numdbs (mt_env t)" "mt_dbs t2 = mt_dbs t" "mt_dbflags t2 = mt_dbflags t" by blast
  obtain t3 where t3: "renew_dbs m t2 = Some t3"
    using renew_dbs_total [of t2 m] w t2 by (auto simp: can_write_def)
  note d = renew_dbs_spec [OF t3]
  have "mt_next_pgno t3 \<le> me_maxpg (mt_env t3)" using d(2,3) room t2(2) by simp
  then have "mdb_txn_renew0 os (t\<lparr>mt_flags := 0\<rparr>) = Some (MDB_SUCCESS, t3)"
    using t2(1) [unfolded t1_def] t3 by (simp add: mdb_txn_renew0_def)
  then show ?thesis using w by (simp add: mdb_txn_begin_def can_write_def)
qed

end
