(* ===== verification/Txn_Claims.thy ===== *)
theory Txn_Claims
  imports Txn_Live Cursor_Ops
begin

text \<open>
  Properties of the meta pages and of transactions: commits are atomic, readers are registered as long as they run, and
  what is left of an aborted transaction; with a sample environment that was opened on an empty file.
\<close>

section \<open>Loose pages of an aborted transaction\<close>

definition single_page :: "page \<Rightarrow> bool" where
  "single_page p \<longleftrightarrow> (\<exists>fl. mp_flags p = Some fl \<and> \<not> IS_OVERFLOW fl)"

lemma dpage_free_keeps:
  assumes "mdb_dpage_free t b = Some t'" "mt_heap t a = Some p" "single_page p"
  shows "mt_heap t' a = Some p" "set (me_dpages (mt_env t)) \<subseteq> set (me_dpages (mt_env t'))" "mt_loose_pgs t' = mt_loose_pgs t"
    "b = a \<Longrightarrow> a \<in> set (me_dpages (mt_env t'))"
  using assms by (auto simp: mdb_dpage_free_def mdb_page_free_def upd_env_def single_page_def split: bind_splits if_splits)

lemma dlist_free_loop_dpages:
  assumes "dlist_free_loop t dl i n = Some t'" "mt_heap t a = Some p" "single_page p"
    and "a \<in> set (me_dpages (mt_env t)) \<or> (\<exists>k. i \<le> k \<and> k < i + n \<and> mptr (dl ! k) = PBuf a)"
  shows "a \<in> set (me_dpages (mt_env t'))" "mt_loose_pgs t' = mt_loose_pgs t"
proof -
  have "a \<in> set (me_dpages (mt_env t')) \<and> mt_loose_pgs t' = mt_loose_pgs t"
    using assms
  proof (induction n arbitrary: t i)
    case (Suc n)
    from Suc.prems(1) obtain b t1 where b: "mptr (dl ! i) = PBuf b" "mdb_dpage_free t b = Some t1" "dlist_free_loop t1 dl (i + 1) n = Some t'"
      by (auto simp: c_read_eq_Some_iff split: bind_splits page_ptr.splits)
    note k = dpage_free_keeps [OF b(2) Suc.prems(2,3)]
    have "a \<in> set (me_dpages (mt_env t1)) \<or> (\<exists>k. i + 1 \<le> k \<and> k < i + 1 + n \<and> mptr (dl ! k) = PBuf a)"
    proof (cases "b = a \<or> a \<in> set (me_dpages (mt_env t))")
      case True
      then show ?thesis using k by auto
    next
      case False
      then obtain j where j: "i \<le> j" "j < i + Suc n" "mptr (dl ! j) = PBuf a" using Suc.prems(4) by blast
      then have "j \<noteq> i" using False b(1) by auto
      then show ?thesis using j by (intro disjI2 exI [of _ j]) auto
    qed
    then show ?case using Suc.IH [OF b(3) k(1) Suc.prems(3)] k(3) by auto
  qed auto
  then show "a \<in> set (me_dpages (mt_env t'))" "mt_loose_pgs t' = mt_loose_pgs t" by auto
qed

lemma dbis_loop_heap:
  "dbis_loop keep t n = Some t' \<Longrightarrow> mt_heap t' = mt_heap t \<and> mt_loose_pgs t' = mt_loose_pgs t \<and> mt_levels t' = mt_levels t"
proof (induction n arbitrary: t)
  case (Suc n)
  have "mt_heap t1 = mt_heap t \<and> mt_loose_pgs t1 = mt_loose_pgs t \<and> mt_levels t1 = mt_levels t"
    if "dbi_update keep t i = Some t1" for i t1
    using that by (auto simp: dbi_update_def upd_env_def split: if_splits bind_splits)
  with Suc show ?case by (fastforce split: if_splits bind_splits)
qed simp

lemma named_dbs_loose: "named_dbs t i n = Some t' \<Longrightarrow> mt_loose_pgs t' = mt_loose_pgs t \<and> mt_oom t' = mt_oom t"
  by (induction n arbitrary: t i) (fastforce split: bind_splits)+

lemma begin_writer_loose:
  assumes run: "mdb_txn_begin os 0 t = Some (MDB_SUCCESS, t', None)"
  shows "mt_loose_pgs t' = mt_loose_pgs t" "me_dpages (mt_env t') = me_dpages (mt_env t)" "mt_oom t' = mt_oom t"
proof -
  have r: "mdb_txn_renew0 os (t\<lparr>mt_flags := 0\<rparr>) = Some (MDB_SUCCESS, t')"
    using run by (auto simp: mdb_txn_begin_def split: if_splits bind_splits)
  define t1 where "t1 = t\<lparr>mt_flags := 0, mt_numdbs := me_numdbs (mt_env t), mt_dbxs := me_dbxs (mt_env t), mt_reset := False\<rparr>"
  obtain m t2 where w: "renew_writer os t1 = Some (Inr (m, False), t2)" "renew_dbs m t2 = Some t'"
    by (rule renew0_writer_steps [OF r]) (auto simp: t1_def)
  have "mt_loose_pgs t2 = mt_loose_pgs t" "me_dpages (mt_env t2) = me_dpages (mt_env t)" "mt_oom t2 = mt_oom t"
    using w(1) by (auto simp: renew_writer_def t1_def upd_env_def split: bind_splits if_splits option.splits)
  moreover have "mt_loose_pgs t' = mt_loose_pgs t2 \<and> mt_oom t' = mt_oom t2"
    using w(2) by (auto simp: renew_dbs_def split: bind_splits dest!: named_dbs_loose)
  ultimately show "mt_loose_pgs t' = mt_loose_pgs t" "me_dpages (mt_env t') = me_dpages (mt_env t)" "mt_oom t' = mt_oom t"
    using renew_dbs_spec(2) [OF w(2)] by auto
qed

text \<open>The page buffers of an aborted transaction are put on the list of free buffers, its loose pages among them.\<close>

lemma abort_writer_loose:
  assumes run: "mdb_txn_abort t = Some t'" and rw: "mt_flags t AND MDB_TXN_RDONLY = 0" "me_flags (mt_env t) AND MDB_WRITEMAP = 0"
    and dl: "own_dirty t = Some dl" "1 \<le> k" "k \<le> u32 (unat (mid (dl ! 0)))" "mptr (dl ! k) = PBuf a"
    and p: "mt_heap t a = Some p" "single_page p"
  shows "mt_loose_pgs t' = mt_loose_pgs t" "a \<in> set (me_dpages (mt_env t'))"
proof -
  obtain t1 t2 t3 t4 where 1: "mdb_dbis_update t False = Some t1" and t2: "t2 = upd_env (\<lambda>e. e\<lparr>me_pghead := None, me_pglast := 0\<rparr>) t1"
    and s3: "(if me_flags (mt_env t2) AND MDB_WRITEMAP = 0 then mdb_dlist_free t2 else Some t2) = Some t3"
    and s: "give_back_lists t3 = Some t4" "mdb_cursors_close (upd_env (\<lambda>e. e\<lparr>me_txn := False\<rparr>) t4) = Some t'"
    by (rule abort_writer_steps [OF run rw(1)])
  have h2: "mt_heap t2 = mt_heap t" "mt_loose_pgs t2 = mt_loose_pgs t" "own_dirty t2 = own_dirty t"
    using 1 by (auto simp: mdb_dbis_update_def own_dirty_def t2 upd_env_def split: bind_splits if_splits dest!: dbis_loop_heap)
  have "me_flags (mt_env t2) AND MDB_WRITEMAP = 0" using rw(2) dbis_update_core [OF 1] by (simp add: t2 same_core_def env_core_def)
  then have "mdb_dlist_free t2 = Some t3" using s3 by simp
  then obtain t2' dl' where l: "dlist_free_loop t2 dl 1 (u32 (unat (mid (dl ! 0)))) = Some t2'" "t3 = set_own_dirty t2' dl'"
    using dl(1) h2(3) by (auto simp: mdb_dlist_free_def c_read_eq_Some_iff split: bind_splits)
  have "a \<in> set (me_dpages (mt_env t2'))" "mt_loose_pgs t2' = mt_loose_pgs t2"
    by (rule dlist_free_loop_dpages [OF l(1), of a p]; use p h2 dl in auto)+
  then have "a \<in> set (me_dpages (mt_env t3))" "mt_loose_pgs t3 = mt_loose_pgs t" using h2 by (simp_all add: l(2) set_own_dirty_def)
  moreover have "me_dpages (mt_env t') = me_dpages (mt_env t3)" "mt_loose_pgs t' = mt_loose_pgs t3"
    using s by (auto simp: mdb_cursors_close_def give_back_lists_def c_alloc_def upd_env_def Let_def split: bind_splits if_splits prod.splits)
  ultimately show "mt_loose_pgs t' = mt_loose_pgs t" "a \<in> set (me_dpages (mt_env t'))" by simp_all
qed

section \<open>Readers\<close>

lemma reader_starts:
  assumes "reachable (t, rs)" "healthy os t" "flags AND MDB_RDONLY \<noteq> 0" "me_txns (mt_env t) = Some ti"
    "me_metas (mt_env t) (mti_txnid ti mod 2) = Some m" "mm_last_pg m < me_maxpg (mt_env t)"
  shows "if \<exists>i < me_maxreaders (mt_env t). mti_numreaders ti \<le> i \<or> mr_pid (mti_readers ti ! i) = 0
    then \<exists>t' r. mdb_txn_begin os flags t = Some (MDB_SUCCESS, t', Some r) \<and> reads_at r (mti_txnid ti) m
    else \<exists>t'. mdb_txn_begin os flags t = Some (MDB_READERS_FULL, t', None)"
proof -
  obtain n m0 m' where ok: "sys_ok (t, rs) n m0 m'" using reachable_ok [OF assms(1)] by blast
  have n: "mti_txnid ti = n" "meta_state (mt_env t) n m0 m'" "table_ok (mt_env t)" using ok assms(4) by (auto simp: sys_ok_def)
  then have m: "m0 = m" using meta_state_picks(3) [OF n(2)] assms(5) by simp
  have "reads_at r (mti_txnid ti) m" if "mdb_txn_begin os flags t = Some (MDB_SUCCESS, t', Some r)" for t' r
    by (rule begin_reader [OF that assms(4) n(3)]) (use n m in auto)
  note reads = this
  have room: "mm_last_pg m0 < me_maxpg (mt_env t)" using assms(6) m by simp
  note out = begin_reader_outcome [OF ok assms(2,3) room assms(4)]
  show ?thesis
  proof (cases "\<exists>i < me_maxreaders (mt_env t). mti_numreaders ti \<le> i \<or> mr_pid (mti_readers ti ! i) = 0")
    case True
    then show ?thesis using out reads by (simp only: if_True) blast
  next
    case False
    then show ?thesis using out by (simp only: if_False)
  qed
qed

lemma reader_keeps_writer:
  assumes "reachable (t, rs)" "mdb_txn_begin os flags t = Some (MDB_SUCCESS, t', Some r)"
  shows "me_txn (mt_env t') = me_txn (mt_env t)"
proof -
  obtain n m m' where ok: "sys_ok (t, rs) n m m'" using reachable_ok [OF assms(1)] by blast
  then obtain ti where ti: "me_txns (mt_env t) = Some ti" "mti_txnid ti = n" by (auto simp: sys_ok_def)
  have "table_ok (mt_env t)" "meta_state (mt_env t) (mti_txnid ti) m m'" using ok ti by (auto simp: sys_ok_def)
  then show ?thesis
  proof (rule begin_reader [OF assms(2) ti(1)])
    assume "env_core (mt_env r) = env_core (mt_env t)" "\<exists>b. t' = t\<lparr>mt_brk := b, mt_env := mt_env r\<rparr>"
    then show ?thesis by (auto simp: env_core_def)
  qed
qed

section \<open>A sample environment\<close>

text \<open>A new environment with pages of 4096 bytes and a reader table of two slots, and a transaction record for it.\<close>

definition sample_io :: open_io where
  "sample_io = \<lparr>o_read0 = Done 152, o_read1 = Done 152, o_trunc = MDB_SUCCESS, o_mmap = Inr 65536, o_oom = False, o_write = Done 8192\<rparr>"

definition sample_table :: mdb_txninfo where
  "sample_table = \<lparr>mti_txnid = 0, mti_numreaders = 0, mti_readers = replicate 2 \<lparr>mr_txnid = 0, mr_pid = 0, mr_tid = 0\<rparr>\<rparr>"

definition sample_closed :: mdb_env where
  "sample_closed = sample_env\<lparr>me_psize := 0, me_map := [], me_mapsize := 0, me_maxpg := 0, me_txns := Some sample_table, me_maxreaders := 2,
     me_free_pgs := Some \<lparr>alloclen = 1, cells = [0, 0]\<rparr>, me_dirty_list := replicate 2 \<lparr>mid = 0, mptr = PMap 0\<rparr>\<rparr>"

definition sample_txn0 :: "mdb_env \<Rightarrow> mdb_txn" where
  "sample_txn0 e = sample_txn\<lparr>mt_env := e, mt_flags := 0, mt_cursors := Some (replicate 2 []), mt_free_pgs := \<lparr>alloclen = 1, cells = [0, 0]\<rparr>,
     mt_txnid := 1, mt_next_pgno := 2, mt_dbs := [zero_db\<lparr>md_pad := 4096\<rparr>, zero_db],
     mt_levels := [\<lparr>mt_spill_pgs = None, dirty_list = replicate 2 \<lparr>mid = 0, mptr = PMap 0\<rparr>\<rparr>]\<rparr>"

definition sample_thread :: thread_os where
  "sample_thread = \<lparr>th_tid = 7, th_pidset = MDB_SUCCESS, th_rlock = MDB_SUCCESS, th_wlock = MDB_SUCCESS, th_setspecific = MDB_SUCCESS\<rparr>"

lemma sample_opened:
  obtains e m where "mdb_env_open2 sample_io 4096 [] sample_closed = Some (MDB_SUCCESS, e)" "meta_state e 0 m m" "me_psize e = 4096"
    "me_mapsize e = DEFAULT_MAPSIZE" "me_maxpg e = 256" "mm_last_pg m = 1" "mm_mapsize m = DEFAULT_MAPSIZE" "env_rest e = env_rest sample_closed"
proof (rule open2_new [of sample_io 152 4096 sample_closed 65536 8192])
  fix e m assume s: "mdb_env_open2 sample_io 4096 [] sample_closed = Some (MDB_SUCCESS, e)" "meta_state e 0 m m"
    "me_psize e = min 4096 MAX_PAGESIZE" "me_mapsize e = (if me_mapsize sample_closed = 0 then DEFAULT_MAPSIZE else me_mapsize sample_closed)"
    "me_maxpg e = me_mapsize e div me_psize e" "mm_last_pg m = 1" "env_rest e = env_rest sample_closed" "mm_mapsize m = me_mapsize e"
  have "me_mapsize sample_closed = 0" by (simp add: sample_closed_def)
  then show ?thesis using s by (intro that [of e m]) (simp_all add: MAX_PAGESIZE_def DEFAULT_MAPSIZE_def)
qed (simp_all add: sample_io_def sample_closed_def sample_env_def)

lemma sample_committing: "me_psize e = 4096 \<Longrightarrow> me_mapsize e = DEFAULT_MAPSIZE \<Longrightarrow> committing (sample_txn0 e) 0"
  by (simp add: committing_def sample_txn0_def db_ranges_def zero_db_def DEFAULT_MAPSIZE_def)

section \<open>Properties\<close>

text \<open>C12: a commit is atomic.  However many bytes of the new meta page reach the data file before a crash, opening the file finds the last committed
  transaction or the new one, with all of its fields; when all bytes are written it finds the new one.\<close>

theorem commit_crash_safe:
  assumes "meta_state (mt_env t) n m m'" "committing t n" "reads_all a0" "reads_all a1"
  shows "\<exists>f r. cut_off t k = Some f \<and> mdb_env_read_header f a0 a1 = Some (Inr r) \<and> (r = m \<or> r = next_meta t m m') \<and>
    (120 \<le> k \<longrightarrow> r = next_meta t m m')"
  by (rule cut_off_recovers [OF assms, of k]) blast

theorem commit_crash_safe_witness:
  "\<exists>e m. meta_state e 0 m m \<and> (\<exists>f r. cut_off (sample_txn0 e) 115 = Some f \<and>
     mdb_env_read_header f (Done 152) (Done 152) = Some (Inr r) \<and> (r = m \<or> r = next_meta (sample_txn0 e) m m))"
proof (rule sample_opened)
  fix e m assume s: "meta_state e 0 m m" "me_psize e = 4096" "me_mapsize e = DEFAULT_MAPSIZE"
  have "mt_env (sample_txn0 e) = e" by (simp add: sample_txn0_def)
  then show ?thesis
    using commit_crash_safe [of "sample_txn0 e" 0 m m "Done 152" "Done 152" 115] s sample_committing [OF s(2,3)]
    by (auto simp: reads_all_def)
qed

text \<open>C15: a commit replaces the older meta page: afterwards the new transaction is the last one, the one that was the last before is kept
  beside it, and the lock file has the new transaction ID.\<close>

theorem mdb_env_write_meta_correct:
  assumes "meta_state (mt_env t) n m m'" "committing t n"
    and "if me_flags (mt_env t) AND MDB_WRITEMAP = 0 then w1 = Done k \<and> 120 \<le> k
      else me_flags (mt_env t) AND (MDB_NOMETASYNC OR MDB_NOSYNC) \<noteq> 0 \<or> ms = MDB_SUCCESS"
  shows "\<exists>t'. mdb_env_write_meta w1 w2 ms t = Some (MDB_SUCCESS, t') \<and> meta_state (mt_env t') (n + 1) (next_meta t m m') m \<and>
    me_txns (mt_env t') = map_option (\<lambda>ti. ti\<lparr>mti_txnid := n + 1\<rparr>) (me_txns (mt_env t))"
  by (rule write_meta_commits [OF assms, of w2]) blast

theorem mdb_env_write_meta_correct_witness:
  "\<exists>e m t'. mdb_env_write_meta (Done 120) (Done 0) MDB_SUCCESS (sample_txn0 e) = Some (MDB_SUCCESS, t') \<and>
     meta_state (mt_env t') 1 (next_meta (sample_txn0 e) m m) m"
proof (rule sample_opened)
  fix e m assume s: "meta_state e 0 m m" "me_psize e = 4096" "me_mapsize e = DEFAULT_MAPSIZE" "env_rest e = env_rest sample_closed"
  have "mt_env (sample_txn0 e) = e" "me_flags e = 0" using s(4) by (simp_all add: sample_txn0_def env_rest_def sample_closed_def sample_env_def)
  then show ?thesis
    using mdb_env_write_meta_correct [of "sample_txn0 e" 0 m m "Done 120" 120 MDB_SUCCESS "Done 0"] s(1) sample_committing [OF s(2,3)]
    by auto
qed



text \<open>C17: opening an existing data file takes the page size and the data from it, finds the last committed transaction, makes room in the map for every
  page that transaction used, and leaves room for two nodes of the maximal size on a page.\<close>

theorem mdb_env_open2_correct:
  assumes "meta_state (e\<lparr>me_map := f, me_psize := ps\<rparr>) n m m'" "reads_all (o_read0 os)" "reads_all (o_read1 os)"
    and "me_flags e AND MDB_FIXEDMAP = 0" "me_flags e AND MDB_WRITEMAP = 0" "o_mmap os = Inr a" "(mm_last_pg m + 1) * ps \<le> mm_mapsize m"
  shows "\<exists>e'. mdb_env_open2 os os_psize f e = Some (MDB_SUCCESS, e') \<and> meta_state e' n m m' \<and> mdb_env_pick_meta e' = Some (n mod 2) \<and>
    me_map e' = f \<and> me_psize e' = ps \<and> mm_last_pg m < me_maxpg e' \<and> me_maxpg e' * ps \<le> me_mapsize e' \<and>
    MDB_MINKEYS * (me_nodemax e' + 2) \<le> ps - PAGEHDRSZ \<and> me_mapsize e \<le> me_mapsize e'"
proof (rule open2_existing [OF assms, of os_psize])
  fix e' assume "mdb_env_open2 os os_psize f e = Some (MDB_SUCCESS, e')" "meta_state e' n m m'" "me_map e' = f" "me_psize e' = ps"
    "me_maxpg e' = me_mapsize e' div ps" "MDB_MINKEYS * (me_nodemax e' + 2) \<le> ps - PAGEHDRSZ" "mm_last_pg m < me_maxpg e'" "me_mapsize e \<le> me_mapsize e'"
  then show ?thesis using meta_state_picks(2) by (intro exI [of _ e']) auto
qed

theorem mdb_env_open2_correct_witness:
  "\<exists>f e'. mdb_env_open2 sample_io 16384 f sample_closed = Some (MDB_SUCCESS, e') \<and> me_psize e' = 4096 \<and> 1 < me_maxpg e'"
proof (rule sample_opened)
  fix e m assume s: "meta_state e 0 m m" "me_psize e = 4096" "mm_last_pg m = 1" "mm_mapsize m = DEFAULT_MAPSIZE"
  have st: "meta_state (sample_closed\<lparr>me_map := me_map e, me_psize := 4096\<rparr>) 0 m m" using s(1,2) by (simp add: meta_state_def)
  have "reads_all (o_read0 sample_io)" "reads_all (o_read1 sample_io)" "me_flags sample_closed AND MDB_FIXEDMAP = 0"
    "me_flags sample_closed AND MDB_WRITEMAP = 0" "o_mmap sample_io = Inr 65536" "(mm_last_pg m + 1) * 4096 \<le> mm_mapsize m"
    using s(3,4) by (simp_all add: sample_closed_def sample_env_def sample_io_def reads_all_def DEFAULT_MAPSIZE_def)
  from mdb_env_open2_correct [OF st this, of 16384] s(3) show ?thesis by auto
qed

lemma sample_start:
  assumes "meta_state e 0 m m" "me_mapsize e = DEFAULT_MAPSIZE" "mm_last_pg m = 1" "env_rest e = env_rest sample_closed"
  shows "opened (sample_txn0 e)" "healthy sample_thread (sample_txn0 e)" "can_write sample_thread (sample_txn0 e)"
proof -
  have r: "me_flags e = 0" "me_txns e = Some sample_table" "me_txkey e = (\<lambda>_. None)" "me_pid e = 1" "\<not> me_txn e" "me_maxreaders e = 2"
    "me_pgoldest e = 0" "me_maxdbs e = 2" "me_numdbs e = 2" "me_dbflags e = [0, 0]"
    using assms(4) by (simp_all add: env_rest_def sample_closed_def sample_env_def)
  have "mm_txnid m = 0" using assms(1) by (simp add: meta_state_def)
  then have "mdb_env_share_locks e = Some (e\<lparr>me_txns := Some (sample_table\<lparr>mti_txnid := 0\<rparr>)\<rparr>)"
    using meta_state_picks(2,3) [OF assms(1)] r by (simp add: mdb_env_share_locks_def)
  moreover have "e\<lparr>me_txns := Some (sample_table\<lparr>mti_txnid := 0\<rparr>)\<rparr> = e" using r(2) by (cases e) (simp add: sample_table_def)
  ultimately show "opened (sample_txn0 e)"
    unfolding opened_def using assms r
    by (intro exI [of _ e] exI [of _ 0] exI [of _ m]) (simp add: sample_txn0_def NO_TXNID_def DEFAULT_MAPSIZE_def table_ok_def sample_table_def)
  show "healthy sample_thread (sample_txn0 e)"
    using r by (simp add: healthy_def sample_thread_def sample_txn0_def sample_txn_def)
  have "me_free_pgs e = Some \<lparr>alloclen = 1, cells = [0, 0]\<rparr>" "me_dirty_list e \<noteq> []" "me_dbiseqs e = [0, 0]"
    using assms(4) by (simp_all add: env_rest_def sample_closed_def sample_env_def)
  then show "can_write sample_thread (sample_txn0 e)"
    using r by (simp add: can_write_def sample_thread_def sample_txn0_def sample_txn_def)
qed




text \<open>A reader starts, then the writer.\<close>

lemma sample_reachable: "\<exists>t r. reachable (t, [r]) \<and> me_txn (mt_env t)"
proof (rule sample_opened)
  fix e m assume s: "meta_state e 0 m m" "me_mapsize e = DEFAULT_MAPSIZE" "me_maxpg e = 256" "mm_last_pg m = 1" "env_rest e = env_rest sample_closed"
  note st = sample_start [OF s(1,2,4,5)]
  have t: "me_txns e = Some sample_table" "mti_txnid sample_table = 0" "\<not> me_txn e" "me_maxreaders e = 2"
    using s(5) by (simp_all add: env_rest_def sample_closed_def sample_env_def sample_table_def)
  have e: "mt_env (sample_txn0 e) = e" by (simp add: sample_txn0_def)
  obtain t1 where t1: "mdb_txn_begin sample_thread 0 (sample_txn0 e) = Some (MDB_SUCCESS, t1, None)"
    using begin_writer_outcome [OF st(3), of sample_table m m] s t e by auto
  have r1: "reachable (t1, [])" by (rule next_step [OF start [OF st(1)] begin_write [OF _ t1]]) (simp add: e t)
  have e1: "mt_env t1 = e\<lparr>me_txn := True\<rparr>" and oom: "mt_oom t1 = (\<lambda>_. False)"
  proof -
    have "mdb_txn_renew0 sample_thread (sample_txn0 e\<lparr>mt_flags := 0\<rparr>) = Some (MDB_SUCCESS, t1)"
      using t1 by (auto simp: mdb_txn_begin_def split: if_splits bind_splits)
    from renew0_writer(1) [OF this, of sample_table m m] show "mt_env t1 = e\<lparr>me_txn := True\<rparr>" using t e s(1) by simp
    show "mt_oom t1 = (\<lambda>_. False)" using begin_writer_loose(3) [OF t1] by (simp add: sample_txn0_def sample_txn_def)
  qed
  have h: "healthy sample_thread t1" using st(2) oom by (simp add: healthy_def e1 e)
  have m: "me_metas (mt_env t1) (mti_txnid sample_table mod 2) = Some m"
    using meta_state_picks(3) [OF s(1)] by (simp add: sample_table_def me_metas_def e1)
  have fl: "MDB_RDONLY AND MDB_RDONLY \<noteq> 0" by (simp add: MDB_RDONLY_def)
  have "\<exists>i < me_maxreaders (mt_env t1). mti_numreaders sample_table \<le> i \<or> mr_pid (mti_readers sample_table ! i) = 0"
    by (rule exI [of _ 0]) (simp add: t e1 sample_table_def)
  then obtain t2 r where t2: "mdb_txn_begin sample_thread MDB_RDONLY t1 = Some (MDB_SUCCESS, t2, Some r)"
    using reader_starts [OF r1 h fl _ m] s(3,4) t(1) by (auto simp: e1)
  have "me_txn (mt_env t2)" using reader_keeps_writer [OF r1 t2] by (simp add: e1)
  then show ?thesis using next_step [OF r1 begin_read [OF t2]] by blast
qed


text \<open>C19: loose pages survive the transaction they belong to.  When a write transaction with a loose page is aborted, the page's buffer goes to the list of
  free buffers, but the record of the transaction keeps the list of loose pages; the next write transaction gets the buffer as its first
  page although it is still on the list of free buffers, from which it can be handed out a second time.\<close>

theorem aborted_loose_page:
  assumes "mt_flags t AND MDB_TXN_RDONLY = 0" "me_flags (mt_env t) AND MDB_WRITEMAP = 0" "mt_loose_pgs t = PBuf a # ls"
    "own_dirty t = Some dl" "1 \<le> k" "k \<le> u32 (unat (mid (dl ! 0)))" "mptr (dl ! k) = PBuf a" "mt_heap t a = Some p" "single_page p"
    "mdb_txn_abort t = Some t1" "mdb_txn_begin os 0 t1 = Some (MDB_SUCCESS, t2, None)"
  shows "\<exists>t3. mdb_page_alloc t2 1 = Some (Inr (PBuf a), t3) \<and> a \<in> set (me_dpages (mt_env t3))"
  using abort_writer_loose [OF assms(10,1,2,4-9)] begin_writer_loose(1,2) [OF assms(11)] assms(3) by (simp add: mdb_page_alloc_def)

text \<open>A transaction with one dirty page, which is loose.\<close>

definition sample_loose :: "mdb_env \<Rightarrow> mdb_txn" where
  "sample_loose e = (sample_txn0 e)\<lparr>mt_heap := [0 \<mapsto> replicate 4096 0], mt_loose_pgs := [PBuf 0], mt_loose_count := 1,
     mt_levels := [\<lparr>mt_spill_pgs = None, dirty_list = [\<lparr>mid = 1, mptr = PMap 0\<rparr>, \<lparr>mid = 5, mptr = PBuf 0\<rparr>]\<rparr>]\<rparr>"

lemma le_nat_zeros [simp]: "le_nat (replicate n 0) = 0"
  by (induction n) auto

lemma sample_abort:
  assumes "me_flags e = 0" "me_dpages e = []"
  shows "mdb_txn_abort (sample_loose e) = Some ((sample_loose e)\<lparr>mt_levels := [\<lparr>mt_spill_pgs = None,
      dirty_list = [\<lparr>mid = 0, mptr = PMap 0\<rparr>, \<lparr>mid = 5, mptr = PBuf 0\<rparr>]\<rparr>], mt_brk := 1,
    mt_env := e\<lparr>me_pghead := None, me_pglast := 0, me_dpages := [0], me_free_pgs := Some \<lparr>alloclen = 1, cells = [0, 0]\<rparr>,
      me_dirty_list := [\<lparr>mid = 0, mptr = PMap 0\<rparr>, \<lparr>mid = 5, mptr = PBuf 0\<rparr>], me_txn := False\<rparr>\<rparr>)"
proof -
  have p: "mp_flags (replicate 4096 0) = Some 0" "rd32 (replicate 4096 0) 12 = Some 0"
    by (simp_all add: mp_flags_def rd_def slice_def)
  have l: "dbis_loop keep t 2 = Some t" for keep t by (simp add: numeral_2_eq_2)
  have f: "dlist_free_loop t dl 1 1 = (case mptr (dl ! 1) of PMap _ \<Rightarrow> None | PBuf a \<Rightarrow> mdb_dpage_free t a)" if "length dl = 2" for t dl
    using that by (auto simp: c_read_def split: page_ptr.split)
  show ?thesis using assms
    by (simp add: mdb_txn_abort_def mdb_txn_reset0_def mdb_dbis_update_def sample_loose_def sample_txn0_def sample_txn_def l
      F_ISSET_def MDB_TXN_RDONLY_def upd_env_def mdb_dlist_free_def own_dirty_def c_read_def c_write_def f [unfolded One_nat_def] mdb_dpage_free_def p
      IS_OVERFLOW_def P_OVERFLOW_def mdb_page_free_def set_own_dirty_def give_back_lists_def c_alloc_def mdb_midl_shrink_def MDB_IDL_UM_MAX_def
      mdb_cursors_close_def)
qed

theorem aborted_loose_page_witness:
  "\<exists>e t1 t2 t3. mdb_txn_abort (sample_loose e) = Some t1 \<and> mdb_txn_begin sample_thread 0 t1 = Some (MDB_SUCCESS, t2, None) \<and>
     mdb_page_alloc t2 1 = Some (Inr (PBuf 0), t3) \<and> 0 \<in> set (me_dpages (mt_env t3))"
proof (rule sample_opened)
  fix e m assume s: "meta_state e 0 m m" "me_mapsize e = DEFAULT_MAPSIZE" "me_maxpg e = 256" "mm_last_pg m = 1" "env_rest e = env_rest sample_closed"
  have r: "me_flags e = 0" "me_dpages e = []" "me_txns e = Some sample_table"
    using s(5) by (simp_all add: env_rest_def sample_closed_def sample_env_def)
  obtain t1 where t1: "mdb_txn_abort (sample_loose e) = Some t1" and e1: "mt_env t1 = e\<lparr>me_pghead := None, me_pglast := 0, me_dpages := [0],
      me_free_pgs := Some \<lparr>alloclen = 1, cells = [0, 0]\<rparr>, me_dirty_list := [\<lparr>mid = 0, mptr = PMap 0\<rparr>, \<lparr>mid = 5, mptr = PBuf 0\<rparr>], me_txn := False\<rparr>"
    and l1: "mt_dbiseqs t1 = mt_dbiseqs (sample_txn0 e)" "mt_dbs t1 = mt_dbs (sample_txn0 e)" "mt_dbflags t1 = mt_dbflags (sample_txn0 e)"
    using sample_abort [OF r(1,2)] by (simp add: sample_loose_def)
  have "mt_env (sample_txn0 e) = e" by (simp add: sample_txn0_def)
  then have "can_write sample_thread t1" using sample_start(3) [OF s(1,2,4,5)] by (simp add: can_write_def e1 l1)
  moreover have "meta_state (mt_env t1) (mti_txnid sample_table) m m" using s(1) by (simp add: e1 meta_state_def sample_table_def)
  ultimately obtain t2 where t2: "mdb_txn_begin sample_thread 0 t1 = Some (MDB_SUCCESS, t2, None)"
    using begin_writer_outcome [of sample_thread t1 sample_table m m] r(3) s(3,4) by (auto simp: e1)
  have "mp_flags (replicate 4096 0) = Some 0" by (simp add: mp_flags_def rd_def slice_def)
  then have "single_page (replicate 4096 0)" by (simp add: single_page_def IS_OVERFLOW_def F_ISSET_def P_OVERFLOW_def)
  then have "\<exists>t3. mdb_page_alloc t2 1 = Some (Inr (PBuf 0), t3) \<and> 0 \<in> set (me_dpages (mt_env t3))"
    using r(1) by (intro aborted_loose_page [OF _ _ _ _ _ _ _ _ _ t1 t2, where ls = "[]" and k = 1
        and dl = "[\<lparr>mid = 1, mptr = PMap 0\<rparr>, \<lparr>mid = 5, mptr = PBuf 0\<rparr>]" and p = "replicate 4096 0"])
      (simp_all add: sample_loose_def sample_txn0_def own_dirty_def)
  then show ?thesis using t1 t2 by blast
qed

end
