(* ===== verification/Reader_Table.thy ===== *)
theory Reader_Table
  imports Txn
begin

text \<open>
  Removing the slots of dead processes from the reader table, from \<open>LegacyDatabase/mdb.c\<close>: the sorted list of process IDs
  (\<open>mdb_pid_insert\<close>), the test of a process (\<open>mdb_reader_pid\<close>), and \<open>mdb_reader_check0\<close>.

  The list of process IDs has its length in the first cell.  On iOS the mutexes are semaphores, so that
  \<open>mdb_mutex_failed\<close> returns the error it is given.
\<close>

section \<open>The list of process IDs\<close>

text \<open>
  The binary search; \<open>Inl\<close> is the position of an ID that is already present, \<open>Inr\<close> the position where it belongs.
  Process IDs are positive 32-bit integers, so that their difference does not overflow.
\<close>

function pid_search_loop :: "nat list \<Rightarrow> nat \<Rightarrow> nat \<Rightarrow> nat \<Rightarrow> int \<Rightarrow> nat \<Rightarrow> (nat + nat) option" where
  "pid_search_loop ids pid base cursor val n =
     (if 0 < n then
        let pivot = n div 2;
            cursor = base + pivot + 1
        in do {
          x \<leftarrow> c_read ids cursor;
          let val = int pid - int x;
          if val < 0 then pid_search_loop ids pid base cursor val pivot
          else if val > 0 then pid_search_loop ids pid cursor cursor val (n - (pivot + 1))
          else Some (Inl cursor) }
      else Some (Inr (if val > 0 then u32 (cursor + 1) else cursor)))"
  by pat_completeness auto
termination
  by (relation "measure (\<lambda>(ids, pid, base, cursor, val, n). n)") auto

declare pid_search_loop.simps [simp del]

definition mdb_pid_insert :: "nat list \<Rightarrow> nat \<Rightarrow> (int \<times> nat list) option" where
  "mdb_pid_insert ids pid = do {
     n \<leftarrow> c_read ids 0;
     found \<leftarrow> pid_search_loop ids pid 0 1 0 n;
     (case found of
        Inl _ \<Rightarrow> Some (-1, ids)
      | Inr cursor \<Rightarrow> do {
          ids \<leftarrow> c_write ids 0 (n + 1);
          ids \<leftarrow> shift_up ids cursor (n + 1);
          ids \<leftarrow> c_write ids (if n + 1 \<le> cursor then n + 1 else cursor) pid;
          Some (0, ids) }) }"

section \<open>Testing a process\<close>

text \<open>The answers of \<open>fcntl\<close>: it was interrupted, it failed, or it succeeded, with the lock held by another process or not.\<close>

datatype fcntl_answer = Fc_intr | Fc_error rc | Fc_ok bool
datatype Pidlock_op = Pidset | Pidcheck

text \<open>
  The result is zero (\<open>MDB_SUCCESS\<close>), an error, or \<open>None\<close> for -1; the loop consumes the answers, and does not end when
  every call is interrupted.
\<close>

fun mdb_reader_pid :: "Pidlock_op \<Rightarrow> fcntl_answer list \<Rightarrow> (rc option \<times> fcntl_answer list) option" where
  "mdb_reader_pid op [] = None"
| "mdb_reader_pid op (Fc_intr # as) = mdb_reader_pid op as"
| "mdb_reader_pid op (Fc_error r # as) = Some (Some r, as)"
| "mdb_reader_pid op (Fc_ok held # as) = Some (if op = Pidcheck \<and> held then None else Some MDB_SUCCESS, as)"

section \<open>Removing stale readers\<close>

text \<open>The loop \<open>for (; j < rdrs; j++)\<close> that clears the slots of a process.\<close>

fun clear_pid :: "mdb_reader list \<Rightarrow> nat \<Rightarrow> nat \<Rightarrow> nat \<Rightarrow> nat \<Rightarrow> (mdb_reader list \<times> nat) option" where
  "clear_pid rs pid j 0 cnt = Some (rs, cnt)"
| "clear_pid rs pid j (Suc n) cnt = do {
     r \<leftarrow> c_read rs j;
     if mr_pid r = pid then do {
       rs \<leftarrow> c_write rs j (r\<lparr>mr_pid := 0\<rparr>);
       clear_pid rs pid (j + 1) n (cnt + 1) }
     else clear_pid rs pid (j + 1) n cnt }"

text \<open>\<open>ck_fcntl k pid\<close> are the answers of \<open>fcntl\<close> to the \<open>k\<close>-th call \<open>mdb_reader_pid(env, Pidcheck, pid)\<close>, \<open>ck_lock k\<close> the answer of the lock taken after it.\<close>

record check_os =
  ck_fcntl :: "nat \<Rightarrow> nat \<Rightarrow> fcntl_answer list"
  ck_lock :: "nat \<Rightarrow> rc"
  ck_malloc :: "nat alloc"

definition reader_alive :: "check_os \<Rightarrow> nat \<Rightarrow> nat \<Rightarrow> bool option" where
  "reader_alive os k pid = do {
     (r, _) \<leftarrow> mdb_reader_pid Pidcheck (ck_fcntl os k pid);
     Some (r \<noteq> Some MDB_SUCCESS) }"

fun check_loop :: "check_os \<Rightarrow> bool \<Rightarrow> nat \<Rightarrow> nat \<Rightarrow> nat \<Rightarrow> nat \<Rightarrow> mdb_reader list \<Rightarrow> nat list \<Rightarrow> nat \<Rightarrow> nat \<Rightarrow>
    (rc \<times> mdb_reader list \<times> nat) option" where
  "check_loop os rlocked own rdrs i 0 rs pids k cnt = Some (MDB_SUCCESS, rs, cnt)"
| "check_loop os rlocked own rdrs i (Suc n) rs pids k cnt = do {
     r \<leftarrow> c_read rs i;
     let pid = mr_pid r;
     if pid \<noteq> 0 \<and> pid \<noteq> own then do {
       (ins, pids) \<leftarrow> mdb_pid_insert pids pid;
       if ins \<noteq> 0 then check_loop os rlocked own rdrs (i + 1) n rs pids k cnt
       else do {
         alive \<leftarrow> reader_alive os k pid;
         if alive then check_loop os rlocked own rdrs (i + 1) n rs pids (k + 1) cnt
         else if rlocked then do {
           (rs, cnt) \<leftarrow> clear_pid rs pid i (rdrs - i) cnt;
           check_loop os rlocked own rdrs (i + 1) n rs pids (k + 1) cnt }
         else if ck_lock os k \<noteq> MDB_SUCCESS then Some (ck_lock os k, rs, cnt)
         else do {
           alive \<leftarrow> reader_alive os (k + 1) pid;
           (rs, cnt) \<leftarrow> (if alive then Some (rs, cnt) else clear_pid rs pid i (rdrs - i) cnt);
           check_loop os rlocked own rdrs (i + 1) n rs pids (k + 2) cnt } } }
     else check_loop os rlocked own rdrs (i + 1) n rs pids k cnt }"

definition mdb_reader_check0 :: "check_os \<Rightarrow> bool \<Rightarrow> mdb_env \<Rightarrow> (rc \<times> mdb_env \<times> nat option) option" where
  "mdb_reader_check0 os rlocked e = do {
     ti \<leftarrow> me_txns e;
     let rdrs = mti_numreaders ti;
     (case c_malloc (ck_malloc os) (rdrs + 1) of
        None \<Rightarrow> Some (ENOMEM, e, None)
      | Some pids \<Rightarrow> do {
          pids \<leftarrow> c_write pids 0 0;
          (r, rs, cnt) \<leftarrow> check_loop os rlocked (me_pid e) rdrs 0 rdrs (mti_readers ti) pids 0 0;
          Some (r, e\<lparr>me_txns := Some (ti\<lparr>mti_readers := rs\<rparr>)\<rparr>, Some cnt) }) }"

definition mdb_reader_check :: "check_os \<Rightarrow> mdb_env \<Rightarrow> (rc \<times> mdb_env \<times> nat option) option" where
  "mdb_reader_check os e = (if me_txns e \<noteq> None then mdb_reader_check0 os False e else Some (MDB_SUCCESS, e, Some 0))"

section \<open>Insertion into the list of process IDs\<close>

text \<open>The list of process IDs in ascending order, in an array whose first cell is its length.\<close>

definition pid_list :: "nat list \<Rightarrow> nat list" where
  "pid_list ids = take (ids ! 0) (tl ids)"

definition pids_ok :: "nat list \<Rightarrow> bool" where
  "pids_ok ids \<longleftrightarrow> ids ! 0 < length ids \<and> length ids < 2 ^ 32 \<and> sorted_wrt (<) (pid_list ids)"

text \<open>The search as an instance of the interface that the ID lists use.\<close>

definition pid_loop :: "nat list \<Rightarrow> nat \<Rightarrow> nat \<Rightarrow> nat \<Rightarrow> int \<Rightarrow> nat \<Rightarrow> nat option" where
  "pid_loop ids pid base cursor val n = map_option (case_sum id id) (pid_search_loop ids pid base cursor val n)"

interpretation pid_bs: bsearch pid_loop "\<lambda>x pid. int pid - int x"
proof unfold_locales
  fix ids :: "nat list" and key base cursor n :: nat and val :: int
  show "pid_loop ids key base cursor val n =
     (if 0 < n then
        let pivot = n div 2;
            cursor = base + pivot + 1
        in do {
          x \<leftarrow> c_read ids cursor;
          let val = int key - int x;
          if val < 0 then pid_loop ids key base cursor val pivot
          else if val > 0 then pid_loop ids key cursor cursor val (n - (pivot + 1))
          else Some cursor }
      else Some (if val > 0 then u32 (cursor + 1) else cursor))"
    unfolding pid_loop_def by (subst pid_search_loop.simps) (auto simp: Let_def c_read_def)
qed

lemma pid_list_nth: "pids_ok ids \<Longrightarrow> 1 \<le> i \<Longrightarrow> i \<le> ids ! 0 \<Longrightarrow> ids ! i = pid_list ids ! (i - 1)"
  by (cases ids; cases i) (auto simp: pids_ok_def pid_list_def)

lemma pid_list_length: "pids_ok ids \<Longrightarrow> length (pid_list ids) = ids ! 0"
  by (auto simp: pids_ok_def pid_list_def)

lemma pid_less: "pids_ok ids \<Longrightarrow> 1 \<le> i \<Longrightarrow> i < j \<Longrightarrow> j \<le> ids ! 0 \<Longrightarrow> ids ! i < ids ! j"
  using sorted_wrt_nth_less [of "(<)" "pid_list ids" "i - 1" "j - 1"]
  by (simp add: pid_list_nth pid_list_length) (simp add: pids_ok_def)

lemma pid_falling:
  assumes "pids_ok ids" shows "pid_bs.falling ids pid (ids ! 0)"
  unfolding pid_bs.falling_def
proof (intro allI impI)
  fix i j assume ij: "1 \<le> i \<and> i \<le> j \<and> j \<le> ids ! 0"
  have "ids ! i \<le> ids ! j" using pid_less [OF assms, of i j] ij by (cases "i = j") auto
  then show "(0 < int pid - int (ids ! j) \<longrightarrow> 0 < int pid - int (ids ! i)) \<and> (int pid - int (ids ! i) < 0 \<longrightarrow> int pid - int (ids ! j) < 0)"
    by auto
qed

text \<open>The two kinds of results.\<close>

lemma pid_found: "pid_search_loop ids pid base cursor val n = Some (Inl r) \<Longrightarrow> ids ! r = pid \<and> base < r \<and> r \<le> base + n"
proof (induction n arbitrary: base cursor val rule: less_induct)
  case (less n)
  let ?p = "n div 2" let ?c = "base + ?p + 1"
  from less.prems have n: "0 < n" by (subst (asm) pid_search_loop.simps) (auto split: if_splits)
  let ?v = "int pid - int (ids ! ?c)"
  have "?c < length ids" using less.prems n by (subst (asm) pid_search_loop.simps) (auto simp: Let_def c_read_def split: if_splits)
  then have step: "pid_search_loop ids pid base cursor val n =
      (if ?v < 0 then pid_search_loop ids pid base ?c ?v ?p
       else if ?v > 0 then pid_search_loop ids pid ?c ?c ?v (n - (?p + 1)) else Some (Inl ?c))"
    using n by (subst pid_search_loop.simps) (simp add: mem_simps Let_def)
  consider "?v < 0" | "?v > 0" | "?v = 0" by linarith
  then show ?case
  proof cases
    case 1
    then have "pid_search_loop ids pid base ?c ?v ?p = Some (Inl r)" using less.prems step by simp
    then have "ids ! r = pid \<and> base < r \<and> r \<le> base + ?p" by (rule less.IH [rotated]) (use n in simp)
    then show ?thesis by (simp add: le_trans [of r "base + ?p"])
  next
    case 2
    then have "pid_search_loop ids pid ?c ?c ?v (n - (?p + 1)) = Some (Inl r)" using less.prems step by simp
    then have "ids ! r = pid \<and> ?c < r \<and> r \<le> ?c + (n - (?p + 1))" by (rule less.IH [rotated]) (use n in simp)
    then show ?thesis using n by simp
  next
    case 3
    then show ?thesis using less.prems step n by auto
  qed
qed

lemma pid_missing:
  assumes ok: "pids_ok ids" and run: "pid_search_loop ids pid base cursor val n = Some (Inr r)" and "base + n \<le> ids ! 0"
    and "\<forall>i. 1 \<le> i \<and> i \<le> base \<longrightarrow> ids ! i < pid" "\<forall>i. base + n < i \<and> i \<le> ids ! 0 \<longrightarrow> pid < ids ! i"
  shows "\<forall>i. 1 \<le> i \<and> i \<le> ids ! 0 \<longrightarrow> ids ! i \<noteq> pid"
  using assms(2-5)
proof (induction n arbitrary: base cursor val rule: less_induct)
  case (less n)
  show ?case
  proof (cases "n = 0")
    case True
    then show ?thesis using less.prems(3,4) by (metis add_0_right less_irrefl not_le)
  next
    case False
    let ?p = "n div 2" let ?c = "base + ?p + 1" let ?v = "int pid - int (ids ! ?c)"
    have c: "1 \<le> ?c" "?c \<le> ids ! 0" "?c < length ids" using False less.prems(2) ok by (auto simp: pids_ok_def)
    have step: "pid_search_loop ids pid base cursor val n =
        (if ?v < 0 then pid_search_loop ids pid base ?c ?v ?p
         else if ?v > 0 then pid_search_loop ids pid ?c ?c ?v (n - (?p + 1)) else Some (Inl ?c))"
      using False c(3) by (subst pid_search_loop.simps) (simp add: mem_simps Let_def)
    have le: "ids ! i \<le> ids ! j" if "1 \<le> i" "i \<le> j" "j \<le> ids ! 0" for i j
      using pid_less [OF ok, of i j] that by (cases "i = j") auto
    consider "?v < 0" | "?v > 0" | "?v = 0" by linarith
    then show ?thesis
    proof cases
      case 1
      have hi: "\<forall>i. base + ?p < i \<and> i \<le> ids ! 0 \<longrightarrow> pid < ids ! i"
        using le [OF c(1)] 1 by (metis Suc_eq_plus1 Suc_leI of_nat_less_iff diff_less_0_iff_less order_less_le_trans)
      show ?thesis
        by (rule less.IH [of ?p base ?c ?v]) (use 1 step less.prems False hi in auto)
    next
      case 2
      have lo: "\<forall>i. 1 \<le> i \<and> i \<le> ?c \<longrightarrow> ids ! i < pid" using le c(2) 2 by fastforce
      show ?thesis
        by (rule less.IH [of "n - (?p + 1)" ?c ?c ?v]) (use 2 step less.prems False lo in auto)
    next
      case 3
      then show ?thesis using step less.prems(1) by simp
    qed
  qed
qed

lemma pid_insert_spec:
  assumes ok: "pids_ok ids"
  shows "pid \<in> set (pid_list ids) \<Longrightarrow> mdb_pid_insert ids pid = Some (-1, ids)"
    and "pid \<notin> set (pid_list ids) \<Longrightarrow> ids ! 0 + 1 < length ids \<Longrightarrow>
      \<exists>ids'. mdb_pid_insert ids pid = Some (0, ids') \<and> pids_ok ids' \<and> length ids' = length ids \<and> ids' ! 0 = ids ! 0 + 1 \<and>
        set (pid_list ids') = insert pid (set (pid_list ids))"
proof -
  let ?N = "ids ! 0" let ?xs = "pid_list ids"
  have N: "?N < length ids" "?N + 1 < 2 ^ 32" using ok by (auto simp: pids_ok_def)
  note fall = pid_falling [OF ok, of pid]
  obtain r where r: "pid_loop ids pid 0 1 0 ?N = Some r" "pid_bs.located ids pid ?N r"
    using pid_bs.search_located [OF fall N(1,2)] by blast
  have bounds: "1 \<le> r" "r \<le> ?N + 1" using r(2) by (auto simp: pid_bs.located_def)
  note split = pid_bs.located_split [OF fall N(1) r(2), folded pid_list_def]
  have read: "c_read ids 0 = Some ?N" using N(1) by (auto simp: c_read_def)
  have mem: "pid \<in> set ?xs \<longleftrightarrow> (\<exists>i. 1 \<le> i \<and> i \<le> ?N \<and> ids ! i = pid)"
  proof
    assume "pid \<in> set ?xs"
    then obtain j where "j < ?N" "?xs ! j = pid" using pid_list_length [OF ok] by (auto simp: in_set_conv_nth)
    then show "\<exists>i. 1 \<le> i \<and> i \<le> ?N \<and> ids ! i = pid" using pid_list_nth [OF ok, of "Suc j"] by (intro exI [of _ "Suc j"]) auto
  next
    assume "\<exists>i. 1 \<le> i \<and> i \<le> ?N \<and> ids ! i = pid"
    then show "pid \<in> set ?xs" using pid_list_nth [OF ok] pid_list_length [OF ok]
      by (metis One_nat_def Suc_le_eq Suc_pred in_set_conv_nth less_eq_Suc_le nat_le_linear not_less_eq_eq)
  qed
  obtain z where z: "pid_search_loop ids pid 0 1 0 ?N = Some z" "case_sum id id z = r" using r(1) by (auto simp: pid_loop_def)
  consider (dup) "pid_search_loop ids pid 0 1 0 ?N = Some (Inl r)" | (new) "pid_search_loop ids pid 0 1 0 ?N = Some (Inr r)"
    using z by (cases z) auto
  then have hit: "pid \<in> set ?xs \<longleftrightarrow> pid_search_loop ids pid 0 1 0 ?N = Some (Inl r)"
  proof cases
    case dup
    then show ?thesis using pid_found [OF dup] bounds mem by auto
  next
    case new
    then show ?thesis using pid_missing [OF ok new] mem by auto
  qed
  show "mdb_pid_insert ids pid = Some (-1, ids)" if "pid \<in> set ?xs"
    using hit that read by (simp add: mdb_pid_insert_def)
  show "\<exists>ids'. mdb_pid_insert ids pid = Some (0, ids') \<and> pids_ok ids' \<and> length ids' = length ids \<and> ids' ! 0 = ?N + 1 \<and>
        set (pid_list ids') = insert pid (set ?xs)" if new: "pid \<notin> set ?xs" and room: "?N + 1 < length ids"
  proof -
    obtain ids' where i: "do { ids1 \<leftarrow> c_write ids 0 (?N + 1); ids2 \<leftarrow> shift_up ids1 r (?N + 1); c_write ids2 r pid } = Some ids'"
      "length ids' = length ids" "ids' ! 0 = ?N + 1" "take (?N + 1) (tl ids') = take (r - 1) ?xs @ pid # drop (r - 1) ?xs"
      using insert_cells [OF bounds room, of "?N + 1" pid] unfolding pid_list_def by blast
    have at: "(if ?N + 1 \<le> r then ?N + 1 else r) = r" using bounds by auto
    have "z = Inr r" using hit new z by (cases z) auto
    then have "mdb_pid_insert ids pid = do { ids \<leftarrow> do { ids1 \<leftarrow> c_write ids 0 (?N + 1); ids2 \<leftarrow> shift_up ids1 r (?N + 1); c_write ids2 r pid };
        Some (0, ids) }"
      unfolding mdb_pid_insert_def read bind.bind_lunit z(1) by (simp only: sum.case at bind_assoc)
    then have run: "mdb_pid_insert ids pid = Some (0, ids')" unfolding i(1) by simp
    have l: "pid_list ids' = take (r - 1) ?xs @ pid # drop (r - 1) ?xs" using i(3,4) by (simp add: pid_list_def)
    have lo: "x < pid" if "x \<in> set (take (r - 1) ?xs)" for x
      using split(1) that new in_set_takeD [OF that] by (fastforce simp: le_less)
    have hi: "pid < x" if "x \<in> set (drop (r - 1) ?xs)" for x
      using split(2) that new in_set_dropD [OF that] by (fastforce simp: le_less)
    have "sorted_wrt (<) (take (r - 1) ?xs @ drop (r - 1) ?xs)" using ok by (simp add: pids_ok_def)
    then have "sorted_wrt (<) (pid_list ids')" unfolding l sorted_wrt_append using lo hi by auto
    then have "pids_ok ids'" using i(2,3) room ok by (simp add: pids_ok_def)
    moreover have "set (pid_list ids') = insert pid (set (take (r - 1) ?xs @ drop (r - 1) ?xs))" unfolding l set_append by auto
    ultimately show ?thesis using run i(2,3) by simp
  qed
qed

section \<open>Removing stale readers\<close>

definition clear_if :: "(mdb_reader \<Rightarrow> bool) \<Rightarrow> mdb_reader \<Rightarrow> mdb_reader" where
  "clear_if P r = (if P r then r\<lparr>mr_pid := 0\<rparr> else r)"

text \<open>The table with the slots below \<open>n\<close> that satisfy \<open>P\<close> cleared.\<close>

definition cleared :: "(mdb_reader \<Rightarrow> bool) \<Rightarrow> nat \<Rightarrow> mdb_reader list \<Rightarrow> mdb_reader list" where
  "cleared P n rs = map (clear_if P) (take n rs) @ drop n rs"

lemma length_cleared [simp]: "length (cleared P n rs) = length rs"
  by (simp add: cleared_def)

lemma nth_cleared: "j < length rs \<Longrightarrow> cleared P n rs ! j = (if j < n then clear_if P (rs ! j) else rs ! j)"
  by (auto simp: cleared_def nth_append)

lemma clear_pid_spec:
  assumes "j + n \<le> length rs" "pid \<noteq> 0"
  shows "clear_pid rs pid j n c = Some (take j rs @ map (clear_if (\<lambda>r. mr_pid r = pid)) (take n (drop j rs)) @ drop (j + n) rs,
    c + length (filter (\<lambda>r. mr_pid r = pid) (take n (drop j rs))))"
  using assms(1)
proof (induction n arbitrary: j rs c)
  case (Suc n)
  define r where "r = rs ! j"
  have d: "drop j rs = r # drop (Suc j) rs" "j < length rs" using Suc.prems by (simp_all add: Cons_nth_drop_Suc r_def)
  show ?case
  proof (cases "mr_pid r = pid")
    case True
    let ?rs = "rs[j := r\<lparr>mr_pid := 0\<rparr>]"
    have "clear_pid rs pid j (Suc n) c = clear_pid ?rs pid (j + 1) n (c + 1)"
      using True d(2) by (simp add: mem_simps r_def)
    also have "\<dots> = Some (take (j + 1) ?rs @ map (clear_if (\<lambda>r. mr_pid r = pid)) (take n (drop (j + 1) ?rs)) @ drop (j + 1 + n) ?rs,
        c + 1 + length (filter (\<lambda>r. mr_pid r = pid) (take n (drop (j + 1) ?rs))))"
      using Suc.prems by (intro Suc.IH) simp
    finally show ?thesis using d True by (simp add: take_Suc_conv_app_nth clear_if_def take_update_cancel drop_update_cancel)
  next
    case False
    then have "clear_pid rs pid j (Suc n) c = clear_pid rs pid (j + 1) n c" using d(2) by (simp add: mem_simps r_def)
    then show ?thesis using Suc.IH [of "j + 1" rs c] Suc.prems d False by (simp add: take_Suc_conv_app_nth clear_if_def r_def)
  qed
qed (simp add: assms)

text \<open>The process IDs that the loop has seen in the first \<open>i\<close> slots.\<close>

definition seen :: "nat \<Rightarrow> nat \<Rightarrow> mdb_reader list \<Rightarrow> nat set" where
  "seen own i rs = mr_pid ` set (take i rs) - {0, own}"

lemma seen_Suc: "i < length rs \<Longrightarrow> seen own (Suc i) rs = seen own i rs \<union> ({mr_pid (rs ! i)} - {0, own})"
  by (auto simp: seen_def take_Suc_conv_app_nth)

definition stale :: "nat \<Rightarrow> (nat \<Rightarrow> bool) \<Rightarrow> mdb_reader \<Rightarrow> bool" where
  "stale own dead r \<longleftrightarrow> mr_pid r \<noteq> 0 \<and> mr_pid r \<noteq> own \<and> dead (mr_pid r)"

lemma length_filter_map_cong: "map P xs = map P ys \<Longrightarrow> length (filter P xs) = length (filter P ys)"
  by (induction xs ys rule: list_induct2') auto

lemma clear_step:
  assumes i: "i < rdrs" "rdrs \<le> length rs0" and p: "pid = mr_pid (rs0 ! i)" "pid \<noteq> 0" "pid \<noteq> own" "pid \<notin> seen own i rs0" "dead pid"
    and rs: "rs = cleared (\<lambda>r. stale own dead r \<and> mr_pid r \<in> seen own i rs0) rdrs rs0"
  shows "take i rs @ map (clear_if (\<lambda>r. mr_pid r = pid)) (take (rdrs - i) (drop i rs)) @ drop rdrs rs =
      cleared (\<lambda>r. stale own dead r \<and> mr_pid r \<in> seen own (Suc i) rs0) rdrs rs0"
    "length (filter (\<lambda>r. stale own dead r \<and> mr_pid r \<in> seen own i rs0) (take rdrs rs0)) +
      length (filter (\<lambda>r. mr_pid r = pid) (take (rdrs - i) (drop i rs))) =
      length (filter (\<lambda>r. stale own dead r \<and> mr_pid r \<in> seen own (Suc i) rs0) (take rdrs rs0))"
proof -
  let ?S = "seen own i rs0"
  have S: "seen own (Suc i) rs0 = insert pid ?S" using seen_Suc [of i rs0 own] i p by auto
  have len: "length rs = length rs0" by (simp add: rs)
  have before: "mr_pid (rs0 ! j) \<noteq> pid" if "j < i" for j
  proof -
    have "rs0 ! j \<in> set (take i rs0)" using that i by (auto simp: in_set_conv_nth)
    then show ?thesis using p(2-4) by (auto simp: seen_def)
  qed
  have nth: "rs ! j = (if stale own dead (rs0 ! j) \<and> mr_pid (rs0 ! j) \<in> ?S then (rs0 ! j)\<lparr>mr_pid := 0\<rparr> else rs0 ! j)" if "j < rdrs" for j
    using that i(2) by (simp add: rs nth_cleared clear_if_def)
  have pid: "mr_pid (rs ! j) = pid \<longleftrightarrow> mr_pid (rs0 ! j) = pid" if "j < rdrs" for j
    using nth [OF that] p(2,4) by auto
  show "take i rs @ map (clear_if (\<lambda>r. mr_pid r = pid)) (take (rdrs - i) (drop i rs)) @ drop rdrs rs =
      cleared (\<lambda>r. stale own dead r \<and> mr_pid r \<in> seen own (Suc i) rs0) rdrs rs0" (is "?l = ?r")
  proof (rule nth_equalityI)
    fix j assume "j < length ?l"
    then have j: "j < length rs0" using i len by simp
    have "?l ! j = (if i \<le> j \<and> j < rdrs then clear_if (\<lambda>r. mr_pid r = pid) (rs ! j) else rs ! j)"
      using j i len by (auto simp: nth_append)
    also have "\<dots> = ?r ! j"
    proof (cases "j < rdrs")
      case True
      have own: "stale own dead (rs0 ! j) \<and> mr_pid (rs0 ! j) \<in> insert pid ?S \<longleftrightarrow>
          mr_pid (rs0 ! j) = pid \<or> stale own dead (rs0 ! j) \<and> mr_pid (rs0 ! j) \<in> ?S" using p by (auto simp: stale_def)
      have lt: "mr_pid (rs0 ! j) = pid \<Longrightarrow> i \<le> j" using before [of j] by force
      show ?thesis
        using True j lt pid [OF True] own nth [OF True] p(4) by (auto simp: nth_cleared S clear_if_def)
    next
      case False
      then show ?thesis using j by (simp add: nth_cleared rs)
    qed
    finally show "?l ! j = ?r ! j" .
  qed (use i len in simp)
  have same: "length (filter (\<lambda>r. mr_pid r = pid) (take (rdrs - i) (drop i rs))) = length (filter (\<lambda>r. mr_pid r = pid) (take rdrs rs0))"
  proof -
    have "map (\<lambda>r. mr_pid r = pid) (take (rdrs - i) (drop i rs)) = map (\<lambda>r. mr_pid r = pid) (take (rdrs - i) (drop i rs0))"
      using pid i len by (intro nth_equalityI) auto
    then have "length (filter (\<lambda>r. mr_pid r = pid) (take (rdrs - i) (drop i rs))) = length (filter (\<lambda>r. mr_pid r = pid) (take (rdrs - i) (drop i rs0)))"
      by (rule length_filter_map_cong)
    moreover have "take rdrs rs0 = take i rs0 @ take (rdrs - i) (drop i rs0)" using i(1) by (metis add_diff_inverse_nat less_imp_le not_le take_add)
    moreover have "filter (\<lambda>r. mr_pid r = pid) (take i rs0) = []" unfolding filter_empty_conv
    proof (intro ballI)
      fix r assume "r \<in> set (take i rs0)"
      then obtain j where "j < i" "r = rs0 ! j" by (auto simp: in_set_conv_nth)
      then show "mr_pid r \<noteq> pid" using before by blast
    qed
    ultimately show ?thesis by simp
  qed
  have "length (filter (\<lambda>r. stale own dead r \<and> mr_pid r \<in> insert pid ?S) xs) =
      length (filter (\<lambda>r. stale own dead r \<and> mr_pid r \<in> ?S) xs) + length (filter (\<lambda>r. mr_pid r = pid) xs)" for xs
    using p by (induction xs) (auto simp: stale_def)
  then show "length (filter (\<lambda>r. stale own dead r \<and> mr_pid r \<in> seen own i rs0) (take rdrs rs0)) +
      length (filter (\<lambda>r. mr_pid r = pid) (take (rdrs - i) (drop i rs))) =
      length (filter (\<lambda>r. stale own dead r \<and> mr_pid r \<in> seen own (Suc i) rs0) (take rdrs rs0))"
    unfolding S same by simp
qed

text \<open>
  The loop over the table, when the answers about processes do not change while it runs and the lock can be taken: \<open>i\<close> slots have been looked at.
\<close>

lemma check_loop_spec:
  assumes os: "\<And>k p. reader_alive os k p = Some (\<not> dead p)" "\<And>k. ck_lock os k = MDB_SUCCESS" and len: "rdrs \<le> length rs0"
    and st: "i + n = rdrs" "rs = cleared (\<lambda>r. stale own dead r \<and> mr_pid r \<in> seen own i rs0) rdrs rs0"
      "c = length (filter (\<lambda>r. stale own dead r \<and> mr_pid r \<in> seen own i rs0) (take rdrs rs0))"
    and pids: "pids_ok pids" "length pids = rdrs + 1" "pids ! 0 \<le> i" "set (pid_list pids) = seen own i rs0"
  shows "check_loop os rlocked own rdrs i n rs pids k c = Some (MDB_SUCCESS,
    cleared (\<lambda>r. stale own dead r \<and> mr_pid r \<in> seen own rdrs rs0) rdrs rs0,
    length (filter (\<lambda>r. stale own dead r \<and> mr_pid r \<in> seen own rdrs rs0) (take rdrs rs0)))"
  using st pids
proof (induction n arbitrary: i rs pids k c)
  case (Suc n)
  let ?S = "seen own i rs0" let ?p = "mr_pid (rs ! i)" let ?q = "mr_pid (rs0 ! i)"
  have i: "i < rdrs" "i < length rs0" "i < length rs" using Suc.prems(1,2) len by auto
  have S: "seen own (Suc i) rs0 = ?S \<union> ({?q} - {0, own})" by (rule seen_Suc [OF i(2)])
  have p: "?p = (if stale own dead (rs0 ! i) \<and> ?q \<in> ?S then 0 else ?q)"
  proof -
    have "rs ! i = clear_if (\<lambda>r. stale own dead r \<and> mr_pid r \<in> ?S) (rs0 ! i)" using i by (simp add: Suc.prems(2) nth_cleared)
    then show ?thesis by (simp add: clear_if_def)
  qed
  have read: "c_read rs i = Some (rs ! i)" using i by (simp add: mem_simps)
  have n: "Suc i + n = rdrs" using Suc.prems(1) by simp
  show ?case
  proof (cases "?q \<in> {0, own} \<union> ?S")
    case True
    have S': "seen own (Suc i) rs0 = ?S" unfolding S by (use True in blast)
    have "check_loop os rlocked own rdrs i (Suc n) rs pids k c = check_loop os rlocked own rdrs (i + 1) n rs pids k c"
    proof (cases "?p = 0 \<or> ?p = own")
      case False
      then have "?p = ?q" "?q \<in> set (pid_list pids)" using True p Suc.prems(7) by (auto split: if_splits)
      then have "mdb_pid_insert pids ?p = Some (-1, pids)" using pid_insert_spec(1) [OF Suc.prems(4), of ?q] by simp
      then show ?thesis using False by (simp add: read Let_def)
    qed (auto simp: read Let_def)
    then show ?thesis using Suc.IH [OF n, of rs c pids k] Suc.prems S' by simp
  next
    case False
    then have p': "?p = ?q" "?q \<noteq> 0" "?q \<noteq> own" "?q \<notin> ?S" using p by auto
    obtain pids' where ins: "mdb_pid_insert pids ?q = Some (0, pids')" "pids_ok pids'" "length pids' = rdrs + 1" "pids' ! 0 \<le> Suc i"
      "set (pid_list pids') = insert ?q ?S"
      using pid_insert_spec(2) [OF Suc.prems(4), of ?q] p'(4) Suc.prems(5-7) i(1) by auto
    have S': "seen own (Suc i) rs0 = insert ?q ?S" using S p' by auto
    show ?thesis
    proof (cases "dead ?q")
      case dead: True
      note cl = clear_step [of i rdrs rs0 ?q own dead rs, OF i(1) len refl p'(2-4) dead Suc.prems(2)]
      have "clear_pid rs ?q i (rdrs - i) c = Some (take i rs @ map (clear_if (\<lambda>r. mr_pid r = ?q)) (take (rdrs - i) (drop i rs)) @ drop rdrs rs,
          c + length (filter (\<lambda>r. mr_pid r = ?q) (take (rdrs - i) (drop i rs))))"
        using clear_pid_spec [of i "rdrs - i" rs ?q c] i(1) len p'(2) Suc.prems(2) by simp
      note cl2 = this [unfolded cl(1) Suc.prems(3) cl(2)]
      have "\<exists>k'. check_loop os rlocked own rdrs i (Suc n) rs pids k c = check_loop os rlocked own rdrs (i + 1) n
          (cleared (\<lambda>r. stale own dead r \<and> mr_pid r \<in> seen own (Suc i) rs0) rdrs rs0) pids' k'
          (length (filter (\<lambda>r. stale own dead r \<and> mr_pid r \<in> seen own (Suc i) rs0) (take rdrs rs0)))"
        using p' read ins(1) dead cl2 os Suc.prems(3) by (cases rlocked) auto
      then show ?thesis using Suc.IH [OF n refl refl, of pids'] ins S' by auto
    next
      case alive: False
      have eq: "(\<lambda>r. stale own dead r \<and> mr_pid r \<in> seen own (Suc i) rs0) = (\<lambda>r. stale own dead r \<and> mr_pid r \<in> ?S)"
        using alive S' by (auto simp: stale_def)
      have "check_loop os rlocked own rdrs i (Suc n) rs pids k c = check_loop os rlocked own rdrs (i + 1) n rs pids' (k + 1) c"
        using p' read ins(1) alive os by simp
      then show ?thesis using Suc.IH [OF n, of rs c pids' "k + 1"] Suc.prems(2,3) ins S' eq by simp
    qed
  qed
qed simp

section \<open>The check\<close>

text \<open>When every slot has been looked at, every stale slot has been cleared.\<close>

lemma stale_seen: "r \<in> set (take n rs) \<Longrightarrow> stale own dead r \<and> mr_pid r \<in> seen own n rs \<longleftrightarrow> stale own dead r"
  by (auto simp: stale_def seen_def)

lemma cleared_cong: "(\<And>r. r \<in> set (take n rs) \<Longrightarrow> P r = Q r) \<Longrightarrow> cleared P n rs = cleared Q n rs"
  by (simp add: cleared_def clear_if_def)

text \<open>
  The answers that the check relies on: \<open>fcntl\<close> is interrupted a finite number of times and then says whether the process
  holds its lock, which does not change while the check runs, the lock of the reader table can be taken, and memory is available.
\<close>

definition check_answers :: "check_os \<Rightarrow> (nat \<Rightarrow> bool) \<Rightarrow> bool" where
  "check_answers os dead \<longleftrightarrow> (\<forall>k p. \<exists>n. ck_fcntl os k p = replicate n Fc_intr @ [Fc_ok (\<not> dead p)]) \<and> (\<forall>k. ck_lock os k = MDB_SUCCESS) \<and> ck_malloc os \<noteq> None"

lemma reader_alive_answers:
  assumes "check_answers os dead"
  shows "reader_alive os k p = Some (\<not> dead p)"
proof -
  have "mdb_reader_pid op (replicate n Fc_intr @ as) = mdb_reader_pid op as" for op n as by (induction n) auto
  moreover obtain n where "ck_fcntl os k p = replicate n Fc_intr @ [Fc_ok (\<not> dead p)]" using assms unfolding check_answers_def by blast
  ultimately show ?thesis by (simp add: reader_alive_def)
qed

lemma reader_check0_spec:
  assumes os: "check_answers os dead" and ti: "me_txns e = Some ti" "mti_numreaders ti \<le> length (mti_readers ti)" "mti_numreaders ti + 1 < 2 ^ 32"
  shows "mdb_reader_check0 os rlocked e = Some (MDB_SUCCESS,
    e\<lparr>me_txns := Some (ti\<lparr>mti_readers := cleared (stale (me_pid e) dead) (mti_numreaders ti) (mti_readers ti)\<rparr>)\<rparr>,
    Some (length (filter (stale (me_pid e) dead) (take (mti_numreaders ti) (mti_readers ti)))))"
proof -
  let ?n = "mti_numreaders ti" let ?rs = "mti_readers ti"
  obtain junk where junk: "ck_malloc os = Some junk" using os by (auto simp: check_answers_def)
  define pids where "pids = (map junk [0..<?n + 1])[0 := 0]"
  have pids: "pids ! 0 = 0" "length pids = ?n + 1" "pid_list pids = []" by (simp_all add: pids_def pid_list_def)
  have ok: "pids_ok pids" using ti(3) by (simp add: pids_ok_def pids)
  have z: "seen own 0 ?rs = {}" "cleared (\<lambda>r. False) ?n ?rs = ?rs" for own by (simp_all add: seen_def cleared_def clear_if_def [abs_def])
  have all: "cleared (\<lambda>r. stale (me_pid e) dead r \<and> mr_pid r \<in> seen (me_pid e) ?n ?rs) ?n ?rs = cleared (stale (me_pid e) dead) ?n ?rs"
    "filter (\<lambda>r. stale (me_pid e) dead r \<and> mr_pid r \<in> seen (me_pid e) ?n ?rs) (take ?n ?rs) = filter (stale (me_pid e) dead) (take ?n ?rs)"
    by (intro cleared_cong filter_cong refl stale_seen; assumption)+
  have "check_loop os rlocked (me_pid e) ?n 0 ?n ?rs pids 0 0 =
      Some (MDB_SUCCESS, cleared (stale (me_pid e) dead) ?n ?rs, length (filter (stale (me_pid e) dead) (take ?n ?rs)))"
    using os by (intro check_loop_spec [OF reader_alive_answers [OF os] _ ti(2), where i = 0 and own = "me_pid e", unfolded all]) (simp_all add: check_answers_def z ok pids)
  moreover have "c_write (map junk [0..<?n + 1]) 0 0 = Some pids" by (simp add: pids_def c_write_def)
  ultimately show ?thesis by (simp add: mdb_reader_check0_def ti(1) junk c_malloc_def Let_def del: upt_Suc)
qed

text \<open>The oldest transaction that readers use, as a greatest lower bound.\<close>

lemma find_oldest_glb:
  "me_txns (mt_env t) = Some ti \<Longrightarrow> n \<le> mdb_find_oldest t \<longleftrightarrow>
     n \<le> mt_txnid t - 1 \<and> (\<forall>r \<in> set (take (mti_numreaders ti) (mti_readers ti)). mr_pid r \<noteq> 0 \<longrightarrow> n \<le> mr_txnid r)"
proof -
  have "n \<le> foldr (\<lambda>r old. if mr_pid r \<noteq> 0 \<and> old > mr_txnid r then mr_txnid r else old) rs m \<longleftrightarrow>
      n \<le> m \<and> (\<forall>r \<in> set rs. mr_pid r \<noteq> 0 \<longrightarrow> n \<le> mr_txnid r)" for m :: nat and rs by (induction rs) auto
  then show "me_txns (mt_env t) = Some ti \<Longrightarrow> ?thesis" by (simp add: mdb_find_oldest_def)
qed

lemma ball_cleared:
  "(\<forall>r \<in> set (take n (cleared P n rs)). Q r) \<longleftrightarrow> (\<forall>r \<in> set (take n rs). Q (clear_if P r))"
  by (cases "n \<le> length rs") (simp_all add: cleared_def)

lemma find_oldest_cleared:
  assumes "me_txns (mt_env t) = Some (ti\<lparr>mti_readers := cleared (stale own dead) (mti_numreaders ti) (mti_readers ti)\<rparr>)"
  shows "n \<le> mdb_find_oldest t \<longleftrightarrow> n \<le> mt_txnid t - 1 \<and>
    (\<forall>r \<in> set (take (mti_numreaders ti) (mti_readers ti)). mr_pid r \<noteq> 0 \<and> (mr_pid r = own \<or> \<not> dead (mr_pid r)) \<longrightarrow> n \<le> mr_txnid r)"
  unfolding find_oldest_glb [OF assms] by (auto simp: ball_cleared clear_if_def stale_def)

text \<open>C18: \<open>mdb_reader_check\<close>, when the system's answers about processes are consistent, clears exactly the slots in use whose
  process is dead and is not the calling one, leaves every other slot as it is, and reports the number of slots it cleared;
  afterwards the oldest snapshot that a write transaction must preserve is the oldest one of the readers that are alive.
\<close>

theorem mdb_reader_check_correct:
  assumes "check_answers os dead" "me_txns e = Some ti" "mti_numreaders ti \<le> length (mti_readers ti)" "mti_numreaders ti + 1 < 2 ^ 32"
  shows "\<exists>rs. mdb_reader_check os e = Some (MDB_SUCCESS, e\<lparr>me_txns := Some (ti\<lparr>mti_readers := rs\<rparr>)\<rparr>,
        Some (length (filter (stale (me_pid e) dead) (take (mti_numreaders ti) (mti_readers ti))))) \<and>
      length rs = length (mti_readers ti) \<and>
      (\<forall>i < length rs. rs ! i = (if i < mti_numreaders ti \<and> stale (me_pid e) dead (mti_readers ti ! i)
         then (mti_readers ti ! i)\<lparr>mr_pid := 0\<rparr> else mti_readers ti ! i)) \<and>
      (\<forall>t n. mt_env t = e\<lparr>me_txns := Some (ti\<lparr>mti_readers := rs\<rparr>)\<rparr> \<longrightarrow> (n \<le> mdb_find_oldest t \<longleftrightarrow> n \<le> mt_txnid t - 1 \<and>
         (\<forall>r \<in> set (take (mti_numreaders ti) (mti_readers ti)).
            mr_pid r \<noteq> 0 \<and> (mr_pid r = me_pid e \<or> \<not> dead (mr_pid r)) \<longrightarrow> n \<le> mr_txnid r)))"
proof (intro exI conjI allI impI)
  let ?rs = "cleared (stale (me_pid e) dead) (mti_numreaders ti) (mti_readers ti)"
  show "mdb_reader_check os e = Some (MDB_SUCCESS, e\<lparr>me_txns := Some (ti\<lparr>mti_readers := ?rs\<rparr>)\<rparr>,
        Some (length (filter (stale (me_pid e) dead) (take (mti_numreaders ti) (mti_readers ti)))))"
    using reader_check0_spec [OF assms] assms(2) by (simp add: mdb_reader_check_def)
  show "?rs ! i = (if i < mti_numreaders ti \<and> stale (me_pid e) dead (mti_readers ti ! i)
         then (mti_readers ti ! i)\<lparr>mr_pid := 0\<rparr> else mti_readers ti ! i)" if "i < length ?rs" for i
    using that by (simp add: nth_cleared clear_if_def)
  show "n \<le> mdb_find_oldest t \<longleftrightarrow> n \<le> mt_txnid t - 1 \<and> (\<forall>r \<in> set (take (mti_numreaders ti) (mti_readers ti)).
      mr_pid r \<noteq> 0 \<and> (mr_pid r = me_pid e \<or> \<not> dead (mr_pid r)) \<longrightarrow> n \<le> mr_txnid r)"
    if "mt_env t = e\<lparr>me_txns := Some (ti\<lparr>mti_readers := ?rs\<rparr>)\<rparr>" for t n
    by (rule find_oldest_cleared) (simp add: that)
qed simp

text \<open>Process 7 is dead and process 9 is not; process 7 has two slots.\<close>

definition sample_readers :: "mdb_reader list" where
  "sample_readers = [\<lparr>mr_txnid = 3, mr_pid = 7, mr_tid = 1\<rparr>, \<lparr>mr_txnid = 6, mr_pid = 9, mr_tid = 1\<rparr>,
     \<lparr>mr_txnid = 4, mr_pid = 7, mr_tid = 2\<rparr>, \<lparr>mr_txnid = 5, mr_pid = 0, mr_tid = 0\<rparr>]"

definition sample_check_os :: check_os where
  "sample_check_os = \<lparr>ck_fcntl = (\<lambda>k p. [Fc_intr, Fc_ok (p \<noteq> 7)]), ck_lock = (\<lambda>k. MDB_SUCCESS), ck_malloc = Some (\<lambda>i. 0)\<rparr>"

theorem mdb_reader_check_correct_witness:
  "\<exists>e rs. mdb_reader_check sample_check_os e = Some (MDB_SUCCESS, e\<lparr>me_txns := Some
       \<lparr>mti_txnid = 6, mti_numreaders = 3, mti_readers = rs\<rparr>\<rparr>, Some 2) \<and> rs ! 2 = (sample_readers ! 2)\<lparr>mr_pid := 0\<rparr>"
proof -
  fix e0 :: mdb_env
  define ti where "ti = \<lparr>mti_txnid = 6, mti_numreaders = 3, mti_readers = sample_readers\<rparr>"
  define e where "e = e0\<lparr>me_pid := 2, me_txns := Some ti\<rparr>"
  have "check_answers sample_check_os (\<lambda>p. p = 7)" by (auto simp: check_answers_def sample_check_os_def intro: exI [of _ 1])
  moreover have "me_txns e = Some ti" "mti_numreaders ti \<le> length (mti_readers ti)" "mti_numreaders ti + 1 < 2 ^ 32"
    by (simp_all add: e_def ti_def sample_readers_def)
  ultimately obtain rs where rs: "mdb_reader_check sample_check_os e = Some (MDB_SUCCESS,
      e\<lparr>me_txns := Some (ti\<lparr>mti_readers := rs\<rparr>)\<rparr>, Some (length (filter (stale 2 (\<lambda>p. p = 7)) (take 3 sample_readers))))"
    "length rs = 4" "\<And>i. i < length rs \<Longrightarrow> rs ! i = (if i < 3 \<and> stale 2 (\<lambda>p. p = 7) (sample_readers ! i)
       then (sample_readers ! i)\<lparr>mr_pid := 0\<rparr> else sample_readers ! i)"
    using mdb_reader_check_correct [of sample_check_os "\<lambda>p. p = 7" e ti] by (auto simp: e_def ti_def sample_readers_def)
  have "length (filter (stale 2 (\<lambda>p. p = 7)) (take 3 sample_readers)) = 2" by (simp add: sample_readers_def stale_def)
  moreover have "rs ! 2 = (sample_readers ! 2)\<lparr>mr_pid := 0\<rparr>" using rs(2,3) by (simp add: sample_readers_def stale_def)
  ultimately show ?thesis using rs(1) by (auto simp: ti_def)
qed

end
