(* ===== verification/Touch.thy ===== *)
theory Touch
  imports Alloc
begin

text \<open>
  Making pages writable, from \<open>LegacyDatabase/mdb.c\<close>: \<open>mdb_page_unspill\<close> brings a spilled page back, \<open>mdb_page_touch\<close>
  replaces the page under a cursor by a dirty copy with a new number (copy on write), and \<open>mdb_cursor_touch\<close> does so for all
  the pages on the cursor's stack.
\<close>

section \<open>Spilled pages\<close>

text \<open>The position of \<open>pn\<close> in the spill list of the innermost level that has it, with the level.\<close>

fun unspill_find :: "txn_level list \<Rightarrow> mdb_id \<Rightarrow> nat \<Rightarrow> (nat \<times> nat) option option" where
  "unspill_find [] pn level = Some None"
| "unspill_find (l # ls) pn level = (case mt_spill_pgs l of
       None \<Rightarrow> unspill_find ls pn (level + 1)
     | Some sl \<Rightarrow> do {
         x \<leftarrow> mdb_midl_search sl pn;
         c \<leftarrow> c_read sl 0;
         hit \<leftarrow> (if x \<le> unat c then do { v \<leftarrow> c_read sl x; Some (v = pn) } else Some False);
         if hit then Some (Some (level, x)) else unspill_find ls pn (level + 1) })"

text \<open>Entry \<open>x\<close> of a spill list is removed when it is the last one, and otherwise marked by its lowest bit.\<close>

definition spill_drop :: "mdb_id list \<Rightarrow> nat \<Rightarrow> mdb_id list option" where
  "spill_drop sl x = do {
     c \<leftarrow> c_read sl 0;
     if x = unat c then c_write sl 0 (c - 1)
     else do { v \<leftarrow> c_read sl x; c_write sl x (v OR 1) } }"

definition own_unspill :: "mdb_txn \<Rightarrow> nat \<Rightarrow> mdb_txn option" where
  "own_unspill t x = (case mt_levels t of
       [] \<Rightarrow> None
     | l # ls \<Rightarrow> do {
         sl \<leftarrow> mt_spill_pgs l;
         sl \<leftarrow> spill_drop sl x;
         Some (t\<lparr>mt_levels := l\<lparr>mt_spill_pgs := Some sl\<rparr> # ls\<rparr>) })"

text \<open>\<open>mdb_page_copy\<close> between two pages in memory.\<close>

definition page_copy_to :: "mdb_txn \<Rightarrow> page_ptr \<Rightarrow> page_ptr \<Rightarrow> mdb_txn option" where
  "page_copy_to t np mp = do {
     dst \<leftarrow> page_at t np;
     src \<leftarrow> page_at t mp;
     q \<leftarrow> mdb_page_copy dst src (me_psize (mt_env t));
     mem_put t np 0 q }"

definition set_dirty_flag :: "mdb_txn \<Rightarrow> page_ptr \<Rightarrow> mdb_txn option" where
  "set_dirty_flag t np = do {
     p \<leftarrow> page_at t np;
     fl \<leftarrow> mp_flags p;
     mem_put t np 10 (le_bytes 2 (fl OR P_DIRTY)) }"

definition mdb_page_unspill :: "mdb_txn \<Rightarrow> page_ptr \<Rightarrow> ((rc + page_ptr option) \<times> mdb_txn) option" where
  "mdb_page_unspill t mp = do {
     p \<leftarrow> page_at t mp;
     pgno \<leftarrow> mp_pgno p;
     hit \<leftarrow> unspill_find (mt_levels t) (push_bit 1 (of_nat pgno)) 0;
     (case hit of
        None \<Rightarrow> Some (Inr None, t)
      | Some (level, x) \<Rightarrow>
          if mt_dirty_room t = 0 then Some (Inl MDB_TXN_FULL, t)
          else do {
            fl \<leftarrow> mp_flags p;
            num \<leftarrow> (if IS_OVERFLOW fl then rd32 p 12 else Some 1);
            (np, t) \<leftarrow> (if me_flags (mt_env t) AND MDB_WRITEMAP \<noteq> 0 then Some (Some mp, t)
              else do {
                (a, t) \<leftarrow> mdb_page_malloc t num;
                (case a of
                   None \<Rightarrow> Some (None, t)
                 | Some a \<Rightarrow> do {
                     t \<leftarrow> (if num > 1 then do { b \<leftarrow> mem_bytes t mp 0 (num * me_psize (mt_env t)); mem_put t (PBuf a) 0 b }
                          else page_copy_to t (PBuf a) mp);
                     Some (Some (PBuf a), t) }) });
            (case np of
               None \<Rightarrow> Some (Inl ENOMEM, t)
             | Some np \<Rightarrow> do {
                 t \<leftarrow> (if level = 0 then own_unspill t x else Some t);
                 t \<leftarrow> mdb_page_dirty t np;
                 t \<leftarrow> set_dirty_flag t np;
                 Some (Inr (Some np), t) }) }) }"

section \<open>Copy on write\<close>

definition C_SUB :: nat where "C_SUB = 0x04"

text \<open>
  The cursors that point to the old page are moved to the new one.  A record with sorted duplicates would need the
  sub-cursor.
\<close>

definition touch_cursor :: "mdb_txn \<Rightarrow> mdb_cursor \<Rightarrow> page_ptr \<Rightarrow> page_ptr \<Rightarrow> mdb_cursor \<Rightarrow> mdb_cursor option" where
  "touch_cursor t mc mp np m2 =
     (if mc_snum m2 < mc_snum mc then Some m2
      else do {
        q \<leftarrow> c_read (mc_pg m2) (mc_top mc);
        if q = Some mp then do {
          pg \<leftarrow> c_write (mc_pg m2) (mc_top mc) (Some np);
          db \<leftarrow> mc_db t mc;
          p \<leftarrow> page_at t np;
          fl \<leftarrow> mp_flags p;
          i \<leftarrow> c_read (mc_ki m2) (mc_top mc);
          j \<leftarrow> c_read (mc_ki mc) (mc_top mc);
          if md_flags db AND MDB_DUPSORT \<noteq> 0 \<and> IS_LEAF fl \<and> i = j then do {
            leaf \<leftarrow> mp_ptr p j;
            nf \<leftarrow> mn_flags p leaf;
            if nf AND F_SUBDATA = 0 then None else Some (m2\<lparr>mc_pg := pg\<rparr>) }
          else Some (m2\<lparr>mc_pg := pg\<rparr>) }
        else Some m2 })"

fun touch_cursors :: "mdb_txn \<Rightarrow> mdb_cursor \<Rightarrow> page_ptr \<Rightarrow> page_ptr \<Rightarrow> mdb_cursor list \<Rightarrow> mdb_cursor list option" where
  "touch_cursors t mc mp np [] = Some []"
| "touch_cursors t mc mp np (m2 # ms) = do {
     m2 \<leftarrow> touch_cursor t mc mp np m2;
     ms \<leftarrow> touch_cursors t mc mp np ms;
     Some (m2 # ms) }"

text \<open>From the label \<open>done\<close> on.  The cursors that follow a sub-cursor are not modelled.\<close>

definition touch_done :: "mdb_txn \<Rightarrow> mdb_cursor \<Rightarrow> page_ptr \<Rightarrow> page_ptr \<Rightarrow> (rc \<times> mdb_txn \<times> mdb_cursor) option" where
  "touch_done t mc mp np = do {
     pg \<leftarrow> c_write (mc_pg mc) (mc_top mc) (Some np);
     let mc = mc\<lparr>mc_pg := pg\<rparr>;
     cs \<leftarrow> mt_cursors t;
     ms \<leftarrow> c_read cs (mc_dbi mc);
     if mc_flags mc AND C_SUB \<noteq> 0 then if ms = [] then Some (MDB_SUCCESS, t, mc) else None
     else do {
       ms \<leftarrow> touch_cursors t mc mp np ms;
       cs \<leftarrow> c_write cs (mc_dbi mc) ms;
       Some (MDB_SUCCESS, t\<lparr>mt_cursors := Some cs\<rparr>, mc) } }"

text \<open>The copy: contents, number and flag.\<close>

definition touch_copy :: "mdb_txn \<Rightarrow> mdb_cursor \<Rightarrow> page_ptr \<Rightarrow> page_ptr \<Rightarrow> nat \<Rightarrow> (rc \<times> mdb_txn \<times> mdb_cursor) option" where
  "touch_copy t mc mp np pgno = do {
     t \<leftarrow> page_copy_to t np mp;
     t \<leftarrow> mem_put t np 0 (le_bytes 8 pgno);
     t \<leftarrow> set_dirty_flag t np;
     touch_done t mc mp np }"

text \<open>The parent page, or the record of the database, gets the new number.\<close>

definition touch_parent :: "mdb_txn \<Rightarrow> mdb_cursor \<Rightarrow> nat \<Rightarrow> mdb_txn option" where
  "touch_parent t mc pgno =
     (if mc_top mc \<noteq> 0 then do {
        par \<leftarrow> c_read (mc_pg mc) (mc_top mc - 1);
        par \<leftarrow> par;
        ki \<leftarrow> c_read (mc_ki mc) (mc_top mc - 1);
        pp \<leftarrow> page_at t par;
        node \<leftarrow> mp_ptr pp ki;
        q \<leftarrow> SETPGNO pp node pgno;
        mem_put t par node (slice q node 6) }
      else do {
        db \<leftarrow> mc_db t mc;
        dbs \<leftarrow> c_write (mt_dbs t) (mc_dbi mc) (db\<lparr>md_root := pgno\<rparr>);
        Some (t\<lparr>mt_dbs := dbs\<rparr>) })"

definition touch_new :: "mdb_txn \<Rightarrow> mdb_cursor \<Rightarrow> page_ptr \<Rightarrow> (rc \<times> mdb_txn \<times> mdb_cursor) option" where
  "touch_new t mc mp = do {
     let (al, t) = c_alloc t;
     (r, il) \<leftarrow> mdb_midl_need al (mt_free_pgs t) 1;
     let t = t\<lparr>mt_free_pgs := il\<rparr>;
     if r \<noteq> MIDL_OK then Some (midl_rc_rc r, txn_fail t, mc)
     else do {
       (r, t) \<leftarrow> mdb_page_alloc t 1;
       (case r of
          Inl rc \<Rightarrow> Some (rc, txn_fail t, mc)
        | Inr np \<Rightarrow> do {
            q \<leftarrow> page_at t np;
            pgno \<leftarrow> mp_pgno q;
            p \<leftarrow> page_at t mp;
            old \<leftarrow> mp_pgno p;
            if old = pgno then None
            else do {
              cs \<leftarrow> mdb_midl_xappend (cells (mt_free_pgs t)) (of_nat old);
              t \<leftarrow> touch_parent (t\<lparr>mt_free_pgs := (mt_free_pgs t)\<lparr>cells := cs\<rparr>\<rparr>) mc pgno;
              touch_copy t mc mp np pgno } }) } }"

text \<open>In a nested transaction a dirty page of an ancestor is copied, too.\<close>

definition touch_nested :: "mdb_txn \<Rightarrow> mdb_cursor \<Rightarrow> page_ptr \<Rightarrow> nat \<Rightarrow> (rc \<times> mdb_txn \<times> mdb_cursor) option" where
  "touch_nested t mc mp pgno = do {
     found \<leftarrow> dirty_lookup t pgno;
     (case found of
        Some q \<Rightarrow>
          if mp \<noteq> q then Some (MDB_CORRUPTED, txn_fail t, mc\<lparr>mc_flags := mc_flags mc AND u32_not (C_INITIALIZED OR C_EOF)\<rparr>)
          else Some (MDB_SUCCESS, t, mc)
      | None \<Rightarrow> do {
          dl \<leftarrow> own_dirty t;
          c \<leftarrow> c_read dl 0;
          if unat (mid c) \<ge> MDB_IDL_UM_MAX then None
          else do {
            (a, t) \<leftarrow> mdb_page_malloc t 1;
            (case a of
               None \<Rightarrow> Some (ENOMEM, t, mc)
             | Some a \<Rightarrow> do {
                 (r, dl) \<leftarrow> mdb_mid2l_insert dl \<lparr>mid = of_nat pgno, mptr = PBuf a\<rparr>;
                 if r \<noteq> MID2L_OK then None
                 else touch_copy (set_own_dirty t dl) mc mp (PBuf a) pgno }) } }) }"

definition mdb_page_touch :: "mdb_txn \<Rightarrow> mdb_cursor \<Rightarrow> (rc \<times> mdb_txn \<times> mdb_cursor) option" where
  "mdb_page_touch t mc = do {
     mp \<leftarrow> c_read (mc_pg mc) (mc_top mc);
     mp \<leftarrow> mp;
     p \<leftarrow> page_at t mp;
     fl \<leftarrow> mp_flags p;
     pgno \<leftarrow> mp_pgno p;
     if \<not> F_ISSET fl P_DIRTY then do {
       (u, t) \<leftarrow> (if mt_flags t AND MDB_TXN_SPILLS \<noteq> 0 then mdb_page_unspill t mp else Some (Inr None, t));
       (case u of
          Inl rc \<Rightarrow> Some (rc, txn_fail t, mc)
        | Inr (Some np) \<Rightarrow> touch_done t mc mp np
        | Inr None \<Rightarrow> touch_new t mc mp) }
     else if length (mt_levels t) > 1 \<and> \<not> F_ISSET fl P_SUBP then touch_nested t mc mp pgno
     else Some (MDB_SUCCESS, t, mc) }"

section \<open>All the pages of a cursor\<close>

text \<open>The loop over the stack, with \<open>mc_top\<close> as its counter; \<open>n\<close> pages are left.\<close>

fun cursor_touch_loop :: "mdb_txn \<Rightarrow> mdb_cursor \<Rightarrow> nat \<Rightarrow> (rc \<times> mdb_txn \<times> mdb_cursor) option" where
  "cursor_touch_loop t mc 0 = Some (MDB_SUCCESS, t, mc)"
| "cursor_touch_loop t mc (Suc n) = do {
     (rc, t, mc) \<leftarrow> mdb_page_touch t mc;
     if rc \<noteq> MDB_SUCCESS then Some (rc, t, mc)
     else cursor_touch_loop t (mc\<lparr>mc_top := mc_top mc + 1\<rparr>) n }"

text \<open>The record of a named database is made writable in the main database first.\<close>

definition touch_dbi :: "mdb_txn \<Rightarrow> mdb_cursor \<Rightarrow> (rc \<times> mdb_txn) option" where
  "touch_dbi t mc = do {
     dbflag \<leftarrow> c_read (mt_dbflags t) (mc_dbi mc);
     if mc_dbi mc > MAIN_DBI \<and> dbflag AND DB_DIRTY = 0 then do {
       changed \<leftarrow> TXN_DBI_CHANGED t (mc_dbi mc);
       if changed then Some (MDB_BAD_DBI, t)
       else do {
         (t, mc2) \<leftarrow> mdb_cursor_init t MAIN_DBI;
         dbx \<leftarrow> mc_dbx t mc;
         (rc, t, mc2) \<leftarrow> mdb_page_search mdb_page_touch t mc2 (Some (name_bytes dbx)) MDB_PS_MODIFY;
         if rc \<noteq> MDB_SUCCESS then Some (rc, t)
         else do {
           dbflag \<leftarrow> c_read (mt_dbflags t) (mc_dbi mc);
           dbflags \<leftarrow> c_write (mt_dbflags t) (mc_dbi mc) (dbflag OR DB_DIRTY);
           Some (MDB_SUCCESS, t\<lparr>mt_dbflags := dbflags\<rparr>) } } }
     else Some (MDB_SUCCESS, t) }"

definition mdb_cursor_touch :: "mdb_txn \<Rightarrow> mdb_cursor \<Rightarrow> (rc \<times> mdb_txn \<times> mdb_cursor) option" where
  "mdb_cursor_touch t mc = do {
     (rc, t) \<leftarrow> touch_dbi t mc;
     if rc \<noteq> MDB_SUCCESS then Some (rc, t, mc)
     else do {
       let mc = mc\<lparr>mc_top := 0\<rparr>;
       if mc_snum mc \<noteq> 0 then do {
         (rc, t, mc) \<leftarrow> cursor_touch_loop t mc (mc_snum mc);
         Some (rc, t, mc\<lparr>mc_top := mc_snum mc - 1\<rparr>) }
       else Some (MDB_SUCCESS, t, mc) } }"

end
