(* ===== verification/Page_Touch.thy ===== *)
theory Page_Touch
  imports Page_Space Cursor_Path
begin

text \<open>
  The two changes of a page that copy on write makes: a copy with another number and the flag \<open>P_DIRTY\<close> has the same
  nodes, and storing a child's number in a node of a branch page changes that child only.
\<close>

section \<open>Pages with the same slots\<close>

lemma nd_len_flags: "IS_LEAF fl' = IS_LEAF fl \<Longrightarrow> nd_len fl' raw = nd_len fl raw"
  by (simp add: nd_len_def nd_dlen_def)

lemma same_slots:
  assumes inv: "page_inv p" and len: "length q = length p"
    and head: "\<And>a k. 12 \<le> a \<Longrightarrow> a + k \<le> pg_lower p \<Longrightarrow> slice q a k = slice p a k"
    and fl: "\<not> IS_LEAF2 (pg_flags q)" and nodes: "\<And>a. a \<in> set (ptrs p) \<Longrightarrow> nd_len (pg_flags q) (drop a q) = nd_len (pg_flags p) (drop a p)"
  shows "page_inv q" "ptrs q = ptrs p" "pg_n q = pg_n p"
proof -
  note b = page_inv_bounds [OF inv] page_inv_len [OF inv]
  have hd: "pg_lower q = pg_lower p" "pg_upper q = pg_upper p" using b by (simp_all add: pg_lower_def [of q] pg_upper_def [of q] head pg_lower_def [of p, symmetric] pg_upper_def [of p, symmetric])
  then show n: "pg_n q = pg_n p" by (simp add: pg_n_def)
  have "pg_ptr q i = pg_ptr p i" if "i < pg_n p" for i
    unfolding pg_ptr_def using that page_inv_lower [OF inv] by (subst head) auto
  then show pt: "ptrs q = ptrs p" by (simp add: ptrs_def n)
  have "sorted_wrt (apart q) (ptrs p)"
    using inv nodes by (auto simp: page_inv_def apart_def elim!: sorted_wrt_mono_rel [rotated])
  moreover have "sum_list (map (\<lambda>a. nd_len (pg_flags q) (drop a q)) (ptrs p)) =
      sum_list (map (\<lambda>a. nd_len (pg_flags p) (drop a p)) (ptrs p))"
    using nodes by (simp cong: map_cong)
  moreover have "\<forall>a \<in> set (ptrs p). node_ok q a" using inv nodes len hd by (simp add: node_ok_def page_inv_def)
  ultimately show "page_inv q" using inv fl unfolding page_inv_def pt len hd by simp
qed

section \<open>Number and flags\<close>

definition renumber :: "page \<Rightarrow> nat \<Rightarrow> nat \<Rightarrow> page" where
  "renumber p pgno fl = splice (splice p 0 (le_bytes 8 pgno)) 10 (le_bytes 2 fl)"

lemma renumber_page:
  assumes inv: "page_inv p" and fl: "fl < 65536" "IS_LEAF fl = IS_LEAF (pg_flags p)" "\<not> IS_LEAF2 fl" and pgno: "pgno < 2 ^ 64"
  shows "page_inv (renumber p pgno fl)" "page_nodes (renumber p pgno fl) = page_nodes p" "pg_flags (renumber p pgno fl) = fl"
    "mp_pgno (renumber p pgno fl) = Some pgno" "length (renumber p pgno fl) = length p"
proof -
  let ?q = "renumber p pgno fl"
  note b = page_inv_bounds [OF inv] page_inv_len [OF inv]
  show len: "length ?q = length p" using b by (simp add: renumber_def)
  have keep: "slice ?q a k = slice p a k" if "12 \<le> a" "a + k \<le> length p" for a k
    using that b by (simp add: renumber_def slice_splice_other)
  have fl': "pg_flags ?q = fl" using b fl(1) by (simp add: pg_flags_def renumber_def)
  then show "pg_flags ?q = fl" .
  have "slice ?q 0 8 = le_bytes 8 pgno" using b by (simp add: renumber_def slice_splice_other)
  then show "mp_pgno ?q = Some pgno" using b len pgno by (simp add: mp_pgno_def byte_simps)
  have nodes: "nd_len (pg_flags ?q) (drop a ?q) = nd_len (pg_flags p) (drop a p)" "node_at ?q a = node_at p a" if "a \<in> set (ptrs p)" for a
  proof -
    have a: "node_ok p a" using that inv by (simp add: page_inv_def)
    then have le: "12 \<le> a" "a + nd_len (pg_flags p) (drop a p) \<le> length p" using b by (auto simp: node_ok_def)
    have "nd_len (pg_flags p) (drop a ?q) = nd_len (pg_flags p) (drop a p)"
      using le nd_len_ge(1) [of "pg_flags p" "drop a p"] by (intro nd_len_same keep) auto
    moreover have "nd_len (pg_flags ?q) (drop a ?q) = nd_len (pg_flags p) (drop a ?q)" using fl(2) fl' by (intro nd_len_flags) simp
    ultimately show eq: "nd_len (pg_flags ?q) (drop a ?q) = nd_len (pg_flags p) (drop a p)" by simp
    show "node_at ?q a = node_at p a" unfolding node_at_def eq using le by (intro keep)
  qed
  have head: "slice ?q a k = slice p a k" if "12 \<le> a" "a + k \<le> pg_lower p" for a k using that b by (intro keep) auto
  have fl2: "\<not> IS_LEAF2 (pg_flags ?q)" using fl' fl(3) by simp
  note s = same_slots [OF inv len head fl2 nodes(1)]
  show "page_inv ?q" by (rule s(1))
  show "page_nodes ?q = page_nodes p" using nodes(2) by (simp add: page_nodes_def s(2))
qed

section \<open>The child of a branch page\<close>

definition set_child :: "page \<Rightarrow> nat \<Rightarrow> nat \<Rightarrow> page" where
  "set_child p i pgno = splice p (pg_ptr p i) (le_bytes 6 pgno)"

lemma SETPGNO_splice:
  assumes "nd + 6 \<le> length p"
  shows "SETPGNO p nd pgno = Some (splice p nd (le_bytes 6 pgno))"
proof -
  have "le_bytes 6 pgno = le_bytes 2 pgno @ le_bytes 2 (pgno div 2 ^ 16) @ le_bytes 2 (pgno div 2 ^ 32)"
    using le_bytes_add [of 2 4 pgno] le_bytes_add [of 2 2 "pgno div 2 ^ 16"] by (simp add: div_mult2_eq [symmetric])
  moreover have "splice (splice (splice p nd a) (nd + 2) b) (nd + 4) e = splice p nd (a @ b @ e)"
    if "length a = 2" "length b = 2" "length e = 2" for a b e :: "byte list"
    using that assms by (simp add: splice_above)
  ultimately show ?thesis using assms by (simp add: SETPGNO_def byte_simps)
qed

lemma set_child_page:
  assumes inv: "page_inv p" and br: "\<not> IS_LEAF (pg_flags p)" and i: "i < pg_n p" and pgno: "pgno < 2 ^ 48"
  shows "page_inv (set_child p i pgno)" "pg_n (set_child p i pgno) = pg_n p" "pg_flags (set_child p i pgno) = pg_flags p"
    "page_keys (set_child p i pgno) = page_keys p" "mp_pgno (set_child p i pgno) = mp_pgno p" "length (set_child p i pgno) = length p"
    "\<And>j. j < pg_n p \<Longrightarrow> child (set_child p i pgno) j = (if j = i then pgno else child p j)"
proof -
  let ?q = "set_child p i pgno" and ?a = "pg_ptr p i"
  note b = page_inv_bounds [OF inv] page_inv_len [OF inv]
  have ok: "node_ok p (pg_ptr p j)" if "j < pg_n p" for j by (rule page_inv_node [OF inv that])
  have a: "pg_upper p \<le> ?a" "?a + 8 \<le> length p" using ok [OF i] node_ok_room [OF ok [OF i]] by (auto simp: node_ok_def)
  show len: "length ?q = length p" using a by (simp add: set_child_def)
  have low: "slice ?q x k = slice p x k" if "x + k \<le> pg_upper p" for x k using that a by (simp add: set_child_def slice_splice_other)
  have fl: "pg_flags ?q = pg_flags p" using b by (simp add: pg_flags_def low)
  then show "pg_flags ?q = pg_flags p" .
  show "mp_pgno ?q = mp_pgno p" using b len by (simp add: mp_pgno_def byte_simps low)
  have off: "slice ?q x k = slice p x k" if "x + k \<le> ?a \<or> ?a + 6 \<le> x" "x + k \<le> length p" for x k
    using that a by (auto simp: set_child_def slice_splice_other)
  have part: "slice ?q (pg_ptr p j + x) k = slice p (pg_ptr p j + x) k"
    if "j < pg_n p" "x + k \<le> nd_len (pg_flags p) (drop (pg_ptr p j) p)" "j = i \<longrightarrow> 6 \<le> x" for j x k
  proof (cases "j = i")
    case True
    then show ?thesis using that ok [OF that(1)] by (intro off) (auto simp: node_ok_def)
  next
    case False
    then have ap: "apart p (pg_ptr p j) ?a" using page_inv_apart [OF inv] that i by blast
    show ?thesis using ap that ok [OF that(1)] nd_len_ge(1) [of "pg_flags p" "drop ?a p"] by (intro off) (auto simp: node_ok_def apart_def)
  qed
  have ks: "nd_ksize (drop (pg_ptr p j) ?q) = nd_ksize (drop (pg_ptr p j) p)" if "j < pg_n p" for j
    using part [of j 6 2] that nd_len_ge(1) [of "pg_flags p" "drop (pg_ptr p j) p"] by (simp add: nd_ksize_def slice_drop)
  then have nl: "nd_len (pg_flags ?q) (drop (pg_ptr p j) ?q) = nd_len (pg_flags p) (drop (pg_ptr p j) p)" if "j < pg_n p" for j
    using that br by (simp add: nd_len_def nd_dlen_def fl)
  have nodes: "nd_len (pg_flags ?q) (drop x ?q) = nd_len (pg_flags p) (drop x p)" if "x \<in> set (ptrs p)" for x
    using that nl by (auto simp: ptrs_def)
  have head: "slice ?q x k = slice p x k" if "12 \<le> x" "x + k \<le> pg_lower p" for x k using that b by (intro low) auto
  have fl2: "\<not> IS_LEAF2 (pg_flags ?q)" using inv fl by (simp add: page_inv_def)
  note s = same_slots [OF inv len head fl2 nodes]
  show "page_inv ?q" "pg_n ?q = pg_n p" using s by blast+
  have okq: "node_ok ?q (pg_ptr p j)" if "j < pg_n p" for j
    using s(1) that s(2) unfolding page_inv_def by (metis length_ptrs nth_mem nth_ptrs)
  have nth: "page_nodes ?q ! j = node_at ?q (pg_ptr p j)" "page_nodes p ! j = node_at p (pg_ptr p j)" if "j < pg_n p" for j
    using that by (simp_all add: page_nodes_def s(2))
  have key: "nd_key (node_at r (pg_ptr p j)) = slice r (pg_ptr p j + 8) (nd_ksize (drop (pg_ptr p j) r))" if "node_ok r (pg_ptr p j)" for r j
    using NODEKEY_eq [OF that] node_header_eq(1) [OF node_ok_room [OF that]] by (auto simp: NODEKEY_def NODESIZE_def get_bytes_def split: if_splits)
  show "page_keys ?q = page_keys p"
  proof (rule nth_equalityI)
    fix j assume "j < length (page_keys ?q)"
    then have j: "j < pg_n p" using s(3) by simp
    have "8 + nd_ksize (drop (pg_ptr p j) p) \<le> nd_len (pg_flags p) (drop (pg_ptr p j) p)" using nd_len_fields [of "drop (pg_ptr p j) p" "pg_flags p"] by simp
    then have "nd_key (node_at ?q (pg_ptr p j)) = nd_key (node_at p (pg_ptr p j))"
      unfolding key [OF okq [OF j]] key [OF ok [OF j]] ks [OF j] using j by (intro part) auto
    then show "page_keys ?q ! j = page_keys p ! j" using j s(3) nth by (simp add: page_keys_def)
  qed (simp add: s(3))
  show "child ?q j = (if j = i then pgno else child p j)" if j: "j < pg_n p" for j
  proof -
    have c: "nd_pgno (node_at r (pg_ptr p j)) = le_nat (slice r (pg_ptr p j) 6)" if "node_ok r (pg_ptr p j)" for r
      using node_at_fields(4) [OF that] nd_pgno_slice [of "drop (pg_ptr p j) r"] node_ok_room [OF that] by (simp add: slice_drop)
    have "slice ?q (pg_ptr p j) 6 = (if j = i then le_bytes 6 pgno else slice p (pg_ptr p j) 6)"
      using part [of j 0 6] j a nd_len_ge(1) [of "pg_flags p" "drop (pg_ptr p j) p"] by (auto simp: set_child_def)
    then show ?thesis using pgno unfolding child_def nth(1) [OF j] nth(2) [OF j] c [OF okq [OF j]] c [OF ok [OF j]] by simp
  qed
qed

end
