(* ===== verification/Touch_State.thy ===== *)
theory Touch_State
  imports Alloc_Spec Touch Page_Touch
begin

text \<open>
  A write transaction that changes pages of its own: where a page is (\<open>ptr_of\<close>), the invariant \<open>wtxn\<close>, and what a store into
  a dirty page leaves as it was.
\<close>

section \<open>The address of a page\<close>

definition ptr_of :: "mdb_txn \<Rightarrow> nat \<Rightarrow> page_ptr option" where
  "ptr_of t pg = (case mdb_page_get t pg of Some (Inr pl, t') \<Rightarrow> Some (fst pl) | _ \<Rightarrow> None)"

lemma read_at_ptr: "read_at t pg ofs n = do { q \<leftarrow> ptr_of t pg; mem_bytes t q ofs n }"
  by (auto simp: read_at_def ptr_of_def split: option.split sum.split)

lemma tpage_ptr: "tpage t pg = do { q \<leftarrow> ptr_of t pg; page_at t q }"
  by (simp add: tpage_read read_at_ptr page_at_def)

text \<open>
  A write transaction that is not nested and has no spilled and no loose pages; dirty pages have buffers of their own.
\<close>

definition wtxn :: "mdb_txn \<Rightarrow> nat \<Rightarrow> txn_level \<Rightarrow> bool" where
  "wtxn t d l \<longleftrightarrow> alloc_ok t d \<and> mt_levels t = [l] \<and> mt_spill_pgs l = None \<and> mt_flags t AND MDB_TXN_SPILLS = 0 \<and>
     mt_loose_pgs t = [] \<and> distinct (map mptr (id2l_list (dirty_list l)))"

lemma wtxn_alloc_ok: "wtxn t d l \<Longrightarrow> alloc_ok t d"
  by (simp add: wtxn_def)

lemma wtxn_level:
  assumes "wtxn t d l"
  shows "id2l_inv (dirty_list l)" "e \<in> set (id2l_list (dirty_list l)) \<Longrightarrow> \<exists>a. mptr e = PBuf a \<and> in_use t (PBuf a)" "mt_next_pgno t < 2 ^ 30"
    "e \<in> set (id2l_list (dirty_list l)) \<Longrightarrow> unat (mid e) < mt_next_pgno t" "16 \<le> me_psize (mt_env t)"
    "me_flags (mt_env t) AND MDB_WRITEMAP = 0"
  using assms by (auto simp: wtxn_def alloc_ok_def level_ok_def free_ok_def pool_ok_def heap_ok_def)

lemma dl_find_in: "dl_find dl pg = Some q \<Longrightarrow> \<exists>e \<in> set (id2l_list dl). mid e = of_nat pg \<and> mptr e = q"
  unfolding dl_find_def by (auto simp: find_Some_iff intro!: bexI [OF _ nth_mem])

lemma dl_find_buf:
  assumes "wtxn t d l" "dl_find (dirty_list l) pg = Some q"
  obtains a where "q = PBuf a" "in_use t (PBuf a)"
  using dl_find_in [OF assms(2)] wtxn_level(2) [OF assms(1)] by blast

lemma dl_find_inj:
  assumes w: "wtxn t d l" and f: "dl_find (dirty_list l) pg = Some q" "dl_find (dirty_list l) pg' = Some q" and lt: "pg < 2 ^ 64" "pg' < 2 ^ 64"
  shows "pg = pg'"
proof -
  have d: "distinct (map mptr (id2l_list (dirty_list l)))" using w by (simp add: wtxn_def)
  obtain e e' where e: "e \<in> set (id2l_list (dirty_list l))" "mid e = of_nat pg" "mptr e = q"
    "e' \<in> set (id2l_list (dirty_list l))" "mid e' = of_nat pg'" "mptr e' = q"
    using dl_find_in [OF f(1)] dl_find_in [OF f(2)] by blast
  then have "e = e'" using d by (auto simp: distinct_map inj_on_def)
  then have "(of_nat pg :: mdb_id) = of_nat pg'" using e by simp
  then show ?thesis using lt unat_of_nat_small by metis
qed

lemma ptr_of_eq:
  assumes "wtxn t d l"
  shows "ptr_of t pg = (case dl_find (dirty_list l) pg of Some q \<Rightarrow> Some q | None \<Rightarrow> if pg < mt_next_pgno t then Some (PMap pg) else None)"
proof -
  have rw: "mt_flags t AND MDB_TXN_RDONLY = 0" "me_flags (mt_env t) AND MDB_WRITEMAP = 0" and lv: "mt_levels t = [l]" "mt_spill_pgs l = None"
    using assms by (auto simp: wtxn_def alloc_ok_def)
  have "page_get_loop [l] pg 1 = Some (case dl_find (dirty_list l) pg of Some p \<Rightarrow> Inr (p, 1) | None \<Rightarrow> Inl 2)"
    using page_get_loop_Cons [OF wtxn_level(1) [OF assms], of "[]" pg 1] lv(2) by (auto simp: spilled_in_def split: option.splits)
  then show ?thesis using rw lv by (simp add: ptr_of_def mdb_page_get_def split: option.splits)
qed

lemma ptr_of_less: "wtxn t d l \<Longrightarrow> pg < 2 ^ 64 \<Longrightarrow> ptr_of t pg = Some q \<Longrightarrow> pg < mt_next_pgno t"
  using dl_find_in [of "dirty_list l" pg] wtxn_level(4) [of t d l] unat_of_nat_small [of pg]
  by (fastforce simp: ptr_of_eq split: option.splits if_splits)

section \<open>Stores into dirty pages\<close>

lemma slice_splice_take: "ofs + length bs \<le> n \<Longrightarrow> n \<le> length h \<Longrightarrow> slice (splice h ofs bs) 0 n = splice (slice h 0 n) ofs bs"
  by (cases "n = ofs") (auto simp: slice_def splice_def drop_take min_def)

lemma mem_put_page:
  assumes "page_at t (PBuf b) = Some q" "ofs + length bs \<le> me_psize (mt_env t)"
  shows "\<exists>h'. mem_put t (PBuf b) ofs bs = Some (t\<lparr>mt_heap := (mt_heap t)(b \<mapsto> h')\<rparr>) \<and>
    page_at (t\<lparr>mt_heap := (mt_heap t)(b \<mapsto> h')\<rparr>) (PBuf b) = Some (splice q ofs bs) \<and> mt_heap t b \<noteq> None"
proof -
  obtain h where h: "mt_heap t b = Some h" "me_psize (mt_env t) \<le> length h" "q = slice h 0 (me_psize (mt_env t))"
    using assms(1) by (auto simp: page_at_def mem_bytes_def get_bytes_def split: Option.bind_splits if_splits)
  then show ?thesis using assms(2)
    by (auto simp: mem_put_def byte_simps page_at_def mem_bytes_def get_bytes_def slice_splice_take)
qed

text \<open>The page buffer of \<open>pg\<close>, a dirty page, is overwritten with \<open>q\<close>.\<close>

definition wrote :: "mdb_txn \<Rightarrow> nat \<Rightarrow> txn_level \<Rightarrow> nat \<Rightarrow> page \<Rightarrow> mdb_txn \<Rightarrow> bool" where
  "wrote t d l pg q t' \<longleftrightarrow> (\<exists>b h'. t' = t\<lparr>mt_heap := (mt_heap t)(b \<mapsto> h')\<rparr> \<and> dl_find (dirty_list l) pg = Some (PBuf b)) \<and>
     wtxn t' d l \<and> (\<forall>x. in_pool t' d x = in_pool t d x) \<and> db_pages t' FREE_DBI d = db_pages t FREE_DBI d \<and>
     reads_same t t' ({..<2 ^ 64} - {pg}) \<and> ptr_of t' = ptr_of t \<and> tpage t' pg = Some q"

lemma buffer_reads:
  assumes w: "wtxn t d l" and f: "dl_find (dirty_list l) pg = Some (PBuf b)" and pg: "pg < 2 ^ 64"
    and lv: "mt_levels t' = mt_levels t" "mt_flags t' = mt_flags t" "mt_env t' = mt_env t" "mt_next_pgno t' = mt_next_pgno t"
    and heap: "\<And>a. a \<noteq> b \<Longrightarrow> mt_heap t' a = mt_heap t a"
  shows "ptr_of t' = ptr_of t" "reads_same t t' ({..<2 ^ 64} - {pg})"
proof -
  show p: "ptr_of t' = ptr_of t"
    using lv by (intro ext) (auto simp: ptr_of_def mdb_page_get_def split: Option.bind_splits sum.splits option.splits)
  have "read_at t' x ofs n = read_at t x ofs n" if x: "x < 2 ^ 64" "x \<noteq> pg" for x ofs n
  proof -
    have "ptr_of t x \<noteq> Some (PBuf b)"
    proof
      assume "ptr_of t x = Some (PBuf b)"
      then have "dl_find (dirty_list l) x = Some (PBuf b)" by (auto simp: ptr_of_eq [OF w] split: option.splits if_splits)
      then show False using dl_find_inj [OF w _ f x(1) pg] x(2) by blast
    qed
    then show ?thesis unfolding read_at_ptr p using heap lv(3) by (auto simp: mem_bytes_def split: Option.bind_split page_ptr.split)
  qed
  then show "reads_same t t' ({..<2 ^ 64} - {pg})" using lv(3) by (simp add: reads_same_def)
qed

text \<open>The allocator is not affected by changes of pages that it does not use.\<close>

lemma alloc_ok_same:
  assumes ok: "alloc_ok t d" and lv: "mt_levels t' = mt_levels t" "mt_flags t' = mt_flags t" "mt_env t' = mt_env t" "mt_next_pgno t' = mt_next_pgno t"
      "mt_brk t \<le> mt_brk t'" "mt_dirty_room t' = mt_dirty_room t" "mt_txnid t' = mt_txnid t"
    and heap: "\<And>a. (mt_heap t' a = None) = (mt_heap t a = None)" "\<And>a. a \<in> set (me_dpages (mt_env t)) \<Longrightarrow> mt_heap t' a = mt_heap t a"
    and rs: "reads_same t t' (db_pages t FREE_DBI d)" and h: "same_handle t t' FREE_DBI"
  shows "alloc_ok t' d" "\<And>x. in_pool t' d x = in_pool t d x" "db_pages t' FREE_DBI d = db_pages t FREE_DBI d"
proof -
  have rok: "records_ok t d" using ok by (simp add: alloc_ok_def free_ok_def)
  note s = same_records [OF rs h rok arg_cong [OF lv(3), of me_pglast]]
  then show pg: "db_pages t' FREE_DBI d = db_pages t FREE_DBI d" by blast
  have fi: "free_ids t' = free_ids t" using lv(3) by (simp add: free_ids_def)
  have pl: "pool_list t' d = pool_list t d" unfolding pool_split using s(2) fi by simp
  show "in_pool t' d x = in_pool t d x" for x by (simp add: in_pool_def pl lv(4))
  have old: "mdb_find_oldest t' = mdb_find_oldest t" by (simp add: mdb_find_oldest_def lv(3,7) cong: option.case_cong)
  have "free_ok t' d" using ok s(1) by (simp add: alloc_ok_def free_ok_def pghead_ok_def pool_ok_def readers_ok_def lv pl old)
  moreover have "heap_ok t'" using ok heap lv(5) by (auto simp: alloc_ok_def heap_ok_def lv(3))
  moreover have "level_ok t' x" if "level_ok t x" for x
    using that lv(5) by (fastforce simp: level_ok_def in_use_def lv(3))
  ultimately show "alloc_ok t' d" using ok unfolding alloc_ok_def by (simp add: lv pl pg cong: list.case_cong)
qed

lemma write_page:
  assumes w: "wtxn t d l" and f: "dl_find (dirty_list l) pg = Some (PBuf b)" and pg: "pg < 2 ^ 64" "pg \<notin> db_pages t FREE_DBI d"
    and q: "page_at t (PBuf b) = Some q" "ofs + length bs \<le> me_psize (mt_env t)"
  shows "\<exists>t'. mem_put t (PBuf b) ofs bs = Some t' \<and> wrote t d l pg (splice q ofs bs) t'"
proof -
  obtain h' where h': "mem_put t (PBuf b) ofs bs = Some (t\<lparr>mt_heap := (mt_heap t)(b \<mapsto> h')\<rparr>)"
    "page_at (t\<lparr>mt_heap := (mt_heap t)(b \<mapsto> h')\<rparr>) (PBuf b) = Some (splice q ofs bs)" "mt_heap t b \<noteq> None"
    using mem_put_page [OF q] by blast
  let ?t = "t\<lparr>mt_heap := (mt_heap t)(b \<mapsto> h')\<rparr>"
  have ok: "alloc_ok t d" by (rule wtxn_alloc_ok [OF w])
  have use: "in_use t (PBuf b)" using dl_find_buf [OF w f] by blast
  have r: "ptr_of ?t = ptr_of t" "reads_same t ?t ({..<2 ^ 64} - {pg})" using buffer_reads [OF w f pg(1), of ?t] by simp_all
  have "db_pages t FREE_DBI d \<subseteq> {..<2 ^ 64} - {pg}" using ok pg(2) wtxn_level(3) [OF w] by (auto simp: alloc_ok_def)
  then have rs: "reads_same t ?t (db_pages t FREE_DBI d)" using r(2) reads_same_mono by blast
  have h: "same_handle t ?t FREE_DBI" by (simp add: same_handle_def)
  have a: "(mt_heap ?t x = None) = (mt_heap t x = None)" "x \<in> set (me_dpages (mt_env t)) \<Longrightarrow> mt_heap ?t x = mt_heap t x" for x
    using h'(3) use by (auto simp: in_use_def)
  note s = alloc_ok_same [OF ok, of ?t, OF _ _ _ _ _ _ _ a rs h]
  have "wtxn ?t d l" using w s(1) by (simp add: wtxn_def)
  moreover have "ptr_of t pg = Some (PBuf b)" using f by (simp add: ptr_of_eq [OF w])
  ultimately have "wrote t d l pg (splice q ofs bs) ?t"
    unfolding wrote_def using f s(2,3) r h'(2) by (auto simp: tpage_ptr)
  then show ?thesis using h'(1) by blast
qed

text \<open>Changes of fields that neither reading nor the allocator look at.\<close>

lemma wtxn_same:
  assumes w: "wtxn t d l" and lv: "mt_levels t' = mt_levels t" "mt_flags t' = mt_flags t" "mt_env t' = mt_env t" "mt_next_pgno t' = mt_next_pgno t"
      "mt_brk t \<le> mt_brk t'" "mt_dirty_room t' = mt_dirty_room t" "mt_txnid t' = mt_txnid t" "mt_heap t' = mt_heap t" "mt_loose_pgs t' = mt_loose_pgs t"
    and h: "same_handle t t' FREE_DBI"
  shows "wtxn t' d l" "\<And>x. in_pool t' d x = in_pool t d x" "db_pages t' FREE_DBI d = db_pages t FREE_DBI d" "ptr_of t' = ptr_of t" "reads_same t t' S"
proof -
  show p: "ptr_of t' = ptr_of t"
    using lv by (intro ext) (auto simp: ptr_of_def mdb_page_get_def split: Option.bind_splits sum.splits option.splits)
  have "mem_bytes t' = mem_bytes t" using lv by (intro ext) (simp add: mem_bytes_def split: page_ptr.split)
  then have rs: "reads_same t t' S" for S by (simp add: reads_same_def read_at_ptr p lv(3))
  then show "reads_same t t' S" .
  have hp: "(mt_heap t' a = None) = (mt_heap t a = None)" "mt_heap t' a = mt_heap t a" for a using lv(8) by simp_all
  note s = alloc_ok_same [OF wtxn_alloc_ok [OF w] lv(1-7) hp(1) hp(2) rs h]
  show "wtxn t' d l" using w s(1) by (simp add: wtxn_def lv)
  show "in_pool t' d x = in_pool t d x" for x by (rule s(2))
  show "db_pages t' FREE_DBI d = db_pages t FREE_DBI d" by (rule s(3))
qed

section \<open>A new page\<close>

lemma dl_ins_distinct:
  assumes "dl_ins dl pgno q dl'" "distinct (map mptr (id2l_list dl))" "q \<notin> mptr ` set (id2l_list dl)" "id2l_inv dl"
  shows "distinct (map mptr (id2l_list dl'))"
proof -
  let ?A = "filter (\<lambda>y. mid y < of_nat pgno) (id2l_list dl)" and ?B = "filter (\<lambda>y. mid y > of_nat pgno) (id2l_list dl)"
  have "distinct (map mptr ?A)" "distinct (map mptr ?B)" using assms(2) by (auto simp: distinct_map inj_on_def)
  moreover have "mptr x \<noteq> mptr y" if "x \<in> set ?A" "y \<in> set ?B" for x y
    using that assms(2) by (auto simp: distinct_map inj_on_def)
  ultimately show ?thesis using assms(1,3) by (auto simp: dl_ins_def)
qed

lemma new_page:
  assumes w: "wtxn t d l"
  shows "\<exists>r t1. mdb_page_alloc t 1 = Some (r, t1) \<and> (case r of
      Inl rc \<Rightarrow> rc \<noteq> MDB_SUCCESS \<and> mt_flags t1 AND MDB_TXN_ERROR \<noteq> 0
    | Inr np \<Rightarrow> \<exists>a pgno l' q. np = PBuf a \<and> wtxn t1 d l' \<and> alloc_frame t pgno np t1 \<and> in_pool t d pgno \<and>
        (\<forall>x. in_pool t1 d x \<longleftrightarrow> in_pool t d x \<and> x \<noteq> pgno) \<and> pgno < mt_next_pgno t1 \<and> \<not> in_use t np \<and>
        dl_find (dirty_list l') pgno = Some np \<and> (\<forall>x < 2 ^ 64. x \<noteq> pgno \<longrightarrow> dl_find (dirty_list l') x = dl_find (dirty_list l) x) \<and>
        reads_same t t1 ({..<mt_next_pgno t} - {pgno}) \<and> db_pages t1 FREE_DBI d = db_pages t FREE_DBI d \<and>
        page_at t1 np = Some q \<and> mp_pgno q = Some pgno)"
proof -
  have ok: "alloc_ok t d" and loose: "mt_loose_pgs t = []" and lv: "mt_levels t = [l]" using w by (auto simp: wtxn_def)
  obtain r t1 where r: "mdb_page_alloc t 1 = Some (r, t1)" "case r of
      Inl rc \<Rightarrow> rc \<in> {MDB_TXN_FULL, MDB_MAP_FULL, ENOMEM} \<and> mt_flags t1 AND MDB_TXN_ERROR \<noteq> 0
    | Inr np \<Rightarrow> \<exists>pgno. granted t d 1 np pgno t1 \<and> from_old t d {pgno..<pgno + 1}"
    using page_alloc_spec [OF ok, of 1] loose by auto
  show ?thesis
  proof (cases r)
    case (Inl rc)
    then show ?thesis using r by auto
  next
    case (Inr np)
    then obtain pgno where g: "granted t d 1 np pgno t1" using r(2) by auto
    have fr: "alloc_frame t pgno np t1" and ok1: "alloc_ok t1 d" and pool: "in_pool t d pgno" "\<forall>x. in_pool t1 d x \<longleftrightarrow> in_pool t d x \<and> x \<noteq> pgno"
      and rs: "reads_same t t1 ({..<mt_next_pgno t} - {pgno})" and use: "\<not> in_use t np"
      and pg: "\<exists>q. page_at t1 np = Some q \<and> mp_pgno q = Some pgno" and dp: "dirty_lookup t1 pgno = Some (Some np)"
      using g by (auto simp: granted_def page_at_def reads_same_def)
    obtain a p h lst old dps n nx dl dr where f: "np = PBuf a" "dl_ins (dirty_list l) pgno np dl" "mt_next_pgno t \<le> nx"
      and t1: "t1 = t\<lparr>mt_env := (mt_env t)\<lparr>me_pghead := h, me_pglast := lst, me_pgoldest := old, me_dpages := dps\<rparr>, mt_brk := n,
       mt_heap := (mt_heap t)(a \<mapsto> p), mt_levels := [l\<lparr>dirty_list := dl\<rparr>], mt_next_pgno := nx, mt_dirty_room := dr\<rparr>"
      using fr unfolding alloc_frame_def by (auto simp: lv)
    let ?l = "l\<lparr>dirty_list := dl\<rparr>"
    have lt: "pgno < nx" using pool by (fastforce simp: in_pool_def t1)
    have small: "nx < 2 ^ 30" using ok1 by (simp add: alloc_ok_def free_ok_def pool_ok_def t1)
    have mids: "of_nat pgno \<notin> mid ` set (id2l_list (dirty_list l))"
    proof
      assume "of_nat pgno \<in> mid ` set (id2l_list (dirty_list l))"
      then obtain e where e: "e \<in> set (id2l_list (dirty_list l))" "unat (mid e) = unat (of_nat pgno :: mdb_id)" by auto
      have "unat (of_nat pgno :: mdb_id) = pgno" using lt small by (intro unat_of_nat_small) simp
      then show False using ok e pool(1) by (auto simp: alloc_ok_def lv in_pool_def)
    qed
    have fd: "dl_find dl x = (if x = pgno then Some np else dl_find (dirty_list l) x)" if "x < 2 ^ 64" for x
      using dl_ins_find [OF f(2) _ that mids] lt small by simp
    have "np \<notin> mptr ` set (id2l_list (dirty_list l))" using wtxn_level(2) [OF w] use by (metis (no_types, lifting) imageE)
    then have "distinct (map mptr (id2l_list dl))" using w wtxn_level(1) [OF w] by (intro dl_ins_distinct [OF f(2)]) (auto simp: wtxn_def)
    then have w1: "wtxn t1 d ?l" using w ok1 by (simp add: wtxn_def t1)
    have "db_pages t FREE_DBI d \<subseteq> {..<mt_next_pgno t} - {pgno}" using ok pool(1) by (auto simp: alloc_ok_def in_pool_def)
    then have "db_pages t1 FREE_DBI d = db_pages t FREE_DBI d"
      using db_frame(2) [of t t1 FREE_DBI d] reads_same_mono [OF rs] by (simp add: same_handle_def t1)
    then have "\<exists>a pgno l' q. np = PBuf a \<and> wtxn t1 d l' \<and> alloc_frame t pgno np t1 \<and> in_pool t d pgno \<and>
        (\<forall>x. in_pool t1 d x \<longleftrightarrow> in_pool t d x \<and> x \<noteq> pgno) \<and> pgno < mt_next_pgno t1 \<and> \<not> in_use t np \<and>
        dl_find (dirty_list l') pgno = Some np \<and> (\<forall>x < 2 ^ 64. x \<noteq> pgno \<longrightarrow> dl_find (dirty_list l') x = dl_find (dirty_list l) x) \<and>
        reads_same t t1 ({..<mt_next_pgno t} - {pgno}) \<and> db_pages t1 FREE_DBI d = db_pages t FREE_DBI d \<and>
        page_at t1 np = Some q \<and> mp_pgno q = Some pgno" if "page_at t1 np = Some q" "mp_pgno q = Some pgno" for q
      using f(1) w1 fr pool use rs that lt small fd by (intro exI [of _ a] exI [of _ pgno] exI [of _ ?l] exI [of _ q]) (simp add: t1)
    then show ?thesis using r(1) Inr pg by auto
  qed
qed

end
