(* ===== verification/Touch_Page.thy ===== *)
theory Touch_Page
  imports Touch_State
begin

text \<open>
  \<open>mdb_page_touch\<close> on a clean page: the page is copied to a new number, the parent or the record of the database points to
  the copy, the cursors follow, and every other page reads as before.
\<close>

section \<open>The list of freed pages\<close>

lemma xappend_spec:
  assumes il: "idl_inv il" "unat (alloclen il) < 2 ^ 32" and room: "length (idl_list (cells il)) + 1 \<le> unat (alloclen il)"
  shows "\<exists>cs. mdb_midl_xappend (cells il) x = Some cs \<and> idl_inv (il\<lparr>cells := cs\<rparr>) \<and> idl_list cs = idl_list (cells il) @ [x]"
proof -
  let ?c = "cells il ! 0"
  have c0: "unat ?c = length (idl_list (cells il))" using length_idl_list [OF idl_inv_wf [OF il(1)]] by simp
  have rm: "roomy il il 1" using room c0 by (intro roomy_same [OF il(1)]) simp
  note rc = roomy_cells [OF il(1) rm]
  have c1: "unat (?c + 1) = unat ?c + 1" using il by (subst unat_plus_small) (auto simp: idl_inv_def)
  define a where "a = (cells il)[0 := ?c + 1, unat ?c + 1 := x]"
  have "mdb_midl_xappend (cells il) x = Some a" using rc(2,4) by (simp add: mdb_midl_xappend_def mem_simps c1 a_def)
  moreover have "idl_inv (il\<lparr>cells := a\<rparr>) \<and> idl_list a = idl_list (cells il) @ [x]"
    by (rule append_cells_inv [OF il(1) rm]) (use il rc in \<open>auto simp: a_def nth_list_update\<close>)
  ultimately show ?thesis by auto
qed

text \<open>Room for more freed pages.\<close>

definition free_room :: "mdb_txn \<Rightarrow> nat \<Rightarrow> bool" where
  "free_room t n \<longleftrightarrow> idl_inv (mt_free_pgs t) \<and> unat (alloclen (mt_free_pgs t)) < 2 ^ 32 \<and> length (idl_list (cells (mt_free_pgs t))) + n < 2 ^ 30"

definition freed_pages :: "mdb_txn \<Rightarrow> mdb_id list" where
  "freed_pages t = idl_list (cells (mt_free_pgs t))"

section \<open>The stores\<close>

lemma wrote_trans:
  assumes "wrote t d l pg q t1" "wrote t1 d l pg q' t2"
  shows "wrote t d l pg q' t2"
proof -
  obtain b h b' h' where "t1 = t\<lparr>mt_heap := (mt_heap t)(b \<mapsto> h)\<rparr>" "t2 = t1\<lparr>mt_heap := (mt_heap t1)(b' \<mapsto> h')\<rparr>"
    "dl_find (dirty_list l) pg = Some (PBuf b)" "dl_find (dirty_list l) pg = Some (PBuf b')"
    using assms unfolding wrote_def by blast
  then have "t2 = t\<lparr>mt_heap := (mt_heap t)(b \<mapsto> h')\<rparr> \<and> dl_find (dirty_list l) pg = Some (PBuf b)" by simp
  then have "\<exists>b h'. t2 = t\<lparr>mt_heap := (mt_heap t)(b \<mapsto> h')\<rparr> \<and> dl_find (dirty_list l) pg = Some (PBuf b)" by blast
  then show ?thesis using assms unfolding wrote_def by (simp add: reads_same_def)
qed

lemma wrote_fields:
  assumes "wrote t d l pg q t'"
  shows "mt_dbs t' = mt_dbs t" "mt_dbxs t' = mt_dbxs t" "mt_dbflags t' = mt_dbflags t" "mt_cursors t' = mt_cursors t" "mt_flags t' = mt_flags t"
    "mt_free_pgs t' = mt_free_pgs t" "mt_env t' = mt_env t" "mt_next_pgno t' = mt_next_pgno t"
  using assms unfolding wrote_def by auto

lemma wrote_page:
  assumes "wrote t d l pg q t'"
  shows "\<exists>b. dl_find (dirty_list l) pg = Some (PBuf b) \<and> page_at t' (PBuf b) = Some q" "wtxn t' d l"
proof -
  obtain b where b: "dl_find (dirty_list l) pg = Some (PBuf b)" and w: "wtxn t' d l" and tp: "tpage t' pg = Some q"
    using assms unfolding wrote_def by blast
  have "ptr_of t' pg = Some (PBuf b)" using b by (simp add: ptr_of_eq [OF w])
  then show "\<exists>b. dl_find (dirty_list l) pg = Some (PBuf b) \<and> page_at t' (PBuf b) = Some q" using b tp by (simp add: tpage_ptr)
  show "wtxn t' d l" by (rule w)
qed

lemma page_at_len: "page_at t q = Some p \<Longrightarrow> length p = me_psize (mt_env t)"
  by (auto simp: page_at_def mem_bytes_def get_bytes_def split: page_ptr.splits Option.bind_splits if_splits)

lemma F_ISSET_bit: "F_ISSET w (2 ^ k) = bit w k"
  by (simp add: F_ISSET_def and_exp)

lemma dirty_flags: "fl < 65536 \<Longrightarrow> fl OR P_DIRTY < 65536" "IS_LEAF (fl OR P_DIRTY) = IS_LEAF fl" "IS_BRANCH (fl OR P_DIRTY) = IS_BRANCH fl"
  "IS_LEAF2 (fl OR P_DIRTY) = IS_LEAF2 fl" "F_ISSET (fl OR P_DIRTY) P_DIRTY"
proof -
  have b: "bit (fl OR P_DIRTY) k = (bit fl k \<or> k = 4)" for k
  proof -
    have "bit (16 :: nat) k = (k = 4)" using bit_exp_iff [of 4 k, where ?'a = nat] by auto
    then show ?thesis by (simp add: bit_or_iff P_DIRTY_def)
  qed
  have p: "P_LEAF = 2 ^ 1" "P_BRANCH = 2 ^ 0" "P_LEAF2 = 2 ^ 5" "P_DIRTY = 2 ^ 4"
    by (simp_all add: P_DIRTY_def P_LEAF_def P_BRANCH_def P_LEAF2_def)
  show "IS_LEAF (fl OR P_DIRTY) = IS_LEAF fl" "IS_BRANCH (fl OR P_DIRTY) = IS_BRANCH fl" "IS_LEAF2 (fl OR P_DIRTY) = IS_LEAF2 fl"
    by (simp_all only: IS_LEAF_def IS_BRANCH_def IS_LEAF2_def p(1-3) F_ISSET_bit b, simp_all)
  have "F_ISSET (fl OR P_DIRTY) (2 ^ 4)" by (simp only: F_ISSET_bit b simp_thms)
  then show "F_ISSET (fl OR P_DIRTY) P_DIRTY" unfolding p(4) [symmetric] .
  assume "fl < 65536"
  then have "take_bit 16 (fl OR P_DIRTY) = fl OR P_DIRTY" by (simp add: P_DIRTY_def take_bit_nat_eq_self)
  then show "fl OR P_DIRTY < 65536" using take_bit_nat_less_exp [of 16 "fl OR P_DIRTY"] by simp
qed

text \<open>The copy of page \<open>p\<close> under the new number.\<close>

lemma copy_stores:
  assumes w: "wtxn t d l" and f: "dl_find (dirty_list l) pgno = Some (PBuf a)" and pg: "pgno < 2 ^ 64" "pgno \<notin> db_pages t FREE_DBI d"
    and dst: "page_at t (PBuf a) = Some q0" and src: "page_at t mp = Some p" "page_inv p"
  shows "\<exists>t1 t2 t3 p'. page_copy_to t (PBuf a) mp = Some t1 \<and> mem_put t1 (PBuf a) 0 (le_bytes 8 pgno) = Some t2 \<and>
    set_dirty_flag t2 (PBuf a) = Some t3 \<and> wrote t d l pgno p' t3 \<and>
    page_inv p' \<and> page_nodes p' = page_nodes p \<and> pg_flags p' = pg_flags p OR P_DIRTY \<and> mp_pgno p' = Some pgno"
proof -
  let ?n = "me_psize (mt_env t)"
  have n16: "16 \<le> ?n" by (rule wtxn_level(5) [OF w])
  obtain q where q: "mdb_page_copy q0 p ?n = Some q" "length q = ?n" "page_inv q" "page_nodes q = page_nodes p" "pg_flags q = pg_flags p"
    using page_copies [OF src(2) page_at_len [OF src(1)] page_at_len [OF dst]] by blast
  obtain t1 where t1: "mem_put t (PBuf a) 0 q = Some t1" "wrote t d l pgno (splice q0 0 q) t1"
    using write_page [OF w f pg dst, of 0 q] q(2) by auto
  have "splice q0 0 q = q" using q(2) page_at_len [OF dst] by (simp add: splice_def)
  then have w1: "wrote t d l pgno q t1" using t1(2) by simp
  have env: "mt_env t1 = mt_env t" using wrote_fields [OF w1] by simp
  have at1: "page_at t1 (PBuf a) = Some q" using wrote_page(1) [OF w1] f by auto
  have fr: "pgno \<notin> db_pages t1 FREE_DBI d" using w1 pg(2) by (simp add: wrote_def)
  let ?q2 = "splice q 0 (le_bytes 8 pgno)"
  obtain t2 where t2: "mem_put t1 (PBuf a) 0 (le_bytes 8 pgno) = Some t2" "wrote t1 d l pgno ?q2 t2"
    using write_page [OF wrote_page(2) [OF w1] f pg(1) fr at1, of 0 "le_bytes 8 pgno"] n16 env by auto
  have at2: "page_at t2 (PBuf a) = Some ?q2" using wrote_page(1) [OF t2(2)] f by auto
  have fr2: "pgno \<notin> db_pages t2 FREE_DBI d" using t2(2) fr by (simp add: wrote_def)
  have fl: "mp_flags ?q2 = Some (pg_flags p)"
    using q(2,5) n16 by (simp add: mp_flags_def byte_simps pg_flags_def slice_splice_other)
  let ?fl = "pg_flags p OR P_DIRTY"
  obtain t3 where t3: "mem_put t2 (PBuf a) 10 (le_bytes 2 ?fl) = Some t3" "wrote t2 d l pgno (renumber q pgno ?fl) t3"
    using write_page [OF wrote_page(2) [OF t2(2)] f pg(1) fr2 at2, of 10 "le_bytes 2 ?fl"] n16 env wrote_fields(7) [OF t2(2)]
    by (auto simp: renumber_def)
  have "page_copy_to t (PBuf a) mp = Some t1" using dst src(1) q(1) t1(1) by (simp add: page_copy_to_def)
  moreover have "set_dirty_flag t2 (PBuf a) = Some t3" using at2 fl t3(1) by (simp add: set_dirty_flag_def)
  moreover have "wrote t d l pgno (renumber q pgno ?fl) t3" using wrote_trans [OF wrote_trans [OF w1 t2(2)] t3(2)] .
  moreover have "pg_flags p < 65536" using pg_bounds [of p] page_inv_len [OF src(2)] by blast
  then have "page_inv (renumber q pgno ?fl)" "page_nodes (renumber q pgno ?fl) = page_nodes p" "pg_flags (renumber q pgno ?fl) = ?fl"
    "mp_pgno (renumber q pgno ?fl) = Some pgno"
    using renumber_page [OF q(3), of ?fl pgno] pg(1) q(4,5) src(2) by (simp_all add: dirty_flags page_inv_def)
  ultimately show ?thesis using t2(1) by blast
qed

section \<open>The cursors\<close>

definition cursors_ok :: "mdb_txn \<Rightarrow> mdb_cursor \<Rightarrow> bool" where
  "cursors_ok t mc \<longleftrightarrow> (\<exists>cs. mt_cursors t = Some cs \<and> mc_dbi mc < length cs \<and>
     (\<forall>m2 \<in> set (cs ! mc_dbi mc). length (mc_pg m2) = 32 \<and> length (mc_ki m2) = 32)) \<and> mc_flags mc AND C_SUB = 0"

definition move_ptr :: "mdb_cursor \<Rightarrow> page_ptr \<Rightarrow> page_ptr \<Rightarrow> mdb_cursor \<Rightarrow> mdb_cursor" where
  "move_ptr mc mp np m2 = (if mc_snum mc \<le> mc_snum m2 \<and> mc_pg m2 ! mc_top mc = Some mp
     then m2\<lparr>mc_pg := (mc_pg m2)[mc_top mc := Some np]\<rparr> else m2)"

definition set_top :: "mdb_cursor \<Rightarrow> page_ptr \<Rightarrow> mdb_cursor" where
  "set_top mc np = mc\<lparr>mc_pg := (mc_pg mc)[mc_top mc := Some np]\<rparr>"

lemma set_top_simps [simp]: "mc_dbi (set_top mc np) = mc_dbi mc" "mc_top (set_top mc np) = mc_top mc" "mc_snum (set_top mc np) = mc_snum mc"
  "mc_ki (set_top mc np) = mc_ki mc" "mc_flags (set_top mc np) = mc_flags mc" "mc_pg (set_top mc np) = (mc_pg mc)[mc_top mc := Some np]"
  by (simp_all add: set_top_def)

lemma touch_cursors_map:
  assumes db: "mc_db t mc = Some db" "md_flags db AND MDB_DUPSORT = 0" and p: "page_at t np = Some p" "16 \<le> length p"
    and len: "mc_top mc < 32" "length (mc_ki mc) = 32" "\<forall>m2 \<in> set ms. length (mc_pg m2) = 32 \<and> length (mc_ki m2) = 32"
  shows "touch_cursors t mc mp np ms = Some (map (move_ptr mc mp np) ms)"
  using len(3)
proof (induction ms)
  case (Cons m2 ms)
  have "touch_cursor t mc mp np m2 = Some (move_ptr mc mp np m2)"
    using Cons.prems len(1,2) db p by (auto simp: touch_cursor_def move_ptr_def mem_simps mp_flags_eq)
  then show ?case using Cons by simp
qed simp

lemma touch_done_spec:
  assumes db: "mc_db t mc = Some db" "md_flags db AND MDB_DUPSORT = 0" and p: "page_at t np = Some p" "16 \<le> length p"
    and len: "mc_top mc < 32" "length (mc_pg mc) = 32" "length (mc_ki mc) = 32" and cs: "cursors_ok t mc"
  shows "\<exists>cs. touch_done t mc mp np = Some (MDB_SUCCESS, t\<lparr>mt_cursors := Some cs\<rparr>, set_top mc np) \<and> cursors_ok (t\<lparr>mt_cursors := Some cs\<rparr>) mc \<and>
    (\<exists>cs0. mt_cursors t = Some cs0 \<and> cs = cs0[mc_dbi mc := map (move_ptr mc mp np) (cs0 ! mc_dbi mc)])"
proof -
  obtain cs0 where c: "mt_cursors t = Some cs0" "mc_dbi mc < length cs0" "\<forall>m2 \<in> set (cs0 ! mc_dbi mc). length (mc_pg m2) = 32 \<and> length (mc_ki m2) = 32"
    using cs by (auto simp: cursors_ok_def)
  have db': "mc_db t (set_top mc np) = Some db" using db(1) by (simp add: mc_db_def)
  have "touch_cursors t (set_top mc np) mp np (cs0 ! mc_dbi mc) = Some (map (move_ptr (set_top mc np) mp np) (cs0 ! mc_dbi mc))"
    using len c(3) by (intro touch_cursors_map [OF db' db(2) p]) simp_all
  moreover have "move_ptr (set_top mc np) mp np = move_ptr mc mp np" by (intro ext) (simp add: move_ptr_def)
  moreover have "c_write (mc_pg mc) (mc_top mc) (Some np) = Some ((mc_pg mc)[mc_top mc := Some np])" using len by (simp add: mem_simps)
  ultimately have "touch_done t mc mp np = Some (MDB_SUCCESS, t\<lparr>mt_cursors := Some (cs0[mc_dbi mc := map (move_ptr mc mp np) (cs0 ! mc_dbi mc)])\<rparr>, set_top mc np)"
    using c(1,2) cs by (simp add: touch_done_def mem_simps cursors_ok_def Let_def set_top_def)
  moreover have "cursors_ok (t\<lparr>mt_cursors := Some (cs0[mc_dbi mc := map (move_ptr mc mp np) (cs0 ! mc_dbi mc)])\<rparr>) mc"
    using cs c by (auto simp: cursors_ok_def move_ptr_def)
  ultimately show ?thesis using c(1) by blast
qed

section \<open>The parent\<close>

text \<open>What points to the touched page: an entry of the dirty parent page, or the record of the database.\<close>

definition parent_ok :: "mdb_txn \<Rightarrow> nat \<Rightarrow> txn_level \<Rightarrow> mdb_cursor \<Rightarrow> nat \<Rightarrow> nat \<Rightarrow> page \<Rightarrow> bool" where
  "parent_ok t d l mc pg j q \<longleftrightarrow> (\<exists>b. c_read (mc_pg mc) (mc_top mc - 1) = Some (Some (PBuf b)) \<and> dl_find (dirty_list l) pg = Some (PBuf b) \<and>
     page_at t (PBuf b) = Some q) \<and> c_read (mc_ki mc) (mc_top mc - 1) = Some j \<and> pg < mt_next_pgno t \<and> pg \<notin> db_pages t FREE_DBI d \<and>
     page_inv q \<and> \<not> IS_LEAF (pg_flags q) \<and> j < pg_n q"

lemma touch_parent_page:
  assumes w: "wtxn t d l" and top: "mc_top mc \<noteq> 0" and par: "parent_ok t d l mc pg j q"
  shows "\<exists>t'. touch_parent t mc pgno = Some t' \<and> wrote t d l pg (set_child q j pgno) t'"
proof -
  obtain b where b: "c_read (mc_pg mc) (mc_top mc - 1) = Some (Some (PBuf b))" "dl_find (dirty_list l) pg = Some (PBuf b)"
      "page_at t (PBuf b) = Some q" and ki: "c_read (mc_ki mc) (mc_top mc - 1) = Some j" and pg: "pg < mt_next_pgno t" "pg \<notin> db_pages t FREE_DBI d"
    and inv: "page_inv q" "j < pg_n q"
    using par by (auto simp: parent_ok_def)
  have pg64: "pg < 2 ^ 64" using pg(1) wtxn_level(3) [OF w] by simp
  have nd: "pg_ptr q j + 8 \<le> length q" using node_ok_room [OF page_inv_node [OF inv]] .
  have ptr: "mp_ptr q j = Some (pg_ptr q j)" by (rule NODEPGNO_child(1) [OF inv])
  have set: "SETPGNO q (pg_ptr q j) pgno = Some (set_child q j pgno)" using SETPGNO_splice [of "pg_ptr q j" q pgno] nd by (simp add: set_child_def)
  have sl: "slice (set_child q j pgno) (pg_ptr q j) 6 = le_bytes 6 pgno" using nd by (simp add: set_child_def)
  obtain t' where "mem_put t (PBuf b) (pg_ptr q j) (le_bytes 6 pgno) = Some t'" "wrote t d l pg (set_child q j pgno) t'"
    using write_page [OF w b(2) pg64 pg(2) b(3), of "pg_ptr q j" "le_bytes 6 pgno"] nd page_at_len [OF b(3)] by (auto simp: set_child_def)
  then show ?thesis using top b ki ptr set sl by (simp add: touch_parent_def)
qed

text \<open>The new number has been stored in the parent, or in the record of the database.\<close>

definition new_dbs :: "mdb_txn \<Rightarrow> mdb_cursor \<Rightarrow> nat \<Rightarrow> mdb_db list" where
  "new_dbs t mc pgno = (if mc_top mc = 0 then (mt_dbs t)[mc_dbi mc := (mt_dbs t ! mc_dbi mc)\<lparr>md_root := pgno\<rparr>] else mt_dbs t)"

definition linked :: "mdb_txn \<Rightarrow> nat \<Rightarrow> txn_level \<Rightarrow> mdb_cursor \<Rightarrow> nat \<Rightarrow> nat \<Rightarrow> page \<Rightarrow> nat \<Rightarrow> mdb_txn \<Rightarrow> bool" where
  "linked t d l mc pg j q pgno t' \<longleftrightarrow> wtxn t' d l \<and> (\<forall>x. in_pool t' d x = in_pool t d x) \<and> db_pages t' FREE_DBI d = db_pages t FREE_DBI d \<and>
     ptr_of t' = ptr_of t \<and> reads_same t t' ({..<2 ^ 64} - (if mc_top mc = 0 then {} else {pg})) \<and>
     (mc_top mc \<noteq> 0 \<longrightarrow> tpage t' pg = Some (set_child q j pgno)) \<and>
     (\<exists>h. t' = t\<lparr>mt_dbs := new_dbs t mc pgno, mt_heap := h\<rparr>)"

lemma touch_parent_links:
  assumes w: "wtxn t d l" and par: "mc_top mc \<noteq> 0 \<Longrightarrow> parent_ok t d l mc pg j q" and dbi: "mc_dbi mc < length (mt_dbs t)" "mc_dbi mc \<noteq> FREE_DBI"
  shows "\<exists>t'. touch_parent t mc pgno = Some t' \<and> linked t d l mc pg j q pgno t'"
proof (cases "mc_top mc = 0")
  case True
  let ?t = "t\<lparr>mt_dbs := new_dbs t mc pgno\<rparr>"
  have h: "same_handle t ?t FREE_DBI" using dbi by (simp add: same_handle_def new_dbs_def)
  have "wtxn ?t d l" "\<And>x. in_pool ?t d x = in_pool t d x" "db_pages ?t FREE_DBI d = db_pages t FREE_DBI d" "ptr_of ?t = ptr_of t" "\<And>S. reads_same t ?t S"
    by (rule wtxn_same [OF w _ _ _ _ _ _ _ _ _ h]; simp)+
  moreover have "?t = t\<lparr>mt_dbs := new_dbs t mc pgno, mt_heap := mt_heap t\<rparr>" by simp
  ultimately have "linked t d l mc pg j q pgno ?t" unfolding linked_def using True by (intro conjI allI impI) (assumption | blast)+
  moreover have "touch_parent t mc pgno = Some ?t" using True dbi by (simp add: touch_parent_def mc_db_def mem_simps new_dbs_def)
  ultimately show ?thesis by blast
next
  case False
  obtain t' where t': "touch_parent t mc pgno = Some t'" "wrote t d l pg (set_child q j pgno) t'"
    using touch_parent_page [OF w False par [OF False]] by blast
  then obtain b h' where "t' = t\<lparr>mt_heap := (mt_heap t)(b \<mapsto> h')\<rparr>" unfolding wrote_def by blast
  then have "\<exists>h. t' = t\<lparr>mt_dbs := new_dbs t mc pgno, mt_heap := h\<rparr>" using False by (auto simp: new_dbs_def)
  then show ?thesis using t' False unfolding linked_def wrote_def by auto
qed

section \<open>Copying the page\<close>

text \<open>
  Page \<open>x\<close> has been replaced by \<open>x'\<close> in the buffer \<open>a\<close>: a page of the pool with the same nodes, which is dirty.  Apart from
  it and from the parent page \<open>pg\<close> every page reads as before, and the old page is on the list of freed pages.
\<close>

definition copied :: "page \<Rightarrow> nat \<Rightarrow> page \<Rightarrow> bool" where
  "copied p x' p' \<longleftrightarrow> page_inv p' \<and> page_nodes p' = page_nodes p \<and> pg_flags p' = pg_flags p OR P_DIRTY \<and> mp_pgno p' = Some x'"

definition touched :: "mdb_txn \<Rightarrow> nat \<Rightarrow> txn_level \<Rightarrow> mdb_cursor \<Rightarrow> nat \<Rightarrow> page \<Rightarrow> nat \<Rightarrow> nat \<Rightarrow> page \<Rightarrow> mdb_txn \<Rightarrow> txn_level \<Rightarrow> nat \<Rightarrow> nat \<Rightarrow> bool" where
  "touched t d l mc x p pg j q t' l' x' a \<longleftrightarrow>
     wtxn t' d l' \<and> in_pool t d x' \<and> (\<forall>y. in_pool t' d y \<longleftrightarrow> in_pool t d y \<and> y \<noteq> x') \<and> x' < mt_next_pgno t' \<and> mt_next_pgno t \<le> mt_next_pgno t' \<and>
     db_pages t' FREE_DBI d = db_pages t FREE_DBI d \<and> reads_same t t' ({..<mt_next_pgno t} - (if mc_top mc = 0 then {x'} else {x', pg})) \<and>
     dl_find (dirty_list l') x' = Some (PBuf a) \<and> (\<forall>y < 2 ^ 64. y \<noteq> x' \<longrightarrow> dl_find (dirty_list l') y = dl_find (dirty_list l) y) \<and>
     (\<exists>p'. tpage t' x' = Some p' \<and> copied p x' p') \<and> (mc_top mc \<noteq> 0 \<longrightarrow> tpage t' pg = Some (set_child q j x')) \<and>
     mt_dbs t' = new_dbs t mc x' \<and> mt_dbxs t' = mt_dbxs t \<and> mt_dbflags t' = mt_dbflags t \<and> mt_flags t' = mt_flags t \<and>
     me_map (mt_env t') = me_map (mt_env t) \<and> freed_pages t' = freed_pages t @ [of_nat x] \<and> (\<forall>n. free_room t (Suc n) \<longrightarrow> free_room t' n) \<and>
     (\<exists>cs0. mt_cursors t = Some cs0 \<and> mt_cursors t' = Some (cs0[mc_dbi mc := map (move_ptr mc (PMap x) (PBuf a)) (cs0 ! mc_dbi mc)])) \<and>
     cursors_ok t' mc"

text \<open>The state when the page has been allocated and the old one recorded.\<close>

definition fresh :: "mdb_txn \<Rightarrow> nat \<Rightarrow> txn_level \<Rightarrow> nat \<Rightarrow> mdb_txn \<Rightarrow> txn_level \<Rightarrow> nat \<Rightarrow> nat \<Rightarrow> bool" where
  "fresh t d l x t' l' x' a \<longleftrightarrow>
     wtxn t' d l' \<and> in_pool t d x' \<and> (\<forall>y. in_pool t' d y \<longleftrightarrow> in_pool t d y \<and> y \<noteq> x') \<and> x' < mt_next_pgno t' \<and> mt_next_pgno t \<le> mt_next_pgno t' \<and>
     db_pages t' FREE_DBI d = db_pages t FREE_DBI d \<and> reads_same t t' ({..<mt_next_pgno t} - {x'}) \<and>
     dl_find (dirty_list l') x' = Some (PBuf a) \<and> (\<forall>y < 2 ^ 64. y \<noteq> x' \<longrightarrow> dl_find (dirty_list l') y = dl_find (dirty_list l) y) \<and>
     (\<exists>q0. page_at t' (PBuf a) = Some q0) \<and> (\<forall>b. in_use t (PBuf b) \<longrightarrow> b \<noteq> a \<and> mt_heap t' b = mt_heap t b) \<and>
     mt_dbs t' = mt_dbs t \<and> mt_dbxs t' = mt_dbxs t \<and> mt_dbflags t' = mt_dbflags t \<and> mt_flags t' = mt_flags t \<and> mt_cursors t' = mt_cursors t \<and>
     me_map (mt_env t') = me_map (mt_env t) \<and> me_psize (mt_env t') = me_psize (mt_env t) \<and>
     freed_pages t' = freed_pages t @ [of_nat x] \<and> (\<forall>n. free_room t (Suc n) \<longrightarrow> free_room t' n)"

lemma fresh_page:
  assumes w: "wtxn t d l" and room: "free_room t 1" and x: "page_at t mp = Some p" "mp_pgno p = Some x" "mp = PMap x" "\<not> in_pool t d x"
  shows "(\<exists>rc t'. touch_new t mc mp = Some (rc, t', mc) \<and> rc \<noteq> MDB_SUCCESS \<and> mt_flags t' AND MDB_TXN_ERROR \<noteq> 0) \<or>
    (\<exists>t2 l' x' a. fresh t d l x t2 l' x' a \<and>
      touch_new t mc mp = do { t3 \<leftarrow> touch_parent t2 mc x'; touch_copy t3 mc mp (PBuf a) x' })"
proof -
  have il: "idl_inv (mt_free_pgs t)" "unat (alloclen (mt_free_pgs t)) < 2 ^ 32" "length (idl_list (cells (mt_free_pgs t))) + 1 < 2 ^ 30"
    using room by (auto simp: free_room_def)
  obtain al where al: "c_alloc t = (al :: mdb_id alloc, t\<lparr>mt_brk := mt_brk t + 1\<rparr>)" by (simp add: c_alloc_def)
  let ?tb = "t\<lparr>mt_brk := mt_brk t + 1\<rparr>"
  consider "mdb_midl_need al (mt_free_pgs t) 1 = Some (MIDL_ENOMEM, mt_free_pgs t)"
    | il1 where "mdb_midl_need al (mt_free_pgs t) 1 = Some (MIDL_OK, il1)" "idl_inv il1" "idl_list (cells il1) = idl_list (cells (mt_free_pgs t))"
      "unat (alloclen il1) < 2 ^ 32" "length (idl_list (cells (mt_free_pgs t))) + 1 \<le> unat (alloclen il1)"
    using need_cases [OF il, of al] by blast
  then show ?thesis
  proof cases
    case 1
    then have "touch_new t mc mp = Some (ENOMEM, txn_fail ?tb, mc)"
      using al by (simp add: touch_new_def midl_rc_rc_def)
    then show ?thesis using txn_fail_error by blast
  next
    case (2 il1)
    let ?t0 = "?tb\<lparr>mt_free_pgs := il1\<rparr>"
    have h0: "same_handle t ?t0 FREE_DBI" by (simp add: same_handle_def)
    have w0: "wtxn ?t0 d l" "\<And>y. in_pool ?t0 d y = in_pool t d y" "db_pages ?t0 FREE_DBI d = db_pages t FREE_DBI d" "\<And>S. reads_same t ?t0 S"
      by (rule wtxn_same [OF w _ _ _ _ _ _ _ _ _ h0]; simp)+
    have start: "touch_new t mc mp = do { (r, t) \<leftarrow> mdb_page_alloc ?t0 1; (case r of
          Inl rc \<Rightarrow> Some (rc, txn_fail t, mc)
        | Inr np \<Rightarrow> do { q \<leftarrow> page_at t np; pgno \<leftarrow> mp_pgno q; p \<leftarrow> page_at t mp; old \<leftarrow> mp_pgno p;
            if old = pgno then None else do {
              cs \<leftarrow> mdb_midl_xappend (cells (mt_free_pgs t)) (of_nat old);
              t \<leftarrow> touch_parent (t\<lparr>mt_free_pgs := (mt_free_pgs t)\<lparr>cells := cs\<rparr>\<rparr>) mc pgno;
              touch_copy t mc mp np pgno } }) }"
      using al 2(1) by (simp add: touch_new_def)
    obtain r t1 where r: "mdb_page_alloc ?t0 1 = Some (r, t1)" and sp: "case r of
        Inl rc \<Rightarrow> rc \<noteq> MDB_SUCCESS \<and> mt_flags t1 AND MDB_TXN_ERROR \<noteq> 0
      | Inr np \<Rightarrow> \<exists>a pgno l' q. np = PBuf a \<and> wtxn t1 d l' \<and> alloc_frame ?t0 pgno np t1 \<and> in_pool ?t0 d pgno \<and>
          (\<forall>x. in_pool t1 d x \<longleftrightarrow> in_pool ?t0 d x \<and> x \<noteq> pgno) \<and> pgno < mt_next_pgno t1 \<and> \<not> in_use ?t0 np \<and>
          dl_find (dirty_list l') pgno = Some np \<and> (\<forall>x < 2 ^ 64. x \<noteq> pgno \<longrightarrow> dl_find (dirty_list l') x = dl_find (dirty_list l) x) \<and>
          reads_same ?t0 t1 ({..<mt_next_pgno ?t0} - {pgno}) \<and> db_pages t1 FREE_DBI d = db_pages ?t0 FREE_DBI d \<and>
          page_at t1 np = Some q \<and> mp_pgno q = Some pgno"
      using new_page [OF w0(1)] by blast
    show ?thesis
    proof (cases r)
      case (Inl rc)
      then show ?thesis using start r sp txn_fail_error by auto
    next
      case (Inr np)
      then obtain a x' l' q0 where n: "np = PBuf a" "wtxn t1 d l'" "alloc_frame ?t0 x' np t1" "in_pool t d x'"
          "\<forall>y. in_pool t1 d y \<longleftrightarrow> in_pool t d y \<and> y \<noteq> x'" "x' < mt_next_pgno t1" "\<not> in_use ?t0 np"
          "dl_find (dirty_list l') x' = Some np" "\<forall>y < 2 ^ 64. y \<noteq> x' \<longrightarrow> dl_find (dirty_list l') y = dl_find (dirty_list l) y"
          "reads_same ?t0 t1 ({..<mt_next_pgno t} - {x'})" "db_pages t1 FREE_DBI d = db_pages t FREE_DBI d" "page_at t1 np = Some q0" "mp_pgno q0 = Some x'"
        using sp w0(2,3) by auto
      obtain h0 h lst old dp m nx dl dr l1 ls where nx: "mt_next_pgno t \<le> nx" and t1: "t1 = ?t0\<lparr>mt_env := (mt_env t)\<lparr>me_pghead := h, me_pglast := lst,
          me_pgoldest := old, me_dpages := dp\<rparr>, mt_brk := m, mt_heap := (mt_heap t)(a \<mapsto> h0), mt_levels := l1\<lparr>dirty_list := dl\<rparr> # ls,
          mt_next_pgno := nx, mt_dirty_room := dr\<rparr>"
        using n(3) unfolding alloc_frame_def by (auto simp: n(1))
      have at: "page_at t1 mp = Some p" using x(1,3) by (simp add: t1 page_at_def mem_bytes_def)
      have ne: "x \<noteq> x'" using x(4) n(4) by auto
      obtain cs where cs: "mdb_midl_xappend (cells il1) (of_nat x) = Some cs" "idl_inv (il1\<lparr>cells := cs\<rparr>)" "idl_list cs = idl_list (cells il1) @ [of_nat x]"
        using xappend_spec [OF 2(2,4)] 2(3,5) by auto
      let ?t2 = "t1\<lparr>mt_free_pgs := il1\<lparr>cells := cs\<rparr>\<rparr>"
      have h2: "same_handle t1 ?t2 FREE_DBI" by (simp add: same_handle_def)
      have w2: "wtxn ?t2 d l'" "\<And>y. in_pool ?t2 d y = in_pool t1 d y" "db_pages ?t2 FREE_DBI d = db_pages t1 FREE_DBI d" "\<And>S. reads_same t1 ?t2 S"
        by (rule wtxn_same [OF n(2) _ _ _ _ _ _ _ _ _ h2]; simp)+
      have rs: "reads_same t ?t2 ({..<mt_next_pgno t} - {x'})"
        using w0(4) [of "{..<mt_next_pgno t} - {x'}"] n(10) w2(4) [of "{..<mt_next_pgno t} - {x'}"] by (simp add: reads_same_def)
      have "touch_new t mc mp = do { t3 \<leftarrow> touch_parent ?t2 mc x'; touch_copy t3 mc mp (PBuf a) x' }"
        using start r Inr n(1,12,13) at x(2) ne cs(1) by (simp add: t1)
      moreover have "fresh t d l x ?t2 l' x' a" unfolding fresh_def
      proof (intro conjI)
        show "\<exists>q0. page_at ?t2 (PBuf a) = Some q0" using n(1,12) by (simp add: page_at_def mem_bytes_def)
        show "\<forall>b. in_use t (PBuf b) \<longrightarrow> b \<noteq> a \<and> mt_heap ?t2 b = mt_heap t b" using n(1,7) by (auto simp: in_use_def t1)
        show "freed_pages ?t2 = freed_pages t @ [of_nat x]" using cs(3) 2(3) by (simp add: freed_pages_def)
        show "\<forall>k. free_room t (Suc k) \<longrightarrow> free_room ?t2 k" using cs(2,3) 2(3,4) by (simp add: free_room_def)
        show "\<forall>y. in_pool ?t2 d y \<longleftrightarrow> in_pool t d y \<and> y \<noteq> x'" using w2(2) n(5) by simp
      qed (use w2(1,3) n nx rs in \<open>simp_all add: t1\<close>)
      ultimately show ?thesis by blast
    qed
  qed
qed

text \<open>What the touched page and its cursor have to be like.\<close>

definition touchable :: "mdb_txn \<Rightarrow> nat \<Rightarrow> txn_level \<Rightarrow> mdb_cursor \<Rightarrow> nat \<Rightarrow> page \<Rightarrow> nat \<Rightarrow> nat \<Rightarrow> page \<Rightarrow> bool" where
  "touchable t d l mc x p pg j q \<longleftrightarrow> page_at t (PMap x) = Some p \<and> mp_pgno p = Some x \<and> page_inv p \<and> \<not> in_pool t d x \<and>
     (mc_top mc \<noteq> 0 \<longrightarrow> parent_ok t d l mc pg j q \<and> \<not> in_pool t d pg) \<and>
     mc_dbi mc < length (mt_dbs t) \<and> mc_dbi mc \<noteq> FREE_DBI \<and> md_flags (mt_dbs t ! mc_dbi mc) AND MDB_DUPSORT = 0 \<and>
     mc_top mc < 32 \<and> length (mc_pg mc) = 32 \<and> length (mc_ki mc) = 32 \<and> cursors_ok t mc"

lemma fresh_parent:
  assumes w: "wtxn t d l" and fr: "fresh t d l x t2 l' x' a" and par: "parent_ok t d l mc pg j q" "\<not> in_pool t d pg"
  shows "parent_ok t2 d l' mc pg j q" "pg \<noteq> x'"
proof -
  obtain b where b: "c_read (mc_pg mc) (mc_top mc - 1) = Some (Some (PBuf b))" "dl_find (dirty_list l) pg = Some (PBuf b)" "page_at t (PBuf b) = Some q"
    "pg < mt_next_pgno t" using par(1) by (auto simp: parent_ok_def)
  show ne: "pg \<noteq> x'" using par(2) fr by (auto simp: fresh_def)
  have "pg < 2 ^ 64" using b(4) wtxn_level(3) [OF w] by simp
  then have "dl_find (dirty_list l') pg = Some (PBuf b)" using fr ne b(2) by (simp add: fresh_def)
  moreover have "in_use t (PBuf b)" using dl_find_buf [OF w b(2)] by blast
  then have "page_at t2 (PBuf b) = Some q" using fr b(3) by (simp add: fresh_def page_at_def mem_bytes_def)
  ultimately show "parent_ok t2 d l' mc pg j q" using par(1) b(1) fr by (auto simp: parent_ok_def fresh_def)
qed

lemma touched_state:
  assumes w: "wtxn t d l" and fr: "fresh t d l x t2 l' x' a" and li: "linked t2 d l' mc pg j q x' t3" and w4: "wrote t3 d l' x' p' t4" and p': "copied p x' p'"
    and pg: "mc_top mc \<noteq> 0 \<Longrightarrow> pg \<noteq> x'" "mc_top mc \<noteq> 0 \<Longrightarrow> pg < mt_next_pgno t"
    and cs: "cursors_ok (t4\<lparr>mt_cursors := Some cs\<rparr>) mc" "mt_cursors t = Some cs0" "cs = cs0[mc_dbi mc := map (move_ptr mc (PMap x) (PBuf a)) (cs0 ! mc_dbi mc)]"
  shows "touched t d l mc x p pg j q (t4\<lparr>mt_cursors := Some cs\<rparr>) l' x' a"
proof -
  let ?t = "t4\<lparr>mt_cursors := Some cs\<rparr>"
  have h5: "same_handle t4 ?t FREE_DBI" by (simp add: same_handle_def)
  have w5: "wtxn ?t d l'" "\<And>y. in_pool ?t d y = in_pool t4 d y" "db_pages ?t FREE_DBI d = db_pages t4 FREE_DBI d" "\<And>S. reads_same t4 ?t S"
    by (rule wtxn_same [OF wrote_page(2) [OF w4] _ _ _ _ _ _ _ _ _ h5]; simp)+
  note f = fr [unfolded fresh_def]
  obtain h where t3h: "t3 = t2\<lparr>mt_dbs := new_dbs t2 mc x', mt_heap := h\<rparr>" using li unfolding linked_def by blast
  note g = wrote_fields [OF w4]
  have nx: "mt_next_pgno t < 2 ^ 64" using wtxn_level(3) [OF w] by simp
  have tp: "tpage ?t y = tpage t4 y" for y using reads_tpage [OF w5(4) [of "{y}"]] by simp
  have new: "tpage ?t x' = Some p'" using w4 tp by (simp add: wrote_def)
  have par: "tpage ?t pg = Some (set_child q j x')" if "mc_top mc \<noteq> 0"
  proof -
    have "tpage t4 pg = tpage t3 pg" using w4 pg that nx unfolding wrote_def by (intro reads_tpage [of t3 t4 "{..<2 ^ 64} - {x'}"]) auto
    then show ?thesis using li that tp by (simp add: linked_def)
  qed
  let ?S = "{..<mt_next_pgno t} - (if mc_top mc = 0 then {x'} else {x', pg})"
  have "reads_same t t2 ?S" using f by (auto intro: reads_same_mono)
  moreover have "reads_same t2 t3 ?S" using li nx by (auto simp: linked_def intro: reads_same_mono)
  moreover have "reads_same t3 t4 ?S" using w4 nx by (auto simp: wrote_def intro: reads_same_mono)
  ultimately have rs: "reads_same t ?t ?S" using w5(4) [of ?S] by (simp add: reads_same_def)
  have dbs: "new_dbs t2 mc x' = new_dbs t mc x'" using f by (simp add: new_dbs_def)
  have pool: "in_pool ?t d y \<longleftrightarrow> in_pool t d y \<and> y \<noteq> x'" for y using w5(2) w4 li f by (simp add: wrote_def linked_def)
  have fp: "db_pages ?t FREE_DBI d = db_pages t FREE_DBI d" using w5(3) w4 li f by (simp add: wrote_def linked_def)
  have "free_room ?t n = free_room t2 n" for n by (simp add: free_room_def g t3h)
  then have room: "\<forall>n. free_room t (Suc n) \<longrightarrow> free_room ?t n" using f by blast
  have freed: "freed_pages ?t = freed_pages t @ [of_nat x]" using f by (simp add: freed_pages_def g t3h)
  show ?thesis unfolding touched_def
    by (intro conjI allI) (use w5(1) f pool fp rs new p' par dbs room freed cs in \<open>auto simp: g t3h\<close>)
qed

lemma touch_new_spec:
  assumes w: "wtxn t d l" and room: "free_room t 1" and x: "touchable t d l mc x p pg j q"
  shows "\<exists>rc t' mc'. touch_new t mc (PMap x) = Some (rc, t', mc') \<and> (rc \<noteq> MDB_SUCCESS \<and> mt_flags t' AND MDB_TXN_ERROR \<noteq> 0 \<or>
    rc = MDB_SUCCESS \<and> (\<exists>l' x' a. touched t d l mc x p pg j q t' l' x' a \<and> mc' = set_top mc (PBuf a)))"
proof -
  note xs = x [unfolded touchable_def]
  show ?thesis
  proof (rule disjE [OF fresh_page [OF w room, of "PMap x" p x mc]])
    assume "\<exists>t2 l' x' a. fresh t d l x t2 l' x' a \<and>
      touch_new t mc (PMap x) = do { t3 \<leftarrow> touch_parent t2 mc x'; touch_copy t3 mc (PMap x) (PBuf a) x' }"
    then obtain t2 l' x' a where fr: "fresh t d l x t2 l' x' a"
      and start: "touch_new t mc (PMap x) = do { t3 \<leftarrow> touch_parent t2 mc x'; touch_copy t3 mc (PMap x) (PBuf a) x' }" by blast
    have w2: "wtxn t2 d l'" and dx: "dl_find (dirty_list l') x' = Some (PBuf a)" and dbs: "mt_dbs t2 = mt_dbs t" using fr by (auto simp: fresh_def)
    have par: "parent_ok t2 d l' mc pg j q" "pg \<noteq> x'" "pg < mt_next_pgno t" if "mc_top mc \<noteq> 0"
    proof -
      have po: "parent_ok t d l mc pg j q" "\<not> in_pool t d pg" using xs that by blast+
      show "parent_ok t2 d l' mc pg j q" "pg \<noteq> x'" using fresh_parent [OF w fr po] by blast+
      show "pg < mt_next_pgno t" using po(1) by (simp add: parent_ok_def)
    qed
    obtain t3 where t3: "touch_parent t2 mc x' = Some t3" "linked t2 d l' mc pg j q x' t3"
      using touch_parent_links [OF w2 par(1), of x'] xs dbs by auto
    then have w3: "wtxn t3 d l'" "ptr_of t3 = ptr_of t2" by (auto simp: linked_def)
    obtain h where t3h: "t3 = t2\<lparr>mt_dbs := new_dbs t2 mc x', mt_heap := h\<rparr>" using t3(2) unfolding linked_def by blast
    have x64: "x' < 2 ^ 64" using fr wtxn_level(3) [OF w2] by (simp add: fresh_def)
    have "x' \<notin> db_pages t2 FREE_DBI d" using fr wtxn_alloc_ok [OF w] by (auto simp: fresh_def alloc_ok_def in_pool_def)
    then have xf: "x' \<notin> db_pages t3 FREE_DBI d" using t3(2) by (simp add: linked_def)
    obtain q0 where "page_at t2 (PBuf a) = Some q0" using fr by (auto simp: fresh_def)
    moreover have "reads_same t2 t3 {x'}" using t3(2) par(2) x64 by (auto simp: linked_def intro: reads_same_mono split: if_splits)
    then have "tpage t3 x' = tpage t2 x'" using reads_tpage by blast
    ultimately have dst: "page_at t3 (PBuf a) = Some q0" using dx by (simp add: tpage_ptr ptr_of_eq [OF w2] ptr_of_eq [OF w3(1)])
    have src: "page_at t3 (PMap x) = Some p" using xs fr by (simp add: t3h page_at_def mem_bytes_def fresh_def)
    obtain u1 u2 t4 p' where u: "page_copy_to t3 (PBuf a) (PMap x) = Some u1" "mem_put u1 (PBuf a) 0 (le_bytes 8 x') = Some u2"
      "set_dirty_flag u2 (PBuf a) = Some t4" and w4: "wrote t3 d l' x' p' t4" and p': "copied p x' p'"
      using copy_stores [OF w3(1) dx x64 xf dst src] xs unfolding copied_def by blast
    have at4: "page_at t4 (PBuf a) = Some p'" using wrote_page(1) [OF w4] dx by auto
    have "new_dbs t2 mc x' = new_dbs t mc x'" by (simp add: new_dbs_def dbs)
    then have f4: "mt_dbs t4 = new_dbs t mc x'" "mt_cursors t4 = mt_cursors t" using wrote_fields [OF w4] fr by (simp_all add: t3h fresh_def)
    have db: "\<exists>db. mc_db t4 mc = Some db \<and> md_flags db AND MDB_DUPSORT = 0"
      using xs by (simp add: mc_db_def f4(1) new_dbs_def mem_simps)
    have c4: "cursors_ok t4 mc" using xs f4(2) by (simp add: cursors_ok_def)
    have l16: "16 \<le> length p'" using p' page_inv_len by (auto simp: copied_def)
    obtain cs cs0 where fin: "touch_done t4 mc (PMap x) (PBuf a) = Some (MDB_SUCCESS, t4\<lparr>mt_cursors := Some cs\<rparr>, set_top mc (PBuf a))"
      "cursors_ok (t4\<lparr>mt_cursors := Some cs\<rparr>) mc" "mt_cursors t = Some cs0" "cs = cs0[mc_dbi mc := map (move_ptr mc (PMap x) (PBuf a)) (cs0 ! mc_dbi mc)]"
      using touch_done_spec [OF _ _ at4 l16, of mc _ "PMap x"] db xs c4 f4(2) by auto
    let ?t = "t4\<lparr>mt_cursors := Some cs\<rparr>"
    have res: "touch_new t mc (PMap x) = Some (MDB_SUCCESS, ?t, set_top mc (PBuf a))" using start t3(1) u fin(1) by (simp add: touch_copy_def)
    have "touched t d l mc x p pg j q ?t l' x' a" using touched_state [OF w fr t3(2) w4 p' par(2,3) fin(2-4)] by blast
    then show ?thesis using res by blast
  qed (use xs in blast)+
qed

end
