(* ===== verification/Touch_Tree.thy ===== *)
theory Touch_Tree
  imports Touch_Page
begin

text \<open>
  Copy on write as a renaming of pages: when one page of a tree is replaced by a copy and its parent refers to the copy,
  the tree has the same records, is well formed, and its pages are the old ones with that page renamed.
\<close>

section \<open>The edges of a tree\<close>

fun edges :: "mdb_txn \<Rightarrow> nat \<Rightarrow> nat \<Rightarrow> (nat \<times> nat \<times> nat) set" where
  "edges t 0 pg = {}"
| "edges t (Suc d) pg = (case tpage t pg of None \<Rightarrow> {} | Some p \<Rightarrow> \<Union>i<pg_n p. insert (pg, i, child p i) (edges t d (child p i)))"

text \<open>No page is referred to twice.\<close>

definition tree_sep :: "mdb_txn \<Rightarrow> nat \<Rightarrow> nat \<Rightarrow> bool" where
  "tree_sep t d root \<longleftrightarrow> (\<forall>a i b j c. (a, i, c) \<in> edges t d root \<longrightarrow> (b, j, c) \<in> edges t d root \<longrightarrow> a = b \<and> i = j) \<and>
     (\<forall>a i. (a, i, root) \<notin> edges t d root)"

lemma edges_pages: "(a, i, c) \<in> edges t d pg \<Longrightarrow> a \<in> tree_pages t d pg \<and> c \<in> tree_pages t d pg"
proof (induction d arbitrary: pg)
  case (Suc d)
  then obtain p k where p: "tpage t pg = Some p" "k < pg_n p" "(a, i, c) = (pg, k, child p k) \<or> (a, i, c) \<in> edges t d (child p k)"
    by (auto split: option.splits)
  have "child p k \<in> tree_pages t d (child p k)" by (rule root_in_tree)
  moreover have "(a, i, c) \<in> edges t d (child p k) \<Longrightarrow> a \<in> tree_pages t d (child p k) \<and> c \<in> tree_pages t d (child p k)" by (rule Suc.IH)
  ultimately show ?case using p by auto
qed simp

section \<open>Replacing a page\<close>

definition rename :: "nat \<Rightarrow> nat \<Rightarrow> nat \<Rightarrow> nat" where
  "rename x x' y = (if y = x then x' else y)"

definition rename_edge :: "nat \<Rightarrow> nat \<Rightarrow> nat \<times> nat \<times> nat \<Rightarrow> nat \<times> nat \<times> nat" where
  "rename_edge x x' = (\<lambda>(a, i, c). (rename x x' a, i, rename x x' c))"

text \<open>
  \<open>P\<close> holds the parent of the page, if it has one; \<open>T\<close> and \<open>E\<close> are pages and edges of the tree.
\<close>

definition replaced :: "mdb_txn \<Rightarrow> mdb_txn \<Rightarrow> nat set \<Rightarrow> (nat \<times> nat \<times> nat) set \<Rightarrow> nat \<Rightarrow> nat \<Rightarrow> nat set \<Rightarrow> nat \<Rightarrow> bool" where
  "replaced t t' T E x x' P j \<longleftrightarrow> x \<notin> P \<and> (\<forall>y \<in> T - insert x P. tpage t' y = tpage t y) \<and>
     (\<exists>p p'. tpage t x = Some p \<and> tpage t' x' = Some p' \<and> copied p x' p') \<and>
     (\<forall>y \<in> P. \<exists>q. tpage t y = Some q \<and> tpage t' y = Some (set_child q j x') \<and> page_inv q \<and> \<not> IS_LEAF (pg_flags q) \<and> j < pg_n q \<and> child q j = x) \<and>
     (\<forall>a i. (a, i, x) \<in> E \<longrightarrow> a \<in> P \<and> i = j) \<and> x' < 2 ^ 48"

lemma copied_flags:
  assumes "copied p x' p'"
  shows "IS_LEAF (pg_flags p') = IS_LEAF (pg_flags p)" "IS_BRANCH (pg_flags p') = IS_BRANCH (pg_flags p)" "pg_n p' = pg_n p"
    "page_keys p' = page_keys p" "child p' = child p" "F_ISSET (pg_flags p') P_DIRTY"
proof -
  have n: "page_nodes p' = page_nodes p" and f: "pg_flags p' = pg_flags p OR P_DIRTY" using assms by (auto simp: copied_def)
  show "IS_LEAF (pg_flags p') = IS_LEAF (pg_flags p)" "IS_BRANCH (pg_flags p') = IS_BRANCH (pg_flags p)" "F_ISSET (pg_flags p') P_DIRTY"
    unfolding f by (rule dirty_flags)+
  show "pg_n p' = pg_n p" using arg_cong [OF n, of length] by simp
  show "page_keys p' = page_keys p" "child p' = child p" by (simp_all add: page_keys_def child_def n fun_eq_iff)
qed

text \<open>What the page that replaces \<open>y\<close> has in common with it.\<close>

lemma replaced_page:
  assumes r: "replaced t t' T E x x' P j" and y: "y \<in> T" "tpage t y = Some p"
  shows "\<exists>p'. tpage t' (rename x x' y) = Some p' \<and> (page_inv p \<longrightarrow> page_inv p') \<and> IS_LEAF (pg_flags p') = IS_LEAF (pg_flags p) \<and>
    IS_BRANCH (pg_flags p') = IS_BRANCH (pg_flags p) \<and> pg_n p' = pg_n p \<and> page_keys p' = page_keys p \<and>
    (IS_LEAF (pg_flags p) \<longrightarrow> page_nodes p' = page_nodes p) \<and>
    (\<forall>i < pg_n p. (y, i, child p i) \<in> E \<longrightarrow> child p' i = rename x x' (child p i))"
proof -
  have other: "c \<noteq> x" if "(y, i, c) \<in> E" "y \<notin> P" for i c using r that by (auto simp: replaced_def)
  consider "y = x" | "y \<noteq> x" "y \<in> P" | "y \<noteq> x" "y \<notin> P" by blast
  then show ?thesis
  proof cases
    case 1
    obtain p' where p': "tpage t' x' = Some p'" "copied p x' p'" and np: "x \<notin> P" using r y(2) 1 by (auto simp: replaced_def)
    then show ?thesis using copied_flags [OF p'(2)] other 1 by (auto simp: rename_def copied_def)
  next
    case 2
    then have q: "tpage t' y = Some (set_child p j x')" "page_inv p" "\<not> IS_LEAF (pg_flags p)" "j < pg_n p" "child p j = x" "x' < 2 ^ 48"
      using r y(2) by (auto simp: replaced_def)
    note s = set_child_page [OF q(2,3,4,6)]
    have "child (set_child p j x') i = rename x x' (child p i)" if "i < pg_n p" "(y, i, child p i) \<in> E" for i
      using s(7) [OF that(1)] that(2) q(5) r by (auto simp: rename_def replaced_def)
    then show ?thesis using q s(1-4) 2(1) by (simp add: rename_def)
  next
    case 3
    then have "tpage t' y = Some p" using r y by (auto simp: replaced_def)
    then show ?thesis using 3 other by (auto simp: rename_def)
  qed
qed

lemma tree_replaced:
  assumes r: "replaced t t' T E x x' P j" and ok: "tree_ok c valid t n pg lo hi" and sub: "tree_pages t n pg \<subseteq> T" "edges t n pg \<subseteq> E"
  shows "tree_ok c valid t' n (rename x x' pg) lo hi" "entries t' n (rename x x' pg) = entries t n pg"
    "tree_pages t' n (rename x x' pg) = rename x x' ` tree_pages t n pg" "edges t' n (rename x x' pg) = rename_edge x x' ` edges t n pg"
proof -
  have "tree_ok c valid t' n (rename x x' pg) lo hi \<and> entries t' n (rename x x' pg) = entries t n pg \<and>
    tree_pages t' n (rename x x' pg) = rename x x' ` tree_pages t n pg \<and> edges t' n (rename x x' pg) = rename_edge x x' ` edges t n pg"
    using ok sub
  proof (induction n arbitrary: pg lo hi)
    case 0
    obtain p where p: "tpage t pg = Some p" using "0.prems"(1) by (rule tree_ok_page)
    obtain p' where p': "tpage t' (rename x x' pg) = Some p'" "page_inv p \<longrightarrow> page_inv p'" "IS_LEAF (pg_flags p') = IS_LEAF (pg_flags p)"
      "IS_BRANCH (pg_flags p') = IS_BRANCH (pg_flags p)" "pg_n p' = pg_n p" "page_keys p' = page_keys p"
      "IS_LEAF (pg_flags p) \<longrightarrow> page_nodes p' = page_nodes p"
      using replaced_page [OF r _ p] "0.prems"(2) by auto
    then show ?case using "0.prems"(1) by (simp add: p tree_ok.simps)
  next
    case (Suc n)
    obtain p where p: "tpage t pg = Some p" using Suc.prems(1) by (rule tree_ok_page)
    note b = tree_ok_branch [OF Suc.prems(1) p]
    obtain p' where p': "tpage t' (rename x x' pg) = Some p'" "page_inv p'" "IS_LEAF (pg_flags p') = IS_LEAF (pg_flags p)"
      "IS_BRANCH (pg_flags p') = IS_BRANCH (pg_flags p)" "pg_n p' = pg_n p" "page_keys p' = page_keys p"
      and ch0: "\<forall>i < pg_n p. (pg, i, child p i) \<in> E \<longrightarrow> child p' i = rename x x' (child p i)"
      using replaced_page [OF r _ p] Suc.prems(2) b(1) by (auto simp: p)
    have "(pg, i, child p i) \<in> E" if "i < pg_n p" for i using Suc.prems(3) that by (auto simp: p)
    then have ch: "\<forall>i < pg_n p. child p' i = rename x x' (child p i)" using ch0 by blast
    have sub: "tree_pages t n (child p i) \<subseteq> T" "edges t n (child p i) \<subseteq> E" if "i < pg_n p" for i
      using Suc.prems(2,3) that by (auto simp: p)
    have IH: "tree_ok c valid t' n (child p' i) (lo_of p lo i) (hi_of p hi i)" "entries t' n (child p' i) = entries t n (child p i)"
      "tree_pages t' n (child p' i) = rename x x' ` tree_pages t n (child p i)" "edges t' n (child p' i) = rename_edge x x' ` edges t n (child p i)"
      if "i < pg_n p" for i
      using Suc.IH [OF b(7) [OF that] sub [OF that]] ch that by auto
    have "entries t' (Suc n) (rename x x' pg) = entries t (Suc n) pg"
      using IH(2) by (auto simp: p p'(1,5) intro!: arg_cong [of _ _ concat])
    moreover have "tree_pages t' (Suc n) (rename x x' pg) = rename x x' ` tree_pages t (Suc n) pg"
      using IH(3) by (auto simp: p p'(1,5))
    moreover have "edges t' (Suc n) (rename x x' pg) = rename_edge x x' ` edges t (Suc n) pg"
    proof -
      have "rename_edge x x' (pg, i, child p i) = (rename x x' pg, i, child p' i)" if "i < pg_n p" for i
        using ch that by (simp add: rename_edge_def)
      then show ?thesis using IH(4) by (simp add: p p'(1,5) image_UN cong: SUP_cong_simp)
    qed
    moreover have "tree_ok c valid t' (Suc n) (rename x x' pg) lo hi"
    proof -
      have "\<forall>i < pg_n p. tree_ok c valid t' n (child p' i) (if i = 0 then lo else Some (page_keys p ! i))
          (if i + 1 < pg_n p then Some (page_keys p ! (i + 1)) else hi)"
        using IH(1) unfolding lo_of_def hi_of_def by blast
      then show ?thesis using Suc.prems(1) p'(2-4) unfolding tree_ok.simps p p'(1) option.case p'(5,6) by blast
    qed
    ultimately show ?case by blast
  qed
  then show "tree_ok c valid t' n (rename x x' pg) lo hi" "entries t' n (rename x x' pg) = entries t n pg"
    "tree_pages t' n (rename x x' pg) = rename x x' ` tree_pages t n pg" "edges t' n (rename x x' pg) = rename_edge x x' ` edges t n pg" by blast+
qed

lemma rename_inj: "x' \<notin> T \<Longrightarrow> y \<in> T \<Longrightarrow> z \<in> T \<Longrightarrow> rename x x' y = rename x x' z \<longleftrightarrow> y = z"
  by (auto simp: rename_def)

lemma sep_replaced:
  assumes r: "replaced t t' (tree_pages t n pg) (edges t n pg) x x' P j" and ok: "tree_ok c valid t n pg lo hi" and sep: "tree_sep t n pg"
    and new: "x' \<notin> tree_pages t n pg"
  shows "tree_sep t' n (rename x x' pg)"
proof -
  note e = tree_replaced(4) [OF r ok order_refl order_refl]
  have "pg \<in> tree_pages t n pg" by (rule root_in_tree)
  then show ?thesis using sep edges_pages [of _ _ _ t n pg] rename_inj [OF new] unfolding tree_sep_def e
    by (auto simp: rename_edge_def)
qed

end
