(* ===== verification/Touch_Cursor.thy ===== *)
theory Touch_Cursor
  imports Touch_Tree
begin

text \<open>
  \<open>mdb_cursor_touch\<close>: after it every page on the cursor's stack is a dirty page of the transaction, the records of the
  database are the same, and the cursor stands where it stood.
\<close>

section \<open>A database that is being changed\<close>

text \<open>A page of the database: it has its number, is not available for allocation, and is marked when it is dirty.\<close>

definition page_state :: "mdb_txn \<Rightarrow> nat \<Rightarrow> txn_level \<Rightarrow> nat \<Rightarrow> page \<Rightarrow> bool" where
  "page_state t d l pg p \<longleftrightarrow> tpage t pg = Some p \<and> mp_pgno p = Some pg \<and> pg < mt_next_pgno t \<and> \<not> in_pool t d pg \<and> pg \<notin> db_pages t FREE_DBI d \<and>
     (F_ISSET (pg_flags p) P_DIRTY \<longleftrightarrow> dl_find (dirty_list l) pg \<noteq> None)"

definition write_ok :: "(byte list \<Rightarrow> bool) \<Rightarrow> mdb_txn \<Rightarrow> nat \<Rightarrow> txn_level \<Rightarrow> nat \<Rightarrow> nat \<Rightarrow> bool" where
  "write_ok valid t d l dbi n \<longleftrightarrow> wtxn t d l \<and> db_ok valid t dbi n \<and> dbi \<noteq> FREE_DBI \<and> db_root t dbi \<noteq> P_INVALID \<and>
     tree_sep t n (db_root t dbi) \<and> (\<forall>pg \<in> tree_pages t n (db_root t dbi). \<exists>p. page_state t d l pg p) \<and> (\<forall>x. in_pool t d x \<longrightarrow> 1 < x) \<and>
     (\<forall>r \<in> set (db_entries t dbi n). odd (nd_flags r) \<longrightarrow>
        ov_page r < mt_next_pgno t \<and> \<not> in_pool t d (ov_page r) \<and> ov_page r \<notin> tree_pages t n (db_root t dbi))"

lemma write_okD:
  assumes "write_ok valid t d l dbi n"
  shows "wtxn t d l" "db_ok valid t dbi n" "dbi \<noteq> FREE_DBI" "db_root t dbi \<noteq> P_INVALID" "tree_sep t n (db_root t dbi)"
    "pg \<in> tree_pages t n (db_root t dbi) \<Longrightarrow> \<exists>p. page_state t d l pg p" "in_pool t d x \<Longrightarrow> 1 < x"
    "tree_ok (db_cmp t dbi) valid t n (db_root t dbi) None None" "db_entries t dbi n = entries t n (db_root t dbi)" "n < 32" "dbi < length (mt_dbs t)"
    "md_flags (mt_dbs t ! dbi) AND MDB_DUPSORT = 0"
  using assms by (auto simp: write_ok_def db_ok_def db_entries_def)

text \<open>The cursor's stack: the pages \<open>pgs\<close> from the root down, at their addresses.\<close>

definition stack_at :: "mdb_txn \<Rightarrow> nat \<Rightarrow> nat \<Rightarrow> mdb_cursor \<Rightarrow> nat list \<Rightarrow> bool" where
  "stack_at t dbi n mc pgs \<longleftrightarrow> mc_dbi mc = dbi \<and> length (mc_pg mc) = 32 \<and> length (mc_ki mc) = 32 \<and> mc_snum mc = length pgs \<and>
     pgs \<noteq> [] \<and> length pgs \<le> Suc n \<and> pgs ! 0 = db_root t dbi \<and>
     (\<forall>i < length pgs. mc_pg mc ! i = ptr_of t (pgs ! i) \<and> mc_pg mc ! i \<noteq> None) \<and>
     (\<forall>i. Suc i < length pgs \<longrightarrow> (\<exists>p. tpage t (pgs ! i) = Some p \<and> mc_ki mc ! i < pg_n p \<and> pgs ! Suc i = child p (mc_ki mc ! i)))"

lemma path_sub:
  assumes w: "write_ok valid t d l dbi n" and s: "stack_at t dbi n mc pgs" and i: "i < length pgs"
  shows "tree_pages t (n - i) (pgs ! i) \<subseteq> tree_pages t n (db_root t dbi)" "edges t (n - i) (pgs ! i) \<subseteq> edges t n (db_root t dbi)"
    "\<exists>lo hi. tree_ok (db_cmp t dbi) valid t (n - i) (pgs ! i) lo hi"
proof -
  have "tree_pages t (n - i) (pgs ! i) \<subseteq> tree_pages t n (db_root t dbi) \<and> edges t (n - i) (pgs ! i) \<subseteq> edges t n (db_root t dbi) \<and>
    (\<exists>lo hi. tree_ok (db_cmp t dbi) valid t (n - i) (pgs ! i) lo hi)"
    using i
  proof (induction i)
    case 0
    then show ?case using write_okD(8) [OF w] s by (auto simp: stack_at_def)
  next
    case (Suc i)
    then have IH: "tree_pages t (n - i) (pgs ! i) \<subseteq> tree_pages t n (db_root t dbi)" "edges t (n - i) (pgs ! i) \<subseteq> edges t n (db_root t dbi)"
      "\<exists>lo hi. tree_ok (db_cmp t dbi) valid t (n - i) (pgs ! i) lo hi" by auto
    have lt: "i < n" using Suc.prems s by (simp add: stack_at_def)
    then have n: "n - i = Suc (n - Suc i)" by simp
    obtain p where p: "tpage t (pgs ! i) = Some p" "mc_ki mc ! i < pg_n p" "pgs ! Suc i = child p (mc_ki mc ! i)"
      using s Suc.prems by (auto simp: stack_at_def)
    obtain lo hi where ok: "tree_ok (db_cmp t dbi) valid t (Suc (n - Suc i)) (pgs ! i) lo hi" using IH(3) n by auto
    show ?case using IH(1,2) p tree_ok_branch(7) [OF ok p(1,2)] unfolding n by auto
  qed
  then show "tree_pages t (n - i) (pgs ! i) \<subseteq> tree_pages t n (db_root t dbi)" "edges t (n - i) (pgs ! i) \<subseteq> edges t n (db_root t dbi)"
    "\<exists>lo hi. tree_ok (db_cmp t dbi) valid t (n - i) (pgs ! i) lo hi" by blast+
qed

lemma path_page:
  assumes w: "write_ok valid t d l dbi n" and s: "stack_at t dbi n mc pgs" and i: "i < length pgs"
  shows "pgs ! i \<in> tree_pages t n (db_root t dbi)" "Suc i < length pgs \<Longrightarrow> (pgs ! i, mc_ki mc ! i, pgs ! Suc i) \<in> edges t n (db_root t dbi)"
    "Suc i < length pgs \<Longrightarrow> \<exists>p. tpage t (pgs ! i) = Some p \<and> page_inv p \<and> \<not> IS_LEAF (pg_flags p) \<and> mc_ki mc ! i < pg_n p \<and> child p (mc_ki mc ! i) = pgs ! Suc i"
    "\<exists>p. page_state t d l (pgs ! i) p \<and> page_inv p"
proof -
  note sub = path_sub [OF w s i]
  show in_tree: "pgs ! i \<in> tree_pages t n (db_root t dbi)" using sub(1) root_in_tree by blast
  obtain lo hi where ok: "tree_ok (db_cmp t dbi) valid t (n - i) (pgs ! i) lo hi" using sub(3) by blast
  show "\<exists>p. page_state t d l (pgs ! i) p \<and> page_inv p"
    using write_okD(6) [OF w in_tree] tree_ok_page [OF ok] by (metis option.inject page_state_def)
  assume l: "Suc i < length pgs"
  then have "i < n" using s by (simp add: stack_at_def)
  then have n: "n - i = Suc (n - Suc i)" by simp
  obtain p where p: "tpage t (pgs ! i) = Some p" "mc_ki mc ! i < pg_n p" "pgs ! Suc i = child p (mc_ki mc ! i)" using s l by (auto simp: stack_at_def)
  have "(pgs ! i, mc_ki mc ! i, pgs ! Suc i) \<in> edges t (n - i) (pgs ! i)" unfolding n using p by auto
  then show "(pgs ! i, mc_ki mc ! i, pgs ! Suc i) \<in> edges t n (db_root t dbi)" using sub(2) by blast
  show "\<exists>p. tpage t (pgs ! i) = Some p \<and> page_inv p \<and> \<not> IS_LEAF (pg_flags p) \<and> mc_ki mc ! i < pg_n p \<and> child p (mc_ki mc ! i) = pgs ! Suc i"
    using p tree_ok_branch(1,3) [OF ok [unfolded n] p(1)] by simp
qed

lemma path_distinct:
  assumes w: "write_ok valid t d l dbi n" and s: "stack_at t dbi n mc pgs" and i: "i < k" "k < length pgs"
  shows "pgs ! i \<noteq> pgs ! k"
  using i
proof (induction i arbitrary: k)
  case 0
  then obtain k0 where k: "k = Suc k0" by (cases k) auto
  then have "(pgs ! k0, mc_ki mc ! k0, pgs ! k) \<in> edges t n (db_root t dbi)" using path_page(2) [OF w s, of k0] 0 by simp
  then show ?case using write_okD(5) [OF w] s by (auto simp: tree_sep_def stack_at_def)
next
  case (Suc i)
  then obtain k0 where k: "k = Suc k0" by (cases k) auto
  have "(pgs ! k0, mc_ki mc ! k0, pgs ! k) \<in> edges t n (db_root t dbi)" "(pgs ! i, mc_ki mc ! i, pgs ! Suc i) \<in> edges t n (db_root t dbi)"
    using path_page(2) [OF w s, of k0] path_page(2) [OF w s, of i] Suc.prems k by simp_all
  moreover have "pgs ! i \<noteq> pgs ! k0" using Suc.IH [of k0] Suc.prems k by simp
  ultimately show ?case using write_okD(5) [OF w] unfolding tree_sep_def by metis
qed

section \<open>One page\<close>

text \<open>The page at the top of the stack, and the entry of its parent.\<close>

definition above_top :: "mdb_cursor \<Rightarrow> nat list \<Rightarrow> nat set" where
  "above_top mc pgs = (if mc_top mc = 0 then {} else {pgs ! (mc_top mc - 1)})"

lemma stack_touchable:
  assumes w: "write_ok valid t d l dbi n" and s: "stack_at t dbi n mc pgs" and k: "mc_top mc < length pgs"
    and up: "\<And>i. i < mc_top mc \<Longrightarrow> dl_find (dirty_list l) (pgs ! i) \<noteq> None" and p: "page_state t d l (pgs ! mc_top mc) p" "page_inv p"
    and clean: "dl_find (dirty_list l) (pgs ! mc_top mc) = None" and cs: "cursors_ok t mc"
  shows "\<exists>q. touchable t d l mc (pgs ! mc_top mc) p (pgs ! (mc_top mc - 1)) (mc_ki mc ! (mc_top mc - 1)) q"
    "c_read (mc_pg mc) (mc_top mc) = Some (Some (PMap (pgs ! mc_top mc)))"
proof -
  let ?k = "mc_top mc" let ?x = "pgs ! ?k"
  note wt = write_okD(1) [OF w]
  have len: "length (mc_pg mc) = 32" "length (mc_ki mc) = 32" "length pgs \<le> 32" using s write_okD(10) [OF w] by (auto simp: stack_at_def)
  have ptr: "ptr_of t ?x = Some (PMap ?x)" using clean p(1) by (simp add: ptr_of_eq [OF wt] page_state_def)
  then show "c_read (mc_pg mc) ?k = Some (Some (PMap ?x))" using s k len by (simp add: stack_at_def mem_simps)
  have at: "page_at t (PMap ?x) = Some p" using p(1) ptr by (simp add: page_state_def tpage_ptr)
  have "\<exists>q. ?k \<noteq> 0 \<longrightarrow> parent_ok t d l mc (pgs ! (?k - 1)) (mc_ki mc ! (?k - 1)) q \<and> \<not> in_pool t d (pgs ! (?k - 1))"
  proof (cases "?k = 0")
    case False
    let ?i = "?k - 1" let ?y = "pgs ! ?i"
    have i: "?i < ?k" "Suc ?i = ?k" "?i < length pgs" "Suc ?i < length pgs" using False k by auto
    obtain b where b: "dl_find (dirty_list l) ?y = Some (PBuf b)"
    proof -
      obtain z where z: "dl_find (dirty_list l) ?y = Some z" using up [OF i(1)] by blast
      then show ?thesis using dl_find_buf [OF wt z] that by blast
    qed
    have py: "ptr_of t ?y = Some (PBuf b)" using b by (simp add: ptr_of_eq [OF wt])
    obtain q where q: "tpage t ?y = Some q" "page_inv q" "\<not> IS_LEAF (pg_flags q)" "mc_ki mc ! ?i < pg_n q"
      using path_page(3) [OF w s i(3,4)] by blast
    obtain q' where "page_state t d l ?y q'" using path_page(4) [OF w s i(3)] by blast
    then have "?y < mt_next_pgno t" "\<not> in_pool t d ?y" "?y \<notin> db_pages t FREE_DBI d" by (auto simp: page_state_def)
    moreover have "page_at t (PBuf b) = Some q" using q(1) py by (simp add: tpage_ptr)
    moreover have "c_read (mc_pg mc) ?i = Some (Some (PBuf b))" "c_read (mc_ki mc) ?i = Some (mc_ki mc ! ?i)"
      using s i(3) len py by (simp_all add: stack_at_def mem_simps)
    ultimately show ?thesis using b q by (auto simp: parent_ok_def)
  qed simp
  then show "\<exists>q. touchable t d l mc ?x p (pgs ! (?k - 1)) (mc_ki mc ! (?k - 1)) q"
    using at p write_okD(3,11,12) [OF w] s k len cs by (auto simp: touchable_def page_state_def stack_at_def)
qed

lemma touched_replaced:
  assumes w: "write_ok valid t d l dbi n" and s: "stack_at t dbi n mc pgs" and k: "mc_top mc < length pgs"
    and tb: "touchable t d l mc x p (pgs ! (mc_top mc - 1)) (mc_ki mc ! (mc_top mc - 1)) q" and x: "x = pgs ! mc_top mc" "tpage t x = Some p"
    and to: "touched t d l mc x p (pgs ! (mc_top mc - 1)) (mc_ki mc ! (mc_top mc - 1)) q t' l' x' a"
  shows "replaced t t' (tree_pages t n (db_root t dbi)) (edges t n (db_root t dbi)) x x' (above_top mc pgs) (mc_ki mc ! (mc_top mc - 1))"
    "x' \<notin> tree_pages t n (db_root t dbi)" "db_root t' dbi = rename x x' (db_root t dbi)"
proof -
  let ?k = "mc_top mc" let ?T = "tree_pages t n (db_root t dbi)" let ?y = "pgs ! (?k - 1)" let ?j = "mc_ki mc ! (?k - 1)"
  note wt = write_okD(1) [OF w]
  have pool: "in_pool t d x'" and nx: "x' < mt_next_pgno t'" and w': "wtxn t' d l'" using to by (auto simp: touched_def)
  have T: "y < mt_next_pgno t" "\<not> in_pool t d y" if "y \<in> ?T" for y using write_okD(6) [OF w that] by (auto simp: page_state_def)
  show new: "x' \<notin> ?T" using T pool by blast
  have par: "?y \<noteq> x \<and> (?y, ?j, x) \<in> edges t n (db_root t dbi) \<and> tpage t ?y = Some q \<and> page_inv q \<and> \<not> IS_LEAF (pg_flags q) \<and> ?j < pg_n q \<and> child q ?j = x"
    if k0: "?k \<noteq> 0"
  proof -
    have i: "?k - 1 < length pgs" "Suc (?k - 1) < length pgs" "Suc (?k - 1) = ?k" using k0 k by auto
    obtain q' where q': "tpage t ?y = Some q'" "child q' ?j = x" using path_page(3) [OF w s i(1,2)] x(1) i(3) by auto
    obtain b where "dl_find (dirty_list l) ?y = Some (PBuf b)" "page_at t (PBuf b) = Some q" and q: "page_inv q" "\<not> IS_LEAF (pg_flags q)" "?j < pg_n q"
      using tb k0 by (auto simp: touchable_def parent_ok_def)
    then have "tpage t ?y = Some q" by (simp add: tpage_ptr ptr_of_eq [OF wt])
    moreover have "?y \<noteq> x" using path_distinct [OF w s, of "?k - 1" ?k] x(1) k k0 by simp
    ultimately show ?thesis using q q' path_page(2) [OF w s i(1,2)] x(1) i(3) by auto
  qed
  have up: "a = ?y \<and> i = ?j \<and> ?k \<noteq> 0" if "(a, i, x) \<in> edges t n (db_root t dbi)" for a i
  proof -
    have "?k = 0 \<Longrightarrow> x = db_root t dbi" using s x(1) by (simp add: stack_at_def)
    then have "?k \<noteq> 0" using that write_okD(5) [OF w] unfolding tree_sep_def by metis
    then show ?thesis using par that write_okD(5) [OF w] unfolding tree_sep_def by blast
  qed
  have "tpage t' y = tpage t y" if "y \<in> ?T - insert x (above_top mc pgs)" for y
  proof (rule reads_tpage)
    show "reads_same t t' ({..<mt_next_pgno t} - (if ?k = 0 then {x'} else {x', ?y}))" using to unfolding touched_def by blast
    show "y \<in> {..<mt_next_pgno t} - (if ?k = 0 then {x'} else {x', ?y})" using that T(1) new by (auto simp: above_top_def)
  qed
  moreover have "x' < 2 ^ 48" using nx wtxn_level(3) [OF w'] by simp
  ultimately show "replaced t t' ?T (edges t n (db_root t dbi)) x x' (above_top mc pgs) ?j"
    using to x(2) par up unfolding replaced_def touched_def by (auto simp: above_top_def)
  show "db_root t' dbi = rename x x' (db_root t dbi)"
  proof (cases "?k = 0")
    case True
    then show ?thesis using to x(1) s write_okD(11) [OF w] by (auto simp: touched_def new_dbs_def rename_def stack_at_def)
  next
    case False
    then have "x \<noteq> db_root t dbi" using path_distinct [OF w s, of 0 ?k] k x(1) s by (auto simp: stack_at_def)
    then show ?thesis using to False by (simp add: touched_def new_dbs_def rename_def)
  qed
qed

text \<open>What one touch does for the database, from the facts about the pages.\<close>

definition same_db :: "mdb_txn \<Rightarrow> nat \<Rightarrow> nat \<Rightarrow> mdb_txn \<Rightarrow> bool" where
  "same_db t dbi n t' \<longleftrightarrow> db_entries t' dbi n = db_entries t dbi n \<and> (\<forall>r \<in> set (db_entries t dbi n). record_data t' r = record_data t r) \<and>
     me_map (mt_env t') = me_map (mt_env t) \<and> mt_flags t' = mt_flags t"

lemma same_db_trans: "same_db t dbi n t1 \<Longrightarrow> same_db t1 dbi n t2 \<Longrightarrow> same_db t dbi n t2"
  by (simp add: same_db_def)

lemma touched_page_state:
  assumes w: "write_ok valid t d l dbi n" and to: "touched t d l mc x p y j q t' l' x' a"
    and r: "replaced t t' (tree_pages t n (db_root t dbi)) (edges t n (db_root t dbi)) x x' P j" and pg: "pg \<in> tree_pages t n (db_root t dbi)"
    and P: "P = (if mc_top mc = 0 then {} else {y})"
  shows "\<exists>p. page_state t' d l' (rename x x' pg) p"
proof -
  note wt = write_okD(1) [OF w]
  have pool: "in_pool t d x'" "\<And>z. in_pool t' d z \<longleftrightarrow> in_pool t d z \<and> z \<noteq> x'" and nx: "x' < mt_next_pgno t'" "mt_next_pgno t \<le> mt_next_pgno t'"
    and fp: "db_pages t' FREE_DBI d = db_pages t FREE_DBI d" and dl: "dl_find (dirty_list l') x' = Some (PBuf a)"
      "\<And>z. z < 2 ^ 64 \<Longrightarrow> z \<noteq> x' \<Longrightarrow> dl_find (dirty_list l') z = dl_find (dirty_list l) z"
    using to by (auto simp: touched_def)
  obtain p0 where p0: "page_state t d l pg p0" using write_okD(6) [OF w pg] by blast
  show ?thesis
  proof (cases "pg = x")
    case True
    obtain p' where p': "tpage t' x' = Some p'" "copied p x' p'" using to by (auto simp: touched_def)
    have "x' \<notin> db_pages t FREE_DBI d" using pool(1) wtxn_alloc_ok [OF wt] by (auto simp: alloc_ok_def in_pool_def)
    then have "page_state t' d l' x' p'"
      using p' copied_flags(6) [OF p'(2)] nx pool fp dl(1) by (simp add: page_state_def copied_def)
    then show ?thesis using True by (auto simp: rename_def)
  next
    case False
    have ne: "pg \<noteq> x'" using p0 pool(1) by (auto simp: page_state_def)
    have d: "dl_find (dirty_list l') pg = dl_find (dirty_list l) pg" using p0 ne wtxn_level(3) [OF wt] by (intro dl(2)) (auto simp: page_state_def)
    have "\<exists>p1. tpage t' pg = Some p1 \<and> mp_pgno p1 = mp_pgno p0 \<and> pg_flags p1 = pg_flags p0"
    proof (cases "pg \<in> P")
      case True
      then obtain q' where q': "tpage t pg = Some q'" "tpage t' pg = Some (set_child q' j x')" "page_inv q'" "\<not> IS_LEAF (pg_flags q')" "j < pg_n q'" "x' < 2 ^ 48"
        using r by (auto simp: replaced_def)
      then show ?thesis using p0 set_child_page(3,5) [OF q'(3-6)] by (simp add: page_state_def)
    next
      case other: False
      then show ?thesis using r pg False p0 by (auto simp: replaced_def page_state_def)
    qed
    then obtain p1 where "tpage t' pg = Some p1" "mp_pgno p1 = mp_pgno p0" "pg_flags p1 = pg_flags p0" by blast
    then have "page_state t' d l' pg p1" using p0 pool(2) nx(2) fp d ne by (simp add: page_state_def)
    then show ?thesis using False by (auto simp: rename_def)
  qed
qed

lemma touched_write_ok:
  assumes w: "write_ok valid t d l dbi n" and to: "touched t d l mc x p y j q t' l' x' a"
    and r: "replaced t t' (tree_pages t n (db_root t dbi)) (edges t n (db_root t dbi)) x x' P j" "x' \<notin> tree_pages t n (db_root t dbi)"
      "db_root t' dbi = rename x x' (db_root t dbi)"
    and P: "P = (if mc_top mc = 0 then {} else {y})" "P \<subseteq> tree_pages t n (db_root t dbi)" and dbi: "mc_dbi mc = dbi"
  shows "write_ok valid t' d l' dbi n" "same_db t dbi n t'"
proof -
  note tr = tree_replaced [OF r(1) write_okD(8) [OF w] order_refl order_refl, folded r(3)]
  have pool: "in_pool t d x'" "\<And>z. in_pool t' d z \<longleftrightarrow> in_pool t d z \<and> z \<noteq> x'" and nx: "x' < mt_next_pgno t'" "mt_next_pgno t \<le> mt_next_pgno t'"
    and w': "wtxn t' d l'" and rs: "reads_same t t' ({..<mt_next_pgno t} - (if mc_top mc = 0 then {x'} else {x', y}))"
    and f: "mt_dbxs t' = mt_dbxs t" "mt_dbflags t' = mt_dbflags t" "mt_flags t' = mt_flags t" "me_map (mt_env t') = me_map (mt_env t)" "mt_dbs t' = new_dbs t mc x'"
    using to by (auto simp: touched_def)
  have root: "db_root t' dbi \<noteq> P_INVALID" "1 < db_root t' dbi"
  proof -
    have "x' < 2 ^ 30" using nx wtxn_level(3) [OF w'] by simp
    moreover have "1 < db_root t dbi" using w by (simp add: write_ok_def db_ok_def)
    ultimately show "db_root t' dbi \<noteq> P_INVALID" "1 < db_root t' dbi"
      using write_okD(4) [OF w] write_okD(7) [OF w pool(1)] unfolding r(3) by (auto simp: rename_def P_INVALID_def)
  qed
  have E: "db_entries t' dbi n = db_entries t dbi n" using tr(2) root(1) write_okD(4) [OF w] by (simp add: db_entries_def)
  have ov: "ov_page s < mt_next_pgno t" "\<not> in_pool t d (ov_page s)" "ov_page s \<notin> tree_pages t n (db_root t dbi)"
    if "s \<in> set (db_entries t dbi n)" "odd (nd_flags s)" for s using w that by (auto simp: write_ok_def)
  have D: "record_data t' s = record_data t s" if s: "s \<in> set (db_entries t dbi n)" for s
  proof (cases "even (nd_flags s)")
    case False
    then have "ov_page s \<in> {..<mt_next_pgno t} - (if mc_top mc = 0 then {x'} else {x', y})" using ov [OF s] pool(1) P by auto
    then show ?thesis using rs False by (simp add: record_data_read reads_same_def)
  qed (simp add: record_data_read)
  show "same_db t dbi n t'" using E D f by (simp add: same_db_def)
  have dbs: "length (mt_dbs t') = length (mt_dbs t)" "md_flags (mt_dbs t' ! dbi) = md_flags (mt_dbs t ! dbi)"
    using write_okD(11) [OF w] dbi by (auto simp: f(5) new_dbs_def)
  have "db_ok valid t' dbi n" using write_okD(2) [OF w] tr(1) root E D unfolding db_ok_def by (simp add: f(1-3) dbs record_ok_def)
  moreover have "\<exists>p. page_state t' d l' z p" if "z \<in> tree_pages t' n (db_root t' dbi)" for z
    using that touched_page_state [OF w to r(1) _ P(1)] unfolding tr(3) by blast
  moreover have "tree_sep t' n (db_root t' dbi)" unfolding r(3) by (rule sep_replaced [OF r(1) write_okD(8,5) [OF w] r(2)])
  moreover have "ov_page s < mt_next_pgno t' \<and> \<not> in_pool t' d (ov_page s) \<and> ov_page s \<notin> tree_pages t' n (db_root t' dbi)"
    if "s \<in> set (db_entries t dbi n)" "odd (nd_flags s)" for s
    using ov [OF that] pool nx(2) unfolding tr(3) by (auto simp: rename_def split: if_splits)
  ultimately show "write_ok valid t' d l' dbi n"
    unfolding write_ok_def E using w' write_okD(3,7) [OF w] root(1) pool(2) by blast
qed

end
