(* ===== verification/Touch_Stack.thy ===== *)
theory Touch_Stack
  imports Touch_Cursor
begin

text \<open>
  The cursor during copy on write: its stack names the renamed pages, and the number of records to its left does not change.
\<close>

section \<open>The stack as a path\<close>

lemma stack_ptr: "stack_at t dbi n mc pgs \<Longrightarrow> i < length pgs \<Longrightarrow> mc_pg mc ! i = ptr_of t (pgs ! i)"
  "stack_at t dbi n mc pgs \<Longrightarrow> i < length pgs \<Longrightarrow> mc_pg mc ! i \<noteq> None"
  unfolding stack_at_def by blast+

lemma stack_desc:
  assumes w: "write_ok valid t d l dbi n" and s: "stack_at t dbi n mc pgs" and i: "i < length pgs"
  shows "desc t n (db_root t dbi) (map the (take i (mc_pg mc))) (take i (mc_ki mc)) = Some (n - i, pgs ! i)"
  using i
proof (induction i)
  case 0
  then show ?case using s by (cases n) (simp_all add: stack_at_def)
next
  case (Suc i)
  have len: "i < length (mc_pg mc)" "i < length (mc_ki mc)" "i < n" using Suc.prems s write_okD(10) [OF w] by (auto simp: stack_at_def)
  obtain p where p: "tpage t (pgs ! i) = Some p" "mc_ki mc ! i < pg_n p" "pgs ! Suc i = child p (mc_ki mc ! i)" using s Suc.prems by (auto simp: stack_at_def)
  have "mc_pg mc ! i = ptr_of t (pgs ! i)" using s Suc.prems by (simp add: stack_at_def)
  then have at: "page_at t (the (mc_pg mc ! i)) = Some p" using p(1) by (auto simp: tpage_ptr split: Option.bind_splits)
  have "desc t n (db_root t dbi) (map the (take i (mc_pg mc))) (take i (mc_ki mc)) = Some (Suc (n - Suc i), pgs ! i)"
    using Suc len(3) by (simp add: Suc_diff_Suc)
  from desc_snoc(1) [OF this p(1) at p(2)] show ?case using len p(3) by (simp add: take_Suc_conv_app_nth)
qed

lemma stack_base:
  assumes w: "write_ok valid t d l dbi n" and s: "stack_at t dbi n mc pgs" and i: "Suc i < length pgs" and p: "tpage t (pgs ! i) = Some p"
  shows "base t n (db_root t dbi) (take (Suc i) (mc_ki mc)) =
    base t n (db_root t dbi) (take i (mc_ki mc)) + length (concat (map (\<lambda>j. entries t (n - Suc i) (child p j)) [0..<mc_ki mc ! i]))"
proof -
  have len: "i < length (mc_ki mc)" "i < n" using i s write_okD(10) [OF w] by (auto simp: stack_at_def)
  have "mc_pg mc ! i = ptr_of t (pgs ! i)" "mc_ki mc ! i < pg_n p" using s i p by (auto simp: stack_at_def)
  then have at: "page_at t (the (mc_pg mc ! i)) = Some p" "mc_ki mc ! i < pg_n p" using p(1) by (auto simp: tpage_ptr split: Option.bind_splits)
  have "desc t n (db_root t dbi) (map the (take i (mc_pg mc))) (take i (mc_ki mc)) = Some (Suc (n - Suc i), pgs ! i)"
    using stack_desc [OF w s, of i] i len(2) by (simp add: Suc_diff_Suc)
  from desc_snoc(2) [OF this p(1) at] show ?thesis using len by (simp add: take_Suc_conv_app_nth)
qed

text \<open>On a full stack the cursor is on a leaf.\<close>

lemma stack_on_leaf:
  assumes w: "write_ok valid t d l dbi n" and s: "stack_at t dbi n mc pgs" and full: "length pgs = Suc n" "mc_top mc = n"
  shows "\<exists>p. tpage t (pgs ! n) = Some p \<and> on_leaf t n (db_root t dbi) mc (take n (mc_ki mc)) (mc_ki mc ! n) p"
proof -
  have len: "length (mc_pg mc) = 32" "length (mc_ki mc) = 32" "n < 32" "mc_snum mc = Suc n" using s full write_okD(10) [OF w] by (auto simp: stack_at_def)
  have ptr: "mc_pg mc ! i = ptr_of t (pgs ! i)" "mc_pg mc ! i \<noteq> None" if "i \<le> n" for i using stack_ptr [OF s, of i] full that by auto
  obtain p where p: "tpage t (pgs ! n) = Some p" using path_page(4) [OF w s, of n] full by (auto simp: page_state_def)
  let ?ps = "map the (take n (mc_pg mc))" let ?q = "the (mc_pg mc ! n)"
  have "take (Suc n) (mc_pg mc) = map Some (?ps @ [?q])"
    using ptr(2) len by (intro nth_equalityI) (auto simp: nth_append less_Suc_eq_le)
  then have "rep mc (?ps @ [?q]) (take n (mc_ki mc) @ [mc_ki mc ! n])"
    using len full(2) by (simp add: rep_def take_Suc_conv_app_nth)
  moreover have "page_at t ?q = Some p" using p ptr(1) [of n] by (auto simp: tpage_ptr split: Option.bind_splits)
  moreover have "desc t n (db_root t dbi) ?ps (take n (mc_ki mc)) = Some (0, pgs ! n)" using stack_desc [OF w s, of n] full by simp
  ultimately show ?thesis using p unfolding on_leaf_def by blast
qed

section \<open>Touching the page at the top\<close>

lemma touched_stack:
  assumes w: "write_ok valid t d l dbi n" and s: "stack_at t dbi n mc pgs" and k: "mc_top mc < length pgs"
    and r: "replaced t t' (tree_pages t n (db_root t dbi)) (edges t n (db_root t dbi)) x x' P (mc_ki mc ! (mc_top mc - 1))" "db_root t' dbi = rename x x' (db_root t dbi)"
    and x: "x = pgs ! mc_top mc" and to: "touched t d l mc x p y (mc_ki mc ! (mc_top mc - 1)) q t' l' x' a"
  shows "stack_at t' dbi n (set_top mc (PBuf a)) (map (rename x x') pgs)"
proof -
  let ?k = "mc_top mc" let ?E = "edges t n (db_root t dbi)" let ?T = "tree_pages t n (db_root t dbi)"
  note wt = write_okD(1) [OF w]
  have w': "wtxn t' d l'" and pool: "in_pool t d x'" and nx: "mt_next_pgno t \<le> mt_next_pgno t'" and dl: "dl_find (dirty_list l') x' = Some (PBuf a)"
      "\<And>z. z < 2 ^ 64 \<Longrightarrow> z \<noteq> x' \<Longrightarrow> dl_find (dirty_list l') z = dl_find (dirty_list l) z"
    using to by (auto simp: touched_def)
  have len: "length (mc_pg mc) = 32" "length pgs \<le> 32" using s write_okD(10) [OF w] by (auto simp: stack_at_def)
  have pos: "pgs ! i = x \<longleftrightarrow> i = ?k" if "i < length pgs" for i
    using that x path_distinct [OF w s, of i ?k] path_distinct [OF w s, of ?k i] k by (cases i ?k rule: linorder_cases) auto
  have ptr: "(mc_pg mc)[?k := Some (PBuf a)] ! i = ptr_of t' (rename x x' (pgs ! i))" if i: "i < length pgs" for i
  proof (cases "i = ?k")
    case True
    then show ?thesis using dl(1) len k pos [OF i] by (simp add: rename_def ptr_of_eq [OF w'])
  next
    case False
    obtain p1 where p1: "page_state t d l (pgs ! i) p1" using path_page(4) [OF w s i] by blast
    then have "pgs ! i \<noteq> x'" "pgs ! i < mt_next_pgno t" using pool by (auto simp: page_state_def)
    then have "ptr_of t' (pgs ! i) = ptr_of t (pgs ! i)"
      using dl(2) [of "pgs ! i"] wtxn_level(3) [OF wt] nx by (simp add: ptr_of_eq [OF w'] ptr_of_eq [OF wt] split: option.split)
    then show ?thesis using False pos [OF i] s i by (simp add: rename_def stack_at_def)
  qed
  have some: "(mc_pg mc)[?k := Some (PBuf a)] ! i \<noteq> None" if "i < length pgs" for i
    using that stack_ptr(2) [OF s that] len by (cases "i = ?k") auto
  have ch: "\<exists>p'. tpage t' (rename x x' (pgs ! i)) = Some p' \<and> mc_ki mc ! i < pg_n p' \<and> rename x x' (pgs ! Suc i) = child p' (mc_ki mc ! i)"
    if i: "Suc i < length pgs" for i
  proof -
    obtain p1 where p1: "tpage t (pgs ! i) = Some p1" "mc_ki mc ! i < pg_n p1" "pgs ! Suc i = child p1 (mc_ki mc ! i)" using s i by (auto simp: stack_at_def)
    have "(pgs ! i, mc_ki mc ! i, child p1 (mc_ki mc ! i)) \<in> ?E" "pgs ! i \<in> ?T" using path_page(1,2) [OF w s, of i] i p1(3) by auto
    then show ?thesis using replaced_page [OF r(1) _ p1(1)] p1(2,3) by auto
  qed
  show ?thesis using s ptr some ch r(2) unfolding stack_at_def by (auto simp: nth_map)
qed

lemma base_same:
  assumes w: "write_ok valid t d l dbi n" "write_ok valid t' d l' dbi n" and s: "stack_at t dbi n mc pgs" "stack_at t' dbi n mc' (map (rename x x') pgs)"
    and r: "replaced t t' (tree_pages t n (db_root t dbi)) (edges t n (db_root t dbi)) x x' P j" and ki: "mc_ki mc' = mc_ki mc" and i: "i < length pgs"
  shows "base t' n (db_root t' dbi) (take i (mc_ki mc)) = base t n (db_root t dbi) (take i (mc_ki mc))"
  using i
proof (induction i)
  case (Suc i)
  note sub = path_sub [OF w(1) s(1), of i]
  have "i < n" using Suc.prems s by (simp add: stack_at_def)
  then have n: "n - i = Suc (n - Suc i)" by simp
  obtain p where p: "tpage t (pgs ! i) = Some p" "mc_ki mc ! i < pg_n p" using s(1) Suc.prems by (auto simp: stack_at_def)
  obtain lo hi where ok: "tree_ok (db_cmp t dbi) valid t (Suc (n - Suc i)) (pgs ! i) lo hi" using sub(3) Suc.prems n by auto
  have subs: "tree_pages t (Suc (n - Suc i)) (pgs ! i) \<subseteq> tree_pages t n (db_root t dbi)" "edges t (Suc (n - Suc i)) (pgs ! i) \<subseteq> edges t n (db_root t dbi)"
    using sub(1,2) Suc.prems n by auto
  have "pgs ! i \<in> tree_pages t n (db_root t dbi)" using path_page(1) [OF w(1) s(1), of i] Suc.prems by simp
  then obtain p' where p': "tpage t' (rename x x' (pgs ! i)) = Some p'" "\<forall>j < pg_n p. (pgs ! i, j, child p j) \<in> edges t n (db_root t dbi) \<longrightarrow> child p' j = rename x x' (child p j)"
    using replaced_page [OF r _ p(1)] by auto
  have child: "entries t' (n - Suc i) (child p' j) = entries t (n - Suc i) (child p j)" if j: "j < pg_n p" for j
  proof -
    have "(pgs ! i, j, child p j) \<in> edges t n (db_root t dbi)" using subs(2) j p(1) by auto
    moreover have "tree_pages t (n - Suc i) (child p j) \<subseteq> tree_pages t n (db_root t dbi)" "edges t (n - Suc i) (child p j) \<subseteq> edges t n (db_root t dbi)"
      using subs j p(1) by auto
    ultimately show ?thesis using tree_replaced(2) [OF r tree_ok_branch(7) [OF ok p(1) j]] p'(2) j by auto
  qed
  have lists: "map (\<lambda>j. entries t' (n - Suc i) (child p' j)) [0..<mc_ki mc ! i] = map (\<lambda>j. entries t (n - Suc i) (child p j)) [0..<mc_ki mc ! i]"
    using child p(2) by simp
  have "base t' n (db_root t' dbi) (take (Suc i) (mc_ki mc)) =
      base t' n (db_root t' dbi) (take i (mc_ki mc)) + length (concat (map (\<lambda>j. entries t' (n - Suc i) (child p' j)) [0..<mc_ki mc ! i]))"
    using stack_base [OF w(2) s(2), of i p'] Suc.prems p'(1) ki by simp
  then show ?case using stack_base [OF w(1) s(1) Suc.prems p(1)] Suc unfolding lists by simp
qed simp

end
