(* ===== verification/Touch_Spec.thy ===== *)
theory Touch_Spec
  imports Touch_Stack Cursor_Ops
begin

text \<open>
  \<open>mdb_page_touch\<close> and \<open>mdb_cursor_touch\<close> as operations on a database: the state they keep, and their properties.
\<close>

section \<open>One page\<close>

text \<open>
  The state during \<open>mdb_cursor_touch\<close>: the pages above index \<open>k\<close> of the stack are dirty, and there is room for \<open>m\<close> more freed pages.
\<close>

definition touching :: "(byte list \<Rightarrow> bool) \<Rightarrow> nat \<Rightarrow> nat \<Rightarrow> nat \<Rightarrow> nat \<Rightarrow> nat \<Rightarrow> mdb_txn \<Rightarrow> mdb_cursor \<Rightarrow> bool" where
  "touching valid d dbi n k m t mc \<longleftrightarrow> (\<exists>l pgs. write_ok valid t d l dbi n \<and> stack_at t dbi n mc pgs \<and> length pgs = Suc n \<and>
     (\<forall>i < k. dl_find (dirty_list l) (pgs ! i) \<noteq> None) \<and> free_room t m \<and> cursors_ok t mc)"

definition place :: "mdb_txn \<Rightarrow> nat \<Rightarrow> nat \<Rightarrow> mdb_cursor \<Rightarrow> nat" where
  "place t dbi n mc = base t n (db_root t dbi) (take n (mc_ki mc))"

definition leaf_size :: "mdb_txn \<Rightarrow> nat \<Rightarrow> mdb_cursor \<Rightarrow> nat option" where
  "leaf_size t n mc = map_option pg_n (page_at t (the (mc_pg mc ! n)))"

lemma leaf_size_page: "stack_at t dbi n mc pgs \<Longrightarrow> length pgs = Suc n \<Longrightarrow> leaf_size t n mc = map_option pg_n (tpage t (pgs ! n))"
  using stack_ptr [of t dbi n mc pgs n] by (auto simp: leaf_size_def tpage_ptr)

text \<open>The records and the position of the cursor are the same.\<close>

definition same_place :: "nat \<Rightarrow> nat \<Rightarrow> mdb_txn \<Rightarrow> mdb_cursor \<Rightarrow> mdb_txn \<Rightarrow> mdb_cursor \<Rightarrow> bool" where
  "same_place dbi n t mc t' mc' \<longleftrightarrow> same_db t dbi n t' \<and> place t' dbi n mc' = place t dbi n mc \<and> leaf_size t' n mc' = leaf_size t n mc \<and>
     mc_ki mc' = mc_ki mc \<and> mc_flags mc' = mc_flags mc \<and> mc_dbi mc' = mc_dbi mc \<and> mc_snum mc' = mc_snum mc"

lemma same_place_trans: "same_place dbi n t mc t1 mc1 \<Longrightarrow> same_place dbi n t1 mc1 t2 mc2 \<Longrightarrow> same_place dbi n t mc t2 mc2"
  by (auto simp: same_place_def intro: same_db_trans)

lemma same_place_top: "same_place dbi n t mc t' (mc'\<lparr>mc_top := i\<rparr>) = same_place dbi n t mc t' mc'"
  "same_place dbi n t (mc\<lparr>mc_top := i\<rparr>) t' mc' = same_place dbi n t mc t' mc'"
  by (simp_all add: same_place_def place_def leaf_size_def)

lemma touch_step:
  assumes st: "touching valid d dbi n (mc_top mc) (Suc m) t mc" and k: "mc_top mc \<le> n"
  shows "\<exists>rc t' mc'. mdb_page_touch t mc = Some (rc, t', mc') \<and> (rc \<noteq> MDB_SUCCESS \<and> mt_flags t' AND MDB_TXN_ERROR \<noteq> 0 \<or>
    rc = MDB_SUCCESS \<and> touching valid d dbi n (Suc (mc_top mc)) m t' mc' \<and> same_place dbi n t mc t' mc' \<and> mc_top mc' = mc_top mc)"
proof -
  let ?k = "mc_top mc"
  obtain l pgs where w: "write_ok valid t d l dbi n" and s: "stack_at t dbi n mc pgs" and full: "length pgs = Suc n"
    and up: "\<And>i. i < ?k \<Longrightarrow> dl_find (dirty_list l) (pgs ! i) \<noteq> None" and room: "free_room t (Suc m)" and cs: "cursors_ok t mc"
    using st by (auto simp: touching_def)
  have kl: "?k < length pgs" using k full by simp
  note wt = write_okD(1) [OF w]
  let ?x = "pgs ! ?k"
  obtain p where p: "page_state t d l ?x p" "page_inv p" using path_page(4) [OF w s kl] by blast
  have len: "length (mc_pg mc) = 32" "?k < 32" using s k write_okD(10) [OF w] by (auto simp: stack_at_def)
  obtain ptr where ptr: "mc_pg mc ! ?k = Some ptr" "ptr_of t ?x = Some ptr" using stack_ptr [OF s kl] by auto
  have at: "page_at t ptr = Some p" using p(1) ptr(2) by (simp add: page_state_def tpage_ptr)
  have rd: "mp_flags p = Some (pg_flags p)" "mp_pgno p = Some ?x" "c_read (mc_pg mc) ?k = Some (Some ptr)"
    using p page_inv_len [OF p(2)] ptr(1) len by (auto simp: mp_flags_eq page_state_def mem_simps)
  have one: "length (mt_levels t) = 1" "mt_flags t AND MDB_TXN_SPILLS = 0" using wt by (auto simp: wtxn_def)
  have m: "free_room t m" "free_room t 1" using room by (auto simp: free_room_def)
  show ?thesis
  proof (cases "dl_find (dirty_list l) ?x = None")
    case False
    then have "F_ISSET (pg_flags p) P_DIRTY" using p(1) by (simp add: page_state_def)
    then have "mdb_page_touch t mc = Some (MDB_SUCCESS, t, mc)" using rd at one by (simp add: mdb_page_touch_def)
    moreover have "touching valid d dbi n (Suc ?k) m t mc"
      unfolding touching_def using w s full up m(1) cs False by (intro exI [of _ l] exI [of _ pgs]) (auto simp: less_Suc_eq)
    ultimately show ?thesis by (simp add: same_place_def same_db_def)
  next
    case True
    let ?y = "pgs ! (?k - 1)" let ?j = "mc_ki mc ! (?k - 1)"
    have "\<not> F_ISSET (pg_flags p) P_DIRTY" using p(1) True by (simp add: page_state_def)
    moreover obtain q where tb: "touchable t d l mc ?x p ?y ?j q" and read: "c_read (mc_pg mc) ?k = Some (Some (PMap ?x))"
      using stack_touchable [OF w s kl up p True cs] by blast
    ultimately have run: "mdb_page_touch t mc = touch_new t mc (PMap ?x)" using rd at one by (simp add: mdb_page_touch_def)
    obtain rc t' mc' where res: "touch_new t mc (PMap ?x) = Some (rc, t', mc')" and out: "rc \<noteq> MDB_SUCCESS \<and> mt_flags t' AND MDB_TXN_ERROR \<noteq> 0 \<or>
        rc = MDB_SUCCESS \<and> (\<exists>l' x' a. touched t d l mc ?x p ?y ?j q t' l' x' a \<and> mc' = set_top mc (PBuf a))"
      using touch_new_spec [OF wt m(2) tb] by blast
    show ?thesis
    proof (cases "rc = MDB_SUCCESS")
      case False
      then show ?thesis using run res out by auto
    next
      case ok: True
      then obtain l' x' a where to: "touched t d l mc ?x p ?y ?j q t' l' x' a" and mc': "mc' = set_top mc (PBuf a)" using out by blast
      have tp: "tpage t ?x = Some p" using p(1) by (simp add: page_state_def)
      note r = touched_replaced [OF w s kl tb refl tp to]
      have P: "above_top mc pgs \<subseteq> tree_pages t n (db_root t dbi)" using path_page(1) [OF w s, of "?k - 1"] kl by (auto simp: above_top_def)
      have dbi: "mc_dbi mc = dbi" using s by (simp add: stack_at_def)
      note w' = touched_write_ok [OF w to r above_top_def P dbi]
      have s': "stack_at t' dbi n mc' (map (rename ?x x') pgs)" unfolding mc' by (rule touched_stack [OF w s kl r(1,3) refl to])
      have "place t' dbi n mc' = place t dbi n mc" unfolding place_def
        using base_same [OF w w'(1) s s' r(1), of n] full by (simp add: mc')
      moreover have "leaf_size t' n mc' = leaf_size t n mc"
      proof -
        have n: "n < length pgs" using full by simp
        obtain p1 where "page_state t d l (pgs ! n) p1" using path_page(4) [OF w s n] by blast
        then have "tpage t (pgs ! n) = Some p1" by (simp add: page_state_def)
        then show ?thesis using replaced_page [OF r(1) path_page(1) [OF w s n]] leaf_size_page [OF s full] leaf_size_page [OF s'] full by auto
      qed
      ultimately have same: "same_place dbi n t mc t' mc'" using w'(2) by (simp add: same_place_def mc')
      have dl: "dl_find (dirty_list l') x' = Some (PBuf a)" "\<And>z. z < 2 ^ 64 \<Longrightarrow> z \<noteq> x' \<Longrightarrow> dl_find (dirty_list l') z = dl_find (dirty_list l) z"
        and ro: "free_room t' m" and pool: "in_pool t d x'" using to room unfolding touched_def by blast+
      have "cursors_ok t' mc" using to unfolding touched_def by blast
      then have cs': "cursors_ok t' mc'" by (simp add: mc' cursors_ok_def)
      have "dl_find (dirty_list l') (map (rename ?x x') pgs ! i) \<noteq> None" if i: "i < Suc ?k" for i
      proof (cases "i = ?k")
        case False
        then have lt: "i < ?k" "i < length pgs" using i kl by auto
        obtain p1 where "page_state t d l (pgs ! i) p1" using path_page(4) [OF w s lt(2)] by blast
        then have "pgs ! i \<noteq> x'" "pgs ! i < 2 ^ 64" using pool wtxn_level(3) [OF wt] by (auto simp: page_state_def)
        moreover have "pgs ! i \<noteq> ?x" using path_distinct [OF w s lt(1) kl] .
        ultimately show ?thesis using dl(2) up [OF lt(1)] lt(2) by (simp add: rename_def)
      qed (use kl dl(1) in \<open>simp add: rename_def\<close>)
      then have "touching valid d dbi n (Suc ?k) m t' mc'"
        unfolding touching_def using w'(1) s' full ro cs' by (intro exI [of _ l'] exI [of _ "map (rename ?x x') pgs"]) simp
      then show ?thesis using run res ok same by (auto simp: mc')
    qed
  qed
qed

section \<open>All the pages\<close>

lemma touching_top: "touching valid d dbi n k m t (mc\<lparr>mc_top := i\<rparr>) = touching valid d dbi n k m t mc"
  by (simp add: touching_def stack_at_def cursors_ok_def)

lemma touch_loop:
  assumes "touching valid d dbi n (mc_top mc) r t mc" "mc_top mc + r = Suc n"
  shows "\<exists>rc t' mc'. cursor_touch_loop t mc r = Some (rc, t', mc') \<and> (rc \<noteq> MDB_SUCCESS \<and> mt_flags t' AND MDB_TXN_ERROR \<noteq> 0 \<or>
    rc = MDB_SUCCESS \<and> touching valid d dbi n (Suc n) 0 t' mc' \<and> same_place dbi n t mc t' mc')"
  using assms
proof (induction r arbitrary: t mc)
  case 0
  then show ?case by (simp add: same_place_def same_db_def)
next
  case (Suc r)
  obtain rc t1 mc1 where t1: "mdb_page_touch t mc = Some (rc, t1, mc1)" and out: "rc \<noteq> MDB_SUCCESS \<and> mt_flags t1 AND MDB_TXN_ERROR \<noteq> 0 \<or>
    rc = MDB_SUCCESS \<and> touching valid d dbi n (Suc (mc_top mc)) r t1 mc1 \<and> same_place dbi n t mc t1 mc1 \<and> mc_top mc1 = mc_top mc"
    using touch_step [OF Suc.prems(1)] Suc.prems(2) by auto
  show ?case
  proof (cases "rc = MDB_SUCCESS")
    case False
    then show ?thesis using t1 out by simp
  next
    case True
    let ?mc = "mc1\<lparr>mc_top := mc_top mc1 + 1\<rparr>"
    have st: "touching valid d dbi n (mc_top ?mc) r t1 ?mc" and sp: "same_place dbi n t mc t1 mc1" and top: "mc_top mc1 = mc_top mc"
      using out True by (simp_all add: touching_top)
    then have "same_place dbi n t mc t1 ?mc" by (simp add: same_place_top)
    then show ?thesis using Suc.IH [OF st] Suc.prems(2) top t1 True same_place_trans by fastforce
  qed
qed

text \<open>The position of a cursor with a full stack.\<close>

lemma on_leaf_stack:
  assumes s: "stack_at t dbi n mc pgs" "length pgs = Suc n" and o: "on_leaf t n (db_root t dbi) mc ks k p"
  shows "ks = take n (mc_ki mc)" "k = mc_ki mc ! n" "page_at t (the (mc_pg mc ! n)) = Some p"
proof -
  obtain ps ptr pg where rep: "rep mc (ps @ [ptr]) (ks @ [k])" and desc: "desc t n (db_root t dbi) ps ks = Some (0, pg)" and at: "page_at t ptr = Some p"
    using o unfolding on_leaf_def by blast
  have l: "length ks = n" "length ps = n" using desc_length [OF desc] by auto
  have "take (Suc n) (mc_pg mc) = map Some ps @ [Some ptr]" "take (Suc n) (mc_ki mc) = ks @ [k]" using rep l by (auto simp: rep_def)
  from take_snocD [OF this(1)] take_snocD [OF this(2)] l
  show "ks = take n (mc_ki mc)" "k = mc_ki mc ! n" "page_at t (the (mc_pg mc ! n)) = Some p" using at by auto
qed

lemma cursor_at_place:
  assumes w: "write_ok valid t d l dbi n" and s: "stack_at t dbi n mc pgs" "length pgs = Suc n" "mc_top mc = n"
  shows "cursor_at t dbi n mc i \<longleftrightarrow> bit (mc_flags mc) 0 \<and> (\<exists>sz. leaf_size t n mc = Some sz \<and> mc_ki mc ! n < sz \<and> i = place t dbi n mc + mc_ki mc ! n \<and>
    (bit (mc_flags mc) 1 \<longrightarrow> place t dbi n mc + sz = length (db_entries t dbi n) \<and> i + 1 = length (db_entries t dbi n)))"
proof -
  obtain p where p: "tpage t (pgs ! n) = Some p" "on_leaf t n (db_root t dbi) mc (take n (mc_ki mc)) (mc_ki mc ! n) p"
    using stack_on_leaf [OF w s] by blast
  have sz: "leaf_size t n mc = Some (pg_n p)" using leaf_size_page [OF s(1,2)] p(1) by simp
  have dbi: "mc_dbi mc = dbi" "db_root t dbi \<noteq> P_INVALID" using s(1) write_okD(4) [OF w] by (simp_all add: stack_at_def)
  have leaf: "(\<exists>ks. on_leaf t n (db_root t dbi) mc ks k q \<and> a = base t n (db_root t dbi) ks) \<longleftrightarrow> a = place t dbi n mc \<and> k = mc_ki mc ! n \<and> q = p" for a k q
  proof
    assume "\<exists>ks. on_leaf t n (db_root t dbi) mc ks k q \<and> a = base t n (db_root t dbi) ks"
    then obtain ks where ks: "on_leaf t n (db_root t dbi) mc ks k q" "a = base t n (db_root t dbi) ks" by blast
    show "a = place t dbi n mc \<and> k = mc_ki mc ! n \<and> q = p"
      using on_leaf_stack [OF s(1,2) ks(1)] on_leaf_stack(3) [OF s(1,2) p(2)] ks(2) by (simp add: place_def)
  next
    assume "a = place t dbi n mc \<and> k = mc_ki mc ! n \<and> q = p"
    then show "\<exists>ks. on_leaf t n (db_root t dbi) mc ks k q \<and> a = base t n (db_root t dbi) ks" using p(2) unfolding place_def by blast
  qed
  have at: "at_leaf t dbi n mc a k q \<longleftrightarrow> a = place t dbi n mc \<and> k = mc_ki mc ! n \<and> q = p \<and> (bit (mc_flags mc) 1 \<longrightarrow> a + pg_n p = length (db_entries t dbi n))" for a k q
    unfolding at_leaf_def leaf using dbi by blast
  show ?thesis unfolding cursor_at_def at sz by auto
qed

section \<open>A sample\<close>

text \<open>A write transaction that has not changed a page: the leaf page of the main database is page 5 of the file.\<close>

definition sample_level :: txn_level where
  "sample_level = \<lparr>mt_spill_pgs = None, dirty_list = replicate 131072 \<lparr>mid = 0, mptr = PMap 0\<rparr>\<rparr>"

definition sample_touch_txn :: mdb_txn where
  "sample_touch_txn = sample_wtxn\<lparr>mt_env := sample_wenv\<lparr>me_psize := 44, me_map := replicate 220 0 @ sample_leaf\<rparr>, mt_next_pgno := 6,
     mt_dbs := [sample_wdb, sample_db\<lparr>md_root := 5\<rparr>],
     mt_dbxs := [\<lparr>md_name = None, md_cmp = Cmp_long, md_dcmp = Cmp_memn\<rparr>, \<lparr>md_name = None, md_cmp = Cmp_memn, md_dcmp = Cmp_memn\<rparr>]\<rparr>"

definition sample_cursor :: mdb_cursor where
  "sample_cursor = (cursor_blank 1)\<lparr>mc_snum := 1, mc_flags := 1, mc_pg := (replicate 32 None)[0 := Some (PMap 5)]\<rparr>"

lemma sample_touch_dirty:
  "id2l_list (dirty_list sample_level) = []" "id2l_inv (dirty_list sample_level)"
  by (simp_all add: sample_level_def id2l_list_def id2l_inv_def MDB_IDL_UM_MAX_def)

lemma sample_touch_wempty: "db_entries sample_touch_txn FREE_DBI 0 = []" "free_ids sample_touch_txn = []" "db_root sample_touch_txn FREE_DBI = P_INVALID"
  "mt_levels sample_touch_txn = [sample_level]"
  by (simp_all add: db_entries_def sample_touch_txn_def sample_wtxn_def sample_wdb_def FREE_DBI_def free_ids_def sample_wenv_def sample_level_def)

lemma sample_touch_pool: "pool_list sample_touch_txn 0 = []" "in_pool sample_touch_txn 0 x \<longleftrightarrow> 6 \<le> x" "db_pages sample_touch_txn FREE_DBI 0 = {}"
proof -
  show pool: "pool_list sample_touch_txn 0 = []" by (simp add: pool_list_def unread_recs_def sample_touch_wempty)
  show "in_pool sample_touch_txn 0 x \<longleftrightarrow> 6 \<le> x" unfolding in_pool_def pool by (simp add: sample_touch_txn_def)
  show "db_pages sample_touch_txn FREE_DBI 0 = {}" by (simp add: db_pages_def sample_touch_wempty)
qed

lemma sample_touch_alloc: "alloc_ok sample_touch_txn 0"
proof -
  have "db_ok (\<lambda>k. length k = 8) sample_touch_txn FREE_DBI 0"
    unfolding db_ok_def sample_touch_wempty using cmp_ok_long
    by (simp add: sample_touch_txn_def sample_wtxn_def FREE_DBI_def DB_VALID_def DB_STALE_def sample_wdb_def MDB_DUPSORT_def)
  then have "records_ok sample_touch_txn 0"
    by (simp add: records_ok_def sample_touch_wempty) (simp add: sample_touch_txn_def FREE_DBI_def)
  moreover have "pghead_ok sample_touch_txn" by (simp add: pghead_ok_def sample_touch_txn_def sample_wenv_def)
  moreover have "pool_ok sample_touch_txn 0" by (simp add: pool_ok_def sample_touch_pool) (simp add: sample_touch_txn_def)
  moreover have "readers_ok sample_touch_txn"
    by (simp add: readers_ok_def sample_touch_txn_def sample_wtxn_def sample_wenv_def mdb_find_oldest_def)
  ultimately show ?thesis
    unfolding alloc_ok_def free_ok_def sample_touch_pool
    by (simp add: heap_ok_def level_ok_def sample_touch_wempty sample_touch_dirty)
      (simp add: sample_touch_txn_def sample_wtxn_def sample_wenv_def MDB_IDL_UM_MAX_def)
qed

lemma sample_wtxn_ok: "wtxn sample_touch_txn 0 sample_level"
  using sample_touch_alloc
  by (simp add: wtxn_def sample_touch_wempty sample_touch_dirty)
    (simp add: sample_level_def sample_touch_txn_def sample_wtxn_def)

lemma sample_touch_ptr: "dl_find (dirty_list sample_level) x = None" "ptr_of sample_touch_txn 5 = Some (PMap 5)"
  "tpage sample_touch_txn 5 = Some sample_leaf" "page_at sample_touch_txn (PMap 5) = Some sample_leaf"
proof -
  show no: "dl_find (dirty_list sample_level) x = None" for x using dl_find_in [of "dirty_list sample_level" x] sample_touch_dirty(1) by (cases "dl_find (dirty_list sample_level) x") auto
  show at: "page_at sample_touch_txn (PMap 5) = Some sample_leaf"
    by (simp add: page_at_def mem_bytes_def sample_touch_txn_def sample_wtxn_def sample_wenv_def get_bytes_def sample_header slice_def)
  have nx: "mt_next_pgno sample_touch_txn = 6" by (simp add: sample_touch_txn_def)
  show ptr: "ptr_of sample_touch_txn 5 = Some (PMap 5)" using ptr_of_eq [OF sample_wtxn_ok, of 5] no [of 5] nx by simp
  show "tpage sample_touch_txn 5 = Some sample_leaf" using ptr at by (simp add: tpage_ptr)
qed

lemma sample_touch_root: "db_root sample_touch_txn 1 = 5" "db_cmp sample_touch_txn 1 = Cmp_memn" "P_INVALID \<noteq> 5" "mt_next_pgno sample_touch_txn = 6"
  by (simp_all add: sample_touch_txn_def P_INVALID_def)

lemma sample_touch_entries: "db_entries sample_touch_txn 1 0 = page_nodes sample_leaf"
  using sample_touch_root by (simp add: db_entries_def sample_touch_ptr)

lemma sample_touch_db: "db_ok (\<lambda>k. length k < 2 ^ 32) sample_touch_txn 1 0"
proof -
  have "record_data sample_touch_txn [1,0, 0,0, 0,0, 1,0, 65, 120] \<noteq> None" "record_data sample_touch_txn [1,0, 0,0, 0,0, 1,0, 66, 121] \<noteq> None"
    by (simp_all add: record_data_def nd_flags_def nd_ksize_def nd_dsize_def slice_def)
  then have "\<forall>r \<in> set (db_entries sample_touch_txn 1 0). record_ok sample_touch_txn r"
    unfolding sample_touch_entries sample_nodes
    by (simp add: record_ok_def) (simp add: nd_flags_def F_ISSET_def F_DUPDATA_def slice_def)
  moreover have "tree_ok Cmp_memn (\<lambda>k. length k < 2 ^ 32) sample_touch_txn 0 5 None None"
    using sample_inv sample_less
    by (simp add: tree_ok.simps sample_touch_ptr sample_header leaf_flag page_keys_def sample_keys above_def below_def)
  moreover have "length (mt_dbs sample_touch_txn) = 2" "length (mt_dbxs sample_touch_txn) = 2" "length (mt_dbflags sample_touch_txn) = 2"
    "mt_flags sample_touch_txn AND MDB_TXN_ERROR = 0" "mt_dbflags sample_touch_txn ! 1 AND DB_STALE = 0"
    "md_flags (mt_dbs sample_touch_txn ! 1) AND MDB_DUPSORT = 0"
    by (simp_all add: sample_touch_txn_def sample_wtxn_def sample_db_def DB_VALID_def DB_STALE_def)
  ultimately show ?thesis
    unfolding db_ok_def sample_touch_root using sample_touch_root cmp_ok_memn by simp
qed

lemma sample_write_ok: "write_ok (\<lambda>k. length k < 2 ^ 32) sample_touch_txn 0 sample_level 1 0"
proof -
  have "mp_pgno sample_leaf = Some 5" "\<not> F_ISSET (pg_flags sample_leaf) P_DIRTY"
    by (simp_all add: sample_header F_ISSET_def P_DIRTY_def) (simp add: mp_pgno_def sample_leaf_def byte_simps slice_def)
  then have "page_state sample_touch_txn 0 sample_level 5 sample_leaf"
    by (simp add: page_state_def sample_touch_ptr sample_touch_pool sample_touch_root)
  moreover have "\<not> odd (nd_flags [1,0, 0,0, 0,0, 1,0, 65, 120])" "\<not> odd (nd_flags [1,0, 0,0, 0,0, 1,0, 66, 121])"
    by (simp_all add: nd_flags_def slice_def)
  ultimately show ?thesis
    unfolding write_ok_def sample_touch_root sample_touch_entries sample_nodes
    using sample_wtxn_ok sample_touch_db sample_touch_root by (simp add: FREE_DBI_def tree_sep_def sample_touch_pool) blast
qed

lemma sample_stack: "stack_at sample_touch_txn 1 0 sample_cursor [5]" "length [5::nat] = Suc 0" "mc_top sample_cursor = 0"
  unfolding stack_at_def sample_touch_root by (simp_all add: sample_cursor_def cursor_blank_def CURSOR_STACK_def sample_touch_ptr)

lemma sample_cursor_on: "cursor_at sample_touch_txn 1 0 sample_cursor 0"
proof -
  have "leaf_size sample_touch_txn 0 sample_cursor = Some 2" using leaf_size_page [OF sample_stack(1)] by (simp add: sample_touch_ptr sample_header)
  then show ?thesis
    unfolding cursor_at_place [OF sample_write_ok sample_stack] by (simp add: place_def) (simp add: sample_cursor_def cursor_blank_def CURSOR_STACK_def bit_0)
qed

section \<open>The property\<close>



end
