(* ===== verification/Split.thy ===== *)
theory Split
  imports Page
begin

text \<open>
  Splitting a page, from \<open>mdb_page_split\<close> in \<open>LegacyDatabase/mdb.c\<close>: the temporary copy of the slot array, the choice of
  the split point and of the separator, and the distribution of the nodes to the two pages.
\<close>

section \<open>The split point\<close>

text \<open>
  \<open>for (i=0, j=0; i<nkeys; i++) { if (i == newindx) copy->mp_ptrs[j++] = 0; copy->mp_ptrs[j++] = mp->mp_ptrs[i]; }\<close>
\<close>

function copy_ptrs :: "page \<Rightarrow> page \<Rightarrow> nat \<Rightarrow> nat \<Rightarrow> nat \<Rightarrow> nat \<Rightarrow> page option" where
  "copy_ptrs copy mp newindx nkeys i j = (if i < nkeys then do {
       (copy, j) \<leftarrow> (if i = newindx then do { copy \<leftarrow> wr16 copy (PAGEHDRSZ + 2 * j) 0; Some (copy, j + 1) } else Some (copy, j));
       v \<leftarrow> mp_ptr mp i;
       copy \<leftarrow> wr16 copy (PAGEHDRSZ + 2 * j) v;
       copy_ptrs copy mp newindx nkeys (i + 1) (j + 1) }
     else Some copy)"
  by pat_completeness auto
termination
  by (relation "measure (\<lambda>(copy, mp, newindx, nkeys, i, j). nkeys - i)") auto

declare copy_ptrs.simps [simp del]

text \<open>The temporary page, in the buffer \<open>buf\<close>.\<close>

definition split_copy :: "page \<Rightarrow> page \<Rightarrow> nat \<Rightarrow> nat \<Rightarrow> nat \<Rightarrow> page option" where
  "split_copy buf mp psize newindx nkeys = do {
     pg \<leftarrow> get_bytes mp 0 8;
     copy \<leftarrow> put_bytes buf 0 pg;
     fl \<leftarrow> mp_flags mp;
     copy \<leftarrow> wr16 copy 10 fl;
     copy \<leftarrow> wr16 copy 12 PAGEHDRSZ;
     copy \<leftarrow> wr16 copy 14 psize;
     copy_ptrs copy mp newindx nkeys 0 0 }"

text \<open>\<open>psize\<close> after the node with index \<open>i\<close> has been counted.\<close>

definition split_item :: "page \<Rightarrow> page \<Rightarrow> nat \<Rightarrow> nat \<Rightarrow> nat \<Rightarrow> nat \<Rightarrow> nat option" where
  "split_item mp copy newindx nsize i psize =
     (if i = newindx then Some (psize + nsize)
      else do {
        node \<leftarrow> mp_ptr copy i;
        ks \<leftarrow> mn_ksize mp node;
        fl \<leftarrow> mp_flags mp;
        let psize = psize + NODESIZE + ks + 2;
        psize \<leftarrow> (if IS_LEAF fl then do {
            nf \<leftarrow> mn_flags mp node;
            if F_ISSET nf F_BIGDATA then Some (psize + 8) else do { ds \<leftarrow> NODEDSZ mp node; Some (psize + ds) } }
          else Some psize);
        Some (EVEN psize) })"

text \<open>
  The loop \<open>for (; i!=k; i+=j)\<close> for \<open>j = 1\<close>, where \<open>i\<close> starts at zero, and for \<open>j = -1\<close>, where \<open>i\<close> starts above \<open>k\<close>.
\<close>

function scan_left :: "page \<Rightarrow> page \<Rightarrow> nat \<Rightarrow> nat \<Rightarrow> nat \<Rightarrow> nat \<Rightarrow> nat \<Rightarrow> nat \<Rightarrow> nat \<Rightarrow> nat option" where
  "scan_left mp copy newindx nsize pmax k split_indx i psize = (if i < k then do {
       psize \<leftarrow> split_item mp copy newindx nsize i psize;
       if psize > pmax \<or> i = k - 1 then Some i
       else scan_left mp copy newindx nsize pmax k split_indx (i + 1) psize }
     else Some split_indx)"
  by pat_completeness auto
termination
  by (relation "measure (\<lambda>(mp, copy, newindx, nsize, pmax, k, split_indx, i, psize). k - i)") auto

declare scan_left.simps [simp del]

function scan_right :: "page \<Rightarrow> page \<Rightarrow> nat \<Rightarrow> nat \<Rightarrow> nat \<Rightarrow> nat \<Rightarrow> nat \<Rightarrow> nat \<Rightarrow> nat \<Rightarrow> nat option" where
  "scan_right mp copy newindx nsize pmax k split_indx i psize = (if i > k then do {
       psize \<leftarrow> split_item mp copy newindx nsize i psize;
       if psize > pmax \<or> i = k + 1 then Some (i + 1)
       else scan_right mp copy newindx nsize pmax k split_indx (i - 1) psize }
     else Some split_indx)"
  by pat_completeness auto
termination
  by (relation "measure (\<lambda>(mp, copy, newindx, nsize, pmax, k, split_indx, i, psize). i - k)") auto

declare scan_right.simps [simp del]

definition split_point :: "page \<Rightarrow> page \<Rightarrow> nat \<Rightarrow> nat \<Rightarrow> nat \<Rightarrow> nat \<Rightarrow> nat option" where
  "split_point mp copy nkeys newindx nsize pmax = (let split_indx = (nkeys + 1) div 2 in
     if nkeys < 20 \<or> nsize > pmax div 16 \<or> newindx \<ge> nkeys then
       if newindx \<le> split_indx \<or> newindx \<ge> nkeys
       then scan_left mp copy newindx nsize pmax (if newindx \<ge> nkeys then nkeys else split_indx + 2) split_indx 0 0
       else scan_right mp copy newindx nsize pmax (split_indx - 1) split_indx nkeys 0
     else Some split_indx)"

definition split_sepkey :: "page \<Rightarrow> page \<Rightarrow> nat \<Rightarrow> nat \<Rightarrow> byte list \<Rightarrow> byte list option" where
  "split_sepkey mp copy split_indx newindx newkey =
     (if split_indx = newindx then Some newkey else do { node \<leftarrow> mp_ptr copy split_indx; NODEKEY mp node })"

section \<open>Moving the nodes\<close>

text \<open>What the loop does not change: the old page, the number of its nodes, the split point and the new node.\<close>

record split_args =
  sa_mp :: page
  sa_nkeys :: nat
  sa_split :: nat
  sa_newindx :: nat
  sa_key :: "byte list"
  sa_data :: "mdb_val option"
  sa_pgno :: nat
  sa_flags :: nat

text \<open>
  What it changes: the indices, the right page and the temporary page, which of the two the cursor points to, the state of
  \<open>mdb_node_add\<close>, the index of the new node and the overflow pages of its data.
\<close>

record 's move_state =
  mv_i :: nat
  mv_j :: nat
  mv_rp :: page
  mv_copy :: page
  mv_left :: bool
  mv_na :: "'s na_state"
  mv_ki :: nat
  mv_ofp :: "page option"

text \<open>Key, data, page number and flags of the node with index \<open>i\<close>.  The data of an old node is addressed in the old page.\<close>

definition split_node :: "split_args \<Rightarrow> page \<Rightarrow> nat \<Rightarrow> nat \<Rightarrow> (byte list \<times> mdb_val option \<times> nat \<times> nat) option" where
  "split_node a copy i j = do {
     let mp = sa_mp a;
     fl \<leftarrow> mp_flags mp;
     (k, d, pgno, flags) \<leftarrow> (if i = sa_newindx a
       then Some (sa_key a, if IS_LEAF fl then sa_data a else None, if IS_LEAF fl then 0 else sa_pgno a, sa_flags a)
       else do {
         node \<leftarrow> mp_ptr copy i;
         k \<leftarrow> NODEKEY mp node;
         nf \<leftarrow> mn_flags mp node;
         if IS_LEAF fl then do {
           ds \<leftarrow> NODEDSZ mp node;
           Some (k, Some \<lparr>mv_size = ds, mv_data = drop (node + NODESIZE + length k) mp\<rparr>, 0, nf) }
         else do { pgno \<leftarrow> NODEPGNO mp node; Some (k, None, pgno, nf) } });
     Some (if \<not> IS_LEAF fl \<and> j = 0 then [] else k, d, pgno, flags) }"

definition move_target :: "'s move_state \<Rightarrow> page" where
  "move_target s = (if mv_left s then mv_copy s else mv_rp s)"

definition move_store :: "'s move_state \<Rightarrow> 's na_state \<Rightarrow> 's move_state" where
  "move_store s st = (let s = s\<lparr>mv_na := st\<rparr> in
     if mv_left s then s\<lparr>mv_copy := na_page st\<rparr> else s\<lparr>mv_rp := na_page st\<rparr>)"

definition move_next :: "split_args \<Rightarrow> 's move_state \<Rightarrow> 's move_state" where
  "move_next a s = (if mv_i s = sa_nkeys a then s\<lparr>mv_i := 0, mv_j := 0, mv_left := True\<rparr>
     else s\<lparr>mv_i := mv_i s + 1, mv_j := mv_j s + 1\<rparr>)"

definition move_one ::
  "('s \<Rightarrow> nat \<Rightarrow> ('s \<times> (rc + page)) option) \<Rightarrow> nat \<Rightarrow> nat \<Rightarrow> split_args \<Rightarrow> 's move_state \<Rightarrow> (rc \<times> 's move_state) option" where
  "move_one page_alloc me_psize me_nodemax a s = do {
     (k, d, pgno, flags) \<leftarrow> split_node a (mv_copy s) (mv_i s) (mv_j s);
     let s = (if mv_i s = sa_newindx a then s\<lparr>mv_ki := mv_j s\<rparr> else s);
     (rc, st, ofp) \<leftarrow> mdb_node_add page_alloc me_psize me_nodemax ((mv_na s)\<lparr>na_page := move_target s\<rparr>) (mv_j s) (Some k) d pgno flags;
     let s = move_store (s\<lparr>mv_ofp := (case ofp of None \<Rightarrow> mv_ofp s | Some q \<Rightarrow> Some q)\<rparr>) st;
     Some (rc, s) }"

partial_function (option) move_loop ::
  "('s \<Rightarrow> nat \<Rightarrow> ('s \<times> (rc + page)) option) \<Rightarrow> nat \<Rightarrow> nat \<Rightarrow> split_args \<Rightarrow> 's move_state \<Rightarrow> (rc \<times> 's move_state) option" where
  "move_loop page_alloc me_psize me_nodemax a s = do {
     (rc, s) \<leftarrow> move_one page_alloc me_psize me_nodemax a s;
     if rc \<noteq> MDB_SUCCESS then Some (rc, s)
     else let s = move_next a s
       in if mv_i s \<noteq> sa_split a then move_loop page_alloc me_psize me_nodemax a s else Some (MDB_SUCCESS, s) }"

declare move_loop.simps [code]

text \<open>\<open>for (i=0; i<nkeys; i++) mp->mp_ptrs[i] = copy->mp_ptrs[i]\<close>, for the \<open>n\<close> last indices.\<close>

fun back_ptrs :: "page \<Rightarrow> page \<Rightarrow> nat \<Rightarrow> nat \<Rightarrow> page option" where
  "back_ptrs mp copy i 0 = Some mp"
| "back_ptrs mp copy i (Suc n) = do {
     v \<leftarrow> mp_ptr copy i;
     mp \<leftarrow> wr16 mp (PAGEHDRSZ + 2 * i) v;
     back_ptrs mp copy (i + 1) n }"

text \<open>The left page: the temporary page is copied back.\<close>

definition copy_back :: "page \<Rightarrow> page \<Rightarrow> nat \<Rightarrow> page option" where
  "copy_back mp copy me_psize = do {
     nkeys \<leftarrow> NUMKEYS copy;
     mp \<leftarrow> back_ptrs mp copy 0 nkeys;
     lower \<leftarrow> mp_lower copy;
     mp \<leftarrow> wr16 mp 12 lower;
     upper \<leftarrow> mp_upper copy;
     mp \<leftarrow> wr16 mp 14 upper;
     if nkeys = 0 \<or> me_psize < upper then None
     else do {
       dst \<leftarrow> mp_ptr mp (nkeys - 1);
       src \<leftarrow> mp_ptr copy (nkeys - 1);
       b \<leftarrow> get_bytes copy src (me_psize - upper);
       put_bytes mp dst b } }"

section \<open>The two parts\<close>

text \<open>The room that the new node needs.\<close>

definition split_nsize :: "page \<Rightarrow> nat \<Rightarrow> byte list \<Rightarrow> mdb_val option \<Rightarrow> nat option" where
  "split_nsize mp me_nodemax newkey newdata = do {
     fl \<leftarrow> mp_flags mp;
     sz \<leftarrow> (if IS_LEAF fl then do { d \<leftarrow> newdata; Some (mdb_leaf_size me_nodemax (length newkey) (mv_size d)) }
           else Some (mdb_branch_size (Some newkey)));
     Some (EVEN sz) }"

text \<open>Before the separator goes to the parent page: the temporary page, the split point and the separator.\<close>

definition split_prepare :: "page \<Rightarrow> page \<Rightarrow> nat \<Rightarrow> nat \<Rightarrow> nat \<Rightarrow> byte list \<Rightarrow> mdb_val option \<Rightarrow> (page \<times> nat \<times> byte list) option" where
  "split_prepare buf mp me_psize me_nodemax newindx newkey newdata = do {
     nkeys \<leftarrow> NUMKEYS mp;
     nsize \<leftarrow> split_nsize mp me_nodemax newkey newdata;
     copy \<leftarrow> split_copy buf mp me_psize newindx nkeys;
     split_indx \<leftarrow> split_point mp copy nkeys newindx nsize (me_psize - PAGEHDRSZ);
     sepkey \<leftarrow> split_sepkey mp copy split_indx newindx newkey;
     Some (copy, split_indx, sepkey) }"

text \<open>After it: the nodes are moved to the right page \<open>rp\<close> and back to the left one, which is the last component of the result.\<close>

definition split_move ::
  "('s \<Rightarrow> nat \<Rightarrow> ('s \<times> (rc + page)) option) \<Rightarrow> nat \<Rightarrow> nat \<Rightarrow> 's na_state \<Rightarrow> page \<Rightarrow> page \<Rightarrow> page \<Rightarrow> nat \<Rightarrow> nat \<Rightarrow>
   byte list \<Rightarrow> mdb_val option \<Rightarrow> nat \<Rightarrow> nat \<Rightarrow> (rc \<times> 's move_state \<times> page) option" where
  "split_move page_alloc me_psize me_nodemax st mp rp copy split_indx newindx newkey newdata newpgno nflags = do {
     nkeys \<leftarrow> NUMKEYS mp;
     (rc, s) \<leftarrow> move_loop page_alloc me_psize me_nodemax
       \<lparr>sa_mp = mp, sa_nkeys = nkeys, sa_split = split_indx, sa_newindx = newindx, sa_key = newkey, sa_data = newdata, sa_pgno = newpgno, sa_flags = nflags\<rparr>
       \<lparr>mv_i = split_indx, mv_j = 0, mv_rp = rp, mv_copy = copy, mv_left = False, mv_na = st, mv_ki = newindx, mv_ofp = None\<rparr>;
     if rc \<noteq> MDB_SUCCESS then Some (rc, s, mp)
     else do {
       mp \<leftarrow> copy_back mp (mv_copy s) me_psize;
       Some (MDB_SUCCESS, s, mp) } }"

end
