(* ===== verification/Split_Point.thy ===== *)
theory Split_Point
  imports Split Page_Touch
begin

text \<open>
  The choice of the split point: when the sizes of the nodes are looked at, both halves fit on a page.
\<close>

section \<open>Sums over the two halves\<close>

lemma sum_take_Suc: "i < length S \<Longrightarrow> sum_list (take (Suc i) S) = sum_list (take i S) + (S ! i :: nat)"
  by (simp add: take_Suc_conv_app_nth)

lemma sum_drop_Suc: "i < length S \<Longrightarrow> sum_list (drop i S) = (S ! i :: nat) + sum_list (drop (Suc i) S)"
  by (simp add: Cons_nth_drop_Suc [symmetric])

lemma sum_take_drop: "sum_list (take i S) + sum_list (drop i S) = sum_list (S :: nat list)"
  by (metis append_take_drop_id sum_list_append)

lemma sum_take_mono: "i \<le> j \<Longrightarrow> sum_list (take i S) \<le> sum_list (take j (S :: nat list))"
  by (metis add_leD1 append_take_drop_id min.absorb1 order_refl sum_list_append take_take)

lemma sum_drop_mono: "i \<le> j \<Longrightarrow> sum_list (drop j S) \<le> sum_list (drop i (S :: nat list))"
  by (metis add_le_cancel_left diff_add_inverse2 le_add2 sum_take_drop sum_take_mono add.commute)

section \<open>The temporary slot array\<close>

text \<open>The place of node \<open>i\<close> of the old page in the array with a gap for the new node.\<close>

definition gap :: "nat \<Rightarrow> nat \<Rightarrow> nat" where
  "gap newindx i = (if newindx \<le> i then Suc i else i)"

lemma copy_ptrs_spec:
  assumes "18 + 2 * nkeys \<le> length copy" "16 + 2 * nkeys \<le> length mp" "i \<le> nkeys"
    and "j = (if newindx < i then Suc i else i)"
  shows "\<exists>c. copy_ptrs copy mp newindx nkeys i j = Some c \<and> length c = length copy \<and>
    (\<forall>a k. a + k \<le> 16 + 2 * j \<longrightarrow> slice c a k = slice copy a k) \<and>
    (\<forall>m. i \<le> m \<longrightarrow> m < nkeys \<longrightarrow> pg_ptr c (gap newindx m) = pg_ptr mp m)"
  using assms
proof (induction "nkeys - i" arbitrary: copy i j rule: less_induct)
  case less
  show ?case
  proof (cases "i < nkeys")
    case False
    then show ?thesis using copy_ptrs.simps [of copy mp newindx nkeys i j] by auto
  next
    case True
    define c1 where "c1 = (if i = newindx then splice copy (16 + 2 * j) (le_bytes 2 0) else copy)"
    define j1 where "j1 = (if i = newindx then j + 1 else j)"
    define c2 where "c2 = splice c1 (16 + 2 * j1) (le_bytes 2 (pg_ptr mp i))"
    have j1: "j1 = gap newindx i" "j \<le> j1" "j1 \<le> Suc i" using less.prems(4) by (auto simp: j1_def gap_def)
    have len: "length c1 = length copy" "length c2 = length copy"
      using less.prems True j1 by (auto simp: c1_def c2_def j1_def)
    have first: "(if i = newindx then do { copy \<leftarrow> wr16 copy (PAGEHDRSZ + 2 * j) 0; Some (copy, j + 1) } else Some (copy, j)) = Some (c1, j1)"
      using less.prems True by (auto simp: c1_def j1_def byte_simps PAGEHDRSZ_def)
    have v: "mp_ptr mp i = Some (pg_ptr mp i)" using less.prems True by (simp add: mp_ptr_eq)
    have w: "wr16 c1 (PAGEHDRSZ + 2 * j1) (pg_ptr mp i) = Some c2"
      using less.prems True j1 len by (simp add: c2_def byte_simps PAGEHDRSZ_def)
    have eq: "copy_ptrs copy mp newindx nkeys i j = copy_ptrs c2 mp newindx nkeys (i + 1) (j1 + 1)"
      using True first v w copy_ptrs.simps [of copy mp newindx nkeys i j] by simp
    have small: "pg_ptr mp i < 65536" unfolding pg_ptr_def using less.prems True by (intro w16_bound) auto
    have ih: "\<exists>c. copy_ptrs c2 mp newindx nkeys (i + 1) (j1 + 1) = Some c \<and> length c = length c2 \<and>
      (\<forall>a k. a + k \<le> 16 + 2 * (j1 + 1) \<longrightarrow> slice c a k = slice c2 a k) \<and>
      (\<forall>m. i + 1 \<le> m \<longrightarrow> m < nkeys \<longrightarrow> pg_ptr c (gap newindx m) = pg_ptr mp m)"
      using less.prems True len j1 by (intro less.hyps) (auto simp: gap_def)
    then obtain c where c: "copy_ptrs c2 mp newindx nkeys (i + 1) (j1 + 1) = Some c" "length c = length c2"
      "\<And>a k. a + k \<le> 16 + 2 * (j1 + 1) \<Longrightarrow> slice c a k = slice c2 a k"
      "\<And>m. i + 1 \<le> m \<Longrightarrow> m < nkeys \<Longrightarrow> pg_ptr c (gap newindx m) = pg_ptr mp m" by blast
    have "slice c a k = slice copy a k" if "a + k \<le> 16 + 2 * j" for a k
    proof -
      have "slice c2 a k = slice c1 a k" unfolding c2_def using that j1 len less.prems True by (intro slice_splice_other) auto
      moreover have "slice c1 a k = slice copy a k" unfolding c1_def using that less.prems True by (auto simp: slice_splice_other)
      moreover have "a + k \<le> 16 + 2 * (j1 + 1)" using that mult_le_mono2 [OF j1(2), of 2] by simp
      ultimately show ?thesis using c(3) by simp
    qed
    moreover have "pg_ptr c (gap newindx m) = pg_ptr mp m" if "i \<le> m" "m < nkeys" for m
    proof (cases "m = i")
      case True
      have "slice c (16 + 2 * j1) 2 = slice c2 (16 + 2 * j1) 2" by (intro c(3)) simp
      also have "\<dots> = le_bytes 2 (pg_ptr mp i)" unfolding c2_def using j1 len less.prems \<open>i < nkeys\<close> by (intro slice_splice_same) auto
      finally show ?thesis using small by (simp add: True j1(1) [symmetric] pg_ptr_def [of c])
    qed (use c(4) that in auto)
    ultimately show ?thesis using eq c(1,2) len by auto
  qed
qed

section \<open>The sizes of the nodes\<close>

text \<open>The room that the nodes of a page take, slots included, in order, with the new node at its place.\<close>

definition old_sizes :: "page \<Rightarrow> nat list" where
  "old_sizes p = map (\<lambda>raw. nd_len (pg_flags p) raw + 2) (page_nodes p)"

definition new_sizes :: "page \<Rightarrow> nat \<Rightarrow> nat \<Rightarrow> nat list" where
  "new_sizes p newindx nsize = insert_at newindx nsize (old_sizes p)"

lemma length_old_sizes [simp]: "length (old_sizes p) = pg_n p"
  by (simp add: old_sizes_def)

lemma length_new_sizes [simp]: "newindx \<le> pg_n p \<Longrightarrow> length (new_sizes p newindx nsize) = Suc (pg_n p)"
  by (simp add: new_sizes_def)

lemma nd_len_node: "page_inv p \<Longrightarrow> i < pg_n p \<Longrightarrow> nd_len fl (page_nodes p ! i) = nd_len fl (drop (pg_ptr p i) p)"
  using node_at_fields(5) [OF page_inv_node] by (simp add: page_nodes_def)

lemma old_sizes_nth: "page_inv p \<Longrightarrow> i < pg_n p \<Longrightarrow> old_sizes p ! i = nd_len (pg_flags p) (drop (pg_ptr p i) p) + 2"
  by (simp add: old_sizes_def nd_len_node)

text \<open>The room taken and the room left add up.\<close>

lemma sum_list_plus: "sum_list (map (\<lambda>x. f x + c) xs) = sum_list (map f xs) + c * length xs" for c :: nat
  by (induction xs) auto

lemma old_sizes_sum:
  assumes "page_inv p" shows "sum_list (old_sizes p) + (pg_upper p - pg_lower p) + 16 = length p"
proof -
  have "map (\<lambda>raw. nd_len (pg_flags p) raw + 2) (page_nodes p) = map (\<lambda>ofs. nd_len (pg_flags p) (drop ofs p) + 2) (ptrs p)"
    using nd_len_node [OF assms] by (intro nth_equalityI) auto
  then have "sum_list (old_sizes p) = sum_list (map (\<lambda>ofs. nd_len (pg_flags p) (drop ofs p)) (ptrs p)) + 2 * pg_n p"
    unfolding old_sizes_def by (simp only: sum_list_plus length_ptrs)
  then show ?thesis
    using assms page_inv_lower [OF assms] page_inv_bounds [OF assms] unfolding page_inv_def by simp
qed

lemma new_sizes_sum: "sum_list (new_sizes p newindx nsize) = nsize + sum_list (old_sizes p)"
  by (simp add: new_sizes_def sum_list_insert_at)

lemma new_sizes_nth:
  assumes "newindx \<le> pg_n p" "i \<le> pg_n p"
  shows "new_sizes p newindx nsize ! i = (if i < newindx then old_sizes p ! i else if i = newindx then nsize else old_sizes p ! (i - 1))"
  using assms by (simp add: new_sizes_def nth_insert_at)

lemma even_sizes: "even nsize \<Longrightarrow> x \<in> set (new_sizes p newindx nsize) \<Longrightarrow> even x"
  by (auto simp: new_sizes_def set_insert_at old_sizes_def nd_len_ge)

lemma sum_even: "(\<And>x. x \<in> set S \<Longrightarrow> even x) \<Longrightarrow> even (sum_list (S :: nat list))"
  by (induction S) auto

text \<open>The temporary array holds the offsets of the old nodes.\<close>

definition slots_copied :: "page \<Rightarrow> page \<Rightarrow> nat \<Rightarrow> bool" where
  "slots_copied mp copy newindx \<longleftrightarrow> 18 + 2 * pg_n mp \<le> length copy \<and> (\<forall>m < pg_n mp. pg_ptr copy (gap newindx m) = pg_ptr mp m)"

lemma slots_copied_at:
  assumes "slots_copied mp copy newindx" "newindx \<le> pg_n mp" "i \<le> pg_n mp" "i \<noteq> newindx"
  defines "m \<equiv> (if i < newindx then i else i - 1)"
  shows "mp_ptr copy i = Some (pg_ptr mp m)" "m < pg_n mp"
proof -
  have "gap newindx m = i" "m < pg_n mp" using assms(2-4) by (auto simp: m_def gap_def)
  then show "mp_ptr copy i = Some (pg_ptr mp m)" "m < pg_n mp"
    using assms(1,3) by (auto simp: slots_copied_def mp_ptr_eq)
qed

lemma split_item_size:
  assumes inv: "page_inv mp" and c: "slots_copied mp copy newindx" "newindx \<le> pg_n mp" and i: "i \<le> pg_n mp" and ev: "even psize"
  shows "split_item mp copy newindx nsize i psize = Some (psize + new_sizes mp newindx nsize ! i)"
proof (cases "i = newindx")
  case True
  then show ?thesis using c(2) by (simp add: split_item_def new_sizes_nth)
next
  case False
  define m where "m = (if i < newindx then i else i - 1)"
  note at = slots_copied_at [OF c i False, folded m_def]
  have ok: "node_ok mp (pg_ptr mp m)" by (rule page_inv_node [OF inv at(2)])
  note h = node_header_eq [OF node_ok_room [OF ok]]
  have r: "EVEN (10 + (psize + n)) = Suc (Suc (psize + EVEN (8 + n)))" "EVEN (18 + (psize + n)) = Suc (Suc (psize + EVEN (16 + n)))" for n
    using ev unfolding EVEN_def by presburger+
  have "split_item mp copy newindx nsize i psize = Some (psize + (nd_len (pg_flags mp) (drop (pg_ptr mp m) mp) + 2))"
    using False at h page_inv_len [OF inv] by (simp add: split_item_def mp_flags_eq Let_def NODESIZE_def nd_len_def nd_dlen_def add.assoc r)
  then show ?thesis using old_sizes_nth [OF inv at(2)] new_sizes_nth [OF c(2) i] False by (simp add: m_def split: if_splits)
qed

section \<open>The scans\<close>

lemma scan_left_spec:
  assumes inv: "page_inv mp" and c: "slots_copied mp copy newindx" "newindx \<le> pg_n mp" and ev: "even nsize"
    and k: "k \<le> Suc (pg_n mp)" "i < k" and psize: "psize = sum_list (take i (new_sizes mp newindx nsize))" "psize \<le> pmax"
  defines "S \<equiv> new_sizes mp newindx nsize"
  shows "\<exists>s. scan_left mp copy newindx nsize pmax k split_indx i psize = Some s \<and> i \<le> s \<and> s < k \<and>
    sum_list (take s S) \<le> pmax \<and> (s = k - 1 \<or> sum_list (take (Suc s) S) > pmax)"
  using k(2) psize
proof (induction "k - i" arbitrary: i psize rule: less_induct)
  case less
  have i: "i \<le> pg_n mp" "i < length S" using less.prems(1) k(1) c(2) by (auto simp: S_def)
  have "even psize" unfolding less.prems(2) using even_sizes [OF ev] by (intro sum_even) (meson in_set_takeD)
  from split_item_size [OF inv c i(1) this]
  have item: "split_item mp copy newindx nsize i psize = Some (sum_list (take (Suc i) S))"
    using less.prems(2) sum_take_Suc [OF i(2)] by (simp add: S_def)
  show ?case
  proof (cases "sum_list (take (Suc i) S) > pmax \<or> i = k - 1")
    case True
    then have "scan_left mp copy newindx nsize pmax k split_indx i psize = Some i"
      using item less.prems(1) scan_left.simps [of mp copy newindx nsize pmax k split_indx i psize] by simp
    then show ?thesis using True less.prems by (auto simp: S_def)
  next
    case False
    then have "scan_left mp copy newindx nsize pmax k split_indx i psize =
        scan_left mp copy newindx nsize pmax k split_indx (Suc i) (sum_list (take (Suc i) S))"
      using item less.prems(1) scan_left.simps [of mp copy newindx nsize pmax k split_indx i psize] by simp
    moreover have "k - Suc i < k - i" "Suc i < k" using False less.prems(1) by auto
    ultimately show ?thesis using less.hyps [of "Suc i" "sum_list (take (Suc i) S)"] False Suc_leD unfolding S_def by fastforce
  qed
qed

lemma scan_right_spec:
  assumes inv: "page_inv mp" and c: "slots_copied mp copy newindx" "newindx \<le> pg_n mp" and ev: "even nsize"
    and k: "k < i" "i \<le> pg_n mp" and psize: "psize = sum_list (drop (Suc i) (new_sizes mp newindx nsize))" "psize \<le> pmax"
  defines "S \<equiv> new_sizes mp newindx nsize"
  shows "\<exists>s. scan_right mp copy newindx nsize pmax k split_indx i psize = Some (Suc s) \<and> s \<le> i \<and> k < s \<and>
    sum_list (drop (Suc s) S) \<le> pmax \<and> (s = Suc k \<or> sum_list (drop s S) > pmax)"
  using k psize
proof (induction i arbitrary: psize)
  case (Suc i)
  have i: "Suc i < length S" using Suc.prems(2) c(2) by (simp add: S_def)
  have "even psize" unfolding Suc.prems(3) using even_sizes [OF ev] by (intro sum_even) (meson in_set_dropD)
  from split_item_size [OF inv c Suc.prems(2) this]
  have item: "split_item mp copy newindx nsize (Suc i) psize = Some (sum_list (drop (Suc i) S))"
    using Suc.prems(3) sum_drop_Suc [OF i] by (simp add: S_def)
  show ?case
  proof (cases "sum_list (drop (Suc i) S) > pmax \<or> Suc i = k + 1")
    case True
    then have "scan_right mp copy newindx nsize pmax k split_indx (Suc i) psize = Some (Suc (Suc i))"
      using item Suc.prems(1) scan_right.simps [of mp copy newindx nsize pmax k split_indx "Suc i" psize] by simp
    then show ?thesis using True Suc.prems by (auto simp: S_def)
  next
    case False
    then have "scan_right mp copy newindx nsize pmax k split_indx (Suc i) psize =
        scan_right mp copy newindx nsize pmax k split_indx i (sum_list (drop (Suc i) S))"
      using item Suc.prems(1) scan_right.simps [of mp copy newindx nsize pmax k split_indx "Suc i" psize] by simp
    then show ?thesis using Suc.IH [of "sum_list (drop (Suc i) S)"] Suc.prems False by (auto simp: S_def)
  qed
qed simp

section \<open>Both halves fit\<close>

text \<open>
  No node takes more than half a page.  The part that was scanned fits since the scan stops in time; the other part consists of old
  nodes only, or of little more than the node at the split point and the new one.
\<close>

lemma split_point_fits:
  assumes inv: "page_inv mp" and c: "slots_copied mp copy newindx" "newindx \<le> pg_n mp" and ev: "even nsize"
    and old: "sum_list (old_sizes mp) \<le> pmax" and half: "\<And>x. x \<in> set (new_sizes mp newindx nsize) \<Longrightarrow> 2 * x \<le> pmax"
    and n: "2 \<le> pg_n mp" and look: "pg_n mp < 20 \<or> pmax div 16 < nsize \<or> pg_n mp \<le> newindx"
  defines "S \<equiv> new_sizes mp newindx nsize"
  shows "\<exists>s. split_point mp copy (pg_n mp) newindx nsize pmax = Some s \<and> 0 < s \<and> s \<le> pg_n mp \<and>
    sum_list (take s S) \<le> pmax \<and> sum_list (drop s S) \<le> pmax"
proof -
  let ?n = "pg_n mp" and ?h = "(pg_n mp + 1) div 2"
  have lS: "length S = Suc ?n" using c(2) by (simp add: S_def)
  have small: "2 * S ! i \<le> pmax" if "i \<le> ?n" for i using half [of "S ! i"] that lS by (simp add: S_def)
  have total: "sum_list S \<le> nsize + pmax" using old by (simp add: S_def new_sizes_sum)
  have new: "2 * nsize \<le> pmax" using small [OF c(2)] c(2) by (simp add: S_def new_sizes_nth)
  have others: "sum_list (drop s S) \<le> pmax" if "newindx < s" "s \<le> Suc ?n" for s
  proof -
    have "sum_list (take s S) \<ge> nsize"
      using sum_take_mono [of "Suc newindx" s S] sum_take_Suc [of newindx S] that lS c(2) by (simp add: S_def new_sizes_nth)
    then show ?thesis using total sum_take_drop [of s S] by simp
  qed
  have others': "sum_list (take s S) \<le> pmax" if "s \<le> newindx" for s
  proof -
    have "sum_list (drop s S) \<ge> nsize"
      using sum_drop_mono [OF that, of S] sum_drop_Suc [of newindx S] lS c(2) by (simp add: S_def new_sizes_nth)
    then show ?thesis using total sum_take_drop [of s S] by simp
  qed
  show ?thesis
  proof (cases "newindx \<le> ?h \<or> ?n \<le> newindx")
    case True
    let ?k = "if ?n \<le> newindx then ?n else ?h + 2"
    have k: "?k \<le> Suc ?n" "2 \<le> ?k" using n by auto
    obtain s where s: "scan_left mp copy newindx nsize pmax ?k ?h 0 0 = Some s" "s < ?k"
      "sum_list (take s S) \<le> pmax" "s = ?k - 1 \<or> sum_list (take (Suc s) S) > pmax"
      using scan_left_spec [OF inv c ev k(1), of 0 0 pmax ?h] k(2) unfolding S_def by auto
    have sn: "s \<le> ?n" using s(2) k(1) by simp
    have "sum_list (take (Suc 0) S) \<le> pmax" using sum_take_Suc [of 0 S] small [of 0] lS by simp
    then have "0 < s" using s(4) k(2) by (cases s) auto
    moreover have "sum_list (drop s S) \<le> pmax"
    proof (cases "sum_list (take (Suc s) S) > pmax")
      case True
      then show ?thesis using sum_take_Suc [of s S] sum_take_drop [of s S] small [OF sn] lS sn total new by simp
    next
      case False
      then have sk: "s = ?k - 1" using s(4) by blast
      show ?thesis
      proof (cases "?n \<le> newindx")
        case True
        then have "s = ?n - 1" "newindx = ?n" using sk c(2) by auto
        then have "sum_list (drop s S) = S ! s + S ! ?n"
          using sum_drop_Suc [of s S] sum_drop_Suc [of ?n S] lS n by simp
        then show ?thesis using small [OF sn] small [of ?n] by simp
      next
        case False
        then show ?thesis using sk \<open>newindx \<le> ?h \<or> ?n \<le> newindx\<close> sn by (intro others) auto
      qed
    qed
    moreover have "split_point mp copy ?n newindx nsize pmax = Some s"
      using look True s(1) by (auto simp: split_point_def Let_def)
    ultimately show ?thesis using s(3) sn by blast
  next
    case False
    then have h: "?h < newindx" "newindx < ?n" "0 < ?h" using n by auto
    have dn: "sum_list (drop ?n S) \<le> pmax" using sum_drop_Suc [of ?n S] small [of ?n] lS by simp
    have kn: "?h - 1 < ?n" using n by simp
    obtain s where s: "scan_right mp copy newindx nsize pmax (?h - 1) ?h ?n 0 = Some (Suc s)" "s \<le> ?n" "?h - 1 < s"
      "sum_list (drop (Suc s) S) \<le> pmax" "s = Suc (?h - 1) \<or> sum_list (drop s S) > pmax"
      using scan_right_spec [OF inv c ev kn, of 0 pmax ?h] lS unfolding S_def [symmetric] by auto
    have "s \<noteq> ?n" using s(5) dn h by auto
    then have sn: "Suc s \<le> ?n" using s(2) by simp
    have "sum_list (take (Suc s) S) \<le> pmax"
    proof (cases "sum_list (drop s S) > pmax")
      case True
      then show ?thesis using sum_drop_Suc [of s S] sum_take_drop [of "Suc s" S] small [OF s(2)] lS sn total new by simp
    next
      case False
      then show ?thesis using s(5) h by (intro others') auto
    qed
    moreover have "split_point mp copy ?n newindx nsize pmax = Some (Suc s)"
      using look False s(1) by (auto simp: split_point_def Let_def)
    ultimately show ?thesis using s(4) sn by blast
  qed
qed

end
