(* ===== verification/Split_Move.thy ===== *)
theory Split_Move
  imports Split_Point
begin

text \<open>
  The distribution of the nodes: the right page and the left page together hold the old nodes and the new one, in order.
\<close>

section \<open>What a node says\<close>

text \<open>The key, the flags and size of the data or the number of the child, and the bytes stored; the padding byte is left out.\<close>

type_synonym node_rec = "byte list \<times> (nat \<times> nat) \<times> byte list"

definition nd_rec :: "nat \<Rightarrow> byte list \<Rightarrow> node_rec" where
  "nd_rec fl raw = (nd_key raw, if IS_LEAF fl then (nd_flags raw, nd_dsize raw) else (nd_pgno raw, 0), nd_payload fl raw)"

definition page_recs :: "page \<Rightarrow> node_rec list" where
  "page_recs p = map (nd_rec (pg_flags p)) (page_nodes p)"

lemma length_page_recs [simp]: "length (page_recs p) = pg_n p"
  by (simp add: page_recs_def)

text \<open>The arguments of \<open>mdb_node_add\<close>.\<close>

type_synonym node_item = "byte list \<times> mdb_val option \<times> nat \<times> nat"

fun item_dlen :: "nat \<Rightarrow> node_item \<Rightarrow> nat" where
  "item_dlen fl (k, d, pgno, flags) = (if IS_LEAF fl then if odd flags then 8 else mv_size (the d) else 0)"

fun item_size :: "nat \<Rightarrow> node_item \<Rightarrow> nat" where
  "item_size fl (k, d, pgno, flags) = EVEN (8 + length k + item_dlen fl (k, d, pgno, flags)) + 2"

fun item_rec :: "nat \<Rightarrow> node_item \<Rightarrow> node_rec" where
  "item_rec fl (k, d, pgno, flags) = (k, if IS_LEAF fl then (flags, mv_size (the d)) else (pgno, 0),
     if IS_LEAF fl then take (item_dlen fl (k, d, pgno, flags)) (mv_data (the d)) else [])"

fun item_ok :: "nat \<Rightarrow> nat \<Rightarrow> node_item \<Rightarrow> bool" where
  "item_ok fl nodemax (k, d, pgno, flags) \<longleftrightarrow> length k < 65536 \<and>
     (if IS_LEAF fl then d \<noteq> None \<and> mv_size (the d) < 2 ^ 32 \<and> flags < 65536 \<and>
        item_dlen fl (k, d, pgno, flags) \<le> length (mv_data (the d)) \<and> (even flags \<longrightarrow> 8 + length k + mv_size (the d) \<le> nodemax)
      else pgno < 2 ^ 48)"

lemma even_item_size: "even (item_size fl x)"
  by (cases x) (simp add: EVEN_bounds)

section \<open>Appending a node\<close>

text \<open>The page holds these nodes.\<close>

definition holds :: "nat \<Rightarrow> page \<Rightarrow> node_item list \<Rightarrow> bool" where
  "holds fl p xs \<longleftrightarrow> page_inv p \<and> IS_LEAF (pg_flags p) = IS_LEAF fl \<and> page_recs p = map (item_rec fl) xs \<and> old_sizes p = map (item_size fl) xs"

lemma holds_n: "holds fl p xs \<Longrightarrow> pg_n p = length xs"
  unfolding holds_def by (metis length_map length_old_sizes)

lemma holds_room:
  assumes "holds fl p xs"
  shows "sum_list (map (item_size fl) xs) + (pg_upper p - pg_lower p) + 16 = length p"
  using assms old_sizes_sum [of p] by (simp add: holds_def)

lemma nd_rec_flags: "IS_LEAF fl' = IS_LEAF fl \<Longrightarrow> nd_rec fl' raw = nd_rec fl raw"
  by (simp add: nd_rec_def nd_payload_def nd_dlen_def)

text \<open>The bytes of a node, and their fields.\<close>

definition item_bytes :: "nat \<Rightarrow> node_item \<Rightarrow> byte list" where
  "item_bytes fl x = (case x of (k, d, pgno, flags) \<Rightarrow>
     if IS_LEAF fl then leaf_bytes k (the d) flags None else branch_bytes k pgno)"

lemma reserve_off: "flags < 65536 \<Longrightarrow> \<not> F_ISSET flags MDB_RESERVE"
proof
  assume "flags < 65536" "F_ISSET flags MDB_RESERVE"
  then have "bit (flags AND 65536) 16 = bit (65536 :: nat) 16" by (simp add: F_ISSET_def MDB_RESERVE_def)
  moreover have "bit (65536 :: nat) 16" by (simp add: bit_iff_odd)
  ultimately have "bit flags 16" by (simp add: bit_and_iff)
  then show False using \<open>flags < 65536\<close> by (simp add: bit_iff_odd)
qed

lemma item_bytes_fields:
  assumes "item_ok fl nodemax x"
  shows "8 \<le> length (item_bytes fl x)" "length (item_bytes fl x) \<le> item_size fl x - 2" "nd_len fl (item_bytes fl x) + 2 = item_size fl x"
    "nd_key (item_bytes fl x) = fst x" "nd_ksize (item_bytes fl x) = length (fst x)"
    "length (item_bytes fl x) = 8 + nd_ksize (item_bytes fl x) + nd_dlen fl (item_bytes fl x)"
    "nd_rec fl (item_bytes fl x) = item_rec fl x"
proof -
  obtain k d pgno flags where x: "x = (k, d, pgno, flags)" by (cases x) auto
  have k: "length k < 65536" using assms by (simp add: x)
  have "8 \<le> length (item_bytes fl x) \<and> length (item_bytes fl x) \<le> item_size fl x - 2 \<and> nd_len fl (item_bytes fl x) + 2 = item_size fl x \<and>
    nd_key (item_bytes fl x) = fst x \<and> nd_ksize (item_bytes fl x) = length (fst x) \<and>
    length (item_bytes fl x) = 8 + nd_ksize (item_bytes fl x) + nd_dlen fl (item_bytes fl x) \<and> nd_rec fl (item_bytes fl x) = item_rec fl x"
  proof (cases "IS_LEAF fl")
    case True
    then obtain v where v: "d = Some v" "mv_size v < 2 ^ 32" "flags < 65536" "item_dlen fl x \<le> length (mv_data v)"
      using assms by (auto simp: x)
    let ?lb = "leaf_bytes k v flags None"
    note f = leaf_bytes_fields [OF k v(2), of flags None]
    have pl: "new_payload v flags None = take (item_dlen fl x) (mv_data v)"
      using True reserve_off [OF v(3)] by (simp add: x v(1) new_payload_def slice_def)
    have dl: "nd_dlen fl ?lb = item_dlen fl x" using True f v(3) by (simp add: nd_dlen_def x v(1))
    have len: "length ?lb = 8 + length k + item_dlen fl x" using v(4) by (simp add: leaf_bytes_def pl)
    have "nd_payload fl ?lb = take (item_dlen fl x) (mv_data v)"
      unfolding nd_payload_def dl f(1) by (simp add: leaf_bytes_def slice_skip pl) (simp add: slice_def)
    then show ?thesis using f len dl True v EVEN_bounds(1) [of "8 + length k + item_dlen fl x"]
      by (simp add: item_bytes_def x nd_len_def nd_rec_def)
  next
    case False
    then have p: "pgno < 2 ^ 48" using assms by (simp add: x)
    let ?bb = "branch_bytes k pgno"
    note f = branch_bytes_fields [OF k p]
    show ?thesis using f False EVEN_bounds(1) [of "8 + length k"]
      by (simp add: item_bytes_def x nd_len_def nd_dlen_def nd_rec_def nd_payload_def) (simp add: branch_bytes_def)
  qed
  then show "8 \<le> length (item_bytes fl x)" "length (item_bytes fl x) \<le> item_size fl x - 2" "nd_len fl (item_bytes fl x) + 2 = item_size fl x"
    "nd_key (item_bytes fl x) = fst x" "nd_ksize (item_bytes fl x) = length (fst x)"
    "length (item_bytes fl x) = 8 + nd_ksize (item_bytes fl x) + nd_dlen fl (item_bytes fl x)"
    "nd_rec fl (item_bytes fl x) = item_rec fl x" by blast+
qed

lemma item_write:
  assumes ok: "item_ok fl nodemax (k, d, pgno, flags)" and room: "node + length (item_bytes fl (k, d, pgno, flags)) \<le> length p"
  shows "node_write p fl node (Some k) d pgno flags None = Some (splice p node (item_bytes fl (k, d, pgno, flags)), None)"
proof (cases "IS_LEAF fl")
  case True
  then obtain v where v: "d = Some v" using ok by auto
  have "length (new_payload v flags None) + length k + 8 = length (leaf_bytes k v flags None)" by (simp add: leaf_bytes_def)
  then show ?thesis
    using node_write_leaf [OF True, of node k v flags None p pgno] room ok True v by (auto simp: item_bytes_def split: if_splits)
next
  case False
  then show ?thesis using node_write_branch [OF False, of "Some k" k node p d pgno flags] room by (simp add: item_bytes_def branch_bytes_def)
qed

text \<open>The free space between the slots and the nodes is not written.\<close>

definition gap_kept :: "page \<Rightarrow> page \<Rightarrow> bool" where
  "gap_kept p p' \<longleftrightarrow> length p' = length p \<and> pg_flags p' = pg_flags p \<and> slice p' 0 8 = slice p 0 8 \<and>
     (\<forall>a. pg_lower p + 2 \<le> a \<longrightarrow> a + 2 \<le> pg_upper p' \<longrightarrow> slice p' a 2 = slice p a 2)"

lemma append_node:
  fixes st :: "'s na_state"
  assumes h: "holds fl p xs" and ok: "item_ok fl nodemax (k, d, pgno, flags)"
    and room: "sum_list (map (item_size fl) (xs @ [(k, d, pgno, flags)])) + 16 \<le> length p"
  shows "\<exists>p'. mdb_node_add page_alloc psize nodemax (st\<lparr>na_page := p\<rparr>) (length xs) (Some k) d pgno flags =
      Some (MDB_SUCCESS, st\<lparr>na_page := p'\<rparr>, None) \<and> holds fl p' (xs @ [(k, d, pgno, flags)]) \<and> gap_kept p p' \<and> pg_ptr p' (length xs) = pg_upper p'"
proof -
  let ?x = "(k, d, pgno, flags)" let ?b = "item_bytes fl ?x" let ?sz = "item_size fl ?x - 2"
  have inv: "page_inv p" and leaf: "IS_LEAF (pg_flags p) = IS_LEAF fl" using h by (auto simp: holds_def)
  note bd = page_inv_bounds [OF inv] page_inv_len [OF inv] and f = item_bytes_fields [OF ok]
  have n: "pg_n p = length xs" by (rule holds_n [OF h])
  have sz: "?sz = EVEN (8 + length k + item_dlen fl ?x)" by simp
  have fits: "pg_lower p + 2 + ?sz \<le> pg_upper p" using room holds_room [OF h] bd sz by simp
  have len: "nd_len (pg_flags p) ?b = ?sz" using f(3) nd_len_flags [OF leaf] by simp
  define ofs where "ofs = pg_upper p - ?sz"
  define p' where "p' = splice (slot_page p (length xs) ofs) ofs ?b"
  have ofs: "pg_lower p + 2 \<le> ofs" "ofs \<le> length p" "ofs + ?sz = pg_upper p" using fits bd by (auto simp: ofs_def)
  note sl = slot_page_laws [OF inv eq_refl [OF n [symmetric]] ofs(1,2)]
  have fl': "node_write q (pg_flags p) node (Some k) d pgno flags None = node_write q fl node (Some k) d pgno flags None" for q node
    using leaf by (simp add: node_write_def)
  have wr: "node_write (slot_page p (length xs) ofs) (pg_flags p) ofs (Some k) d pgno flags None = Some (p', None)"
    unfolding p'_def fl' using f(2) ofs bd sl(1) by (intro item_write [OF ok]) simp
  note ins = node_add_update_inserts [OF inv eq_refl [OF n [symmetric]] fits f(1,2) len wr [unfolded p'_def ofs_def], folded ofs_def p'_def]
  have up: "pg_upper p' = ofs" using ins(2) ofs unfolding node_inserted_def by linarith
  then have hd: "pg_flags p' = pg_flags p" "length p' = length p" "pg_upper p' = ofs" "ptrs p' = insert_at (length xs) ofs (ptrs p)"
    using ins(2) unfolding node_inserted_def by simp_all
  let ?raw = "node_at p' (pg_upper p')"
  note inv' = node_inserted_inv [OF inv ins(2)]
  have nodes: "page_nodes p' = page_nodes p @ [?raw]" using inv'(2) n by (simp add: insert_at_def)
  have b8: "8 + nd_ksize ?b + nd_dlen fl ?b \<le> length ?b" using f(6) by simp
  note fp = fields_of_prefix [OF ins(3) f(1) b8]
  have "nd_payload fl ?raw = nd_payload fl ?b"
  proof -
    have "take (nd_dlen fl ?b) (nd_payload fl ?raw) = take (nd_dlen fl ?b) (nd_payload fl ?b)" by (rule fp(8))
    moreover have "length (nd_payload fl ?raw) \<le> nd_dlen fl ?b" "length (nd_payload fl ?b) \<le> nd_dlen fl ?b"
      using fp(6) [of fl] by (simp_all add: nd_payload_def slice_def)
    ultimately show ?thesis by simp
  qed
  then have "nd_rec fl ?raw = nd_rec fl ?b" using fp(2,3,4,7) by (simp add: nd_rec_def)
  then have rec: "nd_rec fl ?raw = item_rec fl ?x" using f(7) by simp
  have "page_recs p' = page_recs p @ [nd_rec fl ?raw]"
    unfolding page_recs_def nodes hd(1) using nd_rec_flags [OF leaf] by simp
  moreover have "old_sizes p' = old_sizes p @ [nd_len fl ?raw + 2]"
    unfolding old_sizes_def nodes hd(1) using nd_len_flags [OF leaf] by simp
  moreover have "nd_len fl ?raw + 2 = item_size fl ?x" using fp(5) [of fl] f(3) by simp
  ultimately have "holds fl p' (xs @ [?x])" using h inv'(1) leaf hd(1) rec by (simp add: holds_def)
  moreover have "gap_kept p p'"
  proof -
    have sp: "slice p' a m = slice (slot_page p (length xs) ofs) a m" if "a + m \<le> ofs" for a m
      unfolding p'_def using that f(2) ofs bd sl(1) by (intro slice_splice_other) auto
    have "slice p' a 2 = slice p a 2" if "pg_lower p + 2 \<le> a" "a + 2 \<le> ofs" for a
      using sp [OF that(2)] sl(6) [OF that(1), of 2] that(2) ofs(2) by simp
    moreover have "slice (slot_page p (length xs) ofs) 0 8 = slice p 0 8"
      using n page_inv_lower [OF inv] ofs bd by (simp add: slot_page_def Let_def slice_splice_other)
    then have "slice p' 0 8 = slice p 0 8" using sp [of 0 8] ofs bd by simp
    ultimately show ?thesis using hd by (simp add: gap_kept_def)
  qed
  moreover have "pg_ptr p' (length xs) = pg_upper p'"
  proof -
    have "pg_n p' = Suc (length xs)" using holds_n [OF calculation(1)] by simp
    then have "pg_ptr p' (length xs) = ptrs p' ! length xs" by simp
    then show ?thesis using hd n by (simp add: nth_insert_at)
  qed
  moreover have "mdb_node_add page_alloc psize nodemax (st\<lparr>na_page := p\<rparr>) (length xs) (Some k) d pgno flags = Some (MDB_SUCCESS, st\<lparr>na_page := p'\<rparr>, None)"
  proof -
    have l2: "\<not> IS_LEAF2 (pg_flags p)" using inv by (simp add: page_inv_def)
    have room': "\<not> int ?sz > int (pg_upper p - pg_lower p) - 2" using fits by linarith
    show ?thesis
    proof (cases "IS_LEAF fl")
      case True
      then obtain v where v: "d = Some v" "even flags \<longrightarrow> 8 + length k + mv_size v \<le> nodemax" using ok by auto
      show ?thesis using ins(1) leaf True l2 bd room' v
        by (cases "odd flags") (simp_all add: mdb_node_add_def page_access NODESIZE_def Let_def)
    qed (use ins(1) leaf l2 bd room' in \<open>simp add: mdb_node_add_def page_access NODESIZE_def Let_def\<close>)
  qed
  ultimately show ?thesis by blast
qed

end
