(* ===== verification/Split_Loop.thy ===== *)
theory Split_Loop
  imports Split_Move
begin

text \<open>
  The loop that moves the nodes of a page that is split: first to the right page, then to the temporary copy.
\<close>

section \<open>The nodes to distribute\<close>

definition old_item :: "page \<Rightarrow> nat \<Rightarrow> node_item" where
  "old_item mp m = (let raw = page_nodes mp ! m in
     (nd_key raw, if IS_LEAF (pg_flags mp) then Some \<lparr>mv_size = nd_dsize raw, mv_data = drop (pg_ptr mp m + 8 + nd_ksize raw) mp\<rparr> else None,
      if IS_LEAF (pg_flags mp) then 0 else nd_pgno raw, nd_flags raw))"

definition new_item :: "split_args \<Rightarrow> node_item" where
  "new_item a = (let leaf = IS_LEAF (pg_flags (sa_mp a)) in
     (sa_key a, if leaf then sa_data a else None, if leaf then 0 else sa_pgno a, sa_flags a))"

definition split_items :: "split_args \<Rightarrow> node_item list" where
  "split_items a = insert_at (sa_newindx a) (new_item a) (map (old_item (sa_mp a)) [0..<pg_n (sa_mp a)])"

text \<open>The first node of a branch page has an empty key.\<close>

definition strip :: "nat \<Rightarrow> node_item \<Rightarrow> node_item" where
  "strip fl x = (if IS_LEAF fl then x else ([], snd x))"

fun seg :: "nat \<Rightarrow> node_item list \<Rightarrow> node_item list" where
  "seg fl [] = []"
| "seg fl (x # xs) = strip fl x # xs"

lemma seg_snoc: "seg fl (xs @ [x]) = seg fl xs @ [if xs = [] then strip fl x else x]"
  by (cases xs) auto

lemma length_seg [simp]: "length (seg fl xs) = length xs"
  by (cases xs) auto

lemma EVEN_mono: "m \<le> n \<Longrightarrow> EVEN m \<le> EVEN n"
  by (simp add: EVEN_def div_le_mono)

lemma item_size_strip: "item_size fl (strip fl x) \<le> item_size fl x"
  by (cases x) (auto simp: strip_def intro!: EVEN_mono)

lemma sum_seg: "sum_list (map (item_size fl) (seg fl xs)) \<le> sum_list (map (item_size fl) xs)"
  using item_size_strip by (cases xs) auto

lemma item_ok_strip: "item_ok fl nodemax x \<Longrightarrow> item_ok fl nodemax (strip fl x)"
  by (cases x) (auto simp: strip_def)

lemma length_split_items: "sa_newindx a \<le> pg_n (sa_mp a) \<Longrightarrow> length (split_items a) = Suc (pg_n (sa_mp a))"
  by (simp add: split_items_def)

text \<open>What the loop reads of the temporary slot array at index \<open>i\<close>.\<close>

definition slot_ok :: "split_args \<Rightarrow> page \<Rightarrow> nat \<Rightarrow> bool" where
  "slot_ok a copy i \<longleftrightarrow> i \<noteq> sa_newindx a \<longrightarrow>
     mp_ptr copy i = Some (pg_ptr (sa_mp a) (if i < sa_newindx a then i else i - 1))"

lemma split_node_item:
  assumes inv: "page_inv (sa_mp a)" and n: "sa_newindx a \<le> pg_n (sa_mp a)" and i: "i \<le> pg_n (sa_mp a)" and sl: "slot_ok a copy i"
  shows "split_node a copy i j = Some (if j = 0 then strip (pg_flags (sa_mp a)) (split_items a ! i) else split_items a ! i)"
proof -
  let ?mp = "sa_mp a" let ?fl = "pg_flags (sa_mp a)"
  have fl: "mp_flags ?mp = Some ?fl" using page_inv_len [OF inv] by (simp add: mp_flags_eq)
  show ?thesis
  proof (cases "i = sa_newindx a")
    case True
    then have "split_items a ! i = new_item a" using n by (simp add: split_items_def nth_insert_at)
    then show ?thesis using fl True by (simp add: split_node_def new_item_def Let_def strip_def)
  next
    case False
    define m where "m = (if i < sa_newindx a then i else i - 1)"
    have m: "m < pg_n ?mp" using False n i by (auto simp: m_def)
    have x: "split_items a ! i = old_item ?mp m" using False n i m by (auto simp: split_items_def nth_insert_at m_def)
    have ok: "node_ok ?mp (pg_ptr ?mp m)" by (rule page_inv_node [OF inv m])
    have raw: "page_nodes ?mp ! m = node_at ?mp (pg_ptr ?mp m)" using m by (simp add: page_nodes_def)
    note h = node_header_eq [OF node_ok_room [OF ok]] and f = node_at_fields [OF ok]
    have "length (nd_key (node_at ?mp (pg_ptr ?mp m))) = nd_ksize (drop (pg_ptr ?mp m) ?mp)"
      using f(1,6) nd_len_fields [of "drop (pg_ptr ?mp m) ?mp" ?fl] by (simp add: nd_key_def slice_def)
    then show ?thesis
      using fl False sl NODEKEY_eq [OF ok] h f(1-4) x
      by (simp add: split_node_def slot_ok_def m_def [symmetric] Let_def old_item_def raw NODESIZE_def strip_def)
  qed
qed

section \<open>One node\<close>

lemma move_one_spec:
  fixes s :: "'s move_state"
  assumes inv: "page_inv (sa_mp a)" and n: "sa_newindx a \<le> pg_n (sa_mp a)" and i: "mv_i s \<le> pg_n (sa_mp a)" and sl: "slot_ok a (mv_copy s) (mv_i s)"
  defines "fl \<equiv> pg_flags (sa_mp a)" and "x \<equiv> split_items a ! mv_i s"
  assumes h: "holds fl (move_target s) (seg fl ys)" and j: "mv_j s = length ys" and ok: "item_ok fl nodemax x"
    and room: "sum_list (map (item_size fl) (ys @ [x])) + 16 \<le> length (move_target s)"
  shows "\<exists>p'. move_one page_alloc psize nodemax a s =
      Some (MDB_SUCCESS, move_store (s\<lparr>mv_ki := if mv_i s = sa_newindx a then mv_j s else mv_ki s\<rparr>) ((mv_na s)\<lparr>na_page := p'\<rparr>)) \<and>
    holds fl p' (seg fl (ys @ [x])) \<and> gap_kept (move_target s) p' \<and> pg_ptr p' (length ys) = pg_upper p'"
proof -
  define y where "y = (if ys = [] then strip fl x else x)"
  obtain k d pgno flags where y: "y = (k, d, pgno, flags)" by (cases y) auto
  have node: "split_node a (mv_copy s) (mv_i s) (mv_j s) = Some (k, d, pgno, flags)"
    using split_node_item [OF inv n i sl, of "mv_j s"] j y by (auto simp: y_def x_def fl_def)
  have seg: "seg fl (ys @ [x]) = seg fl ys @ [y]" by (simp add: seg_snoc y_def)
  have "item_ok fl nodemax y" using ok item_ok_strip by (simp add: y_def)
  moreover have "sum_list (map (item_size fl) (seg fl ys @ [y])) + 16 \<le> length (move_target s)"
    using room sum_seg [of fl "ys @ [x]"] unfolding seg by simp
  ultimately obtain p' where p': "mdb_node_add page_alloc psize nodemax ((mv_na s)\<lparr>na_page := move_target s\<rparr>) (length (seg fl ys)) (Some k) d pgno flags =
      Some (MDB_SUCCESS, (mv_na s)\<lparr>na_page := p'\<rparr>, None)" "holds fl p' (seg fl ys @ [y])" "gap_kept (move_target s) p'" "pg_ptr p' (length (seg fl ys)) = pg_upper p'"
    using append_node [OF h, of nodemax k d pgno flags page_alloc psize "mv_na s"] unfolding y by blast
  have "move_one page_alloc psize nodemax a s =
      Some (MDB_SUCCESS, move_store (s\<lparr>mv_ki := if mv_i s = sa_newindx a then mv_j s else mv_ki s\<rparr>) ((mv_na s)\<lparr>na_page := p'\<rparr>))"
    using p'(1) node unfolding j
    by (cases "mv_left s"; cases "mv_i s = sa_newindx a") (simp_all add: move_one_def j Let_def move_target_def move_store_def)
  then show ?thesis using p'(2-4) unfolding seg by auto
qed

section \<open>The loop\<close>

text \<open>The page, the temporary slots and the split point are fit for the loop.\<close>

definition splittable :: "split_args \<Rightarrow> nat \<Rightarrow> nat \<Rightarrow> bool" where
  "splittable a psize nodemax \<longleftrightarrow> page_inv (sa_mp a) \<and> sa_nkeys a = pg_n (sa_mp a) \<and> sa_newindx a \<le> pg_n (sa_mp a) \<and>
     0 < sa_split a \<and> sa_split a \<le> pg_n (sa_mp a) \<and> (\<forall>x \<in> set (split_items a). item_ok (pg_flags (sa_mp a)) nodemax x) \<and>
     sum_list (map (item_size (pg_flags (sa_mp a))) (take (sa_split a) (split_items a))) + 16 \<le> psize \<and>
     sum_list (map (item_size (pg_flags (sa_mp a))) (drop (sa_split a) (split_items a))) + 16 \<le> psize"

lemma item_sum_take: "i \<le> j \<Longrightarrow> sum_list (map (item_size fl) (take i xs)) \<le> sum_list (map (item_size fl) (take j xs))"
  using sum_take_mono [of i j "map (item_size fl) xs"] by (simp add: take_map)

lemma item_sum_rest:
  assumes "i \<le> j" "j \<le> length xs"
  shows "sum_list (map (item_size fl) (take i xs)) + 2 * (j - i) \<le> sum_list (map (item_size fl) (take j xs))"
proof -
  have "2 * length ys \<le> sum_list (map (item_size fl) ys)" for ys
  proof (induction ys)
    case (Cons y ys)
    have "2 \<le> item_size fl y" by (cases y) simp
    then show ?case using Cons by simp
  qed simp
  from this [of "drop i (take j xs)"] show ?thesis
    using assms sum_take_drop [of i "map (item_size fl) (take j xs)"] by (simp add: take_map drop_map min.absorb1 min.absorb2)
qed

lemma gap_kept_trans:
  assumes "gap_kept p q" "gap_kept q r" shows "length r = length p" "pg_flags r = pg_flags p" "slice r 0 8 = slice p 0 8"
  using assms by (simp_all add: gap_kept_def)

lemma move_left:
  fixes s :: "'s move_state"
  assumes sp: "splittable a psize nodemax" and i: "mv_left s" "mv_j s = mv_i s" "mv_i s < sa_split a"
  defines "fl \<equiv> pg_flags (sa_mp a)" and "X \<equiv> split_items a"
  assumes h: "holds fl (mv_copy s) (seg fl (take (mv_i s) X))" and len: "length (mv_copy s) = psize"
    and sl: "\<And>m. mv_i s \<le> m \<Longrightarrow> m < sa_split a \<Longrightarrow> slot_ok a (mv_copy s) m"
  shows "\<exists>c. move_loop page_alloc psize nodemax a s = Some (MDB_SUCCESS, s\<lparr>mv_i := sa_split a, mv_j := sa_split a, mv_copy := c,
      mv_ki := if mv_i s \<le> sa_newindx a \<and> sa_newindx a < sa_split a then sa_newindx a else mv_ki s, mv_na := (mv_na s)\<lparr>na_page := c\<rparr>\<rparr>) \<and>
    holds fl c (seg fl (take (sa_split a) X)) \<and> length c = psize \<and> pg_flags c = pg_flags (mv_copy s) \<and> slice c 0 8 = slice (mv_copy s) 0 8 \<and>
    pg_ptr c (sa_split a - 1) = pg_upper c"
  using i h len sl
proof (induction "sa_split a - mv_i s" arbitrary: s rule: less_induct)
  case less
  let ?i = "mv_i s" let ?x = "X ! mv_i s"
  have inv: "page_inv (sa_mp a)" and n: "sa_nkeys a = pg_n (sa_mp a)" "sa_newindx a \<le> pg_n (sa_mp a)" "sa_split a \<le> pg_n (sa_mp a)"
    and ok: "\<And>x. x \<in> set X \<Longrightarrow> item_ok fl nodemax x" and room: "sum_list (map (item_size fl) (take (sa_split a) X)) + 16 \<le> psize"
    using sp by (auto simp: splittable_def fl_def X_def)
  have lX: "length X = Suc (pg_n (sa_mp a))" using n by (simp add: X_def length_split_items)
  have iX: "?i < length X" "?i \<le> pg_n (sa_mp a)" using less.prems(3) n lX by auto
  have snoc: "take (Suc ?i) X = take ?i X @ [?x]" using iX by (simp add: take_Suc_conv_app_nth)
  have tgt: "move_target s = mv_copy s" using less.prems(1) by (simp add: move_target_def)
  have r: "sum_list (map (item_size fl) (take ?i X @ [?x])) + 16 \<le> length (move_target s)"
    using room item_sum_take [of "Suc ?i" "sa_split a" fl X] less.prems(3,5) unfolding snoc tgt by simp
  have h1: "holds fl (move_target s) (seg fl (take ?i X))" using less.prems(4) tgt by simp
  have j1: "mv_j s = length (take ?i X)" using less.prems(2) iX by simp
  have ok1: "item_ok fl nodemax ?x" using ok iX by simp
  obtain p' where one: "move_one page_alloc psize nodemax a s =
      Some (MDB_SUCCESS, move_store (s\<lparr>mv_ki := if ?i = sa_newindx a then mv_j s else mv_ki s\<rparr>) ((mv_na s)\<lparr>na_page := p'\<rparr>))"
    and p': "holds fl p' (seg fl (take (Suc ?i) X))" "gap_kept (mv_copy s) p'" "pg_ptr p' ?i = pg_upper p'"
    using move_one_spec [OF inv n(2) iX(2) less.prems(6) [OF order_refl less.prems(3)], folded fl_def X_def, OF h1 j1 ok1 r, of page_alloc psize]
    unfolding snoc tgt j1 [symmetric] less.prems(2) by blast
  define s1 where "s1 = s\<lparr>mv_ki := if ?i = sa_newindx a then ?i else mv_ki s, mv_na := (mv_na s)\<lparr>na_page := p'\<rparr>, mv_copy := p',
    mv_i := Suc ?i, mv_j := Suc ?i\<rparr>"
  have nxt: "move_next a (move_store (s\<lparr>mv_ki := if ?i = sa_newindx a then mv_j s else mv_ki s\<rparr>) ((mv_na s)\<lparr>na_page := p'\<rparr>)) = s1"
    using less.prems(1-3) n by (simp add: move_next_def move_store_def Let_def s1_def)
  have unf: "move_loop page_alloc psize nodemax a s = (if Suc ?i \<noteq> sa_split a then move_loop page_alloc psize nodemax a s1 else Some (MDB_SUCCESS, s1))"
    unfolding move_loop.simps [of page_alloc psize nodemax a s] by (simp add: one nxt) (simp add: s1_def)
  have len': "length p' = psize" using p'(2) less.prems(5) by (simp add: gap_kept_def)
  show ?case
  proof (cases "Suc ?i = sa_split a")
    case True
    then have "s1 = s\<lparr>mv_i := sa_split a, mv_j := sa_split a, mv_copy := p',
      mv_ki := if ?i \<le> sa_newindx a \<and> sa_newindx a < sa_split a then sa_newindx a else mv_ki s, mv_na := (mv_na s)\<lparr>na_page := p'\<rparr>\<rparr>"
      by (auto simp: s1_def)
    moreover have "pg_ptr p' (sa_split a - 1) = pg_upper p'" using p'(3) True by (metis diff_Suc_1)
    ultimately show ?thesis using unf True p'(1,2) len' by (intro exI [of _ p']) (simp add: gap_kept_def)
  next
    case False
    have low: "pg_lower (mv_copy s) = 16 + 2 * ?i" "pg_lower p' = 18 + 2 * ?i"
      using holds_n [OF less.prems(4)] holds_n [OF p'(1)] iX page_inv_lower [of "mv_copy s"] page_inv_lower [of p'] less.prems(4) p'(1)
      by (auto simp: holds_def)
    have "sum_list (map (item_size fl) (take (Suc ?i) X)) + 2 * (sa_split a - Suc ?i) \<le> sum_list (map (item_size fl) (take (sa_split a) X))"
      using less.prems(3) lX n(3) by (intro item_sum_rest) auto
    then have up: "16 + 2 * sa_split a \<le> pg_upper p'"
      using holds_room [OF p'(1)] sum_seg [of fl "take (Suc ?i) X"] room len' low(2) less.prems(3) p'(1) page_inv_bounds(2) [of p'] by (simp add: holds_def)
    have "slot_ok a p' m" if m: "Suc ?i \<le> m" "m < sa_split a" for m
    proof -
      have "slice p' (16 + 2 * m) 2 = slice (mv_copy s) (16 + 2 * m) 2" using p'(2) m low up unfolding gap_kept_def by auto
      then have "pg_ptr p' m = pg_ptr (mv_copy s) m" by (simp add: pg_ptr_def)
      moreover have "18 + 2 * m \<le> psize" using m up page_inv_bounds(3) [of p'] p'(1) len' by (auto simp: holds_def)
      ultimately have "mp_ptr p' m = mp_ptr (mv_copy s) m" using len' less.prems(5) by (simp add: mp_ptr_eq)
      then show ?thesis using less.prems(6) [of m] m by (simp add: slot_ok_def)
    qed
    moreover have s1: "mv_left s1" "mv_j s1 = mv_i s1" "mv_i s1 < sa_split a" "mv_i s1 = Suc ?i" "mv_copy s1 = p'" "sa_split a - mv_i s1 < sa_split a - ?i"
      using less.prems(1,3) False by (simp_all add: s1_def)
    ultimately obtain c where c: "move_loop page_alloc psize nodemax a s1 = Some (MDB_SUCCESS, s1\<lparr>mv_i := sa_split a, mv_j := sa_split a, mv_copy := c,
        mv_ki := if mv_i s1 \<le> sa_newindx a \<and> sa_newindx a < sa_split a then sa_newindx a else mv_ki s1, mv_na := (mv_na s1)\<lparr>na_page := c\<rparr>\<rparr>)"
      "holds fl c (seg fl (take (sa_split a) X))" "length c = psize" "pg_flags c = pg_flags p'" "slice c 0 8 = slice p' 0 8" "pg_ptr c (sa_split a - 1) = pg_upper c"
      using less.hyps [OF s1(6,1,2,3)] p'(1) len' unfolding s1(4,5) by blast
    have "s1\<lparr>mv_i := sa_split a, mv_j := sa_split a, mv_copy := c,
        mv_ki := if mv_i s1 \<le> sa_newindx a \<and> sa_newindx a < sa_split a then sa_newindx a else mv_ki s1, mv_na := (mv_na s1)\<lparr>na_page := c\<rparr>\<rparr> =
      s\<lparr>mv_i := sa_split a, mv_j := sa_split a, mv_copy := c,
        mv_ki := if ?i \<le> sa_newindx a \<and> sa_newindx a < sa_split a then sa_newindx a else mv_ki s, mv_na := (mv_na s)\<lparr>na_page := c\<rparr>\<rparr>"
      using less.prems(3) by (auto simp: s1_def)
    then show ?thesis using unf False c p'(2) by (intro exI [of _ c]) (simp add: gap_kept_def)
  qed
qed

text \<open>The nodes from the split point on go to the right page.\<close>

lemma move_right:
  fixes s :: "'s move_state"
  assumes sp: "splittable a psize nodemax" and i: "\<not> mv_left s" "mv_i s = sa_split a + mv_j s" "mv_i s \<le> pg_n (sa_mp a)"
  defines "fl \<equiv> pg_flags (sa_mp a)" and "Y \<equiv> drop (sa_split a) (split_items a)"
  assumes h: "holds fl (mv_rp s) (seg fl (take (mv_j s) Y))" and len: "length (mv_rp s) = psize"
    and sl: "\<And>m. m \<le> pg_n (sa_mp a) \<Longrightarrow> slot_ok a (mv_copy s) m"
  shows "\<exists>q. move_loop page_alloc psize nodemax a s = move_loop page_alloc psize nodemax a (s\<lparr>mv_i := 0, mv_j := 0, mv_left := True, mv_rp := q,
      mv_ki := if mv_i s \<le> sa_newindx a then sa_newindx a - sa_split a else mv_ki s, mv_na := (mv_na s)\<lparr>na_page := q\<rparr>\<rparr>) \<and>
    holds fl q (seg fl Y) \<and> length q = psize \<and> pg_flags q = pg_flags (mv_rp s) \<and> slice q 0 8 = slice (mv_rp s) 0 8"
  using i h len sl
proof (induction "pg_n (sa_mp a) - mv_i s" arbitrary: s rule: less_induct)
  case less
  let ?j = "mv_j s" let ?x = "split_items a ! mv_i s"
  have inv: "page_inv (sa_mp a)" and n: "sa_nkeys a = pg_n (sa_mp a)" "sa_newindx a \<le> pg_n (sa_mp a)" "0 < sa_split a" "sa_split a \<le> pg_n (sa_mp a)"
    and ok: "\<And>x. x \<in> set (split_items a) \<Longrightarrow> item_ok fl nodemax x" and room: "sum_list (map (item_size fl) Y) + 16 \<le> psize"
    using sp by (auto simp: splittable_def fl_def Y_def)
  have lX: "length (split_items a) = Suc (pg_n (sa_mp a))" using n by (simp add: length_split_items)
  have jY: "?j < length Y" "Y ! ?j = ?x" using less.prems(2,3) n lX by (auto simp: Y_def)
  have snoc: "take (Suc ?j) Y = take ?j Y @ [?x]" using jY by (simp add: take_Suc_conv_app_nth)
  have tgt: "move_target s = mv_rp s" using less.prems(1) by (simp add: move_target_def)
  have r: "sum_list (map (item_size fl) (take ?j Y @ [?x])) + 16 \<le> length (move_target s)"
    using room item_sum_take [of "Suc ?j" "length Y" fl Y] jY(1) less.prems(5) unfolding snoc tgt by simp
  have h1: "holds fl (move_target s) (seg fl (take ?j Y))" using less.prems(4) tgt by simp
  have j1: "?j = length (take ?j Y)" using jY by simp
  have ok1: "item_ok fl nodemax ?x" using ok lX less.prems(3) by simp
  obtain p' where one: "move_one page_alloc psize nodemax a s =
      Some (MDB_SUCCESS, move_store (s\<lparr>mv_ki := if mv_i s = sa_newindx a then ?j else mv_ki s\<rparr>) ((mv_na s)\<lparr>na_page := p'\<rparr>))"
    and p': "holds fl p' (seg fl (take (Suc ?j) Y))" "gap_kept (mv_rp s) p'"
    using move_one_spec [OF inv n(2) less.prems(3) less.prems(6) [OF less.prems(3)], folded fl_def, OF h1 j1 ok1 r, of page_alloc psize]
    unfolding snoc tgt by blast
  have len': "length p' = psize" using p'(2) less.prems(5) by (simp add: gap_kept_def)
  define ki where "ki = (if mv_i s = sa_newindx a then ?j else mv_ki s)"
  show ?case
  proof (cases "mv_i s = pg_n (sa_mp a)")
    case True
    let ?s = "s\<lparr>mv_i := 0, mv_j := 0, mv_left := True, mv_rp := p', mv_ki := ki, mv_na := (mv_na s)\<lparr>na_page := p'\<rparr>\<rparr>"
    have "move_next a (move_store (s\<lparr>mv_ki := ki\<rparr>) ((mv_na s)\<lparr>na_page := p'\<rparr>)) = ?s"
      using True less.prems(1) n by (simp add: move_next_def move_store_def Let_def)
    then have "move_loop page_alloc psize nodemax a s = move_loop page_alloc psize nodemax a ?s"
      unfolding move_loop.simps [of page_alloc psize nodemax a s] using n(3) one by (simp add: ki_def)
    moreover have "take (Suc ?j) Y = Y" using True less.prems(2) lX n(4) by (simp add: Y_def)
    moreover have "ki = (if mv_i s \<le> sa_newindx a then sa_newindx a - sa_split a else mv_ki s)" using True less.prems(2) n(2) by (auto simp: ki_def)
    ultimately show ?thesis using p' len' by (intro exI [of _ p']) (simp add: gap_kept_def)
  next
    case False
    define s1 where "s1 = s\<lparr>mv_ki := ki, mv_na := (mv_na s)\<lparr>na_page := p'\<rparr>, mv_rp := p', mv_i := Suc (mv_i s), mv_j := Suc ?j\<rparr>"
    have "move_next a (move_store (s\<lparr>mv_ki := ki\<rparr>) ((mv_na s)\<lparr>na_page := p'\<rparr>)) = s1"
      using False less.prems(1) n by (simp add: move_next_def move_store_def Let_def s1_def)
    moreover have "mv_i s1 \<noteq> sa_split a" using less.prems(2) by (simp add: s1_def)
    ultimately have unf: "move_loop page_alloc psize nodemax a s = move_loop page_alloc psize nodemax a s1"
      unfolding move_loop.simps [of page_alloc psize nodemax a s] using one by (simp add: ki_def)
    have s1: "\<not> mv_left s1" "mv_i s1 = sa_split a + mv_j s1" "mv_i s1 \<le> pg_n (sa_mp a)" "mv_j s1 = Suc ?j" "mv_rp s1 = p'" "mv_copy s1 = mv_copy s"
      "pg_n (sa_mp a) - mv_i s1 < pg_n (sa_mp a) - mv_i s" using less.prems(1-3) False by (simp_all add: s1_def)
    obtain q where q: "move_loop page_alloc psize nodemax a s1 = move_loop page_alloc psize nodemax a (s1\<lparr>mv_i := 0, mv_j := 0, mv_left := True, mv_rp := q,
        mv_ki := if mv_i s1 \<le> sa_newindx a then sa_newindx a - sa_split a else mv_ki s1, mv_na := (mv_na s1)\<lparr>na_page := q\<rparr>\<rparr>)"
      "holds fl q (seg fl Y)" "length q = psize" "pg_flags q = pg_flags p'" "slice q 0 8 = slice p' 0 8"
      using less.hyps [OF s1(7,1,2,3)] p'(1) len' less.prems(6) unfolding s1(4,5,6) by blast
    have "s1\<lparr>mv_i := 0, mv_j := 0, mv_left := True, mv_rp := q,
        mv_ki := if mv_i s1 \<le> sa_newindx a then sa_newindx a - sa_split a else mv_ki s1, mv_na := (mv_na s1)\<lparr>na_page := q\<rparr>\<rparr> =
      s\<lparr>mv_i := 0, mv_j := 0, mv_left := True, mv_rp := q,
        mv_ki := if mv_i s \<le> sa_newindx a then sa_newindx a - sa_split a else mv_ki s, mv_na := (mv_na s)\<lparr>na_page := q\<rparr>\<rparr>"
      using less.prems(2) by (auto simp: s1_def ki_def)
    then show ?thesis using unf q p'(2) by (intro exI [of _ q]) (simp add: gap_kept_def)
  qed
qed

section \<open>Copying back\<close>

lemma le_bytes_w16: "a + 2 \<le> length p \<Longrightarrow> le_bytes 2 (w16 p a) = slice p a 2"
  using le_bytes_le_nat [of "slice p a 2"] by (metis length_slice)

lemma back_ptrs_spec:
  assumes "16 + 2 * (i + n) \<le> length mp" "16 + 2 * (i + n) \<le> length copy"
  shows "\<exists>q. back_ptrs mp copy i n = Some q \<and> length q = length mp \<and> slice q (16 + 2 * i) (2 * n) = slice copy (16 + 2 * i) (2 * n) \<and>
    (\<forall>a k. a + k \<le> 16 + 2 * i \<longrightarrow> slice q a k = slice mp a k)"
  using assms
proof (induction n arbitrary: mp i)
  case (Suc n)
  let ?o = "16 + 2 * i" let ?q = "splice mp (16 + 2 * i) (slice copy (16 + 2 * i) 2)"
  have "le_bytes 2 (pg_ptr copy i) = slice copy ?o 2" unfolding pg_ptr_def using Suc.prems by (intro le_bytes_w16) simp
  then have eq: "back_ptrs mp copy i (Suc n) = back_ptrs ?q copy (i + 1) n"
    using Suc.prems by (simp add: mp_ptr_eq byte_simps PAGEHDRSZ_def)
  obtain q where q: "back_ptrs ?q copy (i + 1) n = Some q" "length q = length mp" "slice q (?o + 2) (2 * n) = slice copy (?o + 2) (2 * n)"
    "\<And>a k. a + k \<le> ?o + 2 \<Longrightarrow> slice q a k = slice ?q a k" using Suc.IH [of "i + 1" ?q] Suc.prems by auto
  have "slice q ?o 2 = slice copy ?o 2" using q(4) [of ?o 2] Suc.prems by simp
  then have "slice q ?o (2 * Suc n) = slice copy ?o (2 * Suc n)" using q(3) slice_append [of q ?o 2 "2 * n"] slice_append [of copy ?o 2 "2 * n"] by simp
  moreover have "slice q a k = slice mp a k" if "a + k \<le> ?o" for a k
    using q(4) [of a k] that Suc.prems by (simp add: slice_splice_other)
  ultimately show ?case using eq q(1,2) by auto
qed auto

text \<open>The left page has the nodes of the temporary one; the last of them is the lowest.\<close>

lemma copy_back_spec:
  assumes inv: "page_inv c" and len: "length c = psize" "length mp = psize" and n: "0 < pg_n c" and last: "pg_ptr c (pg_n c - 1) = pg_upper c"
    and fl: "pg_flags c = pg_flags mp"
  shows "\<exists>q. copy_back mp c psize = Some q \<and> page_inv q \<and> length q = psize \<and> page_nodes q = page_nodes c \<and> pg_flags q = pg_flags mp \<and> mp_pgno q = mp_pgno mp"
proof -
  note b = page_inv_bounds [OF inv] page_inv_len [OF inv] page_inv_lower [OF inv]
  let ?n = "pg_n c" let ?u = "pg_upper c" let ?l = "pg_lower c"
  have nn: "16 + 2 * (0 + ?n) \<le> length mp" "16 + 2 * (0 + ?n) \<le> length c" using b len by auto
  obtain q1 where q1: "back_ptrs mp c 0 ?n = Some q1" "length q1 = psize" "slice q1 16 (2 * ?n) = slice c 16 (2 * ?n)"
    "\<And>a k. a + k \<le> 16 \<Longrightarrow> slice q1 a k = slice mp a k"
    using back_ptrs_spec [OF nn] len by auto
  let ?q2 = "splice q1 12 (le_bytes 2 ?l)" let ?q3 = "splice (splice q1 12 (le_bytes 2 ?l)) 14 (le_bytes 2 ?u)"
  define q where "q = splice ?q3 ?u (slice c ?u (psize - ?u))"
  have ls: "length ?q3 = psize" "length q = psize" "length ?q2 = psize" using q1(2) b len by (simp_all add: q_def)
  have hi: "slice q a k = slice c a k" if "?u \<le> a" "a + k \<le> psize" for a k
  proof -
    have "slice q a k = slice (slice c ?u (psize - ?u)) (a - ?u) k"
      unfolding q_def using that ls b len by (subst slice_splice_inside) auto
    then show ?thesis using that b len by (simp add: slice_slice)
  qed
  have lo: "slice q a k = slice ?q3 a k" if "a + k \<le> ?u" for a k
    unfolding q_def using that ls b len by (intro slice_splice_other) auto
  have head: "slice q 12 4 = slice c 12 4"
  proof -
    have l: "le_bytes 2 ?l = slice c 12 2" "le_bytes 2 ?u = slice c 14 2"
      unfolding pg_lower_def pg_upper_def using b by (simp_all add: le_bytes_w16)
    have "?q3 = splice q1 12 (slice c 12 2 @ slice c 14 2)" unfolding l using q1(2) b len by (intro splice_above) auto
    moreover have "slice c 12 2 @ slice c 14 2 = slice c 12 4" using slice_append [of c 12 2 2] by simp
    ultimately have "slice ?q3 12 4 = slice c 12 4" using q1(2) b len by simp
    then show ?thesis using lo [of 12 4] b by simp
  qed
  have slots: "slice q 16 (2 * ?n) = slice c 16 (2 * ?n)"
  proof -
    have "slice ?q3 16 (2 * ?n) = slice q1 16 (2 * ?n)" using q1(2) nn len by (simp add: slice_splice_other)
    then show ?thesis using lo [of 16 "2 * ?n"] b q1(3) by simp
  qed
  have low: "slice q a k = slice c a k" if "12 \<le> a" "a + k \<le> ?l" for a k
  proof -
    have all: "slice q 12 (4 + 2 * ?n) = slice c 12 (4 + 2 * ?n)" using head slots by (simp add: slice_append)
    have "slice (slice q 12 (4 + 2 * ?n)) (a - 12) k = slice q a k" "slice (slice c 12 (4 + 2 * ?n)) (a - 12) k = slice c a k"
      using that b len ls by (simp_all add: slice_slice)
    then show ?thesis using all by simp
  qed
  have first: "slice q a k = slice mp a k" if "a + k \<le> 12" for a k
    using lo [of a k] q1(4) [of a k] that q1(2) b len by (simp add: slice_splice_other)
  have flq: "pg_flags q = pg_flags mp" using first [of 10 2] by (simp add: pg_flags_def)
  have ok: "node_ok c a" if "a \<in> set (ptrs c)" for a using inv that by (simp add: page_inv_def)
  have nodes: "nd_len (pg_flags q) (drop a q) = nd_len (pg_flags c) (drop a c)" "node_at q a = node_at c a" if "a \<in> set (ptrs c)" for a
    using node_same [of q c a a] flq fl ls len hi ok [OF that] by (auto simp: node_ok_def)
  have l2: "\<not> IS_LEAF2 (pg_flags q)" using inv flq fl by (simp add: page_inv_def)
  have lq: "length q = length c" using ls len by simp
  note s = same_slots [OF inv lq low l2 nodes(1)]
  have "page_nodes q = page_nodes c" using nodes(2) s(2) by (simp add: page_nodes_def)
  moreover have "mp_pgno q = mp_pgno mp" using first [of 0 8] ls len b by (simp add: mp_pgno_def byte_simps)
  moreover have "copy_back mp c psize = Some q"
  proof -
    have p3: "pg_ptr ?q3 (?n - 1) = ?u"
    proof -
      have "pg_ptr q1 (?n - 1) = pg_ptr c (?n - 1)"
        using arg_cong [OF q1(3), of "\<lambda>x. slice x (2 * (?n - 1)) 2"] n nn q1(2) len by (simp add: slice_slice pg_ptr_def add.commute)
      moreover have "pg_ptr ?q3 (?n - 1) = pg_ptr q1 (?n - 1)" unfolding pg_ptr_def using n nn q1(2) len by (simp add: slice_splice_other)
      ultimately show ?thesis using last by simp
    qed
    have n1: "16 + 2 * (?n - 1) + 2 \<le> psize" using n nn len by simp
    show ?thesis using b len q1(1,2) n ls p3 last n1
      by (simp add: copy_back_def page_access byte_simps q_def)
  qed
  ultimately show ?thesis using s(1) ls(2) flq by blast
qed

end
