(* ===== verification/Split_Spec.thy ===== *)
theory Split_Spec
  imports Split_Loop
begin

text \<open>
  Splitting a page keeps all nodes in order, both pages are well formed, and the separator is the key at the split point.
\<close>

section \<open>The preparation\<close>

text \<open>A page that is full: the new node, which takes at most half a page like the old ones, does not fit.\<close>

definition split_ok :: "page \<Rightarrow> nat \<Rightarrow> nat \<Rightarrow> nat \<Rightarrow> byte list \<Rightarrow> mdb_val option \<Rightarrow> nat \<Rightarrow> nat \<Rightarrow> bool" where
  "split_ok mp psize nodemax newindx key data pgno flags \<longleftrightarrow> page_inv mp \<and> length mp = psize \<and> newindx \<le> pg_n mp \<and>
     (\<forall>x \<in> set (old_sizes mp). 2 * x \<le> psize - 16) \<and> length key < 65536 \<and>
     (if IS_LEAF (pg_flags mp) then
        (\<forall>raw \<in> set (page_nodes mp). even (nd_flags raw) \<longrightarrow> 8 + nd_ksize raw + nd_dsize raw \<le> nodemax) \<and>
        (\<exists>d. data = Some d \<and> mv_size d \<le> length (mv_data d) \<and> mv_size d < 2 ^ 32 \<and> flags < 65536 \<and> even flags \<and> 8 + length key + mv_size d \<le> nodemax \<and>
          2 * (EVEN (8 + length key + mv_size d) + 2) \<le> psize - 16 \<and> pg_upper mp - pg_lower mp < EVEN (8 + length key + mv_size d) + 2)
      else 0 < newindx \<and> pgno < 2 ^ 48 \<and> nd_key (page_nodes mp ! 0) = [] \<and>
        2 * (EVEN (8 + length key) + 2) \<le> psize - 16 \<and> pg_upper mp - pg_lower mp < EVEN (8 + length key) + 2)"

lemma split_copy_spec:
  assumes inv: "page_inv mp" and len: "length mp = psize" "length buf = psize" and n: "0 < pg_n mp"
  shows "\<exists>c. split_copy buf mp psize newindx (pg_n mp) = Some c \<and> slots_copied mp c newindx \<and> length c = psize \<and>
    pg_flags c = pg_flags mp \<and> pg_lower c = 16 \<and> pg_upper c = psize \<and> slice c 0 8 = slice mp 0 8"
proof -
  note b = page_inv_bounds [OF inv] page_inv_len [OF inv]
  have room: "18 + 2 * pg_n mp \<le> psize" using page_inv_room [OF inv order_refl n] len by simp
  let ?c0 = "splice (splice (splice (splice buf 0 (slice mp 0 8)) 10 (le_bytes 2 (pg_flags mp))) 12 (le_bytes 2 16)) 14 (le_bytes 2 psize)"
  have l0: "length ?c0 = psize" using room len by simp
  have eq: "split_copy buf mp psize newindx (pg_n mp) = copy_ptrs ?c0 mp newindx (pg_n mp) 0 0"
    using room len b by (simp add: split_copy_def byte_simps mp_flags_eq PAGEHDRSZ_def)
  obtain c where c: "copy_ptrs ?c0 mp newindx (pg_n mp) 0 0 = Some c" "length c = psize" "\<And>a k. a + k \<le> 16 \<Longrightarrow> slice c a k = slice ?c0 a k"
    "\<And>m. m < pg_n mp \<Longrightarrow> pg_ptr c (gap newindx m) = pg_ptr mp m"
    using copy_ptrs_spec [of "pg_n mp" ?c0 mp 0 0 newindx] room l0 len by auto
  have "pg_flags mp < 65536" "psize < 65536" using pg_bounds(3) b len by auto
  then have "pg_flags c = pg_flags mp" "pg_lower c = 16" "pg_upper c = psize" "slice c 0 8 = slice mp 0 8"
    using room len b unfolding pg_flags_def [of c] pg_lower_def pg_upper_def by (simp_all add: c(3) slice_splice_other)
  then show ?thesis using eq c room by (auto simp: slots_copied_def)
qed

lemma empty_holds:
  assumes "length p = psize" "16 \<le> psize" "psize \<le> 32768" "pg_lower p = 16" "pg_upper p = psize" "\<not> IS_LEAF2 (pg_flags p)" "IS_LEAF (pg_flags p) = IS_LEAF fl"
  shows "holds fl p []"
proof -
  have "pg_n p = 0" using assms(4) by (simp add: pg_n_def)
  then have "ptrs p = []" "page_nodes p = []" by (simp_all add: ptrs_def page_nodes_def)
  then show ?thesis using assms by (simp add: holds_def page_inv_def page_recs_def old_sizes_def)
qed

section \<open>The nodes\<close>

lemma nd_bounds:
  assumes "8 \<le> length raw" shows "nd_ksize raw < 65536" "nd_flags raw < 65536" "nd_dsize raw < 2 ^ 32" "nd_pgno raw < 2 ^ 48"
proof -
  have w: "w16 raw 0 < 65536" "w16 raw 2 < 65536" "w16 raw 4 < 65536" "w16 raw 6 < 65536" using assms by (simp_all add: w16_bound)
  show "nd_ksize raw < 65536" "nd_flags raw < 65536" using w by (simp_all add: nd_ksize_def nd_flags_def)
  show d: "nd_dsize raw < 2 ^ 32" using w by (simp add: nd_dsize_def)
  then show "nd_pgno raw < 2 ^ 48" using w(3) by (simp add: nd_pgno_def nd_flags_def)
qed

lemma old_item_facts:
  assumes inv: "page_inv mp" and m: "m < pg_n mp"
  defines "fl \<equiv> pg_flags mp" and "raw \<equiv> page_nodes mp ! m"
  shows "item_size fl (old_item mp m) = old_sizes mp ! m" "item_rec fl (old_item mp m) = page_recs mp ! m"
    "(IS_LEAF fl \<Longrightarrow> even (nd_flags raw) \<Longrightarrow> 8 + nd_ksize raw + nd_dsize raw \<le> nodemax) \<Longrightarrow> item_ok fl nodemax (old_item mp m)"
    "fst (old_item mp m) = nd_key raw"
proof -
  let ?o = "pg_ptr mp m"
  have raw: "raw = node_at mp ?o" using m by (simp add: raw_def page_nodes_def)
  have ok: "node_ok mp ?o" by (rule page_inv_node [OF inv m])
  note f = node_at_fields [OF ok]
  have lr: "length raw = nd_len fl raw" using f(5,6) by (simp add: raw fl_def)
  have fit: "8 + nd_ksize raw + nd_dlen fl raw \<le> length raw" unfolding lr by (rule nd_len_fields)
  have k: "length (nd_key raw) = nd_ksize raw" using fit by (simp add: nd_key_def)
  have len: "?o + nd_len fl raw \<le> length mp" using ok f(5) by (simp add: node_ok_def fl_def raw)
  have whole: "raw = slice mp ?o (nd_len fl raw)" using f(5) by (simp add: raw node_at_def fl_def)
  have pl: "take (nd_dlen fl raw) (drop (?o + 8 + nd_ksize raw) mp) = nd_payload fl raw"
  proof -
    have "slice (slice mp ?o (nd_len fl raw)) (8 + nd_ksize raw) (nd_dlen fl raw) = slice mp (?o + (8 + nd_ksize raw)) (nd_dlen fl raw)"
      using len fit lr by (intro slice_slice) auto
    then show ?thesis unfolding whole [symmetric] by (simp add: nd_payload_def slice_def add.assoc)
  qed
  have tl: "nd_dlen fl raw \<le> length (drop (?o + 8 + nd_ksize raw) mp)"
    using fit lr len by simp
  have dl: "item_dlen fl (old_item mp m) = nd_dlen fl raw" by (simp add: old_item_def Let_def raw_def [symmetric] fl_def [symmetric] nd_dlen_def)
  show "item_size fl (old_item mp m) = old_sizes mp ! m"
    using dl k m by (simp add: old_item_def Let_def raw_def [symmetric] fl_def [symmetric] old_sizes_def nd_len_def)
  show "item_rec fl (old_item mp m) = page_recs mp ! m"
    using pl m by (auto simp: old_item_def Let_def raw_def [symmetric] fl_def [symmetric] page_recs_def nd_rec_def nd_payload_def nd_dlen_def split: if_splits)
  show "fst (old_item mp m) = nd_key raw" by (simp add: old_item_def Let_def raw_def)
  show "item_ok fl nodemax (old_item mp m)" if "IS_LEAF fl \<Longrightarrow> even (nd_flags raw) \<Longrightarrow> 8 + nd_ksize raw + nd_dsize raw \<le> nodemax"
    using that tl k nd_bounds [of raw] fit
    by (auto simp: old_item_def Let_def raw_def [symmetric] fl_def [symmetric] nd_dlen_def split: if_splits)
qed

text \<open>The sizes, the contents and the well-formedness of all the nodes.\<close>

lemma split_items_facts:
  assumes ok: "split_ok mp psize nodemax newindx key data pgno flags"
    and a: "sa_mp a = mp" "sa_newindx a = newindx" "sa_key a = key" "sa_data a = data" "sa_pgno a = pgno" "sa_flags a = flags"
  defines "fl \<equiv> pg_flags mp" and "nsize \<equiv> item_size (pg_flags mp) (new_item a)"
  shows "map (item_size fl) (split_items a) = new_sizes mp newindx nsize" "map (item_rec fl) (split_items a) = insert_at newindx (item_rec fl (new_item a)) (page_recs mp)"
    "\<forall>x \<in> set (split_items a). item_ok fl nodemax x" "split_nsize mp nodemax key data = Some nsize"
    "x \<in> set (new_sizes mp newindx nsize) \<Longrightarrow> 2 * x \<le> psize - 16" "pg_upper mp - pg_lower mp < nsize"
proof -
  have inv: "page_inv mp" using ok by (simp add: split_ok_def)
  note old = old_item_facts [OF inv]
  have "map (\<lambda>m. item_size fl (old_item mp m)) [0..<pg_n mp] = old_sizes mp" using old(1) by (intro nth_equalityI) (auto simp: fl_def)
  then show "map (item_size fl) (split_items a) = new_sizes mp newindx nsize"
    by (simp add: split_items_def a map_insert_at new_sizes_def nsize_def fl_def comp_def)
  have "map (\<lambda>m. item_rec fl (old_item mp m)) [0..<pg_n mp] = page_recs mp" using old(2) by (intro nth_equalityI) (auto simp: fl_def)
  then show "map (item_rec fl) (split_items a) = insert_at newindx (item_rec fl (new_item a)) (page_recs mp)"
    by (simp add: split_items_def a map_insert_at fl_def comp_def)
  have new: "item_ok fl nodemax (new_item a)" using ok by (auto simp: split_ok_def new_item_def a fl_def Let_def)
  have "item_ok fl nodemax (old_item mp m)" if m: "m < pg_n mp" for m
  proof -
    have "page_nodes mp ! m \<in> set (page_nodes mp)" using m by simp
    then show ?thesis unfolding fl_def using ok by (intro old(3) [OF m]) (auto simp: split_ok_def)
  qed
  then show "\<forall>x \<in> set (split_items a). item_ok fl nodemax x" using new by (auto simp: split_items_def a set_insert_at)
  have "EVEN (EVEN n + 2) = EVEN n + 2" for n unfolding EVEN_def by presburger
  moreover have "EVEN (8 + length key + 2) = EVEN (8 + length key) + 2" by (rule EVEN_plus_2)
  ultimately show "split_nsize mp nodemax key data = Some nsize"
    using ok EVEN_plus_2 page_inv_len [OF inv]
    by (auto simp: split_nsize_def split_ok_def mp_flags_eq mdb_leaf_size_def mdb_branch_size_def NODESIZE_def nsize_def new_item_def a Let_def)
  have ns: "2 * nsize \<le> psize - 16" and free: "pg_upper mp - pg_lower mp < nsize"
    using ok by (auto simp: split_ok_def nsize_def new_item_def a Let_def)
  show "2 * x \<le> psize - 16" if "x \<in> set (new_sizes mp newindx nsize)"
    using that ns ok by (auto simp: new_sizes_def set_insert_at split_ok_def)
  show "pg_upper mp - pg_lower mp < nsize" by (rule free)
qed

section \<open>The property\<close>

lemma split_two:
  assumes inv: "page_inv mp" and half: "\<And>x. x \<in> set (old_sizes mp) \<Longrightarrow> 2 * x \<le> length mp - 16" "2 * nsize \<le> length mp - 16"
    and full: "pg_upper mp - pg_lower mp < nsize"
  shows "2 \<le> pg_n mp"
proof (rule ccontr)
  assume "\<not> 2 \<le> pg_n mp"
  then have "pg_n mp = 0 \<or> pg_n mp = 1" by auto
  then have "2 * sum_list (old_sizes mp) \<le> length mp - 16"
  proof
    assume "pg_n mp = 1"
    then obtain x where x: "old_sizes mp = [x]" using length_old_sizes [of mp] by (metis One_nat_def length_0_conv length_Suc_conv)
    then show ?thesis using half(1) [of x] by simp
  qed (simp add: old_sizes_def page_nodes_def ptrs_def)
  then show False using old_sizes_sum [OF inv] full half(2) by linarith
qed

lemma sepkey_item:
  assumes inv: "page_inv (sa_mp a)" and n: "sa_newindx a \<le> pg_n (sa_mp a)" and i: "i \<le> pg_n (sa_mp a)" and sl: "slot_ok a copy i"
  shows "split_sepkey (sa_mp a) copy i (sa_newindx a) (sa_key a) = Some (fst (split_items a ! i))"
proof (cases "i = sa_newindx a")
  case True
  then show ?thesis using n by (simp add: split_sepkey_def split_items_def nth_insert_at new_item_def Let_def)
next
  case False
  define m where "m = (if i < sa_newindx a then i else i - 1)"
  have m: "m < pg_n (sa_mp a)" using False n i by (auto simp: m_def)
  have x: "split_items a ! i = old_item (sa_mp a) m" using False n i m by (auto simp: split_items_def nth_insert_at m_def)
  have "mp_ptr copy i = Some (pg_ptr (sa_mp a) m)" using sl False by (simp add: slot_ok_def m_def)
  moreover have "page_nodes (sa_mp a) ! m = node_at (sa_mp a) (pg_ptr (sa_mp a) m)" using m by (simp add: page_nodes_def)
  ultimately show ?thesis
    using False NODEKEY_eq [OF page_inv_node [OF inv m]] old_item_facts(4) [OF inv m] x by (simp add: split_sepkey_def)
qed

lemma fst_item_rec [simp]: "fst (item_rec fl x) = fst x"
  by (cases x) simp

lemma item_rec_strip: "item_rec fl (strip fl x) = (fst (strip fl x), snd (item_rec fl x))"
  by (cases x) (simp add: strip_def)

lemma seg_head:
  assumes "xs \<noteq> []"
  shows "(fst (hd xs), snd (hd (map (item_rec fl) (seg fl xs)))) # tl (map (item_rec fl) (seg fl xs)) = map (item_rec fl) xs"
  using assms by (cases xs) (auto simp: item_rec_strip prod_eq_iff)

lemma seg_id: "(IS_LEAF fl \<or> fst (hd xs) = []) \<Longrightarrow> seg fl xs = xs"
  by (cases xs) (auto simp: strip_def prod_eq_iff)

lemma split_prepared:
  assumes ok: "split_ok mp psize nodemax newindx key data pgno flags" and buf: "length buf = psize"
    and look: "pg_n mp < 20 \<or> pg_n mp \<le> newindx \<or> (\<exists>nsize. split_nsize mp nodemax key data = Some nsize \<and> (psize - 16) div 16 < nsize)"
  defines "a s \<equiv> \<lparr>sa_mp = mp, sa_nkeys = pg_n mp, sa_split = s, sa_newindx = newindx, sa_key = key, sa_data = data, sa_pgno = pgno, sa_flags = flags\<rparr>"
  shows "\<exists>copy s. split_prepare buf mp psize nodemax newindx key data = Some (copy, s, fst (split_items (a s) ! s)) \<and> splittable (a s) psize nodemax \<and>
    (\<forall>m \<le> pg_n mp. slot_ok (a s) copy m) \<and> length copy = psize \<and> pg_flags copy = pg_flags mp \<and> pg_lower copy = 16 \<and> pg_upper copy = psize \<and>
    slice copy 0 8 = slice mp 0 8"
proof -
  let ?fl = "pg_flags mp" and ?n = "pg_n mp"
  have inv: "page_inv mp" and len: "length mp = psize" and ni: "newindx \<le> ?n" using ok by (auto simp: split_ok_def)
  define nsize where "nsize = item_size ?fl (new_item (a 0))"
  have same: "split_items (a s) = split_items (a 0)" for s by (simp add: split_items_def new_item_def a_def Let_def)
  have f: "map (item_size ?fl) (split_items (a s)) = new_sizes mp newindx nsize" "\<forall>x \<in> set (split_items (a s)). item_ok ?fl nodemax x"
    "split_nsize mp nodemax key data = Some nsize" "\<And>x. x \<in> set (new_sizes mp newindx nsize) \<Longrightarrow> 2 * x \<le> psize - 16" "pg_upper mp - pg_lower mp < nsize" for s
    using split_items_facts [OF ok, of "a 0"] unfolding same [of s] by (simp_all add: a_def nsize_def)
  have two: "2 \<le> ?n"
  proof (rule split_two [OF inv])
    show "2 * x \<le> length mp - 16" if "x \<in> set (old_sizes mp)" for x using f(4) [of x] that len by (simp add: new_sizes_def set_insert_at)
    show "2 * nsize \<le> length mp - 16" using f(4) [of nsize] len by (simp add: new_sizes_def set_insert_at)
  qed (rule f(5))
  obtain copy where c: "split_copy buf mp psize newindx ?n = Some copy" "slots_copied mp copy newindx" "length copy = psize"
    "pg_flags copy = ?fl" "pg_lower copy = 16" "pg_upper copy = psize" "slice copy 0 8 = slice mp 0 8"
    using split_copy_spec [OF inv len buf, of newindx] two by auto
  have old: "sum_list (old_sizes mp) \<le> psize - 16" using old_sizes_sum [OF inv] len by simp
  have ev: "even nsize" by (simp only: nsize_def even_item_size)
  have look': "?n < 20 \<or> (psize - 16) div 16 < nsize \<or> ?n \<le> newindx" using look f(3) by auto
  obtain s where s: "split_point mp copy ?n newindx nsize (psize - 16) = Some s" "0 < s" "s \<le> ?n"
    "sum_list (take s (new_sizes mp newindx nsize)) \<le> psize - 16" "sum_list (drop s (new_sizes mp newindx nsize)) \<le> psize - 16"
    using split_point_fits [OF inv c(2) ni ev old f(4) two look'] by blast
  have slot: "slot_ok (a s) copy m" if "m \<le> ?n" for m
    using slots_copied_at [OF c(2) ni that] by (auto simp: slot_ok_def a_def)
  have "split_sepkey mp copy s newindx key = Some (fst (split_items (a s) ! s))"
    using sepkey_item [of "a s" s copy] inv ni s(3) slot [OF s(3)] by (simp add: a_def)
  then have "split_prepare buf mp psize nodemax newindx key data = Some (copy, s, fst (split_items (a s) ! s))"
    using f(3) c(1) s(1) page_inv_bounds(1) [OF inv] page_inv_len [OF inv] by (simp add: split_prepare_def NUMKEYS_eq PAGEHDRSZ_def)
  moreover have "splittable (a s) psize nodemax"
  proof -
    have "x + 16 \<le> psize" if "x \<le> psize - 16" for x using that page_inv_len [OF inv] len by simp
    note s(4,5) [THEN this]
    then show ?thesis using inv ni s f(2) [of s]
      unfolding splittable_def by (simp add: a_def f(1) [of s, unfolded a_def] take_map [symmetric] drop_map [symmetric])
  qed
  ultimately show ?thesis using slot c by blast
qed

text \<open>The distribution: \<open>q\<close> is the right page and \<open>p\<close> the temporary one.\<close>

lemma split_moved:
  fixes st :: "'s na_state" and a :: split_args
  assumes sp: "splittable a psize nodemax" and slot: "\<And>m. m \<le> pg_n (sa_mp a) \<Longrightarrow> slot_ok a copy m"
  defines "mp \<equiv> sa_mp a" and "fl \<equiv> pg_flags (sa_mp a)" and "s \<equiv> sa_split a" and "X \<equiv> split_items a"
  assumes len: "length mp = psize" and c: "length copy = psize" "pg_flags copy = fl" "pg_lower copy = 16" "pg_upper copy = psize" "slice copy 0 8 = slice mp 0 8"
    and rp: "page_inv rp" "pg_n rp = 0" "length rp = psize" "IS_LEAF (pg_flags rp) = IS_LEAF fl"
  shows "\<exists>mv left. move_loop page_alloc psize nodemax a
      \<lparr>mv_i = s, mv_j = 0, mv_rp = rp, mv_copy = copy, mv_left = False, mv_na = st, mv_ki = sa_newindx a, mv_ofp = None\<rparr> = Some (MDB_SUCCESS, mv) \<and>
    holds fl (mv_rp mv) (seg fl (drop s X)) \<and> mv_ki mv = (if sa_newindx a < s then sa_newindx a else sa_newindx a - s) \<and>
    copy_back mp (mv_copy mv) psize = Some left \<and> page_inv left \<and> pg_n left = s \<and> pg_flags left = fl \<and> mp_pgno left = mp_pgno mp \<and>
    page_recs left = map (item_rec fl) (seg fl (take s X))"
proof -
  let ?n = "pg_n mp" let ?ni = "sa_newindx a"
  have inv: "page_inv mp" and s: "0 < s" "s \<le> ?n" and ni: "?ni \<le> ?n" using sp by (simp_all add: splittable_def mp_def s_def)
  have lX: "length X = Suc ?n" using length_split_items [of a] ni by (simp add: X_def mp_def)
  let ?m0 = "\<lparr>mv_i = s, mv_j = 0, mv_rp = rp, mv_copy = copy, mv_left = False, mv_na = st, mv_ki = ?ni, mv_ofp = None\<rparr>"
  have "holds fl rp []" using rp by (simp add: holds_def page_recs_def page_nodes_def ptrs_def old_sizes_def)
  then have r0: "\<not> mv_left ?m0" "mv_i ?m0 = sa_split a + mv_j ?m0" "mv_i ?m0 \<le> pg_n (sa_mp a)"
    "holds (pg_flags (sa_mp a)) (mv_rp ?m0) (seg (pg_flags (sa_mp a)) (take (mv_j ?m0) (drop (sa_split a) (split_items a))))"
    "length (mv_rp ?m0) = psize" "\<And>m. m \<le> pg_n (sa_mp a) \<Longrightarrow> slot_ok a (mv_copy ?m0) m"
    using s rp(3) slot unfolding fl_def mp_def s_def by simp_all
  obtain q where q: "move_loop page_alloc psize nodemax a ?m0 = move_loop page_alloc psize nodemax a
      (?m0\<lparr>mv_i := 0, mv_j := 0, mv_left := True, mv_rp := q, mv_ki := if s \<le> ?ni then ?ni - s else ?ni, mv_na := st\<lparr>na_page := q\<rparr>\<rparr>)"
    "holds fl q (seg fl (drop s X))"
    using move_right [OF sp r0, of page_alloc] unfolding fl_def s_def X_def move_state.select_convs by blast
  let ?m1 = "?m0\<lparr>mv_i := 0, mv_j := 0, mv_left := True, mv_rp := q, mv_ki := if s \<le> ?ni then ?ni - s else ?ni, mv_na := st\<lparr>na_page := q\<rparr>\<rparr>"
  have "\<not> IS_LEAF2 fl" "16 \<le> psize" "psize \<le> 32768"
    using inv page_inv_len [OF inv] page_inv_bounds(4) [OF inv] len by (auto simp: page_inv_def mp_def fl_def)
  then have "holds fl copy []" using c by (intro empty_holds) auto
  then have l0: "mv_left ?m1" "mv_j ?m1 = mv_i ?m1" "mv_i ?m1 < sa_split a"
    "holds (pg_flags (sa_mp a)) (mv_copy ?m1) (seg (pg_flags (sa_mp a)) (take (mv_i ?m1) (split_items a)))"
    "length (mv_copy ?m1) = psize" "\<And>m. mv_i ?m1 \<le> m \<Longrightarrow> m < sa_split a \<Longrightarrow> slot_ok a (mv_copy ?m1) m"
    using s c slot unfolding fl_def mp_def s_def by simp_all
  obtain p where p: "move_loop page_alloc psize nodemax a ?m1 = Some (MDB_SUCCESS, ?m1\<lparr>mv_i := s, mv_j := s, mv_copy := p,
      mv_ki := if ?ni < s then ?ni else mv_ki ?m1, mv_na := st\<lparr>na_page := p\<rparr>\<rparr>)"
    "holds fl p (seg fl (take s X))" "length p = psize" "pg_flags p = fl" "pg_ptr p (s - 1) = pg_upper p"
    using move_left [OF sp l0, of page_alloc] c unfolding fl_def s_def X_def by auto
  have pn: "pg_n p = s" using holds_n [OF p(2)] lX s by simp
  have pinv: "page_inv p" using p(2) by (simp add: holds_def)
  have last: "pg_ptr p (pg_n p - 1) = pg_upper p" using p(5) pn by simp
  obtain left where left: "copy_back mp p psize = Some left" "page_inv left" "page_nodes left = page_nodes p" "pg_flags left = fl" "mp_pgno left = mp_pgno mp"
    using copy_back_spec [OF pinv p(3) len _ last] p(4) pn s by (auto simp: fl_def mp_def)
  have "page_recs left = page_recs p" "pg_n left = s" using left(3,4) p(4) pn by (simp add: page_recs_def, metis length_page_nodes)
  then show ?thesis using q p(1,2) left by (auto simp: holds_def)
qed



end
