(* ===== verification/Flush.thy ===== *)
theory Flush
  imports Alloc Meta
begin

text \<open>
  Writing dirty pages to the file, from \<open>LegacyDatabase/mdb.c\<close>: \<open>mdb_page_flush\<close>, which a commit calls for all dirty pages and
  \<open>mdb_page_spill\<close> for some of them.
\<close>

section \<open>Constants\<close>

definition MDB_COMMIT_PAGES :: nat where "MDB_COMMIT_PAGES = 64"
definition MAX_WRITE :: nat where "MAX_WRITE = 0x80000000"

section \<open>Collecting the pages\<close>

definition u16_not :: "nat \<Rightarrow> nat" where
  "u16_not x = 2 ^ 16 - 1 - x"

definition set_page_flags :: "mdb_txn \<Rightarrow> page_ptr \<Rightarrow> nat \<Rightarrow> mdb_txn option" where
  "set_page_flags t mp fl = mem_put t mp 10 (le_bytes 2 fl)"

text \<open>\<open>dp->mp_flags\<close> and, for an overflow page, \<open>dp->mp_pages\<close>; the header is read through the pointer.\<close>

definition ptr_flags :: "mdb_txn \<Rightarrow> page_ptr \<Rightarrow> nat option" where
  "ptr_flags t mp = do { h \<leftarrow> mem_bytes t mp 0 PAGEHDRSZ; mp_flags h }"

definition ptr_pages :: "mdb_txn \<Rightarrow> page_ptr \<Rightarrow> nat option" where
  "ptr_pages t mp = do { h \<leftarrow> mem_bytes t mp 0 PAGEHDRSZ; rd32 h 12 }"

text \<open>
  Entry \<open>i\<close> of the dirty list: a page that is loose or to be kept is marked by a zero in the list; of any other page the dirty
  flag is cleared, and its position, size and address are returned.
\<close>

definition flush_take :: "mdb_txn \<Rightarrow> nat \<Rightarrow> ((nat \<times> nat \<times> page_ptr) option \<times> mdb_txn) option" where
  "flush_take t i = do {
     dl \<leftarrow> own_dirty t;
     e \<leftarrow> c_read dl i;
     fl \<leftarrow> ptr_flags t (mptr e);
     if fl AND (P_LOOSE OR P_KEEP) \<noteq> 0 then do {
       t \<leftarrow> set_page_flags t (mptr e) (fl AND u16_not P_KEEP);
       dl \<leftarrow> c_write dl i (e\<lparr>mid := 0\<rparr>);
       Some (None, set_own_dirty t dl) }
     else do {
       t \<leftarrow> set_page_flags t (mptr e) (fl AND u16_not P_DIRTY);
       let psize = me_psize (mt_env t);
       sz \<leftarrow> (if IS_OVERFLOW fl then do { n \<leftarrow> ptr_pages t (mptr e); Some (psize * n) } else Some psize);
       Some (Some (unat (mid e) * psize, sz, mptr e), t) } }"

section \<open>Writing\<close>

text \<open>The answers to the calls of \<open>lseek\<close> and of \<open>pwrite\<close> or \<open>writev\<close>, by the number of the write.\<close>

record flush_os =
  fo_seek :: "nat \<Rightarrow> rc option"
  fo_write :: "nat \<Rightarrow> io"

text \<open>The local variables of the loop; \<open>fv_count\<close> is the number of writes made.\<close>

record flush_vars =
  fv_i :: nat
  fv_pos :: nat
  fv_size :: nat
  fv_dp :: "page_ptr option"
  fv_next :: nat
  fv_wpos :: nat
  fv_wsize :: nat
  fv_iov :: "(page_ptr \<times> nat) list"
  fv_count :: nat

fun iov_bytes :: "mdb_txn \<Rightarrow> (page_ptr \<times> nat) list \<Rightarrow> byte list option" where
  "iov_bytes t [] = Some []"
| "iov_bytes t ((p, n) # iov) = do { b \<leftarrow> mem_bytes t p 0 n; bs \<leftarrow> iov_bytes t iov; Some (b @ bs) }"

definition flush_write :: "flush_os \<Rightarrow> mdb_txn \<Rightarrow> flush_vars \<Rightarrow> (rc \<times> mdb_txn \<times> flush_vars) option" where
  "flush_write os t v =
     (case (if length (fv_iov v) = 1 then None else fo_seek os (fv_count v)) of
        Some rc \<Rightarrow> Some (rc, t, v)
      | None \<Rightarrow> do {
          b \<leftarrow> iov_bytes t (fv_iov v);
          let (wres, f) = c_pwrite (me_map (mt_env t)) (fo_write os (fv_count v)) b (fv_wpos v);
          let t = upd_env (\<lambda>e. e\<lparr>me_map := f\<rparr>) t;
          Some (case wres of Inl rc \<Rightarrow> rc | Inr n \<Rightarrow> if n \<noteq> fv_wsize v then EIO else MDB_SUCCESS, t,
            v\<lparr>fv_iov := [], fv_count := fv_count v + 1\<rparr>) })"

text \<open>One pass after the page has been fetched; the first component says whether to leave the loop.\<close>

definition flush_step :: "flush_os \<Rightarrow> mdb_txn \<Rightarrow> nat \<Rightarrow> flush_vars \<Rightarrow> (bool \<times> rc \<times> mdb_txn \<times> flush_vars) option" where
  "flush_step os t pagecount v = do {
     (stop, rc, t, v) \<leftarrow> (if fv_pos v \<noteq> fv_next v \<or> length (fv_iov v) = MDB_COMMIT_PAGES \<or> fv_wsize v + fv_size v > MAX_WRITE then do {
         (rc, t, v) \<leftarrow> (if fv_iov v \<noteq> [] then flush_write os t v else Some (MDB_SUCCESS, t, v));
         if rc \<noteq> MDB_SUCCESS then Some (True, rc, t, v)
         else if fv_i v > pagecount then Some (True, MDB_SUCCESS, t, v)
         else Some (False, MDB_SUCCESS, t, v\<lparr>fv_wpos := fv_pos v, fv_wsize := 0\<rparr>) }
       else Some (False, MDB_SUCCESS, t, v));
     if stop then Some (True, rc, t, v)
     else do {
       dp \<leftarrow> fv_dp v;
       Some (False, MDB_SUCCESS, t, v\<lparr>fv_next := fv_pos v + fv_size v, fv_iov := fv_iov v @ [(dp, fv_size v)], fv_wsize := fv_wsize v + fv_size v\<rparr>) } }"

text \<open>The next page, if there is one; without a result the page is skipped.\<close>

definition flush_fetch :: "mdb_txn \<Rightarrow> nat \<Rightarrow> flush_vars \<Rightarrow> (flush_vars option \<times> mdb_txn) option" where
  "flush_fetch t pagecount v =
     (if fv_i v \<le> pagecount then do {
        (pg, t) \<leftarrow> flush_take t (fv_i v);
        Some (map_option (\<lambda>(pos, sz, dp). v\<lparr>fv_pos := pos, fv_size := sz, fv_dp := Some dp\<rparr>) pg, t) }
      else Some (Some v, t))"

partial_function (option) flush_loop :: "flush_os \<Rightarrow> mdb_txn \<Rightarrow> nat \<Rightarrow> flush_vars \<Rightarrow> (rc \<times> mdb_txn) option" where
  "flush_loop os t pagecount v = do {
     let v = v\<lparr>fv_i := fv_i v + 1\<rparr>;
     (pg, t) \<leftarrow> flush_fetch t pagecount v;
     (case pg of
        None \<Rightarrow> flush_loop os t pagecount v
      | Some v \<Rightarrow> do {
          (stop, rc, t, v) \<leftarrow> flush_step os t pagecount v;
          if stop then Some (rc, t) else flush_loop os t pagecount v }) }"

declare flush_loop.simps [code]

section \<open>After the writes\<close>

text \<open>Entries \<open>i + 1\<close> to \<open>i + n\<close>: pages that were skipped stay in the list, at \<open>j + 1\<close>, the buffers of the others are released.\<close>

fun flush_free :: "mdb_txn \<Rightarrow> nat \<Rightarrow> nat \<Rightarrow> nat \<Rightarrow> (nat \<times> mdb_txn) option" where
  "flush_free t i j 0 = Some (j, t)"
| "flush_free t i j (Suc n) = do {
     dl \<leftarrow> own_dirty t;
     e \<leftarrow> c_read dl (i + 1);
     if mid e = 0 then do {
       h \<leftarrow> mem_bytes t (mptr e) 0 PAGEHDRSZ;
       pgno \<leftarrow> mp_pgno h;
       dl \<leftarrow> c_write dl (j + 1) (e\<lparr>mid := of_nat pgno\<rparr>);
       flush_free (set_own_dirty t dl) (i + 1) (j + 1) n }
     else (case mptr e of
         PMap _ \<Rightarrow> None
       | PBuf a \<Rightarrow> do { t \<leftarrow> mdb_dpage_free t a; flush_free t (i + 1) j n }) }"

text \<open>With \<open>MDB_WRITEMAP\<close> the pages are in the map; only their flags change.\<close>

fun flush_map :: "mdb_txn \<Rightarrow> nat \<Rightarrow> nat \<Rightarrow> nat \<Rightarrow> (nat \<times> mdb_txn) option" where
  "flush_map t i j 0 = Some (j, t)"
| "flush_map t i j (Suc n) = do {
     dl \<leftarrow> own_dirty t;
     e \<leftarrow> c_read dl (i + 1);
     fl \<leftarrow> ptr_flags t (mptr e);
     if fl AND (P_LOOSE OR P_KEEP) \<noteq> 0 then do {
       t \<leftarrow> set_page_flags t (mptr e) (fl AND u16_not P_KEEP);
       dl \<leftarrow> c_write dl (j + 1) e;
       flush_map (set_own_dirty t dl) (i + 1) (j + 1) n }
     else do {
       t \<leftarrow> set_page_flags t (mptr e) (fl AND u16_not P_DIRTY);
       flush_map t (i + 1) j n } }"

text \<open>From the label \<open>done\<close> on.\<close>

definition flush_done :: "mdb_txn \<Rightarrow> nat \<Rightarrow> nat \<Rightarrow> (rc \<times> mdb_txn) option" where
  "flush_done t pagecount j = do {
     dl \<leftarrow> own_dirty t;
     e \<leftarrow> c_read dl 0;
     dl \<leftarrow> c_write dl 0 (e\<lparr>mid := of_nat j\<rparr>);
     Some (MDB_SUCCESS, (set_own_dirty t dl)\<lparr>mt_dirty_room := u32 (mt_dirty_room t + pagecount + 2 ^ 32 - j)\<rparr>) }"

definition mdb_page_flush :: "flush_os \<Rightarrow> mdb_txn \<Rightarrow> nat \<Rightarrow> (rc \<times> mdb_txn) option" where
  "mdb_page_flush os t keep = do {
     dl \<leftarrow> own_dirty t;
     c \<leftarrow> c_read dl 0;
     let pagecount = u32 (unat (mid c));
     if me_flags (mt_env t) AND MDB_WRITEMAP \<noteq> 0 then do {
       (j, t) \<leftarrow> flush_map t keep keep (pagecount - keep);
       flush_done t pagecount j }
     else do {
       (rc, t) \<leftarrow> flush_loop os t pagecount
         \<lparr>fv_i = keep, fv_pos = 0, fv_size = 0, fv_dp = None, fv_next = 1, fv_wpos = 0, fv_wsize = 0, fv_iov = [], fv_count = 0\<rparr>;
       if rc \<noteq> MDB_SUCCESS then Some (rc, t)
       else do {
         (j, t) \<leftarrow> flush_free t keep keep (pagecount - keep);
         flush_done t pagecount j } } }"

end
