(* ===== verification/Flush_File.thy ===== *)
theory Flush_File
  imports Flush
begin

text \<open>
  Writes to a file: a gathered write is the sequence of its parts, and the bytes outside the range of a write stay as they are.
\<close>

section \<open>One write\<close>

lemma file_put_length [simp]: "length (file_put f p b) = max (length f) (p + length b)"
  by (auto simp: file_put_def splice_def max_def min_def)

lemma file_put_nth:
  "i < max (length f) (p + length b) \<Longrightarrow>
     file_put f p b ! i = (if p \<le> i \<and> i < p + length b then b ! (i - p) else if i < length f then f ! i else 0)"
  unfolding file_put_def by (subst nth_splice) (auto simp: nth_append)

lemma file_put_append: "file_put f p (a @ b) = file_put (file_put f p a) (p + length a) b"
  by (rule nth_equalityI) (auto simp: file_put_nth nth_append)

lemma file_put_get: "slice (file_put f p b) p (length b) = b"
  by (rule nth_equalityI) (auto simp: nth_slice file_put_nth)

lemma file_put_other: "q + n \<le> length f \<Longrightarrow> q + n \<le> p \<or> p + length b \<le> q \<Longrightarrow> slice (file_put f p b) q n = slice f q n"
  by (rule slice_eqI) (auto simp: file_put_nth)

section \<open>What a sequence of writes keeps\<close>

text \<open>File \<open>g\<close> has the bytes of \<open>f\<close> outside the positions \<open>R\<close>.\<close>

definition same_outside :: "nat set \<Rightarrow> byte list \<Rightarrow> byte list \<Rightarrow> bool" where
  "same_outside R f g \<longleftrightarrow> length f \<le> length g \<and> (\<forall>i < length f. i \<notin> R \<longrightarrow> g ! i = f ! i)"

lemma same_outside_refl [simp]: "same_outside R f f"
  by (simp add: same_outside_def)

lemma same_outside_trans: "same_outside R f g \<Longrightarrow> same_outside R g h \<Longrightarrow> same_outside R f h"
  by (simp add: same_outside_def)

lemma same_outside_put: "{p..<p + length b} \<subseteq> R \<Longrightarrow> same_outside R f (file_put f p (take n b))"
  by (auto simp: same_outside_def file_put_nth subset_iff)

text \<open>The pages \<open>es\<close> written one by one at their positions.\<close>

definition put_all :: "('e \<Rightarrow> nat) \<Rightarrow> ('e \<Rightarrow> byte list) \<Rightarrow> 'e list \<Rightarrow> byte list \<Rightarrow> byte list" where
  "put_all pos img es f = fold (\<lambda>e f. file_put f (pos e) (img e)) es f"

lemma put_all_simps [simp]: "put_all pos img [] f = f" "put_all pos img (e # es) f = put_all pos img es (file_put f (pos e) (img e))"
  "put_all pos img (xs @ ys) f = put_all pos img ys (put_all pos img xs f)"
  by (simp_all add: put_all_def)

lemma put_all_length: "length f \<le> length (put_all pos img es f)"
proof (induction es arbitrary: f)
  case (Cons e es)
  show ?case using Cons [of "file_put f (pos e) (img e)"] by simp
qed simp

definition extent :: "('e \<Rightarrow> nat) \<Rightarrow> ('e \<Rightarrow> byte list) \<Rightarrow> 'e \<Rightarrow> nat set" where
  "extent pos img e = {pos e..<pos e + length (img e)}"

lemma put_all_slice:
  assumes "q + n \<le> length f" "\<forall>e \<in> set es. q + n \<le> pos e \<or> pos e + length (img e) \<le> q"
  shows "slice (put_all pos img es f) q n = slice f q n"
  using assms by (induction es arbitrary: f) (auto simp: file_put_other)

lemma put_all_get:
  assumes "sorted_wrt (\<lambda>e e'. pos e + length (img e) \<le> pos e') es" "e \<in> set es"
  shows "get_bytes (put_all pos img es f) (pos e) (length (img e)) = Some (img e)"
  using assms
proof (induction es arbitrary: f)
  case (Cons x es)
  show ?case
  proof (cases "e \<in> set es")
    case False
    then have x: "x = e" using Cons.prems by simp
    have "pos e + length (img e) \<le> length (put_all pos img es (file_put f (pos e) (img e)))"
      using put_all_length [of "file_put f (pos e) (img e)" pos img es] by simp
    then show ?thesis using Cons.prems x by (simp add: get_bytes_def put_all_slice file_put_get)
  qed (use Cons in simp)
qed simp

end
