(* ===== verification/Flush_Loop.thy ===== *)
theory Flush_Loop
  imports Flush_File
begin

text \<open>
  The loop of \<open>mdb_page_flush\<close>: the state after the first pages have been taken, and what the loop has written when it ends.
\<close>

section \<open>Dirty pages\<close>

definition page_fl :: "page \<Rightarrow> nat" where
  "page_fl p = le_nat (slice p 10 2)"

definition page_span :: "nat \<Rightarrow> page \<Rightarrow> nat" where
  "page_span psize p = (if IS_OVERFLOW (page_fl p) then psize * le_nat (slice p 12 4) else psize)"

definition skipped :: "page \<Rightarrow> bool" where
  "skipped p \<longleftrightarrow> page_fl p AND (P_LOOSE OR P_KEEP) \<noteq> 0"

text \<open>The page with the flag \<open>P_KEEP\<close> or \<open>P_DIRTY\<close> cleared.\<close>

definition marked :: "page \<Rightarrow> page" where
  "marked p = splice p 10 (le_bytes 2 (page_fl p AND u16_not (if skipped p then P_KEEP else P_DIRTY)))"

definition heap_of :: "mdb_txn \<Rightarrow> page_ptr mdb_id2 \<Rightarrow> page" where
  "heap_of t e = (case mptr e of PBuf a \<Rightarrow> the (mt_heap t a) | PMap x \<Rightarrow> [])"

definition entry_pos :: "mdb_txn \<Rightarrow> page_ptr mdb_id2 \<Rightarrow> nat" where
  "entry_pos t e = unat (mid e) * me_psize (mt_env t)"

definition entry_span :: "mdb_txn \<Rightarrow> page_ptr mdb_id2 \<Rightarrow> nat" where
  "entry_span t e = page_span (me_psize (mt_env t)) (heap_of t e)"

text \<open>What is written of an entry: the page without its dirty flag.\<close>

definition entry_image :: "mdb_txn \<Rightarrow> page_ptr mdb_id2 \<Rightarrow> byte list" where
  "entry_image t e = slice (marked (heap_of t e)) 0 (entry_span t e)"

definition dirty_ok :: "mdb_txn \<Rightarrow> page_ptr mdb_id2 \<Rightarrow> bool" where
  "dirty_ok t e \<longleftrightarrow> mid e \<noteq> 0 \<and> (\<exists>a p. mptr e = PBuf a \<and> mt_heap t a = Some p \<and> 16 \<le> length p \<and>
     0 < entry_span t e \<and> entry_span t e \<le> length p \<and> le_nat (slice p 0 8) = unat (mid e))"

definition flush_pre :: "mdb_txn \<Rightarrow> txn_level \<Rightarrow> nat \<Rightarrow> bool" where
  "flush_pre t l keep \<longleftrightarrow> mt_levels t \<noteq> [] \<and> hd (mt_levels t) = l \<and> id2l_inv (dirty_list l) \<and> keep \<le> length (id2l_list (dirty_list l)) \<and>
     me_flags (mt_env t) AND MDB_WRITEMAP = 0 \<and> 16 \<le> me_psize (mt_env t) \<and>
     mt_dirty_room t + length (id2l_list (dirty_list l)) \<le> MDB_IDL_UM_MAX \<and>
     distinct (map mptr (id2l_list (dirty_list l))) \<and> (\<forall>e \<in> set (id2l_list (dirty_list l)). dirty_ok t e)"

section \<open>The state after some entries\<close>

abbreviation dl_rest :: "txn_level \<Rightarrow> nat \<Rightarrow> page_ptr mdb_id2 list" where
  "dl_rest l keep \<equiv> drop keep (id2l_list (dirty_list l))"

definition mark_heap :: "(nat \<Rightarrow> page option) \<Rightarrow> page_ptr mdb_id2 list \<Rightarrow> nat \<Rightarrow> page option" where
  "mark_heap h es a = (if PBuf a \<in> mptr ` set es then map_option marked (h a) else h a)"

definition mark_list :: "mdb_txn \<Rightarrow> page_ptr mdb_id2 list \<Rightarrow> nat \<Rightarrow> nat \<Rightarrow> page_ptr mdb_id2 list" where
  "mark_list t dl keep k = map (\<lambda>i. if keep < i \<and> i \<le> keep + k \<and> skipped (heap_of t (dl ! i)) then (dl ! i)\<lparr>mid := 0\<rparr> else dl ! i) [0..<length dl]"

definition flush_state :: "mdb_txn \<Rightarrow> txn_level \<Rightarrow> nat \<Rightarrow> nat \<Rightarrow> byte list \<Rightarrow> mdb_txn" where
  "flush_state t l keep k f = t\<lparr>mt_env := (mt_env t)\<lparr>me_map := f\<rparr>, mt_heap := mark_heap (mt_heap t) (take k (dl_rest l keep)),
     mt_levels := l\<lparr>dirty_list := mark_list t (dirty_list l) keep k\<rparr> # tl (mt_levels t)\<rparr>"

lemma entry_at:
  assumes "flush_pre t l keep" "k < length (dl_rest l keep)"
  shows "dl_rest l keep ! k = dirty_list l ! (keep + k + 1)" "keep + k + 1 < length (dirty_list l)"
  using assms id2l_list_nth [of "dirty_list l" "keep + k"] id2l_list_length [of "dirty_list l"] by (auto simp: flush_pre_def id2l_inv_def)

lemma entry_buf:
  assumes "flush_pre t l keep" "e \<in> set (dl_rest l keep)"
  obtains a p where "mptr e = PBuf a" "mt_heap t a = Some p" "heap_of t e = p" "16 \<le> length p" "0 < entry_span t e" "entry_span t e \<le> length p"
    "le_nat (slice p 0 8) = unat (mid e)" "mid e \<noteq> 0"
  using assms set_drop_subset [of keep "id2l_list (dirty_list l)"]
  by (fastforce simp: flush_pre_def dirty_ok_def heap_of_def)

lemma entry_fresh:
  assumes "flush_pre t l keep" "k < length (dl_rest l keep)"
  shows "mptr (dl_rest l keep ! k) \<notin> mptr ` set (take k (dl_rest l keep))"
proof -
  have "distinct (map mptr (dl_rest l keep))" using assms(1) by (simp add: flush_pre_def distinct_drop drop_map [symmetric])
  then have "distinct (map mptr (take (Suc k) (dl_rest l keep)))" by (simp add: distinct_take take_map [symmetric])
  then show ?thesis using assms(2) by (simp add: take_Suc_conv_app_nth)
qed

lemma mark_heap_Suc:
  assumes "flush_pre t l keep" "k < length (dl_rest l keep)" "mptr (dl_rest l keep ! k) = PBuf a" "mt_heap t a = Some p"
  shows "mark_heap (mt_heap t) (take k (dl_rest l keep)) a = Some p"
    "mark_heap (mt_heap t) (take (Suc k) (dl_rest l keep)) = (mark_heap (mt_heap t) (take k (dl_rest l keep)))(a \<mapsto> marked p)"
  using entry_fresh [OF assms(1,2)] assms(2-4) by (auto simp: mark_heap_def take_Suc_conv_app_nth)

lemma mark_list_Suc:
  assumes "keep + k + 1 < length dl"
  shows "mark_list t dl keep (Suc k) = (if skipped (heap_of t (dl ! (keep + k + 1))) then (mark_list t dl keep k)[keep + k + 1 := (dl ! (keep + k + 1))\<lparr>mid := 0\<rparr>]
      else mark_list t dl keep k)"
    "mark_list t dl keep k ! (keep + k + 1) = dl ! (keep + k + 1)" "length (mark_list t dl keep k) = length dl"
  using assms by (auto simp: mark_list_def nth_list_update le_Suc_eq intro!: nth_equalityI)

lemma buf_header:
  assumes "mt_heap t a = Some p" "16 \<le> length p"
  shows "ptr_flags t (PBuf a) = Some (page_fl p)" "ptr_pages t (PBuf a) = Some (le_nat (slice p 12 4))"
    "set_page_flags t (PBuf a) fl = Some (t\<lparr>mt_heap := (mt_heap t)(a \<mapsto> splice p 10 (le_bytes 2 fl))\<rparr>)"
  using assms by (simp_all add: ptr_flags_def ptr_pages_def set_page_flags_def mem_bytes_def mem_put_def PAGEHDRSZ_def mp_flags_def byte_simps
    slice_slice page_fl_def)

lemma flush_take_state:
  assumes pre: "flush_pre t l keep" and k: "k < length (dl_rest l keep)"
  defines "e \<equiv> dl_rest l keep ! k"
  shows "flush_take (flush_state t l keep k f) (keep + k + 1) =
    Some (if skipped (heap_of t e) then None else Some (entry_pos t e, entry_span t e, mptr e), flush_state t l keep (Suc k) f)"
proof -
  obtain a p where e: "mptr e = PBuf a" "mt_heap t a = Some p" "heap_of t e = p" "16 \<le> length p"
    using entry_buf [OF pre] k by (metis e_def nth_mem)
  note at = entry_at [OF pre k, folded e_def]
  note heap = mark_heap_Suc [OF pre k e(1) [unfolded e_def] e(2)]
  note dl = mark_list_Suc [OF at(2), folded at(1), unfolded e(3)]
  let ?t = "flush_state t l keep k f" and ?dl = "mark_list t (dirty_list l) keep k"
  have h: "mt_heap ?t a = Some p" using heap(1) by (simp add: flush_state_def)
  note hd = buf_header [OF h e(4)]
  have own: "own_dirty ?t = Some ?dl" "c_read ?dl (keep + k + 1) = Some e"
    using at(2) dl(2,3) by (simp_all add: own_dirty_def flush_state_def c_read_def)
  have next': "skipped p \<Longrightarrow> flush_state t l keep (Suc k) f = set_own_dirty (?t\<lparr>mt_heap := (mt_heap ?t)(a \<mapsto> marked p)\<rparr>) (?dl[keep + k + 1 := e\<lparr>mid := 0\<rparr>])"
    "\<not> skipped p \<Longrightarrow> flush_state t l keep (Suc k) f = ?t\<lparr>mt_heap := (mt_heap ?t)(a \<mapsto> marked p)\<rparr>"
    unfolding flush_state_def dl(1) heap(2) by (simp_all add: set_own_dirty_def e(3))
  have m: "marked p = splice p 10 (le_bytes 2 (page_fl p AND u16_not (if skipped p then P_KEEP else P_DIRTY)))" by (simp add: marked_def)
  have hd': "ptr_pages (?t\<lparr>mt_heap := (mt_heap ?t)(a \<mapsto> marked p)\<rparr>) (PBuf a) = Some (le_nat (slice p 12 4))"
    using buf_header(2) [of "?t\<lparr>mt_heap := (mt_heap ?t)(a \<mapsto> marked p)\<rparr>" a "marked p"] e(4) by (simp add: m slice_splice_other)
  have ps: "me_psize (mt_env ?t) = me_psize (mt_env t)" by (simp add: flush_state_def)
  show ?thesis
  proof (cases "skipped p")
    case True
    then have "page_fl p AND (P_LOOSE OR P_KEEP) \<noteq> 0" by (simp add: skipped_def)
    then show ?thesis using True at(2) by (simp add: flush_take_def own del: One_nat_def add_Suc_right add: e(1,3) hd c_write_def dl(3) next' m)
  next
    case False
    then have "page_fl p AND (P_LOOSE OR P_KEEP) = 0" by (simp add: skipped_def)
    then show ?thesis using False hd' [unfolded m]
      by (simp add: flush_take_def own e(1,3) hd next' m entry_pos_def entry_span_def page_span_def ps Let_def del: One_nat_def add_Suc_right)
  qed
qed

section \<open>The loop\<close>

definition todo :: "mdb_txn \<Rightarrow> page_ptr mdb_id2 list \<Rightarrow> page_ptr mdb_id2 list" where
  "todo t es = filter (\<lambda>e. \<not> skipped (heap_of t e)) es"

abbreviation images :: "mdb_txn \<Rightarrow> page_ptr mdb_id2 list \<Rightarrow> byte list" where
  "images t es \<equiv> concat (map (entry_image t) es)"

abbreviation put_entries :: "mdb_txn \<Rightarrow> page_ptr mdb_id2 list \<Rightarrow> byte list \<Rightarrow> byte list" where
  "put_entries t \<equiv> put_all (entry_pos t) (entry_image t)"

definition extents :: "mdb_txn \<Rightarrow> page_ptr mdb_id2 list \<Rightarrow> nat set" where
  "extents t es = (\<Union>e \<in> set es. extent (entry_pos t) (entry_image t) e)"

text \<open>The collected pages \<open>P\<close>: writing them together has the effect of writing them one by one.\<close>

definition batch :: "mdb_txn \<Rightarrow> flush_vars \<Rightarrow> page_ptr mdb_id2 list \<Rightarrow> bool" where
  "batch t v P \<longleftrightarrow> fv_iov v = map (\<lambda>e. (mptr e, entry_span t e)) P \<and>
     (P \<noteq> [] \<longrightarrow> (\<forall>f. file_put f (fv_wpos v) (images t P) = put_entries t P f) \<and> fv_wsize v = length (images t P) \<and>
        fv_next v = fv_wpos v + fv_wsize v \<and> {fv_wpos v..<fv_next v} \<subseteq> extents t P)"

text \<open>Of the pages taken so far, \<open>D\<close> have been written.\<close>

definition loop_inv :: "mdb_txn \<Rightarrow> txn_level \<Rightarrow> nat \<Rightarrow> nat \<Rightarrow> flush_vars \<Rightarrow> page_ptr mdb_id2 list \<Rightarrow> page_ptr mdb_id2 list \<Rightarrow> bool" where
  "loop_inv t l keep k v D P \<longleftrightarrow> todo t (take k (dl_rest l keep)) = D @ P \<and> fv_i v = keep + k \<and> batch t v P \<and>
     (if P = [] then D = [] \<and> fv_pos v = 0 \<and> fv_next v = 1 else fv_pos v < fv_next v)"

text \<open>A system call that fails sets \<open>errno\<close>.\<close>

definition os_ok :: "flush_os \<Rightarrow> bool" where
  "os_ok os \<longleftrightarrow> (\<forall>k. fo_seek os k \<noteq> Some MDB_SUCCESS \<and> (\<forall>n. fo_write os k \<noteq> Failed MDB_SUCCESS n))"

text \<open>All calls succeed and write all that they are given, when that is at most \<open>N\<close> bytes.\<close>

definition os_good :: "flush_os \<Rightarrow> nat \<Rightarrow> bool" where
  "os_good os N \<longleftrightarrow> (\<forall>k. fo_seek os k = None \<and> (\<exists>n. fo_write os k = Done n \<and> N \<le> n))"

definition entry_bytes :: "mdb_txn \<Rightarrow> page_ptr mdb_id2 list \<Rightarrow> nat" where
  "entry_bytes t es = sum_list (map (entry_span t) es)"

lemma marked_length: "16 \<le> length p \<Longrightarrow> length (marked p) = length p"
  by (simp add: marked_def)

lemma entry_image_length: "flush_pre t l keep \<Longrightarrow> e \<in> set (dl_rest l keep) \<Longrightarrow> length (entry_image t e) = entry_span t e"
  by (erule (1) entry_buf) (simp add: entry_image_def marked_length)

lemma images_length: "flush_pre t l keep \<Longrightarrow> set P \<subseteq> set (dl_rest l keep) \<Longrightarrow> length (images t P) = entry_bytes t P"
  by (induction P) (auto simp: entry_bytes_def entry_image_length)

lemma todo_set: "set (todo t es) \<subseteq> set es"
  by (auto simp: todo_def)

lemma todo_bytes: "entry_bytes t (todo t es) \<le> entry_bytes t es"
  by (induction es) (auto simp: todo_def entry_bytes_def)

lemma take_bytes: "entry_bytes t (take k es) \<le> entry_bytes t es"
proof -
  have "sum_list (map (entry_span t) xs) \<le> sum_list (map (entry_span t) (xs @ ys))" for xs ys by simp
  then show ?thesis unfolding entry_bytes_def by (metis append_take_drop_id)
qed

lemma pending:
  assumes "flush_pre t l keep" "todo t (take k (dl_rest l keep)) = D @ P @ Q"
  shows "set P \<subseteq> set (take k (dl_rest l keep))" "length (images t P) \<le> entry_bytes t (dl_rest l keep)"
    "extents t P \<subseteq> extents t (todo t (dl_rest l keep))"
proof -
  have P: "set P \<subseteq> set (todo t (take k (dl_rest l keep)))" using assms(2) by auto
  then show s: "set P \<subseteq> set (take k (dl_rest l keep))" using todo_set by (rule subset_trans)
  then have "set P \<subseteq> set (dl_rest l keep)" using set_take_subset [of k "dl_rest l keep"] by (rule subset_trans)
  then have "length (images t P) = entry_bytes t P" by (rule images_length [OF assms(1)])
  also have "\<dots> \<le> entry_bytes t (D @ P @ Q)" by (simp add: entry_bytes_def)
  also have "\<dots> \<le> entry_bytes t (take k (dl_rest l keep))" unfolding assms(2) [symmetric] by (rule todo_bytes)
  also have "\<dots> \<le> entry_bytes t (dl_rest l keep)" by (rule take_bytes)
  finally show "length (images t P) \<le> entry_bytes t (dl_rest l keep)" .
  show "extents t P \<subseteq> extents t (todo t (dl_rest l keep))" using P set_take_subset [of k "dl_rest l keep"] by (auto simp: extents_def todo_def)
qed

lemma iov_images:
  assumes pre: "flush_pre t l keep" and "set P \<subseteq> set (take k (dl_rest l keep))"
  shows "iov_bytes (flush_state t l keep k f) (map (\<lambda>e. (mptr e, entry_span t e)) P) = Some (images t P)"
  using assms(2)
proof (induction P)
  case (Cons e P)
  have e: "e \<in> set (take k (dl_rest l keep))" using Cons by simp
  then have "e \<in> set (dl_rest l keep)" using set_take_subset by fastforce
  then obtain a p where "mptr e = PBuf a" "mt_heap t a = Some p" "heap_of t e = p" "16 \<le> length p" "entry_span t e \<le> length p"
    using entry_buf [OF pre] by metis
  moreover have "mptr e \<in> mptr ` set (take k (dl_rest l keep))" using e by blast
  ultimately have "mem_bytes (flush_state t l keep k f) (mptr e) 0 (entry_span t e) = Some (entry_image t e)"
    by (auto simp: mem_bytes_def flush_state_def mark_heap_def get_bytes_def marked_length entry_image_def)
  then show ?case using Cons by simp
qed simp

lemma flush_write_state:
  assumes pre: "flush_pre t l keep" and inv: "batch t v P" "todo t (take k (dl_rest l keep)) = D @ P @ Q" and P: "P \<noteq> []" and os: "os_ok os"
  shows "\<exists>rc g v'. flush_write os (flush_state t l keep k f) v = Some (rc, flush_state t l keep k g, v') \<and>
    same_outside (extents t (todo t (dl_rest l keep))) f g \<and> (rc = MDB_SUCCESS \<longrightarrow> g = put_entries t P f \<and> v' = v\<lparr>fv_iov := [], fv_count := fv_count v + 1\<rparr>) \<and>
    (os_good os (entry_bytes t (dl_rest l keep)) \<longrightarrow> rc = MDB_SUCCESS)"
proof -
  let ?b = "images t P" and ?w = "fo_write os (fv_count v)" and ?s = "if length (fv_iov v) = 1 then None else fo_seek os (fv_count v)"
  let ?n = "min (io_count ?w) (length ?b)"
  let ?g = "file_put f (fv_wpos v) (take ?n ?b)"
  have v: "fv_iov v = map (\<lambda>e. (mptr e, entry_span t e)) P" "\<And>f. file_put f (fv_wpos v) ?b = put_entries t P f" "fv_wsize v = length ?b"
    "{fv_wpos v..<fv_wpos v + length ?b} \<subseteq> extents t P"
    using inv(1) P by (auto simp: batch_def)
  have b: "iov_bytes (flush_state t l keep k f) (fv_iov v) = Some ?b" unfolding v(1) by (rule iov_images [OF pre pending(1) [OF pre inv(2)]])
  have out: "same_outside (extents t (todo t (dl_rest l keep))) f ?g" using v(4) pending(3) [OF pre inv(2)] by (intro same_outside_put) blast
  show ?thesis
  proof (cases ?s)
    case (Some rc)
    then have "rc \<noteq> MDB_SUCCESS" "\<not> os_good os N" for N using os by (auto simp: os_ok_def os_good_def split: if_splits)
    moreover have "flush_write os (flush_state t l keep k f) v = Some (rc, flush_state t l keep k f, v)" using Some by (simp add: flush_write_def)
    ultimately show ?thesis using same_outside_refl by metis
  next
    case None
    let ?rc = "case ?w of Failed e _ \<Rightarrow> e | Done _ \<Rightarrow> if ?n \<noteq> length ?b then EIO else MDB_SUCCESS"
    have "flush_write os (flush_state t l keep k f) v = Some (?rc, flush_state t l keep k ?g, v\<lparr>fv_iov := [], fv_count := fv_count v + 1\<rparr>)"
      using None b v(3) by (auto simp: flush_write_def c_pwrite_def Let_def upd_env_def flush_state_def split: io.splits)
    moreover have "?rc = MDB_SUCCESS \<longrightarrow> ?g = put_entries t P f" using os v(2) by (auto simp: os_ok_def split: io.splits if_splits)
    moreover have "os_good os (entry_bytes t (dl_rest l keep)) \<longrightarrow> ?rc = MDB_SUCCESS"
    proof
      assume "os_good os (entry_bytes t (dl_rest l keep))"
      then obtain n where "?w = Done n" "entry_bytes t (dl_rest l keep) \<le> n" unfolding os_good_def by blast
      then show "?rc = MDB_SUCCESS" using pending(2) [OF pre inv(2)] by (simp add: io_count_def)
    qed
    ultimately show ?thesis using out by blast
  qed
qed

lemma batch_page [simp]: "batch t (v\<lparr>fv_i := i, fv_pos := p, fv_size := s, fv_dp := d\<rparr>) P = batch t v P" "batch t (v\<lparr>fv_i := i\<rparr>) P = batch t v P"
  by (simp_all add: batch_def)

lemma flush_pending_state:
  assumes pre: "flush_pre t l keep" and b: "batch t v P" and td: "todo t (take k (dl_rest l keep)) = D @ P @ Q" and os: "os_ok os"
  shows "\<exists>rc g v'. (if fv_iov v \<noteq> [] then flush_write os (flush_state t l keep k f) v else Some (MDB_SUCCESS, flush_state t l keep k f, v)) =
        Some (rc, flush_state t l keep k g, v') \<and> same_outside (extents t (todo t (dl_rest l keep))) f g \<and>
      (rc = MDB_SUCCESS \<longrightarrow> g = put_entries t P f \<and> (\<exists>c. v' = v\<lparr>fv_iov := [], fv_count := c\<rparr>)) \<and>
      (os_good os (entry_bytes t (dl_rest l keep)) \<longrightarrow> rc = MDB_SUCCESS)"
proof (cases "P = []")
  case True
  then have "fv_iov v = []" using b by (simp add: batch_def)
  then have "v = v\<lparr>fv_iov := [], fv_count := fv_count v\<rparr>" by simp
  then show ?thesis using True \<open>fv_iov v = []\<close> by fastforce
next
  case False
  then have "fv_iov v \<noteq> []" using b by (simp add: batch_def)
  then show ?thesis using flush_write_state [OF pre b td False os, of f] by fastforce
qed

lemma batch_add:
  assumes "batch t v P" "P \<noteq> []" "fv_next v = entry_pos t e" "length (entry_image t e) = entry_span t e"
  shows "batch t (v\<lparr>fv_next := entry_pos t e + entry_span t e, fv_iov := fv_iov v @ [(mptr e, entry_span t e)], fv_wsize := fv_wsize v + entry_span t e\<rparr>) (P @ [e])"
  using assms by (auto simp: batch_def file_put_append extents_def extent_def subset_iff)

lemma batch_new:
  assumes "length (entry_image t e) = entry_span t e"
  shows "batch t (v\<lparr>fv_wpos := entry_pos t e, fv_wsize := entry_span t e, fv_next := entry_pos t e + entry_span t e, fv_iov := [(mptr e, entry_span t e)]\<rparr>) [e]"
  using assms by (auto simp: batch_def extents_def extent_def)

lemma flush_step_write:
  assumes "fv_pos v \<noteq> fv_next v \<or> length (fv_iov v) = MDB_COMMIT_PAGES \<or> fv_wsize v + fv_size v > MAX_WRITE"
    "(if fv_iov v \<noteq> [] then flush_write os t v else Some (MDB_SUCCESS, t, v)) = Some (rc, t', v')"
  shows "rc \<noteq> MDB_SUCCESS \<or> fv_i v' > n \<Longrightarrow> flush_step os t n v = Some (True, rc, t', v')"
    "rc = MDB_SUCCESS \<Longrightarrow> \<not> fv_i v' > n \<Longrightarrow> fv_dp v' = Some dp \<Longrightarrow> flush_step os t n v = Some (False, MDB_SUCCESS, t',
       v'\<lparr>fv_wpos := fv_pos v', fv_wsize := fv_size v', fv_next := fv_pos v' + fv_size v', fv_iov := fv_iov v' @ [(dp, fv_size v')]\<rparr>)"
  unfolding flush_step_def assms(2) using assms(1) by auto

text \<open>One pass of the loop.\<close>

lemma flush_step_state:
  assumes pre: "flush_pre t l keep" and inv: "loop_inv t l keep k v D P" and k: "k < length (dl_rest l keep)" and os: "os_ok os"
    and n: "n = keep + length (dl_rest l keep)" and e: "e = dl_rest l keep ! k" "\<not> skipped (heap_of t e)"
    and v1: "v1 = v\<lparr>fv_i := keep + Suc k, fv_pos := entry_pos t e, fv_size := entry_span t e, fv_dp := Some (mptr e)\<rparr>"
  shows "\<exists>stop rc g v' D' P'. flush_step os (flush_state t l keep (Suc k) f) n v1 = Some (stop, rc, flush_state t l keep (Suc k) g, v') \<and>
    same_outside (extents t (todo t (dl_rest l keep))) f g \<and> (stop \<longrightarrow> rc \<noteq> MDB_SUCCESS \<and> \<not> os_good os (entry_bytes t (dl_rest l keep))) \<and>
    (\<not> stop \<longrightarrow> loop_inv t l keep (Suc k) v' D' P' \<and> (\<forall>f0. f = put_entries t D f0 \<longrightarrow> g = put_entries t D' f0))"
proof -
  have mem: "e \<in> set (dl_rest l keep)" unfolding e(1) by (rule nth_mem [OF k])
  have pos: "1 < entry_pos t e" "0 < entry_span t e"
  proof -
    show "0 < entry_span t e" using entry_buf [OF pre mem] by metis
    have "mid e \<noteq> 0" using entry_buf [OF pre mem] by metis
    then have "1 * 16 \<le> unat (mid e) * me_psize (mt_env t)" using pre by (intro mult_le_mono) (auto simp: flush_pre_def unat_gt_0 Suc_le_eq)
    then show "1 < entry_pos t e" by (simp add: entry_pos_def)
  qed
  note len = entry_image_length [OF pre mem]
  have td: "todo t (take (Suc k) (dl_rest l keep)) = D @ P @ [e]" using inv k e by (simp add: loop_inv_def todo_def take_Suc_conv_app_nth)
  have bt: "batch t v P" using inv by (simp add: loop_inv_def)
  have b1: "batch t v1 P" using bt by (simp add: v1)
  have i: "\<not> fv_i v1 > n" using k n by (simp add: v1)
  show ?thesis
  proof (cases "fv_pos v1 \<noteq> fv_next v1 \<or> length (fv_iov v1) = MDB_COMMIT_PAGES \<or> fv_wsize v1 + fv_size v1 > MAX_WRITE")
    case False
    then have nx: "fv_next v = entry_pos t e" by (simp add: v1)
    then have P: "P \<noteq> []" using inv pos by (auto simp: loop_inv_def)
    let ?v = "v1\<lparr>fv_next := entry_pos t e + entry_span t e, fv_iov := fv_iov v1 @ [(mptr e, entry_span t e)], fv_wsize := fv_wsize v1 + entry_span t e\<rparr>"
    have "flush_step os (flush_state t l keep (Suc k) f) n v1 = Some (False, MDB_SUCCESS, flush_state t l keep (Suc k) f, ?v)"
      using False by (simp add: flush_step_def v1)
    moreover have "loop_inv t l keep (Suc k) ?v D (P @ [e])"
      using batch_add [OF b1 P _ len] nx td pos by (simp add: loop_inv_def v1)
    ultimately show ?thesis using same_outside_refl by blast
  next
    case True
    obtain rc g v' where w: "(if fv_iov v1 \<noteq> [] then flush_write os (flush_state t l keep (Suc k) f) v1 else Some (MDB_SUCCESS, flush_state t l keep (Suc k) f, v1)) =
        Some (rc, flush_state t l keep (Suc k) g, v')" "same_outside (extents t (todo t (dl_rest l keep))) f g"
      "rc = MDB_SUCCESS \<Longrightarrow> g = put_entries t P f \<and> (\<exists>c. v' = v1\<lparr>fv_iov := [], fv_count := c\<rparr>)"
      "os_good os (entry_bytes t (dl_rest l keep)) \<Longrightarrow> rc = MDB_SUCCESS"
      using flush_pending_state [OF pre b1 td os, of f] by blast
    show ?thesis
    proof (cases "rc = MDB_SUCCESS")
      case False
      have "flush_step os (flush_state t l keep (Suc k) f) n v1 = Some (True, rc, flush_state t l keep (Suc k) g, v')"
        using flush_step_write(1) [OF True w(1)] False by blast
      then show ?thesis using False w(2,4) by blast
    next
      case rc: True
      then obtain c where g: "g = put_entries t P f" "v' = v1\<lparr>fv_iov := [], fv_count := c\<rparr>" using w(3) by blast
      let ?v = "v'\<lparr>fv_wpos := entry_pos t e, fv_wsize := entry_span t e, fv_next := entry_pos t e + entry_span t e, fv_iov := [(mptr e, entry_span t e)]\<rparr>"
      have "flush_step os (flush_state t l keep (Suc k) f) n v1 = Some (False, MDB_SUCCESS, flush_state t l keep (Suc k) g, ?v)"
        using flush_step_write(2) [OF True w(1) rc, of n "mptr e"] i by (simp add: g(2) v1)
      moreover have "loop_inv t l keep (Suc k) ?v (D @ P) [e]"
        using batch_new [OF len, of v'] td pos by (simp add: loop_inv_def g(2) v1)
      moreover have "\<forall>f0. f = put_entries t D f0 \<longrightarrow> g = put_entries t (D @ P) f0" using g(1) by simp
      ultimately show ?thesis using w(2) by blast
    qed
  qed
qed

text \<open>The pass after the last page.\<close>

lemma flush_last_state:
  assumes pre: "flush_pre t l keep" and inv: "loop_inv t l keep k v D P" and k: "k = length (dl_rest l keep)" and os: "os_ok os"
    and n: "n = keep + length (dl_rest l keep)"
  shows "\<exists>rc g. flush_loop os (flush_state t l keep k f) n v = Some (rc, flush_state t l keep k g) \<and>
    same_outside (extents t (todo t (dl_rest l keep))) f g \<and> (rc = MDB_SUCCESS \<longrightarrow> g = put_entries t P f) \<and>
    (os_good os (entry_bytes t (dl_rest l keep)) \<longrightarrow> rc = MDB_SUCCESS)"
proof -
  let ?v = "v\<lparr>fv_i := fv_i v + 1\<rparr>"
  have i: "fv_i ?v > n" using inv k n by (simp add: loop_inv_def)
  have b: "batch t ?v P" using inv by (simp add: loop_inv_def)
  have ne: "fv_pos ?v \<noteq> fv_next ?v" using inv by (auto simp: loop_inv_def split: if_splits)
  have td: "todo t (take k (dl_rest l keep)) = D @ P @ []" using inv by (simp add: loop_inv_def)
  obtain rc g v' where w: "(if fv_iov ?v \<noteq> [] then flush_write os (flush_state t l keep k f) ?v else Some (MDB_SUCCESS, flush_state t l keep k f, ?v)) =
      Some (rc, flush_state t l keep k g, v')" "same_outside (extents t (todo t (dl_rest l keep))) f g"
    "rc = MDB_SUCCESS \<Longrightarrow> g = put_entries t P f \<and> (\<exists>c. v' = ?v\<lparr>fv_iov := [], fv_count := c\<rparr>)"
    "os_good os (entry_bytes t (dl_rest l keep)) \<Longrightarrow> rc = MDB_SUCCESS"
    using flush_pending_state [OF pre b td os, of f] by blast
  have "rc = MDB_SUCCESS \<Longrightarrow> fv_i v' > n" using w(3) i by auto
  then have "flush_step os (flush_state t l keep k f) n ?v = Some (True, rc, flush_state t l keep k g, v')"
    using flush_step_write(1) [OF disjI1 [OF ne] w(1)] by blast
  then have "flush_loop os (flush_state t l keep k f) n v = Some (rc, flush_state t l keep k g)"
    using i by (subst flush_loop.simps) (simp add: flush_fetch_def)
  then show ?thesis using w(2-4) by blast
qed

lemma flush_loop_state:
  assumes pre: "flush_pre t l keep" and inv: "loop_inv t l keep k v D P" and k: "k \<le> length (dl_rest l keep)" and os: "os_ok os"
    and n: "n = keep + length (dl_rest l keep)" and f: "f = put_entries t D f0"
  shows "\<exists>rc k' g. flush_loop os (flush_state t l keep k f) n v = Some (rc, flush_state t l keep k' g) \<and>
    same_outside (extents t (todo t (dl_rest l keep))) f g \<and>
    (rc = MDB_SUCCESS \<longrightarrow> k' = length (dl_rest l keep) \<and> g = put_entries t (todo t (dl_rest l keep)) f0) \<and>
    (os_good os (entry_bytes t (dl_rest l keep)) \<longrightarrow> rc = MDB_SUCCESS)"
  using inv k f
proof (induction "length (dl_rest l keep) - k" arbitrary: k v D P f)
  case 0
  then have k: "k = length (dl_rest l keep)" by simp
  have "put_entries t P f = put_entries t (todo t (dl_rest l keep)) f0" using 0(2,4) k by (simp add: loop_inv_def)
  then show ?case using flush_last_state [OF pre 0(2) k os n, of f] k by metis
next
  case (Suc m)
  then have k: "k < length (dl_rest l keep)" and m: "m = length (dl_rest l keep) - Suc k" by simp_all
  let ?e = "dl_rest l keep ! k" and ?v = "v\<lparr>fv_i := keep + Suc k\<rparr>"
  have i: "fv_i v = keep + k" using Suc.prems(1) by (simp add: loop_inv_def)
  have le: "keep + Suc k \<le> n" using k n by linarith
  note take = flush_take_state [OF pre k, of f]
  have fetch: "flush_fetch (flush_state t l keep k f) n ?v = Some (if skipped (heap_of t ?e) then None else
      Some (?v\<lparr>fv_pos := entry_pos t ?e, fv_size := entry_span t ?e, fv_dp := Some (mptr ?e)\<rparr>), flush_state t l keep (Suc k) f)"
    using take le by (simp add: flush_fetch_def)
  show ?case
  proof (cases "skipped (heap_of t ?e)")
    case True
    then have "todo t (take (Suc k) (dl_rest l keep)) = todo t (take k (dl_rest l keep))" using k by (simp add: todo_def take_Suc_conv_app_nth)
    then have "loop_inv t l keep (Suc k) ?v D P" using Suc.prems(1) by (simp add: loop_inv_def)
    moreover have "flush_loop os (flush_state t l keep k f) n v = flush_loop os (flush_state t l keep (Suc k) f) n ?v"
      using fetch True i by (subst flush_loop.simps) simp
    ultimately show ?thesis using Suc.hyps(1) [OF m, of ?v D P f] k Suc.prems(3) by simp
  next
    case False
    let ?v1 = "v\<lparr>fv_i := keep + Suc k, fv_pos := entry_pos t ?e, fv_size := entry_span t ?e, fv_dp := Some (mptr ?e)\<rparr>"
    obtain stop rc g v' D' P' where s: "flush_step os (flush_state t l keep (Suc k) f) n ?v1 = Some (stop, rc, flush_state t l keep (Suc k) g, v')"
      "same_outside (extents t (todo t (dl_rest l keep))) f g" "stop \<Longrightarrow> rc \<noteq> MDB_SUCCESS \<and> \<not> os_good os (entry_bytes t (dl_rest l keep))"
      "\<not> stop \<Longrightarrow> loop_inv t l keep (Suc k) v' D' P' \<and> (\<forall>f0. f = put_entries t D f0 \<longrightarrow> g = put_entries t D' f0)"
      using flush_step_state [OF pre Suc.prems(1) k os n refl False refl, of f] by blast
    have loop: "flush_loop os (flush_state t l keep k f) n v = (if stop then Some (rc, flush_state t l keep (Suc k) g) else flush_loop os (flush_state t l keep (Suc k) g) n v')"
      using fetch False i s(1) by (subst flush_loop.simps) simp
    show ?thesis
    proof (cases stop)
      case True
      then show ?thesis using loop s(2,3) by auto
    next
      case False
      then have inv': "loop_inv t l keep (Suc k) v' D' P'" "g = put_entries t D' f0" using s(4) Suc.prems(3) by blast+
      show ?thesis using Suc.hyps(1) [OF m inv'(1) _ inv'(2)] k loop False same_outside_trans [OF s(2)] by fastforce
    qed
  qed
qed

end
