(* ===== verification/Flush_Free.thy ===== *)
theory Flush_Free
  imports Flush_Loop
begin

text \<open>
  The end of \<open>mdb_page_flush\<close>: the pages that were skipped are moved together in the dirty list and the buffers of the pages
  that were written are released.
\<close>

definition kept :: "mdb_txn \<Rightarrow> page_ptr mdb_id2 list \<Rightarrow> page_ptr mdb_id2 list" where
  "kept t es = filter (\<lambda>e. skipped (heap_of t e)) es"

text \<open>A block of several pages is freed; a single page goes to the list of free buffers.\<close>

definition big :: "mdb_txn \<Rightarrow> page_ptr mdb_id2 \<Rightarrow> bool" where
  "big t e \<longleftrightarrow> IS_OVERFLOW (page_fl (heap_of t e)) \<and> le_nat (slice (heap_of t e) 12 4) \<noteq> 1"

definition buf_of :: "page_ptr mdb_id2 \<Rightarrow> nat" where
  "buf_of e = (case mptr e of PBuf a \<Rightarrow> a | PMap x \<Rightarrow> x)"

definition freed_heap :: "mdb_txn \<Rightarrow> page_ptr mdb_id2 list \<Rightarrow> (nat \<Rightarrow> page option) \<Rightarrow> nat \<Rightarrow> page option" where
  "freed_heap t es h a = (if \<exists>e \<in> set es. big t e \<and> mptr e = PBuf a then None else h a)"

definition freed :: "mdb_txn \<Rightarrow> page_ptr mdb_id2 list \<Rightarrow> mdb_txn \<Rightarrow> mdb_txn" where
  "freed t es u = u\<lparr>mt_env := (mt_env u)\<lparr>me_dpages := rev (map buf_of (filter (\<lambda>e. \<not> big t e) es)) @ me_dpages (mt_env u)\<rparr>,
     mt_heap := freed_heap t es (mt_heap u)\<rparr>"

lemma freed_heap_simps: "freed_heap t [] h = h" "freed_heap t es (freed_heap t [e] h) = freed_heap t (e # es) h"
  "freed_heap t [e] h = (if big t e then (\<lambda>a. if mptr e = PBuf a then None else h a) else h)"
  by (auto simp: freed_heap_def fun_eq_iff)

lemma freed_simps:
  "freed t [] u = u" "freed t es (freed t [e] u) = freed t (e # es) u" "own_dirty (freed t es u) = own_dirty u"
  "freed t es (set_own_dirty u d) = set_own_dirty (freed t es u) d"
  by (simp_all add: freed_def own_dirty_def set_own_dirty_def freed_heap_simps(1,2))

lemma set_own_twice: "set_own_dirty (set_own_dirty u d) d' = set_own_dirty u d'"
  by (simp add: set_own_dirty_def split: list.split)

lemma own_set_own: "own_dirty u \<noteq> None \<Longrightarrow> own_dirty (set_own_dirty u d) = Some d"
  by (auto simp: own_dirty_def set_own_dirty_def split: list.splits)

lemma marked_fields:
  assumes "16 \<le> length p"
  shows "le_nat (slice (marked p) 12 4) = le_nat (slice p 12 4)" "slice (marked p) 0 8 = slice p 0 8"
    "IS_OVERFLOW (page_fl (marked p)) = IS_OVERFLOW (page_fl p)"
proof -
  show "le_nat (slice (marked p) 12 4) = le_nat (slice p 12 4)" "slice (marked p) 0 8 = slice p 0 8"
    using assms by (simp_all add: marked_def slice_splice_other)
  have "page_fl p < 65536" using assms le_nat_slice_bound [of 10 2 p] by (simp add: page_fl_def)
  moreover have "int (x AND page_fl p) \<le> int (page_fl p)" for x by (simp add: of_nat_and_eq)
  ultimately have "x AND page_fl p < 65536" for x using order_le_less_trans [of "x AND page_fl p" "page_fl p" 65536] by simp
  then have f: "page_fl (marked p) = page_fl p AND u16_not (if skipped p then P_KEEP else P_DIRTY)"
    using assms by (simp add: page_fl_def marked_def and.commute)
  show "IS_OVERFLOW (page_fl (marked p)) = IS_OVERFLOW (page_fl p)"
    unfolding f by (simp add: IS_OVERFLOW_def F_ISSET_def P_OVERFLOW_def u16_not_def P_KEEP_def P_DIRTY_def and.assoc)
qed

lemma dpage_free_marked:
  assumes "mptr e = PBuf a" "mt_heap u a = Some (marked (heap_of t e))" "16 \<le> length (heap_of t e)"
  shows "mdb_dpage_free u a = Some (freed t [e] u)"
  using assms marked_fields [OF assms(3)] marked_length [OF assms(3)]
  by (auto simp: mdb_dpage_free_def byte_simps mp_flags_def freed_def freed_heap_simps big_def page_fl_def mdb_page_free_def upd_env_def buf_of_def
    fun_upd_def eq_commute [of a])

section \<open>The loop\<close>

text \<open>The entries \<open>es\<close> that are left, behind position \<open>i\<close> of the list \<open>d\<close>.\<close>

definition left :: "mdb_txn \<Rightarrow> mdb_txn \<Rightarrow> page_ptr mdb_id2 list \<Rightarrow> nat \<Rightarrow> page_ptr mdb_id2 list \<Rightarrow> bool" where
  "left t u d i es \<longleftrightarrow> i + length es < length d \<and> distinct (map mptr es) \<and>
     (\<forall>x < length es. d ! (i + 1 + x) = (if skipped (heap_of t (es ! x)) then (es ! x)\<lparr>mid := 0\<rparr> else es ! x)) \<and>
     (\<forall>e \<in> set es. dirty_ok t e \<and> (\<forall>a. mptr e = PBuf a \<longrightarrow> mt_heap u a = Some (marked (heap_of t e))))"

lemma left_tl:
  assumes "left t u d i (e # es)" "mt_heap u' = mt_heap u \<or> mt_heap u' = freed_heap t [e] (mt_heap u)" "length d' = length d" "\<And>x. x > i + 1 \<Longrightarrow> d' ! x = d ! x"
  shows "left t u' d' (i + 1) es"
proof -
  have "d' ! (i + 1 + 1 + x) = (if skipped (heap_of t (es ! x)) then (es ! x)\<lparr>mid := 0\<rparr> else es ! x)" if "x < length es" for x
    using assms(1) that assms(4) [of "i + 1 + 1 + x"] by (auto simp: left_def dest!: spec [of _ "Suc x"])
  moreover have "mt_heap u' a = Some (marked (heap_of t f))" if f: "f \<in> set es" "mptr f = PBuf a" for f a
  proof -
    have "mptr e \<notin> mptr ` set es" using assms(1) by (simp add: left_def)
    then have "mptr e \<noteq> PBuf a" using f by (metis image_eqI)
    then show ?thesis using assms(1,2) f by (auto simp: left_def freed_heap_simps)
  qed
  ultimately show ?thesis using assms(1,3) by (auto simp: left_def)
qed

lemma left_hd:
  assumes "left t u d i (e # es)"
  obtains a where "mptr e = PBuf a" "mt_heap u a = Some (marked (heap_of t e))" "16 \<le> length (heap_of t e)" "mid e \<noteq> 0"
    "le_nat (slice (heap_of t e) 0 8) = unat (mid e)" "c_read d (i + 1) = Some (if skipped (heap_of t e) then e\<lparr>mid := 0\<rparr> else e)"
proof -
  obtain a p where p: "mptr e = PBuf a" "mt_heap t a = Some p" "16 \<le> length p" "le_nat (slice p 0 8) = unat (mid e)" "mid e \<noteq> 0"
    using assms by (auto simp: left_def dirty_ok_def)
  then have "heap_of t e = p" by (simp add: heap_of_def)
  moreover have "c_read d (i + 1) = Some (if skipped (heap_of t e) then e\<lparr>mid := 0\<rparr> else e)"
    using assms by (auto simp: left_def c_read_def dest!: spec [of _ 0])
  ultimately show ?thesis using that p assms by (auto simp: left_def)
qed

lemma flush_free_state:
  assumes "own_dirty u = Some d" "left t u d i es" "j \<le> i"
  shows "\<exists>d'. flush_free u i j (length es) = Some (j + length (kept t es), set_own_dirty (freed t (todo t es) u) d') \<and>
    length d' = length d \<and> take (j + 1) d' = take (j + 1) d \<and> take (length (kept t es)) (drop (j + 1) d') = kept t es"
  using assms
proof (induction es arbitrary: u d i j)
  case Nil
  then have "set_own_dirty u d = u" by (auto simp: own_dirty_def set_own_dirty_def split: list.splits)
  then show ?case by (intro exI [of _ d]) (simp add: todo_def kept_def freed_simps)
next
  case (Cons e es)
  note le = Cons.prems(3)
  obtain a where e: "mptr e = PBuf a" "mt_heap u a = Some (marked (heap_of t e))" "16 \<le> length (heap_of t e)" "mid e \<noteq> 0"
    "le_nat (slice (heap_of t e) 0 8) = unat (mid e)" "c_read d (i + 1) = Some (if skipped (heap_of t e) then e\<lparr>mid := 0\<rparr> else e)"
    using left_hd [OF Cons.prems(2)] by metis
  have i: "i + 1 < length d" using Cons.prems(2) by (simp add: left_def)
  show ?case
  proof (cases "skipped (heap_of t e)")
    case False
    have "own_dirty (freed t [e] u) = Some d" using Cons.prems(1) by (simp add: freed_simps)
    moreover have "left t (freed t [e] u) d (i + 1) es" by (rule left_tl [OF Cons.prems(2)]) (simp_all add: freed_def)
    ultimately obtain d' where "flush_free (freed t [e] u) (i + 1) j (length es) = Some (j + length (kept t es), set_own_dirty (freed t (todo t es) (freed t [e] u)) d')"
      "length d' = length d" "take (j + 1) d' = take (j + 1) d" "take (length (kept t es)) (drop (j + 1) d') = kept t es"
      using Cons.IH [of "freed t [e] u" d "i + 1" j] le by auto
    then show ?thesis using False e(4,6) dpage_free_marked [where e = e and a = a, OF e(1-3)] Cons.prems(1)
      by (intro exI [of _ d']) (simp add: e(1) kept_def todo_def freed_simps(2))
  next
    case True
    let ?d = "d[j + 1 := e]"
    have ow: "own_dirty (set_own_dirty u ?d) = Some ?d" using Cons.prems(1) by (simp add: own_set_own)
    have lf: "left t (set_own_dirty u ?d) ?d (i + 1) es" by (rule left_tl [OF Cons.prems(2)]) (use le in \<open>simp_all add: set_own_dirty_def\<close>)
    obtain d' where d': "flush_free (set_own_dirty u ?d) (i + 1) (j + 1) (length es) =
        Some (j + 1 + length (kept t es), set_own_dirty (freed t (todo t es) (set_own_dirty u ?d)) d')"
      "length d' = length d" "take (j + 2) d' = take (j + 2) ?d" "take (length (kept t es)) (drop (j + 2) d') = kept t es"
      using Cons.IH [OF ow lf, of "j + 1"] le by auto
    have hdr: "do { h \<leftarrow> mem_bytes u (mptr e) 0 PAGEHDRSZ; mp_pgno h } = Some (unat (mid e))"
      using e(1-3,5) marked_fields(2) [OF e(3)] by (simp add: mem_bytes_def byte_simps marked_length PAGEHDRSZ_def mp_pgno_def slice_slice)
    have j: "j + 1 < length d'" using d'(2) i le by simp
    have "d' ! (j + 1) = take (j + 2) d' ! (j + 1)" using j by simp
    also have "\<dots> = ?d ! (j + 1)" unfolding d'(3) using j d'(2) by simp
    finally have at: "d' ! (j + 1) = e" using j d'(2) by simp
    have "take (j + 1) d' = take (j + 1) (take (j + 2) d')" by (simp add: min_def)
    also have "\<dots> = take (j + 1) d" unfolding d'(3) by (simp add: min_def)
    finally have tk: "take (j + 1) d' = take (j + 1) d" .
    have "drop (j + 1) d' = e # drop (j + 2) d'" using j at Cons_nth_drop_Suc [of "j + 1" d'] by simp
    moreover have "flush_free u i j (Suc (length es)) = flush_free (set_own_dirty u ?d) (i + 1) (j + 1) (length es)"
      using hdr True Cons.prems(1) e(6) le i by (auto simp: c_write_def split: Option.bind_splits)
    ultimately show ?thesis using d' tk True by (auto simp: kept_def todo_def freed_simps set_own_twice)
  qed
qed

end
