(* ===== verification/Flush_Spec.thy ===== *)
theory Flush_Spec
  imports Alloc_Spec Flush_Free
begin

text \<open>
  \<open>mdb_page_flush\<close> as a whole: which bytes of the file change, and the dirty list afterwards.
\<close>

lemma id2l_kept:
  assumes inv: "id2l_inv dl" and keep: "keep \<le> length (id2l_list dl)" and xs: "xs = filter P (drop keep (id2l_list dl))"
    and d: "length d = length dl" "take (keep + 1) d = take (keep + 1) dl" "take (length xs) (drop (keep + 1) d) = xs"
  defines "d' \<equiv> d[0 := (d ! 0)\<lparr>mid := of_nat (keep + length xs)\<rparr>]"
  shows "id2l_list d' = take keep (id2l_list dl) @ xs" "id2l_inv d'"
proof -
  have len: "length xs \<le> length (id2l_list dl) - keep" using length_filter_le [of P "drop keep (id2l_list dl)"] xs by simp
  have n: "length (id2l_list dl) = unat (mid (dl ! 0))" "unat (mid (dl ! 0)) < length dl" "unat (mid (dl ! 0)) \<le> MDB_IDL_UM_MAX"
    using inv id2l_list_length by (auto simp: id2l_inv_def)
  have c: "unat (mid (d' ! 0)) = keep + length xs"
  proof -
    have "unat (of_nat (keep + length xs) :: mdb_id) = keep + length xs"
      by (rule unat_of_nat_small) (use n len keep in \<open>simp add: MDB_IDL_UM_MAX_def\<close>)
    moreover have "d \<noteq> []" using n(2) d(1) by auto
    ultimately show ?thesis by (simp add: d'_def del: of_nat_add)
  qed
  obtain h r where dr: "d = h # r" using n(2) d(1) by (cases d) auto
  obtain h' r' where dl: "dl = h' # r'" using n(2) by (cases dl) auto
  have "take keep r = take keep r'" "take (length xs) (drop keep r) = xs" using d(2,3) dr dl by simp_all
  then have tk: "take (keep + length xs) r = take keep r' @ xs" by (simp add: take_add)
  have "take keep (id2l_list dl) = take keep r'" using keep n(1) by (simp add: id2l_list_def dl min_def)
  then show l: "id2l_list d' = take keep (id2l_list dl) @ xs" unfolding id2l_list_def [of d'] c using tk by (simp add: d'_def dr)
  have "sorted_wrt (<) (map mid (take keep (id2l_list dl) @ drop keep (id2l_list dl)))" using inv by (simp add: id2l_inv_def)
  then have "sorted_wrt (<) (map mid (take keep (id2l_list dl) @ xs))"
    unfolding xs map_append sorted_wrt_append by (auto simp: sorted_wrt_map intro: sorted_wrt_filter)
  then show "id2l_inv d'" unfolding id2l_inv_def l c using n len keep d(1) inv by (auto simp: d'_def id2l_inv_def)
qed

text \<open>The transaction after a flush that succeeds, when the file is \<open>g\<close> and the dirty list \<open>d\<close>.\<close>

definition flushed :: "mdb_txn \<Rightarrow> txn_level \<Rightarrow> nat \<Rightarrow> byte list \<Rightarrow> page_ptr mdb_id2 list \<Rightarrow> mdb_txn" where
  "flushed t l keep g d = (let W = todo t (dl_rest l keep) in
     t\<lparr>mt_env := (mt_env t)\<lparr>me_map := g, me_dpages := rev (map buf_of (filter (\<lambda>e. \<not> big t e) W)) @ me_dpages (mt_env t)\<rparr>,
       mt_heap := freed_heap t W (mark_heap (mt_heap t) (dl_rest l keep)), mt_levels := l\<lparr>dirty_list := d\<rparr> # tl (mt_levels t),
       mt_dirty_room := mt_dirty_room t + length W\<rparr>)"

lemma filter_split_length: "length (filter P xs) + length (filter (\<lambda>x. \<not> P x) xs) = length xs"
  by (induction xs) auto

lemma flush_done_eq:
  assumes "own_dirty v = Some d" "d \<noteq> []"
  shows "flush_done v n j = Some (MDB_SUCCESS, (set_own_dirty v (d[0 := (d ! 0)\<lparr>mid := of_nat j\<rparr>]))\<lparr>mt_dirty_room := u32 (mt_dirty_room v + n + 2 ^ 32 - j)\<rparr>)"
  using assms by (simp add: flush_done_def c_read_def c_write_def)

lemma flush_end:
  assumes pre: "flush_pre t l keep" and n: "n = keep + length (dl_rest l keep)"
  shows "\<exists>d. do { (j, u) \<leftarrow> flush_free (flush_state t l keep (length (dl_rest l keep)) g) keep keep (n - keep); flush_done u n j } =
      Some (MDB_SUCCESS, flushed t l keep g d) \<and> id2l_inv d \<and> id2l_list d = take keep (id2l_list (dirty_list l)) @ kept t (dl_rest l keep)"
proof -
  let ?E = "dl_rest l keep" and ?dl = "dirty_list l"
  let ?u = "flush_state t l keep (length ?E) g" and ?d0 = "mark_list t ?dl keep (length ?E)" and ?m = "length (kept t ?E)"
  have inv: "id2l_inv ?dl" "keep \<le> length (id2l_list ?dl)" and room: "mt_dirty_room t + length (id2l_list ?dl) \<le> MDB_IDL_UM_MAX"
    using pre by (auto simp: flush_pre_def)
  have own: "own_dirty ?u = Some ?d0" by (simp add: own_dirty_def flush_state_def)
  have len: "length ?d0 = length ?dl" "keep + length ?E < length ?dl"
    using inv(2) id2l_list_length [OF inv(1)] inv(1) by (simp_all add: mark_list_def id2l_inv_def)
  have lf: "left t ?u ?d0 keep ?E"
  proof -
    have "distinct (map mptr ?E)" using pre by (simp add: flush_pre_def distinct_drop drop_map [symmetric])
    moreover have "?d0 ! (keep + 1 + x) = (if skipped (heap_of t (?E ! x)) then (?E ! x)\<lparr>mid := 0\<rparr> else ?E ! x)" if x: "x < length ?E" for x
      unfolding entry_at(1) [OF pre x] using x len by (simp add: mark_list_def add.commute add.left_commute)
    moreover have "dirty_ok t e" if "e \<in> set ?E" for e using that pre set_drop_subset [of keep "id2l_list ?dl"] by (auto simp: flush_pre_def)
    moreover have "mt_heap ?u a = Some (marked (heap_of t e))" if "e \<in> set ?E" "mptr e = PBuf a" for e a
    proof -
      have "PBuf a \<in> mptr ` set ?E" using that by (metis image_eqI)
      moreover have "mt_heap t a = Some (heap_of t e)" by (rule entry_buf [OF pre that(1)]) (use that(2) in simp)
      ultimately show ?thesis by (simp add: flush_state_def mark_heap_def)
    qed
    ultimately show ?thesis using len by (simp add: left_def)
  qed
  obtain d where d: "flush_free ?u keep keep (length ?E) = Some (keep + ?m, set_own_dirty (freed t (todo t ?E) ?u) d)"
    "length d = length ?d0" "take (keep + 1) d = take (keep + 1) ?d0" "take ?m (drop (keep + 1) d) = kept t ?E"
    using flush_free_state [OF own lf order_refl] by blast
  have "take (keep + 1) ?d0 = take (keep + 1) ?dl" using len by (auto intro!: nth_equalityI simp: mark_list_def)
  then have tk: "take (keep + 1) d = take (keep + 1) ?dl" using d(3) by simp
  let ?d = "d[0 := (d ! 0)\<lparr>mid := of_nat (keep + ?m)\<rparr>]"
  note k = id2l_kept [OF inv kept_def d(2) [unfolded len(1)] tk d(4)]
  have sum: "?m + length (todo t ?E) = length ?E" unfolding kept_def todo_def by (rule filter_split_length)
  have le: "keep + length ?E = length (id2l_list ?dl)" using inv by simp
  have "mt_dirty_room t + n + 2 ^ 32 - (keep + ?m) = mt_dirty_room t + length (todo t ?E) + 2 ^ 32" using n sum by simp
  then have "u32 (mt_dirty_room t + n + 2 ^ 32 - (keep + ?m)) = (mt_dirty_room t + length (todo t ?E)) mod 2 ^ 32" unfolding u32_def by (simp only: mod_add_self2)
  then have rm: "u32 (mt_dirty_room t + n + 2 ^ 32 - (keep + ?m)) = mt_dirty_room t + length (todo t ?E)"
    using room le sum by (simp add: MDB_IDL_UM_MAX_def)
  let ?v = "set_own_dirty (freed t (todo t ?E) ?u) d"
  have ow: "own_dirty ?v = Some d" using own by (simp add: own_set_own freed_simps)
  have v: "mt_dirty_room ?v = mt_dirty_room t" by (simp add: set_own_dirty_def freed_def flush_state_def)
  have ne: "d \<noteq> []" using len(2) d(2) len(1) by auto
  have "flush_done ?v n (keep + ?m) = Some (MDB_SUCCESS, (set_own_dirty ?v ?d)\<lparr>mt_dirty_room := mt_dirty_room t + length (todo t ?E)\<rparr>)"
    unfolding flush_done_eq [OF ow ne] v rm ..
  also have "(set_own_dirty ?v ?d)\<lparr>mt_dirty_room := mt_dirty_room t + length (todo t ?E)\<rparr> = flushed t l keep g ?d"
    unfolding set_own_twice by (simp add: flushed_def set_own_dirty_def freed_def flush_state_def Let_def)
  finally show ?thesis using d(1) k n by (intro exI [of _ ?d]) simp
qed

lemma mdb_page_flush_state:
  assumes pre: "flush_pre t l keep" and os: "os_ok os"
  shows "\<exists>rc t'. mdb_page_flush os t keep = Some (rc, t') \<and> same_outside (extents t (todo t (dl_rest l keep))) (me_map (mt_env t)) (me_map (mt_env t')) \<and>
    (rc = MDB_SUCCESS \<longrightarrow> (\<exists>d. t' = flushed t l keep (put_entries t (todo t (dl_rest l keep)) (me_map (mt_env t))) d \<and> id2l_inv d \<and>
       id2l_list d = take keep (id2l_list (dirty_list l)) @ kept t (dl_rest l keep))) \<and>
    (os_good os (entry_bytes t (dl_rest l keep)) \<longrightarrow> rc = MDB_SUCCESS)"
proof -
  let ?E = "dl_rest l keep" and ?f = "me_map (mt_env t)"
  have ml: "mark_list t (dirty_list l) keep 0 = dirty_list l"
    by (rule nth_equalityI) (auto simp: mark_list_def)
  let ?v = "\<lparr>fv_i = keep, fv_pos = 0, fv_size = 0, fv_dp = None, fv_next = 1, fv_wpos = 0, fv_wsize = 0, fv_iov = [], fv_count = 0\<rparr>"
  obtain ls where lv: "mt_levels t = l # ls" using pre by (cases "mt_levels t") (auto simp: flush_pre_def)
  have inv: "id2l_inv (dirty_list l)" "keep \<le> length (id2l_list (dirty_list l))" using pre by (auto simp: flush_pre_def)
  define n where "n = keep + length ?E"
  have n: "unat (mid (dirty_list l ! 0)) = n" using inv id2l_list_length [OF inv(1)] by (simp add: n_def)
  have c: "c_read (dirty_list l) 0 = Some (dirty_list l ! 0)" "u32 n = n"
    using inv(1) n by (auto simp: id2l_inv_def c_read_def u32_def MDB_IDL_UM_MAX_def)
  have st: "flush_state t l keep 0 ?f = t"
  proof -
    have "mark_heap (mt_heap t) [] = mt_heap t" by (simp add: mark_heap_def fun_eq_iff)
    then show ?thesis by (simp add: flush_state_def lv ml)
  qed
  have "loop_inv t l keep 0 ?v [] []" by (simp add: loop_inv_def todo_def batch_def)
  from flush_loop_state [OF pre this _ os n_def, of ?f ?f] obtain rc k g where
    lp: "flush_loop os t n ?v = Some (rc, flush_state t l keep k g)" "same_outside (extents t (todo t ?E)) ?f g"
    "rc = MDB_SUCCESS \<Longrightarrow> k = length ?E \<and> g = put_entries t (todo t ?E) ?f" "os_good os (entry_bytes t ?E) \<Longrightarrow> rc = MDB_SUCCESS"
    unfolding st by auto
  have fl: "mdb_page_flush os t keep = (if rc \<noteq> MDB_SUCCESS then Some (rc, flush_state t l keep k g)
      else do { (j, u) \<leftarrow> flush_free (flush_state t l keep k g) keep keep (n - keep); flush_done u n j })"
    using pre lp(1) c n by (simp add: mdb_page_flush_def own_dirty_def lv flush_pre_def Let_def)
  show ?thesis
  proof (cases "rc = MDB_SUCCESS")
    case True
    then obtain d where "mdb_page_flush os t keep = Some (MDB_SUCCESS, flushed t l keep g d)" "id2l_inv d"
      "id2l_list d = take keep (id2l_list (dirty_list l)) @ kept t ?E"
      using flush_end [OF pre n_def, of g] fl lp(3) by auto
    then show ?thesis using lp(2,3) True by (auto simp: flushed_def Let_def)
  qed (use fl lp in \<open>auto simp: flush_state_def\<close>)
qed

lemma flushed_fields:
  "me_map (mt_env (flushed t l keep g d)) = g" "mt_levels (flushed t l keep g d) = l\<lparr>dirty_list := d\<rparr> # tl (mt_levels t)"
  "mt_dirty_room (flushed t l keep g d) = mt_dirty_room t + length (todo t (dl_rest l keep))"
  by (simp_all add: flushed_def Let_def)

lemma flushed_kept:
  assumes pre: "flush_pre t l keep" and e: "e \<in> set (kept t (dl_rest l keep))"
  shows "heap_of (flushed t l keep g d) e = marked (heap_of t e)"
proof -
  have mem: "e \<in> set (dl_rest l keep)" "skipped (heap_of t e)" using e by (auto simp: kept_def)
  obtain a p where p: "mptr e = PBuf a" "mt_heap t a = Some p" "heap_of t e = p" using entry_buf [OF pre mem(1)] by metis
  have inj: "inj_on mptr (set (dl_rest l keep))"
    using pre by (simp add: flush_pre_def distinct_map inj_on_subset [OF _ set_drop_subset])
  have "mptr f \<noteq> PBuf a" if f: "f \<in> set (todo t (dl_rest l keep))" for f
  proof
    assume "mptr f = PBuf a"
    then have "f = e" using inj_onD [OF inj, of f e] f mem(1) p(1) by (simp add: todo_def)
    then show False using f mem(2) by (simp add: todo_def)
  qed
  moreover have "PBuf a \<in> mptr ` set (dl_rest l keep)" using mem(1) p(1) by (metis image_eqI)
  ultimately show ?thesis using p by (auto simp: heap_of_def flushed_def Let_def freed_heap_def mark_heap_def)
qed

lemma flushed_written:
  assumes pre: "flush_pre t l keep" and e: "e \<in> set (todo t (dl_rest l keep))"
  shows "if big t e then mt_heap (flushed t l keep g d) (buf_of e) = None else buf_of e \<in> set (me_dpages (mt_env (flushed t l keep g d)))"
proof -
  have "e \<in> set (dl_rest l keep)" using e by (simp add: todo_def)
  then obtain a where "mptr e = PBuf a" using entry_buf [OF pre] by metis
  then have "mt_heap (flushed t l keep g d) (buf_of e) = None" if "big t e"
    using e that by (auto simp: flushed_def Let_def freed_heap_def buf_of_def)
  moreover have "buf_of e \<in> buf_of ` {x \<in> set (todo t (dl_rest l keep)). \<not> big t x}" if "\<not> big t e" using e that by blast
  ultimately show ?thesis by (simp add: flushed_def Let_def)
qed

section \<open>The property\<close>

text \<open>The pages of the dirty list do not overlap.\<close>

definition spans_apart :: "mdb_txn \<Rightarrow> page_ptr mdb_id2 list \<Rightarrow> bool" where
  "spans_apart t es \<longleftrightarrow> sorted_wrt (\<lambda>e e'. entry_pos t e + entry_span t e \<le> entry_pos t e') es"

text \<open>C11: \<open>mdb_page_flush\<close> of a transaction whose dirty pages have buffers of their own and do not overlap returns, however the system
  calls answer, and no byte of the file outside the dirty pages that are written is changed, not even by a write that fails half
  way.  When it succeeds, and it does when all calls succeed, the file has every page that is neither loose nor to be kept at its position,
  with the dirty flag cleared, the dirty list has the other pages in their order, their buffers have lost the keep flag only, the room of
  the list has grown by the number of pages written, and their buffers have been released.\<close>

theorem mdb_page_flush_correct:
  assumes pre: "flush_pre t l keep" and apart: "spans_apart t (dl_rest l keep)" and os: "os_ok os"
  shows "\<exists>rc t'. mdb_page_flush os t keep = Some (rc, t') \<and>
    same_outside (extents t (todo t (dl_rest l keep))) (me_map (mt_env t)) (me_map (mt_env t')) \<and>
    (rc = MDB_SUCCESS \<longrightarrow>
      (\<forall>e \<in> set (todo t (dl_rest l keep)). get_bytes (me_map (mt_env t')) (entry_pos t e) (entry_span t e) = Some (entry_image t e)) \<and>
      id2l_inv (dirty_list (hd (mt_levels t'))) \<and>
      id2l_list (dirty_list (hd (mt_levels t'))) = take keep (id2l_list (dirty_list l)) @ kept t (dl_rest l keep) \<and>
      (\<forall>e \<in> set (kept t (dl_rest l keep)). heap_of t' e = marked (heap_of t e)) \<and>
      mt_dirty_room t' = mt_dirty_room t + length (todo t (dl_rest l keep)) \<and>
      (\<forall>e \<in> set (todo t (dl_rest l keep)). if big t e then mt_heap t' (buf_of e) = None else buf_of e \<in> set (me_dpages (mt_env t')))) \<and>
    (os_good os (entry_bytes t (dl_rest l keep)) \<longrightarrow> rc = MDB_SUCCESS)"
proof -
  let ?E = "dl_rest l keep" and ?W = "todo t (dl_rest l keep)"
  obtain rc t' where r: "mdb_page_flush os t keep = Some (rc, t')" "same_outside (extents t ?W) (me_map (mt_env t)) (me_map (mt_env t'))"
    "os_good os (entry_bytes t ?E) \<longrightarrow> rc = MDB_SUCCESS"
    "rc = MDB_SUCCESS \<Longrightarrow> \<exists>d. t' = flushed t l keep (put_entries t ?W (me_map (mt_env t))) d \<and> id2l_inv d \<and>
       id2l_list d = take keep (id2l_list (dirty_list l)) @ kept t ?E"
    using mdb_page_flush_state [OF pre os] by blast
  have sub: "e \<in> set ?E" if "e \<in> set ?W" for e using that todo_set by fastforce
  note len = entry_image_length [OF pre sub]
  have "sorted_wrt (\<lambda>e e'. entry_pos t e + entry_span t e \<le> entry_pos t e') ?W"
    using apart unfolding spans_apart_def todo_def by (rule sorted_wrt_filter)
  then have srt: "sorted_wrt (\<lambda>e e'. entry_pos t e + length (entry_image t e) \<le> entry_pos t e') ?W"
    by (rule sorted_wrt_mono_rel [rotated]) (simp add: len)
  have "get_bytes (put_entries t ?W f) (entry_pos t e) (entry_span t e) = Some (entry_image t e)" if "e \<in> set ?W" for e f
    using put_all_get [OF srt that] len [OF that] by simp
  moreover have "heap_of (flushed t l keep g d) e = marked (heap_of t e)" if "e \<in> set (kept t ?E)" for e g d
    by (rule flushed_kept [OF pre that])
  moreover have "if big t e then mt_heap (flushed t l keep g d) (buf_of e) = None else buf_of e \<in> set (me_dpages (mt_env (flushed t l keep g d)))"
    if "e \<in> set ?W" for e g d
    by (rule flushed_written [OF pre that])
  ultimately show ?thesis using r by (intro exI [of _ rc] exI [of _ t']) (auto simp: flushed_fields)
qed

text \<open>A transaction with one dirty page, page 2.\<close>

definition sample_dirty :: page where
  "sample_dirty = le_bytes 8 2 @ [0, 0] @ le_bytes 2 0x12 @ replicate 52 7"

definition sample_flush_level :: txn_level where
  "sample_flush_level = \<lparr>mt_spill_pgs = None, dirty_list = \<lparr>mid = 1, mptr = PMap 0\<rparr> # \<lparr>mid = 2, mptr = PBuf 0\<rparr> # replicate 131070 \<lparr>mid = 0, mptr = PMap 0\<rparr>\<rparr>"

definition sample_flush :: mdb_txn where
  "sample_flush = sample_wtxn\<lparr>mt_heap := [0 \<mapsto> sample_dirty], mt_levels := [sample_flush_level], mt_dirty_room := 131070, mt_next_pgno := 3\<rparr>"

lemma sample_flush_list: "id2l_list (dirty_list sample_flush_level) = [\<lparr>mid = 2, mptr = PBuf 0\<rparr>]"
  by (simp add: sample_flush_level_def id2l_list_def)

lemma sample_flush_page:
  "heap_of sample_flush \<lparr>mid = 2, mptr = PBuf 0\<rparr> = sample_dirty" "page_fl sample_dirty = 18" "\<not> skipped sample_dirty" "length sample_dirty = 64"
  "le_nat (slice sample_dirty 0 8) = 2"
proof -
  show fl: "page_fl sample_dirty = 18" by code_simp
  then show "\<not> skipped sample_dirty" by (simp add: skipped_def P_LOOSE_def P_KEEP_def)
qed (simp_all add: heap_of_def sample_flush_def, simp_all add: sample_dirty_def slice_def)

lemma sample_flush_span: "entry_span sample_flush \<lparr>mid = 2, mptr = PBuf 0\<rparr> = 64" "entry_pos sample_flush \<lparr>mid = 2, mptr = PBuf 0\<rparr> = 128"
  using sample_flush_page(1,2)
  by (simp_all add: entry_span_def entry_pos_def page_span_def IS_OVERFLOW_def F_ISSET_def P_OVERFLOW_def) (simp_all add: sample_flush_def sample_wtxn_def sample_wenv_def)

lemma sample_flush_pre: "flush_pre sample_flush sample_flush_level 0" "spans_apart sample_flush (dl_rest sample_flush_level 0)"
proof -
  have "id2l_inv (dirty_list sample_flush_level)" unfolding id2l_inv_def sample_flush_list by (simp add: sample_flush_level_def MDB_IDL_UM_MAX_def)
  moreover have "dirty_ok sample_flush \<lparr>mid = 2, mptr = PBuf 0\<rparr>"
    using sample_flush_page(4,5) by (simp add: dirty_ok_def sample_flush_span) (simp add: sample_flush_def)
  ultimately show "flush_pre sample_flush sample_flush_level 0"
    unfolding flush_pre_def sample_flush_list by (simp add: MDB_IDL_UM_MAX_def) (simp add: sample_flush_def sample_wtxn_def sample_wenv_def)
  show "spans_apart sample_flush (dl_rest sample_flush_level 0)" by (simp add: spans_apart_def sample_flush_list)
qed

lemma sample_flush_image: "entry_image sample_flush \<lparr>mid = 2, mptr = PBuf 0\<rparr> = le_bytes 8 2 @ [0, 0] @ le_bytes 2 2 @ replicate 52 7"
proof -
  have "slice (splice sample_dirty 10 (le_bytes 2 (18 AND u16_not P_DIRTY))) 0 64 = le_bytes 8 2 @ [0, 0] @ le_bytes 2 2 @ replicate 52 7"
    by (simp add: sample_dirty_def slice_def splice_def u16_not_def P_DIRTY_def)
  then show ?thesis using sample_flush_page by (simp add: entry_image_def marked_def sample_flush_span)
qed

theorem mdb_page_flush_correct_witness:
  "flush_pre sample_flush sample_flush_level 0 \<and> spans_apart sample_flush (dl_rest sample_flush_level 0) \<and>
   (\<exists>t'. mdb_page_flush \<lparr>fo_seek = (\<lambda>_. None), fo_write = (\<lambda>_. Done 64)\<rparr> sample_flush 0 = Some (MDB_SUCCESS, t') \<and>
     get_bytes (me_map (mt_env t')) 128 64 = Some (le_bytes 8 2 @ [0, 0] @ le_bytes 2 2 @ replicate 52 7) \<and>
     id2l_list (dirty_list (hd (mt_levels t'))) = [] \<and> mt_dirty_room t' = 131071 \<and> 0 \<in> set (me_dpages (mt_env t')))"
proof -
  let ?os = "\<lparr>fo_seek = (\<lambda>_. None), fo_write = (\<lambda>_. Done 64)\<rparr>" and ?e = "\<lparr>mid = 2, mptr = PBuf 0\<rparr>"
  have os: "os_ok ?os" "os_good ?os (entry_bytes sample_flush (dl_rest sample_flush_level 0))"
    by (simp_all add: os_ok_def os_good_def entry_bytes_def sample_flush_list sample_flush_span)
  have td: "todo sample_flush (dl_rest sample_flush_level 0) = [?e]" "kept sample_flush (dl_rest sample_flush_level 0) = []"
    using sample_flush_page(1,3) by (simp_all add: todo_def kept_def sample_flush_list)
  have b: "\<not> big sample_flush ?e" using sample_flush_page(1,2) by (simp add: big_def IS_OVERFLOW_def F_ISSET_def P_OVERFLOW_def)
  have room: "mt_dirty_room sample_flush = 131070" by (simp add: sample_flush_def)
  obtain rc t' where r: "mdb_page_flush ?os sample_flush 0 = Some (rc, t')" "rc = MDB_SUCCESS"
    "get_bytes (me_map (mt_env t')) (entry_pos sample_flush ?e) (entry_span sample_flush ?e) = Some (entry_image sample_flush ?e)"
    "id2l_list (dirty_list (hd (mt_levels t'))) = take 0 (id2l_list (dirty_list sample_flush_level)) @ []"
    "mt_dirty_room t' = 131070 + length [?e]" "buf_of ?e \<in> set (me_dpages (mt_env t'))"
    using mdb_page_flush_correct [OF sample_flush_pre os(1)] os(2) b unfolding td room by (metis list.set_intros(1))
  have "get_bytes (me_map (mt_env t')) 128 64 = Some (le_bytes 8 2 @ [0, 0] @ le_bytes 2 2 @ replicate 52 7)"
    using r(3) unfolding sample_flush_span sample_flush_image .
  moreover have "id2l_list (dirty_list (hd (mt_levels t'))) = []" "mt_dirty_room t' = 131071" "0 \<in> set (me_dpages (mt_env t'))"
    using r(4-6) by (simp_all add: buf_of_def)
  ultimately show ?thesis using r(1,2) sample_flush_pre by blast
qed

end
