(* ===== verification/Spec2Isabelle.thy ===== *)
theory Spec2Isabelle
  imports Midl_Sort Compare Page_Search Page_Nodes Page_Space Reader Alloc_Spec Txn_Claims Reader_Table Touch_Spec Split_Spec Flush_Spec
begin

text \<open>
  Verification of the storage engine behind the legacy message database of Telegram for iOS:
  \<open>midl.c\<close>, \<open>midl.h\<close> and \<open>mdb.c\<close> (LMDB) in \<open>src/LegacyDatabase\<close>, and the key-value reader that the application
  puts on top of it (\<open>PSLMDBKeyValueReaderWriter.m\<close>, \<open>PSLMDBKeyValueCursor.m\<close>).

  \<^bold>\<open>The program.\<close>  An environment is one data file, mapped into memory.  Its first two pages are meta pages: each names
  a transaction, the roots of two databases, and the last page in use.  A database is a B+-tree of pages; the \<^emph>\<open>main\<close> database
  holds the roots of the named ones, the \<^emph>\<open>free\<close> database the page numbers that each transaction gave up.  One writer at
  a time works on copies of pages in buffers (the dirty list) and commits by overwriting the older meta page; any number of
  readers work on the snapshot of the transaction that was the last one when they started, and register in a table of
  reader slots, which keeps the writer from reusing pages that they can see.  The application opens all its databases with
  \<open>MDB_CREATE\<close> only and its environment with \<open>MDB_NOSYNC\<close>, reads with cursors, and does not nest transactions.

  \<^bold>\<open>Conventions.\<close>  A C function becomes a HOL function over explicit state.  The outer \<open>option\<close> of a result is
  undefined behaviour or a failed assertion: an access outside an array or a page (\<open>c_read\<close>, \<open>c_write\<close>, \<open>get_bytes\<close>,
  \<open>put_bytes\<close>), the use of a null pointer, a store into the read-only map.  A theorem that a function returns \<open>Some\<close> is
  therefore also one of memory safety.  Error codes are the datatype \<open>rc\<close>.  Page numbers, offsets and counters are
  natural numbers, reduced with \<open>u16\<close> and \<open>u32\<close> where the code stores them in 16 or 32 bits; IDs in ID lists are 64-bit
  words.  What the operating system and \<open>malloc\<close> answer are arguments or fields: \<open>mt_oom\<close> and \<open>mt_junk\<close> say which
  requests for memory fail and what a new block holds, \<open>io\<close> how much of a read or write is done, \<open>thread_os\<close> and
  \<open>check_os\<close> the results of locking and of \<open>fcntl\<close>; the theorems hold for all of them, or name what they need.
  The platform is the one of the application: 64 bits, little endian, POSIX semaphores instead of robust mutexes.

  \<^bold>\<open>Termination.\<close>  Loops are structural recursion, \<open>function\<close> with a measure, or \<open>partial_function (option)\<close>
  (\<open>sort_loop\<close>, \<open>mdb_page_search_root\<close>, \<open>page_alloc_loop\<close>, \<open>move_loop\<close>, \<open>flush_loop\<close>, the enumeration \<open>walk\<close>), where not returning is \<^term>\<open>None\<close>; that they
  return is part of the theorems about them.  The only fuel is the depth two of \<open>page_search_n\<close>: \<open>mdb_page_search\<close> calls itself
  once to refresh the record of a named database from the main one, which is never stale itself.

  \<^bold>\<open>The theories, in the order of the code they model.\<close>
    \<^item> \<open>Prelude\<close>, \<open>Bytes\<close>, \<open>Bsearch\<close>: arrays, bytes and little-endian words, unsigned arithmetic; the locale \<open>bsearch\<close>, the contract
      of the three binary searches of the code (ID lists, dirty list, process IDs), interpreted on each of them.
    \<^item> \<open>Midl\<close>, \<open>Midl_Sort\<close> (\<open>midl.c\<close>): ID lists with their hidden capacity word, the sorted list of pairs of page number and
      pointer, and the quicksort with its explicit stack.  Searching, merging, inserting and sorting do what they say and stay
      inside their blocks; \<open>mdb_midl_shrink\<close> leaves a block that is one word short of its recorded capacity.
    \<^item> \<open>Compare\<close> (\<open>mdb_cmp_*\<close>): the key comparisons; the locale \<open>key_order\<close> says that they are total orders on the keys they are
      meant for, with an interpretation for each.
    \<^item> \<open>Page\<close>, \<open>Page_View\<close>, \<open>Page_Search\<close>, \<open>Page_Nodes\<close>, \<open>Page_Space\<close>: a page as its bytes, the layout macros, \<open>mdb_node_search\<close>,
      \<open>mdb_node_add\<close>, \<open>mdb_node_del\<close>, \<open>mdb_node_shrink\<close>, \<open>mdb_page_copy\<close>, \<open>mdb_leaf_size\<close>, \<open>mdb_branch_size\<close>.  The abstraction
      of a page is the list of its nodes (\<open>page_nodes\<close>) under the layout invariant \<open>page_inv\<close>; the operations refine insertion
      into, deletion from and search of that list.
    \<^item> \<open>Store\<close>: environment, transaction, page pointers and \<open>mdb_page_get\<close>, which looks through spilled pages and dirty lists to
      the map.
    \<^item> \<open>Cursor\<close>, \<open>Tree\<close>, \<open>Cursor_Path\<close>, \<open>Cursor_Spec\<close>, \<open>Cursor_Set\<close>, \<open>Cursor_Ops\<close>: cursors.  \<open>entries\<close> is the list of the records of a
      tree, \<open>db_ok\<close> its invariant, and a cursor stands for a position in that list (\<open>cursor_at\<close>); \<open>mdb_get\<close> and every operation of
      \<open>mdb_cursor_get\<close> are shown to refine lookup and movement in the list.
    \<^item> \<open>Reader\<close>: the Objective-C cursor and \<open>enumerateKeysAndValues\<close>, with the locale \<open>ordered_walk\<close> interpreted on its two
      directions.
    \<^item> \<open>Alloc\<close>, \<open>Frame\<close>, \<open>Alloc_Lists\<close>, \<open>Free_List\<close>, \<open>Alloc_Spec\<close>: page buffers, loose pages, the dirty list, \<open>mdb_find_oldest\<close> and
      \<open>mdb_page_alloc\<close>.  The invariant \<open>alloc_ok\<close> separates the pool of available pages from all pages in use; an allocation keeps it,
      and takes only pages that no reader can see.
    \<^item> \<open>Touch\<close>, \<open>Page_Touch\<close>, \<open>Touch_State\<close>, \<open>Touch_Page\<close>, \<open>Touch_Tree\<close>, \<open>Touch_Cursor\<close>, \<open>Touch_Stack\<close>, \<open>Touch_Spec\<close>: copy on write
      (\<open>mdb_page_unspill\<close>, \<open>mdb_page_touch\<close>, \<open>mdb_cursor_touch\<close>).  The pages above a cursor are replaced by dirty copies with new
      numbers (\<open>replaced\<close>); the tree keeps its invariant and its records, and the mapped file is not written.
    \<^item> \<open>Split\<close>, \<open>Split_Point\<close>, \<open>Split_Move\<close>, \<open>Split_Loop\<close>, \<open>Split_Spec\<close>: the split of a page in \<open>mdb_page_split\<close>: the choice of the split point,
      the separator, and the distribution of the nodes by way of a temporary page.  Both pages have room when the code looks at the
      sizes of the nodes; in the other case, a page of twenty nodes or more, it splits by number only, and the left page may be too full.
    \<^item> \<open>Flush\<close>, \<open>Flush_File\<close>, \<open>Flush_Loop\<close>, \<open>Flush_Free\<close>, \<open>Flush_Spec\<close>: writing the dirty pages to the file (\<open>mdb_page_flush\<close>).  Neighbouring
      pages are gathered into one write; that has the effect of writing them one by one, and a failed write spoils dirty pages only.
    \<^item> \<open>Meta\<close>, \<open>Meta_Spec\<close>: reading, creating and writing the meta pages, and opening an environment (\<open>mdb_env_open2\<close>).  The bytes of
      a meta page round-trip; a write that stops after any number of bytes leaves the old or the new transaction.
    \<^item> \<open>Txn\<close>, \<open>Txn_Spec\<close>, \<open>Txn_System\<close>, \<open>Txn_Live\<close>, \<open>Txn_Claims\<close>: starting, renewing, resetting and aborting transactions, and the
      last steps of a commit.  The transactions of a process are a state machine (\<open>step\<close>, \<open>reachable\<close>); its invariant \<open>sys_ok\<close> gives
      each reader a slot of its own, which bounds what the writer may reuse.
    \<^item> \<open>Reader_Table\<close>: \<open>mdb_reader_check\<close>, which removes the slots of dead processes.

  \<^bold>\<open>Not modelled.\<close>  Sorted duplicates (\<open>mc_xcursor\<close>; the model returns \<^term>\<open>None\<close> where the code would use it) and nested
  transactions, since the application uses neither; the write path above single pages (\<open>mdb_cursor_put\<close>, \<open>mdb_cursor_del\<close>,
  the parents in \<open>mdb_page_split\<close>, \<open>mdb_rebalance\<close>), spilling (\<open>mdb_page_spill\<close>) and saving the free list (\<open>mdb_freelist_save\<close>), of which the
  state machine keeps the frame \<open>writer_work\<close> only; the set-up of the lock file, copying and closing of environments, the statistics and
  listing functions, which are system calls and output; Windows and robust-mutex variants.  Outside the engine: SQLite and the media
  libraries are third-party code, and the network protocol and user interface are Objective-C and Swift.
\<close>

end
